(* ===== verification/Luna_Prelude.thy ===== *)
theory Luna_Prelude
  imports Main "HOL-Library.Word"
begin

text \<open>
  Shared vocabulary of the development: machine-word abbreviations, the C library operations
  on byte arrays (\<open>memcpy\<close>, \<open>memset\<close>), the bounded search loops
  \<open>for (i = 0; i < n; i++) if (P(i)) ...\<close> that every table of the program uses, the counting
  and summing facts over tables, and the log of seL4 system calls that the components issue.
\<close>

named_theorems luna_consts \<open>values of the C macros\<close>
named_theorems mem_simps \<open>reading copied and filled arrays\<close>

type_synonym u8 = "8 word"
type_synonym u16 = "16 word"
type_synonym u32 = "32 word"
type_synonym u64 = "64 word"
type_synonym cptr = u64
type_synonym bytes = "nat \<Rightarrow> u8"

section \<open>Arrays of bytes\<close>

text \<open>
  An array is a function from indexes; \<open>memcpy_at d i s j n\<close> is
  \<open>memcpy(d + i, s + j, n)\<close> and \<open>memset_at d i n v\<close> is \<open>memset(d + i, v, n)\<close>.
\<close>

definition memcpy_at :: "(nat \<Rightarrow> 'a) \<Rightarrow> nat \<Rightarrow> (nat \<Rightarrow> 'a) \<Rightarrow> nat \<Rightarrow> nat \<Rightarrow> (nat \<Rightarrow> 'a)" where
  "memcpy_at d i s j n = (\<lambda>k. if i \<le> k \<and> k < i + n then s (j + (k - i)) else d k)"

definition memset_at :: "(nat \<Rightarrow> 'a) \<Rightarrow> nat \<Rightarrow> nat \<Rightarrow> 'a \<Rightarrow> (nat \<Rightarrow> 'a)" where
  "memset_at d i n v = (\<lambda>k. if i \<le> k \<and> k < i + n then v else d k)"

definition slice :: "(nat \<Rightarrow> 'a) \<Rightarrow> nat \<Rightarrow> nat \<Rightarrow> 'a list" where
  "slice a i n = map a [i..<i + n]"

lemma memcpy_at_inside [mem_simps]: "k < n \<Longrightarrow> memcpy_at d i s j n (i + k) = s (j + k)"
  by (simp add: memcpy_at_def)

lemma memcpy_at_outside [mem_simps]: "k < i \<or> i + n \<le> k \<Longrightarrow> memcpy_at d i s j n k = d k"
  by (auto simp: memcpy_at_def)

lemma memcpy_at_cong:
  assumes "\<And>k. k < n \<Longrightarrow> s (j + k) = s' (j' + k)"
  shows "memcpy_at d i s j n = memcpy_at d i s' j' n"
  unfolding memcpy_at_def
proof
  fix k
  show "(if i \<le> k \<and> k < i + n then s (j + (k - i)) else d k) =
      (if i \<le> k \<and> k < i + n then s' (j' + (k - i)) else d k)"
    using assms [of "k - i"] by auto
qed

lemma memset_at_inside [mem_simps]: "i \<le> k \<Longrightarrow> k < i + n \<Longrightarrow> memset_at d i n v k = v"
  by (simp add: memset_at_def)

lemma memset_at_outside [mem_simps]: "k < i \<or> i + n \<le> k \<Longrightarrow> memset_at d i n v k = d k"
  by (auto simp: memset_at_def)

lemma slice_length [simp]: "length (slice a i n) = n"
  by (simp add: slice_def)

lemma slice_nth [simp]: "k < n \<Longrightarrow> slice a i n ! k = a (i + k)"
  by (simp add: slice_def)

lemma slice_cong: "(\<And>k. k < n \<Longrightarrow> a (i + k) = b (j + k)) \<Longrightarrow> slice a i n = slice b j n"
  by (rule nth_equalityI) simp_all

lemma slice_memcpy_same [mem_simps]: "slice (memcpy_at d i s j n) i n = slice s j n"
  by (rule slice_cong) (simp add: mem_simps)

lemma slice_memcpy_other [mem_simps]:
  "k + m \<le> i \<or> i + n \<le> k \<Longrightarrow> slice (memcpy_at d i s j n) k m = slice d k m"
  by (rule slice_cong) (auto simp: memcpy_at_def)

lemma slice_append: "slice a i (m + n) = slice a i m @ slice a (i + m) n"
proof -
  have "[i..<i + (m + n)] = [i..<i + m] @ [i + m..<i + m + n]"
    using upt_add_eq_append [of i "i + m" n] by (simp add: add.assoc)
  then show ?thesis unfolding slice_def by (simp only: map_append)
qed

section \<open>Bounded search\<close>

text \<open>The first index \<open>i\<close> of \<open>[start, start + n)\<close> with \<open>P i\<close>, as a loop with a \<open>break\<close> finds it.\<close>

fun first_from :: "(nat \<Rightarrow> bool) \<Rightarrow> nat \<Rightarrow> nat \<Rightarrow> nat option" where
  "first_from P i 0 = None"
| "first_from P i (Suc n) = (if P i then Some i else first_from P (Suc i) n)"

abbreviation first_index :: "(nat \<Rightarrow> bool) \<Rightarrow> nat \<Rightarrow> nat option" where
  "first_index P n \<equiv> first_from P 0 n"

lemma first_from_Some:
  "first_from P i n = Some k \<Longrightarrow> P k \<and> i \<le> k \<and> k < i + n \<and> (\<forall>j. i \<le> j \<and> j < k \<longrightarrow> \<not> P j)"
proof (induction n arbitrary: i)
  case (Suc n)
  show ?case
  proof (cases "P i")
    case False
    with Suc.prems Suc.IH [of "Suc i"] have *: "P k \<and> Suc i \<le> k \<and> k < Suc i + n \<and> (\<forall>j. Suc i \<le> j \<and> j < k \<longrightarrow> \<not> P j)" by simp
    have "\<not> P j" if "i \<le> j" "j < k" for j
      using * False that by (cases "j = i") auto
    with * show ?thesis by auto
  next
    case True
    with Suc.prems show ?thesis by auto
  qed
qed simp

lemma first_from_None: "first_from P i n = None \<longleftrightarrow> (\<forall>k. i \<le> k \<and> k < i + n \<longrightarrow> \<not> P k)"
proof (induction n arbitrary: i)
  case (Suc n)
  have "(\<forall>k. i \<le> k \<and> k < i + Suc n \<longrightarrow> \<not> P k) \<longleftrightarrow>
        \<not> P i \<and> (\<forall>k. Suc i \<le> k \<and> k < Suc i + n \<longrightarrow> \<not> P k)"
    by (metis Suc_leD Suc_leI add_Suc add_Suc_right le_eq_less_or_eq less_add_Suc1)
  with Suc show ?case by simp
qed auto

lemma first_index_Some:
  "first_index P n = Some k \<Longrightarrow> P k \<and> k < n \<and> (\<forall>j < k. \<not> P j)"
  using first_from_Some [of P 0 n k] by simp

lemma first_index_None: "first_index P n = None \<longleftrightarrow> (\<forall>k < n. \<not> P k)"
  using first_from_None [of P 0 n] by simp

lemma first_index_ex: "k < n \<Longrightarrow> P k \<Longrightarrow> \<exists>i \<le> k. first_index P n = Some i"
  using first_index_None [of P n] first_index_Some [of P n]
  by (metis not_le option.exhaust)

lemma first_index_0 [simp]: "0 < n \<Longrightarrow> P 0 \<Longrightarrow> first_index P n = Some 0"
  by (cases n) simp_all

section \<open>Counting and summing over tables\<close>

definition count_below :: "(nat \<Rightarrow> bool) \<Rightarrow> nat \<Rightarrow> nat" where
  "count_below P n = card {i. i < n \<and> P i}"

lemma finite_below [simp]: "finite {i. i < (n::nat) \<and> P i}"
  by simp

lemma count_below_le: "count_below P n \<le> n"
  unfolding count_below_def by (rule order_trans [OF card_mono [of "{..<n}"]]) auto

lemma count_below_0 [simp]: "count_below P n = 0 \<longleftrightarrow> (\<forall>i < n. \<not> P i)"
  unfolding count_below_def by (subst card_0_eq) auto

lemma count_below_cong: "(\<And>i. i < n \<Longrightarrow> P i = Q i) \<Longrightarrow> count_below P n = count_below Q n"
  unfolding count_below_def by (rule arg_cong [where f = card]) auto

lemma count_below_set:
  "k < n \<Longrightarrow> \<not> P k \<Longrightarrow> count_below (P(k := True)) n = Suc (count_below P n)"
proof -
  assume "k < n" "\<not> P k"
  then have "{i. i < n \<and> (P(k := True)) i} = insert k {i. i < n \<and> P i}" by auto
  with \<open>\<not> P k\<close> show ?thesis by (simp add: count_below_def)
qed

lemma count_below_clear:
  "k < n \<Longrightarrow> P k \<Longrightarrow> Suc (count_below (P(k := False)) n) = count_below P n"
  using count_below_set [of k n "P(k := False)"] by (simp add: fun_upd_idem)

lemma count_below_full: "count_below P n = n \<longleftrightarrow> (\<forall>i < n. P i)"
proof
  assume "count_below P n = n"
  then have "{i. i < n \<and> P i} = {..<n}"
    unfolding count_below_def by (intro card_subset_eq) auto
  then show "\<forall>i < n. P i" by auto
next
  assume "\<forall>i < n. P i"
  then have "{i. i < n \<and> P i} = {..<n}" by auto
  then show "count_below P n = n" by (simp add: count_below_def)
qed

lemma sum_below_upd:
  fixes f :: "nat \<Rightarrow> nat"
  shows "k < n \<Longrightarrow> (\<Sum>i<n. (f(k := v)) i) + f k = (\<Sum>i<n. f i) + v"
  by (subst (1 2) sum.remove [of "{..<n}" k]) (auto intro: sum.cong)

section \<open>System calls\<close>

text \<open>
  The seL4 kernel is not part of the repository. A component that only issues a call whose
  result the code ignores appends it to a log; calls whose result matters are parameters.
\<close>

datatype kcall =
    KSignal cptr
  | KPoll cptr
  | KWait cptr
  | KSuspend cptr
  | KSend cptr "u64 list"

text \<open>A received message: the badge, the label of its tag and the transferred registers.\<close>

datatype ipc_message = Message (msg_badge: u64) (msg_label: u64) (msg_mrs: "u64 list")

lemma unat_u64: "n < 2 ^ 64 \<Longrightarrow> unat (of_nat n :: u64) = n"
  by (simp add: unat_of_nat take_bit_nat_eq_self)

text \<open>
  A C \<open>int\<close> result code is its 32-bit pattern; \<open>(seL4_Word)error\<close> sign-extends it and
  \<open>(int)word\<close> keeps the low half.
\<close>

type_synonym c_int = "32 word"

definition word_of_cint :: "c_int \<Rightarrow> u64" where
  "word_of_cint e = scast e"

definition cint_of_word :: "u64 \<Rightarrow> c_int" where
  "cint_of_word w = ucast w"

lemma cint_roundtrip [simp]: "cint_of_word (word_of_cint e) = e"
  unfolding cint_of_word_def word_of_cint_def
proof (rule bit_word_eqI)
  fix n assume "n < LENGTH(32)"
  then consider "n = 31" | "n < 31" by fastforce
  then show "bit (ucast (scast e :: u64) :: c_int) n = bit e n"
    by cases (simp_all add: bit_ucast_iff bit_signed_iff min_def)
qed

lemma word_of_cint_0 [simp]: "word_of_cint 0 = 0" "cint_of_word 0 = 0"
  by (simp_all add: word_of_cint_def cint_of_word_def)

end
