(* ===== verification/Ring.thy ===== *)
theory Ring
  imports Luna_Prelude
begin

text \<open>
  The circular buffers of the program: a console ring of 256 bytes, the manager's receive and
  transmit queues and the child's transmit queue. All of them keep indexes below the size
  \<open>N\<close>, advance them by \<open>(i + 1U) % N\<close>, are empty when the indexes agree and full one short of
  \<open>N\<close>. The locale states what every client uses of them; it is interpreted below for each size.
\<close>

definition ring_next :: "nat \<Rightarrow> nat \<Rightarrow> nat" where
  "ring_next N i = (i + 1) mod N"

definition ring_used :: "nat \<Rightarrow> nat \<Rightarrow> nat \<Rightarrow> nat" where
  "ring_used N head tail = (head + N - tail) mod N"

text \<open>The entries from \<open>tail\<close> up to \<open>head\<close>, oldest first, and whether a position lies among them.\<close>

definition ring_list :: "nat \<Rightarrow> (nat \<Rightarrow> 'a) \<Rightarrow> nat \<Rightarrow> nat \<Rightarrow> 'a list" where
  "ring_list N q head tail = map (\<lambda>k. q ((tail + k) mod N)) [0..<ring_used N head tail]"

definition ring_in :: "nat \<Rightarrow> nat \<Rightarrow> nat \<Rightarrow> nat \<Rightarrow> bool" where
  "ring_in N head tail p \<longleftrightarrow> ring_used N p tail < ring_used N head tail"

locale ring =
  fixes N :: nat
  assumes size: "1 < N"
begin

lemma next_less [simp]: "ring_next N i < N"
  using size by (simp add: ring_next_def)

lemma next_if: "i < N \<Longrightarrow> ring_next N i = (if Suc i = N then 0 else Suc i)"
  by (simp add: ring_next_def)

lemma next_ne [simp]: "i < N \<Longrightarrow> ring_next N i \<noteq> i" "i < N \<Longrightarrow> i \<noteq> ring_next N i"
  using size by (auto simp: next_if)

lemma used_if: "h < N \<Longrightarrow> t < N \<Longrightarrow> ring_used N h t = (if t \<le> h then h - t else h + N - t)"
  by (auto simp: ring_used_def mod_if)

lemma used_less [simp]: "ring_used N h t < N"
  using size by (simp add: ring_used_def)

lemma used_self [simp]: "t < N \<Longrightarrow> ring_used N t t = 0"
  by (simp add: used_if)

lemma used_0: "h < N \<Longrightarrow> t < N \<Longrightarrow> ring_used N h t = 0 \<longleftrightarrow> h = t"
  by (auto simp: used_if split: if_splits)

lemma full_iff: "h < N \<Longrightarrow> t < N \<Longrightarrow> ring_next N h = t \<longleftrightarrow> ring_used N h t = N - 1"
  using size by (auto simp: used_if next_if split: if_splits)

lemma used_next_head: "h < N \<Longrightarrow> t < N \<Longrightarrow> ring_next N h \<noteq> t \<Longrightarrow> ring_used N (ring_next N h) t = Suc (ring_used N h t)"
  using size by (auto simp: used_if next_if split: if_splits)

lemma used_next_tail: "h < N \<Longrightarrow> t < N \<Longrightarrow> h \<noteq> t \<Longrightarrow> Suc (ring_used N h (ring_next N t)) = ring_used N h t"
  using size by (auto simp: used_if next_if split: if_splits)

lemma used_inj: "a < N \<Longrightarrow> b < N \<Longrightarrow> t < N \<Longrightarrow> ring_used N a t = ring_used N b t \<longleftrightarrow> a = b"
  by (auto simp: used_if split: if_splits)

lemma at_less [simp]: "(t + k) mod N < N"
  using size by simp

lemma used_at: "t < N \<Longrightarrow> k < N \<Longrightarrow> ring_used N ((t + k) mod N) t = k"
  by (auto simp: used_if mod_if)

lemma at_used: "p < N \<Longrightarrow> t < N \<Longrightarrow> (t + ring_used N p t) mod N = p"
  by (auto simp: used_if mod_if)

lemma in_self [simp]: "t < N \<Longrightarrow> \<not> ring_in N t t p"
  by (simp add: ring_in_def)

lemma in_tail: "h < N \<Longrightarrow> t < N \<Longrightarrow> h \<noteq> t \<Longrightarrow> ring_in N h t t"
  using used_0 [of h t] by (simp add: ring_in_def)

lemma not_in_head: "\<not> ring_in N h t h"
  by (simp add: ring_in_def)

lemma in_push:
  "h < N \<Longrightarrow> t < N \<Longrightarrow> p < N \<Longrightarrow> ring_next N h \<noteq> t \<Longrightarrow> ring_in N (ring_next N h) t p \<longleftrightarrow> ring_in N h t p \<or> p = h"
  using used_inj [of p h t] by (auto simp: ring_in_def used_next_head less_Suc_eq)

lemma in_pop:
  "h < N \<Longrightarrow> t < N \<Longrightarrow> p < N \<Longrightarrow> h \<noteq> t \<Longrightarrow> ring_in N h (ring_next N t) p \<longleftrightarrow> ring_in N h t p \<and> p \<noteq> t"
  using size by (auto simp: ring_in_def used_if next_if split: if_splits)

lemma list_length [simp]: "length (ring_list N q h t) = ring_used N h t"
  by (simp add: ring_list_def)

lemma list_empty [simp]: "t < N \<Longrightarrow> ring_list N q t t = []"
  by (simp add: ring_list_def)

lemma list_cong:
  assumes "t < N" "\<And>p. p < N \<Longrightarrow> ring_in N h t p \<Longrightarrow> q p = q' p"
  shows "ring_list N q h t = ring_list N q' h t"
proof -
  have "q ((t + k) mod N) = q' ((t + k) mod N)" if "k < ring_used N h t" for k
  proof -
    have "k < N" using that used_less by (rule less_trans)
    with assms that show ?thesis by (simp add: ring_in_def used_at)
  qed
  then show ?thesis by (simp add: ring_list_def)
qed

lemma list_push:
  assumes "h < N" "t < N" "ring_next N h \<noteq> t"
  shows "ring_list N (q(h := x)) (ring_next N h) t = ring_list N q h t @ [x]"
proof -
  have "ring_list N (q(h := x)) h t = ring_list N q h t"
    by (rule list_cong [OF assms(2)]) (auto simp: not_in_head)
  then show ?thesis
    using at_used [OF assms(1,2)] used_next_head [OF assms] by (simp add: ring_list_def)
qed

lemma list_pop:
  assumes "h < N" "t < N" "h \<noteq> t"
  shows "ring_list N q h t = q t # ring_list N q h (ring_next N t)"
proof -
  have "(ring_next N t + k) mod N = (t + Suc k) mod N" for k
    by (simp add: ring_next_def mod_add_left_eq)
  then show ?thesis
    using assms unfolding ring_list_def
    by (simp add: used_next_tail [symmetric] map_upt_Suc del: upt_Suc)
qed

lemma list_clear_tail:
  assumes "h < N" "t < N" "h \<noteq> t"
  shows "ring_list N (q(t := x)) h (ring_next N t) = ring_list N q h (ring_next N t)"
  by (rule list_cong) (use assms in \<open>auto simp: in_pop\<close>)

text \<open>Three indexes in order: a consumer that runs ahead of the release of its entries.\<close>

lemma used_split:
  "h < N \<Longrightarrow> m < N \<Longrightarrow> t < N \<Longrightarrow> ring_used N m t \<le> ring_used N h t \<Longrightarrow>
   ring_used N h t = ring_used N m t + ring_used N h m"
  by (auto simp: used_if split: if_splits)

lemma in_split:
  "h < N \<Longrightarrow> m < N \<Longrightarrow> t < N \<Longrightarrow> p < N \<Longrightarrow> ring_used N m t \<le> ring_used N h t \<Longrightarrow>
   ring_in N h t p \<longleftrightarrow> ring_in N m t p \<or> ring_in N h m p"
  by (auto simp: ring_in_def used_if split: if_splits)

lemma in_disjoint:
  "h < N \<Longrightarrow> m < N \<Longrightarrow> t < N \<Longrightarrow> p < N \<Longrightarrow> ring_used N m t \<le> ring_used N h t \<Longrightarrow>
   ring_in N m t p \<Longrightarrow> \<not> ring_in N h m p"
  by (auto simp: ring_in_def used_if split: if_splits)

lemma middle_next:
  assumes "h < N" "m < N" "t < N" "ring_used N m t \<le> ring_used N h t" "m \<noteq> h"
  shows "ring_used N (ring_next N m) t \<le> ring_used N h t \<and> ring_next N m \<noteq> t"
  using assms size by (auto simp: used_if next_if split: if_splits)

lemma tail_next:
  assumes "h < N" "m < N" "t < N" "ring_used N m t \<le> ring_used N h t" "m \<noteq> t"
  shows "ring_used N m (ring_next N t) \<le> ring_used N h (ring_next N t)"
  using assms size by (auto simp: used_if next_if split: if_splits)

end

interpretation console_ring: ring 256
  by unfold_locales simp

interpretation ring64: ring 64
  by unfold_locales simp

interpretation ring32: ring 32
  by unfold_locales simp

end
