(* ===== verification/Luna_Protocol.thy ===== *)
theory Luna_Protocol
  imports Luna_Prelude
begin

text \<open>
  The wire protocol between the root manager and the isolated LKL task
  (\<open>include/luna_isolation_protocol.h\<close>): the size macros, the event, command and mode
  enumerations with their numeric codes, the shared-window headers, and the packing of four
  network counters into one reply register.
\<close>

unbundle bit_operations_syntax

section \<open>Size macros\<close>

definition LUNA_LKL_THREAD_SLOTS :: nat where [luna_consts]: "LUNA_LKL_THREAD_SLOTS = 47"
definition LUNA_TIMER_SLOT :: nat where [luna_consts]: "LUNA_TIMER_SLOT = 47"
definition LUNA_CONSOLE_SLOT :: nat where [luna_consts]: "LUNA_CONSOLE_SLOT = 48"
definition LUNA_RESOURCE_SLOTS :: nat where [luna_consts]: "LUNA_RESOURCE_SLOTS = 49"
definition LUNA_SYNC_SLOTS :: nat where [luna_consts]: "LUNA_SYNC_SLOTS = 96"
definition LUNA_CHILD_HEAP_BASE :: nat where [luna_consts]: "LUNA_CHILD_HEAP_BASE = 0x20000000"
definition LUNA_CHILD_HEAP_SIZE :: nat where [luna_consts]: "LUNA_CHILD_HEAP_SIZE = 33554432"
definition LUNA_CHILD_HEAP_PAGES :: nat where [luna_consts]: "LUNA_CHILD_HEAP_PAGES = 8192"
definition LUNA_ALLOCATOR_LIGHT_MAX_PAGES :: nat where
  [luna_consts]: "LUNA_ALLOCATOR_LIGHT_MAX_PAGES = 64"
definition LUNA_PERSISTENT_DISK_SIZE :: nat where
  [luna_consts]: "LUNA_PERSISTENT_DISK_SIZE = 16777216"
definition LUNA_DISK_IO_BASE :: nat where [luna_consts]: "LUNA_DISK_IO_BASE = 0x24000000"
definition LUNA_DISK_IO_SIZE :: nat where [luna_consts]: "LUNA_DISK_IO_SIZE = 65536"
definition LUNA_DISK_BATCH_SLOTS :: nat where [luna_consts]: "LUNA_DISK_BATCH_SLOTS = 15"
definition LUNA_DISK_BATCH_SLOT_SIZE :: nat where
  [luna_consts]: "LUNA_DISK_BATCH_SLOT_SIZE = 4096"
definition LUNA_DISK_BATCH_DATA_OFFSET :: nat where
  [luna_consts]: "LUNA_DISK_BATCH_DATA_OFFSET = 4096"
definition LUNA_DISK_LOCAL_QUEUE_COUNT :: nat where
  [luna_consts]: "LUNA_DISK_LOCAL_QUEUE_COUNT = 8"
definition LUNA_NET_IO_BASE :: nat where [luna_consts]: "LUNA_NET_IO_BASE = 0x25000000"
definition LUNA_NET_PACKET_SIZE :: nat where [luna_consts]: "LUNA_NET_PACKET_SIZE = 2048"
definition LUNA_NET_BATCH_SLOTS :: nat where [luna_consts]: "LUNA_NET_BATCH_SLOTS = 16"
definition LUNA_NET_TX_OFFSET :: nat where [luna_consts]: "LUNA_NET_TX_OFFSET = 4096"
definition LUNA_NET_RX_OFFSET :: nat where
  [luna_consts]: "LUNA_NET_RX_OFFSET = LUNA_NET_TX_OFFSET + LUNA_NET_BATCH_SLOTS * LUNA_NET_PACKET_SIZE"
definition LUNA_NET_IO_SIZE :: nat where
  [luna_consts]: "LUNA_NET_IO_SIZE = LUNA_NET_RX_OFFSET + LUNA_NET_BATCH_SLOTS * LUNA_NET_PACKET_SIZE"
definition LUNA_NET_CHILD_TX_QUEUE_COUNT :: nat where
  [luna_consts]: "LUNA_NET_CHILD_TX_QUEUE_COUNT = 64"
definition LUNA_NET_MAC_WORD0 :: u64 where [luna_consts]: "LUNA_NET_MAC_WORD0 = 0x12005452"
definition LUNA_NET_MAC_WORD1 :: u64 where [luna_consts]: "LUNA_NET_MAC_WORD1 = 0x5634"
definition LUNA_NET_TX_RETRY :: int where [luna_consts]: "LUNA_NET_TX_RETRY = 1"
definition LUNA_NET_STATS_FIELD_MASK :: u64 where
  [luna_consts]: "LUNA_NET_STATS_FIELD_MASK = 0xffff"

section \<open>Enumerations and their codes\<close>

datatype (plugins del: quickcheck_random quickcheck_exhaustive quickcheck_narrowing) luna_isolation_event =
    LUNA_ISOLATION_EVENT_READY
  | LUNA_ISOLATION_EVENT_DONE
  | LUNA_ISOLATION_EVENT_LKL_LINKED
  | LUNA_ISOLATION_EVENT_RESOURCE_OK
  | LUNA_ISOLATION_EVENT_LKL_INIT_OK
  | LUNA_ISOLATION_EVENT_RESOURCE_CONFIGURED
  | LUNA_ISOLATION_EVENT_LKL_BOOT_OK
  | LUNA_ISOLATION_EVENT_LKL_HALT_OK
  | LUNA_ISOLATION_EVENT_LKL_SHELL_READY
  | LUNA_ISOLATION_EVENT_ALLOCATOR_OK
  | LUNA_ISOLATION_EVENT_ALLOCATOR_RELEASED
  | LUNA_ISOLATION_EVENT_SYNC_TLS_OK
  | LUNA_ISOLATION_EVENT_THREAD_TIMER_OK
  | LUNA_ISOLATION_EVENT_VIRTIO_BLOCK_OK
  | LUNA_ISOLATION_EVENT_USER_PROGRAM_OK
  | LUNA_ISOLATION_EVENT_VIRTIO_NET_OK
  | LUNA_ISOLATION_EVENT_NETWORK_IPV4_OK
  | LUNA_ISOLATION_EVENT_NETWORK_ICMP_OK
  | LUNA_ISOLATION_EVENT_NETWORK_TCP_OK
  | LUNA_ISOLATION_EVENT_NETWORK_ASYNC_OK
  | LUNA_ISOLATION_EVENT_NETWORK_PRESSURE_OK
  | LUNA_ISOLATION_EVENT_NETWORK_TX_PRESSURE_OK
  | LUNA_ISOLATION_EVENT_NETWORK_ICMP_UNAVAILABLE
  | LUNA_ISOLATION_EVENT_MEMORY_MAP
  | LUNA_ISOLATION_EVENT_MEMORY_UNMAP
  | LUNA_ISOLATION_EVENT_DISK_READ
  | LUNA_ISOLATION_EVENT_DISK_WRITE
  | LUNA_ISOLATION_EVENT_DISK_FLUSH
  | LUNA_ISOLATION_EVENT_NET_TX
  | LUNA_ISOLATION_EVENT_NET_RX
  | LUNA_ISOLATION_EVENT_NET_WAKE
  | LUNA_ISOLATION_EVENT_NET_CONTROL
  | LUNA_ISOLATION_EVENT_NET_STATS
  | LUNA_ISOLATION_EVENT_NET_TX_STATS
  | LUNA_ISOLATION_EVENT_NET_TX_STRESS
  | LUNA_ISOLATION_EVENT_NET_TX_BATCH
  | LUNA_ISOLATION_EVENT_NET_RX_BATCH
  | LUNA_ISOLATION_EVENT_DISK_SUBMIT_BATCH
  | LUNA_ISOLATION_EVENT_TIMER_ARM
  | LUNA_ISOLATION_EVENT_TIMER_CANCEL
  | LUNA_ISOLATION_EVENT_NET_DEBUG
  | LUNA_ISOLATION_EVENT_PRIVATE_PAGE_VISIBLE

primrec event_word :: "luna_isolation_event \<Rightarrow> u64" where
  "event_word LUNA_ISOLATION_EVENT_READY = 0x100"
| "event_word LUNA_ISOLATION_EVENT_DONE = 0x101"
| "event_word LUNA_ISOLATION_EVENT_LKL_LINKED = 0x102"
| "event_word LUNA_ISOLATION_EVENT_RESOURCE_OK = 0x103"
| "event_word LUNA_ISOLATION_EVENT_LKL_INIT_OK = 0x104"
| "event_word LUNA_ISOLATION_EVENT_RESOURCE_CONFIGURED = 0x105"
| "event_word LUNA_ISOLATION_EVENT_LKL_BOOT_OK = 0x106"
| "event_word LUNA_ISOLATION_EVENT_LKL_HALT_OK = 0x107"
| "event_word LUNA_ISOLATION_EVENT_LKL_SHELL_READY = 0x108"
| "event_word LUNA_ISOLATION_EVENT_ALLOCATOR_OK = 0x109"
| "event_word LUNA_ISOLATION_EVENT_ALLOCATOR_RELEASED = 0x10a"
| "event_word LUNA_ISOLATION_EVENT_SYNC_TLS_OK = 0x10b"
| "event_word LUNA_ISOLATION_EVENT_THREAD_TIMER_OK = 0x10c"
| "event_word LUNA_ISOLATION_EVENT_VIRTIO_BLOCK_OK = 0x10d"
| "event_word LUNA_ISOLATION_EVENT_USER_PROGRAM_OK = 0x10e"
| "event_word LUNA_ISOLATION_EVENT_VIRTIO_NET_OK = 0x10f"
| "event_word LUNA_ISOLATION_EVENT_NETWORK_IPV4_OK = 0x110"
| "event_word LUNA_ISOLATION_EVENT_NETWORK_ICMP_OK = 0x111"
| "event_word LUNA_ISOLATION_EVENT_NETWORK_TCP_OK = 0x112"
| "event_word LUNA_ISOLATION_EVENT_NETWORK_ASYNC_OK = 0x113"
| "event_word LUNA_ISOLATION_EVENT_NETWORK_PRESSURE_OK = 0x114"
| "event_word LUNA_ISOLATION_EVENT_NETWORK_TX_PRESSURE_OK = 0x115"
| "event_word LUNA_ISOLATION_EVENT_NETWORK_ICMP_UNAVAILABLE = 0x116"
| "event_word LUNA_ISOLATION_EVENT_MEMORY_MAP = 0x200"
| "event_word LUNA_ISOLATION_EVENT_MEMORY_UNMAP = 0x201"
| "event_word LUNA_ISOLATION_EVENT_DISK_READ = 0x202"
| "event_word LUNA_ISOLATION_EVENT_DISK_WRITE = 0x203"
| "event_word LUNA_ISOLATION_EVENT_DISK_FLUSH = 0x204"
| "event_word LUNA_ISOLATION_EVENT_NET_TX = 0x205"
| "event_word LUNA_ISOLATION_EVENT_NET_RX = 0x206"
| "event_word LUNA_ISOLATION_EVENT_NET_WAKE = 0x207"
| "event_word LUNA_ISOLATION_EVENT_NET_CONTROL = 0x208"
| "event_word LUNA_ISOLATION_EVENT_NET_STATS = 0x209"
| "event_word LUNA_ISOLATION_EVENT_NET_TX_STATS = 0x20a"
| "event_word LUNA_ISOLATION_EVENT_NET_TX_STRESS = 0x20b"
| "event_word LUNA_ISOLATION_EVENT_NET_TX_BATCH = 0x20c"
| "event_word LUNA_ISOLATION_EVENT_NET_RX_BATCH = 0x20d"
| "event_word LUNA_ISOLATION_EVENT_DISK_SUBMIT_BATCH = 0x20e"
| "event_word LUNA_ISOLATION_EVENT_TIMER_ARM = 0x20f"
| "event_word LUNA_ISOLATION_EVENT_TIMER_CANCEL = 0x210"
| "event_word LUNA_ISOLATION_EVENT_NET_DEBUG = 0x211"
| "event_word LUNA_ISOLATION_EVENT_PRIVATE_PAGE_VISIBLE = 0x1ff"

datatype luna_manager_command =
    LUNA_COMMAND_CONFIGURE_SLOT
  | LUNA_COMMAND_CONFIGURE_SYNC
  | LUNA_COMMAND_CONFIGURE_CONSOLE
  | LUNA_COMMAND_START
  | LUNA_COMMAND_MEMORY_RESULT
  | LUNA_COMMAND_CONFIGURE_DISK
  | LUNA_COMMAND_DISK_RESULT
  | LUNA_COMMAND_CONFIGURE_NET
  | LUNA_COMMAND_NET_RESULT
  | LUNA_COMMAND_TIMER_RESULT

primrec command_word :: "luna_manager_command \<Rightarrow> u64" where
  "command_word LUNA_COMMAND_CONFIGURE_SLOT = 1"
| "command_word LUNA_COMMAND_CONFIGURE_SYNC = 2"
| "command_word LUNA_COMMAND_CONFIGURE_CONSOLE = 3"
| "command_word LUNA_COMMAND_START = 4"
| "command_word LUNA_COMMAND_MEMORY_RESULT = 5"
| "command_word LUNA_COMMAND_CONFIGURE_DISK = 6"
| "command_word LUNA_COMMAND_DISK_RESULT = 7"
| "command_word LUNA_COMMAND_CONFIGURE_NET = 8"
| "command_word LUNA_COMMAND_NET_RESULT = 9"
| "command_word LUNA_COMMAND_TIMER_RESULT = 10"

datatype luna_isolation_mode =
    LUNA_ISOLATION_MODE_FAULT
  | LUNA_ISOLATION_MODE_CLEAN
  | LUNA_ISOLATION_MODE_STRESS

primrec mode_word :: "luna_isolation_mode \<Rightarrow> u64" where
  "mode_word LUNA_ISOLATION_MODE_FAULT = 1"
| "mode_word LUNA_ISOLATION_MODE_CLEAN = 2"
| "mode_word LUNA_ISOLATION_MODE_STRESS = 3"

datatype luna_allocator_profile = LUNA_ALLOCATOR_PROFILE_FULL | LUNA_ALLOCATOR_PROFILE_LIGHT

definition luna_allocator_profile_for_mode :: "u64 \<Rightarrow> luna_allocator_profile" where
  "luna_allocator_profile_for_mode mode =
     (if mode = mode_word LUNA_ISOLATION_MODE_STRESS
      then LUNA_ALLOCATOR_PROFILE_LIGHT else LUNA_ALLOCATOR_PROFILE_FULL)"

section \<open>Shared windows\<close>

record luna_net_batch_header =
  tx_count :: u64
  rx_count :: u64
  tx_request_sequence :: u64
  tx_response_sequence :: u64
  tx_accepted :: u64
  rx_produced :: u64
  rx_consumed :: u64
  rx_waiting :: u64
  tx_lengths :: "nat \<Rightarrow> u64"
  rx_lengths :: "nat \<Rightarrow> u64"

record luna_disk_batch_descriptor =
  dd_event :: u64
  dd_offset :: u64
  dd_length :: u64
  dd_status :: u64

record luna_disk_batch_header =
  dh_count :: u64
  dh_completed :: u64
  dh_descriptors :: "nat \<Rightarrow> luna_disk_batch_descriptor"

section \<open>Packed network counters\<close>

definition luna_net_stats_pack :: "u64 \<Rightarrow> u64 \<Rightarrow> u64 \<Rightarrow> u64 \<Rightarrow> u64" where
  "luna_net_stats_pack high_water backpressure drops empty_fetches =
     (let clamp = (\<lambda>x. if x > LUNA_NET_STATS_FIELD_MASK then LUNA_NET_STATS_FIELD_MASK else x)
      in push_bit 0 (clamp high_water) OR push_bit 16 (clamp backpressure) OR
         push_bit 32 (clamp drops) OR push_bit 48 (clamp empty_fetches))"

definition luna_net_stats_unpack :: "u64 \<Rightarrow> nat \<Rightarrow> u32" where
  "luna_net_stats_unpack stats shift = ucast (drop_bit shift stats AND LUNA_NET_STATS_FIELD_MASK)"

section \<open>Facts\<close>

lemma command_word_inj [simp]: "command_word a = command_word b \<longleftrightarrow> a = b"
  by (cases a; cases b; simp)

lemma mode_word_inj [simp]: "mode_word a = mode_word b \<longleftrightarrow> a = b"
  by (cases a; cases b; simp)

lemma mask16: "(0xffff :: u64) = mask 16"
  by (simp add: mask_eq_exp_minus_1)

lemma field_bound: "x \<le> (0xffff :: u64) \<Longrightarrow> bit x n \<Longrightarrow> n < 16"
proof -
  assume "x \<le> 0xffff" "bit x n"
  then have "x < 2 ^ 16" by (simp add: word_le_nat_alt word_less_nat_alt)
  then have "x = take_bit 16 x" by (simp add: less_mask_eq take_bit_eq_mask)
  with \<open>bit x n\<close> show ?thesis by (metis bit_take_bit_iff)
qed

lemma stats_clamp:
  "(if x > LUNA_NET_STATS_FIELD_MASK then LUNA_NET_STATS_FIELD_MASK else x) = min x (0xffff :: u64)"
  unfolding luna_consts min_def by (cases "x \<le> 65535") (auto simp: not_le)

lemma stats_fields:
  fixes a b c d :: u64
  assumes "a \<le> 0xffff" "b \<le> 0xffff" "c \<le> 0xffff" "d \<le> 0xffff"
  defines "w \<equiv> push_bit 0 a OR push_bit 16 b OR push_bit 32 c OR push_bit 48 d"
  shows "drop_bit 0 w AND mask 16 = a" "drop_bit 16 w AND mask 16 = b"
    "drop_bit 32 w AND mask 16 = c" "drop_bit 48 w AND mask 16 = d"
  unfolding w_def
  by (rule bit_word_eqI, auto simp: bit_simps dest: assms(1-4) [THEN field_bound])+

text \<open>
  the four saturated 16-bit counters that the manager packs into one reply register are
  exactly what the child unpacks at the four shifts: each field comes back as the counter,
  clamped to \<open>0xffff\<close>, and no field disturbs another.
\<close>

theorem luna_net_stats_roundtrip:
  "map (luna_net_stats_unpack (luna_net_stats_pack h b d e)) [0, 16, 32, 48] =
   map (\<lambda>x. ucast (min x 0xffff)) [h, b, d, e]"
proof -
  note fields = stats_fields [of "min h 0xffff" "min b 0xffff" "min d 0xffff" "min e 0xffff",
      OF min.cobounded2 min.cobounded2 min.cobounded2 min.cobounded2, folded mask16]
  show ?thesis
    unfolding luna_net_stats_unpack_def luna_net_stats_pack_def Let_def stats_clamp list.map
    unfolding LUNA_NET_STATS_FIELD_MASK_def fields ..
qed

end
