(* ===== verification/Task_Console.thy ===== *)
theory Task_Console
  imports Ring Luna_Protocol
begin

text \<open>
  The console input of the child (\<open>lkl_task_host.c\<close>): a thread polls the serial port and puts the bytes into a ring of 256,
  raising an interrupt when the ring was empty; the interrupt handler of the terminal driver (\<open>patches/lkl-tty.patch\<close>) takes
  bytes until there is none. Neither side takes a lock, so each access to a shared index is a step of its own. What the
  serial port delivers is part of each step.
\<close>

section \<open>State\<close>

definition TASK_CONSOLE_RING :: nat where [luna_consts]: "TASK_CONSOLE_RING = 256"

text \<open>
  The polling thread: before the next poll; with a byte; after the test for room; after the test for emptiness; after storing
  the byte; after publishing it; ended.
\<close>

datatype console_poller = Poll | Got u8 | Room u8 | Decided u8 bool | Stored u8 bool | Published bool | Ended

text \<open>The interrupt handler: not running; about to call \<open>console_take\<close>; past its test; with the value loaded.\<close>

datatype console_reader = Waiting | Taking | Loading | Loaded u8

record console =
  co_ring :: "nat \<Rightarrow> u8"
  co_head :: nat
  co_tail :: nat
  co_started :: bool
  co_stop :: bool
  co_irq :: int
  co_slot_used :: bool
  co_slot_exited :: bool
  co_pending :: bool
  co_poller :: console_poller
  co_reader :: console_reader
  co_seen :: "(u8 \<times> bool) list"
  co_delivered :: "u8 list"

section \<open>The polling thread\<close>

text \<open>One pass of the loop up to the byte: the line status and the data register of the port, \<open>None\<close> for no byte or an error.\<close>

definition console_poll :: "u8 option \<Rightarrow> console \<Rightarrow> console" where
  "console_poll input s =
     (if co_stop s then s\<lparr>co_poller := Ended, co_slot_exited := True\<rparr>
      else case input of None \<Rightarrow> s | Some b \<Rightarrow> s\<lparr>co_poller := Got b\<rparr>)"

definition console_room :: "u8 \<Rightarrow> console \<Rightarrow> console" where
  "console_room b s =
     (if ring_next TASK_CONSOLE_RING (co_head s) \<noteq> co_tail s then s\<lparr>co_poller := Room b\<rparr>
      else s\<lparr>co_poller := Poll, co_seen := co_seen s @ [(b, False)]\<rparr>)"

definition console_was_empty :: "u8 \<Rightarrow> console \<Rightarrow> console" where
  "console_was_empty b s = s\<lparr>co_poller := Decided b (co_head s = co_tail s)\<rparr>"

definition console_store :: "u8 \<Rightarrow> bool \<Rightarrow> console \<Rightarrow> console" where
  "console_store b e s = s\<lparr>co_poller := Stored b e, co_ring := (co_ring s)(co_head s := b)\<rparr>"

definition console_publish :: "u8 \<Rightarrow> bool \<Rightarrow> console \<Rightarrow> console" where
  "console_publish b e s =
     s\<lparr>co_poller := Published e, co_head := ring_next TASK_CONSOLE_RING (co_head s), co_seen := co_seen s @ [(b, True)]\<rparr>"

definition console_interrupt :: "bool \<Rightarrow> console \<Rightarrow> console" where
  "console_interrupt e s = s\<lparr>co_poller := Poll, co_pending := co_pending s \<or> (e \<and> co_irq s \<noteq> 0)\<rparr>"

section \<open>The reader\<close>

text \<open>\<open>task_console_take\<close> in one piece, and as the accesses it makes.\<close>

definition task_console_take :: "console \<Rightarrow> int \<times> console" where
  "task_console_take s =
     (if co_head s = co_tail s then (-1, s)
      else (uint (co_ring s (co_tail s)), s\<lparr>co_tail := ring_next TASK_CONSOLE_RING (co_tail s)\<rparr>))"

definition take_test :: "console \<Rightarrow> console" where
  "take_test s = s\<lparr>co_reader := if co_head s = co_tail s then Waiting else Loading\<rparr>"

definition take_load :: "console \<Rightarrow> console" where
  "take_load s = s\<lparr>co_reader := Loaded (co_ring s (co_tail s))\<rparr>"

definition take_advance :: "u8 \<Rightarrow> console \<Rightarrow> console" where
  "take_advance b s = s\<lparr>co_reader := Taking, co_tail := ring_next TASK_CONSOLE_RING (co_tail s), co_delivered := co_delivered s @ [b]\<rparr>"

section \<open>Starting and stopping\<close>

text \<open>\<open>port\<close>: an I/O port capability was handed over; \<open>started\<close>: the kernel starts the thread.\<close>

definition task_console_start :: "bool \<Rightarrow> bool \<Rightarrow> int \<Rightarrow> console \<Rightarrow> console" where
  "task_console_start port started irq s =
     (if \<not> port \<or> co_started s \<or> irq \<le> 0 then s
      else if co_slot_used s then s
      else
        let s = s\<lparr>co_irq := irq, co_head := 0, co_tail := 0, co_stop := False, co_slot_used := True, co_slot_exited := False\<rparr>
        in if \<not> started then s\<lparr>co_slot_used := False, co_irq := 0\<rparr>
           else s\<lparr>co_started := True, co_poller := Poll\<rparr>)"

definition luna_lkl_task_console_ready :: "console \<Rightarrow> bool" where
  "luna_lkl_task_console_ready s = co_started s"

text \<open>Stopping asks the thread to end and waits for it; \<open>None\<close> while it has not ended.\<close>

definition console_stop_request :: "console \<Rightarrow> console" where
  "console_stop_request s = (if \<not> co_started s then s else s\<lparr>co_stop := True\<rparr>)"

definition console_stop_finish :: "console \<Rightarrow> console option" where
  "console_stop_finish s =
     (if \<not> co_started s then Some s
      else if \<not> co_slot_exited s then None
      else Some (s\<lparr>co_slot_used := False, co_slot_exited := False, co_started := False, co_irq := 0\<rparr>))"

section \<open>Steps\<close>

inductive console_step :: "console \<Rightarrow> console \<Rightarrow> bool" where
  poll: "co_poller s = Poll \<Longrightarrow> console_step s (console_poll input s)"
| room: "co_poller s = Got b \<Longrightarrow> console_step s (console_room b s)"
| was_empty: "co_poller s = Room b \<Longrightarrow> console_step s (console_was_empty b s)"
| store: "co_poller s = Decided b e \<Longrightarrow> console_step s (console_store b e s)"
| publish: "co_poller s = Stored b e \<Longrightarrow> console_step s (console_publish b e s)"
| interrupt: "co_poller s = Published e \<Longrightarrow> console_step s (console_interrupt e s)"
| irq: "co_reader s = Waiting \<Longrightarrow> co_pending s \<Longrightarrow> console_step s (s\<lparr>co_pending := False, co_reader := Taking\<rparr>)"
| test: "co_reader s = Taking \<Longrightarrow> console_step s (take_test s)"
| load: "co_reader s = Loading \<Longrightarrow> console_step s (take_load s)"
| advance: "co_reader s = Loaded b \<Longrightarrow> console_step s (take_advance b s)"
| stop: "console_step s (console_stop_request s)"

inductive_cases console_stepE: "console_step s s'"

definition console_initial :: "int \<Rightarrow> console" where
  "console_initial irq = task_console_start True True irq
     \<lparr>co_ring = (\<lambda>i. 0), co_head = 0, co_tail = 0, co_started = False, co_stop = False, co_irq = 0, co_slot_used = False, co_slot_exited = False,
      co_pending = False, co_poller = Ended, co_reader = Waiting, co_seen = [], co_delivered = []\<rparr>"

inductive console_steps :: "console \<Rightarrow> console \<Rightarrow> bool" where
  refl: "console_steps s s"
| step: "console_steps s s1 \<Longrightarrow> console_step s1 s2 \<Longrightarrow> console_steps s s2"

lemma console_steps_trans: "console_steps s2 s3 \<Longrightarrow> console_steps s1 s2 \<Longrightarrow> console_steps s1 s3"
  by (induction rule: console_steps.induct) (auto intro: console_steps.intros)

section \<open>The bytes arrive in order\<close>

definition poller_ok :: "console \<Rightarrow> bool" where
  "poller_ok s \<longleftrightarrow>
     (case co_poller s of
        Room b \<Rightarrow> ring_next 256 (co_head s) \<noteq> co_tail s
      | Decided b e \<Rightarrow> ring_next 256 (co_head s) \<noteq> co_tail s
      | Stored b e \<Rightarrow> ring_next 256 (co_head s) \<noteq> co_tail s \<and> co_ring s (co_head s) = b
      | _ \<Rightarrow> True)"

definition reader_ok :: "console \<Rightarrow> bool" where
  "reader_ok s \<longleftrightarrow>
     (case co_reader s of
        Loading \<Rightarrow> co_head s \<noteq> co_tail s
      | Loaded v \<Rightarrow> co_head s \<noteq> co_tail s \<and> v = co_ring s (co_tail s)
      | _ \<Rightarrow> True)"

text \<open>The bytes that were put into the ring, oldest first.\<close>

definition accepted :: "console \<Rightarrow> u8 list" where
  "accepted s = map fst (filter snd (co_seen s))"

definition console_ok :: "console \<Rightarrow> bool" where
  "console_ok s \<longleftrightarrow> co_head s < 256 \<and> co_tail s < 256 \<and> poller_ok s \<and> reader_ok s \<and>
     co_delivered s @ ring_list 256 (co_ring s) (co_head s) (co_tail s) = accepted s"

lemma ring_next_inj: "a < 256 \<Longrightarrow> b < 256 \<Longrightarrow> ring_next 256 a = ring_next 256 b \<longleftrightarrow> a = b"
  by (auto simp: console_ring.next_if split: if_splits)

lemma store_ring: "h < 256 \<Longrightarrow> t < 256 \<Longrightarrow> ring_list 256 (q(h := b)) h t = ring_list 256 q h t"
  by (rule console_ring.list_cong) (auto simp: console_ring.not_in_head)

lemma push_ring: "h < 256 \<Longrightarrow> t < 256 \<Longrightarrow> ring_next 256 h \<noteq> t \<Longrightarrow> q h = b \<Longrightarrow> ring_list 256 q (ring_next 256 h) t = ring_list 256 q h t @ [b]"
  using console_ring.list_push [of h t q b] by (simp add: fun_upd_idem)

lemmas console_defs = console_poll_def console_room_def console_was_empty_def console_store_def console_publish_def console_interrupt_def
  take_test_def take_load_def take_advance_def console_stop_request_def poller_ok_def reader_ok_def accepted_def

lemma console_step_ok:
  assumes "console_step s s'" "console_ok s"
  shows "console_ok s'"
  using assms
proof (cases rule: console_step.cases)
  case (publish b e)
  then show ?thesis using assms(2) push_ring [of "co_head s" "co_tail s" "co_ring s" b]
    by (auto simp: console_ok_def console_defs luna_consts split: console_reader.splits)
next
  case (advance b)
  then show ?thesis using assms(2) console_ring.list_pop [of "co_head s" "co_tail s" "co_ring s"] ring_next_inj [of "co_head s" "co_tail s"]
    by (auto simp: console_ok_def console_defs luna_consts split: console_poller.splits)
qed (auto simp: console_ok_def console_defs luna_consts store_ring split: console_reader.splits console_poller.splits option.splits if_splits)

lemma console_initial_ok: "console_ok (console_initial irq)"
  by (auto simp: console_ok_def console_initial_def task_console_start_def console_defs)

lemma console_steps_ok: "console_steps s s' \<Longrightarrow> console_ok s \<Longrightarrow> console_ok s'"
  by (induction rule: console_steps.induct) (auto intro: console_step_ok)

text \<open>
  C31: Whatever the interleaving of the polling thread and the interrupt handler, console input arrives in order: the bytes
  delivered to the terminal are the first of those put into the ring, the others are in the ring, and the next call of
  \<open>console_take\<close> returns the next of them, or -1 exactly when there is none. A byte from the port is dropped only when 255
  bytes are waiting.
\<close>
theorem console_in_order:
  assumes "console_steps (console_initial irq) s"
  shows "accepted s = co_delivered s @ ring_list 256 (co_ring s) (co_head s) (co_tail s) \<and>
    length (accepted s) \<le> length (co_delivered s) + 255 \<and>
    fst (task_console_take s) = (if accepted s = co_delivered s then -1 else uint (accepted s ! length (co_delivered s))) \<and>
    (\<forall>b. co_seen (console_room b s) = (if length (accepted s) = length (co_delivered s) + 255 then co_seen s @ [(b, False)] else co_seen s))"
proof -
  have ok: "console_ok s" by (rule console_steps_ok [OF assms console_initial_ok])
  let ?l = "ring_list 256 (co_ring s) (co_head s) (co_tail s)"
  have b: "co_head s < 256" "co_tail s < 256" and a: "accepted s = co_delivered s @ ?l" using ok by (auto simp: console_ok_def)
  have len: "length ?l = ring_used 256 (co_head s) (co_tail s)" by simp
  have full: "ring_next 256 (co_head s) = co_tail s \<longleftrightarrow> length ?l = 255" using console_ring.full_iff [OF b] by simp
  have nil: "?l = [] \<longleftrightarrow> co_head s = co_tail s" using console_ring.used_0 [OF b] len by (metis length_0_conv)
  have pop: "co_head s \<noteq> co_tail s \<Longrightarrow> ?l ! 0 = co_ring s (co_tail s)" using console_ring.list_pop [OF b, of "co_ring s"] by simp
  have "fst (task_console_take s) = (if accepted s = co_delivered s then -1 else uint (accepted s ! length (co_delivered s)))"
    using a nil pop by (auto simp: task_console_take_def nth_append)
  moreover have "co_seen (console_room c s) = (if length (accepted s) = length (co_delivered s) + 255 then co_seen s @ [(c, False)] else co_seen s)" for c
    using a full len by (auto simp: console_room_def luna_consts)
  moreover have "length (accepted s) \<le> length (co_delivered s) + 255" 
  proof -
    have "ring_used 256 (co_head s) (co_tail s) \<le> 255" using console_ring.used_less [of "co_head s" "co_tail s"] by linarith
    then show ?thesis using a by simp
  qed
  ultimately show ?thesis using a by blast
qed

section \<open>A lost interrupt\<close>

text \<open>Bytes are waiting, the handler is not running, no interrupt is pending and the polling thread is not about to raise one.\<close>

definition console_stuck :: "console \<Rightarrow> bool" where
  "console_stuck s \<longleftrightarrow> co_reader s = Waiting \<and> \<not> co_pending s \<and> co_head s \<noteq> co_tail s \<and>
     (case co_poller s of Decided b e \<Rightarrow> \<not> e | Stored b e \<Rightarrow> \<not> e | Published e \<Rightarrow> \<not> e | _ \<Rightarrow> True)"

lemma console_stuck_step:
  assumes "console_step s s'" "console_ok s" "console_stuck s"
  shows "console_stuck s' \<and> co_delivered s' = co_delivered s"
  using assms by (cases rule: console_step.cases)
    (auto simp: console_stuck_def console_ok_def console_defs luna_consts split: console_poller.splits option.splits if_splits)

lemma console_stuck_steps:
  "console_steps s s' \<Longrightarrow> console_ok s \<Longrightarrow> console_stuck s \<Longrightarrow> console_ok s' \<and> console_stuck s' \<and> co_delivered s' = co_delivered s"
proof (induction rule: console_steps.induct)
  case (step s s1 s2)
  then show ?case using console_stuck_step [OF step(2)] console_step_ok [OF step(2)] by auto
qed simp

text \<open>The interleaving: the second byte finds the ring not empty, but the handler empties it before that byte is published.\<close>

definition lost_interrupt :: console where
  "lost_interrupt =
     (let s = console_interrupt True (console_publish 65 True (console_store 65 True (console_was_empty 65 (console_room 65
                (console_poll (Some 65) (console_initial 4))))));
          s = console_was_empty 66 (console_room 66 (console_poll (Some 66) (s\<lparr>co_pending := False, co_reader := Taking\<rparr>)));
          s = take_test (take_advance 65 (take_load (take_test s)))
      in console_interrupt False (console_publish 66 False (console_store 66 False s)))"

lemmas console_eval = console_initial_def task_console_start_def console_defs luna_consts ring_next_def

lemma lost_interrupt_reached: "console_steps (console_initial 4) lost_interrupt"
proof -
  define s0 where "s0 = console_initial 4"
  define s1 where "s1 = console_poll (Some 65) s0"
  define s2 where "s2 = console_room 65 s1"
  define s3 where "s3 = console_was_empty 65 s2"
  define s4 where "s4 = console_store 65 True s3"
  define s5 where "s5 = console_publish 65 True s4"
  define s6 where "s6 = console_interrupt True s5"
  define s7 where "s7 = s6\<lparr>co_pending := False, co_reader := Taking\<rparr>"
  define s8 where "s8 = console_poll (Some 66) s7"
  define s9 where "s9 = console_room 66 s8"
  define s10 where "s10 = console_was_empty 66 s9"
  define s11 where "s11 = take_test s10"
  define s12 where "s12 = take_load s11"
  define s13 where "s13 = take_advance 65 s12"
  define s14 where "s14 = take_test s13"
  define s15 where "s15 = console_store 66 False s14"
  define s16 where "s16 = console_publish 66 False s15"
  define s17 where "s17 = console_interrupt False s16"
  note eval = s0_def s1_def s2_def s3_def s4_def s5_def s6_def s7_def s8_def s9_def s10_def s11_def s12_def s13_def s14_def s15_def s16_def s17_def console_eval
  have "console_steps s0 s0" by (rule console_steps.refl)
  then have "console_steps s0 s1" unfolding s1_def by (rule console_steps.step) (rule console_step.poll [where input = "Some 65"]; simp add: eval)
  then have "console_steps s0 s2" unfolding s2_def by (rule console_steps.step) (rule console_step.room; simp add: eval)
  then have "console_steps s0 s3" unfolding s3_def by (rule console_steps.step) (rule console_step.was_empty; simp add: eval)
  then have "console_steps s0 s4" unfolding s4_def by (rule console_steps.step) (rule console_step.store; simp add: eval)
  then have "console_steps s0 s5" unfolding s5_def by (rule console_steps.step) (rule console_step.publish; simp add: eval)
  then have "console_steps s0 s6" unfolding s6_def by (rule console_steps.step) (rule console_step.interrupt; simp add: eval)
  then have "console_steps s0 s7" unfolding s7_def by (rule console_steps.step) (rule console_step.irq; simp add: eval)
  then have "console_steps s0 s8" unfolding s8_def by (rule console_steps.step) (rule console_step.poll [where input = "Some 66"]; simp add: eval)
  then have "console_steps s0 s9" unfolding s9_def by (rule console_steps.step) (rule console_step.room; simp add: eval)
  then have "console_steps s0 s10" unfolding s10_def by (rule console_steps.step) (rule console_step.was_empty; simp add: eval)
  then have "console_steps s0 s11" unfolding s11_def by (rule console_steps.step) (rule console_step.test; simp add: eval)
  then have "console_steps s0 s12" unfolding s12_def by (rule console_steps.step) (rule console_step.load; simp add: eval)
  then have "console_steps s0 s13" unfolding s13_def by (rule console_steps.step) (rule console_step.advance; simp add: eval)
  then have "console_steps s0 s14" unfolding s14_def by (rule console_steps.step) (rule console_step.test; simp add: eval)
  then have "console_steps s0 s15" unfolding s15_def by (rule console_steps.step) (rule console_step.store; simp add: eval)
  then have "console_steps s0 s16" unfolding s16_def by (rule console_steps.step) (rule console_step.publish; simp add: eval)
  then have "console_steps s0 s17" unfolding s17_def by (rule console_steps.step) (rule console_step.interrupt; simp add: eval)
  moreover have "lost_interrupt = s17" by (simp add: lost_interrupt_def Let_def s0_def s1_def s2_def s3_def s4_def s5_def s6_def s7_def s8_def s9_def s10_def s11_def s12_def s13_def s14_def s15_def s16_def s17_def)
  ultimately show ?thesis by (simp add: s0_def)
qed

text \<open>
  C32: An interrupt can be lost for good: there is an interleaving after which a byte waits in the ring while the handler is not
  running and no interrupt is pending, and from then on, however many bytes arrive, no interrupt is raised and nothing more is
  ever delivered.
\<close>
theorem console_input_lost:
  "\<exists>s. console_steps (console_initial 4) s \<and> accepted s = [65, 66] \<and> co_delivered s = [65] \<and>
     (\<forall>s'. console_steps s s' \<longrightarrow> co_delivered s' = [65] \<and> co_reader s' = Waiting \<and> \<not> co_pending s' \<and> fst (task_console_take s') \<ge> 0)"
proof (intro exI [of _ lost_interrupt] conjI allI impI lost_interrupt_reached, goal_cases)
  case 1
  show ?case by (simp add: lost_interrupt_def console_eval)
next
  case 2
  show ?case by (simp add: lost_interrupt_def console_eval)
next
  case (3 s')
  have st: "console_stuck lost_interrupt" "co_delivered lost_interrupt = [65]" by (simp_all add: console_stuck_def lost_interrupt_def console_eval)
  show ?case using console_stuck_steps [OF 3 console_steps_ok [OF lost_interrupt_reached console_initial_ok] st(1)] st(2) by simp
next
  case (4 s')
  have st: "console_stuck lost_interrupt" by (simp add: console_stuck_def lost_interrupt_def console_eval)
  show ?case using console_stuck_steps [OF 4 console_steps_ok [OF lost_interrupt_reached console_initial_ok] st] by (simp add: console_stuck_def)
next
  case (5 s')
  have st: "console_stuck lost_interrupt" by (simp add: console_stuck_def lost_interrupt_def console_eval)
  show ?case using console_stuck_steps [OF 5 console_steps_ok [OF lost_interrupt_reached console_initial_ok] st] by (simp add: console_stuck_def)
next
  case (6 s')
  have st: "console_stuck lost_interrupt" by (simp add: console_stuck_def lost_interrupt_def console_eval)
  show ?case using console_stuck_steps [OF 6 console_steps_ok [OF lost_interrupt_reached console_initial_ok] st]
    by (simp add: console_stuck_def task_console_take_def)
qed

theorem console_in_order_witness: "accepted (console_initial 4) = [] \<and> fst (task_console_take (console_initial 4)) = -1"
  using console_in_order [OF console_steps.refl, of 4] by (simp add: console_eval)

theorem console_input_lost_witness: "\<exists>s. console_steps (console_initial 4) s \<and> co_delivered s = [65] \<and> fst (task_console_take s) \<ge> 0"
  using console_input_lost console_steps.refl by blast

text \<open>Starting is refused or undone without a trace when the thread cannot be started; stopping returns once the thread has ended.\<close>

lemma console_start_stop:
  assumes "\<not> co_started s" "\<not> co_slot_used s" "irq > 0"
  shows "luna_lkl_task_console_ready (task_console_start True True irq s)"
    "\<not> luna_lkl_task_console_ready (task_console_start True False irq s) \<and> \<not> co_slot_used (task_console_start True False irq s)"
    "\<exists>t. console_stop_finish (console_poll input (console_stop_request (task_console_start True True irq s))) = Some t \<and>
      \<not> luna_lkl_task_console_ready t \<and> \<not> co_slot_used t"
  using assms by (simp_all add: task_console_start_def luna_lkl_task_console_ready_def console_stop_finish_def console_stop_request_def console_poll_def)

end
