(* ===== verification/User_Stdio.thy ===== *)
theory User_Stdio
  imports Luna_Prelude Luna_Protocol
begin

text \<open>
  The stream functions of the BusyBox environment in \<open>lkl_task_user.c\<close>: descriptors of a static
  worker, the read-ahead buffer of its standard input, \<open>FILE\<close> objects with one pushed-back
  character, and the write loops. The system calls of LKL are parameters; what is assumed of them
  is stated with each property. A descriptor is an \<open>int\<close>, a result below zero is an error.
\<close>

definition LUNA_STDIO_IO_CHUNK :: nat where [luna_consts]: "LUNA_STDIO_IO_CHUNK = 64 * 1024"
definition LUNA_STDIO_GETC_BUFFER :: nat where [luna_consts]: "LUNA_STDIO_GETC_BUFFER = 16 * 1024"
definition SIZE_MAX :: nat where [luna_consts]: "SIZE_MAX = 2 ^ 64 - 1"

definition EBADF :: int where "EBADF = 9"
definition EOVERFLOW :: int where "EOVERFLOW = 75"

datatype whence = SEEK_SET | SEEK_CUR | SEEK_END

text \<open>\<open>read\<close> yields its result and the bytes stored, \<open>write\<close> and \<open>lseek\<close> their result.\<close>

record 'k syscalls =
  sys_read :: "'k \<Rightarrow> int \<Rightarrow> nat \<Rightarrow> int \<times> u8 list \<times> 'k"
  sys_write :: "'k \<Rightarrow> int \<Rightarrow> u8 list \<Rightarrow> int \<times> 'k"
  sys_lseek :: "'k \<Rightarrow> int \<Rightarrow> int \<Rightarrow> whence \<Rightarrow> int \<times> 'k"

record stdio_worker =
  sw_fd_map :: "nat \<Rightarrow> int"
  sw_offset :: nat
  sw_length :: nat
  sw_buffer :: bytes

record luna_bb_file =
  bf_fd :: int
  bf_error :: bool
  bf_eof :: bool
  bf_ungot :: int

text \<open>The calling thread: the kernel, its error number, its worker (if it is one) and the \<open>FILE\<close> object it works on.\<close>

record 'k stdio =
  io_kernel :: 'k
  io_errno :: int
  io_worker :: "stdio_worker option"
  io_file :: luna_bb_file

datatype stream = Standard nat | Object | Unknown

section \<open>Descriptors\<close>

definition bb_fd :: "'k stdio \<Rightarrow> int \<Rightarrow> int" where
  "bb_fd s fd = (case io_worker s of Some w \<Rightarrow> if 0 \<le> fd \<and> fd < 3 then sw_fd_map w (nat fd) else fd | None \<Rightarrow> fd)"

definition bb_result :: "int \<Rightarrow> 'k stdio \<Rightarrow> int \<times> 'k stdio" where
  "bb_result result s = (if result < 0 then (-1, s\<lparr>io_errno := - result\<rparr>) else (result, s))"

definition luna_bb_fileno :: "stream \<Rightarrow> 'k stdio \<Rightarrow> int \<times> 'k stdio" where
  "luna_bb_fileno stream s =
     (case stream of Standard i \<Rightarrow> (int i, s) | Object \<Rightarrow> (bf_fd (io_file s), s) | Unknown \<Rightarrow> (-1, s\<lparr>io_errno := EBADF\<rparr>))"

section \<open>Reading\<close>

text \<open>The bytes that a read takes from the buffer of a worker's standard input.\<close>

definition take_buffered :: "int \<Rightarrow> nat \<Rightarrow> 'k stdio \<Rightarrow> u8 list \<times> 'k stdio" where
  "take_buffered fd count s =
     (case io_worker s of
        Some w \<Rightarrow>
          if fd = 0 \<and> sw_offset w < sw_length w
          then let n = min count (sw_length w - sw_offset w)
               in (slice (sw_buffer w) (sw_offset w) n, s\<lparr>io_worker := Some (w\<lparr>sw_offset := sw_offset w + n\<rparr>)\<rparr>)
          else ([], s)
      | None \<Rightarrow> ([], s))"

definition luna_bb_read :: "'k syscalls \<Rightarrow> int \<Rightarrow> nat \<Rightarrow> 'k stdio \<Rightarrow> int \<times> u8 list \<times> 'k stdio" where
  "luna_bb_read sys fd count s =
     (if count = 0 then (0, [], s)
      else
        let actual = bb_fd s fd
        in if actual < 0 then (let (e, s) = bb_result (- EBADF) s in (e, [], s))
           else
             let (bs, s) = take_buffered fd count s; buffered = length bs
             in if buffered = count then (int buffered, bs, s)
                else
                  let (raw, more, k) = sys_read sys (io_kernel s) actual (count - buffered);
                      (result, s) = bb_result raw (s\<lparr>io_kernel := k\<rparr>)
                  in if result < 0 then (if buffered \<noteq> 0 then (int buffered, bs, s) else (result, [], s))
                     else (int buffered + result, bs @ more, s))"

definition bb_stream_read :: "'k syscalls \<Rightarrow> stream \<Rightarrow> int \<Rightarrow> nat \<Rightarrow> 'k stdio \<Rightarrow> int \<times> u8 list \<times> 'k stdio" where
  "bb_stream_read sys stream fd count s =
     (if stream \<noteq> Object then luna_bb_read sys fd count s
      else
        let (raw, bs, k) = sys_read sys (io_kernel s) (bf_fd (io_file s)) count; s = s\<lparr>io_kernel := k\<rparr>
        in if raw < 0 then let (e, s) = bb_result raw s in (e, [], s) else (raw, bs, s))"

definition file_update :: "(luna_bb_file \<Rightarrow> luna_bb_file) \<Rightarrow> 'k stdio \<Rightarrow> 'k stdio" where
  "file_update f s = s\<lparr>io_file := f (io_file s)\<rparr>"

text \<open>The end-of-file and error marks that a read leaves on a \<open>FILE\<close> object.\<close>

definition mark_end :: "stream \<Rightarrow> int \<Rightarrow> 'k stdio \<Rightarrow> 'k stdio" where
  "mark_end stream result s =
     (if stream \<noteq> Object then s
      else if result = 0 then file_update (\<lambda>f. f\<lparr>bf_eof := True\<rparr>) s else file_update (\<lambda>f. f\<lparr>bf_error := True\<rparr>) s)"

definition take_ungot :: "'k stdio \<Rightarrow> 'k stdio" where
  "take_ungot s = file_update (\<lambda>f. f\<lparr>bf_ungot := -1, bf_eof := False\<rparr>) s"

text \<open>\<open>getc\<close> on the standard input of a worker; \<open>None\<close> is \<open>EOF\<close>.\<close>

definition worker_getc :: "'k syscalls \<Rightarrow> stdio_worker \<Rightarrow> 'k stdio \<Rightarrow> u8 option \<times> 'k stdio" where
  "worker_getc sys w s =
     (if sw_offset w = sw_length w
      then
        let (filled, bs, s) = luna_bb_read sys 0 LUNA_STDIO_GETC_BUFFER s
        in if filled \<le> 0 then (None, s)
           else
             let b = memcpy_at (sw_buffer w) 0 (\<lambda>i. bs ! i) 0 (length bs)
             in (Some (b 0), s\<lparr>io_worker := Some (w\<lparr>sw_offset := 1, sw_length := nat filled, sw_buffer := b\<rparr>)\<rparr>)
      else (Some (sw_buffer w (sw_offset w)), s\<lparr>io_worker := Some (w\<lparr>sw_offset := sw_offset w + 1\<rparr>)\<rparr>))"

definition luna_bb_getc :: "'k syscalls \<Rightarrow> stream \<Rightarrow> 'k stdio \<Rightarrow> u8 option \<times> 'k stdio" where
  "luna_bb_getc sys stream s =
     (let (fd, s) = luna_bb_fileno stream s
      in if fd < 0 then (None, s)
         else if stream = Object \<and> bf_ungot (io_file s) \<ge> 0 then (Some (word_of_int (bf_ungot (io_file s))), take_ungot s)
         else
           (case (stream, io_worker s) of
              (Standard 0, Some w) \<Rightarrow> worker_getc sys w s
            | _ \<Rightarrow>
                let (result, bs, s) = bb_stream_read sys stream fd 1 s
                in if result = 1 then (Some (bs ! 0), s) else (None, mark_end stream result s)))"

definition luna_bb_ungetc :: "u8 option \<Rightarrow> stream \<Rightarrow> 'k stdio \<Rightarrow> u8 option \<times> 'k stdio" where
  "luna_bb_ungetc character stream s =
     (case character of
        None \<Rightarrow> (None, s)
      | Some c \<Rightarrow>
          if stream \<noteq> Object \<or> bf_ungot (io_file s) \<ge> 0 then (None, s)
          else (Some c, file_update (\<lambda>f. f\<lparr>bf_ungot := uint c, bf_eof := False\<rparr>) s))"

text \<open>The loop of \<open>fread\<close>: the bytes of the remaining chunks and the state; \<open>wanted\<close> is what is still to be read.\<close>

function fread_loop :: "'k syscalls \<Rightarrow> stream \<Rightarrow> int \<Rightarrow> nat \<Rightarrow> 'k stdio \<Rightarrow> u8 list \<times> 'k stdio" where
  "fread_loop sys stream fd wanted s =
     (if wanted = 0 then ([], s)
      else
        let chunk = min wanted LUNA_STDIO_IO_CHUNK;
            (result, bs, s) = bb_stream_read sys stream fd chunk s
        in if result \<le> 0 then ([], mark_end stream result s)
           else if nat result < chunk then (bs, s)
           else let (more, s) = fread_loop sys stream fd (wanted - nat result) s in (bs @ more, s))"
  by pat_completeness auto
termination by (relation "measure (\<lambda>(sys, stream, fd, wanted, s). wanted)") auto

declare fread_loop.simps [simp del]

definition luna_bb_fread :: "'k syscalls \<Rightarrow> nat \<Rightarrow> nat \<Rightarrow> stream \<Rightarrow> 'k stdio \<Rightarrow> nat \<times> u8 list \<times> 'k stdio" where
  "luna_bb_fread sys size_each count stream s =
     (if size_each = 0 \<or> count = 0 then (0, [], s)
      else if count > SIZE_MAX div size_each
      then (0, [], (if stream = Object then file_update (\<lambda>f. f\<lparr>bf_error := True\<rparr>) else id) (s\<lparr>io_errno := EOVERFLOW\<rparr>))
      else
        let (fd, s) = luna_bb_fileno stream s
        in if fd < 0 then (0, [], s)
           else
             let wanted = size_each * count;
                 (first, s) = (if stream = Object \<and> bf_ungot (io_file s) \<ge> 0 then ([word_of_int (bf_ungot (io_file s))], take_ungot s) else ([], s));
                 (more, s) = fread_loop sys stream fd (wanted - length first) s;
                 bs = first @ more
             in (length bs div size_each, bs, s))"

text \<open>\<open>fgets\<close>: the characters stored before the terminator, \<open>None\<close> for a null result.\<close>

fun fgets_loop :: "'k syscalls \<Rightarrow> stream \<Rightarrow> nat \<Rightarrow> 'k stdio \<Rightarrow> u8 list \<times> 'k stdio" where
  "fgets_loop sys stream 0 s = ([], s)"
| "fgets_loop sys stream (Suc n) s =
     (case luna_bb_getc sys stream s of
        (None, s) \<Rightarrow> ([], s)
      | (Some c, s) \<Rightarrow> if c = 10 then ([c], s) else let (cs, s) = fgets_loop sys stream n s in (c # cs, s))"

definition luna_bb_fgets :: "'k syscalls \<Rightarrow> nat \<Rightarrow> stream \<Rightarrow> 'k stdio \<Rightarrow> u8 list option \<times> 'k stdio" where
  "luna_bb_fgets sys n stream s =
     (if n = 0 then (None, s)
      else let (cs, s) = fgets_loop sys stream (n - 1) s in (if cs = [] then None else Some cs, s))"

section \<open>Seeking\<close>

definition luna_bb_lseek :: "'k syscalls \<Rightarrow> int \<Rightarrow> int \<Rightarrow> whence \<Rightarrow> 'k stdio \<Rightarrow> int \<times> 'k stdio" where
  "luna_bb_lseek sys fd offset whence s =
     (let (offset, s) =
        (case io_worker s of
           Some w \<Rightarrow>
             if fd = 0 \<and> sw_offset w < sw_length w
             then (if whence = SEEK_CUR then offset - int (sw_length w - sw_offset w) else offset,
                   s\<lparr>io_worker := Some (w\<lparr>sw_offset := 0, sw_length := 0\<rparr>)\<rparr>)
             else (offset, s)
         | None \<Rightarrow> (offset, s));
        (result, k) = sys_lseek sys (io_kernel s) (bb_fd s fd) offset whence
      in bb_result result (s\<lparr>io_kernel := k\<rparr>))"

definition luna_bb_fseek :: "'k syscalls \<Rightarrow> stream \<Rightarrow> int \<Rightarrow> whence \<Rightarrow> 'k stdio \<Rightarrow> int \<times> 'k stdio" where
  "luna_bb_fseek sys stream offset whence s =
     (let (fd, s) = luna_bb_fileno stream s
      in if fd < 0 then (-1, s)
         else
           let (result, s) = luna_bb_lseek sys fd offset whence s
           in if result < 0 then (-1, s)
              else (0, if stream = Object then file_update (\<lambda>f. f\<lparr>bf_eof := False, bf_ungot := -1\<rparr>) s else s))"

definition luna_bb_ftell :: "'k syscalls \<Rightarrow> stream \<Rightarrow> 'k stdio \<Rightarrow> int \<times> 'k stdio" where
  "luna_bb_ftell sys stream s =
     (let (fd, s) = luna_bb_fileno stream s in if fd < 0 then (-1, s) else luna_bb_lseek sys fd 0 SEEK_CUR s)"

definition luna_bb_rewind :: "'k syscalls \<Rightarrow> stream \<Rightarrow> 'k stdio \<Rightarrow> 'k stdio" where
  "luna_bb_rewind sys stream s =
     (let (e, s) = luna_bb_fseek sys stream 0 SEEK_SET s
      in if stream = Object then file_update (\<lambda>f. f\<lparr>bf_error := False\<rparr>) s else s)"

definition luna_bb_feof :: "stream \<Rightarrow> 'k stdio \<Rightarrow> bool" where
  "luna_bb_feof stream s = (stream = Object \<and> bf_eof (io_file s))"

definition luna_bb_clearerr :: "stream \<Rightarrow> 'k stdio \<Rightarrow> 'k stdio" where
  "luna_bb_clearerr stream s = (if stream = Object then file_update (\<lambda>f. f\<lparr>bf_error := False, bf_eof := False\<rparr>) s else s)"

section \<open>Writing\<close>

definition luna_bb_write :: "'k syscalls \<Rightarrow> int \<Rightarrow> u8 list \<Rightarrow> 'k stdio \<Rightarrow> int \<times> 'k stdio" where
  "luna_bb_write sys fd bs s =
     (let actual = bb_fd s fd
      in if actual < 0 then bb_result (- EBADF) s
         else let (raw, k) = sys_write sys (io_kernel s) actual bs in bb_result raw (s\<lparr>io_kernel := k\<rparr>))"

text \<open>The write loops return how much was written; \<open>limit\<close> bounds one write.\<close>

function write_loop :: "'k syscalls \<Rightarrow> int \<Rightarrow> nat \<Rightarrow> u8 list \<Rightarrow> 'k stdio \<Rightarrow> nat \<times> 'k stdio" where
  "write_loop sys fd limit bs s =
     (if bs = [] then (0, s)
      else
        let (result, s) = luna_bb_write sys fd (take limit bs) s
        in if result \<le> 0 then (0, s)
           else let (n, s) = write_loop sys fd limit (drop (nat result) bs) s in (nat result + n, s))"
  by pat_completeness auto
termination by (relation "measure (\<lambda>(sys, fd, limit, bs, s). length bs)") auto

declare write_loop.simps [simp del]

definition bb_write_all :: "'k syscalls \<Rightarrow> int \<Rightarrow> u8 list \<Rightarrow> 'k stdio \<Rightarrow> int \<times> 'k stdio" where
  "bb_write_all sys fd bs s = (let (n, s) = write_loop sys fd (length bs) bs s in (if n < length bs then -1 else 0, s))"

definition luna_bb_fwrite :: "'k syscalls \<Rightarrow> u8 list \<Rightarrow> nat \<Rightarrow> nat \<Rightarrow> stream \<Rightarrow> 'k stdio \<Rightarrow> nat \<times> 'k stdio" where
  "luna_bb_fwrite sys bs size_each count stream s =
     (if size_each = 0 \<or> count = 0 then (0, s)
      else if count > SIZE_MAX div size_each
      then (0, (if stream = Object then file_update (\<lambda>f. f\<lparr>bf_error := True\<rparr>) else id) (s\<lparr>io_errno := EOVERFLOW\<rparr>))
      else
        let (fd, s) = luna_bb_fileno stream s
        in if fd < 0 then (0, s)
           else
             let wanted = size_each * count; (n, s) = write_loop sys fd LUNA_STDIO_IO_CHUNK (take wanted bs) s
             in (n div size_each, if stream = Object \<and> n \<noteq> wanted then file_update (\<lambda>f. f\<lparr>bf_error := True\<rparr>) s else s))"

section \<open>Streams of bytes\<close>

text \<open>
  What is assumed of \<open>read\<close>: the bytes it stores are the next ones of the open file, at most as many as asked for,
  its result is their number, and an error consumes nothing. \<open>ahead k fd\<close> are the bytes still to come.
\<close>

definition reads_ok :: "'k syscalls \<Rightarrow> ('k \<Rightarrow> int \<Rightarrow> u8 list) \<Rightarrow> bool" where
  "reads_ok sys ahead \<longleftrightarrow> (\<forall>k fd n. case sys_read sys k fd n of (res, bs, k') \<Rightarrow>
     if res < 0 then ahead k' fd = ahead k fd else res = int (length bs) \<and> length bs \<le> n \<and> ahead k fd = bs @ ahead k' fd)"

definition buffered :: "stdio_worker \<Rightarrow> u8 list" where
  "buffered w = slice (sw_buffer w) (sw_offset w) (sw_length w - sw_offset w)"

definition pushed_back :: "luna_bb_file \<Rightarrow> u8 list" where
  "pushed_back f = (if bf_ungot f \<ge> 0 then [word_of_int (bf_ungot f)] else [])"

text \<open>The bytes a stream will deliver: read-ahead or pushed-back bytes first.\<close>

definition stream_ahead :: "('k \<Rightarrow> int \<Rightarrow> u8 list) \<Rightarrow> stream \<Rightarrow> 'k stdio \<Rightarrow> u8 list" where
  "stream_ahead ahead stream s =
     (case stream of
        Object \<Rightarrow> pushed_back (io_file s) @ ahead (io_kernel s) (bf_fd (io_file s))
      | _ \<Rightarrow> (case io_worker s of Some w \<Rightarrow> buffered w @ ahead (io_kernel s) (sw_fd_map w 0) | None \<Rightarrow> ahead (io_kernel s) 0))"

text \<open>The standard input of a worker, or a \<open>FILE\<close> object; the buffer indexes stay in the buffer.\<close>

definition stream_ok :: "stream \<Rightarrow> 'k stdio \<Rightarrow> bool" where
  "stream_ok stream s \<longleftrightarrow>
     (case stream of
        Object \<Rightarrow> bf_fd (io_file s) \<ge> 0
      | Standard i \<Rightarrow> i = 0 \<and> (case io_worker s of Some w \<Rightarrow> sw_fd_map w 0 \<ge> 0 \<and> sw_offset w \<le> sw_length w \<and> sw_length w \<le> LUNA_STDIO_GETC_BUFFER | None \<Rightarrow> True)
      | Unknown \<Rightarrow> False)"

definition consumes :: "('k \<Rightarrow> int \<Rightarrow> u8 list) \<Rightarrow> stream \<Rightarrow> 'k stdio \<Rightarrow> u8 list \<Rightarrow> 'k stdio \<Rightarrow> bool" where
  "consumes ahead stream s bs s' \<longleftrightarrow> stream_ok stream s' \<and> stream_ahead ahead stream s = bs @ stream_ahead ahead stream s'"

lemma consumes_trans: "consumes ahead st s xs s1 \<Longrightarrow> consumes ahead st s1 ys s2 \<Longrightarrow> consumes ahead st s (xs @ ys) s2"
  by (simp add: consumes_def)

lemma consumes_refl: "stream_ok st s \<Longrightarrow> consumes ahead st s [] s"
  by (simp add: consumes_def)

lemma take_buffered_consumes:
  assumes "stream_ok (Standard 0) s" "take_buffered 0 count s = (bs, s')"
  shows "consumes ahead (Standard 0) s bs s' \<and> length bs \<le> count \<and> bb_fd s' 0 = bb_fd s 0 \<and>
    (length bs < count \<longrightarrow> (case io_worker s' of None \<Rightarrow> True | Some w \<Rightarrow> buffered w = []))"
proof (cases "io_worker s")
  case None
  then show ?thesis using assms by (auto simp: take_buffered_def consumes_refl)
next
  case (Some w)
  show ?thesis
  proof (cases "sw_offset w < sw_length w")
    case False
    then show ?thesis using assms Some by (auto simp: take_buffered_def consumes_refl buffered_def slice_def)
  next
    case True
    define n where "n = min count (sw_length w - sw_offset w)"
    have bs: "bs = slice (sw_buffer w) (sw_offset w) n" "s' = s\<lparr>io_worker := Some (w\<lparr>sw_offset := sw_offset w + n\<rparr>)\<rparr>"
      using assms(2) Some True by (auto simp: take_buffered_def n_def Let_def)
    have le: "sw_offset w + n \<le> sw_length w" using True by (simp add: n_def)
    have "buffered w = bs @ buffered (w\<lparr>sw_offset := sw_offset w + n\<rparr>)"
      unfolding buffered_def bs using slice_append [of "sw_buffer w" "sw_offset w" n "sw_length w - sw_offset w - n"] le by simp
    then show ?thesis using assms(1) Some bs le
      by (auto simp: consumes_def stream_ok_def stream_ahead_def bb_fd_def n_def buffered_def slice_def)
  qed
qed

lemma read_consumes:
  assumes sys: "reads_ok sys ahead" and ok: "stream_ok (Standard 0) s" and run: "luna_bb_read sys 0 count s = (res, bs, s')"
  shows "consumes ahead (Standard 0) s bs s' \<and> length bs \<le> count \<and> (res \<ge> 0 \<longrightarrow> res = int (length bs)) \<and> (res < 0 \<longrightarrow> bs = [])"
proof (cases "count = 0")
  case True
  then show ?thesis using run ok by (auto simp: luna_bb_read_def consumes_refl)
next
  case pos: False
  have fd: "bb_fd s 0 \<ge> 0" using ok by (auto simp: stream_ok_def bb_fd_def split: option.splits)
  obtain b1 s1 where b: "take_buffered 0 count s = (b1, s1)" by force
  note tb = take_buffered_consumes [OF ok b, of ahead]
  show ?thesis
  proof (cases "length b1 = count")
    case True
    then show ?thesis using run pos fd b tb by (auto simp: luna_bb_read_def)
  next
    case False
    obtain raw more k where r: "sys_read sys (io_kernel s1) (bb_fd s 0) (count - length b1) = (raw, more, k)" by (metis prod.exhaust)
    have spec: "if raw < 0 then ahead k (bb_fd s 0) = ahead (io_kernel s1) (bb_fd s 0)
      else raw = int (length more) \<and> length more \<le> count - length b1 \<and> ahead (io_kernel s1) (bb_fd s 0) = more @ ahead k (bb_fd s 0)"
      using sys r unfolding reads_ok_def by (metis (mono_tags, lifting) case_prod_conv)
    have ok1: "stream_ok (Standard 0) s1" using tb by (simp add: consumes_def)
    have empty: "case io_worker s1 of None \<Rightarrow> True | Some w \<Rightarrow> buffered w = []" using tb False by auto
    have ah: "stream_ahead ahead (Standard 0) (s1\<lparr>io_kernel := k, io_errno := e\<rparr>) = ahead k (bb_fd s 0)"
      "stream_ahead ahead (Standard 0) (s1\<lparr>io_kernel := k\<rparr>) = ahead k (bb_fd s 0)"
      "stream_ahead ahead (Standard 0) s1 = ahead (io_kernel s1) (bb_fd s 0)" for e k
      using tb empty by (auto simp: stream_ahead_def bb_fd_def split: option.splits)
    have okk: "stream_ok (Standard 0) (s1\<lparr>io_kernel := k, io_errno := e\<rparr>)" "stream_ok (Standard 0) (s1\<lparr>io_kernel := k\<rparr>)" for e
      using ok1 by (simp_all add: stream_ok_def)
    show ?thesis
    proof (cases "raw < 0")
      case True
      then have "consumes ahead (Standard 0) s1 [] (s1\<lparr>io_kernel := k, io_errno := - raw\<rparr>)"
        using spec okk ah by (simp add: consumes_def)
      then have "consumes ahead (Standard 0) s b1 (s1\<lparr>io_kernel := k, io_errno := - raw\<rparr>)"
        using consumes_trans [of ahead "Standard 0" s b1 s1 "[]"] tb by simp
      then show ?thesis using run pos fd b r True False tb by (auto simp: luna_bb_read_def bb_result_def Let_def split: if_splits)
    next
      case nn: False
      then have "consumes ahead (Standard 0) s1 more (s1\<lparr>io_kernel := k\<rparr>)" using spec okk ah by (simp add: consumes_def)
      then have "consumes ahead (Standard 0) s (b1 @ more) (s1\<lparr>io_kernel := k\<rparr>)" using consumes_trans [of ahead "Standard 0" s b1 s1 more] tb by simp
      then show ?thesis using run pos fd b r nn False tb spec by (auto simp: luna_bb_read_def bb_result_def Let_def split: if_splits)
    qed
  qed
qed

lemma stream_read_consumes:
  assumes sys: "reads_ok sys ahead" and ok: "stream_ok stream s" and p: "stream = Object \<Longrightarrow> pushed_back (io_file s) = []"
    and fd: "luna_bb_fileno stream s = (fd, s)" and run: "bb_stream_read sys stream fd count s = (res, bs, s')"
  shows "consumes ahead stream s bs s' \<and> length bs \<le> count \<and> (res \<ge> 0 \<longrightarrow> res = int (length bs)) \<and> (res < 0 \<longrightarrow> bs = []) \<and>
    (stream = Object \<longrightarrow> pushed_back (io_file s') = [])"
proof (cases "stream = Object")
  case False
  then have st: "stream = Standard 0" "fd = 0" using ok fd by (auto simp: stream_ok_def luna_bb_fileno_def split: stream.splits)
  have r: "luna_bb_read sys 0 count s = (res, bs, s')" using run st by (simp add: bb_stream_read_def)
  show ?thesis using read_consumes [OF sys _ r] ok st by simp
next
  case True
  obtain raw more k where r: "sys_read sys (io_kernel s) (bf_fd (io_file s)) count = (raw, more, k)" by (metis prod.exhaust)
  have spec: "if raw < 0 then ahead k (bf_fd (io_file s)) = ahead (io_kernel s) (bf_fd (io_file s))
    else raw = int (length more) \<and> length more \<le> count \<and> ahead (io_kernel s) (bf_fd (io_file s)) = more @ ahead k (bf_fd (io_file s))"
    using sys r unfolding reads_ok_def by (metis (mono_tags, lifting) case_prod_conv)
  then show ?thesis using run r True p ok
    by (auto simp: bb_stream_read_def bb_result_def Let_def consumes_def stream_ok_def stream_ahead_def split: if_splits)
qed

lemma mark_end_consumes: "consumes ahead stream s bs s' \<Longrightarrow> consumes ahead stream s bs (mark_end stream res s')"
  by (auto simp: consumes_def mark_end_def file_update_def stream_ok_def stream_ahead_def pushed_back_def split: stream.splits)

lemma take_ungot_consumes:
  "stream_ok Object s \<Longrightarrow> bf_ungot (io_file s) \<ge> 0 \<Longrightarrow> consumes ahead Object s [word_of_int (bf_ungot (io_file s))] (take_ungot s) \<and>
   pushed_back (io_file (take_ungot s)) = []"
  by (simp add: consumes_def take_ungot_def file_update_def stream_ok_def stream_ahead_def pushed_back_def)

lemma fileno_ok: "stream_ok stream s \<Longrightarrow> \<exists>fd \<ge> 0. luna_bb_fileno stream s = (fd, s)"
  by (auto simp: stream_ok_def luna_bb_fileno_def split: stream.splits)

definition byte_list :: "u8 option \<Rightarrow> u8 list" where
  "byte_list c = (case c of None \<Rightarrow> [] | Some b \<Rightarrow> [b])"

lemma worker_getc_consumes:
  assumes sys: "reads_ok sys ahead" and ok: "stream_ok (Standard 0) s" and w: "io_worker s = Some w" and run: "worker_getc sys w s = (c, s')"
  shows "consumes ahead (Standard 0) s (byte_list c) s'"
proof (cases "sw_offset w = sw_length w")
  case False
  then have lt: "sw_offset w < sw_length w" using ok w by (auto simp: stream_ok_def)
  then have "buffered w = sw_buffer w (sw_offset w) # buffered (w\<lparr>sw_offset := sw_offset w + 1\<rparr>)"
    by (simp add: buffered_def slice_def upt_conv_Cons Suc_diff_Suc)
  then show ?thesis using run False ok w lt by (auto simp: worker_getc_def consumes_def stream_ok_def stream_ahead_def byte_list_def)
next
  case True
  obtain filled bs s1 where r: "luna_bb_read sys 0 LUNA_STDIO_GETC_BUFFER s = (filled, bs, s1)" by (metis prod.exhaust)
  note rc = read_consumes [OF sys ok r]
  show ?thesis
  proof (cases "filled \<le> 0")
    case stop: True
    then have "bs = []" using rc by (cases "filled < 0") auto
    then show ?thesis using run True r rc stop by (auto simp: worker_getc_def byte_list_def)
  next
    case False
    then have f: "filled = int (length bs)" "bs \<noteq> []" using rc by auto
    have w1: "io_worker s1 = Some w"
      using r w True by (auto simp: luna_bb_read_def take_buffered_def bb_result_def Let_def split: if_splits prod.splits)
    let ?b = "memcpy_at (sw_buffer w) 0 (\<lambda>i. bs ! i) 0 (length bs)"
    let ?w = "w\<lparr>sw_offset := 1, sw_length := nat filled, sw_buffer := ?b\<rparr>"
    have n: "nat filled = length bs" using f by simp
    have "buffered ?w = tl bs" unfolding buffered_def n
      by (rule nth_equalityI) (auto simp: memcpy_at_def nth_tl)
    then have split: "?b 0 # buffered ?w = bs" using f(2) by (cases bs) (simp_all add: memcpy_at_def)
    have old: "buffered w = []" using True by (simp add: buffered_def slice_def)
    have "stream_ahead ahead (Standard 0) s = bs @ stream_ahead ahead (Standard 0) s1" using rc by (simp add: consumes_def)
    then have "stream_ahead ahead (Standard 0) s = bs @ ahead (io_kernel s1) (sw_fd_map w 0)" using w1 old by (simp add: stream_ahead_def)
    then have "stream_ahead ahead (Standard 0) s = [?b 0] @ stream_ahead ahead (Standard 0) (s1\<lparr>io_worker := Some ?w\<rparr>)"
      using split by (simp add: stream_ahead_def)
    moreover have "stream_ok (Standard 0) (s1\<lparr>io_worker := Some ?w\<rparr>)"
      using rc w1 f by (cases bs) (auto simp: consumes_def stream_ok_def)
    ultimately show ?thesis using run True r False by (auto simp: worker_getc_def consumes_def byte_list_def Let_def)
  qed
qed

lemma getc_consumes:
  assumes sys: "reads_ok sys ahead" and ok: "stream_ok stream s" and run: "luna_bb_getc sys stream s = (c, s')"
  shows "consumes ahead stream s (byte_list c) s'"
proof -
  obtain fd where fd: "fd \<ge> 0" "luna_bb_fileno stream s = (fd, s)" using fileno_ok [OF ok] by blast
  consider (ungot) "stream = Object" "bf_ungot (io_file s) \<ge> 0" | (worker) w where "stream = Standard 0" "io_worker s = Some w"
    | (plain) "stream = Object" "pushed_back (io_file s) = []" | (main) "stream = Standard 0" "io_worker s = None"
    using ok by (cases stream; cases "io_worker s"; cases "bf_ungot (io_file s) \<ge> 0") (auto simp: stream_ok_def pushed_back_def)
  then show ?thesis
  proof cases
    case ungot
    then show ?thesis using run fd ok take_ungot_consumes [of s ahead] by (auto simp: luna_bb_getc_def byte_list_def)
  next
    case (worker w)
    then show ?thesis using run fd ok worker_getc_consumes [OF sys _ worker(2)] by (auto simp: luna_bb_getc_def)
  next
    case plain
    obtain res bs s1 where r: "bb_stream_read sys stream fd 1 s = (res, bs, s1)" by (metis prod.exhaust)
    note rc = stream_read_consumes [OF sys ok plain(2) fd(2) r]
    have "luna_bb_getc sys stream s = (if res = 1 then (Some (bs ! 0), s1) else (None, mark_end stream res s1))"
      using plain fd r by (auto simp: luna_bb_getc_def pushed_back_def split: if_splits)
    moreover have "length bs = 1 \<longleftrightarrow> res = 1" "res \<noteq> 1 \<Longrightarrow> bs = []" using rc by (cases bs; auto; cases "res < 0"; auto)+
    ultimately show ?thesis using run rc mark_end_consumes [of ahead stream s bs s1 res]
      by (cases bs) (auto simp: byte_list_def split: if_splits)
  next
    case main
    obtain res bs s1 where r: "bb_stream_read sys stream fd 1 s = (res, bs, s1)" by (metis prod.exhaust)
    note rc = stream_read_consumes [OF sys ok _ fd(2) r]
    have "luna_bb_getc sys stream s = (if res = 1 then (Some (bs ! 0), s1) else (None, mark_end stream res s1))"
      using main fd r by (auto simp: luna_bb_getc_def split: if_splits)
    moreover have "length bs = 1 \<longleftrightarrow> res = 1" "res \<noteq> 1 \<Longrightarrow> bs = []" using rc main by (cases bs; auto; cases "res < 0"; auto)+
    ultimately show ?thesis using run rc main mark_end_consumes [of ahead stream s bs s1 res]
      by (cases bs) (auto simp: byte_list_def split: if_splits)
  qed
qed

lemma fread_loop_consumes:
  assumes "reads_ok sys ahead" "stream_ok stream s" "stream = Object \<Longrightarrow> pushed_back (io_file s) = []"
    "luna_bb_fileno stream s = (fd, s)" "fread_loop sys stream fd wanted s = (bs, s')"
  shows "consumes ahead stream s bs s' \<and> length bs \<le> wanted"
  using assms
proof (induction sys stream fd wanted s arbitrary: bs s' rule: fread_loop.induct)
  case (1 sys stream fd wanted s)
  show ?case
  proof (cases "wanted = 0")
    case True
    then show ?thesis using 1(3,6) by (auto simp: fread_loop.simps [of sys stream fd 0] consumes_refl)
  next
    case False
    define chunk where "chunk = min wanted LUNA_STDIO_IO_CHUNK"
    obtain res xs s1 where r: "bb_stream_read sys stream fd chunk s = (res, xs, s1)" by (metis prod.exhaust)
    have rc: "consumes ahead stream s xs s1 \<and> length xs \<le> chunk \<and> (res \<ge> 0 \<longrightarrow> res = int (length xs)) \<and> (res < 0 \<longrightarrow> xs = []) \<and>
      (stream = Object \<longrightarrow> pushed_back (io_file s1) = [])"
      by (rule stream_read_consumes [OF 1(2,3) _ 1(5) r]) (rule 1(4))
    have ok1: "stream_ok stream s1" using rc by (simp add: consumes_def)
    have fd1: "luna_bb_fileno stream s1 = (fd, s1)"
    proof (cases "stream = Object")
      case True
      then show ?thesis using r 1(5)
        by (auto simp: luna_bb_fileno_def bb_stream_read_def bb_result_def Let_def split: prod.splits if_splits)
    next
      case False
      then show ?thesis using ok1 1(5) by (auto simp: luna_bb_fileno_def stream_ok_def split: stream.splits)
    qed
    consider (stop) "res \<le> 0" | (short) "res > 0" "nat res < chunk" | (full) "res > 0" "\<not> nat res < chunk" by linarith
    then show ?thesis
    proof cases
      case stop
      then have "xs = []" using rc by (cases "res < 0") auto
      then show ?thesis using 1(6) False stop r rc mark_end_consumes [of ahead stream s "[]" s1 res]
        by (auto simp: fread_loop.simps [of sys stream fd wanted] chunk_def)
    next
      case short
      then show ?thesis using 1(6) False r rc by (auto simp: fread_loop.simps [of sys stream fd wanted] chunk_def)
    next
      case full
      obtain ys s2 where l: "fread_loop sys stream fd (wanted - nat res) s1 = (ys, s2)" by (metis prod.exhaust)
      have "consumes ahead stream s1 ys s2 \<and> length ys \<le> wanted - nat res"
        using 1(1) [OF False chunk_def r [symmetric] refl refl _ _ 1(2) ok1 _ fd1 l] full rc by auto
      moreover have "chunk \<le> wanted" by (simp add: chunk_def)
      ultimately show ?thesis using 1(6) False r rc full l consumes_trans [of ahead stream s xs s1 ys s2]
        by (auto simp: fread_loop.simps [of sys stream fd wanted] chunk_def [symmetric])
    qed
  qed
qed

lemma fread_consumes:
  assumes sys: "reads_ok sys ahead" and ok: "stream_ok stream s" and run: "luna_bb_fread sys size_each count stream s = (n, bs, s')"
  shows "consumes ahead stream s bs s' \<and> length bs \<le> size_each * count \<and> (size_each > 0 \<longrightarrow> n = length bs div size_each)"
proof -
  obtain fd where fd: "fd \<ge> 0" "luna_bb_fileno stream s = (fd, s)" using fileno_ok [OF ok] by blast
  have err: "consumes ahead stream s [] ((if stream = Object then file_update (\<lambda>f. f\<lparr>bf_error := True\<rparr>) else id) (s\<lparr>io_errno := e\<rparr>))" for e
    using ok by (auto simp: consumes_def file_update_def stream_ok_def stream_ahead_def pushed_back_def split: stream.splits option.splits)
  consider (none) "size_each = 0 \<or> count = 0" | (over) "size_each \<noteq> 0" "count \<noteq> 0" "count > SIZE_MAX div size_each"
    | (go) "size_each \<noteq> 0" "count \<noteq> 0" "\<not> count > SIZE_MAX div size_each" by blast
  then show ?thesis
  proof cases
    case none
    then show ?thesis using run ok by (auto simp: luna_bb_fread_def consumes_refl)
  next
    case over
    then show ?thesis using run err [of EOVERFLOW] by (auto simp: luna_bb_fread_def)
  next
    case go
    have pos: "1 \<le> size_each * count" using go by (cases "size_each * count") auto
    show ?thesis
    proof (cases "stream = Object \<and> bf_ungot (io_file s) \<ge> 0")
      case True
      define c where "c = (word_of_int (bf_ungot (io_file s)) :: u8)"
      have tk: "consumes ahead stream s [c] (take_ungot s)" "pushed_back (io_file (take_ungot s)) = []"
        using take_ungot_consumes [of s ahead] ok True by (auto simp: c_def)
      have fd1: "luna_bb_fileno stream (take_ungot s) = (fd, take_ungot s)"
        using fd True by (simp add: luna_bb_fileno_def take_ungot_def file_update_def)
      obtain xs s2 where l: "fread_loop sys stream fd (size_each * count - 1) (take_ungot s) = (xs, s2)" by (metis prod.exhaust)
      have lc: "consumes ahead stream (take_ungot s) xs s2 \<and> length xs \<le> size_each * count - 1"
        using fread_loop_consumes [OF sys _ _ fd1 l] tk by (auto simp: consumes_def)
      have "n = length (c # xs) div size_each \<and> bs = c # xs \<and> s' = s2"
        using run go fd True l by (auto simp: luna_bb_fread_def c_def)
      moreover have "Suc (length xs) \<le> size_each * count" using lc pos by linarith
      ultimately show ?thesis using lc consumes_trans [OF tk(1), of xs s2] by auto
    next
      case False
      obtain xs s2 where l: "fread_loop sys stream fd (size_each * count) s = (xs, s2)" by (metis prod.exhaust)
      have "n = length xs div size_each \<and> bs = xs \<and> s' = s2" using run go fd False l by (auto simp: luna_bb_fread_def)
      then show ?thesis using fread_loop_consumes [OF sys ok _ fd(2) l] False by (auto simp: pushed_back_def)
    qed
  qed
qed

lemma fgets_loop_consumes:
  assumes "reads_ok sys ahead" "stream_ok stream s" "fgets_loop sys stream n s = (cs, s')"
  shows "consumes ahead stream s cs s' \<and> length cs \<le> n \<and> 10 \<notin> set (butlast cs)"
  using assms
proof (induction n arbitrary: s cs)
  case 0
  then show ?case by (simp add: consumes_refl)
next
  case (Suc n)
  obtain c s1 where g: "luna_bb_getc sys stream s = (c, s1)" by (metis prod.exhaust)
  note gc = getc_consumes [OF Suc(2,3) g]
  have ok1: "stream_ok stream s1" using gc by (simp add: consumes_def)
  show ?case
  proof (cases c)
    case None
    then show ?thesis using Suc(4) g gc by (simp add: byte_list_def)
  next
    case (Some b)
    obtain xs s2 where l: "fgets_loop sys stream n s1 = (xs, s2)" by (metis prod.exhaust)
    note IH = Suc(1) [OF Suc(2) ok1]
    show ?thesis
    proof (cases "b = 10")
      case True
      then show ?thesis using Suc(4) g gc Some by (auto simp: byte_list_def)
    next
      case False
      then have cs: "cs = b # xs" "s' = s2" using Suc(4) g Some l by auto
      have "consumes ahead stream s1 xs s' \<and> length xs \<le> n \<and> 10 \<notin> set (butlast xs)" using IH l cs(2) by simp
      then show ?thesis using gc Some cs False consumes_trans [of ahead stream s "[b]" s1 xs s'] by (auto simp: byte_list_def)
    qed
  qed
qed

lemma fgets_consumes:
  assumes "reads_ok sys ahead" "stream_ok stream s" "luna_bb_fgets sys n stream s = (line, s')"
  shows "consumes ahead stream s (case line of None \<Rightarrow> [] | Some cs \<Rightarrow> cs) s' \<and>
    (case line of None \<Rightarrow> True | Some cs \<Rightarrow> cs \<noteq> [] \<and> length cs < n \<and> 10 \<notin> set (butlast cs))"
proof (cases "n = 0")
  case True
  then show ?thesis using assms by (simp add: luna_bb_fgets_def consumes_refl)
next
  case False
  obtain cs s1 where l: "fgets_loop sys stream (n - 1) s = (cs, s1)" by (metis prod.exhaust)
  show ?thesis using fgets_loop_consumes [OF assms(1,2) l] assms(3) False l by (auto simp: luna_bb_fgets_def split: if_splits)
qed

lemma ungetc_pushes:
  assumes "stream_ok stream s" "luna_bb_ungetc (Some c) stream s = (r, s')"
  shows "stream_ok stream s' \<and> stream_ahead ahead stream s' = byte_list r @ stream_ahead ahead stream s \<and> (r = None \<longrightarrow> s' = s) \<and> (r \<noteq> None \<longrightarrow> r = Some c)"
  using assms by (auto simp: luna_bb_ungetc_def file_update_def stream_ok_def stream_ahead_def pushed_back_def byte_list_def split: if_splits)

section \<open>Any sequence of calls on a stream\<close>

datatype stream_call = Getc | Ungetc u8 | Read nat | Fread nat nat | Fgets nat | Clearerr | Feof

datatype stream_event = Delivered "u8 list" | Pushed "u8 list"

fun stream_step :: "'k syscalls \<Rightarrow> stream \<Rightarrow> stream_call \<Rightarrow> 'k stdio \<Rightarrow> stream_event \<times> 'k stdio" where
  "stream_step sys st Getc s = (let (c, s) = luna_bb_getc sys st s in (Delivered (byte_list c), s))"
| "stream_step sys st (Ungetc c) s = (let (r, s) = luna_bb_ungetc (Some c) st s in (Pushed (byte_list r), s))"
| "stream_step sys st (Read n) s =
     (let (fd, s) = luna_bb_fileno st s; (e, bs, s) = bb_stream_read sys st fd n s in (Delivered bs, s))"
| "stream_step sys st (Fread size_each n) s = (let (items, bs, s) = luna_bb_fread sys size_each n st s in (Delivered bs, s))"
| "stream_step sys st (Fgets n) s = (let (line, s) = luna_bb_fgets sys n st s in (Delivered (case line of None \<Rightarrow> [] | Some cs \<Rightarrow> cs), s))"
| "stream_step sys st Clearerr s = (Delivered [], luna_bb_clearerr st s)"
| "stream_step sys st Feof s = (Delivered [], s)"

fun stream_run :: "'k syscalls \<Rightarrow> stream \<Rightarrow> stream_call list \<Rightarrow> 'k stdio \<Rightarrow> stream_event list \<times> 'k stdio" where
  "stream_run sys st [] s = ([], s)"
| "stream_run sys st (c # cs) s = (let (e, s) = stream_step sys st c s; (es, s) = stream_run sys st cs s in (e # es, s))"

text \<open>
  The contract of an input stream: what is delivered is taken from the front of the bytes to come, what is
  pushed back is put in front of them. The result is what is still to come, \<open>None\<close> if a delivery was wrong.
\<close>

fun replays :: "u8 list \<Rightarrow> stream_event list \<Rightarrow> u8 list option" where
  "replays rest [] = Some rest"
| "replays rest (Delivered bs # es) = (if take (length bs) rest = bs then replays (drop (length bs) rest) es else None)"
| "replays rest (Pushed bs # es) = replays (bs @ rest) es"

text \<open>A plain \<open>read\<close> is a call on a descriptor: it sees the buffer of a worker's standard input, not a pushed-back character.\<close>

fun call_ok :: "stream \<Rightarrow> stream_call \<Rightarrow> bool" where
  "call_ok st (Read n) = (st \<noteq> Object)"
| "call_ok st c = True"

lemma stream_step_replays:
  assumes sys: "reads_ok sys ahead" and ok: "stream_ok st s" and c: "call_ok st c" and run: "stream_step sys st c s = (e, s')"
  shows "stream_ok st s' \<and> replays (stream_ahead ahead st s) (e # es) = replays (stream_ahead ahead st s') es"
proof -
  have take: "stream_ok st s' \<and> replays (stream_ahead ahead st s) (e # es) = replays (stream_ahead ahead st s') es"
    if "consumes ahead st s bs s'" "e = Delivered bs" for bs using that by (simp add: consumes_def)
  show ?thesis
  proof (cases c)
    case Getc
    obtain b s1 where g: "luna_bb_getc sys st s = (b, s1)" by (metis prod.exhaust)
    then show ?thesis using run Getc getc_consumes [OF sys ok g] by (intro take [of "byte_list b"]) auto
  next
    case (Ungetc b)
    obtain r s1 where g: "luna_bb_ungetc (Some b) st s = (r, s1)" by (metis prod.exhaust)
    then show ?thesis using run Ungetc ungetc_pushes [OF ok g, of ahead] by auto
  next
    case (Read n)
    obtain fd where fd: "luna_bb_fileno st s = (fd, s)" using fileno_ok [OF ok] by blast
    obtain res bs s1 where g: "bb_stream_read sys st fd n s = (res, bs, s1)" by (metis prod.exhaust)
    have "consumes ahead st s bs s1" using stream_read_consumes [OF sys ok _ fd g] c Read by auto
    then show ?thesis using run Read g fd by (intro take [of bs]) auto
  next
    case (Fread m n)
    obtain k bs s1 where g: "luna_bb_fread sys m n st s = (k, bs, s1)" by (metis prod.exhaust)
    then show ?thesis using run Fread fread_consumes [OF sys ok g] by (intro take [of bs]) auto
  next
    case (Fgets n)
    obtain l s1 where g: "luna_bb_fgets sys n st s = (l, s1)" by (metis prod.exhaust)
    then show ?thesis using run Fgets fgets_consumes [OF sys ok g] by (intro take) auto
  next
    case Clearerr
    then have "e = Delivered []" "s' = luna_bb_clearerr st s" using run by auto
    moreover have "consumes ahead st s [] (luna_bb_clearerr st s)"
      using ok by (auto simp: luna_bb_clearerr_def consumes_def file_update_def stream_ok_def stream_ahead_def pushed_back_def)
    ultimately show ?thesis by (intro take) auto
  next
    case Feof
    then show ?thesis using run ok by auto
  qed
qed

lemma stream_run_replays:
  assumes "reads_ok sys ahead"
  shows "stream_ok st s \<Longrightarrow> list_all (call_ok st) cs \<Longrightarrow> stream_run sys st cs s = (es, s') \<Longrightarrow>
    stream_ok st s' \<and> replays (stream_ahead ahead st s) es = Some (stream_ahead ahead st s')"
proof (induction cs arbitrary: s es)
  case Nil
  then show ?case by simp
next
  case (Cons c cs)
  obtain e s1 where e: "stream_step sys st c s = (e, s1)" by (metis prod.exhaust)
  obtain xs s2 where r: "stream_run sys st cs s1 = (xs, s2)" by (metis prod.exhaust)
  have es: "es = e # xs" "s' = s2" using Cons(4) e r by auto
  have c: "call_ok st c" "list_all (call_ok st) cs" using Cons(3) by auto
  have step: "stream_ok st s1 \<and> replays (stream_ahead ahead st s) (e # xs) = replays (stream_ahead ahead st s1) xs"
    by (rule stream_step_replays [OF assms Cons(2) c(1) e])
  then have "stream_ok st s2 \<and> replays (stream_ahead ahead st s1) xs = Some (stream_ahead ahead st s2)"
    using Cons(1) [of s1 xs] c(2) r es(2) by simp
  then show ?case using step es by simp
qed

section \<open>Writing everything\<close>

text \<open>What is assumed of \<open>write\<close>: it appends a prefix of the bytes to what the file received, its result is their number, an error appends nothing.\<close>

definition writes_ok :: "'k syscalls \<Rightarrow> ('k \<Rightarrow> int \<Rightarrow> u8 list) \<Rightarrow> bool" where
  "writes_ok sys received \<longleftrightarrow> (\<forall>k fd bs. case sys_write sys k fd bs of (res, k') \<Rightarrow>
     if res < 0 then received k' fd = received k fd
     else res \<le> int (length bs) \<and> received k' fd = received k fd @ take (nat res) bs)"

lemma write_loop_appends:
  assumes "writes_ok sys received" "bb_fd s fd \<ge> 0" "write_loop sys fd limit bs s = (n, s')"
  shows "n \<le> length bs \<and> received (io_kernel s') (bb_fd s fd) = received (io_kernel s) (bb_fd s fd) @ take n bs \<and>
    io_worker s' = io_worker s \<and> io_file s' = io_file s"
  using assms
proof (induction sys fd limit bs s arbitrary: n s' rule: write_loop.induct)
  case (1 sys fd limit bs s)
  show ?case
  proof (cases "bs = []")
    case True
    then show ?thesis using 1(4) by (auto simp: write_loop.simps [of sys fd limit "[]"])
  next
    case False
    obtain raw k where r: "sys_write sys (io_kernel s) (bb_fd s fd) (take limit bs) = (raw, k)" by (metis prod.exhaust)
    have spec: "if raw < 0 then received k (bb_fd s fd) = received (io_kernel s) (bb_fd s fd)
      else raw \<le> int (length (take limit bs)) \<and> received k (bb_fd s fd) = received (io_kernel s) (bb_fd s fd) @ take (nat raw) (take limit bs)"
      using 1(2) r unfolding writes_ok_def by (metis (mono_tags, lifting) case_prod_conv)
    define s1 where "s1 = s\<lparr>io_kernel := k\<rparr>"
    show ?thesis
    proof (cases "raw \<le> 0")
      case True
      then show ?thesis using 1(3,4) False r spec
        by (auto simp: write_loop.simps [of sys fd limit bs] luna_bb_write_def bb_result_def Let_def split: if_splits)
    next
      case pos: False
      then have w: "luna_bb_write sys fd (take limit bs) s = (raw, s1)" using 1(3) r by (simp add: luna_bb_write_def bb_result_def s1_def)
      have le: "raw \<le> int (min (length bs) limit)" using spec pos by simp
      have same: "bb_fd s1 fd = bb_fd s fd" "io_worker s1 = io_worker s" "io_file s1 = io_file s" by (simp_all add: s1_def bb_fd_def)
      obtain m s2 where l: "write_loop sys fd limit (drop (nat raw) bs) s1 = (m, s2)" by (metis prod.exhaust)
      have ih: "m \<le> length (drop (nat raw) bs) \<and> received (io_kernel s2) (bb_fd s1 fd) = received (io_kernel s1) (bb_fd s1 fd) @ take m (drop (nat raw) bs) \<and>
        io_worker s2 = io_worker s1 \<and> io_file s2 = io_file s1"
        using 1(1) [OF False w [symmetric] refl _ 1(2) _ l] pos 1(3) same by auto
      have out: "n = nat raw + m" "s' = s2" using 1(4) False w pos l by (auto simp: write_loop.simps [of sys fd limit bs])
      have "received (io_kernel s1) (bb_fd s fd) = received (io_kernel s) (bb_fd s fd) @ take (nat raw) bs"
      proof -
        have "min (nat raw) limit = nat raw" using le by linarith
        then show ?thesis using spec pos by (simp add: s1_def)
      qed
      moreover have "nat raw \<le> length bs" using le by linarith
      ultimately show ?thesis using ih out same by (auto simp: take_add)
    qed
  qed
qed

text \<open>A file that takes at least one byte of every write receives everything.\<close>

definition writes_progress :: "'k syscalls \<Rightarrow> bool" where
  "writes_progress sys \<longleftrightarrow> (\<forall>k fd bs. bs \<noteq> [] \<longrightarrow> fst (sys_write sys k fd bs) > 0)"

lemma write_loop_finishes:
  assumes "writes_progress sys" "bb_fd s fd \<ge> 0" "limit > 0" "write_loop sys fd limit bs s = (n, s')"
  shows "n \<ge> length bs"
  using assms
proof (induction sys fd limit bs s arbitrary: n s' rule: write_loop.induct)
  case (1 sys fd limit bs s)
  show ?case
  proof (cases "bs = []")
    case False
    obtain raw k where r: "sys_write sys (io_kernel s) (bb_fd s fd) (take limit bs) = (raw, k)" by (metis prod.exhaust)
    have "take limit bs \<noteq> []" using False 1(4) by simp
    then have pos: "raw > 0" using 1(2) r unfolding writes_progress_def by (metis fst_conv)
    define s1 where "s1 = s\<lparr>io_kernel := k\<rparr>"
    have w: "luna_bb_write sys fd (take limit bs) s = (raw, s1)" using 1(3) r pos by (simp add: luna_bb_write_def bb_result_def s1_def)
    have same: "bb_fd s1 fd = bb_fd s fd" by (simp add: s1_def bb_fd_def)
    obtain m s2 where l: "write_loop sys fd limit (drop (nat raw) bs) s1 = (m, s2)" by (metis prod.exhaust)
    have "m \<ge> length (drop (nat raw) bs)" using 1(1) [OF False w [symmetric] refl _ 1(2) _ 1(4) l] pos 1(3) same by auto
    then show ?thesis using 1(5) False w pos l by (auto simp: write_loop.simps [of sys fd limit bs])
  qed simp
qed

section \<open>Seeking on a file\<close>

text \<open>
  A seekable file: \<open>pos\<close> is the offset the kernel keeps for a descriptor, \<open>content\<close> what the file holds. A seek that
  succeeds returns the new offset, one that fails leaves it.
\<close>

definition seeks_ok :: "'k syscalls \<Rightarrow> ('k \<Rightarrow> int \<Rightarrow> int) \<Rightarrow> ('k \<Rightarrow> int \<Rightarrow> u8 list) \<Rightarrow> bool" where
  "seeks_ok sys pos content \<longleftrightarrow> (\<forall>k fd off wh. case sys_lseek sys k fd off wh of (res, k') \<Rightarrow>
     content k' fd = content k fd \<and>
     (if res < 0 then pos k' fd = pos k fd
     else pos k' fd = res \<and> (wh = SEEK_CUR \<longrightarrow> res = pos k fd + off) \<and> (wh = SEEK_SET \<longrightarrow> res = off)))"

definition read_ahead :: "'k stdio \<Rightarrow> u8 list" where
  "read_ahead s = (case io_worker s of Some w \<Rightarrow> buffered w | None \<Rightarrow> [])"

text \<open>The offset of the next byte that standard input delivers.\<close>

definition logical_position :: "('k \<Rightarrow> int \<Rightarrow> int) \<Rightarrow> 'k stdio \<Rightarrow> int" where
  "logical_position pos s = pos (io_kernel s) (bb_fd s 0) - int (length (read_ahead s))"

lemma stream_ahead_input: "stream_ahead ahead (Standard 0) s = read_ahead s @ ahead (io_kernel s) (bb_fd s 0)"
  by (simp add: stream_ahead_def read_ahead_def bb_fd_def split: option.splits)

text \<open>The state of \<open>lseek\<close> before the system call: the read-ahead is dropped, a relative offset is corrected by it.\<close>

lemma lseek_prepared:
  assumes "stream_ok (Standard 0) s"
  obtains s1 where "io_kernel s1 = io_kernel s" "bb_fd s1 0 = bb_fd s 0" "read_ahead s1 = []" "stream_ok (Standard 0) s1"
    "luna_bb_lseek sys 0 off wh s =
      (let (res, k) = sys_lseek sys (io_kernel s) (bb_fd s 0) (if wh = SEEK_CUR then off - int (length (read_ahead s)) else off) wh
       in bb_result res (s1\<lparr>io_kernel := k\<rparr>))"
proof (cases "io_worker s")
  case None
  then show ?thesis using assms by (intro that [of s]) (simp_all add: luna_bb_lseek_def read_ahead_def)
next
  case (Some w)
  show ?thesis
  proof (cases "sw_offset w < sw_length w")
    case True
    then show ?thesis using Some assms
      by (intro that [of "s\<lparr>io_worker := Some (w\<lparr>sw_offset := 0, sw_length := 0\<rparr>)\<rparr>"])
        (simp_all add: luna_bb_lseek_def read_ahead_def bb_fd_def buffered_def slice_def stream_ok_def)
  next
    case False
    then show ?thesis using Some assms by (intro that [of s]) (simp_all add: luna_bb_lseek_def read_ahead_def buffered_def slice_def)
  qed
qed

lemma bb_result_kernel [simp]: "io_kernel (snd (bb_result r s)) = io_kernel s" "io_worker (snd (bb_result r s)) = io_worker s"
  by (simp_all add: bb_result_def)

lemma input_view_kernel:
  "io_worker s' = io_worker s \<Longrightarrow> read_ahead s' = read_ahead s" "io_worker s' = io_worker s \<Longrightarrow> bb_fd s' fd = bb_fd s fd"
  "io_worker s' = io_worker s \<Longrightarrow> stream_ok (Standard 0) s' = stream_ok (Standard 0) s"
  by (simp_all add: read_ahead_def bb_fd_def stream_ok_def)

text \<open>
  On a seekable standard input the read-ahead buffer is invisible: a relative seek moves from the position of the
  next undelivered byte, not from the kernel's offset, the result is the position that the next read starts from, and the
  bytes delivered afterwards are exactly those of the file from there on. In particular \<open>ftell\<close>, a relative seek by
  nothing, reports the position of the next byte and, when the buffer agrees with the file, changes nothing of what is
  still delivered.
\<close>
theorem seek_logical:
  assumes seek: "seeks_ok sys pos content" and ok: "stream_ok (Standard 0) s"
    and disk: "\<forall>k. ahead k (bb_fd s 0) = drop (nat (pos k (bb_fd s 0))) (content k (bb_fd s 0))"
    and run: "luna_bb_lseek sys 0 off wh s = (res, s')" and res: "res \<ge> 0"
  shows "(wh = SEEK_CUR \<longrightarrow> res = logical_position pos s + off) \<and> (wh = SEEK_SET \<longrightarrow> res = off) \<and>
    logical_position pos s' = res \<and> stream_ok (Standard 0) s' \<and>
    stream_ahead ahead (Standard 0) s' = drop (nat res) (content (io_kernel s) (bb_fd s 0)) \<and>
    luna_bb_ftell sys (Standard 0) s = luna_bb_lseek sys 0 0 SEEK_CUR s \<and>
    (wh = SEEK_CUR \<and> off = 0 \<and> stream_ahead ahead (Standard 0) s = drop (nat (logical_position pos s)) (content (io_kernel s) (bb_fd s 0)) \<longrightarrow>
       stream_ahead ahead (Standard 0) s' = stream_ahead ahead (Standard 0) s)"
proof -
  obtain s1 where s1: "io_kernel s1 = io_kernel s" "bb_fd s1 0 = bb_fd s 0" "read_ahead s1 = []" "stream_ok (Standard 0) s1"
    "luna_bb_lseek sys 0 off wh s =
      (let (res, k) = sys_lseek sys (io_kernel s) (bb_fd s 0) (if wh = SEEK_CUR then off - int (length (read_ahead s)) else off) wh
       in bb_result res (s1\<lparr>io_kernel := k\<rparr>))"
    using lseek_prepared [OF ok] by metis
  obtain q k where q: "sys_lseek sys (io_kernel s) (bb_fd s 0) (if wh = SEEK_CUR then off - int (length (read_ahead s)) else off) wh = (q, k)"
    by (metis prod.exhaust)
  have spec: "content k (bb_fd s 0) = content (io_kernel s) (bb_fd s 0) \<and> (if q < 0 then pos k (bb_fd s 0) = pos (io_kernel s) (bb_fd s 0)
     else pos k (bb_fd s 0) = q \<and> (wh = SEEK_CUR \<longrightarrow> q = pos (io_kernel s) (bb_fd s 0) + (off - int (length (read_ahead s)))) \<and> (wh = SEEK_SET \<longrightarrow> q = off))"
    using seek q unfolding seeks_ok_def by (smt (verit, best) case_prod_conv whence.distinct(1))
  have out: "q = res" "s' = s1\<lparr>io_kernel := k\<rparr>" using run res s1(5) q by (auto simp: bb_result_def split: if_splits)
  have w: "io_worker s' = io_worker s1" using out by simp
  have view: "read_ahead s' = []" "bb_fd s' 0 = bb_fd s 0" "stream_ok (Standard 0) s'" using input_view_kernel [OF w] s1 by simp_all
  have tell: "luna_bb_ftell sys (Standard 0) s = luna_bb_lseek sys 0 0 SEEK_CUR s" by (simp add: luna_bb_ftell_def luna_bb_fileno_def)
  have after: "stream_ahead ahead (Standard 0) s' = drop (nat res) (content (io_kernel s) (bb_fd s 0))" "logical_position pos s' = res"
    using spec out res view disk by (simp_all add: logical_position_def stream_ahead_input)
  have "(wh = SEEK_CUR \<longrightarrow> res = logical_position pos s + off) \<and> (wh = SEEK_SET \<longrightarrow> res = off)"
    using spec out res by (simp add: logical_position_def)
  then show ?thesis using after view tell by simp
qed

text \<open>
  C40: A failing seek loses input: on a pipe, where the kernel refuses to seek, \<open>lseek\<close> (and with it \<open>ftell\<close> and
  \<open>fseek\<close>) on the standard input of a worker returns -1, but the bytes that were read ahead have been thrown away and
  are never delivered.
\<close>
theorem failed_seek_drops_input:
  assumes "stream_ok (Standard 0) s" "io_worker s = Some w"
    and "\<forall>k off wh. fst (sys_lseek sys k (sw_fd_map w 0) off wh) < 0 \<and>
      ahead (snd (sys_lseek sys k (sw_fd_map w 0) off wh)) (sw_fd_map w 0) = ahead k (sw_fd_map w 0)"
    and "luna_bb_lseek sys 0 off wh s = (res, s')"
  shows "res = -1 \<and> stream_ahead ahead (Standard 0) s = buffered w @ stream_ahead ahead (Standard 0) s'"
proof -
  obtain s1 where s1: "io_kernel s1 = io_kernel s" "bb_fd s1 0 = bb_fd s 0" "read_ahead s1 = []" "stream_ok (Standard 0) s1"
    "luna_bb_lseek sys 0 off wh s =
      (let (res, k) = sys_lseek sys (io_kernel s) (bb_fd s 0) (if wh = SEEK_CUR then off - int (length (read_ahead s)) else off) wh
       in bb_result res (s1\<lparr>io_kernel := k\<rparr>))"
    using lseek_prepared [OF assms(1)] by metis
  have fd: "bb_fd s 0 = sw_fd_map w 0" "read_ahead s = buffered w" using assms(2) by (simp_all add: bb_fd_def read_ahead_def)
  obtain q k where q: "sys_lseek sys (io_kernel s) (bb_fd s 0) (if wh = SEEK_CUR then off - int (length (read_ahead s)) else off) wh = (q, k)"
    by (metis prod.exhaust)
  have neg: "q < 0" "ahead k (sw_fd_map w 0) = ahead (io_kernel s) (sw_fd_map w 0)" using assms(3) q fd by (metis fst_conv snd_conv)+
  have out: "res = -1" "s' = s1\<lparr>io_kernel := k, io_errno := - q\<rparr>" using assms(4) s1(5) q neg by (auto simp: bb_result_def)
  have "io_worker s' = io_worker s1" using out by simp
  then have "read_ahead s' = []" "bb_fd s' 0 = sw_fd_map w 0" using input_view_kernel [of s' s1] s1 fd by simp_all
  then show ?thesis using out neg fd by (simp add: stream_ahead_input)
qed

section \<open>The streams of the BusyBox environment\<close>

text \<open>
  C10: Whatever mixture of \<open>getc\<close>, \<open>ungetc\<close>, \<open>read\<close>, \<open>fread\<close>, \<open>fgets\<close>, \<open>clearerr\<close> and \<open>feof\<close> a
  program uses on its standard input or on a \<open>FILE\<close> object, it sees the bytes of the stream in order, each exactly once,
  a pushed-back character first: the read-ahead buffer, the pushed-back character, short reads and failing reads neither
  lose nor repeat nor reorder a byte. The descriptor stays valid and the indexes of the read-ahead buffer stay within its 16 KiB.
\<close>
theorem stream_in_order:
  assumes "reads_ok sys ahead" "stream_ok st s" "list_all (call_ok st) cs"
  shows "stream_ok st (snd (stream_run sys st cs s)) \<and>
    replays (stream_ahead ahead st s) (fst (stream_run sys st cs s)) = Some (stream_ahead ahead st (snd (stream_run sys st cs s)))"
  using stream_run_replays [OF assms(1-3), of "fst (stream_run sys st cs s)" "snd (stream_run sys st cs s)"] by simp

text \<open>A kernel with one file per descriptor: short reads of at most four bytes, short writes of at most two.\<close>

definition four_byte_files :: "(int \<Rightarrow> u8 list \<times> nat) syscalls" where
  "four_byte_files = \<lparr>
     sys_read = (\<lambda>k fd n. let (content, p) = k fd; bs = take (min n 4) (drop p content) in (int (length bs), bs, k(fd := (content, p + length bs)))),
     sys_write = (\<lambda>k fd bs. let (content, p) = k fd in (int (min 2 (length bs)), k(fd := (content @ take 2 bs, p)))),
     sys_lseek = (\<lambda>k fd off wh. let (content, p) = k fd;
        q = (case wh of SEEK_SET \<Rightarrow> off | SEEK_CUR \<Rightarrow> int p + off | SEEK_END \<Rightarrow> int (length content) + off)
        in if q < 0 then (-22, k) else (q, k(fd := (content, nat q))))\<rparr>"

lemma take_then_drop: "take m xs @ drop (length (take m xs)) xs = xs"
  by (cases "m \<le> length xs") simp_all

lemma four_byte_reads: "reads_ok four_byte_files (\<lambda>k fd. drop (snd (k fd)) (fst (k fd)))"
proof -
  have "drop p content = take m (drop p content) @ drop (p + length (take m (drop p content))) content" for p m and content :: "u8 list"
    using take_then_drop [of m "drop p content"] by (simp only: drop_drop add.commute)
  then show ?thesis unfolding reads_ok_def four_byte_files_def
    by (simp del: length_take take_drop add: Let_def split: prod.splits) auto
qed

lemma four_byte_writes: "writes_ok four_byte_files (\<lambda>k fd. fst (k fd))" "writes_progress four_byte_files"
  by (auto simp: writes_ok_def writes_progress_def four_byte_files_def Let_def min_def split: prod.splits)

lemma four_byte_seeks: "seeks_ok four_byte_files (\<lambda>k fd. int (snd (k fd))) (\<lambda>k fd. fst (k fd))"
  by (auto simp: seeks_ok_def four_byte_files_def Let_def split: prod.splits whence.splits)

text \<open>A worker whose standard input is descriptor 7, holding the nine bytes \<open>1 \<dots> 9\<close> with a newline in between.\<close>

definition input_example :: "(int \<Rightarrow> u8 list \<times> nat) stdio" where
  "input_example = \<lparr>io_kernel = (\<lambda>fd. ([1, 2, 3, 10, 5, 6, 7, 8, 9], 0)), io_errno = 0,
     io_worker = Some \<lparr>sw_fd_map = (\<lambda>i. 7), sw_offset = 0, sw_length = 0, sw_buffer = (\<lambda>i. 0)\<rparr>,
     io_file = \<lparr>bf_fd = 8, bf_error = False, bf_eof = False, bf_ungot = -1\<rparr>\<rparr>"

lemma input_example_ok: "stream_ok (Standard 0) input_example" "stream_ok Object input_example"
  by (simp_all add: stream_ok_def input_example_def)

theorem stream_in_order_witness:
  "reads_ok four_byte_files (\<lambda>k fd. drop (snd (k fd)) (fst (k fd))) \<and>
   replays [1, 2, 3, 10, 5, 6, 7, 8, 9] (fst (stream_run four_byte_files (Standard 0) [Getc, Fgets 8, Read 2, Getc] input_example)) \<noteq> None \<and>
   replays [1, 2, 3, 10, 5, 6, 7, 8, 9] (fst (stream_run four_byte_files Object [Getc, Ungetc 9, Fread 1 3, Fgets 8] input_example)) \<noteq> None"
proof -
  have "stream_ahead (\<lambda>k fd. drop (snd (k fd)) (fst (k fd))) st input_example = [1, 2, 3, 10, 5, 6, 7, 8, 9]"
    if "st = Standard 0 \<or> st = Object" for st
    using that by (auto simp: stream_ahead_def input_example_def buffered_def slice_def pushed_back_def)
  then show ?thesis
    using stream_in_order [OF four_byte_reads input_example_ok(1), of "[Getc, Fgets 8, Read 2, Getc]"]
      stream_in_order [OF four_byte_reads input_example_ok(2), of "[Getc, Ungetc 9, Fread 1 3, Fgets 8]"] four_byte_reads
    by (simp del: stream_run.simps)
qed

text \<open>The same worker after one \<open>getc\<close>, which read four bytes ahead.\<close>

definition input_ahead :: "(int \<Rightarrow> u8 list \<times> nat) stdio" where
  "input_ahead = input_example\<lparr>io_kernel := (\<lambda>fd. ([1, 2, 3, 10, 5, 6, 7, 8, 9], if fd = 7 then 4 else 0)),
     io_worker := Some \<lparr>sw_fd_map = (\<lambda>i. 7), sw_offset = 1, sw_length = 4, sw_buffer = (\<lambda>i. [1, 2, 3, 10] ! i)\<rparr>\<rparr>"

theorem seek_logical_witness:
  "seeks_ok four_byte_files (\<lambda>k fd. int (snd (k fd))) (\<lambda>k fd. fst (k fd)) \<and> fst (luna_bb_lseek four_byte_files 0 2 SEEK_CUR input_ahead) = 3 \<and>
   logical_position (\<lambda>k fd. int (snd (k fd))) (snd (luna_bb_lseek four_byte_files 0 2 SEEK_CUR input_ahead)) = 3"
proof -
  let ?r = "luna_bb_lseek four_byte_files 0 2 SEEK_CUR input_ahead"
  have ok: "stream_ok (Standard 0) input_ahead" by (simp add: stream_ok_def input_ahead_def luna_consts)
  have fd: "bb_fd input_ahead 0 = 7" by (simp add: bb_fd_def input_ahead_def)
  have res: "fst ?r = 3"
    by (simp add: luna_bb_lseek_def input_ahead_def four_byte_files_def bb_result_def bb_fd_def)
  have run: "?r = (fst ?r, snd ?r)" by simp
  have "logical_position (\<lambda>k fd. int (snd (k fd))) (snd ?r) = fst ?r"
    using seek_logical [where ahead = "\<lambda>k fd. drop (snd (k fd)) (fst (k fd))", OF four_byte_seeks ok _ run] res by simp
  then show ?thesis using res four_byte_seeks by simp
qed

theorem failed_seek_drops_input_witness:
  "\<exists>sys :: (int \<Rightarrow> u8 list \<times> nat) syscalls. \<forall>res s'. luna_bb_lseek sys 0 0 SEEK_CUR input_ahead = (res, s') \<longrightarrow> res = -1 \<and>
     stream_ahead (\<lambda>k fd. drop (snd (k fd)) (fst (k fd))) (Standard 0) s' = [5, 6, 7, 8, 9]"
proof (intro exI [of _ "four_byte_files\<lparr>sys_lseek := (\<lambda>k fd off wh. (-29, k))\<rparr>"] allI impI)
  fix res s'
  assume run: "luna_bb_lseek (four_byte_files\<lparr>sys_lseek := (\<lambda>k fd off wh. (-29, k))\<rparr>) 0 0 SEEK_CUR input_ahead = (res, s')"
  let ?w = "\<lparr>sw_fd_map = (\<lambda>i. 7), sw_offset = 1, sw_length = 4, sw_buffer = (\<lambda>i. [1, 2, 3, 10] ! i)\<rparr> :: stdio_worker"
  have ok: "stream_ok (Standard 0) input_ahead" by (simp add: stream_ok_def input_ahead_def luna_consts)
  have w: "io_worker input_ahead = Some ?w" by (simp add: input_ahead_def)
  have b: "buffered ?w = [2, 3, 10]" by (simp add: buffered_def slice_def upt_rec)
  have "stream_ahead (\<lambda>k fd. drop (snd (k fd)) (fst (k fd))) (Standard 0) input_ahead = [2, 3, 10, 5, 6, 7, 8, 9]"
    using b by (simp add: stream_ahead_def input_ahead_def)
  then show "res = -1 \<and> stream_ahead (\<lambda>k fd. drop (snd (k fd)) (fst (k fd))) (Standard 0) s' = [5, 6, 7, 8, 9]"
    using failed_seek_drops_input [OF ok w _ run, of "\<lambda>k fd. drop (snd (k fd)) (fst (k fd))"] b by simp
qed

text \<open>
  C28: The write loops: \<open>bb_write_all\<close> and \<open>fwrite\<close> hand the bytes to the kernel in order and exactly once, however short
  the single writes are. \<open>bb_write_all\<close> returns 0 exactly when all of them were taken and -1 otherwise; \<open>fwrite\<close> returns the
  number of complete items that were taken and sets the error mark of a \<open>FILE\<close> object exactly when some byte was not. Against
  a file that takes at least one byte of each write both loops end with everything written.
\<close>
theorem write_loops_complete:
  assumes "writes_ok sys received" "bb_fd s fd \<ge> 0"
  shows "(\<forall>r s'. bb_write_all sys fd bs s = (r, s') \<longrightarrow>
      (\<exists>n \<le> length bs. received (io_kernel s') (bb_fd s fd) = received (io_kernel s) (bb_fd s fd) @ take n bs \<and>
         r = (if n = length bs then 0 else -1)) \<and> (writes_progress sys \<longrightarrow> r = 0)) \<and>
    (\<forall>size_each count stream items s'. luna_bb_fileno stream s = (fd, s) \<and> fd \<ge> 0 \<and> size_each > 0 \<and> count > 0 \<and>
       size_each * count = length bs \<and> length bs \<le> SIZE_MAX \<and> luna_bb_fwrite sys bs size_each count stream s = (items, s') \<longrightarrow>
      (\<exists>n \<le> length bs. received (io_kernel s') (bb_fd s fd) = received (io_kernel s) (bb_fd s fd) @ take n bs \<and>
         items = n div size_each \<and> bf_error (io_file s') = (bf_error (io_file s) \<or> stream = Object \<and> n < length bs)) \<and>
      (writes_progress sys \<longrightarrow> items = count))"
proof (intro conjI allI impI, goal_cases)
  case (1 r s')
  obtain n t where l: "write_loop sys fd (length bs) bs s = (n, t)" by (metis prod.exhaust)
  then show ?case using write_loop_appends [OF assms l] 1 by (intro exI [of _ n]) (auto simp: bb_write_all_def)
next
  case (2 r s')
  obtain n t where l: "write_loop sys fd (length bs) bs s = (n, t)" by (metis prod.exhaust)
  have "n \<ge> length bs" using write_loop_finishes [OF 2(2) assms(2) _ l] by (cases "bs = []") auto
  then show ?case using 2(1) l by (simp add: bb_write_all_def)
next
  case (3 size_each count stream items s')
  obtain n t where l: "write_loop sys fd LUNA_STDIO_IO_CHUNK bs s = (n, t)" by (metis prod.exhaust)
  have "\<not> count > SIZE_MAX div size_each" using 3 by (auto simp: less_eq_div_iff_mult_less_eq mult.commute not_less)
  then have "items = n div size_each \<and> s' = (if stream = Object \<and> n \<noteq> length bs then file_update (\<lambda>f. f\<lparr>bf_error := True\<rparr>) t else t)"
    using 3 l by (auto simp: luna_bb_fwrite_def)
  then show ?case using write_loop_appends [OF assms l] by (intro exI [of _ n]) (auto simp: file_update_def)
next
  case (4 size_each count stream items s')
  obtain n t where l: "write_loop sys fd LUNA_STDIO_IO_CHUNK bs s = (n, t)" by (metis prod.exhaust)
  have "\<not> count > SIZE_MAX div size_each" using 4 by (auto simp: less_eq_div_iff_mult_less_eq mult.commute not_less)
  then have "items = n div size_each" using 4 l by (auto simp: luna_bb_fwrite_def)
  moreover have "n = length bs" using write_loop_finishes [OF 4(2) assms(2) _ l] write_loop_appends [OF assms l] by (simp add: luna_consts)
  ultimately show ?case using 4 by (metis nonzero_mult_div_cancel_left not_gr_zero)
qed

theorem write_loops_complete_witness:
  "writes_ok four_byte_files (\<lambda>k fd. fst (k fd)) \<and> writes_progress four_byte_files \<and>
   fst (bb_write_all four_byte_files 1 [1, 2, 3] input_example) = 0 \<and>
   fst (luna_bb_fwrite four_byte_files [1, 2, 3, 4] 2 2 (Standard 1) input_example) = 2"
proof -
  have fd: "bb_fd input_example 1 \<ge> 0" by (simp add: bb_fd_def input_example_def)
  have "fst (bb_write_all four_byte_files 1 [1, 2, 3] input_example) = 0"
    using write_loops_complete [OF four_byte_writes(1) fd, of "[1, 2, 3]"] four_byte_writes(2) by (metis prod.collapse)
  moreover have no: "luna_bb_fileno (Standard 1) input_example = (1, input_example)" by (simp add: luna_bb_fileno_def)
  have "fst (luna_bb_fwrite four_byte_files [1, 2, 3, 4] 2 2 (Standard 1) input_example) = 2"
  proof -
    let ?r = "luna_bb_fwrite four_byte_files [1, 2, 3, 4] 2 2 (Standard 1) input_example"
    have "luna_bb_fileno (Standard 1) input_example = (1, input_example) \<and> (1 :: int) \<ge> 0 \<and> (2 :: nat) > 0 \<and> (2 :: nat) > 0 \<and>
      2 * 2 = length [1, 2, 3, 4 :: u8] \<and> length [1, 2, 3, 4 :: u8] \<le> SIZE_MAX \<and> ?r = (fst ?r, snd ?r)"
      using no by (simp add: luna_consts)
    then show ?thesis using conjunct2 [OF write_loops_complete [OF four_byte_writes(1) fd, of "[1, 2, 3, 4]"]] four_byte_writes(2) by meson
  qed
  ultimately show ?thesis using four_byte_writes by blast
qed

text \<open>
  \<open>fread\<close> ends after a short read although the stream goes on: it returns fewer items than asked for with neither
  the end-of-file mark nor the error mark set while bytes are still to come, and the bytes of an incomplete last item are
  taken from the stream and not counted.
\<close>
theorem fread_stops_at_short_read:
  "case luna_bb_fread four_byte_files 3 2 Object input_example of (items, bs, s') \<Rightarrow>
     items = 1 \<and> bs = [1, 2, 3, 10] \<and> \<not> luna_bb_feof Object s' \<and> \<not> bf_error (io_file s') \<and>
     stream_ahead (\<lambda>k fd. drop (snd (k fd)) (fst (k fd))) Object s' = [5, 6, 7, 8, 9]"
  by (simp add: luna_bb_fread_def luna_bb_fileno_def input_example_def luna_consts fread_loop.simps bb_stream_read_def four_byte_files_def
      luna_bb_feof_def stream_ahead_def pushed_back_def)

end
