(* ===== verification/User_Workers.thy ===== *)
theory User_Workers
  imports User_Stdio
begin

text \<open>
  The static workers of the BusyBox environment (\<open>lkl_task_user.c\<close>): the table of four workers, the three virtual
  descriptors each of them has, the copy of its argument vector, starting, joining and waiting for workers, and
  pipelines. LKL and the host threads are a record of functions over an abstract kernel state; BusyBox is a function from
  an argument vector to the descriptor calls an applet makes and its exit status (\<open>None\<close>: no such applet). A worker
  thread runs when it is scheduled explicitly or at the latest when it is joined.
\<close>

section \<open>Data\<close>

definition LUNA_STATIC_WORKERS :: nat where [luna_consts]: "LUNA_STATIC_WORKERS = 4"
definition LUNA_STATIC_ARGC_MAX :: nat where [luna_consts]: "LUNA_STATIC_ARGC_MAX = 16"
definition LUNA_STATIC_ARG_BYTES :: nat where [luna_consts]: "LUNA_STATIC_ARG_BYTES = 1024"

definition ENOENT :: int where "ENOENT = 2"
definition E2BIG :: int where "E2BIG = 7"
definition ECHILD :: int where "ECHILD = 10"
definition EAGAIN :: int where "EAGAIN = 11"
definition EINVAL :: int where "EINVAL = 22"
definition ENOSPC :: int where "ENOSPC = 28"

record static_worker = stdio_worker +
  w_in_use :: bool
  w_done :: bool
  w_reaped :: bool
  w_tid :: nat
  w_status :: int
  w_errno :: int
  w_argv :: "nat list"
  w_data :: "nat \<Rightarrow> char"

text \<open>The system calls and thread operations that the workers use.\<close>

record 'k services =
  k_open :: "'k \<Rightarrow> string \<Rightarrow> int \<times> 'k"
  k_close :: "'k \<Rightarrow> int \<Rightarrow> int \<times> 'k"
  k_dup :: "'k \<Rightarrow> int \<Rightarrow> int \<times> 'k"
  k_dup3 :: "'k \<Rightarrow> int \<Rightarrow> int \<Rightarrow> int \<times> 'k"
  k_pipe2 :: "'k \<Rightarrow> int \<times> (int \<times> int) \<times> 'k"
  k_pipe_size :: "'k \<Rightarrow> int \<Rightarrow> int \<times> 'k"
  k_create :: "'k \<Rightarrow> nat \<times> 'k"
  k_join :: "'k \<Rightarrow> nat \<Rightarrow> int \<times> 'k"

record 'k user_state =
  us_workers :: "static_worker list"
  us_kernel :: 'k
  us_current :: u32
  us_peak :: u32
  us_started :: u32
  us_pipelines :: u32
  us_backgrounds :: u32
  us_errno :: int

section \<open>Descriptors of a worker\<close>

text \<open>The calling thread: its worker entry (if it is a worker), its error number and the kernel.\<close>

record 'k fd_state =
  fs_worker :: "static_worker option"
  fs_kernel :: 'k
  fs_errno :: int

definition fs_fd :: "'k fd_state \<Rightarrow> int \<Rightarrow> int" where
  "fs_fd s fd = (case fs_worker s of Some w \<Rightarrow> if 0 \<le> fd \<and> fd < 3 then sw_fd_map w (nat fd) else fd | None \<Rightarrow> fd)"

definition fs_result :: "int \<Rightarrow> 'k fd_state \<Rightarrow> int \<times> 'k fd_state" where
  "fs_result r s = (if r < 0 then (-1, s\<lparr>fs_errno := - r\<rparr>) else (r, s))"

definition set_fd :: "nat \<Rightarrow> int \<Rightarrow> static_worker \<Rightarrow> static_worker" where
  "set_fd j v w = w\<lparr>sw_fd_map := (sw_fd_map w)(j := v)\<rparr>"

definition forget_input :: "nat \<Rightarrow> static_worker \<Rightarrow> static_worker" where
  "forget_input j w = (if j = 0 then w\<lparr>sw_offset := 0, sw_length := 0\<rparr> else w)"

definition luna_bb_open :: "'k services \<Rightarrow> string \<Rightarrow> 'k fd_state \<Rightarrow> int \<times> 'k fd_state" where
  "luna_bb_open sys path s =
     (let (opened, k) = k_open sys (fs_kernel s) path; s = s\<lparr>fs_kernel := k\<rparr>
      in if opened < 0 then fs_result opened s
         else
           (case fs_worker s of
              Some w \<Rightarrow>
                (case find (\<lambda>fd. sw_fd_map w fd < 0) [0..<3] of
                   Some fd \<Rightarrow> (int fd, s\<lparr>fs_worker := Some (set_fd fd opened w)\<rparr>)
                 | None \<Rightarrow> (opened, s))
            | None \<Rightarrow> (opened, s)))"

definition luna_bb_close :: "'k services \<Rightarrow> int \<Rightarrow> 'k fd_state \<Rightarrow> int \<times> 'k fd_state" where
  "luna_bb_close sys fd s =
     (let actual = fs_fd s fd;
          s = (case fs_worker s of
                 Some w \<Rightarrow> if 0 \<le> fd \<and> fd < 3 then s\<lparr>fs_worker := Some (forget_input (nat fd) (set_fd (nat fd) (-1) w))\<rparr> else s
               | None \<Rightarrow> s)
      in if actual < 0 then (-1, s\<lparr>fs_errno := EBADF\<rparr>)
         else let (r, k) = k_close sys (fs_kernel s) actual in fs_result r (s\<lparr>fs_kernel := k\<rparr>))"

definition luna_bb_dup :: "'k services \<Rightarrow> int \<Rightarrow> 'k fd_state \<Rightarrow> int \<times> 'k fd_state" where
  "luna_bb_dup sys fd s = (let (r, k) = k_dup sys (fs_kernel s) (fs_fd s fd) in fs_result r (s\<lparr>fs_kernel := k\<rparr>))"

definition luna_bb_dup2 :: "'k services \<Rightarrow> int \<Rightarrow> int \<Rightarrow> 'k fd_state \<Rightarrow> int \<times> 'k fd_state" where
  "luna_bb_dup2 sys oldfd newfd s =
     (if oldfd = newfd then (oldfd, s)
      else
        (case fs_worker s of
           Some w \<Rightarrow>
             if 0 \<le> newfd \<and> newfd < 3
             then
               let (duplicate, k) = k_dup sys (fs_kernel s) (fs_fd s oldfd)
               in if duplicate < 0 then fs_result duplicate (s\<lparr>fs_kernel := k\<rparr>)
                  else
                    let k = (if sw_fd_map w (nat newfd) \<ge> 0 then snd (k_close sys k (sw_fd_map w (nat newfd))) else k)
                    in (newfd, s\<lparr>fs_kernel := k, fs_worker := Some (forget_input (nat newfd) (set_fd (nat newfd) duplicate w))\<rparr>)
             else let (r, k) = k_dup3 sys (fs_kernel s) (fs_fd s oldfd) newfd in fs_result r (s\<lparr>fs_kernel := k\<rparr>)
         | None \<Rightarrow> let (r, k) = k_dup3 sys (fs_kernel s) (fs_fd s oldfd) newfd in fs_result r (s\<lparr>fs_kernel := k\<rparr>)))"

section \<open>Opening streams\<close>

definition O_WRONLY :: u32 where "O_WRONLY = 1"
definition O_RDWR :: u32 where "O_RDWR = 2"
definition O_CREAT :: u32 where "O_CREAT = 64"
definition O_TRUNC :: u32 where "O_TRUNC = 512"
definition O_APPEND :: u32 where "O_APPEND = 1024"

unbundle bit_operations_syntax

definition bb_mode_flags :: "string \<Rightarrow> u32 option" where
  "bb_mode_flags mode =
     (case mode of
        [] \<Rightarrow> None
      | c # rest \<Rightarrow>
          (case (if c = CHR ''r'' then Some 0
                 else if c = CHR ''w'' then Some (O_WRONLY OR O_CREAT OR O_TRUNC)
                 else if c = CHR ''a'' then Some (O_WRONLY OR O_CREAT OR O_APPEND)
                 else None) of
             None \<Rightarrow> None
           | Some flags \<Rightarrow> Some (if CHR ''+'' \<in> set mode then (flags AND NOT O_WRONLY) OR O_RDWR else flags)))"

text \<open>\<open>alloc\<close>: whether the allocation of the \<open>FILE\<close> object succeeds.\<close>

definition luna_bb_fdopen :: "bool \<Rightarrow> int \<Rightarrow> string \<Rightarrow> 'k fd_state \<Rightarrow> luna_bb_file option \<times> 'k fd_state" where
  "luna_bb_fdopen alloc fd mode s =
     (if bb_mode_flags mode = None then (None, s\<lparr>fs_errno := EINVAL\<rparr>)
      else if \<not> alloc then (None, s)
      else (Some \<lparr>bf_fd = fs_fd s fd, bf_error = False, bf_eof = False, bf_ungot = -1\<rparr>, s))"

definition luna_bb_fopen :: "'k services \<Rightarrow> bool \<Rightarrow> string \<Rightarrow> string \<Rightarrow> 'k fd_state \<Rightarrow> luna_bb_file option \<times> 'k fd_state" where
  "luna_bb_fopen sys alloc path mode s =
     (if bb_mode_flags mode = None then (None, s\<lparr>fs_errno := EINVAL\<rparr>)
      else
        let (fd, s) = luna_bb_open sys path s
        in if fd < 0 then (None, s)
           else
             (case luna_bb_fdopen alloc fd mode s of
                (Some f, s) \<Rightarrow> (Some f, s)
              | (None, s) \<Rightarrow> (None, snd (luna_bb_close sys fd s))))"

definition luna_bb_fclose :: "'k services \<Rightarrow> luna_bb_file \<Rightarrow> 'k fd_state \<Rightarrow> int \<times> 'k fd_state" where
  "luna_bb_fclose sys f s =
     (if bf_fd f \<ge> 0
      then let (r, k) = k_close sys (fs_kernel s) (bf_fd f); (r, s) = fs_result r (s\<lparr>fs_kernel := k\<rparr>) in (if r \<noteq> 0 then -1 else 0, s)
      else (0, s))"

section \<open>The worker table\<close>

datatype fd_call = Open string | Close int | Dup2 int int

type_synonym applets = "string list \<Rightarrow> (fd_call list \<times> int) option"

definition task_static_command_allowed :: "string \<Rightarrow> bool" where
  "task_static_command_allowed name \<longleftrightarrow> name \<in> set
    [''basename'', ''cat'', ''cmp'', ''cp'', ''cut'', ''dd'', ''dirname'', ''echo'',
     ''false'', ''find'', ''grep'', ''head'', ''ln'', ''ls'', ''mkdir'', ''mv'',
     ''printenv'', ''printf'', ''readlink'', ''realpath'', ''rmdir'', ''sleep'',
     ''sort'', ''tee'', ''touch'', ''true'', ''truncate'', ''uname'', ''uniq'', ''unlink'',
     ''wc'']"

definition fresh_worker :: "static_worker \<Rightarrow> static_worker" where
  "fresh_worker w = w\<lparr>w_in_use := True, w_done := False, w_reaped := False, w_tid := 0, w_status := 255, w_errno := 0,
     sw_offset := 0, sw_length := 0, sw_fd_map := (\<lambda>fd. if fd < 3 then -1 else sw_fd_map w fd)\<rparr>"

definition update_worker :: "nat \<Rightarrow> (static_worker \<Rightarrow> static_worker) \<Rightarrow> 'k user_state \<Rightarrow> 'k user_state" where
  "update_worker i f s = s\<lparr>us_workers := (us_workers s)[i := f (us_workers s ! i)]\<rparr>"

definition task_static_allocate :: "'k user_state \<Rightarrow> nat option \<times> 'k user_state" where
  "task_static_allocate s =
     (case find (\<lambda>i. \<not> w_in_use (us_workers s ! i)) [0..<LUNA_STATIC_WORKERS] of
        Some i \<Rightarrow> (Some i, (update_worker i fresh_worker s)\<lparr>us_current := us_current s + 1, us_peak := max (us_peak s) (us_current s + 1)\<rparr>)
      | None \<Rightarrow> (None, s\<lparr>us_errno := EAGAIN\<rparr>))"

definition close_std :: "'k services \<Rightarrow> nat \<Rightarrow> static_worker \<times> 'k \<Rightarrow> static_worker \<times> 'k" where
  "close_std sys fd = (\<lambda>(w, k). if sw_fd_map w fd \<ge> 0 then (set_fd fd (-1) w, snd (k_close sys k (sw_fd_map w fd))) else (w, k))"

definition close_all_std :: "'k services \<Rightarrow> static_worker \<times> 'k \<Rightarrow> static_worker \<times> 'k" where
  "close_all_std sys wk = fold (close_std sys) [0..<3] wk"

definition task_static_release :: "'k services \<Rightarrow> nat \<Rightarrow> 'k user_state \<Rightarrow> 'k user_state" where
  "task_static_release sys i s =
     (let (w, k) = close_all_std sys (us_workers s ! i, us_kernel s)
      in s\<lparr>us_workers := (us_workers s)[i := w\<lparr>w_in_use := False\<rparr>], us_kernel := k, us_current := us_current s - 1\<rparr>)"

text \<open>The argument vector: pointers into the argument data of the worker, whose strings end with a zero byte.\<close>

fun copy_arguments :: "string list \<Rightarrow> nat \<Rightarrow> static_worker \<Rightarrow> int \<times> static_worker" where
  "copy_arguments [] used w = (if w_argv w = [] then - EINVAL else 0, w)"
| "copy_arguments (a # args) used w =
     (if length (w_argv w) \<ge> LUNA_STATIC_ARGC_MAX then (- E2BIG, w)
      else if used + (length a + 1) > LUNA_STATIC_ARG_BYTES then (- E2BIG, w)
      else copy_arguments args (used + (length a + 1))
             (w\<lparr>w_argv := w_argv w @ [used], w_data := memcpy_at (w_data w) used (\<lambda>j. (a @ [CHR 0x00]) ! j) 0 (length a + 1)\<rparr>))"

definition task_static_copy_argv :: "string list \<Rightarrow> static_worker \<Rightarrow> int \<times> static_worker" where
  "task_static_copy_argv argv w = copy_arguments argv 0 (w\<lparr>w_argv := []\<rparr>)"

text \<open>The string a pointer into the argument data points to.\<close>

definition argument_at :: "static_worker \<Rightarrow> nat \<Rightarrow> string" where
  "argument_at w p = takeWhile (\<lambda>c. c \<noteq> CHR 0x00) (slice (w_data w) p (LUNA_STATIC_ARG_BYTES - p))"

definition arguments :: "static_worker \<Rightarrow> string list" where
  "arguments w = map (argument_at w) (w_argv w)"

fun dup_std :: "'k services \<Rightarrow> (nat \<times> int) list \<Rightarrow> static_worker \<Rightarrow> 'k \<Rightarrow> int \<times> static_worker \<times> 'k" where
  "dup_std sys [] w k = (0, w, k)"
| "dup_std sys ((fd, source) # rest) w k =
     (let (duplicate, k) = k_dup sys k source
      in if duplicate < 0 then (duplicate, w, k) else dup_std sys rest (set_fd fd duplicate w) k)"

definition task_static_start :: "'k services \<Rightarrow> nat \<Rightarrow> string list \<Rightarrow> int \<Rightarrow> int \<Rightarrow> int \<Rightarrow> 'k user_state \<Rightarrow> int \<times> 'k user_state" where
  "task_static_start sys i argv inp outp err s =
     (let (result, w) = task_static_copy_argv argv (us_workers s ! i); s = s\<lparr>us_workers := (us_workers s)[i := w]\<rparr>
      in if result < 0 then (result, task_static_release sys i s)
         else if \<not> task_static_command_allowed (argument_at w (hd (w_argv w))) then (- ENOENT, task_static_release sys i s)
         else
           let (e, w, k) = dup_std sys [(0, inp), (1, outp), (2, err)] w (us_kernel s);
               s = s\<lparr>us_workers := (us_workers s)[i := w], us_kernel := k\<rparr>
           in if e < 0 then (e, task_static_release sys i s)
              else
                let (tid, k) = k_create sys k; s = s\<lparr>us_kernel := k\<rparr>
                in if tid = 0 then (- EAGAIN, task_static_release sys i s)
                   else (int tid, (update_worker i (\<lambda>w. w\<lparr>w_tid := tid\<rparr>) s)\<lparr>us_started := us_started s + 1\<rparr>))"

section \<open>The worker thread\<close>

fun applet_call :: "'k services \<Rightarrow> fd_call \<Rightarrow> 'k fd_state \<Rightarrow> 'k fd_state" where
  "applet_call sys (Open path) s = snd (luna_bb_open sys path s)"
| "applet_call sys (Close fd) s = snd (luna_bb_close sys fd s)"
| "applet_call sys (Dup2 a b) s = snd (luna_bb_dup2 sys a b s)"

definition run_applet :: "'k services \<Rightarrow> applets \<Rightarrow> static_worker \<times> 'k \<Rightarrow> static_worker \<times> 'k" where
  "run_applet sys applets wk =
     (let (w, k) = wk
      in case applets (arguments w) of
           None \<Rightarrow> (w\<lparr>w_status := 127\<rparr>, k)
         | Some (calls, code) \<Rightarrow>
             let s = fold (applet_call sys) calls \<lparr>fs_worker = Some w, fs_kernel = k, fs_errno = w_errno w\<rparr>
             in ((the (fs_worker s))\<lparr>w_status := code mod 256, w_errno := fs_errno s\<rparr>, fs_kernel s))"

definition task_static_worker :: "'k services \<Rightarrow> applets \<Rightarrow> nat \<Rightarrow> 'k user_state \<Rightarrow> 'k user_state" where
  "task_static_worker sys applets i s =
     (let (w, k) = close_all_std sys (run_applet sys applets (us_workers s ! i, us_kernel s))
      in s\<lparr>us_workers := (us_workers s)[i := w\<lparr>w_done := True\<rparr>], us_kernel := k\<rparr>)"

text \<open>A running worker runs to its end; nothing happens for another entry.\<close>

definition run_worker :: "'k services \<Rightarrow> applets \<Rightarrow> nat \<Rightarrow> 'k user_state \<Rightarrow> 'k user_state" where
  "run_worker sys applets i s =
     (if i < length (us_workers s) \<and> w_in_use (us_workers s ! i) \<and> \<not> w_done (us_workers s ! i) then task_static_worker sys applets i s else s)"

section \<open>Joining and running\<close>

definition task_static_join :: "'k services \<Rightarrow> applets \<Rightarrow> nat \<Rightarrow> 'k user_state \<Rightarrow> int \<times> 'k user_state" where
  "task_static_join sys applets i s =
     (if \<not> w_in_use (us_workers s ! i) \<or> w_reaped (us_workers s ! i) then (- ECHILD, s)
      else
        let s = run_worker sys applets i s; (r, k) = k_join sys (us_kernel s) (w_tid (us_workers s ! i)); s = s\<lparr>us_kernel := k\<rparr>
        in if r \<noteq> 0 then (- ECHILD, s)
           else
             let s = update_worker i (\<lambda>w. w\<lparr>w_reaped := True\<rparr>) s; code = w_status (us_workers s ! i) mod 256
             in (code, task_static_release sys i s))"

definition luna_bb_run_static :: "'k services \<Rightarrow> applets \<Rightarrow> string list \<Rightarrow> 'k user_state \<Rightarrow> int \<times> 'k user_state" where
  "luna_bb_run_static sys applets argv s =
     (case task_static_allocate s of
        (None, s) \<Rightarrow> (- EAGAIN, s)
      | (Some i, s) \<Rightarrow>
          let (pid, s) = task_static_start sys i argv 0 1 2 s
          in if pid < 0 then (if pid = - ENOENT then - ENOENT else - EAGAIN, s) else task_static_join sys applets i s)"

definition luna_bb_spawn_static :: "'k services \<Rightarrow> string list \<Rightarrow> 'k user_state \<Rightarrow> int \<times> 'k user_state" where
  "luna_bb_spawn_static sys argv s =
     (case task_static_allocate s of
        (None, s) \<Rightarrow> (- EAGAIN, s)
      | (Some i, s) \<Rightarrow>
          let (pid, s) = task_static_start sys i argv 0 1 2 s
          in (pid, if pid > 0 then s\<lparr>us_backgrounds := us_backgrounds s + 1\<rparr> else s))"

section \<open>Pipelines\<close>

text \<open>The pipes made so far, and whether all could be made.\<close>

fun make_pipes :: "'k services \<Rightarrow> nat \<Rightarrow> 'k user_state \<Rightarrow> bool \<times> (int \<times> int) list \<times> 'k user_state" where
  "make_pipes sys 0 s = (True, [], s)"
| "make_pipes sys (Suc n) s =
     (let (result, p, k) = k_pipe2 sys (us_kernel s); s = s\<lparr>us_kernel := k\<rparr>
      in if result < 0 then (False, [], s\<lparr>us_errno := - result\<rparr>)
         else
           let (capacity, k) = k_pipe_size sys (us_kernel s) (snd p); s = s\<lparr>us_kernel := k\<rparr>
           in if capacity < int LUNA_STDIO_IO_CHUNK then (False, [p], s\<lparr>us_errno := if capacity < 0 then - capacity else ENOSPC\<rparr>)
              else let (ok, ps, s) = make_pipes sys n s in (ok, p # ps, s))"

definition close_pipe :: "'k services \<Rightarrow> int \<times> int \<Rightarrow> 'k \<Rightarrow> 'k" where
  "close_pipe sys p k = snd (k_close sys (snd (k_close sys k (fst p))) (snd p))"

definition close_pipes :: "'k services \<Rightarrow> (int \<times> int) list \<Rightarrow> 'k user_state \<Rightarrow> 'k user_state" where
  "close_pipes sys ps s = s\<lparr>us_kernel := fold (close_pipe sys) ps (us_kernel s)\<rparr>"

text \<open>
  The workers of the commands from the \<open>i\<close>-th on, and whether all could be started; an entry whose start failed is
  among them. The input of a worker is standard input or the pipe before it, its output the pipe after it or standard output.
\<close>

fun start_workers :: "'k services \<Rightarrow> (int \<times> int) list \<Rightarrow> nat \<Rightarrow> string list list \<Rightarrow> 'k user_state \<Rightarrow> bool \<times> nat list \<times> 'k user_state" where
  "start_workers sys pipes i [] s = (True, [], s)"
| "start_workers sys pipes i (c # cs) s =
     (case task_static_allocate s of
        (None, s) \<Rightarrow> (False, [], s)
      | (Some n, s) \<Rightarrow>
          let inp = (if i = 0 then 0 else fst (pipes ! (i - 1))); outp = (if cs = [] then 1 else snd (pipes ! i));
              (pid, s) = task_static_start sys n c inp outp 2 s
          in if pid < 0 then (False, [n], s)
             else let (ok, ns, s) = start_workers sys pipes (Suc i) cs s in (ok, n # ns, s))"

fun join_workers :: "'k services \<Rightarrow> applets \<Rightarrow> nat list \<Rightarrow> int \<Rightarrow> 'k user_state \<Rightarrow> int \<times> 'k user_state" where
  "join_workers sys applets [] status s = (status, s)"
| "join_workers sys applets (n # ns) status s = (let (code, s) = task_static_join sys applets n s in join_workers sys applets ns code s)"

definition fail_worker :: "'k services \<Rightarrow> applets \<Rightarrow> nat \<Rightarrow> 'k user_state \<Rightarrow> 'k user_state" where
  "fail_worker sys applets n s =
     (if w_tid (us_workers s ! n) \<noteq> 0 then snd (task_static_join sys applets n s) else task_static_release sys n s)"

definition luna_bb_run_pipeline :: "'k services \<Rightarrow> applets \<Rightarrow> string list list \<Rightarrow> 'k user_state \<Rightarrow> int \<times> 'k user_state" where
  "luna_bb_run_pipeline sys applets commands s =
     (if length commands < 2 \<or> length commands > LUNA_STATIC_WORKERS then (- EINVAL, s)
      else if \<exists>c \<in> set commands. c = [] \<or> \<not> task_static_command_allowed (hd c) then (- ENOENT, s)
      else
        let (ok, pipes, s) = make_pipes sys (length commands - 1) s
        in if \<not> ok then (-1, close_pipes sys pipes s)
           else
             let (ok, ns, s) = start_workers sys pipes 0 commands s
             in if ok then join_workers sys applets ns 0 (close_pipes sys pipes (s\<lparr>us_pipelines := us_pipelines s + 1\<rparr>))
                else (-1, close_pipes sys pipes (fold (fail_worker sys applets) ns s)))"

section \<open>Waiting\<close>

definition wait_matches :: "int \<Rightarrow> static_worker \<Rightarrow> bool" where
  "wait_matches pid w \<longleftrightarrow> w_in_use w \<and> \<not> w_reaped w \<and> (pid > 0 \<longrightarrow> int (w_tid w) = pid)"

text \<open>
  The process identifier and the status stored, or -1 without one. \<open>schedule\<close> lists the workers that end while the
  loop yields; when it is used up, the call is still waiting (\<open>None\<close>).
\<close>

fun luna_bb_waitpid :: "'k services \<Rightarrow> applets \<Rightarrow> int \<Rightarrow> bool \<Rightarrow> nat list \<Rightarrow> 'k user_state \<Rightarrow> (int \<times> int option \<times> 'k user_state) option" where
  "luna_bb_waitpid sys applets pid nohang schedule s =
     (case find (\<lambda>i. wait_matches pid (us_workers s ! i) \<and> w_done (us_workers s ! i)) [0..<LUNA_STATIC_WORKERS] of
        Some i \<Rightarrow>
          let (code, s') = task_static_join sys applets i s
          in if code < 0 then Some (-1, None, s'\<lparr>us_errno := ECHILD\<rparr>) else Some (int (w_tid (us_workers s ! i)), Some (code * 256), s')
      | None \<Rightarrow>
          if \<not> (\<exists>i \<in> set [0..<LUNA_STATIC_WORKERS]. wait_matches pid (us_workers s ! i)) then Some (-1, None, s\<lparr>us_errno := ECHILD\<rparr>)
          else if nohang then Some (0, None, s)
          else (case schedule of [] \<Rightarrow> None | i # rest \<Rightarrow> luna_bb_waitpid sys applets pid nohang rest (run_worker sys applets i s)))"

declare luna_bb_waitpid.simps [simp del]

section \<open>What is assumed of the kernel and of the applets\<close>

text \<open>
  \<open>opened k\<close> are the open descriptors, \<open>live k\<close> the threads that can be joined. A call that yields a descriptor
  yields one that was not open, or fails and changes nothing; nothing is assumed of closing a descriptor that is not open.
\<close>

definition grants :: "('k \<Rightarrow> int set) \<Rightarrow> ('k \<Rightarrow> nat set) \<Rightarrow> 'k \<Rightarrow> int \<Rightarrow> 'k \<Rightarrow> bool" where
  "grants opened live k r k' \<longleftrightarrow> live k' = live k \<and> (if r < 0 then opened k' = opened k else r \<notin> opened k \<and> opened k' = insert r (opened k))"

definition services_ok :: "'k services \<Rightarrow> ('k \<Rightarrow> int set) \<Rightarrow> ('k \<Rightarrow> nat set) \<Rightarrow> bool" where
  "services_ok sys opened live \<longleftrightarrow>
     (\<forall>k path. grants opened live k (fst (k_open sys k path)) (snd (k_open sys k path))) \<and>
     (\<forall>k fd. grants opened live k (fst (k_dup sys k fd)) (snd (k_dup sys k fd))) \<and>
     (\<forall>k fd. fd \<in> opened k \<longrightarrow> opened (snd (k_close sys k fd)) = opened k - {fd} \<and> live (snd (k_close sys k fd)) = live k) \<and>
     (\<forall>k. case k_pipe2 sys k of (r, (a, b), k') \<Rightarrow> live k' = live k \<and>
        (if r < 0 then opened k' = opened k
         else 0 \<le> a \<and> 0 \<le> b \<and> a \<noteq> b \<and> a \<notin> opened k \<and> b \<notin> opened k \<and> opened k' = opened k \<union> {a, b})) \<and>
     (\<forall>k fd. opened (snd (k_pipe_size sys k fd)) = opened k \<and> live (snd (k_pipe_size sys k fd)) = live k) \<and>
     (\<forall>k. opened (snd (k_create sys k)) = opened k \<and>
        (if fst (k_create sys k) = 0 then live (snd (k_create sys k)) = live k
         else fst (k_create sys k) \<notin> live k \<and> live (snd (k_create sys k)) = insert (fst (k_create sys k)) (live k))) \<and>
     (\<forall>k t. t \<in> live k \<longrightarrow> fst (k_join sys k t) = 0 \<and> opened (snd (k_join sys k t)) = opened k \<and> live (snd (k_join sys k t)) = live k - {t})"

text \<open>
  What an applet does with its standard descriptors: close one, replace one by opening a file after closing it, or
  duplicate one onto another. Descriptors above 2 are the applet's own affair and not part of its calls.
\<close>

fun std_only :: "fd_call list \<Rightarrow> bool" where
  "std_only [] = True"
| "std_only (Close fd # Open path # rest) = (0 \<le> fd \<and> fd < 3 \<and> std_only rest)"
| "std_only (Close fd # rest) = (0 \<le> fd \<and> fd < 3 \<and> std_only rest)"
| "std_only (Dup2 a b # rest) = (0 \<le> a \<and> a < 3 \<and> 0 \<le> b \<and> b < 3 \<and> std_only rest)"
| "std_only (Open path # rest) = False"

definition applets_ok :: "applets \<Rightarrow> bool" where
  "applets_ok applets \<longleftrightarrow> (\<forall>argv calls code. applets argv = Some (calls, code) \<longrightarrow> std_only calls)"

section \<open>Ownership of descriptors\<close>

definition slot_fd :: "static_worker \<Rightarrow> nat \<Rightarrow> int" where
  "slot_fd w j = (if w_in_use w \<and> sw_fd_map w j \<ge> 0 then sw_fd_map w j else -1)"

definition fd_at :: "static_worker list \<Rightarrow> nat \<times> nat \<Rightarrow> int" where
  "fd_at ws p = slot_fd (ws ! fst p) (snd p)"

definition fd_slots :: "static_worker list \<Rightarrow> (nat \<times> nat) set" where
  "fd_slots ws = {p. fst p < length ws \<and> snd p < 3 \<and> fd_at ws p \<ge> 0}"

text \<open>Every descriptor of a worker is open and belongs to nobody else; what else is open is \<open>base\<close>.\<close>

definition fds_ok :: "int set \<Rightarrow> static_worker list \<Rightarrow> int set \<Rightarrow> bool" where
  "fds_ok base ws opn \<longleftrightarrow> inj_on (fd_at ws) (fd_slots ws) \<and> opn = base \<union> fd_at ws ` fd_slots ws \<and> base \<inter> fd_at ws ` fd_slots ws = {}"

lemma fds_ok_cong:
  assumes "\<And>j. j < 3 \<Longrightarrow> slot_fd w j = slot_fd w' j"
  shows "fds_ok base (ws[i := w]) opn = fds_ok base (ws[i := w']) opn"
proof -
  have at: "snd p < 3 \<Longrightarrow> fd_at (ws[i := w]) p = fd_at (ws[i := w']) p" for p
    using assms by (cases "fst p = i"; cases "i < length ws") (simp_all add: fd_at_def not_less list_update_beyond)
  then have sl: "fd_slots (ws[i := w]) = fd_slots (ws[i := w'])" by (auto simp: fd_slots_def)
  have im: "fd_at (ws[i := w]) ` fd_slots (ws[i := w]) = fd_at (ws[i := w']) ` fd_slots (ws[i := w'])"
    unfolding sl by (rule image_cong) (auto simp: fd_slots_def at)
  have "inj_on (fd_at (ws[i := w])) (fd_slots (ws[i := w])) = inj_on (fd_at (ws[i := w'])) (fd_slots (ws[i := w']))"
    unfolding sl by (rule inj_on_cong) (auto simp: fd_slots_def at)
  then show ?thesis using im by (simp add: fds_ok_def)
qed

lemma fds_ok_owned:
  assumes "w_in_use w" "fds_ok base (ws[i := w]) opn" "i < length ws" "j < 3" "sw_fd_map w j \<ge> 0"
  shows "sw_fd_map w j \<in> opn"
proof -
  have "(i, j) \<in> fd_slots (ws[i := w])" using assms by (simp add: fd_slots_def fd_at_def slot_fd_def)
  then have "fd_at (ws[i := w]) (i, j) \<in> opn" using assms(2) by (auto simp: fds_ok_def)
  then show ?thesis using assms by (simp add: fd_at_def slot_fd_def)
qed

lemma fds_ok_set:
  assumes use: "w_in_use w" and ok: "fds_ok base (ws[i := w]) opn" and i: "i < length ws" and j: "j < 3" and fresh: "v \<ge> 0 \<Longrightarrow> v \<notin> opn"
  shows "fds_ok base (ws[i := set_fd j v w])
    ((opn - (if sw_fd_map w j \<ge> 0 then {sw_fd_map w j} else {})) \<union> (if v \<ge> 0 then {v} else {}))"
proof -
  let ?W = "ws[i := w]" and ?V = "ws[i := set_fd j v w]"
  let ?S = "fd_slots ?W - {(i, j)}"
  have at: "fd_at ?V p = (if p = (i, j) then (if v \<ge> 0 then v else -1) else fd_at ?W p)" for p
    using i use by (cases p; cases "fst p = i") (auto simp: fd_at_def set_fd_def slot_fd_def)
  have sl: "fd_slots ?V = ?S \<union> (if v \<ge> 0 then {(i, j)} else {})"
    using i j by (auto simp: fd_slots_def at)
  have inj: "inj_on (fd_at ?W) (fd_slots ?W)" and opn: "opn = base \<union> fd_at ?W ` fd_slots ?W" and dis: "base \<inter> fd_at ?W ` fd_slots ?W = {}"
    using ok by (auto simp: fds_ok_def)
  have cur: "sw_fd_map w j \<ge> 0 \<Longrightarrow> fd_at ?W (i, j) = sw_fd_map w j" "(i, j) \<in> fd_slots ?W \<longleftrightarrow> sw_fd_map w j \<ge> 0"
    using i j use by (simp_all add: fd_slots_def fd_at_def slot_fd_def)
  have rest: "fd_at ?W ` ?S = fd_at ?W ` fd_slots ?W - (if sw_fd_map w j \<ge> 0 then {sw_fd_map w j} else {})"
    using cur inj_on_image_set_diff [OF inj, of "fd_slots ?W" "{(i, j)}"] by (cases "sw_fd_map w j \<ge> 0") auto
  have same: "fd_at ?V ` ?S = fd_at ?W ` ?S" by (rule image_cong) (auto simp: at)
  have im: "fd_at ?V ` fd_slots ?V = fd_at ?W ` ?S \<union> (if v \<ge> 0 then {v} else {})"
    using same by (auto simp: sl at)
  have vout: "v \<ge> 0 \<Longrightarrow> v \<notin> base \<and> v \<notin> fd_at ?W ` ?S" using fresh opn by auto
  have "inj_on (fd_at ?V) ?S" using inj by (auto simp: inj_on_def at)
  moreover have "inj_on (fd_at ?V) (insert (i, j) ?S)" if "v \<ge> 0"
    unfolding inj_on_insert using calculation vout [OF that] same that by (simp add: at)
  ultimately have "inj_on (fd_at ?V) (fd_slots ?V)" by (simp add: sl)
  moreover have "sw_fd_map w j \<ge> 0 \<Longrightarrow> sw_fd_map w j \<notin> base" using dis cur by force
  ultimately show ?thesis using im rest opn dis vout unfolding fds_ok_def by auto
qed

section \<open>Operations of one worker\<close>

text \<open>The descriptors of the table in which entry \<open>i\<close> is \<open>w\<close>.\<close>

abbreviation entry_ok :: "('k \<Rightarrow> int set) \<Rightarrow> int set \<Rightarrow> static_worker list \<Rightarrow> nat \<Rightarrow> static_worker \<Rightarrow> 'k \<Rightarrow> bool" where
  "entry_ok opened base ws i w k \<equiv> fds_ok base (ws[i := w]) (opened k)"

lemma services_okD:
  assumes "services_ok sys opened live"
  shows "k_open sys k path = (r, k') \<Longrightarrow> grants opened live k r k'"
    and "k_dup sys k fd = (r, k') \<Longrightarrow> grants opened live k r k'"
    and "fd \<in> opened k \<Longrightarrow> opened (snd (k_close sys k fd)) = opened k - {fd} \<and> live (snd (k_close sys k fd)) = live k"
    and "k_pipe_size sys k fd = (r, k') \<Longrightarrow> opened k' = opened k \<and> live k' = live k"
    and "k_create sys k = (t, k') \<Longrightarrow> opened k' = opened k \<and> (if t = 0 then live k' = live k else t \<notin> live k \<and> live k' = insert t (live k))"
    and "t \<in> live k \<Longrightarrow> k_join sys k t = (r, k') \<Longrightarrow> r = 0 \<and> opened k' = opened k \<and> live k' = live k - {t}"
    and "k_pipe2 sys k = (r, (a, b), k') \<Longrightarrow> live k' = live k \<and>
        (if r < 0 then opened k' = opened k
         else 0 \<le> a \<and> 0 \<le> b \<and> a \<noteq> b \<and> a \<notin> opened k \<and> b \<notin> opened k \<and> opened k' = opened k \<union> {a, b})"
proof -
  note p1 = assms [unfolded services_ok_def]
  note p2 = p1 [THEN conjunct2] and p3 = p1 [THEN conjunct2, THEN conjunct2]
  note p4 = p3 [THEN conjunct2] and p5 = p3 [THEN conjunct2, THEN conjunct2]
  note p6 = p5 [THEN conjunct2] and p7 = p5 [THEN conjunct2, THEN conjunct2]
  show "k_open sys k path = (r, k') \<Longrightarrow> grants opened live k r k'" using p1 [THEN conjunct1, rule_format, of k path] by simp
  show "k_dup sys k fd = (r, k') \<Longrightarrow> grants opened live k r k'" using p2 [THEN conjunct1, rule_format, of k fd] by simp
  show "fd \<in> opened k \<Longrightarrow> opened (snd (k_close sys k fd)) = opened k - {fd} \<and> live (snd (k_close sys k fd)) = live k"
    using p3 [THEN conjunct1, rule_format, of fd k] by simp
  show "k_pipe_size sys k fd = (r, k') \<Longrightarrow> opened k' = opened k \<and> live k' = live k" using p5 [THEN conjunct1, rule_format, of k fd] by simp
  show "k_create sys k = (t, k') \<Longrightarrow> opened k' = opened k \<and> (if t = 0 then live k' = live k else t \<notin> live k \<and> live k' = insert t (live k))"
    using p6 [THEN conjunct1, THEN spec, of k] by (auto split: if_splits)
  show "t \<in> live k \<Longrightarrow> k_join sys k t = (r, k') \<Longrightarrow> r = 0 \<and> opened k' = opened k \<and> live k' = live k - {t}"
    using p7 [rule_format, of t k] by simp
  show "k_pipe2 sys k = (r, (a, b), k') \<Longrightarrow> live k' = live k \<and>
        (if r < 0 then opened k' = opened k
         else 0 \<le> a \<and> 0 \<le> b \<and> a \<noteq> b \<and> a \<notin> opened k \<and> b \<notin> opened k \<and> opened k' = opened k \<union> {a, b})"
    using p4 [THEN conjunct1, THEN spec, of k] by simp
qed

lemma close_std_ok:
  assumes sys: "services_ok sys opened live" and use: "w_in_use w" and ok: "entry_ok opened base ws i w k" and i: "i < length ws" and j: "j < 3"
    and run: "close_std sys j (w, k) = (w', k')"
  shows "entry_ok opened base ws i w' k' \<and> live k' = live k \<and> w' = (if sw_fd_map w j \<ge> 0 then set_fd j (-1) w else w) \<and> w_in_use w'"
proof (cases "sw_fd_map w j \<ge> 0")
  case True
  note cl = services_okD(3) [OF sys fds_ok_owned [OF use ok i j True]]
  then show ?thesis using run True fds_ok_set [OF use ok i j, of "-1"] use by (auto simp: close_std_def set_fd_def)
next
  case False
  then show ?thesis using run ok use by (simp add: close_std_def)
qed

lemma close_all_std_ok:
  assumes sys: "services_ok sys opened live" and use: "w_in_use w" and ok: "entry_ok opened base ws i w k" and i: "i < length ws"
    and run: "close_all_std sys (w, k) = (w', k')"
  shows "entry_ok opened base ws i w' k' \<and> live k' = live k \<and> (\<forall>j < 3. sw_fd_map w' j < 0) \<and> (\<exists>m. w' = w\<lparr>sw_fd_map := m\<rparr>)"
proof -
  obtain w1 k1 where s1: "close_std sys 0 (w, k) = (w1, k1)" by (metis prod.exhaust)
  obtain w2 k2 where s2: "close_std sys 1 (w1, k1) = (w2, k2)" by (metis prod.exhaust)
  have s3: "close_std sys 2 (w2, k2) = (w', k')" using run s1 s2 by (simp add: close_all_std_def eval_nat_numeral)
  note c1 = close_std_ok [OF sys use ok i _ s1, simplified]
  have use1: "w_in_use w1" using c1 by blast
  note c2 = close_std_ok [OF sys use1 conjunct1 [OF c1] i _ s2, simplified]
  have use2: "w_in_use w2" using c2 by blast
  note c3 = close_std_ok [OF sys use2 conjunct1 [OF c2] i _ s3, simplified]
  have "w' = w\<lparr>sw_fd_map := sw_fd_map w'\<rparr>" using c1 c2 c3 by (simp add: set_fd_def)
  moreover have "sw_fd_map w' 0 < 0" "sw_fd_map w' 1 < 0" "sw_fd_map w' 2 < 0" using c1 c2 c3 by (auto simp: set_fd_def)
  then have "\<forall>j < 3. sw_fd_map w' j < 0" by (auto simp: less_Suc_eq eval_nat_numeral)
  ultimately show ?thesis using c1 c2 c3 by metis
qed

text \<open>What an applet may change of its entry.\<close>

definition same_entry :: "static_worker \<Rightarrow> static_worker \<Rightarrow> bool" where
  "same_entry w w' \<longleftrightarrow> w_in_use w' = w_in_use w \<and> w_done w' = w_done w \<and> w_reaped w' = w_reaped w \<and> w_tid w' = w_tid w"

definition fs_ok :: "('k \<Rightarrow> int set) \<Rightarrow> ('k \<Rightarrow> nat set) \<Rightarrow> int set \<Rightarrow> static_worker list \<Rightarrow> nat \<Rightarrow> static_worker \<Rightarrow> nat set \<Rightarrow> 'k fd_state \<Rightarrow> bool" where
  "fs_ok opened live base ws i w0 l s \<longleftrightarrow>
     (\<exists>w. fs_worker s = Some w \<and> same_entry w0 w \<and> w_in_use w \<and> entry_ok opened base ws i w (fs_kernel s)) \<and> live (fs_kernel s) = l"

lemma forget_input_ok [simp]: "sw_fd_map (forget_input j w) = sw_fd_map w" "w_in_use (forget_input j w) = w_in_use w" "same_entry w0 (forget_input j w) = same_entry w0 w"
  by (simp_all add: forget_input_def same_entry_def)

lemma set_fd_ok [simp]: "sw_fd_map (set_fd j v w) = (sw_fd_map w)(j := v)" "w_in_use (set_fd j v w) = w_in_use w" "same_entry w0 (set_fd j v w) = same_entry w0 w"
  by (simp_all add: set_fd_def same_entry_def)

lemma entry_forget [simp]: "fds_ok base (ws[i := forget_input j w]) opn = fds_ok base (ws[i := w]) opn"
  by (rule fds_ok_cong) (simp add: slot_fd_def)

lemma fs_close_ok:
  assumes sys: "services_ok sys opened live" and i: "i < length ws" and ok: "fs_ok opened live base ws i w0 l s" and fd: "0 \<le> fd" "fd < 3"
  shows "fs_ok opened live base ws i w0 l (snd (luna_bb_close sys fd s)) \<and>
    (\<forall>w. fs_worker (snd (luna_bb_close sys fd s)) = Some w \<longrightarrow> sw_fd_map w (nat fd) < 0)"
proof -
  obtain w where w: "fs_worker s = Some w" "same_entry w0 w" "entry_ok opened base ws i w (fs_kernel s)" "live (fs_kernel s) = l" and use: "w_in_use w"
    using ok by (auto simp: fs_ok_def)
  have j: "nat fd < 3" using fd by linarith
  show ?thesis
  proof (cases "sw_fd_map w (nat fd) \<ge> 0")
    case True
    obtain r k where c: "k_close sys (fs_kernel s) (sw_fd_map w (nat fd)) = (r, k)" by (metis prod.exhaust)
    have "opened k = opened (fs_kernel s) - {sw_fd_map w (nat fd)} \<and> live k = live (fs_kernel s)"
      using services_okD(3) [OF sys fds_ok_owned [OF use w(3) i j True]] c by simp
    then have e: "entry_ok opened base ws i (set_fd (nat fd) (-1) w) k" "live k = l"
      using fds_ok_set [OF use w(3) i j, of "-1"] True w(4) by simp_all
    have run: "luna_bb_close sys fd s = fs_result r (s\<lparr>fs_worker := Some (forget_input (nat fd) (set_fd (nat fd) (-1) w)), fs_kernel := k\<rparr>)"
      using w(1) True fd c by (simp add: luna_bb_close_def fs_fd_def)
    show ?thesis unfolding run using e w(2) use by (cases "r < 0") (simp_all add: fs_result_def fs_ok_def)
  next
    case False
    then have "entry_ok opened base ws i (set_fd (nat fd) (-1) w) (fs_kernel s)" using fds_ok_set [OF use w(3) i j, of "-1"] by simp
    then show ?thesis using w False fd use by (auto simp: luna_bb_close_def fs_fd_def fs_ok_def)
  qed
qed

lemma fs_open_ok:
  assumes sys: "services_ok sys opened live" and i: "i < length ws" and ok: "fs_ok opened live base ws i w0 l s"
    and free: "\<And>w. fs_worker s = Some w \<Longrightarrow> \<exists>j < 3. sw_fd_map w j < 0"
  shows "fs_ok opened live base ws i w0 l (snd (luna_bb_open sys path s))"
proof -
  obtain w where w: "fs_worker s = Some w" "same_entry w0 w" "entry_ok opened base ws i w (fs_kernel s)" "live (fs_kernel s) = l" and use: "w_in_use w"
    using ok by (auto simp: fs_ok_def)
  obtain r k where o: "k_open sys (fs_kernel s) path = (r, k)" by (metis prod.exhaust)
  have g: "grants opened live (fs_kernel s) r k" by (rule services_okD(1) [OF sys o])
  show ?thesis
  proof (cases "r < 0")
    case True
    then show ?thesis using o g w use by (simp add: luna_bb_open_def fs_result_def fs_ok_def grants_def)
  next
    case False
    obtain j where f: "find (\<lambda>fd. sw_fd_map w fd < 0) [0..<3] = Some j"
      using free [OF w(1)] by (cases "find (\<lambda>fd. sw_fd_map w fd < 0) [0..<3]") (auto simp: find_None_iff)
    then have j: "j < 3" "sw_fd_map w j < 0" by (auto simp: find_Some_iff)
    have "entry_ok opened base ws i (set_fd j r w) k" using fds_ok_set [OF use w(3) i j(1), of r] j(2) g False by (simp add: grants_def insert_is_Un [symmetric])
    then show ?thesis using o g w f False use by (simp add: luna_bb_open_def fs_ok_def grants_def)
  qed
qed

lemma fs_dup2_ok:
  assumes sys: "services_ok sys opened live" and i: "i < length ws" and ok: "fs_ok opened live base ws i w0 l s" and b: "0 \<le> b" "b < 3"
  shows "fs_ok opened live base ws i w0 l (snd (luna_bb_dup2 sys a b s))"
proof (cases "a = b")
  case True
  then show ?thesis using ok by (simp add: luna_bb_dup2_def)
next
  case ne: False
  obtain w where w: "fs_worker s = Some w" "same_entry w0 w" "entry_ok opened base ws i w (fs_kernel s)" "live (fs_kernel s) = l" and use: "w_in_use w"
    using ok by (auto simp: fs_ok_def)
  have j: "nat b < 3" using b by linarith
  obtain r k where d: "k_dup sys (fs_kernel s) (fs_fd s a) = (r, k)" by (metis prod.exhaust)
  have g: "grants opened live (fs_kernel s) r k" by (rule services_okD(2) [OF sys d])
  show ?thesis
  proof (cases "r < 0")
    case True
    then show ?thesis using d g w ne b use by (simp add: luna_bb_dup2_def fs_result_def fs_ok_def grants_def)
  next
    case False
    let ?old = "sw_fd_map w (nat b)"
    define k' where "k' = (if ?old \<ge> 0 then snd (k_close sys k ?old) else k)"
    have o: "opened k = insert r (opened (fs_kernel s))" "r \<notin> opened (fs_kernel s)" "live k = l" using g False w(4) by (auto simp: grants_def)
    have "?old \<ge> 0 \<Longrightarrow> ?old \<in> opened (fs_kernel s)" using fds_ok_owned [OF use w(3) i j] by simp
    then have k': "opened k' = (opened (fs_kernel s) - (if ?old \<ge> 0 then {?old} else {})) \<union> {r}" "live k' = l"
      using services_okD(3) [OF sys, of ?old k] o by (auto simp: k'_def)
    have "entry_ok opened base ws i (set_fd (nat b) r w) k'" using fds_ok_set [OF use w(3) i j, of r] o(2) False k' by simp
    moreover have "luna_bb_dup2 sys a b s = (b, s\<lparr>fs_kernel := k', fs_worker := Some (forget_input (nat b) (set_fd (nat b) r w))\<rparr>)"
      using ne w b d False by (simp add: luna_bb_dup2_def k'_def)
    ultimately show ?thesis using w k' use by (simp add: fs_ok_def)
  qed
qed

lemma applet_calls_ok:
  assumes sys: "services_ok sys opened live" and i: "i < length ws"
  shows "std_only calls \<Longrightarrow> fs_ok opened live base ws i w0 l s \<Longrightarrow> fs_ok opened live base ws i w0 l (fold (applet_call sys) calls s)"
proof (induction calls arbitrary: s rule: std_only.induct)
  case (2 fd path rest)
  have fd: "0 \<le> fd" "fd < 3" "std_only rest" using 2(2) by auto
  note c = fs_close_ok [OF sys i 2(3) fd(1,2)]
  have "\<exists>j < 3. sw_fd_map w j < 0" if "fs_worker (snd (luna_bb_close sys fd s)) = Some w" for w
    using c that fd by (intro exI [of _ "nat fd"]) auto
  then have "fs_ok opened live base ws i w0 l (snd (luna_bb_open sys path (snd (luna_bb_close sys fd s))))"
    using fs_open_ok [OF sys i conjunct1 [OF c]] by blast
  then show ?case using 2(1) fd(3) by simp
next
  case (4 a b rest)
  then show ?case using fs_dup2_ok [OF sys i] by simp
qed (simp_all add: fs_close_ok [OF sys i])

lemma run_applet_ok:
  assumes sys: "services_ok sys opened live" and i: "i < length ws" and ap: "applets_ok applets" and use: "w_in_use w" and ok: "entry_ok opened base ws i w k"
    and run: "run_applet sys applets (w, k) = (w', k')"
  shows "entry_ok opened base ws i w' k' \<and> live k' = live k \<and> same_entry w w'"
proof (cases "applets (arguments w)")
  case None
  then have "w' = w\<lparr>w_status := 127\<rparr>" "k' = k" using run by (simp_all add: run_applet_def)
  then show ?thesis using ok fds_ok_cong [of w "w\<lparr>w_status := 127\<rparr>" base ws i] by (simp add: same_entry_def slot_fd_def)
next
  case (Some p)
  obtain calls code where p: "p = (calls, code)" by (metis prod.exhaust)
  define s where "s = fold (applet_call sys) calls \<lparr>fs_worker = Some w, fs_kernel = k, fs_errno = w_errno w\<rparr>"
  have "std_only calls" using ap Some p by (auto simp: applets_ok_def)
  moreover have "fs_ok opened live base ws i w (live k) \<lparr>fs_worker = Some w, fs_kernel = k, fs_errno = w_errno w\<rparr>"
    using ok use by (simp add: fs_ok_def same_entry_def)
  ultimately have "fs_ok opened live base ws i w (live k) s" unfolding s_def by (rule applet_calls_ok [OF sys i])
  then obtain v where v: "fs_worker s = Some v" "same_entry w v" "entry_ok opened base ws i v (fs_kernel s)" "live (fs_kernel s) = live k"
    by (auto simp: fs_ok_def)
  have out: "w' = v\<lparr>w_status := code mod 256, w_errno := fs_errno s\<rparr>" "k' = fs_kernel s"
    using run Some p v(1) by (simp_all add: run_applet_def s_def Let_def)
  have "fds_ok base (ws[i := w']) (opened k') = fds_ok base (ws[i := v]) (opened k')"
    by (rule fds_ok_cong) (simp add: out slot_fd_def)
  then show ?thesis using v out by (simp add: same_entry_def)
qed

section \<open>The invariant of the worker table\<close>

text \<open>
  A used entry belongs to a live thread that has not been joined; one whose thread has ended has no
  descriptor any more. \<open>part_ok\<close> is the invariant without the entries of \<open>I\<close>, which an operation is working on.
\<close>

definition entry_wf :: "nat set \<Rightarrow> static_worker \<Rightarrow> bool" where
  "entry_wf l w \<longleftrightarrow> (w_in_use w \<longrightarrow> \<not> w_reaped w \<and> w_tid w \<noteq> 0 \<and> w_tid w \<in> l) \<and> (w_in_use w \<and> w_done w \<longrightarrow> (\<forall>j < 3. sw_fd_map w j < 0))"

definition part_ok :: "('k \<Rightarrow> int set) \<Rightarrow> ('k \<Rightarrow> nat set) \<Rightarrow> int set \<Rightarrow> nat set \<Rightarrow> 'k user_state \<Rightarrow> bool" where
  "part_ok opened live base I s \<longleftrightarrow>
     length (us_workers s) = LUNA_STATIC_WORKERS \<and> fds_ok base (us_workers s) (opened (us_kernel s)) \<and>
     (\<forall>i < LUNA_STATIC_WORKERS. i \<notin> I \<longrightarrow> entry_wf (live (us_kernel s)) (us_workers s ! i)) \<and>
     (\<forall>i < LUNA_STATIC_WORKERS. \<forall>j < LUNA_STATIC_WORKERS. i \<notin> I \<and> j \<notin> I \<and> w_in_use (us_workers s ! i) \<and> w_in_use (us_workers s ! j) \<and>
        w_tid (us_workers s ! i) = w_tid (us_workers s ! j) \<longrightarrow> i = j)"

abbreviation user_ok :: "('k \<Rightarrow> int set) \<Rightarrow> ('k \<Rightarrow> nat set) \<Rightarrow> int set \<Rightarrow> 'k user_state \<Rightarrow> bool" where
  "user_ok opened live base s \<equiv> part_ok opened live base {} s"

definition active :: "static_worker list \<Rightarrow> nat" where
  "active ws = length (filter w_in_use ws)"

text \<open>How far the counter of active workers is from their number.\<close>

definition drift :: "'k user_state \<Rightarrow> u32" where
  "drift s = of_nat (active (us_workers s)) - us_current s"

lemma active_update: "i < length ws \<Longrightarrow> active (ws[i := w]) + (if w_in_use (ws ! i) then 1 else 0) = active ws + (if w_in_use w then 1 else 0)"
proof (induction ws arbitrary: i)
  case (Cons v vs)
  then show ?case by (cases i) (auto simp: active_def)
qed simp

lemma active_update_word:
  "i < length ws \<Longrightarrow> (of_nat (active (ws[i := w])) :: u32) = of_nat (active ws) + (if w_in_use w then 1 else 0) - (if w_in_use (ws ! i) then 1 else 0)"
  using arg_cong [OF active_update [of i ws w], of "of_nat :: nat \<Rightarrow> u32"] by (auto simp: algebra_simps split: if_splits)

lemma part_ok_entry:
  assumes ok: "part_ok opened live base I s" and i: "i < LUNA_STATIC_WORKERS"
    and fds: "entry_ok opened base (us_workers s) i w k" and l: "\<And>j. j < LUNA_STATIC_WORKERS \<Longrightarrow> j \<notin> insert i I \<Longrightarrow> w_in_use (us_workers s ! j) \<Longrightarrow> w_tid (us_workers s ! j) \<in> live k"
    and s': "us_workers s' = (us_workers s)[i := w]" "us_kernel s' = k"
  shows "part_ok opened live base (insert i I) s'"
  using ok i fds l unfolding part_ok_def s' by (auto simp: nth_list_update entry_wf_def)

lemma part_ok_fill:
  assumes ok: "part_ok opened live base (insert i I) s" and wf: "entry_wf (live (us_kernel s)) (us_workers s ! i)"
    and tid: "\<And>j. j < LUNA_STATIC_WORKERS \<Longrightarrow> j \<notin> insert i I \<Longrightarrow> w_in_use (us_workers s ! i) \<Longrightarrow> w_in_use (us_workers s ! j) \<Longrightarrow> w_tid (us_workers s ! j) \<noteq> w_tid (us_workers s ! i)"
  shows "part_ok opened live base I s"
proof -
  have "entry_wf (live (us_kernel s)) (us_workers s ! j)" if "j < LUNA_STATIC_WORKERS" "j \<notin> I" for j
    using ok wf that by (cases "j = i") (auto simp: part_ok_def)
  moreover have "a = b" if "a < LUNA_STATIC_WORKERS" "b < LUNA_STATIC_WORKERS" "a \<notin> I" "b \<notin> I" "w_in_use (us_workers s ! a)" "w_in_use (us_workers s ! b)"
    "w_tid (us_workers s ! a) = w_tid (us_workers s ! b)" for a b
  proof (cases "a = i \<or> b = i")
    case True
    then show ?thesis using tid [of a] tid [of b] that by (cases "a = b") auto
  next
    case False
    then show ?thesis using ok that unfolding part_ok_def by blast
  qed
  ultimately show ?thesis using ok by (simp add: part_ok_def)
qed

lemma part_ok_weaken: "part_ok opened live base {} s \<Longrightarrow> part_ok opened live base {i} s"
  by (auto simp: part_ok_def)

lemma part_ok_workers: "part_ok opened live base I s \<Longrightarrow> us_workers s' = us_workers s \<Longrightarrow> us_kernel s' = us_kernel s \<Longrightarrow> part_ok opened live base I s'"
  by (simp add: part_ok_def)

text \<open>Entries other than \<open>i\<close> are untouched.\<close>

definition only_entry :: "nat \<Rightarrow> 'k user_state \<Rightarrow> 'k user_state \<Rightarrow> bool" where
  "only_entry i s s' \<longleftrightarrow> (\<forall>j. j \<noteq> i \<longrightarrow> us_workers s' ! j = us_workers s ! j)"

lemma release_entry_ok:
  assumes sys: "services_ok sys opened live" and ok: "part_ok opened live base {i} s" and i: "i < LUNA_STATIC_WORKERS"
    and use: "w_in_use (us_workers s ! i)"
  shows "user_ok opened live base (task_static_release sys i s) \<and> (\<forall>j < 3. sw_fd_map (us_workers (task_static_release sys i s) ! i) j < 0) \<and> only_entry i s (task_static_release sys i s) \<and>
    \<not> w_in_use (us_workers (task_static_release sys i s) ! i) \<and> w_tid (us_workers (task_static_release sys i s) ! i) = w_tid (us_workers s ! i) \<and>
    live (us_kernel (task_static_release sys i s)) = live (us_kernel s) \<and>
    drift (task_static_release sys i s) = drift s"
proof -
  let ?ws = "us_workers s"
  have len: "length ?ws = LUNA_STATIC_WORKERS" using ok by (simp add: part_ok_def)
  then have il: "i < length ?ws" using i by simp
  obtain w k where c: "close_all_std sys (?ws ! i, us_kernel s) = (w, k)" by (metis prod.exhaust)
  have "entry_ok opened base ?ws i (?ws ! i) (us_kernel s)" using ok by (simp add: part_ok_def)
  note ca = close_all_std_ok [OF sys use this il c]
  define w' where "w' = w\<lparr>w_in_use := False\<rparr>"
  define s' where "s' = s\<lparr>us_workers := ?ws[i := w'], us_kernel := k, us_current := us_current s - 1\<rparr>"
  have rel: "task_static_release sys i s = s'" using c by (simp add: task_static_release_def s'_def w'_def)
  have tid: "w_tid w' = w_tid (?ws ! i)" using ca by (auto simp: w'_def)
  have "fds_ok base (?ws[i := w']) (opened k) = fds_ok base (?ws[i := w]) (opened k)"
    by (rule fds_ok_cong) (use ca in \<open>simp add: w'_def slot_fd_def not_le\<close>)
  then have fds: "entry_ok opened base ?ws i w' k" using ca by simp
  have "part_ok opened live base (insert i {i}) s'"
    by (rule part_ok_entry [OF ok i fds]) (use ok ca in \<open>auto simp: s'_def part_ok_def entry_wf_def\<close>)
  then have "part_ok opened live base (insert i {}) s'" by simp
  then have "user_ok opened live base s'"
    by (rule part_ok_fill) (use ca il in \<open>auto simp: s'_def w'_def entry_wf_def\<close>)
  moreover have "drift s' = drift s"
    using active_update_word [OF il, of w'] use by (simp add: drift_def s'_def w'_def)
  ultimately show ?thesis unfolding rel using ca il tid by (auto simp: s'_def only_entry_def w'_def)
qed

text \<open>Releasing an entry that is already free changes nothing but the counter.\<close>

lemma release_free:
  assumes ok: "user_ok opened live base s" and i: "i < LUNA_STATIC_WORKERS" and free: "\<not> w_in_use (us_workers s ! i)"
    and neg: "\<forall>j < 3. sw_fd_map (us_workers s ! i) j < 0"
  shows "task_static_release sys i s = s\<lparr>us_current := us_current s - 1\<rparr>"
proof -
  have "\<not> 0 \<le> sw_fd_map (us_workers s ! i) 0" "\<not> 0 \<le> sw_fd_map (us_workers s ! i) (Suc 0)" "\<not> 0 \<le> sw_fd_map (us_workers s ! i) (Suc (Suc 0))"
    using neg by (auto simp: not_le)
  then have "close_all_std sys (us_workers s ! i, us_kernel s) = (us_workers s ! i, us_kernel s)"
    by (simp add: close_all_std_def close_std_def eval_nat_numeral)
  moreover have "(us_workers s ! i)\<lparr>w_in_use := False\<rparr> = us_workers s ! i" using free by simp
  ultimately show ?thesis by (simp add: task_static_release_def)
qed

lemma run_worker_ok:
  assumes sys: "services_ok sys opened live" and ap: "applets_ok applets" and ok: "user_ok opened live base s"
  shows "user_ok opened live base (run_worker sys applets i s) \<and> only_entry i s (run_worker sys applets i s) \<and>
    live (us_kernel (run_worker sys applets i s)) = live (us_kernel s) \<and> drift (run_worker sys applets i s) = drift s \<and>
    w_in_use (us_workers (run_worker sys applets i s) ! i) = w_in_use (us_workers s ! i) \<and>
    w_tid (us_workers (run_worker sys applets i s) ! i) = w_tid (us_workers s ! i) \<and>
    (i < LUNA_STATIC_WORKERS \<and> w_in_use (us_workers s ! i) \<longrightarrow> w_done (us_workers (run_worker sys applets i s) ! i))"
proof (cases "i < length (us_workers s) \<and> w_in_use (us_workers s ! i) \<and> \<not> w_done (us_workers s ! i)")
  case False
  have "length (us_workers s) = LUNA_STATIC_WORKERS" using ok by (simp add: part_ok_def)
  moreover have "run_worker sys applets i s = s" using False by (simp only: run_worker_def if_False)
  ultimately show ?thesis using ok False by (auto simp: only_entry_def)
next
  case True
  let ?ws = "us_workers s"
  have len: "length ?ws = LUNA_STATIC_WORKERS" using ok by (simp add: part_ok_def)
  have il: "i < length ?ws" and i: "i < LUNA_STATIC_WORKERS" using True len by auto
  obtain w1 k1 where r: "run_applet sys applets (?ws ! i, us_kernel s) = (w1, k1)" by (metis prod.exhaust)
  obtain w k where c: "close_all_std sys (w1, k1) = (w, k)" by (metis prod.exhaust)
  have "entry_ok opened base ?ws i (?ws ! i) (us_kernel s)" using ok by (simp add: part_ok_def)
  note ra = run_applet_ok [OF sys il ap _ this r, rule_format, OF conjunct1 [OF conjunct2 [OF True]]]
  have use1: "w_in_use w1" using ra True by (simp add: same_entry_def)
  note ca = close_all_std_ok [OF sys use1 conjunct1 [OF ra] il c]
  define w' where "w' = w\<lparr>w_done := True\<rparr>"
  define s' where "s' = s\<lparr>us_workers := ?ws[i := w'], us_kernel := k\<rparr>"
  have run: "run_worker sys applets i s = s'" using True r c by (simp add: run_worker_def task_static_worker_def s'_def w'_def)
  have same: "w_in_use w' = w_in_use (?ws ! i)" "w_tid w' = w_tid (?ws ! i)" "w_reaped w' = w_reaped (?ws ! i)"
    using ra ca by (auto simp: w'_def same_entry_def)
  have "fds_ok base (?ws[i := w']) (opened k) = fds_ok base (?ws[i := w]) (opened k)" by (rule fds_ok_cong) (simp add: w'_def slot_fd_def)
  then have fds: "entry_ok opened base ?ws i w' k" using ca by simp
  have l: "live k = live (us_kernel s)" using ra ca by simp
  have "part_ok opened live base (insert i {}) s'"
    by (rule part_ok_entry [OF ok i fds]) (use ok l in \<open>auto simp: s'_def part_ok_def entry_wf_def\<close>)
  moreover have "entry_wf (live (us_kernel s)) (?ws ! i)" using ok i by (simp add: part_ok_def)
  then have "entry_wf (live (us_kernel s')) (us_workers s' ! i)" using same ca l il True by (auto simp: s'_def entry_wf_def w'_def)
  moreover have "w_tid (us_workers s' ! j) \<noteq> w_tid (us_workers s' ! i)" if "j < LUNA_STATIC_WORKERS" "j \<noteq> i" "w_in_use (us_workers s' ! j)" for j
  proof -
    have "us_workers s' ! j = ?ws ! j" using that by (simp add: s'_def)
    then show ?thesis using ok i that True same il unfolding part_ok_def s'_def by auto
  qed
  ultimately have "user_ok opened live base s'" using part_ok_fill [of opened live base i "{}" s'] by auto
  moreover have "drift s' = drift s" using active_update_word [OF il, of w'] same by (simp add: drift_def s'_def)
  ultimately show ?thesis unfolding run using same l il by (auto simp: s'_def only_entry_def w'_def)
qed

section \<open>Starting and joining\<close>

lemma copy_arguments_frame: "\<exists>a d. snd (copy_arguments args used w) = w\<lparr>w_argv := a, w_data := d\<rparr>"
proof (induction args used w rule: copy_arguments.induct)
  case (1 used w)
  show ?case by (rule exI [of _ "w_argv w"], rule exI [of _ "w_data w"]) simp
next
  case (2 a args used w)
  show ?case
  proof (cases "length (w_argv w) \<ge> LUNA_STATIC_ARGC_MAX \<or> used + (length a + 1) > LUNA_STATIC_ARG_BYTES")
    case True
    then show ?thesis by (intro exI [of _ "w_argv w"] exI [of _ "w_data w"]) auto
  next
    case False
    then show ?thesis using 2 by auto
  qed
qed

lemma dup_std_ok:
  assumes sys: "services_ok sys opened live" and i: "i < length ws"
  shows "w_in_use w \<Longrightarrow> entry_ok opened base ws i w k \<Longrightarrow> \<forall>p \<in> set l. fst p < 3 \<and> sw_fd_map w (fst p) < 0 \<Longrightarrow> distinct (map fst l) \<Longrightarrow>
    dup_std sys l w k = (e, w', k') \<Longrightarrow> entry_ok opened base ws i w' k' \<and> live k' = live k \<and> (\<exists>m. w' = w\<lparr>sw_fd_map := m\<rparr>)"
proof (induction l arbitrary: w k)
  case Nil
  then show ?case by (auto intro: exI [of _ "sw_fd_map w"])
next
  case (Cons p l)
  obtain fd source where p: "p = (fd, source)" by (metis prod.exhaust)
  obtain d k1 where d: "k_dup sys k source = (d, k1)" by (metis prod.exhaust)
  have g: "grants opened live k d k1" by (rule services_okD(2) [OF sys d])
  show ?case
  proof (cases "d < 0")
    case True
    then have "w' = w" "k' = k1" using Cons(6) p d by auto
    then show ?thesis using Cons(3) g True by (auto simp: grants_def intro: exI [of _ "sw_fd_map w"])
  next
    case False
    have fd: "fd < 3" "sw_fd_map w fd < 0" using Cons(4) p by auto
    have e: "entry_ok opened base ws i (set_fd fd d w) k1" using fds_ok_set [OF Cons(2,3) i fd(1), of d] fd(2) g False by (simp add: grants_def)
    have "\<forall>q \<in> set l. fst q < 3 \<and> sw_fd_map (set_fd fd d w) (fst q) < 0" using Cons(4,5) p by force
    then have "entry_ok opened base ws i w' k' \<and> live k' = live k1 \<and> (\<exists>m. w' = (set_fd fd d w)\<lparr>sw_fd_map := m\<rparr>)"
      using Cons(1) [OF _ e] Cons(2) Cons(5,6) p d False by simp
    then show ?thesis using g by (auto simp: grants_def set_fd_def)
  qed
qed

lemma allocate_ok:
  assumes ok: "user_ok opened live base s" and run: "task_static_allocate s = (r, s')"
  shows "case r of None \<Rightarrow> s' = s\<lparr>us_errno := EAGAIN\<rparr> \<and> (\<forall>i < LUNA_STATIC_WORKERS. w_in_use (us_workers s ! i))
    | Some i \<Rightarrow> i < LUNA_STATIC_WORKERS \<and> \<not> w_in_use (us_workers s ! i) \<and> part_ok opened live base {i} s' \<and> only_entry i s s' \<and>
        us_kernel s' = us_kernel s \<and> us_workers s' ! i = fresh_worker (us_workers s ! i) \<and> drift s' = drift s"
proof (cases "find (\<lambda>i. \<not> w_in_use (us_workers s ! i)) [0..<LUNA_STATIC_WORKERS]")
  case None
  then have "r = None" "s' = s\<lparr>us_errno := EAGAIN\<rparr>" using run by (auto simp: task_static_allocate_def)
  then show ?thesis using None by (auto simp: find_None_iff)
next
  case (Some i)
  have i: "i < LUNA_STATIC_WORKERS" "\<not> w_in_use (us_workers s ! i)" using Some by (auto simp: find_Some_iff)
  have il: "i < length (us_workers s)" using ok i by (simp add: part_ok_def)
  let ?w = "fresh_worker (us_workers s ! i)"
  have out: "r = Some i" "us_workers s' = (us_workers s)[i := ?w]" "us_kernel s' = us_kernel s" "us_current s' = us_current s + 1"
    using run Some by (auto simp: task_static_allocate_def update_worker_def)
  have "fds_ok base ((us_workers s)[i := ?w]) (opened (us_kernel s)) = fds_ok base ((us_workers s)[i := us_workers s ! i]) (opened (us_kernel s))"
    by (rule fds_ok_cong) (use i in \<open>simp add: slot_fd_def fresh_worker_def\<close>)
  then have fds: "entry_ok opened base (us_workers s) i ?w (us_kernel s)" using ok by (simp add: part_ok_def)
  have "part_ok opened live base (insert i {}) s'"
    by (rule part_ok_entry [OF ok i(1) fds _ out(2,3)]) (use ok in \<open>auto simp: part_ok_def entry_wf_def\<close>)
  moreover have "drift s' = drift s" using active_update_word [OF il, of ?w] i(2) out by (simp add: drift_def fresh_worker_def)
  ultimately show ?thesis using i out il by (simp add: only_entry_def)
qed

lemma start_ok:
  assumes sys: "services_ok sys opened live" and ok: "part_ok opened live base {i} s" and i: "i < LUNA_STATIC_WORKERS"
    and fresh: "w_in_use (us_workers s ! i)" "\<not> w_done (us_workers s ! i)" "\<not> w_reaped (us_workers s ! i)" "w_tid (us_workers s ! i) = 0"
      "\<forall>j < 3. sw_fd_map (us_workers s ! i) j < 0"
    and run: "task_static_start sys i argv a b c s = (pid, s')"
  shows "user_ok opened live base s' \<and> only_entry i s s' \<and> drift s' = drift s \<and>
    (if pid < 0 then \<not> w_in_use (us_workers s' ! i) \<and> w_tid (us_workers s' ! i) = 0 \<and> (\<forall>j < 3. sw_fd_map (us_workers s' ! i) j < 0) \<and> live (us_kernel s') = live (us_kernel s)
     else pid > 0 \<and> nat pid \<notin> live (us_kernel s) \<and> live (us_kernel s') = insert (nat pid) (live (us_kernel s)) \<and>
       w_in_use (us_workers s' ! i) \<and> \<not> w_done (us_workers s' ! i) \<and> int (w_tid (us_workers s' ! i)) = pid)"
proof -
  let ?ws = "us_workers s" and ?v = "us_workers s ! i"
  have il: "i < length ?ws" using ok i by (simp add: part_ok_def)
  obtain res w where cp: "task_static_copy_argv argv ?v = (res, w)" by (metis prod.exhaust)
  obtain av ad where w: "w = ?v\<lparr>w_argv := av, w_data := ad\<rparr>"
    using copy_arguments_frame [of argv 0 "?v\<lparr>w_argv := []\<rparr>"] cp by (auto simp: task_static_copy_argv_def)
  have e0: "entry_ok opened base ?ws i ?v (us_kernel s)" using ok by (simp add: part_ok_def)
  have e1: "entry_ok opened base ?ws i w (us_kernel s)" using e0 fds_ok_cong [of w ?v base ?ws i] w by (simp add: slot_fd_def)
  define s1 where "s1 = s\<lparr>us_workers := ?ws[i := w]\<rparr>"
  obtain e w2 k2 where d: "dup_std sys [(0, a), (1, b), (2, c)] w (us_kernel s) = (e, w2, k2)" by (metis prod.exhaust)
  have du: "entry_ok opened base ?ws i w2 k2 \<and> live k2 = live (us_kernel s) \<and> (\<exists>m. w2 = w\<lparr>sw_fd_map := m\<rparr>)"
    by (rule dup_std_ok [OF sys il _ e1 _ _ d]) (use fresh w in simp_all)
  define s2 where "s2 = s\<lparr>us_workers := ?ws[i := w2], us_kernel := k2\<rparr>"
  obtain tid k3 where t: "k_create sys k2 = (tid, k3)" by (metis prod.exhaust)
  note cr = services_okD(5) [OF sys t]
  define s3 where "s3 = s2\<lparr>us_kernel := k3\<rparr>"
  have lv: "\<And>j. j < LUNA_STATIC_WORKERS \<Longrightarrow> j \<notin> insert i {i} \<Longrightarrow> w_in_use (?ws ! j) \<Longrightarrow> w_tid (?ws ! j) \<in> live (us_kernel s)"
    using ok by (auto simp: part_ok_def entry_wf_def)
  have p1: "part_ok opened live base {i} s1" using part_ok_entry [OF ok i e1 lv] by (simp add: s1_def)
  have p2: "part_ok opened live base {i} s2" using part_ok_entry [OF ok i, of w2 k2 s2] du lv by (simp add: s2_def)
  have lv3: "\<And>j. j < LUNA_STATIC_WORKERS \<Longrightarrow> j \<notin> insert i {i} \<Longrightarrow> w_in_use (?ws ! j) \<Longrightarrow> w_tid (?ws ! j) \<in> live k3"
    using lv cr du by (auto split: if_splits)
  have e3: "entry_ok opened base ?ws i w2 k3" using du cr by simp
  have p3: "part_ok opened live base {i} s3" using part_ok_entry [OF ok i e3 lv3, of s3] by (simp add: s3_def s2_def)
  have inuse: "w_in_use w" "w_in_use w2" "w_tid w = 0" "w_tid w2 = 0" "\<not> w_done w2" "\<not> w_reaped w2" using fresh w du by auto
  have at: "us_workers s1 ! i = w" "us_workers s2 ! i = w2" "us_workers s3 ! i = w2" using il by (simp_all add: s1_def s2_def s3_def)
  have dr: "drift s1 = drift s" "drift s2 = drift s" "drift s3 = drift s"
    using active_update_word [OF il, of w] active_update_word [OF il, of w2] fresh inuse by (simp_all add: drift_def s1_def s2_def s3_def)
  have on: "only_entry i s s1" "only_entry i s s2" "only_entry i s s3" by (simp_all add: only_entry_def s1_def s2_def s3_def)
  have fail: ?thesis if "part_ok opened live base {i} t" "only_entry i s t" "us_workers t ! i = v" "w_in_use v" "w_tid v = 0" "drift t = drift s"
    "live (us_kernel t) = live (us_kernel s)" "s' = task_static_release sys i t" "pid < 0" for t v
    using release_entry_ok [OF sys that(1) i, unfolded that(3), OF that(4)] that by (auto simp: only_entry_def)
  consider (argv) "res < 0" | (denied) "res \<ge> 0" "\<not> task_static_command_allowed (argument_at w (hd (w_argv w)))"
    | (dup) "res \<ge> 0" "task_static_command_allowed (argument_at w (hd (w_argv w)))" "e < 0"
    | (thread) "res \<ge> 0" "task_static_command_allowed (argument_at w (hd (w_argv w)))" "e \<ge> 0" "tid = 0"
    | (go) "res \<ge> 0" "task_static_command_allowed (argument_at w (hd (w_argv w)))" "e \<ge> 0" "tid \<noteq> 0"
    by linarith
  then show ?thesis
  proof cases
    case argv
    then have "s' = task_static_release sys i s1" "pid < 0" using run cp by (auto simp: task_static_start_def s1_def)
    then show ?thesis using fail [OF p1 on(1) at(1)] inuse dr by (simp add: s1_def)
  next
    case denied
    then have "s' = task_static_release sys i s1" "pid < 0" using run cp by (auto simp: task_static_start_def s1_def ENOENT_def)
    then show ?thesis using fail [OF p1 on(1) at(1)] inuse dr by (simp add: s1_def)
  next
    case dup
    then have "s' = task_static_release sys i s2" "pid < 0" using run cp d by (auto simp: task_static_start_def s2_def)
    then show ?thesis using fail [OF p2 on(2) at(2)] inuse dr du by (simp add: s2_def)
  next
    case thread
    then have "s' = task_static_release sys i s3" "pid < 0" using run cp d t by (auto simp: task_static_start_def s3_def s2_def EAGAIN_def)
    then show ?thesis using fail [OF p3 on(3) at(3)] inuse dr du cr thread by (simp add: s3_def)
  next
    case go
    define w4 where "w4 = w2\<lparr>w_tid := tid\<rparr>"
    have out: "pid = int tid" "us_workers s' = ?ws[i := w4]" "us_kernel s' = k3" "us_current s' = us_current s"
      using go run cp d t il by (auto simp: task_static_start_def update_worker_def w4_def)
    have e4: "entry_ok opened base ?ws i w4 k3" using e3 fds_ok_cong [of w4 w2 base ?ws i] by (simp add: w4_def slot_fd_def)
    have "part_ok opened live base (insert i {}) s'" using part_ok_entry [OF ok i e4 lv3 out(2,3)] by simp
    moreover have "entry_wf (live (us_kernel s')) (us_workers s' ! i)" using out il inuse go cr by (simp add: entry_wf_def w4_def)
    moreover have "tid \<notin> live (us_kernel s)" using cr du go by simp
    then have "w_tid (us_workers s' ! j) \<noteq> w_tid (us_workers s' ! i)" if "j < LUNA_STATIC_WORKERS" "j \<noteq> i" "w_in_use (us_workers s' ! j)" for j
      using lv [of j] that out il by (auto simp: w4_def)
    ultimately have "user_ok opened live base s'" using part_ok_fill [of opened live base i "{}" s'] by auto
    moreover have "drift s' = drift s" using active_update_word [OF il, of w4] fresh inuse out by (simp add: drift_def w4_def)
    ultimately show ?thesis using out il inuse go cr du by (simp add: only_entry_def w4_def)
  qed
qed

lemma launch_ok:
  assumes sys: "services_ok sys opened live" and ok: "user_ok opened live base s"
    and al: "task_static_allocate s = (Some i, s1)" and run: "task_static_start sys i argv a b c s1 = (pid, s')"
  shows "i < LUNA_STATIC_WORKERS \<and> \<not> w_in_use (us_workers s ! i) \<and> user_ok opened live base s' \<and> only_entry i s s' \<and> drift s' = drift s \<and>
    (if pid < 0 then \<not> w_in_use (us_workers s' ! i) \<and> w_tid (us_workers s' ! i) = 0 \<and> (\<forall>j < 3. sw_fd_map (us_workers s' ! i) j < 0)
     else pid > 0 \<and> w_in_use (us_workers s' ! i) \<and> \<not> w_done (us_workers s' ! i) \<and> int (w_tid (us_workers s' ! i)) = pid)"
proof -
  have a: "i < LUNA_STATIC_WORKERS \<and> \<not> w_in_use (us_workers s ! i) \<and> part_ok opened live base {i} s1 \<and> only_entry i s s1 \<and>
        us_kernel s1 = us_kernel s \<and> us_workers s1 ! i = fresh_worker (us_workers s ! i) \<and> drift s1 = drift s"
    using allocate_ok [OF ok al] by simp
  then have i: "i < LUNA_STATIC_WORKERS" and p: "part_ok opened live base {i} s1" by auto
  have f: "w_in_use (us_workers s1 ! i)" "\<not> w_done (us_workers s1 ! i)" "\<not> w_reaped (us_workers s1 ! i)" "w_tid (us_workers s1 ! i) = 0"
      "\<forall>j < 3. sw_fd_map (us_workers s1 ! i) j < 0"
    using a by (simp_all add: fresh_worker_def)
  show ?thesis using start_ok [OF sys p i f run] a by (auto simp: only_entry_def split: if_splits)
qed

lemma join_ok:
  assumes sys: "services_ok sys opened live" and ap: "applets_ok applets" and ok: "user_ok opened live base s" and i: "i < LUNA_STATIC_WORKERS"
    and use: "w_in_use (us_workers s ! i)" and run: "task_static_join sys applets i s = (code, s')"
  shows "code = w_status (us_workers (run_worker sys applets i s) ! i) mod 256 \<and> user_ok opened live base s' \<and> only_entry i s s' \<and>
    drift s' = drift s \<and> \<not> w_in_use (us_workers s' ! i)"
proof -
  define s1 where "s1 = run_worker sys applets i s"
  note rw = run_worker_ok [OF sys ap ok, of i, folded s1_def]
  have ok1: "user_ok opened live base s1" and use1: "w_in_use (us_workers s1 ! i)" using rw use by auto
  let ?w = "us_workers s1 ! i"
  have il: "i < length (us_workers s1)" using ok1 i by (simp add: part_ok_def)
  have wf: "w_tid ?w \<in> live (us_kernel s1)" using ok1 use1 i by (simp add: part_ok_def entry_wf_def)
  obtain r k where j: "k_join sys (us_kernel s1) (w_tid ?w) = (r, k)" by (metis prod.exhaust)
  note jo = services_okD(6) [OF sys wf j]
  define s2 where "s2 = s1\<lparr>us_kernel := k, us_workers := (us_workers s1)[i := ?w\<lparr>w_reaped := True\<rparr>]\<rparr>"
  have fds: "entry_ok opened base (us_workers s1) i (?w\<lparr>w_reaped := True\<rparr>) k"
    using ok1 jo fds_ok_cong [of "?w\<lparr>w_reaped := True\<rparr>" ?w base "us_workers s1" i] by (simp add: part_ok_def slot_fd_def)
  have "w_tid (us_workers s1 ! j) \<in> live k" if "j < LUNA_STATIC_WORKERS" "j \<noteq> i" "w_in_use (us_workers s1 ! j)" for j
    using ok1 that i use1 jo unfolding part_ok_def entry_wf_def by blast
  then have p2: "part_ok opened live base {i} s2" using part_ok_entry [OF ok1 i fds, of s2] by (simp add: s2_def)
  have use2: "w_in_use (us_workers s2 ! i)" using use1 il by (simp add: s2_def)
  have dr: "drift s2 = drift s1" using active_update_word [OF il, of "?w\<lparr>w_reaped := True\<rparr>"] use1 by (simp add: drift_def s2_def)
  have "\<not> w_reaped (us_workers s ! i)" using ok i use by (simp add: part_ok_def entry_wf_def)
  then have out: "code = w_status ?w mod 256" "s' = task_static_release sys i s2"
    using run use j jo il by (auto simp: task_static_join_def s1_def [symmetric] s2_def update_worker_def Let_def)
  show ?thesis using release_entry_ok [OF sys p2 i] out use2 dr rw unfolding s1_def by (auto simp: only_entry_def s2_def s1_def)
qed

section \<open>Pipelines keep the invariant\<close>

lemma fds_ok_more: "fds_ok base ws opn \<Longrightarrow> F \<inter> opn = {} \<Longrightarrow> fds_ok (base \<union> F) ws (opn \<union> F)"
  by (auto simp: fds_ok_def)

lemma fds_ok_less: "fds_ok (base \<union> {x}) ws opn \<Longrightarrow> x \<notin> base \<Longrightarrow> fds_ok base ws (opn - {x}) \<and> x \<in> opn"
  by (auto simp: fds_ok_def)

definition pipe_fds :: "(int \<times> int) list \<Rightarrow> int list" where
  "pipe_fds ps = concat (map (\<lambda>p. [fst p, snd p]) ps)"

lemma user_ok_kernel:
  "user_ok opened live base s \<Longrightarrow> live k = live (us_kernel s) \<Longrightarrow> fds_ok base' (us_workers s) (opened k) \<Longrightarrow> us_workers s' = us_workers s \<Longrightarrow> us_kernel s' = k \<Longrightarrow>
   user_ok opened live base' s'"
  by (simp add: part_ok_def)

lemma close_pipes_ok:
  assumes sys: "services_ok sys opened live"
  shows "user_ok opened live (base \<union> set (pipe_fds ps)) s \<Longrightarrow> distinct (pipe_fds ps) \<Longrightarrow> base \<inter> set (pipe_fds ps) = {} \<Longrightarrow>
    user_ok opened live base (close_pipes sys ps s) \<and> drift (close_pipes sys ps s) = drift s \<and> us_workers (close_pipes sys ps s) = us_workers s"
proof (induction ps arbitrary: s)
  case Nil
  then show ?case by (simp add: close_pipes_def pipe_fds_def)
next
  case (Cons p ps)
  obtain a b where p: "p = (a, b)" by (metis prod.exhaust)
  let ?k = "us_kernel s" and ?B = "base \<union> set (pipe_fds ps)"
  have ab: "a \<noteq> b" "a \<notin> ?B" "b \<notin> ?B" "distinct (pipe_fds ps)" "base \<inter> set (pipe_fds ps) = {}" using Cons(3,4) p by (auto simp: pipe_fds_def)
  have "base \<union> set (pipe_fds (p # ps)) = (?B \<union> {b}) \<union> {a}" using p by (auto simp: pipe_fds_def)
  then have f0: "fds_ok ((?B \<union> {b}) \<union> {a}) (us_workers s) (opened ?k)" using Cons(2) by (simp add: part_ok_def)
  have f1: "fds_ok (?B \<union> {b}) (us_workers s) (opened ?k - {a})" "a \<in> opened ?k" using fds_ok_less [OF f0] ab by auto
  have f2: "fds_ok ?B (us_workers s) (opened ?k - {a} - {b})" "b \<in> opened ?k - {a}" using fds_ok_less [OF f1(1)] ab by auto
  have c1: "opened (snd (k_close sys ?k a)) = opened ?k - {a}" "live (snd (k_close sys ?k a)) = live ?k" using services_okD(3) [OF sys f1(2)] by auto
  have c2: "opened (close_pipe sys p ?k) = opened ?k - {a} - {b}" "live (close_pipe sys p ?k) = live ?k"
    using services_okD(3) [OF sys, of b "snd (k_close sys ?k a)"] f2(2) c1 p by (auto simp: close_pipe_def)
  define s1 where "s1 = s\<lparr>us_kernel := close_pipe sys p ?k\<rparr>"
  have u1: "user_ok opened live ?B s1" using user_ok_kernel [OF Cons(2) c2(2)] f2(1) c2(1) by (simp add: s1_def)
  have "close_pipes sys (p # ps) s = close_pipes sys ps s1" by (simp add: close_pipes_def s1_def)
  moreover have "drift s1 = drift s" "us_workers s1 = us_workers s" by (simp_all add: s1_def drift_def)
  ultimately show ?case using Cons(1) [OF u1 ab(4,5)] by simp
qed

lemma make_pipes_ok:
  assumes sys: "services_ok sys opened live"
  shows "user_ok opened live base s \<Longrightarrow> make_pipes sys n s = (good, ps, s') \<Longrightarrow>
    user_ok opened live (base \<union> set (pipe_fds ps)) s' \<and> distinct (pipe_fds ps) \<and> base \<inter> set (pipe_fds ps) = {} \<and> drift s' = drift s \<and>
    us_workers s' = us_workers s"
proof (induction n arbitrary: base s good ps s')
  case 0
  then show ?case by (simp add: pipe_fds_def)
next
  case (Suc n)
  let ?k = "us_kernel s"
  obtain r p k where r: "k_pipe2 sys ?k = (r, p, k)" by (metis prod.exhaust)
  obtain a b where p: "p = (a, b)" by (metis prod.exhaust)
  note pi = services_okD(7) [OF sys r [unfolded p]]
  show ?case
  proof (cases "r < 0")
    case True
    then have "ps = []" "us_workers s' = us_workers s" "us_kernel s' = k" "us_current s' = us_current s" using Suc(3) r by auto
    then show ?thesis using user_ok_kernel [OF Suc(2), of k base s'] Suc(2) pi True by (simp add: pipe_fds_def drift_def part_ok_def)
  next
    case False
    obtain c k2 where c: "k_pipe_size sys k b = (c, k2)" by (metis prod.exhaust)
    note sz = services_okD(4) [OF sys c]
    have o: "{a, b} \<inter> opened ?k = {}" "opened k2 = opened ?k \<union> {a, b}" "live k2 = live ?k" "a \<noteq> b" using pi False sz by auto
    have f: "fds_ok (base \<union> {a, b}) (us_workers s) (opened k2)" using fds_ok_more [OF _ o(1)] Suc(2) o(2) by (simp add: part_ok_def)
    have bs: "base \<subseteq> opened ?k" using Suc(2) by (auto simp: part_ok_def fds_ok_def)
    define s2 where "s2 = s\<lparr>us_kernel := k2\<rparr>"
    have u2: "user_ok opened live (base \<union> {a, b}) s2" using user_ok_kernel [OF Suc(2) o(3) f] by (simp add: s2_def)
    show ?thesis
    proof (cases "c < int LUNA_STDIO_IO_CHUNK")
      case True
      then have out: "ps = [(a, b)]" "us_workers s' = us_workers s2" "us_kernel s' = us_kernel s2" "us_current s' = us_current s2"
        using Suc(3) r p False c by (auto simp: s2_def)
      have "user_ok opened live (base \<union> {a, b}) s'" using part_ok_workers [OF u2 out(2,3)] .
      then show ?thesis using out o bs by (auto simp: pipe_fds_def drift_def s2_def)
    next
      case big: False
      obtain g qs s3 where m: "make_pipes sys n s2 = (g, qs, s3)" by (metis prod.exhaust)
      have out: "ps = (a, b) # qs" "s' = s3" using Suc(3) r p False c big m by (auto simp: s2_def)
      note IH = Suc(1) [OF u2 m]
      have un: "base \<union> {a, b} \<union> set (pipe_fds qs) = base \<union> set (pipe_fds ps)" using out by (auto simp: pipe_fds_def)
      show ?thesis using IH out o bs unfolding un by (auto simp: pipe_fds_def drift_def s2_def)
    qed
  qed
qed

text \<open>The workers a pipeline has started are used entries; an entry whose start failed is free and has no thread.\<close>

definition running :: "'k user_state \<Rightarrow> nat list \<Rightarrow> bool" where
  "running s ns \<longleftrightarrow> distinct ns \<and> (\<forall>n \<in> set ns. n < LUNA_STATIC_WORKERS \<and> w_in_use (us_workers s ! n))"

lemma start_workers_ok:
  assumes sys: "services_ok sys opened live"
  shows "user_ok opened live base s \<Longrightarrow> start_workers sys pipes i cs s = (good, ns, s') \<Longrightarrow>
    user_ok opened live base s' \<and> drift s' = drift s \<and> (\<forall>n. w_in_use (us_workers s ! n) \<longrightarrow> us_workers s' ! n = us_workers s ! n) \<and>
    (\<forall>n \<in> set ns. n < LUNA_STATIC_WORKERS \<and> \<not> w_in_use (us_workers s ! n)) \<and>
    (if good then running s' ns \<and> length ns = length cs
     else running s' ns \<or> (\<exists>started failed. ns = started @ [failed] \<and> running s' started \<and> failed \<notin> set started \<and>
       failed < LUNA_STATIC_WORKERS \<and> w_tid (us_workers s' ! failed) = 0 \<and> \<not> w_in_use (us_workers s' ! failed) \<and>
       (\<forall>j < 3. sw_fd_map (us_workers s' ! failed) j < 0)))"
proof (induction cs arbitrary: i s good ns s')
  case Nil
  then show ?case by (auto simp: running_def)
next
  case (Cons c cs)
  obtain r s1 where al: "task_static_allocate s = (r, s1)" by (metis prod.exhaust)
  show ?case
  proof (cases r)
    case None
    then have "s1 = s\<lparr>us_errno := EAGAIN\<rparr>" using allocate_ok [OF Cons(2) al] by simp
    then show ?thesis using Cons(2,3) al None by (auto simp: running_def drift_def part_ok_def)
  next
    case (Some n)
    define inp where "inp = (if i = 0 then 0 else fst (pipes ! (i - 1)))"
    define outp where "outp = (if cs = [] then 1 else snd (pipes ! i))"
    obtain pid s2 where st: "task_static_start sys n c inp outp 2 s1 = (pid, s2)" by (metis prod.exhaust)
    note la = launch_ok [OF sys Cons(2) al [unfolded Some] st]
    have keep: "w_in_use (us_workers s ! m) \<Longrightarrow> us_workers s2 ! m = us_workers s ! m" for m using la by (cases "m = n") (auto simp: only_entry_def)
    show ?thesis
    proof (cases "pid < 0")
      case True
      then have "good = False" "ns = [n]" "s' = s2" using Cons(3) al Some st by (auto simp: inp_def outp_def)
      moreover have "\<exists>started failed. [n] = started @ [failed] \<and> running s2 started \<and> failed \<notin> set started \<and>
         failed < LUNA_STATIC_WORKERS \<and> w_tid (us_workers s2 ! failed) = 0 \<and> \<not> w_in_use (us_workers s2 ! failed) \<and>
         (\<forall>j < 3. sw_fd_map (us_workers s2 ! failed) j < 0)"
        using la True by (intro exI [of _ "[]"] exI [of _ n]) (simp add: running_def)
      ultimately show ?thesis using la keep by simp
    next
      case False
      obtain g ms s3 where rest: "start_workers sys pipes (Suc i) cs s2 = (g, ms, s3)" by (metis prod.exhaust)
      have out: "good = g" "ns = n # ms" "s' = s3" using Cons(3) al Some st False rest by (auto simp: inp_def outp_def)
      have u2: "user_ok opened live base s2" and use2: "w_in_use (us_workers s2 ! n)" using la False by auto
      note IH = Cons(1) [OF u2 rest]
      have n3: "us_workers s3 ! n = us_workers s2 ! n" "n \<notin> set ms" using IH use2 by auto
      have new: "m < LUNA_STATIC_WORKERS \<and> \<not> w_in_use (us_workers s ! m)" if "m \<in> set ns" for m
        using that out IH la keep [of m] by auto
      have add: "running s3 xs \<Longrightarrow> n \<notin> set xs \<Longrightarrow> running s3 (n # xs)" for xs using la use2 n3 by (simp add: running_def)
      have last: "if g then running s3 (n # ms) \<and> length (n # ms) = length (c # cs)
        else running s3 (n # ms) \<or> (\<exists>started failed. n # ms = started @ [failed] \<and> running s3 started \<and> failed \<notin> set started \<and>
          failed < LUNA_STATIC_WORKERS \<and> w_tid (us_workers s3 ! failed) = 0 \<and> \<not> w_in_use (us_workers s3 ! failed) \<and>
          (\<forall>j < 3. sw_fd_map (us_workers s3 ! failed) j < 0))"
      proof (cases "running s3 ms")
        case True
        then show ?thesis using add [of ms] n3 IH by (auto split: if_splits)
      next
        case nr: False
        then obtain started failed where sf: "ms = started @ [failed]" "running s3 started" "failed \<notin> set started"
          "failed < LUNA_STATIC_WORKERS" "w_tid (us_workers s3 ! failed) = 0" "\<not> w_in_use (us_workers s3 ! failed)" "\<not> g"
          "\<forall>j < 3. sw_fd_map (us_workers s3 ! failed) j < 0"
          using IH by (auto split: if_splits)
        then have "running s3 (n # started)" "n # ms = (n # started) @ [failed]" "failed \<notin> set (n # started)" using add [of started] n3 by auto
        then show ?thesis unfolding if_not_P [OF sf(7)] using sf by blast
      qed
      then show ?thesis using IH la keep new out by (auto split: if_splits)
    qed
  qed
qed

lemma join_workers_ok:
  assumes sys: "services_ok sys opened live" and ap: "applets_ok applets"
  shows "user_ok opened live base s \<Longrightarrow> running s ns \<Longrightarrow> join_workers sys applets ns st s = (r, s') \<Longrightarrow>
    user_ok opened live base s' \<and> drift s' = drift s \<and> (ns \<noteq> [] \<longrightarrow> 0 \<le> r \<and> r < 256)"
proof (induction ns arbitrary: s st)
  case Nil
  then show ?case by simp
next
  case (Cons n ns)
  obtain code s1 where j: "task_static_join sys applets n s = (code, s1)" by (metis prod.exhaust)
  have n: "n < LUNA_STATIC_WORKERS" "w_in_use (us_workers s ! n)" using Cons(3) by (auto simp: running_def)
  note jo = join_ok [OF sys ap Cons(2) n j]
  have "running s1 ns" using Cons(3) jo by (auto simp: running_def only_entry_def)
  then have IH: "user_ok opened live base s' \<and> drift s' = drift s1 \<and> (ns \<noteq> [] \<longrightarrow> 0 \<le> r \<and> r < 256)"
    using Cons(1) [of s1 code] jo Cons(4) j by simp
  show ?case using IH jo Cons(4) j by (cases ns) auto
qed

lemma fail_workers_ok:
  assumes sys: "services_ok sys opened live" and ap: "applets_ok applets"
  shows "user_ok opened live base s \<Longrightarrow> running s ns \<Longrightarrow>
    user_ok opened live base (fold (fail_worker sys applets) ns s) \<and> drift (fold (fail_worker sys applets) ns s) = drift s \<and>
    (\<forall>m. m \<notin> set ns \<longrightarrow> us_workers (fold (fail_worker sys applets) ns s) ! m = us_workers s ! m)"
proof (induction ns arbitrary: s)
  case Nil
  then show ?case by simp
next
  case (Cons n ns)
  obtain code s1 where j: "task_static_join sys applets n s = (code, s1)" by (metis prod.exhaust)
  have n: "n < LUNA_STATIC_WORKERS" "w_in_use (us_workers s ! n)" using Cons(3) by (auto simp: running_def)
  note jo = join_ok [OF sys ap Cons(2) n j]
  have "w_tid (us_workers s ! n) \<noteq> 0" using Cons(2) n by (simp add: part_ok_def entry_wf_def)
  then have f: "fail_worker sys applets n s = s1" using j by (simp add: fail_worker_def)
  have r: "running s1 ns" using Cons(3) jo by (auto simp: running_def only_entry_def)
  have u: "user_ok opened live base s1" using jo by simp
  show ?case using Cons(1) [OF u r] jo f by (simp add: only_entry_def)
qed

lemma run_pipeline_ok:
  assumes sys: "services_ok sys opened live" and ap: "applets_ok applets" and ok: "user_ok opened live base s"
    and run: "luna_bb_run_pipeline sys applets cs s = (r, s')"
  shows "user_ok opened live base s' \<and> (drift s' = drift s \<or> r = -1 \<and> drift s' = drift s + 1) \<and> r < 256"
proof -
  consider (refused) "r = - EINVAL \<or> r = - ENOENT" "s' = s"
    | (go) "\<not> (length cs < 2 \<or> length cs > LUNA_STATIC_WORKERS)" "\<not> (\<exists>c \<in> set cs. c = [] \<or> \<not> task_static_command_allowed (hd c))"
    using run unfolding luna_bb_run_pipeline_def by (cases "length cs < 2 \<or> length cs > LUNA_STATIC_WORKERS"; cases "\<exists>c \<in> set cs. c = [] \<or> \<not> task_static_command_allowed (hd c)") auto
  then show ?thesis
  proof cases
    case refused
    then show ?thesis using ok by (auto simp: EINVAL_def ENOENT_def)
  next
    case go
    obtain g ps s1 where mp: "make_pipes sys (length cs - 1) s = (g, ps, s1)" by (metis prod.exhaust)
    note m = make_pipes_ok [OF sys ok mp]
    have u1: "user_ok opened live (base \<union> set (pipe_fds ps)) s1" and dp: "distinct (pipe_fds ps)" "base \<inter> set (pipe_fds ps) = {}" using m by auto
    show ?thesis
    proof (cases g)
      case False
      then have "r = -1" "s' = close_pipes sys ps s1" using run go mp by (auto simp: luna_bb_run_pipeline_def)
      then show ?thesis using close_pipes_ok [OF sys u1 dp] m by simp
    next
      case True
      obtain h ns s2 where sw: "start_workers sys ps 0 cs s1 = (h, ns, s2)" by (metis prod.exhaust)
      note st = start_workers_ok [OF sys u1 sw]
      have u2: "user_ok opened live (base \<union> set (pipe_fds ps)) s2" using st by simp
      show ?thesis
      proof (cases h)
        case started: True
        let ?t = "s2\<lparr>us_pipelines := us_pipelines s2 + 1\<rparr>"
        have ut: "user_ok opened live (base \<union> set (pipe_fds ps)) ?t" using part_ok_workers [OF u2, of ?t] by simp
        note cl = close_pipes_ok [OF sys ut dp]
        have rn: "running (close_pipes sys ps ?t) ns" "length ns = length cs" using st started cl by (auto simp: running_def)
        have j: "join_workers sys applets ns 0 (close_pipes sys ps ?t) = (r, s')"
          using run go mp True sw started by (simp add: luna_bb_run_pipeline_def)
        have "drift ?t = drift s2" by (simp add: drift_def)
        moreover have "ns \<noteq> []" using rn(2) go by (cases ns) auto
        ultimately show ?thesis using join_workers_ok [OF sys ap conjunct1 [OF cl] rn(1) j] cl st m by simp
      next
        case False
        let ?f = "fold (fail_worker sys applets) ns s2"
        have out: "r = -1" "s' = close_pipes sys ps ?f" using run go mp True sw False by (auto simp: luna_bb_run_pipeline_def)
        have "user_ok opened live (base \<union> set (pipe_fds ps)) ?f \<and> (drift ?f = drift s2 \<or> drift ?f = drift s2 + 1)"
        proof (cases "running s2 ns")
          case True
          then show ?thesis using fail_workers_ok [OF sys ap u2] by simp
        next
          case nr: False
          then obtain xs x where x: "ns = xs @ [x]" "running s2 xs" "x \<notin> set xs" "x < LUNA_STATIC_WORKERS" "w_tid (us_workers s2 ! x) = 0" "\<not> w_in_use (us_workers s2 ! x)"
            "\<forall>j < 3. sw_fd_map (us_workers s2 ! x) j < 0"
            using st False by (auto split: if_splits)
          note fw = fail_workers_ok [OF sys ap u2 x(2)]
          let ?g = "fold (fail_worker sys applets) xs s2"
          have gx: "us_workers ?g ! x = us_workers s2 ! x" using fw x(3) by simp
          then have "?f = task_static_release sys x ?g" using x by (simp add: fail_worker_def)
          also have "\<dots> = ?g\<lparr>us_current := us_current ?g - 1\<rparr>"
            by (rule release_free [OF conjunct1 [OF fw] x(4)]) (use gx x(6,7) in simp_all)
          finally show ?thesis using fw part_ok_workers [OF conjunct1 [OF fw], of ?f] by (simp add: drift_def)
        qed
        then show ?thesis using out close_pipes_ok [OF sys _ dp, of ?f] st m by auto
      qed
    qed
  qed
qed

section \<open>The argument vector\<close>

text \<open>The strings \<open>as\<close> lie at the offsets \<open>ps\<close>, each with its terminator, below \<open>used\<close>.\<close>

definition stored :: "(nat \<Rightarrow> char) \<Rightarrow> nat \<Rightarrow> nat list \<Rightarrow> string list \<Rightarrow> bool" where
  "stored d used ps as \<longleftrightarrow> list_all2 (\<lambda>p a. p + length a < used \<and> slice d p (length a + 1) = a @ [CHR 0x00]) ps as"

definition argument_bytes :: "string list \<Rightarrow> nat" where
  "argument_bytes argv = sum_list (map (\<lambda>a. length a + 1) argv)"

definition args_fit :: "string list \<Rightarrow> bool" where
  "args_fit argv \<longleftrightarrow> argv \<noteq> [] \<and> length argv \<le> LUNA_STATIC_ARGC_MAX \<and> argument_bytes argv \<le> LUNA_STATIC_ARG_BYTES"

lemma stored_add:
  assumes "stored d used ps as"
  shows "stored (memcpy_at d used (\<lambda>j. (a @ [CHR 0x00]) ! j) 0 (length a + 1)) (used + (length a + 1)) (ps @ [used]) (as @ [a])"
proof -
  let ?d = "memcpy_at d used (\<lambda>j. (a @ [CHR 0x00]) ! j) 0 (length a + 1)"
  have new: "slice ?d used (length a + 1) = a @ [CHR 0x00]"
    by (rule nth_equalityI) (auto simp: memcpy_at_def)
  have "list_all2 (\<lambda>p a'. p + length a' < used + (length a + 1) \<and> slice ?d p (length a' + 1) = a' @ [CHR 0x00]) ps as"
    using assms unfolding stored_def by (rule list_all2_mono) (auto simp: slice_memcpy_other)
  then show ?thesis using new by (simp add: stored_def list_all2_appendI)
qed

lemma copy_arguments_spec:
  assumes "stored (w_data w) used (w_argv w) xs" "used \<le> LUNA_STATIC_ARG_BYTES" "length xs \<le> LUNA_STATIC_ARGC_MAX" "copy_arguments args used w = (r, w')"
  shows "(\<forall>p \<ge> LUNA_STATIC_ARG_BYTES. w_data w' p = w_data w p) \<and>
    (if length xs + length args \<le> LUNA_STATIC_ARGC_MAX \<and> used + argument_bytes args \<le> LUNA_STATIC_ARG_BYTES
     then r = (if xs @ args = [] then - EINVAL else 0) \<and> stored (w_data w') (used + argument_bytes args) (w_argv w') (xs @ args)
     else r = - E2BIG)"
  using assms
proof (induction args arbitrary: used w xs)
  case Nil
  then show ?case by (auto simp: argument_bytes_def stored_def)
next
  case (Cons a args)
  have len: "length (w_argv w) = length xs" using Cons(2) by (auto simp: stored_def list_all2_lengthD)
  show ?case
  proof (cases "length (w_argv w) \<ge> LUNA_STATIC_ARGC_MAX \<or> used + (length a + 1) > LUNA_STATIC_ARG_BYTES")
    case True
    then have "r = - E2BIG" "w' = w" using Cons(5) by (auto split: if_splits)
    then show ?thesis using True len by (auto simp: argument_bytes_def)
  next
    case False
    let ?d = "memcpy_at (w_data w) used (\<lambda>j. (a @ [CHR 0x00]) ! j) 0 (length a + 1)"
    let ?w = "w\<lparr>w_argv := w_argv w @ [used], w_data := ?d\<rparr>"
    have run: "copy_arguments args (used + (length a + 1)) ?w = (r, w')" using Cons(5) False by simp
    have st: "stored (w_data ?w) (used + (length a + 1)) (w_argv ?w) (xs @ [a])" using stored_add [OF Cons(2), of a] by simp
    have IH: "(\<forall>p \<ge> LUNA_STATIC_ARG_BYTES. w_data w' p = w_data ?w p) \<and>
      (if length (xs @ [a]) + length args \<le> LUNA_STATIC_ARGC_MAX \<and> used + (length a + 1) + argument_bytes args \<le> LUNA_STATIC_ARG_BYTES
       then r = (if (xs @ [a]) @ args = [] then - EINVAL else 0) \<and> stored (w_data w') (used + (length a + 1) + argument_bytes args) (w_argv w') ((xs @ [a]) @ args)
       else r = - E2BIG)"
      by (rule Cons(1) [OF st _ _ run]) (use False len in auto)
    have "\<forall>p \<ge> LUNA_STATIC_ARG_BYTES. ?d p = w_data w p" using False by (auto simp: memcpy_at_def)
    then show ?thesis using IH by (auto simp: argument_bytes_def add.assoc)
  qed
qed

lemma string_prefix: "z \<notin> set a \<Longrightarrow> takeWhile (\<lambda>c. c \<noteq> z) (a @ z # b) = a"
  by (induction a) auto

lemma stored_arguments:
  assumes "stored (w_data w) used (w_argv w) as" "used \<le> LUNA_STATIC_ARG_BYTES" "\<forall>a \<in> set as. CHR 0x00 \<notin> set a"
  shows "arguments w = as"
proof -
  have one: "argument_at w p = a" if "p + length a < used" "slice (w_data w) p (length a + 1) = a @ [CHR 0x00]" "CHR 0x00 \<notin> set a" for p a
  proof -
    have "length a + 1 \<le> LUNA_STATIC_ARG_BYTES - p" using that(1) assms(2) by linarith
    then obtain m where m: "LUNA_STATIC_ARG_BYTES - p = (length a + 1) + m" using le_Suc_ex by blast
    have "slice (w_data w) p (LUNA_STATIC_ARG_BYTES - p) = (a @ [CHR 0x00]) @ slice (w_data w) (p + (length a + 1)) m"
      using slice_append [of "w_data w" p "length a + 1" m] that(2) m by (simp only:)
    then show ?thesis using that(3) unfolding argument_at_def by (simp add: string_prefix)
  qed
  have "list_all2 (\<lambda>p a. argument_at w p = a) (w_argv w) as"
    using assms(1,3) unfolding stored_def by (auto simp: list_all2_conv_all_nth intro!: one)
  then show ?thesis by (auto simp: arguments_def list_all2_conv_all_nth intro: nth_equalityI)
qed

text \<open>
  C29: Copying an argument vector into a worker succeeds exactly for the vectors with between one and sixteen strings
  whose bytes, terminators included, fit into 1024; then reading the worker's pointers gives back the same strings. Otherwise
  the result is an error, and in no case is a byte outside the argument data written.
\<close>
theorem copy_argv_roundtrip:
  assumes "\<forall>a \<in> set argv. CHR 0x00 \<notin> set a" "task_static_copy_argv argv w = (r, w')"
  shows "(r = 0 \<longleftrightarrow> args_fit argv) \<and> (r \<noteq> 0 \<longrightarrow> r < 0) \<and> (r = 0 \<longrightarrow> arguments w' = argv) \<and>
    (\<forall>p \<ge> LUNA_STATIC_ARG_BYTES. w_data w' p = w_data w p)"
proof -
  have st: "stored (w_data (w\<lparr>w_argv := []\<rparr>)) 0 (w_argv (w\<lparr>w_argv := []\<rparr>)) []" by (simp add: stored_def)
  have run: "copy_arguments argv 0 (w\<lparr>w_argv := []\<rparr>) = (r, w')" using assms(2) by (simp add: task_static_copy_argv_def)
  note sp = copy_arguments_spec [OF st _ _ run]
  show ?thesis
  proof (cases "length argv \<le> LUNA_STATIC_ARGC_MAX \<and> argument_bytes argv \<le> LUNA_STATIC_ARG_BYTES")
    case True
    then have "stored (w_data w') (argument_bytes argv) (w_argv w') argv" using sp by simp
    then have "arguments w' = argv" using stored_arguments assms(1) True by blast
    then show ?thesis using sp True by (auto simp: args_fit_def EINVAL_def)
  next
    case False
    then show ?thesis using sp by (auto simp: args_fit_def E2BIG_def)
  qed
qed

theorem copy_argv_roundtrip_witness:
  "fst (task_static_copy_argv [''cat'', ''x''] (undefined\<lparr>w_data := (\<lambda>i. CHR ''z'')\<rparr>)) = 0 \<and>
   arguments (snd (task_static_copy_argv [''cat'', ''x''] (undefined\<lparr>w_data := (\<lambda>i. CHR ''z'')\<rparr>))) = [''cat'', ''x'']"
proof -
  let ?r = "task_static_copy_argv [''cat'', ''x''] (undefined\<lparr>w_data := (\<lambda>i. CHR ''z'')\<rparr>)"
  have "args_fit [''cat'', ''x'']" by (simp add: args_fit_def argument_bytes_def luna_consts)
  then show ?thesis using copy_argv_roundtrip [of "[''cat'', ''x'']" "undefined\<lparr>w_data := (\<lambda>i. CHR ''z'')\<rparr>" "fst ?r" "snd ?r"] by simp
qed

section \<open>Exit codes\<close>

definition exit_code :: "applets \<Rightarrow> string list \<Rightarrow> int" where
  "exit_code applets argv = (case applets argv of None \<Rightarrow> 127 | Some (calls, code) \<Rightarrow> code mod 256)"

lemma run_worker_status:
  assumes "i < length (us_workers s)" "w_in_use (us_workers s ! i)" "\<not> w_done (us_workers s ! i)"
  shows "w_status (us_workers (run_worker sys applets i s) ! i) mod 256 = exit_code applets (arguments (us_workers s ! i))"
proof -
  let ?w = "us_workers s ! i"
  obtain w1 k1 where r: "run_applet sys applets (?w, us_kernel s) = (w1, k1)" by (metis prod.exhaust)
  obtain w k where c: "close_all_std sys (w1, k1) = (w, k)" by (metis prod.exhaust)
  have st: "w_status (fst (close_std sys j (v, k))) = w_status v" for j v k by (simp add: close_std_def set_fd_def)
  have "w_status w = w_status w1"
    using c st by (simp add: close_all_std_def eval_nat_numeral) (metis fst_conv prod.collapse)
  moreover have "w_status w1 mod 256 = exit_code applets (arguments ?w)"
    using r by (auto simp: run_applet_def exit_code_def Let_def split: option.splits prod.splits)
  ultimately show ?thesis using assms r c by (simp add: run_worker_def task_static_worker_def)
qed

lemma dup_std_frame: "dup_std sys l w k = (e, w', k') \<Longrightarrow> \<exists>m. w' = w\<lparr>sw_fd_map := m\<rparr>"
proof (induction l arbitrary: w k)
  case Nil
  then show ?case by (auto intro: exI [of _ "sw_fd_map w"])
next
  case (Cons p l)
  obtain fd source where p: "p = (fd, source)" by (metis prod.exhaust)
  obtain d k1 where d: "k_dup sys k source = (d, k1)" by (metis prod.exhaust)
  show ?case
  proof (cases "d < 0")
    case True
    then show ?thesis using Cons(2) p d by (auto intro: exI [of _ "sw_fd_map w"])
  next
    case False
    then show ?thesis using Cons(1) [of "set_fd fd d w" k1] Cons(2) p d by (auto simp: set_fd_def)
  qed
qed

lemma start_arguments:
  assumes i: "i < length (us_workers s)" and nul: "\<forall>a \<in> set argv. CHR 0x00 \<notin> set a" and run: "task_static_start sys i argv x y z s = (pid, s')" and pid: "pid \<ge> 0"
  shows "arguments (us_workers s' ! i) = argv \<and> args_fit argv \<and> task_static_command_allowed (hd argv)"
proof -
  obtain r w where cp: "task_static_copy_argv argv (us_workers s ! i) = (r, w)" by (metis prod.exhaust)
  obtain e w2 k2 where d: "dup_std sys [(0, x), (1, y), (2, z)] w (us_kernel s) = (e, w2, k2)" by (metis prod.exhaust)
  obtain tid k3 where t: "k_create sys k2 = (tid, k3)" by (metis prod.exhaust)
  obtain m where m: "w2 = w\<lparr>sw_fd_map := m\<rparr>" using dup_std_frame [OF d] by blast
  have go: "r \<ge> 0" "task_static_command_allowed (argument_at w (hd (w_argv w)))" "us_workers s' ! i = w2\<lparr>w_tid := tid\<rparr>"
    using run pid cp d t i by (auto simp: task_static_start_def update_worker_def ENOENT_def EAGAIN_def Let_def simp del: dup_std.simps split: if_splits)
  have fit: "args_fit argv" "arguments w = argv"
    using stored_arguments copy_arguments_spec [of "(us_workers s ! i)\<lparr>w_argv := []\<rparr>" 0 "[]" argv r w] cp go(1) nul
    by (auto simp: task_static_copy_argv_def stored_def args_fit_def EINVAL_def E2BIG_def split: if_splits)
  have "hd argv = argument_at w (hd (w_argv w))" using fit by (cases "w_argv w") (auto simp: arguments_def args_fit_def)
  moreover have "arguments (us_workers s' ! i) = arguments w" using go m by (simp add: arguments_def argument_at_def)
  ultimately show ?thesis using fit go by simp
qed

lemma start_workers_arguments:
  assumes sys: "services_ok sys opened live"
  shows "user_ok opened live base s \<Longrightarrow> \<forall>c \<in> set cs. \<forall>a \<in> set c. CHR 0x00 \<notin> set a \<Longrightarrow> start_workers sys pipes i cs s = (True, ns, s') \<Longrightarrow>
    list_all2 (\<lambda>n c. arguments (us_workers s' ! n) = c \<and> \<not> w_done (us_workers s' ! n)) ns cs"
proof (induction cs arbitrary: i s ns s')
  case Nil
  then show ?case by simp
next
  case (Cons c cs)
  obtain n s1 where al: "task_static_allocate s = (Some n, s1)"
    using Cons(4) by (cases "task_static_allocate s") (auto split: option.splits)
  define inp where "inp = (if i = 0 then 0 else fst (pipes ! (i - 1)))"
  define outp where "outp = (if cs = [] then 1 else snd (pipes ! i))"
  obtain pid s2 where st: "task_static_start sys n c inp outp 2 s1 = (pid, s2)" by (metis prod.exhaust)
  obtain g ms s3 where rest: "start_workers sys pipes (Suc i) cs s2 = (g, ms, s3)" by (metis prod.exhaust)
  have pos: "pid \<ge> 0" and out: "g" "ns = n # ms" "s' = s3"
    using Cons(4) al st rest by (auto simp: inp_def outp_def split: if_splits)
  note la = launch_ok [OF sys Cons(2) al st]
  have il: "n < length (us_workers s1)" using allocate_ok [OF Cons(2) al] by (simp add: part_ok_def)
  have args: "arguments (us_workers s2 ! n) = c" using start_arguments [OF il _ st pos] Cons(3) by simp
  have u2: "user_ok opened live base s2" and use2: "w_in_use (us_workers s2 ! n)" "\<not> w_done (us_workers s2 ! n)" using la pos by auto
  have "us_workers s3 ! n = us_workers s2 ! n" using start_workers_ok [OF sys u2 rest] use2 by simp
  then show ?case using Cons(1) [OF u2 _ rest [unfolded eqTrueI [OF out(1)]]] Cons(3) out args use2 by simp
qed

lemma join_workers_code:
  assumes sys: "services_ok sys opened live" and ap: "applets_ok applets"
  shows "user_ok opened live base s \<Longrightarrow> running s ns \<Longrightarrow> list_all2 (\<lambda>n c. arguments (us_workers s ! n) = c \<and> \<not> w_done (us_workers s ! n)) ns cs \<Longrightarrow>
    ns \<noteq> [] \<Longrightarrow> fst (join_workers sys applets ns st s) = exit_code applets (last cs)"
proof (induction ns arbitrary: s st cs)
  case Nil
  then show ?case by simp
next
  case (Cons n ns)
  obtain c ds where cs: "cs = c # ds" using Cons(4) by (cases cs) auto
  obtain code s1 where j: "task_static_join sys applets n s = (code, s1)" by (metis prod.exhaust)
  have n: "n < LUNA_STATIC_WORKERS" "w_in_use (us_workers s ! n)" using Cons(3) by (auto simp: running_def)
  note jo = join_ok [OF sys ap Cons(2) n j]
  have il: "n < length (us_workers s)" using Cons(2) n by (simp add: part_ok_def)
  have code: "code = exit_code applets c" using jo run_worker_status [OF il n(2)] Cons(4) cs by simp
  show ?case
  proof (cases "ns = []")
    case True
    then show ?thesis using j code cs Cons(4) by simp
  next
    case False
    have same: "us_workers s1 ! m = us_workers s ! m" if "m \<in> set ns" for m using jo Cons(3) that by (auto simp: only_entry_def running_def)
    have r: "running s1 ns" using Cons(3) same by (auto simp: running_def)
    have l: "list_all2 (\<lambda>n c. arguments (us_workers s1 ! n) = c \<and> \<not> w_done (us_workers s1 ! n)) ns ds"
    proof -
      have "list_all2 (\<lambda>n c. arguments (us_workers s ! n) = c \<and> \<not> w_done (us_workers s ! n)) ns ds" using Cons(4) cs by simp
      then show ?thesis using same by (auto simp: list_all2_conv_all_nth)
    qed
    have "ds \<noteq> []" using l False by auto
    then show ?thesis using Cons(1) [OF _ r l False, of code] jo j cs by simp
  qed
qed

text \<open>A kernel that neither runs out of descriptors nor of threads, with pipes of the size asked for.\<close>

definition generous :: "'k services \<Rightarrow> bool" where
  "generous sys \<longleftrightarrow> (\<forall>k fd. fst (k_dup sys k fd) \<ge> 0) \<and> (\<forall>k. fst (k_create sys k) \<noteq> 0) \<and> (\<forall>k. fst (k_pipe2 sys k) \<ge> 0) \<and>
     (\<forall>k fd. fst (k_pipe_size sys k fd) \<ge> int LUNA_STDIO_IO_CHUNK)"

lemma generous_dup_std: "generous sys \<Longrightarrow> fst (dup_std sys l w k) = 0"
proof (induction l arbitrary: w k)
  case (Cons p l)
  obtain d k1 where "k_dup sys k (snd p) = (d, k1)" by (metis prod.exhaust)
  moreover have "d \<ge> 0" using Cons(2) calculation unfolding generous_def by (metis fst_conv)
  ultimately show ?case using Cons by (cases p) simp
qed simp

lemma generous_start:
  assumes gen: "generous sys" and i: "i < length (us_workers s)" and fit: "args_fit argv" "task_static_command_allowed (hd argv)"
    and nul: "\<forall>a \<in> set argv. CHR 0x00 \<notin> set a"
  shows "fst (task_static_start sys i argv x y z s) > 0"
proof -
  obtain r w where cp: "task_static_copy_argv argv (us_workers s ! i) = (r, w)" by (metis prod.exhaust)
  obtain e w2 k2 where d: "dup_std sys [(0, x), (1, y), (2, z)] w (us_kernel s) = (e, w2, k2)" by (metis prod.exhaust)
  obtain tid k3 where t: "k_create sys k2 = (tid, k3)" by (metis prod.exhaust)
  have "e = 0" using generous_dup_std [OF gen, of "[(0, x), (1, y), (2, z)]" w "us_kernel s"] d by (simp del: dup_std.simps)
  moreover have "tid \<noteq> 0" using gen t unfolding generous_def by (metis fst_conv)
  moreover have fits: "r = 0" "arguments w = argv"
    using stored_arguments copy_arguments_spec [of "(us_workers s ! i)\<lparr>w_argv := []\<rparr>" 0 "[]" argv r w] cp nul fit
    by (auto simp: task_static_copy_argv_def stored_def args_fit_def)
  moreover have "argument_at w (hd (w_argv w)) = hd argv" using fits fit(1) by (cases "w_argv w") (auto simp: arguments_def args_fit_def)
  ultimately show ?thesis using cp d t fit(2) by (simp add: task_static_start_def Let_def del: dup_std.simps)
qed

lemma generous_make_pipes: "generous sys \<Longrightarrow> fst (make_pipes sys n s)"
proof (induction n arbitrary: s)
  case (Suc n)
  obtain r p k where r: "k_pipe2 sys (us_kernel s) = (r, p, k)" by (metis prod.exhaust)
  obtain c k2 where c: "k_pipe_size sys k (snd p) = (c, k2)" by (metis prod.exhaust)
  have "r \<ge> 0" "c \<ge> int LUNA_STDIO_IO_CHUNK" using Suc(2) r c unfolding generous_def by (metis fst_conv)+
  then show ?case using Suc r c by (simp add: case_prod_beta Let_def)
qed simp

lemma active_free: "length ws = LUNA_STATIC_WORKERS \<Longrightarrow> active ws < LUNA_STATIC_WORKERS \<Longrightarrow> \<exists>i < LUNA_STATIC_WORKERS. \<not> w_in_use (ws ! i)"
  unfolding active_def by (metis filter_True in_set_conv_nth nat_neq_iff)

lemma active_launch:
  assumes "length (us_workers s) = LUNA_STATIC_WORKERS" "length (us_workers s') = LUNA_STATIC_WORKERS" "only_entry n s s'" "n < LUNA_STATIC_WORKERS"
    "\<not> w_in_use (us_workers s ! n)" "w_in_use (us_workers s' ! n)"
  shows "active (us_workers s') = Suc (active (us_workers s))"
proof -
  have "us_workers s' = (us_workers s)[n := us_workers s' ! n]"
    using assms by (intro nth_equalityI) (auto simp: only_entry_def nth_list_update)
  then show ?thesis using active_update [of n "us_workers s" "us_workers s' ! n"] assms by simp
qed

lemma generous_start_workers:
  assumes sys: "services_ok sys opened live" and gen: "generous sys"
  shows "user_ok opened live base s \<Longrightarrow> active (us_workers s) + length cs \<le> LUNA_STATIC_WORKERS \<Longrightarrow>
    \<forall>c \<in> set cs. args_fit c \<and> task_static_command_allowed (hd c) \<and> (\<forall>a \<in> set c. CHR 0x00 \<notin> set a) \<Longrightarrow> fst (start_workers sys pipes i cs s)"
proof (induction cs arbitrary: i s)
  case (Cons c cs)
  obtain r s1 where al: "task_static_allocate s = (r, s1)" by (metis prod.exhaust)
  have "length (us_workers s) = LUNA_STATIC_WORKERS" using Cons(2) by (simp add: part_ok_def)
  then obtain n where n: "r = Some n" using active_free [of "us_workers s"] allocate_ok [OF Cons(2) al] Cons(3) by (cases r) auto
  define inp where "inp = (if i = 0 then 0 else fst (pipes ! (i - 1)))"
  define outp where "outp = (if cs = [] then 1 else snd (pipes ! i))"
  obtain pid s2 where st: "task_static_start sys n c inp outp 2 s1 = (pid, s2)" by (metis prod.exhaust)
  have il: "n < length (us_workers s1)" using allocate_ok [OF Cons(2) al] n by (simp add: part_ok_def)
  have pid: "pid > 0" using generous_start [OF gen il, of c inp outp 2] Cons(4) st by simp
  note la = launch_ok [OF sys Cons(2) al [unfolded n] st]
  have u2: "user_ok opened live base s2" using la by simp
  have "active (us_workers s2) = Suc (active (us_workers s))"
    by (rule active_launch) (use la pid Cons(2) u2 in \<open>auto simp: part_ok_def\<close>)
  then have "fst (start_workers sys pipes (Suc i) cs s2)" using Cons(1) [OF u2] Cons(3,4) by simp
  then show ?case using al n st pid by (simp add: inp_def outp_def case_prod_beta)
qed simp

lemma run_static_result:
  assumes sys: "services_ok sys opened live" "generous sys" and ap: "applets_ok applets" and ok: "user_ok opened live base s"
    and fit: "active (us_workers s) < LUNA_STATIC_WORKERS" "args_fit argv" "\<forall>a \<in> set argv. CHR 0x00 \<notin> set a"
  shows "fst (luna_bb_run_static sys applets argv s) = (if task_static_command_allowed (hd argv) then exit_code applets argv else - ENOENT)"
proof -
  obtain r s1 where al: "task_static_allocate s = (r, s1)" by (metis prod.exhaust)
  have "length (us_workers s) = LUNA_STATIC_WORKERS" using ok by (simp add: part_ok_def)
  then obtain n where n: "r = Some n" using active_free [of "us_workers s"] allocate_ok [OF ok al] fit by (cases r) auto
  obtain pid s2 where st: "task_static_start sys n argv 0 1 2 s1 = (pid, s2)" by (metis prod.exhaust)
  have il: "n < length (us_workers s1)" using allocate_ok [OF ok al] n by (simp add: part_ok_def)
  note la = launch_ok [OF sys(1) ok al [unfolded n] st]
  show ?thesis
  proof (cases "task_static_command_allowed (hd argv)")
    case True
    have pid: "pid > 0" using generous_start [OF sys(2) il, of argv 0 1 2] fit True st by simp
    have args: "arguments (us_workers s2 ! n) = argv" using start_arguments [OF il _ st] fit pid by simp
    have u2: "user_ok opened live base s2" and use: "n < LUNA_STATIC_WORKERS" "w_in_use (us_workers s2 ! n)" "\<not> w_done (us_workers s2 ! n)"
      using la pid by auto
    obtain code s3 where j: "task_static_join sys applets n s2 = (code, s3)" by (metis prod.exhaust)
    have "n < length (us_workers s2)" using u2 use by (simp add: part_ok_def)
    then have "code = exit_code applets argv" using join_ok [OF sys(1) ap u2 use(1,2) j] run_worker_status [OF _ use(2,3)] args by simp
    then show ?thesis using al n st j pid True by (simp add: luna_bb_run_static_def)
  next
    case False
    obtain res w where cp: "task_static_copy_argv argv (us_workers s1 ! n) = (res, w)" by (metis prod.exhaust)
    have fits: "res = 0" "arguments w = argv"
      using stored_arguments copy_arguments_spec [of "(us_workers s1 ! n)\<lparr>w_argv := []\<rparr>" 0 "[]" argv res w] cp fit
      by (auto simp: task_static_copy_argv_def stored_def args_fit_def)
    have "argument_at w (hd (w_argv w)) = hd argv" using fits fit by (cases "w_argv w") (auto simp: arguments_def args_fit_def)
    then have "pid = - ENOENT" using st cp fits False by (simp add: task_static_start_def Let_def del: dup_std.simps)
    then show ?thesis using al n st False by (simp add: luna_bb_run_static_def ENOENT_def)
  qed
qed

lemma run_pipeline_result:
  assumes sys: "services_ok sys opened live" "generous sys" and ap: "applets_ok applets" and ok: "user_ok opened live base s"
    and small: "2 \<le> length cs" "active (us_workers s) + length cs \<le> LUNA_STATIC_WORKERS"
      "\<forall>c \<in> set cs. args_fit c \<and> task_static_command_allowed (hd c) \<and> (\<forall>a \<in> set c. CHR 0x00 \<notin> set a)"
  shows "fst (luna_bb_run_pipeline sys applets cs s) = exit_code applets (last cs)"
proof -
  obtain g ps s1 where mp: "make_pipes sys (length cs - 1) s = (g, ps, s1)" by (metis prod.exhaust)
  have g: "g" using generous_make_pipes [OF sys(2), of "length cs - 1" s] mp by simp
  note m = make_pipes_ok [OF sys(1) ok mp]
  have u1: "user_ok opened live (base \<union> set (pipe_fds ps)) s1" and dp: "distinct (pipe_fds ps)" "base \<inter> set (pipe_fds ps) = {}" using m by auto
  obtain h ns s2 where sw: "start_workers sys ps 0 cs s1 = (h, ns, s2)" by (metis prod.exhaust)
  have h: "h" using generous_start_workers [OF sys u1, of cs ps 0] sw small m by auto
  have swT: "start_workers sys ps 0 cs s1 = (True, ns, s2)" using sw h by simp
  note st = start_workers_ok [OF sys(1) u1 swT]
  let ?t = "s2\<lparr>us_pipelines := us_pipelines s2 + 1\<rparr>"
  have ut: "user_ok opened live (base \<union> set (pipe_fds ps)) ?t" using part_ok_workers [OF conjunct1 [OF st], of ?t] by simp
  note cl = close_pipes_ok [OF sys(1) ut dp]
  have rn: "running (close_pipes sys ps ?t) ns" "length ns = length cs" using st cl by (auto simp: running_def)
  have "list_all2 (\<lambda>n c. arguments (us_workers s2 ! n) = c \<and> \<not> w_done (us_workers s2 ! n)) ns cs"
    by (rule start_workers_arguments [OF sys(1) u1 _ swT]) (use small in blast)
  then have la: "list_all2 (\<lambda>n c. arguments (us_workers (close_pipes sys ps ?t) ! n) = c \<and> \<not> w_done (us_workers (close_pipes sys ps ?t) ! n)) ns cs"
    using cl by simp
  have ne: "ns \<noteq> []" using rn(2) small by (cases ns) auto
  have "fst (join_workers sys applets ns 0 (close_pipes sys ps ?t)) = exit_code applets (last cs)"
    by (rule join_workers_code [OF sys(1) ap conjunct1 [OF cl] rn(1) la ne])
  moreover have "\<forall>c \<in> set cs. c \<noteq> []" using small by (auto simp: args_fit_def)
  ultimately show ?thesis using mp g swT small by (auto simp: luna_bb_run_pipeline_def)
qed

text \<open>
  C27: With a kernel that has descriptors and threads left, running a command in a static worker returns what its applet
  returned, modulo 256 (127 when there is no such applet), or \<open>-ENOENT\<close> for a command that may not be run; a pipeline with at
  most as many commands as workers are free returns the exit code of its last command.
\<close>
theorem static_results:
  assumes sys: "services_ok sys opened live" "generous sys" and ap: "applets_ok applets" and ok: "user_ok opened live base s"
  shows "(\<forall>argv. active (us_workers s) < LUNA_STATIC_WORKERS \<and> args_fit argv \<and> (\<forall>a \<in> set argv. CHR 0x00 \<notin> set a) \<longrightarrow>
      fst (luna_bb_run_static sys applets argv s) = (if task_static_command_allowed (hd argv) then exit_code applets argv else - ENOENT)) \<and>
    (\<forall>cs. 2 \<le> length cs \<and> active (us_workers s) + length cs \<le> LUNA_STATIC_WORKERS \<and>
       (\<forall>c \<in> set cs. args_fit c \<and> task_static_command_allowed (hd c) \<and> (\<forall>a \<in> set c. CHR 0x00 \<notin> set a)) \<longrightarrow>
      fst (luna_bb_run_pipeline sys applets cs s) = exit_code applets (last cs))"
  using run_static_result [OF assms] run_pipeline_result [OF assms] by blast

section \<open>Any sequence of calls\<close>

lemma run_static_ok:
  assumes sys: "services_ok sys opened live" and ap: "applets_ok applets" and ok: "user_ok opened live base s"
    and run: "luna_bb_run_static sys applets argv s = (r, s')"
  shows "user_ok opened live base s' \<and> drift s' = drift s"
proof -
  obtain x s1 where al: "task_static_allocate s = (x, s1)" by (metis prod.exhaust)
  show ?thesis
  proof (cases x)
    case None
    then have "s' = s\<lparr>us_errno := EAGAIN\<rparr>" using allocate_ok [OF ok al] run al by (simp add: luna_bb_run_static_def)
    then show ?thesis using part_ok_workers [OF ok, of s'] by (simp add: drift_def)
  next
    case (Some i)
    obtain pid s2 where st: "task_static_start sys i argv 0 1 2 s1 = (pid, s2)" by (metis prod.exhaust)
    note la = launch_ok [OF sys ok al [unfolded Some] st]
    show ?thesis
    proof (cases "pid < 0")
      case True
      then have "s' = s2" using run al Some st by (auto simp: luna_bb_run_static_def)
      then show ?thesis using la by simp
    next
      case False
      then have j: "task_static_join sys applets i s2 = (r, s')" using run al Some st by (simp add: luna_bb_run_static_def)
      have u: "user_ok opened live base s2" "i < LUNA_STATIC_WORKERS" "w_in_use (us_workers s2 ! i)" using la False by auto
      show ?thesis using join_ok [OF sys ap u j] la by simp
    qed
  qed
qed

lemma spawn_static_ok:
  assumes sys: "services_ok sys opened live" and ok: "user_ok opened live base s" and run: "luna_bb_spawn_static sys argv s = (r, s')"
  shows "user_ok opened live base s' \<and> drift s' = drift s"
proof -
  obtain x s1 where al: "task_static_allocate s = (x, s1)" by (metis prod.exhaust)
  show ?thesis
  proof (cases x)
    case None
    then have "s' = s\<lparr>us_errno := EAGAIN\<rparr>" using allocate_ok [OF ok al] run al by (simp add: luna_bb_spawn_static_def)
    then show ?thesis using part_ok_workers [OF ok, of s'] by (simp add: drift_def)
  next
    case (Some i)
    obtain pid s2 where st: "task_static_start sys i argv 0 1 2 s1 = (pid, s2)" by (metis prod.exhaust)
    note la = launch_ok [OF sys ok al [unfolded Some] st]
    have "us_workers s' = us_workers s2" "us_kernel s' = us_kernel s2" "us_current s' = us_current s2"
      using run al Some st by (auto simp: luna_bb_spawn_static_def)
    then show ?thesis using la part_ok_workers [of opened live base "{}" s2 s'] by (simp add: drift_def)
  qed
qed

lemma wait_now:
  assumes sys: "services_ok sys opened live" and ap: "applets_ok applets" and ok: "user_ok opened live base s"
    and run: "luna_bb_waitpid sys applets pid nohang [] s = Some (r, st, s')"
  shows "user_ok opened live base s' \<and> drift s' = drift s"
proof (cases "find (\<lambda>i. wait_matches pid (us_workers s ! i) \<and> w_done (us_workers s ! i)) [0..<LUNA_STATIC_WORKERS]")
  case None
  then have "us_workers s' = us_workers s" "us_kernel s' = us_kernel s" "us_current s' = us_current s"
    using run by (auto simp: luna_bb_waitpid.simps split: if_splits)
  then show ?thesis using part_ok_workers [OF ok, of s'] by (simp add: drift_def)
next
  case (Some i)
  then have i: "i < LUNA_STATIC_WORKERS" "wait_matches pid (us_workers s ! i)" by (auto simp: find_Some_iff)
  obtain code s1 where j: "task_static_join sys applets i s = (code, s1)" by (metis prod.exhaust)
  note jo = join_ok [OF sys ap ok i(1) _ j]
  have "us_workers s' = us_workers s1" "us_kernel s' = us_kernel s1" "us_current s' = us_current s1"
    using run Some j by (auto simp: luna_bb_waitpid.simps split: if_splits)
  then show ?thesis using jo i(2) part_ok_workers [of opened live base "{}" s1 s'] by (simp add: drift_def wait_matches_def)
qed

lemma waitpid_ok:
  assumes sys: "services_ok sys opened live" and ap: "applets_ok applets"
  shows "user_ok opened live base s \<Longrightarrow> luna_bb_waitpid sys applets pid nohang sch s = Some (r, st, s') \<Longrightarrow>
    user_ok opened live base s' \<and> drift s' = drift s"
proof (induction sch arbitrary: s)
  case (Cons i sch)
  let ?f = "find (\<lambda>i. wait_matches pid (us_workers s ! i) \<and> w_done (us_workers s ! i)) [0..<LUNA_STATIC_WORKERS]"
  show ?case
  proof (cases "?f = None \<and> (\<exists>i \<in> set [0..<LUNA_STATIC_WORKERS]. wait_matches pid (us_workers s ! i)) \<and> \<not> nohang")
    case True
    then have "luna_bb_waitpid sys applets pid nohang sch (run_worker sys applets i s) = Some (r, st, s')"
      using Cons(3) [unfolded luna_bb_waitpid.simps [of sys applets pid nohang "i # sch"]] by simp
    then show ?thesis using Cons(1) [OF conjunct1 [OF run_worker_ok [OF sys ap Cons(2), of i]]] run_worker_ok [OF sys ap Cons(2), of i] by simp
  next
    case False
    then have "luna_bb_waitpid sys applets pid nohang (i # sch) s = luna_bb_waitpid sys applets pid nohang [] s"
      unfolding luna_bb_waitpid.simps [of sys applets pid nohang "i # sch"] luna_bb_waitpid.simps [of sys applets pid nohang "[]"]
      by (cases ?f; cases nohang) auto
    then show ?thesis using wait_now [OF sys ap Cons(2)] Cons(3) by metis
  qed
next
  case Nil
  then show ?case using wait_now [OF sys ap] by blast
qed

datatype user_call = Run "string list" | Spawn "string list" | Pipeline "string list list" | Wait int bool "nat list" | Finish nat

text \<open>One call of the shell, or the end of a worker thread; \<open>None\<close> while a call is still waiting.\<close>

fun user_step :: "'k services \<Rightarrow> applets \<Rightarrow> user_call \<Rightarrow> 'k user_state \<Rightarrow> 'k user_state option" where
  "user_step sys applets (Run argv) s = Some (snd (luna_bb_run_static sys applets argv s))"
| "user_step sys applets (Spawn argv) s = Some (snd (luna_bb_spawn_static sys argv s))"
| "user_step sys applets (Pipeline cs) s = Some (snd (luna_bb_run_pipeline sys applets cs s))"
| "user_step sys applets (Wait pid nohang sch) s = map_option (\<lambda>(r, st, s). s) (luna_bb_waitpid sys applets pid nohang sch s)"
| "user_step sys applets (Finish i) s = Some (run_worker sys applets i s)"

fun user_run :: "'k services \<Rightarrow> applets \<Rightarrow> user_call list \<Rightarrow> 'k user_state \<Rightarrow> 'k user_state option" where
  "user_run sys applets [] s = Some s"
| "user_run sys applets (c # cs) s = (case user_step sys applets c s of None \<Rightarrow> None | Some s \<Rightarrow> user_run sys applets cs s)"

definition pipelines :: "user_call list \<Rightarrow> nat" where
  "pipelines cs = length (filter (\<lambda>c. case c of Pipeline p \<Rightarrow> True | _ \<Rightarrow> False) cs)"

lemma user_call_ok:
  assumes sys: "services_ok sys opened live" and ap: "applets_ok applets" and ok: "user_ok opened live base s" and run: "user_step sys applets c s = Some s'"
  shows "user_ok opened live base s' \<and> (\<exists>m \<le> pipelines [c]. drift s' = drift s + of_nat m)"
proof (cases c)
  case (Run argv)
  then show ?thesis using run_static_ok [OF sys ap ok, of argv "fst (luna_bb_run_static sys applets argv s)" s'] run by (auto simp: pipelines_def)
next
  case (Spawn argv)
  then show ?thesis using spawn_static_ok [OF sys ok, of argv "fst (luna_bb_spawn_static sys argv s)" s'] run by (auto simp: pipelines_def)
next
  case (Pipeline cs)
  then have p: "luna_bb_run_pipeline sys applets cs s = (fst (luna_bb_run_pipeline sys applets cs s), s')" using run by auto
  note ok' = run_pipeline_ok [OF sys ap ok p]
  have "\<exists>m \<le> 1. drift s' = drift s + of_nat m"
    using ok' by (cases "drift s' = drift s") (auto intro: exI [of _ "0 :: nat"] exI [of _ "1 :: nat"])
  then show ?thesis using ok' Pipeline by (simp add: pipelines_def)
next
  case (Wait pid nohang sch)
  then obtain r st where "luna_bb_waitpid sys applets pid nohang sch s = Some (r, st, s')" using run by auto
  then show ?thesis using waitpid_ok [OF sys ap ok] by auto
next
  case (Finish i)
  then show ?thesis using run_worker_ok [OF sys ap ok, of i] run by auto
qed

lemma user_run_ok:
  assumes sys: "services_ok sys opened live" and ap: "applets_ok applets"
  shows "user_ok opened live base s \<Longrightarrow> user_run sys applets cs s = Some s' \<Longrightarrow>
    user_ok opened live base s' \<and> (\<exists>m \<le> pipelines cs. drift s' = drift s + of_nat m)"
proof (induction cs arbitrary: s)
  case Nil
  then show ?case by (auto intro: exI [of _ "0 :: nat"])
next
  case (Cons c cs)
  obtain s1 where s1: "user_step sys applets c s = Some s1" "user_run sys applets cs s1 = Some s'" using Cons(3) by (auto split: option.splits)
  obtain a where a: "user_ok opened live base s1" "a \<le> pipelines [c]" "drift s1 = drift s + of_nat a" using user_call_ok [OF sys ap Cons(2) s1(1)] by blast
  obtain b where b: "user_ok opened live base s'" "b \<le> pipelines cs" "drift s' = drift s1 + of_nat b" using Cons(1) [OF a(1) s1(2)] by blast
  have "pipelines (c # cs) = pipelines [c] + pipelines cs" by (auto simp: pipelines_def)
  then have "a + b \<le> pipelines (c # cs)" using a(2) b(2) by linarith
  then show ?case using a(3) b by (intro conjI exI [of _ "a + b"]) (simp_all add: add.assoc)
qed


section \<open>A concrete kernel\<close>

text \<open>Open descriptors and joinable threads as lists; a new one is above all others. \<open>threads\<close>: whether threads can be created.\<close>

definition above :: "int list \<Rightarrow> int" where
  "above xs = fold max xs 0 + 1"

definition above_tid :: "nat list \<Rightarrow> nat" where
  "above_tid ts = fold max ts 0 + 1"

definition list_kernel :: "bool \<Rightarrow> (int list \<times> nat list) services" where
  "list_kernel threads = \<lparr>
     k_open = (\<lambda>(xs, ts) path. (above xs, (above xs # xs, ts))),
     k_close = (\<lambda>(xs, ts) fd. (if fd \<in> set xs then 0 else -9, (filter (\<lambda>x. x \<noteq> fd) xs, ts))),
     k_dup = (\<lambda>(xs, ts) fd. (above xs, (above xs # xs, ts))),
     k_dup3 = (\<lambda>(xs, ts) fd new. (new, (new # filter (\<lambda>x. x \<noteq> new) xs, ts))),
     k_pipe2 = (\<lambda>(xs, ts). (0, (above xs, above xs + 1), (above xs # (above xs + 1) # xs, ts))),
     k_pipe_size = (\<lambda>k fd. (262144, k)),
     k_create = (\<lambda>(xs, ts). if threads then (above_tid ts, (xs, above_tid ts # ts)) else (0, (xs, ts))),
     k_join = (\<lambda>(xs, ts) t. (0, (xs, filter (\<lambda>x. x \<noteq> t) ts)))\<rparr>"

lemma fold_max_ge: "x \<in> set xs \<Longrightarrow> x \<le> fold max xs (a :: 'a :: linorder)" "a \<le> fold max xs a"
proof (induction xs arbitrary: a)
  case (Cons y ys)
  {
    case 1
    then show ?case using Cons(1) [of "max y a"] Cons(2) [of "max y a"] by (auto intro: order_trans [of _ "max y a"])
  next
    case 2
    then show ?case using Cons(2) [of "max y a"] by (auto intro: order_trans [of _ "max y a"])
  }
qed simp_all

lemma above_fresh: "above xs \<notin> set xs" "\<not> above xs < 0" "0 \<le> above xs" "above xs + 1 \<notin> set xs" "above_tid ts \<notin> set ts" "above_tid ts \<noteq> 0"
    "0 < above_tid ts"
  using fold_max_ge(1) [of "above xs" xs 0] fold_max_ge(1) [of "above xs + 1" xs 0] fold_max_ge(2) [of 0 xs] fold_max_ge(1) [of "above_tid ts" ts 0]
  by (auto simp: above_def above_tid_def)

lemma list_kernel_ok: "services_ok (list_kernel b) (set \<circ> fst) (set \<circ> snd)"
  by (auto simp: services_ok_def list_kernel_def grants_def above_fresh)

lemma list_kernel_generous: "generous (list_kernel True)"
  by (auto simp: generous_def list_kernel_def luna_consts above_fresh)

text \<open>The state when the shell starts: all entries zero, descriptors 0, 1 and 2 open.\<close>

definition zero_worker :: static_worker where
  "zero_worker = \<lparr>sw_fd_map = (\<lambda>i. 0), sw_offset = 0, sw_length = 0, sw_buffer = (\<lambda>i. 0), w_in_use = False, w_done = False, w_reaped = False,
     w_tid = 0, w_status = 0, w_errno = 0, w_argv = [], w_data = (\<lambda>i. CHR 0x00)\<rparr>"

definition shell_start :: "(int list \<times> nat list) user_state" where
  "shell_start = \<lparr>us_workers = replicate LUNA_STATIC_WORKERS zero_worker, us_kernel = ([0, 1, 2], []), us_current = 0, us_peak = 0,
     us_started = 0, us_pipelines = 0, us_backgrounds = 0, us_errno = 0\<rparr>"

lemma shell_start_ok: "user_ok (set \<circ> fst) (set \<circ> snd) {0, 1, 2} shell_start" "us_current shell_start = of_nat (active (us_workers shell_start))"
proof -
  have ws: "us_workers shell_start ! i = zero_worker" if "i < LUNA_STATIC_WORKERS" for i using that by (simp add: shell_start_def)
  have z: "\<not> w_in_use zero_worker" by (simp add: zero_worker_def)
  have len: "length (us_workers shell_start) = LUNA_STATIC_WORKERS" by (simp add: shell_start_def)
  have "fd_slots (us_workers shell_start) = {}" using ws z len by (auto simp: fd_slots_def fd_at_def slot_fd_def)
  then show "user_ok (set \<circ> fst) (set \<circ> snd) {0, 1, 2} shell_start"
    using ws z len by (auto simp: part_ok_def fds_ok_def entry_wf_def) (auto simp: shell_start_def)
  show "us_current shell_start = of_nat (active (us_workers shell_start))" using z by (simp add: shell_start_def active_def)
qed

definition plain_applets :: applets where
  "plain_applets argv = (if hd argv = ''uniq'' then Some ([Close 0, Open ''input'', Dup2 0 1], 3) else if hd argv = ''true'' then Some ([], 256) else None)"

lemma plain_applets_ok: "applets_ok plain_applets"
  by (auto simp: applets_ok_def plain_applets_def split: if_splits)


theorem static_results_witness:
  "generous (list_kernel True) \<and> fst (luna_bb_run_static (list_kernel True) plain_applets [''uniq''] shell_start) = 3 \<and>
   fst (luna_bb_run_pipeline (list_kernel True) plain_applets [[''uniq''], [''true'']] shell_start) = 0"
proof -
  have fit: "args_fit [''uniq'']" "args_fit [''true'']" by (simp_all add: args_fit_def argument_bytes_def luna_consts)
  have act: "active (us_workers shell_start) = 0" by (simp add: active_def shell_start_def zero_worker_def)
  note r = static_results [OF list_kernel_ok list_kernel_generous plain_applets_ok shell_start_ok(1)]
  have "fst (luna_bb_run_static (list_kernel True) plain_applets [''uniq''] shell_start) = 3"
    using conjunct1 [OF r, rule_format, of "[''uniq'']"] fit act
    by (simp add: task_static_command_allowed_def exit_code_def plain_applets_def luna_consts)
  moreover have "fst (luna_bb_run_pipeline (list_kernel True) plain_applets [[''uniq''], [''true'']] shell_start) = 0"
    using conjunct2 [OF r, rule_format, of "[[''uniq''], [''true'']]"] fit act
    by (simp add: task_static_command_allowed_def exit_code_def plain_applets_def luna_consts)
  ultimately show ?thesis using list_kernel_generous by blast
qed

text \<open>
  C39: When the first worker of a pipeline cannot be started, its entry is released twice: the start itself gives it back,
  and the clean-up, finding no thread, gives it back again. The pipeline fails and the counter of active workers is one
  less than their number; on an idle table it wraps around to its largest value.
\<close>
theorem pipeline_double_release:
  assumes sys: "services_ok sys opened live" and ok: "user_ok opened live base s" and cur: "us_current s = of_nat (active (us_workers s))"
    and cs: "2 \<le> length cs" "length cs \<le> LUNA_STATIC_WORKERS" "\<forall>c \<in> set cs. c \<noteq> [] \<and> task_static_command_allowed (hd c)"
    and mp: "make_pipes sys (length cs - 1) s = (True, ps, s1)" and al: "task_static_allocate s1 = (Some i, s2)"
    and fails: "fst (task_static_start sys i (hd cs) 0 (snd (ps ! 0)) 2 s2) < 0"
    and run: "luna_bb_run_pipeline sys applets cs s = (r, s')"
  shows "r = -1 \<and> us_current s' + 1 = of_nat (active (us_workers s')) \<and> (active (us_workers s') = 0 \<longrightarrow> us_current s' = -1)"
proof -
  obtain c ds where c: "cs = c # ds" "ds \<noteq> []" using cs(1) by (cases cs; cases "tl cs") auto
  note m = make_pipes_ok [OF sys ok mp]
  obtain pid s3 where st: "task_static_start sys i c 0 (snd (ps ! 0)) 2 s2 = (pid, s3)" by (metis prod.exhaust)
  have u1: "user_ok opened live (base \<union> set (pipe_fds ps)) s1" using m by simp
  note la = launch_ok [OF sys u1 al st]
  have pid: "pid < 0" using fails st c by simp
  have sw: "start_workers sys ps 0 cs s1 = (False, [i], s3)" using al st pid c by simp
  have fw: "fail_worker sys applets i s3 = s3\<lparr>us_current := us_current s3 - 1\<rparr>"
    using la pid release_free [of opened live "base \<union> set (pipe_fds ps)" s3 i] by (simp add: fail_worker_def)
  have "luna_bb_run_pipeline sys applets cs s = (-1, close_pipes sys ps (s3\<lparr>us_current := us_current s3 - 1\<rparr>))"
    using cs mp sw fw by (auto simp: luna_bb_run_pipeline_def)
  then have out: "r = -1" "us_workers s' = us_workers s3" "us_current s' = us_current s3 - 1" using run by (auto simp: close_pipes_def)
  have "drift s = 0" using cur by (simp add: drift_def)
  then have "drift s3 = 0" using la m by simp
  then have "us_current s3 = of_nat (active (us_workers s3))" by (simp add: drift_def)
  then show ?thesis using out by simp
qed

lemma no_threads_start: "(\<And>k. fst (k_create sys k) = 0) \<Longrightarrow> fst (task_static_start sys i argv a b c s) < 0"
  by (auto simp: task_static_start_def Let_def ENOENT_def EAGAIN_def case_prod_beta simp del: dup_std.simps)

theorem pipeline_double_release_witness:
  "us_current (snd (luna_bb_run_pipeline (list_kernel False) plain_applets [[''true''], [''true'']] shell_start)) + 1 =
   of_nat (active (us_workers (snd (luna_bb_run_pipeline (list_kernel False) plain_applets [[''true''], [''true'']] shell_start))))"
proof -
  let ?sys = "list_kernel False" and ?cs = "[[''true''], [''true'']]"
  obtain g ps s1 where mp: "make_pipes ?sys (length ?cs - 1) shell_start = (g, ps, s1)" by (metis prod.exhaust)
  moreover have "fst (make_pipes ?sys (Suc 0) shell_start)" by (simp add: list_kernel_def shell_start_def Let_def luna_consts)
  ultimately have g: "g" "us_workers s1 = us_workers shell_start" using make_pipes_ok [OF list_kernel_ok shell_start_ok(1) mp] by simp_all
  have mpT: "make_pipes ?sys (length ?cs - 1) shell_start = (True, ps, s1)" using mp g(1) by simp
  obtain s2 where al: "task_static_allocate s1 = (Some 0, s2)"
    using g(2) by (simp add: task_static_allocate_def shell_start_def zero_worker_def luna_consts upt_rec)
  have f: "fst (task_static_start ?sys 0 (hd ?cs) 0 (snd (ps ! 0)) 2 s2) < 0" by (rule no_threads_start) (auto simp: list_kernel_def split: prod.splits)
  show ?thesis
    using pipeline_double_release [OF list_kernel_ok shell_start_ok _ _ _ mpT al f, of plain_applets
        "fst (luna_bb_run_pipeline ?sys plain_applets ?cs shell_start)" "snd (luna_bb_run_pipeline ?sys plain_applets ?cs shell_start)"]
    by (simp add: luna_consts task_static_command_allowed_def)
qed

text \<open>
  A stream opened in a worker whose standard input was closed leaves a stale descriptor: \<open>fopen\<close> puts the new
  descriptor in the place of standard input, \<open>fclose\<close> closes it in the kernel but keeps the place, so that the worker still
  holds a descriptor that is not open and closes it once more when it ends.
\<close>
theorem fclose_leaves_stale_descriptor:
  assumes "services_ok sys opened live" "fs_worker s = Some w" "sw_fd_map w 0 < 0"
    and "luna_bb_fopen sys alloc path mode s = (Some f, s1)" "luna_bb_fclose sys f s1 = (r, s2)"
  shows "\<exists>w2. fs_worker s2 = Some w2 \<and> sw_fd_map w2 0 \<ge> 0 \<and> sw_fd_map w2 0 \<notin> opened (fs_kernel s2)"
proof -
  obtain fd k where o: "k_open sys (fs_kernel s) path = (fd, k)" by (metis prod.exhaust)
  have g: "grants opened live (fs_kernel s) fd k" by (rule services_okD(1) [OF assms(1) o])
  have first: "find (\<lambda>fd. sw_fd_map w fd < 0) [0..<3] = Some 0" using assms(3) by (simp add: upt_rec)
  define s0 where "s0 = s\<lparr>fs_kernel := k, fs_worker := Some (set_fd 0 fd w)\<rparr>"
  have nn: "fd \<ge> 0" and s1: "s1 = s0" "bf_fd f = fd"
    using assms(2,4) o first
    by (auto simp: luna_bb_fopen_def luna_bb_open_def luna_bb_fdopen_def fs_result_def fs_fd_def s0_def Let_def split: if_splits option.splits prod.splits)
  have "fd \<in> opened k" using g nn by (simp add: grants_def)
  then have c: "opened (snd (k_close sys k fd)) = opened k - {fd}" using services_okD(3) [OF assms(1)] by blast
  have "fs_worker s2 = Some (set_fd 0 fd w)" "fs_kernel s2 = snd (k_close sys k fd)"
    using assms(5) s1 nn by (auto simp: luna_bb_fclose_def s0_def fs_result_def Let_def split: prod.splits if_splits)
  then show ?thesis using c nn by simp
qed

theorem fclose_leaves_stale_descriptor_witness:
  "\<exists>s1 f r s2 w2. luna_bb_fopen (list_kernel True) True ''x'' ''r'' \<lparr>fs_worker = Some (zero_worker\<lparr>sw_fd_map := (\<lambda>i. -1)\<rparr>), fs_kernel = ([], []), fs_errno = 0\<rparr> = (Some f, s1) \<and>
     luna_bb_fclose (list_kernel True) f s1 = (r, s2) \<and> fs_worker s2 = Some w2 \<and> sw_fd_map w2 0 = 1"
proof -
  let ?s = "\<lparr>fs_worker = Some (zero_worker\<lparr>sw_fd_map := (\<lambda>i. -1)\<rparr>), fs_kernel = ([], []), fs_errno = 0\<rparr>"
  obtain x s1 where o: "luna_bb_fopen (list_kernel True) True ''x'' ''r'' ?s = (x, s1)" by (metis prod.exhaust)
  have "x \<noteq> None \<and> (\<forall>w. fs_worker s1 = Some w \<longrightarrow> sw_fd_map w 0 = 1)"
    using o by (auto simp: luna_bb_fopen_def bb_mode_flags_def luna_bb_open_def list_kernel_def above_def luna_bb_fdopen_def upt_rec fs_fd_def)
  then obtain f where f: "x = Some f" by auto
  obtain r s2 where c: "luna_bb_fclose (list_kernel True) f s1 = (r, s2)" by (metis prod.exhaust)
  obtain w2 where w2: "fs_worker s2 = Some w2" "sw_fd_map w2 0 \<ge> 0"
    using fclose_leaves_stale_descriptor [OF list_kernel_ok _ _ o [unfolded f] c] by auto
  have "fs_worker s2 = fs_worker s1" using c by (auto simp: luna_bb_fclose_def fs_result_def Let_def split: prod.splits if_splits)
  then have "sw_fd_map w2 0 = 1" using w2 \<open>x \<noteq> None \<and> _\<close> by auto
  then show ?thesis using o f c w2 by blast
qed

end
