(* ===== verification/User_Path.thy ===== *)
theory User_Path
  imports Luna_Prelude
begin

text \<open>
  Canonical paths for the BusyBox environment: \<open>bb_realpath_pop\<close> and \<open>luna_bb_realpath\<close> of
  \<open>lkl_task_user.c\<close>. The file system is a parameter: what \<open>lstat\<close>, \<open>readlink\<close> and \<open>getcwd\<close> answer. The
  four buffers of \<open>PATH_MAX\<close> bytes are explicit: storing a string with its terminator that does
  not fit gives the path_outcome \<open>Overflow\<close>, which the code must never reach.
\<close>

definition PATH_MAX :: nat where [luna_consts]: "PATH_MAX = 4096"

definition ENOENT :: nat where "ENOENT = 2"
definition ENAMETOOLONG :: nat where "ENAMETOOLONG = 36"
definition ELOOP :: nat where "ELOOP = 40"
definition MAX_LINKS :: nat where "MAX_LINKS = 40"

text \<open>Errors are error numbers; \<open>fs_lstat\<close> says whether the path is a symbolic link.\<close>

record user_fs =
  fs_lstat :: "string \<Rightarrow> nat + bool"
  fs_readlink :: "string \<Rightarrow> nat + string"
  fs_getcwd :: "nat + string"

datatype path_outcome = Resolved string | Failed nat | Overflow

abbreviation slash :: char where "slash \<equiv> CHR ''/''"

text \<open>\<open>strcpy\<close> into a buffer of \<open>PATH_MAX\<close> bytes.\<close>

definition stored :: "string \<Rightarrow> path_outcome \<Rightarrow> path_outcome" where
  "stored s k = (if length s < PATH_MAX then k else Overflow)"

definition strrchr :: "string \<Rightarrow> char \<Rightarrow> nat option" where
  "strrchr s c = (let n = length (takeWhile (\<lambda>x. x \<noteq> c) (rev s)) in if n = length s then None else Some (length s - n - 1))"

definition bb_realpath_pop :: "string \<Rightarrow> string" where
  "bb_realpath_pop path = (case strrchr path slash of None \<Rightarrow> [slash] | Some k \<Rightarrow> if k = 0 then [slash] else take k path)"

text \<open>The component at the cursor and what follows it.\<close>

definition component :: "string \<Rightarrow> string" where
  "component s = takeWhile (\<lambda>x. x \<noteq> slash) s"

definition after_component :: "string \<Rightarrow> string" where
  "after_component s = dropWhile (\<lambda>x. x \<noteq> slash) s"

definition skip_slashes :: "string \<Rightarrow> string" where
  "skip_slashes s = dropWhile (\<lambda>x. x = slash) s"

definition push :: "string \<Rightarrow> string \<Rightarrow> string" where
  "push output c = (if length output > 1 then output @ [slash] else output) @ c"

definition replacement :: "string \<Rightarrow> string \<Rightarrow> string" where
  "replacement target remainder = (if remainder \<noteq> [] then target @ [slash] @ remainder else target)"

lemma after_component_shorter: "skip_slashes s \<noteq> [] \<Longrightarrow> length (after_component (skip_slashes s)) < length s"
proof -
  assume "skip_slashes s \<noteq> []"
  then have "hd (skip_slashes s) \<noteq> slash" unfolding skip_slashes_def by (rule hd_dropWhile)
  then obtain c cs where cs: "skip_slashes s = c # cs" "c \<noteq> slash" using \<open>skip_slashes s \<noteq> []\<close> by (cases "skip_slashes s") auto
  then have "length (after_component (skip_slashes s)) \<le> length cs" by (simp add: after_component_def length_dropWhile_le)
  moreover have "length (skip_slashes s) \<le> length s" by (simp add: skip_slashes_def length_dropWhile_le)
  ultimately show ?thesis using cs by simp
qed

text \<open>
  One round of the loop; \<open>cursor\<close> is the unread part of \<open>pending\<close>. A round ends the call or leaves
  the number of links followed, the new \<open>output\<close> and the new cursor.
\<close>

datatype round = Stop path_outcome | Continue nat string string

definition put_path :: "string \<Rightarrow> round \<Rightarrow> round" where
  "put_path s k = (if length s < PATH_MAX then k else Stop Overflow)"

definition follow_link :: "user_fs \<Rightarrow> nat \<Rightarrow> string \<Rightarrow> string \<Rightarrow> round" where
  "follow_link fs links output rest =
     (if \<not> links < MAX_LINKS then Stop (Failed ELOOP)
      else
        (case fs_readlink fs output of
           Inl e \<Rightarrow> Stop (Failed e)
         | Inr t \<Rightarrow>
             let target = take (PATH_MAX - 1) t; remainder = (if rest \<noteq> [] then tl rest else rest)
             in if length target + (if remainder \<noteq> [] then 1 else 0) + length remainder \<ge> PATH_MAX then Stop (Failed ENAMETOOLONG)
                else put_path (replacement target remainder)
                  (Continue (Suc links) (if target \<noteq> [] \<and> hd target = slash then [slash] else bb_realpath_pop output)
                    (replacement target remainder))))"

definition realpath_step :: "user_fs \<Rightarrow> nat \<Rightarrow> string \<Rightarrow> string \<Rightarrow> round" where
  "realpath_step fs links output cursor =
     (let cursor = skip_slashes cursor; c = component cursor; rest = after_component cursor; next = push output c
      in if cursor = [] then Stop (Resolved output)
         else if c = ''.'' then Continue links output rest
         else if c = ''..'' then Continue links (bb_realpath_pop output) rest
         else if length output + (if length output > 1 then 1 else 0) + length c \<ge> PATH_MAX then Stop (Failed ENAMETOOLONG)
         else put_path next
           (case fs_lstat fs next of
              Inl e \<Rightarrow> Stop (Failed e)
            | Inr is_link \<Rightarrow> if is_link then follow_link fs links next rest else Continue links next rest))"

lemma realpath_step_decreases:
  "realpath_step fs links output cursor = Continue links' output' cursor' \<Longrightarrow>
   links' = links \<and> length cursor' < length cursor \<or> links < MAX_LINKS \<and> links' = Suc links"
  by (auto simp: realpath_step_def follow_link_def put_path_def Let_def after_component_shorter split: if_splits sum.splits)

function realpath_loop :: "user_fs \<Rightarrow> nat \<Rightarrow> string \<Rightarrow> string \<Rightarrow> path_outcome" where
  "realpath_loop fs links output cursor =
     (case realpath_step fs links output cursor of
        Stop o' \<Rightarrow> o'
      | Continue links' output' cursor' \<Rightarrow> realpath_loop fs links' output' cursor')"
  by pat_completeness auto
termination
  by (relation "measures [\<lambda>(fs, links, output, cursor). MAX_LINKS - links, \<lambda>(fs, links, output, cursor). length cursor]")
    (auto dest!: realpath_step_decreases)

declare realpath_loop.simps [simp del]

definition luna_bb_realpath :: "user_fs \<Rightarrow> string option \<Rightarrow> path_outcome" where
  "luna_bb_realpath fs path =
     (case path of
        None \<Rightarrow> Failed ENOENT
      | Some p \<Rightarrow>
          if p = [] then Failed ENOENT
          else if hd p = slash then if length p \<ge> PATH_MAX then Failed ENAMETOOLONG else stored p (realpath_loop fs 0 [slash] p)
          else
            (case fs_getcwd fs of
               Inl e \<Rightarrow> Failed e
             | Inr cwd \<Rightarrow>
                 if length cwd + 1 + length p \<ge> PATH_MAX then Failed ENAMETOOLONG
                 else let pending = (if length cwd > 1 then cwd @ [slash] else cwd) @ p in stored pending (realpath_loop fs 0 [slash] pending)))"

section \<open>Paths as lists of names\<close>

definition is_name :: "string \<Rightarrow> bool" where
  "is_name c \<longleftrightarrow> c \<noteq> [] \<and> slash \<notin> set c \<and> c \<noteq> ''.'' \<and> c \<noteq> ''..''"

definition path_of :: "string list \<Rightarrow> string" where
  "path_of d = (if d = [] then [slash] else concat (map (\<lambda>c. slash # c) d))"

fun names_of :: "string \<Rightarrow> string \<Rightarrow> string list" where
  "names_of acc [] = (if acc = [] then [] else [acc])"
| "names_of acc (x # xs) = (if x = slash then (if acc = [] then [] else [acc]) @ names_of [] xs else names_of (acc @ [x]) xs)"

abbreviation names :: "string \<Rightarrow> string list" where "names \<equiv> names_of []"

text \<open>
  The specification: a walk over names from the directory \<open>d\<close>, following \<open>n\<close> symbolic links on the way.
  Link targets that fill the buffer of \<open>PATH_MAX - 1\<close> bytes are cut there.
\<close>

inductive resolves :: "user_fs \<Rightarrow> string list \<Rightarrow> string list \<Rightarrow> nat \<Rightarrow> string list \<Rightarrow> bool" for fs where
  resolves_done: "resolves fs d [] 0 d"
| resolves_dot: "resolves fs d cs n r \<Longrightarrow> resolves fs d (''.'' # cs) n r"
| resolves_up: "resolves fs (butlast d) cs n r \<Longrightarrow> resolves fs d (''..'' # cs) n r"
| resolves_name: "is_name c \<Longrightarrow> fs_lstat fs (path_of (d @ [c])) = Inr False \<Longrightarrow> resolves fs (d @ [c]) cs n r \<Longrightarrow> resolves fs d (c # cs) n r"
| resolves_link: "is_name c \<Longrightarrow> fs_lstat fs (path_of (d @ [c])) = Inr True \<Longrightarrow> fs_readlink fs (path_of (d @ [c])) = Inr t \<Longrightarrow>
    target = take (PATH_MAX - 1) t \<Longrightarrow> resolves fs (if target \<noteq> [] \<and> hd target = slash then [] else d) (names target @ cs) n r \<Longrightarrow>
    resolves fs d (c # cs) (Suc n) r"

section \<open>Strings and names\<close>

lemma names_acc: "slash \<notin> set xs \<Longrightarrow> names_of acc (xs @ ys) = names_of (acc @ xs) ys"
  by (induction xs arbitrary: acc) auto

lemma names_skip: "names (skip_slashes s) = names s"
  unfolding skip_slashes_def by (induction s) simp_all

lemma names_slash: "names (slash # s) = names s"
  by simp

lemma component_facts:
  "slash \<notin> set (component s)" "component s @ after_component s = s" "after_component s = [] \<or> hd (after_component s) = slash"
  unfolding component_def after_component_def
  by (auto dest: set_takeWhileD) (use hd_dropWhile [of "\<lambda>x. x \<noteq> slash" s] in auto)

lemma skip_component: "skip_slashes s \<noteq> [] \<Longrightarrow> component (skip_slashes s) \<noteq> []"
proof -
  assume "skip_slashes s \<noteq> []"
  moreover then have "hd (skip_slashes s) \<noteq> slash" unfolding skip_slashes_def by (rule hd_dropWhile)
  ultimately show ?thesis by (cases "skip_slashes s") (simp_all add: component_def)
qed

lemma names_step:
  assumes "skip_slashes s \<noteq> []"
  shows "names s = component (skip_slashes s) # names (after_component (skip_slashes s))"
proof -
  let ?s = "skip_slashes s"
  have "names s = names_of [] (component ?s @ after_component ?s)" by (simp add: names_skip component_facts)
  also have "\<dots> = names_of (component ?s) (after_component ?s)"
    using names_acc [of "component ?s" "[]" "after_component ?s", OF component_facts(1)] by simp
  also have "\<dots> = component ?s # names (after_component ?s)"
    using component_facts(3) [of ?s] skip_component [OF assms] by (cases "after_component ?s") auto
  finally show ?thesis .
qed

lemma names_none: "skip_slashes s = [] \<Longrightarrow> names s = []"
  using names_skip [of s] by simp

lemma names_split: "names_of acc (xs @ slash # ys) = names_of acc xs @ names ys"
  by (induction xs arbitrary: acc) auto

lemma names_replacement:
  assumes "r = [] \<or> hd r = slash"
  shows "names (replacement t (if r \<noteq> [] then tl r else r)) = names t @ names r"
proof (cases r)
  case Nil
  then show ?thesis by (simp add: replacement_def)
next
  case (Cons x xs)
  then have "x = slash" using assms by simp
  then show ?thesis using Cons names_split [of "[]" t xs] by (cases xs) (auto simp: replacement_def)
qed

lemma path_of_long: "d \<noteq> [] \<Longrightarrow> list_all is_name d \<Longrightarrow> length (path_of d) > 1"
  by (cases d) (auto simp: path_of_def is_name_def)

lemma push_path: "list_all is_name d \<Longrightarrow> push (path_of d) c = path_of (d @ [c])"
  using path_of_long [of d] by (cases "d = []") (auto simp: push_def path_of_def)

lemma push_length: "length (push output c) = length output + (if length output > 1 then 1 else 0) + length c"
  by (simp add: push_def)

lemma strrchr_append: "c \<notin> set ys \<Longrightarrow> strrchr (xs @ c # ys) c = Some (length xs)"
proof -
  assume a: "c \<notin> set ys"
  have "takeWhile (\<lambda>x. x \<noteq> c) (rev ys @ c # rev xs) = rev ys" using a by (subst takeWhile_append2) auto
  then show ?thesis by (simp add: strrchr_def Let_def)
qed

lemma pop_path: "list_all is_name d \<Longrightarrow> bb_realpath_pop (path_of d) = path_of (butlast d)"
proof (cases d rule: rev_cases)
  case Nil
  then show ?thesis using strrchr_append [of slash "[]" "[]"] by (simp add: bb_realpath_pop_def path_of_def)
next
  case (snoc e c)
  assume "list_all is_name d"
  then have c: "slash \<notin> set c" "list_all is_name e" using snoc by (auto simp: is_name_def)
  have "path_of d = concat (map (\<lambda>c. slash # c) e) @ slash # c" using snoc by (simp add: path_of_def)
  moreover have "strrchr \<dots> slash = Some (length (concat (map (\<lambda>c. slash # c) e)))" by (rule strrchr_append [OF c(1)])
  ultimately show ?thesis using snoc path_of_long [OF _ c(2)] by (cases "e = []") (auto simp: bb_realpath_pop_def path_of_def)
qed

section \<open>The loop against the specification\<close>

lemma is_name_component: "skip_slashes s \<noteq> [] \<Longrightarrow> c = component (skip_slashes s) \<Longrightarrow> c \<noteq> ''.'' \<Longrightarrow> c \<noteq> ''..'' \<Longrightarrow> is_name c"
  using skip_component component_facts(1) by (simp add: is_name_def)

text \<open>The rounds on paths that are lists of names.\<close>

lemma realpath_step_cases:
  assumes "list_all is_name d"
  obtains (finish) "names cursor = []" "realpath_step fs links (path_of d) cursor = Stop (Resolved (path_of d))"
  | (dot) rest where "names cursor = ''.'' # names rest" "realpath_step fs links (path_of d) cursor = Continue links (path_of d) rest"
  | (up) rest where "names cursor = ''..'' # names rest" "realpath_step fs links (path_of d) cursor = Continue links (path_of (butlast d)) rest"
  | (long) c rest where "is_name c" "names cursor = c # names rest" "realpath_step fs links (path_of d) cursor = Stop (Failed ENAMETOOLONG)"
      "PATH_MAX \<le> length (path_of (d @ [c]))"
  | (error) c rest e where "is_name c" "names cursor = c # names rest" "fs_lstat fs (path_of (d @ [c])) = Inl e"
      "realpath_step fs links (path_of d) cursor = Stop (Failed e)"
  | (plain) c rest where "is_name c" "names cursor = c # names rest" "fs_lstat fs (path_of (d @ [c])) = Inr False"
      "realpath_step fs links (path_of d) cursor = Continue links (path_of (d @ [c])) rest" "length (path_of (d @ [c])) < PATH_MAX"
  | (link) c rest where "is_name c" "names cursor = c # names rest" "fs_lstat fs (path_of (d @ [c])) = Inr True"
      "realpath_step fs links (path_of d) cursor = follow_link fs links (path_of (d @ [c])) rest" "rest = [] \<or> hd rest = slash"
proof (cases "skip_slashes cursor = []")
  case True
  then show ?thesis by (intro that(1)) (simp_all add: names_none realpath_step_def)
next
  case ne: False
  let ?s = "skip_slashes cursor" let ?c = "component ?s" and ?rest = "after_component ?s"
  note step = names_step [OF ne]
  have next_eq: "push (path_of d) ?c = path_of (d @ [?c])" using push_path assms by simp
  have len: "length (path_of d) + (if length (path_of d) > 1 then 1 else 0) + length ?c = length (path_of (d @ [?c]))"
    unfolding next_eq [symmetric] push_length ..
  have eq: "realpath_step fs links (path_of d) cursor =
      (if ?c = ''.'' then Continue links (path_of d) ?rest
       else if ?c = ''..'' then Continue links (path_of (butlast d)) ?rest
       else if length (path_of (d @ [?c])) \<ge> PATH_MAX then Stop (Failed ENAMETOOLONG)
       else case fs_lstat fs (path_of (d @ [?c])) of Inl e \<Rightarrow> Stop (Failed e)
            | Inr is_link \<Rightarrow> if is_link then follow_link fs links (path_of (d @ [?c])) ?rest else Continue links (path_of (d @ [?c])) ?rest)"
    using ne assms by (simp only: realpath_step_def Let_def next_eq len pop_path put_path_def if_False not_le if_cancel split: if_splits sum.splits) auto
  consider "?c = ''.''" | "?c = ''..''" | "is_name ?c" using is_name_component [OF ne refl] by blast
  then show ?thesis
  proof cases
    case 3
    then have n: "?c \<noteq> ''.''" "?c \<noteq> ''..''" by (simp_all add: is_name_def)
    show ?thesis
    proof (cases "length (path_of (d @ [?c])) \<ge> PATH_MAX")
      case True
      then show ?thesis using 3 n step eq by (intro that(4)) simp_all
    next
      case False
      then show ?thesis using 3 n step eq component_facts(3) [of ?s] that(5-7) [of ?c ?rest]
        by (cases "fs_lstat fs (path_of (d @ [?c]))") (auto split: if_splits)
    qed
  qed (use step eq that(2,3) in auto)
qed

lemma follow_link_cases:
  assumes "list_all is_name d" "is_name c" "rest = [] \<or> hd rest = slash"
  obtains (loop) "MAX_LINKS \<le> links" "follow_link fs links (path_of (d @ [c])) rest = Stop (Failed ELOOP)"
  | (error) e where "links < MAX_LINKS" "fs_readlink fs (path_of (d @ [c])) = Inl e" "follow_link fs links (path_of (d @ [c])) rest = Stop (Failed e)"
  | (long) "follow_link fs links (path_of (d @ [c])) rest = Stop (Failed ENAMETOOLONG)" "links < MAX_LINKS"
  | (go) t pending where "links < MAX_LINKS" "fs_readlink fs (path_of (d @ [c])) = Inr t" "names pending = names (take (PATH_MAX - 1) t) @ names rest"
      "follow_link fs links (path_of (d @ [c])) rest =
         Continue (Suc links) (path_of (if take (PATH_MAX - 1) t \<noteq> [] \<and> hd (take (PATH_MAX - 1) t) = slash then [] else d)) pending"
proof (cases "links < MAX_LINKS")
  case False
  then show ?thesis by (intro that(1)) (simp_all add: follow_link_def)
next
  case lt: True
  show ?thesis
  proof (cases "fs_readlink fs (path_of (d @ [c]))")
    case (Inl e)
    then show ?thesis using lt by (intro that(2)) (simp_all add: follow_link_def)
  next
    case (Inr t)
    let ?t = "take (PATH_MAX - 1) t" and ?m = "if rest \<noteq> [] then tl rest else rest"
    have pop: "bb_realpath_pop (path_of (d @ [c])) = path_of d" using pop_path [of "d @ [c]"] assms by simp
    have rl: "length (replacement ?t ?m) = length ?t + (if ?m \<noteq> [] then 1 else 0) + length ?m" by (simp add: replacement_def)
    show ?thesis
    proof (cases "length (replacement ?t ?m) < PATH_MAX")
      case False
      then show ?thesis using lt Inr unfolding rl by (intro that(3)) (simp_all add: follow_link_def Let_def)
    next
      case True
      have "follow_link fs links (path_of (d @ [c])) rest =
          Continue (Suc links) (if ?t \<noteq> [] \<and> hd ?t = slash then [slash] else path_of d) (replacement ?t ?m)"
        using lt Inr True rl unfolding follow_link_def pop Let_def put_path_def by (simp del: length_take take_eq_Nil)
      then show ?thesis using lt Inr names_replacement [OF assms(3), of ?t]
        by (intro that(4) [of t "replacement ?t ?m"]) (auto simp: path_of_def)
    qed
  qed
qed

lemma realpath_unfold:
  "realpath_step fs links q cursor = Stop x \<Longrightarrow> realpath_loop fs links q cursor = x"
  "realpath_step fs links q cursor = Continue l p c \<Longrightarrow> realpath_loop fs links q cursor = realpath_loop fs l p c"
  by (simp_all add: realpath_loop.simps [of fs links q cursor])

text \<open>
  The loop computes the specification: it returns the path the walk reaches, or gives up because of
  an error of the file system, more links than allowed, or a string that would not fit.
\<close>

definition loop_result :: "user_fs \<Rightarrow> nat \<Rightarrow> string list \<Rightarrow> string list \<Rightarrow> path_outcome \<Rightarrow> bool" where
  "loop_result fs links d cs res \<longleftrightarrow>
     (case res of
        Resolved s \<Rightarrow> \<exists>n r. resolves fs d cs n r \<and> s = path_of r \<and> links + n \<le> MAX_LINKS \<and> length s < PATH_MAX
      | Failed e \<Rightarrow> e = ENAMETOOLONG \<or> (e = ELOOP \<and> (\<forall>n r. resolves fs d cs n r \<longrightarrow> MAX_LINKS < links + n)) \<or>
          (\<exists>p. fs_lstat fs p = Inl e \<or> fs_readlink fs p = Inl e) \<and> (\<forall>n r. \<not> resolves fs d cs n r)
      | Overflow \<Rightarrow> False)"

inductive_cases resolves_NilE: "resolves fs d [] n r"
inductive_cases resolves_ConsE: "resolves fs d (c # cs) n r"

lemma not_dots: "is_name c \<Longrightarrow> c \<noteq> ''.''" "is_name c \<Longrightarrow> c \<noteq> ''..''" "\<not> is_name ''.''" "\<not> is_name ''..''"
  by (auto simp: is_name_def)

lemma resolves_dots_iff:
  "resolves fs d [] n r \<longleftrightarrow> n = 0 \<and> r = d"
  "resolves fs d (''.'' # cs) n r \<longleftrightarrow> resolves fs d cs n r"
  "resolves fs d (''..'' # cs) n r \<longleftrightarrow> resolves fs (butlast d) cs n r"
  by (auto elim!: resolves_NilE intro: resolves_done)
    (auto elim: resolves_ConsE simp: not_dots intro: resolves_dot resolves_up)

lemma resolves_name_iff:
  assumes "is_name c"
  shows "resolves fs d (c # cs) n r \<longleftrightarrow>
     fs_lstat fs (path_of (d @ [c])) = Inr False \<and> resolves fs (d @ [c]) cs n r \<or>
     (\<exists>t m. n = Suc m \<and> fs_lstat fs (path_of (d @ [c])) = Inr True \<and> fs_readlink fs (path_of (d @ [c])) = Inr t \<and>
       resolves fs (if take (PATH_MAX - 1) t \<noteq> [] \<and> hd (take (PATH_MAX - 1) t) = slash then [] else d) (names (take (PATH_MAX - 1) t) @ cs) m r)"
    (is "?l \<longleftrightarrow> ?a \<or> ?b")
proof
  show "?a \<or> ?b" if ?l
    using that
  proof cases
    case resolves_name
    then show ?thesis by blast
  next
    case (resolves_link t target m)
    then have ?b by (intro exI [of _ t] exI [of _ m]) simp
    then show ?thesis ..
  qed (use assms not_dots in simp_all)
  show ?l if "?a \<or> ?b"
    using that
  proof
    assume ?a
    then show ?l using resolves_name [OF assms] by blast
  next
    assume ?b
    then obtain t m where "n = Suc m" "fs_lstat fs (path_of (d @ [c])) = Inr True" "fs_readlink fs (path_of (d @ [c])) = Inr t"
      "resolves fs (if take (PATH_MAX - 1) t \<noteq> [] \<and> hd (take (PATH_MAX - 1) t) = slash then [] else d) (names (take (PATH_MAX - 1) t) @ cs) m r" by blast
    then show ?l using resolves_link [OF assms _ _ refl, of fs d t cs m r] by simp
  qed
qed

lemmas resolves_step_iff = resolves_dots_iff resolves_name_iff

lemma pop_length: "list_all is_name d \<Longrightarrow> length (path_of d) < PATH_MAX \<Longrightarrow> length (path_of (butlast d)) < PATH_MAX"
  by (cases d rule: rev_cases) (auto simp: path_of_def luna_consts split: if_splits)

lemma loop_result_cong:
  assumes "loop_result fs links' d' cs' res"
    and "\<And>n r. resolves fs d' cs' n r \<Longrightarrow> links' + n = links + f n \<and> resolves fs d cs (f n) r"
    and "\<And>m r. resolves fs d cs m r \<Longrightarrow> \<exists>n. resolves fs d' cs' n r \<and> links' + n = links + m"
  shows "loop_result fs links d cs res"
proof (cases res)
  case (Resolved s)
  then obtain n r where "resolves fs d' cs' n r" "s = path_of r" "links' + n \<le> MAX_LINKS" "length s < PATH_MAX"
    using assms(1) by (auto simp: loop_result_def)
  then show ?thesis using Resolved assms(2) [of n r] by (auto simp: loop_result_def intro!: exI [of _ "f n"])
next
  case (Failed e)
  have "MAX_LINKS < links + m" if "resolves fs d cs m r" "\<forall>n r. resolves fs d' cs' n r \<longrightarrow> MAX_LINKS < links' + n" for m r
    using assms(3) [OF that(1)] that(2) by auto
  then show ?thesis using assms(1,3) Failed by (auto simp: loop_result_def) blast+
qed (use assms(1) in \<open>simp add: loop_result_def\<close>)

lemma realpath_loop_result:
  "q = path_of d \<Longrightarrow> list_all is_name d \<Longrightarrow> links \<le> MAX_LINKS \<Longrightarrow> length q < PATH_MAX \<Longrightarrow>
   loop_result fs links d (names cursor) (realpath_loop fs links q cursor)"
proof (induction fs links q cursor arbitrary: d rule: realpath_loop.induct)
  case (1 fs links q cursor)
  note out = "1.prems"(1) and nm = "1.prems"(2)
  from nm show ?case
  proof (cases rule: realpath_step_cases [where fs = fs and links = links and cursor = cursor])
    case finish
    then show ?thesis using "1.prems" realpath_unfold(1) [of fs links q cursor] by (simp add: loop_result_def resolves_step_iff)
  next
    case (dot rest)
    have "loop_result fs links d (names rest) (realpath_loop fs links q rest)"
      using "1.IH" [of links q rest d] dot "1.prems" by simp
    note ih = this
    have eq: "realpath_loop fs links q cursor = realpath_loop fs links (q) rest" by (rule realpath_unfold(2)) (simp add: dot out)
    show ?thesis unfolding eq dot(1)
      by (rule loop_result_cong [OF ih, where f = id]) (use dot(1) in \<open>simp_all add: resolves_step_iff\<close>)
  next
    case (up rest)
    have "loop_result fs links (butlast d) (names rest) (realpath_loop fs links (path_of (butlast d)) rest)"
      using "1.IH" [of links "path_of (butlast d)" rest "butlast d"] up "1.prems" pop_length [OF nm] by (auto simp: list_all_iff dest: in_set_butlastD)
    note ih = this
    have eq: "realpath_loop fs links q cursor = realpath_loop fs links (path_of (butlast d)) rest" by (rule realpath_unfold(2)) (simp add: up out)
    show ?thesis unfolding eq up(1)
      by (rule loop_result_cong [OF ih, where f = id]) (use up(1) in \<open>simp_all add: resolves_step_iff\<close>)
  next
    case (long c rest)
    then show ?thesis using out realpath_unfold(1) [of fs links q cursor] by (simp add: loop_result_def)
  next
    case (error c rest e)
    then show ?thesis using out realpath_unfold(1) [of fs links q cursor] by (auto simp: loop_result_def resolves_step_iff)
  next
    case (plain c rest)
    have "loop_result fs links (d @ [c]) (names rest) (realpath_loop fs links (path_of (d @ [c])) rest)"
      using "1.IH" [of links "path_of (d @ [c])" rest "d @ [c]"] plain "1.prems" by simp
    note ih = this
    have eq: "realpath_loop fs links q cursor = realpath_loop fs links (path_of (d @ [c])) rest" by (rule realpath_unfold(2)) (simp add: plain out)
    show ?thesis unfolding eq plain(2)
      by (rule loop_result_cong [OF ih, where f = id]) (use plain(1) in \<open>simp_all add: resolves_step_iff plain(3)\<close>)
  next
    case (link c rest)
    from nm link(1,5) show ?thesis
    proof (cases rule: follow_link_cases [where fs = fs and links = links])
      case loop
      then show ?thesis using link out realpath_unfold(1) [of fs links q cursor] by (auto simp: loop_result_def resolves_step_iff)
    next
      case (error e)
      then show ?thesis using link out realpath_unfold(1) [of fs links q cursor] by (auto simp: loop_result_def resolves_step_iff)
    next
      case long
      then show ?thesis using link out realpath_unfold(1) [of fs links q cursor] by (simp add: loop_result_def)
    next
      case (go t pending)
      let ?d = "if take (PATH_MAX - 1) t \<noteq> [] \<and> hd (take (PATH_MAX - 1) t) = slash then [] else d"
      have "length (path_of ?d) < PATH_MAX" using "1.prems"(4) out by (auto simp: path_of_def luna_consts)
      then have "loop_result fs (Suc links) ?d (names pending) (realpath_loop fs (Suc links) (path_of ?d) pending)"
        using "1.IH" [of "Suc links" "path_of ?d" pending ?d] link go nm out by simp
      note ih = this
      have eq: "realpath_loop fs links q cursor = realpath_loop fs (Suc links) (path_of ?d) pending"
        by (rule realpath_unfold(2)) (simp add: link(4) go(4) out)
      show ?thesis unfolding eq link(2)
        by (rule loop_result_cong [OF ih, where f = Suc]) (use link(1,3) go(2,3) in \<open>auto simp: resolves_step_iff\<close>)
    qed
  qed
qed

text \<open>A canonical path: names only, and no prefix of it is a symbolic link.\<close>

definition canonical :: "user_fs \<Rightarrow> string list \<Rightarrow> bool" where
  "canonical fs d \<longleftrightarrow> list_all is_name d \<and> (\<forall>k. 0 < k \<and> k \<le> length d \<longrightarrow> fs_lstat fs (path_of (take k d)) = Inr False)"

lemma canonical_butlast: "canonical fs d \<Longrightarrow> canonical fs (butlast d)"
  by (auto simp: canonical_def list_all_iff butlast_conv_take dest: in_set_takeD)

lemma canonical_snoc: "canonical fs d \<Longrightarrow> is_name c \<Longrightarrow> fs_lstat fs (path_of (d @ [c])) = Inr False \<Longrightarrow> canonical fs (d @ [c])"
  unfolding canonical_def by (auto simp: le_Suc_eq)

lemma resolves_canonical: "resolves fs d cs n r \<Longrightarrow> canonical fs d \<Longrightarrow> canonical fs r"
proof (induction rule: resolves.induct)
  case (resolves_link c d t target cs n r)
  then show ?case by (auto simp: canonical_def split: if_splits)
qed (simp_all add: canonical_butlast canonical_snoc)

lemma resolves_deterministic: "resolves fs d cs n r \<Longrightarrow> resolves fs d cs n' r' \<Longrightarrow> n = n' \<and> r = r'"
proof (induction arbitrary: n' rule: resolves.induct)
  case (resolves_name c d cs n r)
  then show ?case by (auto simp: resolves_step_iff)
next
  case (resolves_link c d t target cs n r)
  then show ?case by (fastforce simp: resolves_step_iff)
qed (simp_all add: resolves_step_iff)

lemma names_path: "list_all is_name d \<Longrightarrow> names (path_of d) = d"
proof -
  assume a: "list_all is_name d"
  have "names (concat (map (\<lambda>c. slash # c) d)) = d" using a
  proof (induction d)
    case (Cons c d)
    have "slash \<notin> set c" "c \<noteq> []" using Cons.prems by (auto simp: is_name_def)
    then have "names (slash # c @ concat (map (\<lambda>c. slash # c) d)) = names_of c (concat (map (\<lambda>c. slash # c) d))"
      using names_acc [of c "[]"] by simp
    also have "\<dots> = c # names (concat (map (\<lambda>c. slash # c) d))" using \<open>c \<noteq> []\<close> by (cases d) auto
    finally show ?case using Cons by simp
  qed simp
  then show ?thesis by (simp add: path_of_def)
qed

lemma canonical_prefix: "canonical fs (d @ c # cs) \<Longrightarrow> fs_lstat fs (path_of (d @ [c])) = Inr False"
proof -
  assume a: "canonical fs (d @ c # cs)"
  have "0 < Suc (length d) \<and> Suc (length d) \<le> length (d @ c # cs)" by simp
  then have "fs_lstat fs (path_of (take (Suc (length d)) (d @ c # cs))) = Inr False" using a unfolding canonical_def by blast
  then show ?thesis by simp
qed

lemma canonical_resolves: "canonical fs (d @ cs) \<Longrightarrow> resolves fs d cs 0 (d @ cs)"
proof (induction cs arbitrary: d)
  case Nil
  then show ?case by (simp add: resolves_done)
next
  case (Cons c cs)
  have "fs_lstat fs (path_of (d @ [c])) = Inr False" by (rule canonical_prefix [OF Cons.prems])
  then show ?case using Cons.IH [of "d @ [c]"] Cons.prems resolves_name [of c fs d cs 0 "d @ c # cs"] by (simp add: canonical_def)
qed

lemma path_of_mono: "length (path_of (d @ [c])) \<le> length (path_of (d @ c # cs))"
  by (simp add: path_of_def)

lemma realpath_canonical:
  "output_path = path_of d \<Longrightarrow> canonical fs (d @ names cursor) \<Longrightarrow> length (path_of (d @ names cursor)) < PATH_MAX \<Longrightarrow>
   realpath_loop fs links output_path cursor = Resolved (path_of (d @ names cursor))"
proof (induction fs links output_path cursor arbitrary: d rule: realpath_loop.induct)
  case (1 fs links q cursor)
  note out = "1.prems"(1)
  have nm: "list_all is_name d" "list_all is_name (names cursor)" using "1.prems"(2) by (simp_all add: canonical_def)
  have pre: "fs_lstat fs (path_of (d @ [c])) = Inr False" if "names cursor = c # cs" for c cs
    using canonical_prefix [of fs d c cs] "1.prems"(2) that by simp
  from nm(1) show ?case
  proof (cases rule: realpath_step_cases [where fs = fs and links = links and cursor = cursor])
    case finish
    then show ?thesis using out realpath_unfold(1) [of fs links q cursor] by simp
  next
    case (plain c rest)
    have eq: "realpath_loop fs links q cursor = realpath_loop fs links (path_of (d @ [c])) rest"
      by (rule realpath_unfold(2)) (simp add: plain out)
    have "realpath_loop fs links (path_of (d @ [c])) rest = Resolved (path_of ((d @ [c]) @ names rest))"
      using "1.IH" [of links "path_of (d @ [c])" rest "d @ [c]"] plain out "1.prems"(2,3) by simp
    then show ?thesis using eq plain(2) by simp
  next
    case (long c rest)
    then show ?thesis using path_of_mono [of d c "names rest"] "1.prems"(3) by simp
  qed (use nm(2) pre not_dots in auto)
qed

section \<open>Properties\<close>

text \<open>The names a call starts from.\<close>

definition start_names :: "user_fs \<Rightarrow> string \<Rightarrow> string list" where
  "start_names fs p = (if hd p = slash then names p else case fs_getcwd fs of Inl e \<Rightarrow> [] | Inr cwd \<Rightarrow> names cwd @ names p)"

lemma names_cwd:
  "cwd \<noteq> [] \<Longrightarrow> hd cwd = slash \<Longrightarrow> names ((if length cwd > 1 then cwd @ [slash] else cwd) @ p) = names cwd @ names p"
  using names_split [of "[]" cwd p] by (cases cwd) auto

lemma realpath_fix_point:
  assumes "canonical fs r" "length (path_of r) < PATH_MAX"
  shows "luna_bb_realpath fs (Some (path_of r)) = Resolved (path_of r)"
proof -
  have one: "length [slash] < PATH_MAX" "[slash] = path_of []" by (simp_all add: luna_consts path_of_def)
  have n: "names (path_of r) = r" using assms(1) by (intro names_path) (simp add: canonical_def)
  have h: "hd (path_of r) = slash" "path_of r \<noteq> []" by (cases r; simp add: path_of_def)+
  show ?thesis using realpath_canonical [of "[slash]" "[]" fs "path_of r" 0] one assms n h by (simp add: luna_bb_realpath_def stored_def)
qed

lemma realpath_from_root:
  shows "case realpath_loop fs 0 [slash] pending of
      Resolved s \<Rightarrow> \<exists>n r. resolves fs [] (names pending) n r \<and> n \<le> MAX_LINKS \<and> s = path_of r \<and> canonical fs r \<and> length s < PATH_MAX \<and> luna_bb_realpath fs (Some s) = Resolved s
    | Failed e \<Rightarrow> e = ENAMETOOLONG \<or> e = ELOOP \<and> (\<forall>n r. resolves fs [] (names pending) n r \<longrightarrow> MAX_LINKS < n) \<or>
          (\<exists>q. fs_lstat fs q = Inl e \<or> fs_readlink fs q = Inl e) \<and> (\<forall>n r. \<not> resolves fs [] (names pending) n r)
    | Overflow \<Rightarrow> False"
proof -
  have one: "length [slash] < PATH_MAX" "[slash] = path_of []" by (simp_all add: luna_consts path_of_def)
  have c0: "canonical fs []" by (simp add: canonical_def)
  have "loop_result fs 0 [] (names pending) (realpath_loop fs 0 [slash] pending)" by (rule realpath_loop_result) (use one in simp_all)
  note res = this
  show ?thesis
  proof (cases "realpath_loop fs 0 [slash] pending")
    case (Resolved s)
    then obtain n r where "resolves fs [] (names pending) n r" "s = path_of r" "n \<le> MAX_LINKS" "length s < PATH_MAX"
      using res by (auto simp: loop_result_def)
    then show ?thesis using Resolved resolves_canonical [OF _ c0, of "names pending" n r] realpath_fix_point [of fs r] by auto
  qed (use res in \<open>simp_all add: loop_result_def\<close>)
qed


text \<open>A small tree: the directories \<open>/b\<close>, \<open>/c\<close> and \<open>/c/x\<close>, and the link \<open>/a\<close> to \<open>/b/../c\<close>.\<close>

definition sample_fs :: user_fs where
  "sample_fs = \<lparr>fs_lstat = (\<lambda>p. if p = ''/a'' then Inr True else if p \<in> {''/b'', ''/c'', ''/c/x''} then Inr False else Inl ENOENT),
     fs_readlink = (\<lambda>p. if p = ''/a'' then Inr ''/b/../c'' else Inl 22), fs_getcwd = Inr ''/b''\<rparr>"

lemma sample_realpath: "luna_bb_realpath sample_fs (Some ''../a//./x/'') = Resolved ''/c/x''"
  by code_simp


end
