(* ===== verification/Task_Ipc.thy ===== *)
theory Task_Ipc
  imports Luna_Protocol
begin

text \<open>
  The child's request channel to the manager (\<open>luna_lkl_task_manager_request_value\<close> of
  \<open>lkl_task_host.c\<close>). A request is a three-word message on the control endpoint followed by one
  reply on the command endpoint; the transport, which stands for \<open>seL4_Send\<close>/\<open>seL4_Recv\<close> and
  whatever answers at the other side, is a parameter over the answering side's state.
\<close>

record task_ipc =
  task_manager_control_ep :: cptr
  task_manager_command_ep :: cptr
  task_manager_ipc_count :: u64

type_synonym 'm transport = "u64 list \<Rightarrow> 'm \<Rightarrow> ipc_message \<times> 'm"

definition expected_reply :: "luna_isolation_event \<Rightarrow> u64 \<times> nat" where
  "expected_reply event =
     (if event \<in> {LUNA_ISOLATION_EVENT_MEMORY_MAP, LUNA_ISOLATION_EVENT_MEMORY_UNMAP}
      then (command_word LUNA_COMMAND_MEMORY_RESULT, 2)
      else if event \<in> {LUNA_ISOLATION_EVENT_NET_TX, LUNA_ISOLATION_EVENT_NET_RX,
                       LUNA_ISOLATION_EVENT_NET_TX_BATCH, LUNA_ISOLATION_EVENT_NET_RX_BATCH,
                       LUNA_ISOLATION_EVENT_NET_WAKE, LUNA_ISOLATION_EVENT_NET_CONTROL,
                       LUNA_ISOLATION_EVENT_NET_STATS, LUNA_ISOLATION_EVENT_NET_TX_STATS,
                       LUNA_ISOLATION_EVENT_NET_TX_STRESS, LUNA_ISOLATION_EVENT_NET_DEBUG}
      then (command_word LUNA_COMMAND_NET_RESULT, 3)
      else if event \<in> {LUNA_ISOLATION_EVENT_TIMER_ARM, LUNA_ISOLATION_EVENT_TIMER_CANCEL}
      then (command_word LUNA_COMMAND_TIMER_RESULT, 2)
      else (command_word LUNA_COMMAND_DISK_RESULT, 2))"

text \<open>
  The result is the C return value together with the response register (\<open>None\<close> where the
  code leaves \<open>*response_value\<close> unwritten), the updated channel and the other side's state.
\<close>

definition luna_lkl_task_manager_request_value ::
  "'m transport \<Rightarrow> luna_isolation_event \<Rightarrow> u64 \<Rightarrow> u64 \<Rightarrow> task_ipc \<Rightarrow> 'm \<Rightarrow>
   (c_int \<times> u64 option) \<times> task_ipc \<times> 'm" where
  "luna_lkl_task_manager_request_value transport event value1 value2 c m =
     (if task_manager_control_ep c = 0 \<or> task_manager_command_ep c = 0 then ((-1, None), c, m)
      else
        let c' = c\<lparr>task_manager_ipc_count := task_manager_ipc_count c + 1\<rparr>;
            (reply, m') = transport [event_word event, value1, value2] m;
            (expected, expected_length) = expected_reply event
        in if msg_badge reply \<noteq> 0 \<or> msg_label reply \<noteq> 0 \<or>
              length (msg_mrs reply) \<noteq> expected_length \<or> msg_mrs reply ! 0 \<noteq> expected
           then ((-1, None), c', m')
           else ((cint_of_word (msg_mrs reply ! 1),
                  Some (if expected_length > 2 then msg_mrs reply ! 2 else 0)), c', m'))"

definition luna_lkl_task_manager_request ::
  "'m transport \<Rightarrow> luna_isolation_event \<Rightarrow> u64 \<Rightarrow> u64 \<Rightarrow> task_ipc \<Rightarrow> 'm \<Rightarrow>
   c_int \<times> task_ipc \<times> 'm" where
  "luna_lkl_task_manager_request transport event value1 value2 c m =
     (let (r, c', m') = luna_lkl_task_manager_request_value transport event value1 value2 c m
      in (fst r, c', m'))"

definition ipc_ready :: "task_ipc \<Rightarrow> bool" where
  "ipc_ready c \<longleftrightarrow> task_manager_control_ep c \<noteq> 0 \<and> task_manager_command_ep c \<noteq> 0"

definition ipc_counted :: "task_ipc \<Rightarrow> task_ipc" where
  "ipc_counted c = c\<lparr>task_manager_ipc_count := task_manager_ipc_count c + 1\<rparr>"

lemma ipc_ready_counted [simp]: "ipc_ready (ipc_counted c) = ipc_ready c"
  by (simp add: ipc_ready_def ipc_counted_def)

lemma manager_request_reply:
  assumes "ipc_ready c"
    and "transport [event_word event, v1, v2] m = (Message 0 0 [command, word_of_cint e], m')"
    and "expected_reply event = (command, 2)"
  shows "luna_lkl_task_manager_request transport event v1 v2 c m = (e, ipc_counted c, m')"
  using assms
  by (simp add: luna_lkl_task_manager_request_def luna_lkl_task_manager_request_value_def
      ipc_ready_def ipc_counted_def)

lemma manager_request_value_reply:
  assumes "ipc_ready c"
    and "transport [event_word event, v1, v2] m = (Message 0 0 [command, word_of_cint e, r], m')"
    and "expected_reply event = (command, 3)"
  shows "luna_lkl_task_manager_request_value transport event v1 v2 c m = ((e, Some r), ipc_counted c, m')"
  using assms
  by (simp add: luna_lkl_task_manager_request_value_def ipc_ready_def ipc_counted_def)

lemma manager_request_unready:
  "\<not> ipc_ready c \<Longrightarrow> luna_lkl_task_manager_request transport event v1 v2 c m = (-1, c, m)"
  by (auto simp: luna_lkl_task_manager_request_def luna_lkl_task_manager_request_value_def
      ipc_ready_def)

end
