(* ===== verification/Task_Heap.thy ===== *)
theory Task_Heap
  imports Task_Ipc
begin

text \<open>
  The child's page heap (\<open>task_heap_*\<close> and the \<open>task_mem_*\<close>, \<open>task_page_*\<close>, \<open>task_mmap\<close>
  operations of \<open>lkl_task_host.c\<close>): a page bitmap over the 32 MiB arena, a table of 1024
  allocation records and the accounting counters. Physical pages are mapped and unmapped by the
  manager through the request channel. The critical section under \<open>task_manager_lock_word\<close> is
  one atomic step. \<open>page_service\<close> is the contract the heap expects of the manager; its lemmas
  show that the bitmap, the records and the manager's mappings always agree.
\<close>

unbundle bit_operations_syntax

definition TASK_HEAP_ALIGNMENT :: u64 where [luna_consts]: "TASK_HEAP_ALIGNMENT = 16"
definition TASK_PAGE_SIZE :: nat where [luna_consts]: "TASK_PAGE_SIZE = 4096"
definition TASK_HEAP_MAX_ALLOCATIONS :: nat where [luna_consts]: "TASK_HEAP_MAX_ALLOCATIONS = 1024"

record task_heap_allocation =
  ha_address :: nat
  ha_pages :: nat
  ha_requested :: nat
  ha_used :: bool

record task_heap =
  task_heap_pages :: "nat \<Rightarrow> bool"
  task_heap_allocations :: "nat \<Rightarrow> task_heap_allocation"
  task_heap_active_allocations :: nat
  task_heap_active_bytes :: nat
  task_heap_peak_bytes :: nat
  task_heap_ipc :: task_ipc
  task_heap_memory :: bytes \<comment> \<open>the child's view of the arena, by address\<close>

definition empty_allocation :: task_heap_allocation where
  "empty_allocation = \<lparr>ha_address = 0, ha_pages = 0, ha_requested = 0, ha_used = False\<rparr>"

definition task_heap_init :: "task_heap \<Rightarrow> task_heap" where
  "task_heap_init h = h\<lparr>
     task_heap_pages := (\<lambda>_. False),
     task_heap_allocations := (\<lambda>_. empty_allocation),
     task_heap_active_allocations := 0,
     task_heap_active_bytes := 0,
     task_heap_peak_bytes := 0\<rparr>"

definition task_heap_request ::
  "'m transport \<Rightarrow> luna_isolation_event \<Rightarrow> nat \<Rightarrow> nat \<Rightarrow> task_heap \<Rightarrow> 'm \<Rightarrow> c_int \<times> task_heap \<times> 'm" where
  "task_heap_request transport event address pages h m =
     (if pages = 0 then (-1, h, m)
      else let (e, c, m') = luna_lkl_task_manager_request transport event
                 (of_nat address) (of_nat pages) (task_heap_ipc h) m
           in (e, h\<lparr>task_heap_ipc := c\<rparr>, m'))"

text \<open>The inner loop \<open>while (j < pages && !task_heap_pages[i + j]) j++\<close>.\<close>

fun free_run :: "(nat \<Rightarrow> bool) \<Rightarrow> nat \<Rightarrow> nat \<Rightarrow> nat" where
  "free_run used i 0 = 0"
| "free_run used i (Suc n) = (if used i then 0 else Suc (free_run used (Suc i) n))"

text \<open>The outer loop: skip past the page that ended a short run.\<close>

function find_run :: "(nat \<Rightarrow> bool) \<Rightarrow> nat \<Rightarrow> nat \<Rightarrow> nat \<Rightarrow> nat option" where
  "find_run used pages limit i =
     (if i + pages \<le> limit
      then let j = free_run used i pages
           in if j = pages then Some i else find_run used pages limit (i + j + 1)
      else None)"
  by pat_completeness auto
termination
  by (relation "measure (\<lambda>(used, pages, limit, i). Suc limit - i)") auto

declare find_run.simps [simp del]

definition task_heap_alloc ::
  "'m transport \<Rightarrow> u64 \<Rightarrow> u64 \<Rightarrow> bool \<Rightarrow> task_heap \<Rightarrow> 'm \<Rightarrow> nat \<times> task_heap \<times> 'm" where
  "task_heap_alloc transport bytes align zero h m =
     (let align = (if align < TASK_HEAP_ALIGNMENT then TASK_HEAP_ALIGNMENT else align) in
      if align AND (align - 1) \<noteq> 0 \<or> unat align > TASK_PAGE_SIZE then (0, h, m) else
      let requested = (if bytes \<noteq> 0 then bytes else 1) in
      if requested > - 1 - (of_nat TASK_PAGE_SIZE - 1) then (0, h, m) else
      let pages = unat ((requested + of_nat TASK_PAGE_SIZE - 1) div of_nat TASK_PAGE_SIZE) in
      if pages = 0 \<or> pages > LUNA_CHILD_HEAP_PAGES then (0, h, m) else
      case first_index (\<lambda>i. \<not> ha_used (task_heap_allocations h i)) TASK_HEAP_MAX_ALLOCATIONS of
        None \<Rightarrow> (0, h, m)
      | Some record_index \<Rightarrow>
          (case find_run (task_heap_pages h) pages LUNA_CHILD_HEAP_PAGES 0 of
             None \<Rightarrow> (0, h, m)
           | Some first_page \<Rightarrow>
               let address = LUNA_CHILD_HEAP_BASE + first_page * TASK_PAGE_SIZE;
                   (e, h1, m1) = task_heap_request transport LUNA_ISOLATION_EVENT_MEMORY_MAP
                                   address pages h m
               in if e \<noteq> 0 then (0, h1, m1)
                  else
                    let active = task_heap_active_bytes h1 + unat requested in
                    (address,
                     h1\<lparr>task_heap_pages := memset_at (task_heap_pages h1) first_page pages True,
                        task_heap_allocations := (task_heap_allocations h1)(record_index :=
                          \<lparr>ha_address = address, ha_pages = pages,
                           ha_requested = unat requested, ha_used = True\<rparr>),
                        task_heap_active_allocations := task_heap_active_allocations h1 + 1,
                        task_heap_active_bytes := active,
                        task_heap_peak_bytes :=
                          (if active > task_heap_peak_bytes h1 then active else task_heap_peak_bytes h1),
                        task_heap_memory :=
                          (if zero then memset_at (task_heap_memory h1) address (unat requested) 0
                           else task_heap_memory h1)\<rparr>,
                     m1)))"

definition task_heap_free :: "'m transport \<Rightarrow> nat \<Rightarrow> task_heap \<Rightarrow> 'm \<Rightarrow> c_int \<times> task_heap \<times> 'm" where
  "task_heap_free transport ptr h m =
     (if ptr = 0 then (0, h, m)
      else if ptr < LUNA_CHILD_HEAP_BASE \<or> ptr \<ge> LUNA_CHILD_HEAP_BASE + LUNA_CHILD_HEAP_SIZE \<or>
              ptr mod TASK_PAGE_SIZE \<noteq> 0
      then (-1, h, m)
      else case first_index (\<lambda>i. ha_used (task_heap_allocations h i) \<and>
                                 ha_address (task_heap_allocations h i) = ptr)
                  TASK_HEAP_MAX_ALLOCATIONS of
        None \<Rightarrow> (-1, h, m)
      | Some k \<Rightarrow>
          let record = task_heap_allocations h k;
              (e, h1, m1) = task_heap_request transport LUNA_ISOLATION_EVENT_MEMORY_UNMAP
                              ptr (ha_pages record) h m
          in if e \<noteq> 0 then (-1, h1, m1)
             else
               let first_page = (ptr - LUNA_CHILD_HEAP_BASE) div TASK_PAGE_SIZE in
               (0,
                h1\<lparr>task_heap_pages := memset_at (task_heap_pages h1) first_page (ha_pages record) False,
                   task_heap_active_allocations := task_heap_active_allocations h1 - 1,
                   task_heap_active_bytes := task_heap_active_bytes h1 - ha_requested record,
                   task_heap_allocations := (task_heap_allocations h1)(k := empty_allocation)\<rparr>,
                m1))"

definition task_heap_is_idle :: "task_heap \<Rightarrow> bool" where
  "task_heap_is_idle h \<longleftrightarrow>
     task_heap_active_allocations h = 0 \<and> task_heap_active_bytes h = 0 \<and>
     first_index (task_heap_pages h) LUNA_CHILD_HEAP_PAGES = None"

definition task_mem_alloc :: "'m transport \<Rightarrow> u64 \<Rightarrow> task_heap \<Rightarrow> 'm \<Rightarrow> nat \<times> task_heap \<times> 'm" where
  "task_mem_alloc transport bytes = task_heap_alloc transport bytes TASK_HEAP_ALIGNMENT False"

definition task_mem_free :: "'m transport \<Rightarrow> nat \<Rightarrow> task_heap \<Rightarrow> 'm \<Rightarrow> task_heap \<times> 'm" where
  "task_mem_free transport ptr h m = snd (task_heap_free transport ptr h m)"

definition task_page_alloc :: "'m transport \<Rightarrow> u64 \<Rightarrow> task_heap \<Rightarrow> 'm \<Rightarrow> nat \<times> task_heap \<times> 'm" where
  "task_page_alloc transport bytes =
     task_heap_alloc transport (if bytes \<noteq> 0 then bytes else of_nat TASK_PAGE_SIZE)
       (of_nat TASK_PAGE_SIZE) True"

definition task_page_free :: "'m transport \<Rightarrow> nat \<Rightarrow> u64 \<Rightarrow> task_heap \<Rightarrow> 'm \<Rightarrow> task_heap \<times> 'm" where
  "task_page_free transport ptr bytes h m = snd (task_heap_free transport ptr h m)"

definition task_mmap :: "'m transport \<Rightarrow> nat \<Rightarrow> u64 \<Rightarrow> task_heap \<Rightarrow> 'm \<Rightarrow> nat \<times> task_heap \<times> 'm" where
  "task_mmap transport addr bytes = task_heap_alloc transport bytes (of_nat TASK_PAGE_SIZE) True"

definition task_munmap :: "'m transport \<Rightarrow> nat \<Rightarrow> u64 \<Rightarrow> task_heap \<Rightarrow> 'm \<Rightarrow> c_int \<times> task_heap \<times> 'm" where
  "task_munmap transport addr bytes = task_heap_free transport addr"

definition task_shmem_mmap ::
  "'m transport \<Rightarrow> nat \<Rightarrow> u64 \<Rightarrow> u64 \<Rightarrow> task_heap \<Rightarrow> 'm \<Rightarrow> nat \<times> task_heap \<times> 'm" where
  "task_shmem_mmap transport addr page_offset bytes =
     task_heap_alloc transport bytes (of_nat TASK_PAGE_SIZE) True"

section \<open>First fit\<close>

lemma free_run_le: "free_run used i n \<le> n"
  by (induction n arbitrary: i) auto

lemma free_run_free: "k < free_run used i n \<Longrightarrow> \<not> used (i + k)"
proof (induction n arbitrary: i k)
  case (Suc n)
  then show ?case
    by (cases k) (auto split: if_splits dest: Suc.IH [where i = "Suc i"])
qed simp

lemma free_run_stop: "free_run used i n < n \<Longrightarrow> used (i + free_run used i n)"
proof (induction n arbitrary: i)
  case (Suc n)
  then show ?case using Suc.IH [of "Suc i"] by (auto split: if_splits)
qed simp

lemma free_run_full: "free_run used i n = n \<longleftrightarrow> (\<forall>k < n. \<not> used (i + k))"
  by (metis free_run_free free_run_le free_run_stop le_neq_implies_less)

lemma find_run_Some:
  "find_run used n limit i = Some k \<Longrightarrow>
     i \<le> k \<and> k + n \<le> limit \<and> (\<forall>j < n. \<not> used (k + j)) \<and>
     (\<forall>l. i \<le> l \<and> l < k \<longrightarrow> (\<exists>j < n. used (l + j)))"
proof (induction used n limit i rule: find_run.induct)
  case (1 used n limit i)
  let ?j = "free_run used i n"
  show ?case
  proof (cases "i + n \<le> limit \<and> ?j \<noteq> n")
    case True
    then have lt: "?j < n" using free_run_le [of used i n] by simp
    have eq: "find_run used n limit (i + ?j + 1) = Some k"
      using "1.prems" True by (simp add: find_run.simps [of used n limit i] Let_def)
    have IH: "i + ?j + 1 \<le> k \<and> k + n \<le> limit \<and> (\<forall>j < n. \<not> used (k + j)) \<and>
        (\<forall>l. i + ?j + 1 \<le> l \<and> l < k \<longrightarrow> (\<exists>j < n. used (l + j)))"
      using "1.IH" True eq by blast
    have "\<exists>j < n. used (l + j)" if l: "i \<le> l" "l < k" for l
    proof (cases "l \<le> i + ?j")
      case True
      then have "used (l + (i + ?j - l))" using free_run_stop [OF lt] by simp
      moreover have "i + ?j - l < n" using lt l(1) True by simp
      ultimately show ?thesis by blast
    next
      case False
      with IH l show ?thesis by simp
    qed
    with IH show ?thesis by simp
  next
    case False
    with "1.prems" have "i + n \<le> limit" "?j = n" "k = i"
      by (auto simp: find_run.simps [of used n limit i] Let_def split: if_splits)
    then show ?thesis using free_run_full by auto
  qed
qed

lemma find_run_None:
  "find_run used n limit i = None \<Longrightarrow> i \<le> k \<Longrightarrow> k + n \<le> limit \<Longrightarrow> \<exists>j < n. used (k + j)"
proof (induction used n limit i rule: find_run.induct)
  case (1 used n limit i)
  let ?j = "free_run used i n"
  have le: "i + n \<le> limit" using "1.prems" by simp
  with "1.prems" have ne: "?j \<noteq> n" and rest: "find_run used n limit (i + ?j + 1) = None"
    by (auto simp: find_run.simps [of used n limit i] Let_def split: if_splits)
  then have lt: "?j < n" using free_run_le [of used i n] by simp
  show ?case
  proof (cases "k \<le> i + ?j")
    case True
    then have "used (k + (i + ?j - k))" using free_run_stop [OF lt] by simp
    moreover have "i + ?j - k < n" using lt "1.prems"(2) True by simp
    ultimately show ?thesis by blast
  next
    case False
    then show ?thesis using "1.IH" [OF le refl ne rest] "1.prems"(3) by simp
  qed
qed

text \<open>Reference definition: the least start of a run of free pages.\<close>

definition run_at :: "(nat \<Rightarrow> bool) \<Rightarrow> nat \<Rightarrow> nat \<Rightarrow> nat \<Rightarrow> bool" where
  "run_at used n limit k \<longleftrightarrow> k + n \<le> limit \<and> (\<forall>j < n. \<not> used (k + j))"

lemma find_run_first_fit:
  "find_run used n limit 0 =
     (if \<exists>k. run_at used n limit k then Some (LEAST k. run_at used n limit k) else None)"
proof (cases "find_run used n limit 0")
  case None
  then have "\<not> run_at used n limit k" for k
    using find_run_None [OF None, of k] by (auto simp: run_at_def)
  with None show ?thesis by simp
next
  case (Some k)
  then have k: "run_at used n limit k" and least: "\<And>l. l < k \<Longrightarrow> \<not> run_at used n limit l"
    using find_run_Some [OF Some] by (auto simp: run_at_def)
  then have "(LEAST k. run_at used n limit k) = k"
    by (intro Least_equality) (auto simp: not_less [symmetric])
  with k Some show ?thesis by auto
qed


section \<open>Invariant\<close>

definition alloc_first :: "task_heap_allocation \<Rightarrow> nat" where
  "alloc_first r = (ha_address r - LUNA_CHILD_HEAP_BASE) div TASK_PAGE_SIZE"

definition alloc_range :: "task_heap_allocation \<Rightarrow> nat set" where
  "alloc_range r = {alloc_first r..<alloc_first r + ha_pages r}"

definition alloc_ok :: "task_heap_allocation \<Rightarrow> bool" where
  "alloc_ok r \<longleftrightarrow>
     ha_address r = LUNA_CHILD_HEAP_BASE + alloc_first r * TASK_PAGE_SIZE \<and>
     0 < ha_pages r \<and> alloc_first r + ha_pages r \<le> LUNA_CHILD_HEAP_PAGES \<and>
     0 < ha_requested r \<and> ha_requested r \<le> ha_pages r * TASK_PAGE_SIZE"

abbreviation alloc_used :: "task_heap \<Rightarrow> nat \<Rightarrow> bool" where
  "alloc_used h i \<equiv> ha_used (task_heap_allocations h i)"

definition alloc_bytes :: "task_heap \<Rightarrow> nat \<Rightarrow> nat" where
  "alloc_bytes h i = (if alloc_used h i then ha_requested (task_heap_allocations h i) else 0)"

definition heap_inv :: "task_heap \<Rightarrow> bool" where
  "heap_inv h \<longleftrightarrow>
     (\<forall>i < TASK_HEAP_MAX_ALLOCATIONS. alloc_used h i \<longrightarrow> alloc_ok (task_heap_allocations h i)) \<and>
     (\<forall>i < TASK_HEAP_MAX_ALLOCATIONS. \<forall>j < TASK_HEAP_MAX_ALLOCATIONS.
        alloc_used h i \<and> alloc_used h j \<and> i \<noteq> j \<longrightarrow>
        alloc_range (task_heap_allocations h i) \<inter> alloc_range (task_heap_allocations h j) = {}) \<and>
     (\<forall>p < LUNA_CHILD_HEAP_PAGES. task_heap_pages h p \<longleftrightarrow>
        (\<exists>i < TASK_HEAP_MAX_ALLOCATIONS. alloc_used h i \<and> p \<in> alloc_range (task_heap_allocations h i))) \<and>
     task_heap_active_allocations h = count_below (alloc_used h) TASK_HEAP_MAX_ALLOCATIONS \<and>
     task_heap_active_bytes h = (\<Sum>i < TASK_HEAP_MAX_ALLOCATIONS. alloc_bytes h i) \<and>
     task_heap_active_bytes h \<le> task_heap_peak_bytes h"

lemma heap_inv_init: "heap_inv (task_heap_init h)"
  by (simp add: heap_inv_def task_heap_init_def empty_allocation_def alloc_bytes_def)

lemma idle_iff_no_allocation:
  assumes "heap_inv h"
  shows "task_heap_is_idle h \<longleftrightarrow> (\<forall>i < TASK_HEAP_MAX_ALLOCATIONS. \<not> alloc_used h i)"
  using assms by (auto simp: task_heap_is_idle_def heap_inv_def first_index_None alloc_bytes_def)

text \<open>The stores \<open>task_heap_alloc\<close> makes after the manager has mapped the pages.\<close>

definition alloc_commit :: "nat \<Rightarrow> task_heap_allocation \<Rightarrow> bool \<Rightarrow> task_heap \<Rightarrow> task_heap" where
  "alloc_commit k r zero h = h\<lparr>
     task_heap_pages := memset_at (task_heap_pages h) (alloc_first r) (ha_pages r) True,
     task_heap_allocations := (task_heap_allocations h)(k := r),
     task_heap_active_allocations := task_heap_active_allocations h + 1,
     task_heap_active_bytes := task_heap_active_bytes h + ha_requested r,
     task_heap_peak_bytes := max (task_heap_active_bytes h + ha_requested r) (task_heap_peak_bytes h),
     task_heap_memory := (if zero then memset_at (task_heap_memory h) (ha_address r) (ha_requested r) 0
                          else task_heap_memory h)\<rparr>"

lemma alloc_bytes_ipc [simp]: "alloc_bytes (h\<lparr>task_heap_ipc := c\<rparr>) = alloc_bytes h"
  by (auto simp: alloc_bytes_def)

lemma heap_inv_ipc [simp]: "heap_inv (h\<lparr>task_heap_ipc := c\<rparr>) = heap_inv h"
  by (simp add: heap_inv_def)

lemma heap_inv_memory [simp]: "heap_inv (h\<lparr>task_heap_memory := mem\<rparr>) = heap_inv h"
proof -
  have "alloc_bytes (h\<lparr>task_heap_memory := mem\<rparr>) = alloc_bytes h" by (auto simp: alloc_bytes_def)
  then show ?thesis by (simp add: heap_inv_def)
qed

text \<open>Adding a record for a free run, and removing a record, keep the invariant.\<close>

lemma heap_inv_add:
  assumes inv: "heap_inv h" and k: "k < TASK_HEAP_MAX_ALLOCATIONS" "\<not> alloc_used h k"
    and ok: "alloc_ok r" "ha_used r"
    and run: "\<forall>p \<in> alloc_range r. \<not> task_heap_pages h p"
  shows "heap_inv (alloc_commit k r zero h)" (is "heap_inv ?h")
proof -
  have inside: "alloc_range r \<subseteq> {..<LUNA_CHILD_HEAP_PAGES}"
    using ok by (auto simp: alloc_range_def alloc_ok_def)
  have fresh: "alloc_range (task_heap_allocations h i) \<inter> alloc_range r = {}"
    if "i < TASK_HEAP_MAX_ALLOCATIONS" "alloc_used h i" for i
    using inv run inside that unfolding heap_inv_def by (metis (no_types, opaque_lifting) disjoint_iff lessThan_iff subsetD)
  have pages: "task_heap_pages ?h p \<longleftrightarrow> task_heap_pages h p \<or> p \<in> alloc_range r" for p
    by (auto simp: alloc_commit_def memset_at_def alloc_range_def)
  have used: "alloc_used ?h = (alloc_used h)(k := True)" using ok by (auto simp: alloc_commit_def)
  have bytes: "alloc_bytes ?h = (alloc_bytes h)(k := ha_requested r)"
    using ok by (auto simp: alloc_commit_def alloc_bytes_def)
  have sum: "(\<Sum>i < TASK_HEAP_MAX_ALLOCATIONS. alloc_bytes ?h i) =
      (\<Sum>i < TASK_HEAP_MAX_ALLOCATIONS. alloc_bytes h i) + ha_requested r"
    using sum_below_upd [OF k(1), of "alloc_bytes h" "ha_requested r"] k
    unfolding bytes by (simp add: alloc_bytes_def)
  have count: "count_below (alloc_used ?h) TASK_HEAP_MAX_ALLOCATIONS =
      Suc (count_below (alloc_used h) TASK_HEAP_MAX_ALLOCATIONS)"
    unfolding used using k by (intro count_below_set) auto
  have cover: "task_heap_pages ?h p \<longleftrightarrow> (\<exists>i < TASK_HEAP_MAX_ALLOCATIONS. alloc_used ?h i \<and>
      p \<in> alloc_range (task_heap_allocations ?h i))" if "p < LUNA_CHILD_HEAP_PAGES" for p
    using inv k ok that unfolding pages heap_inv_def by (auto simp: alloc_commit_def; metis)
  have disj: "alloc_range (task_heap_allocations ?h i) \<inter> alloc_range (task_heap_allocations ?h j) = {}"
    if "i < TASK_HEAP_MAX_ALLOCATIONS" "j < TASK_HEAP_MAX_ALLOCATIONS"
      "alloc_used ?h i \<and> alloc_used ?h j \<and> i \<noteq> j" for i j
  proof (cases "i = k \<or> j = k")
    case True
    with that fresh [of i] fresh [of j] show ?thesis by (auto simp: alloc_commit_def Int_commute)
  next
    case False
    with that inv show ?thesis by (simp add: heap_inv_def alloc_commit_def)
  qed
  have each: "alloc_ok (task_heap_allocations ?h i)"
    if "i < TASK_HEAP_MAX_ALLOCATIONS" "alloc_used ?h i" for i
    using that inv ok by (auto simp: heap_inv_def alloc_commit_def split: if_splits)
  show ?thesis
    unfolding heap_inv_def
  proof (intro conjI allI impI)
    fix p assume "p < LUNA_CHILD_HEAP_PAGES"
    then show "task_heap_pages ?h p \<longleftrightarrow> (\<exists>i < TASK_HEAP_MAX_ALLOCATIONS. alloc_used ?h i \<and>
      p \<in> alloc_range (task_heap_allocations ?h i))" by (rule cover)
  qed (use inv sum count disj each in \<open>simp_all add: heap_inv_def, simp_all add: alloc_commit_def\<close>)
qed

lemma heap_inv_remove:
  assumes inv: "heap_inv h" and k: "k < TASK_HEAP_MAX_ALLOCATIONS" "alloc_used h k"
    and r: "r = task_heap_allocations h k"
  shows "heap_inv (h\<lparr>
    task_heap_pages := memset_at (task_heap_pages h) (alloc_first r) (ha_pages r) False,
    task_heap_active_allocations := task_heap_active_allocations h - 1,
    task_heap_active_bytes := task_heap_active_bytes h - ha_requested r,
    task_heap_allocations := (task_heap_allocations h)(k := empty_allocation)\<rparr>)" (is "heap_inv ?h")
proof -
  have pages: "task_heap_pages ?h p \<longleftrightarrow> task_heap_pages h p \<and> p \<notin> alloc_range r" for p
    by (auto simp: memset_at_def alloc_range_def)
  have used: "alloc_used ?h = (alloc_used h)(k := False)" by (auto simp: empty_allocation_def)
  have bytes: "alloc_bytes ?h = (alloc_bytes h)(k := 0)"
    by (auto simp: alloc_bytes_def empty_allocation_def)
  have sum: "(\<Sum>i < TASK_HEAP_MAX_ALLOCATIONS. alloc_bytes ?h i) + ha_requested r =
      (\<Sum>i < TASK_HEAP_MAX_ALLOCATIONS. alloc_bytes h i)"
    using sum_below_upd [OF k(1), of "alloc_bytes h" 0] k r
    unfolding bytes by (simp add: alloc_bytes_def)
  have count: "Suc (count_below (alloc_used ?h) TASK_HEAP_MAX_ALLOCATIONS) =
      count_below (alloc_used h) TASK_HEAP_MAX_ALLOCATIONS"
    unfolding used using k by (intro count_below_clear) auto
  have apart: "alloc_range (task_heap_allocations h i) \<inter> alloc_range r = {}"
    if "i < TASK_HEAP_MAX_ALLOCATIONS" "alloc_used h i" "i \<noteq> k" for i
    using inv k r that unfolding heap_inv_def by blast
  have cover: "task_heap_pages ?h p \<longleftrightarrow> (\<exists>i < TASK_HEAP_MAX_ALLOCATIONS. alloc_used ?h i \<and>
      p \<in> alloc_range (task_heap_allocations ?h i))" if p: "p < LUNA_CHILD_HEAP_PAGES" for p
  proof -
    have "task_heap_pages h p \<longleftrightarrow> (\<exists>i < TASK_HEAP_MAX_ALLOCATIONS. alloc_used h i \<and>
      p \<in> alloc_range (task_heap_allocations h i))" using inv p unfolding heap_inv_def by blast
    then show ?thesis unfolding pages using apart k r
      by (auto simp: empty_allocation_def; metis disjoint_iff)
  qed
  show ?thesis
    unfolding heap_inv_def
  proof (intro conjI allI impI)
    fix p assume "p < LUNA_CHILD_HEAP_PAGES"
    then show "task_heap_pages ?h p \<longleftrightarrow> (\<exists>i < TASK_HEAP_MAX_ALLOCATIONS. alloc_used ?h i \<and>
      p \<in> alloc_range (task_heap_allocations ?h i))" by (rule cover)
  qed (use inv k sum count in \<open>auto simp: heap_inv_def empty_allocation_def split: if_splits\<close>)
qed


text \<open>The stores \<open>task_heap_free\<close> makes after the manager has unmapped the pages.\<close>

definition free_commit :: "nat \<Rightarrow> task_heap \<Rightarrow> task_heap" where
  "free_commit k h = h\<lparr>
     task_heap_pages := memset_at (task_heap_pages h) (alloc_first (task_heap_allocations h k))
                          (ha_pages (task_heap_allocations h k)) False,
     task_heap_active_allocations := task_heap_active_allocations h - 1,
     task_heap_active_bytes := task_heap_active_bytes h - ha_requested (task_heap_allocations h k),
     task_heap_allocations := (task_heap_allocations h)(k := empty_allocation)\<rparr>"

lemma heap_inv_lookup:
  assumes inv: "heap_inv h" and k: "k < TASK_HEAP_MAX_ALLOCATIONS" "alloc_used h k"
    "ha_address (task_heap_allocations h k) = ptr"
  shows "first_index (\<lambda>i. alloc_used h i \<and> ha_address (task_heap_allocations h i) = ptr)
      TASK_HEAP_MAX_ALLOCATIONS = Some k"
proof -
  let ?P = "\<lambda>i. alloc_used h i \<and> ha_address (task_heap_allocations h i) = ptr"
  from k obtain i where i: "first_index ?P TASK_HEAP_MAX_ALLOCATIONS = Some i"
    using first_index_ex [of k TASK_HEAP_MAX_ALLOCATIONS ?P] by auto
  from first_index_Some [OF i]
  have i': "i < TASK_HEAP_MAX_ALLOCATIONS" "alloc_used h i" "ha_address (task_heap_allocations h i) = ptr"
    by auto
  have "i = k"
  proof (rule ccontr)
    assume "i \<noteq> k"
    then have "alloc_range (task_heap_allocations h i) \<inter> alloc_range (task_heap_allocations h k) = {}"
      using inv i' k unfolding heap_inv_def by blast
    moreover have "alloc_first (task_heap_allocations h i) = alloc_first (task_heap_allocations h k)"
      using i' k by (simp add: alloc_first_def)
    moreover have "0 < ha_pages (task_heap_allocations h i)" "0 < ha_pages (task_heap_allocations h k)"
      using inv i' k by (auto simp: heap_inv_def alloc_ok_def)
    ultimately show False by (auto simp: alloc_range_def disjoint_iff)
  qed
  with i show ?thesis by simp
qed

section \<open>The manager's contract and the heap on top of it\<close>

lemma page_count_word:
  fixes r :: u64
  assumes "\<not> r > - 1 - (of_nat TASK_PAGE_SIZE - 1)"
  shows "unat ((r + of_nat TASK_PAGE_SIZE - 1) div of_nat TASK_PAGE_SIZE) = (unat r + 4095) div 4096"
proof -
  have "unat r \<le> 2 ^ 64 - 4096"
    using assms by (simp add: luna_consts not_less word_le_nat_alt)
  then have "unat (r + 4096 - 1) = unat r + 4095"
    by (simp add: unat_word_ariths flip: add_diff_eq)
  then show ?thesis by (simp add: luna_consts unat_div)
qed

definition requested_bytes :: "u64 \<Rightarrow> nat" where
  "requested_bytes b = (if b = 0 then 1 else unat b)"

definition new_record :: "u64 \<Rightarrow> nat \<Rightarrow> task_heap_allocation" where
  "new_record b f = \<lparr>ha_address = LUNA_CHILD_HEAP_BASE + f * TASK_PAGE_SIZE,
     ha_pages = (requested_bytes b + 4095) div 4096,
     ha_requested = requested_bytes b, ha_used = True\<rparr>"

lemma new_record_first [simp]: "alloc_first (new_record b f) = f"
  by (simp add: alloc_first_def new_record_def luna_consts)

lemma requested_bytes_pos [simp]: "0 < requested_bytes b"
  by (simp add: requested_bytes_def unat_gt_0)

lemma new_record_ok:
  "f + ha_pages (new_record b f) \<le> LUNA_CHILD_HEAP_PAGES \<Longrightarrow> alloc_ok (new_record b f)"
  using requested_bytes_pos [of b] unfolding alloc_ok_def new_record_first
  by (auto simp: new_record_def luna_consts div_greater_zero_iff Suc_le_eq)

lemma alloc_commit_eq:
  "h\<lparr>task_heap_pages := memset_at (task_heap_pages h) f ((requested_bytes b + 4095) div 4096) True,
     task_heap_allocations := (task_heap_allocations h)(k :=
       \<lparr>ha_address = LUNA_CHILD_HEAP_BASE + f * TASK_PAGE_SIZE,
        ha_pages = (requested_bytes b + 4095) div 4096,
        ha_requested = requested_bytes b, ha_used = True\<rparr>),
     task_heap_active_allocations := task_heap_active_allocations h + 1,
     task_heap_active_bytes := task_heap_active_bytes h + requested_bytes b,
     task_heap_peak_bytes := (if task_heap_active_bytes h + requested_bytes b > task_heap_peak_bytes h
       then task_heap_active_bytes h + requested_bytes b else task_heap_peak_bytes h),
     task_heap_memory := (if zero then memset_at (task_heap_memory h)
          (LUNA_CHILD_HEAP_BASE + f * TASK_PAGE_SIZE) (requested_bytes b) 0
        else task_heap_memory h)\<rparr> = alloc_commit k (new_record b f) zero h"
  unfolding alloc_commit_def new_record_first by (simp add: new_record_def max_def)

definition alloc_align :: "u64 \<Rightarrow> u64" where
  "alloc_align align = (if align < TASK_HEAP_ALIGNMENT then TASK_HEAP_ALIGNMENT else align)"

definition alloc_guard :: "u64 \<Rightarrow> u64 \<Rightarrow> bool" where
  "alloc_guard bytes align \<longleftrightarrow>
     alloc_align align AND (alloc_align align - 1) = 0 \<and> unat (alloc_align align) \<le> TASK_PAGE_SIZE \<and>
     requested_bytes bytes \<le> LUNA_CHILD_HEAP_SIZE"

text \<open>The three early returns of \<open>task_heap_alloc\<close> are one bound on the request.\<close>

lemma task_heap_alloc_eq:
  "task_heap_alloc transport bytes align zero h m =
     (if \<not> alloc_guard bytes align then (0, h, m) else
      case first_index (\<lambda>i. \<not> alloc_used h i) TASK_HEAP_MAX_ALLOCATIONS of
        None \<Rightarrow> (0, h, m)
      | Some k \<Rightarrow>
          (case find_run (task_heap_pages h) ((requested_bytes bytes + 4095) div 4096)
                  LUNA_CHILD_HEAP_PAGES 0 of
             None \<Rightarrow> (0, h, m)
           | Some f \<Rightarrow>
               let (e, h1, m1) = task_heap_request transport LUNA_ISOLATION_EVENT_MEMORY_MAP
                     (ha_address (new_record bytes f)) (ha_pages (new_record bytes f)) h m
               in if e \<noteq> 0 then (0, h1, m1)
                  else (ha_address (new_record bytes f), alloc_commit k (new_record bytes f) zero h1, m1)))"
proof -
  let ?rq = "if bytes \<noteq> 0 then bytes else 1"
  have rq: "unat ?rq = requested_bytes bytes" by (simp add: requested_bytes_def)
  have pages0: "(requested_bytes bytes + 4095) div 4096 \<noteq> 0"
    using requested_bytes_pos [of bytes] by (simp add: div_eq_0_iff)
  show ?thesis
  proof (cases "?rq > - 1 - (of_nat TASK_PAGE_SIZE - 1)")
    case True
    then have "requested_bytes bytes > 2 ^ 64 - 4096"
      unfolding rq [symmetric] by (simp add: luna_consts word_less_nat_alt)
    then have "\<not> alloc_guard bytes align" by (simp add: alloc_guard_def luna_consts)
    with True show ?thesis unfolding task_heap_alloc_def Let_def by (simp del: not_le not_less)
  next
    case False
    note pages = page_count_word [OF False, unfolded rq]
    have guard: "alloc_guard bytes align \<longleftrightarrow>
      alloc_align align AND (alloc_align align - 1) = 0 \<and> \<not> unat (alloc_align align) > TASK_PAGE_SIZE \<and>
      \<not> (requested_bytes bytes + 4095) div 4096 > LUNA_CHILD_HEAP_PAGES"
      by (auto simp: alloc_guard_def luna_consts div_le_mono)
    show ?thesis
      unfolding task_heap_alloc_def Let_def alloc_align_def [symmetric] pages rq guard if_not_P [OF False]
        alloc_commit_eq
      using pages0 by (auto simp: new_record_def split: option.split prod.split)
  qed
qed

lemma task_heap_alloc_cases:
  assumes "task_heap_alloc transport bytes align zero h m = (a, h', m')"
  obtains (refused) "a = 0" "h' = h" "m' = m"
  | (mapped) k f e h1 m1 where
      "k < TASK_HEAP_MAX_ALLOCATIONS" "\<not> alloc_used h k"
      "find_run (task_heap_pages h) (ha_pages (new_record bytes f)) LUNA_CHILD_HEAP_PAGES 0 = Some f"
      "task_heap_request transport LUNA_ISOLATION_EVENT_MEMORY_MAP
         (ha_address (new_record bytes f)) (ha_pages (new_record bytes f)) h m = (e, h1, m1)"
      "m' = m1"
      "(a, h') = (if e = 0 then (ha_address (new_record bytes f), alloc_commit k (new_record bytes f) zero h1)
                  else (0, h1))"
proof -
  have pages: "ha_pages (new_record bytes f) = (requested_bytes bytes + 4095) div 4096" for f
    by (simp add: new_record_def)
  show ?thesis
    using assms unfolding task_heap_alloc_eq
    by (auto split: if_splits option.splits prod.splits dest!: first_index_Some
        intro: refused mapped simp: pages)
qed

lemma heap_free_dead:
  assumes "\<nexists>k. k < TASK_HEAP_MAX_ALLOCATIONS \<and> alloc_used h k \<and>
      ha_address (task_heap_allocations h k) = ptr" "ptr \<noteq> 0"
  shows "task_heap_free transport ptr h m = (-1, h, m)"
proof -
  have "first_index (\<lambda>i. alloc_used h i \<and> ha_address (task_heap_allocations h i) = ptr)
      TASK_HEAP_MAX_ALLOCATIONS = None"
    using assms by (auto simp: first_index_None)
  with assms(2) show ?thesis by (simp add: task_heap_free_def)
qed

text \<open>
  What the heap relies on: the answering side keeps a set of mapped pages; a map request for
  unmapped pages of the arena either maps exactly them and answers 0 or changes nothing and
  answers an error; an unmap request for mapped pages succeeds and unmaps exactly them.
\<close>

locale page_service =
  fixes transport :: "'m transport"
    and mapped :: "'m \<Rightarrow> nat \<Rightarrow> bool"
    and ok :: "'m \<Rightarrow> bool"
  assumes map_reply:
    "ok m \<Longrightarrow> 0 < n \<Longrightarrow> first + n \<le> LUNA_CHILD_HEAP_PAGES \<Longrightarrow>
     (\<And>j. j < n \<Longrightarrow> \<not> mapped m (first + j)) \<Longrightarrow>
     \<exists>e m'. transport [event_word LUNA_ISOLATION_EVENT_MEMORY_MAP,
          of_nat (LUNA_CHILD_HEAP_BASE + first * TASK_PAGE_SIZE), of_nat n] m =
          (Message 0 0 [command_word LUNA_COMMAND_MEMORY_RESULT, word_of_cint e], m') \<and> ok m' \<and>
       mapped m' = (if e = 0 then memset_at (mapped m) first n True else mapped m)"
    and unmap_reply:
    "ok m \<Longrightarrow> 0 < n \<Longrightarrow> first + n \<le> LUNA_CHILD_HEAP_PAGES \<Longrightarrow>
     (\<And>j. j < n \<Longrightarrow> mapped m (first + j)) \<Longrightarrow>
     \<exists>m'. transport [event_word LUNA_ISOLATION_EVENT_MEMORY_UNMAP,
          of_nat (LUNA_CHILD_HEAP_BASE + first * TASK_PAGE_SIZE), of_nat n] m =
          (Message 0 0 [command_word LUNA_COMMAND_MEMORY_RESULT, 0], m') \<and> ok m' \<and>
       mapped m' = memset_at (mapped m) first n False"
begin

definition agree :: "task_heap \<Rightarrow> 'm \<Rightarrow> bool" where
  "agree h m \<longleftrightarrow> ok m \<and> (\<forall>p < LUNA_CHILD_HEAP_PAGES. mapped m p = task_heap_pages h p)"

lemma request_map:
  assumes "agree h m" "ipc_ready (task_heap_ipc h)" "0 < n" "first + n \<le> LUNA_CHILD_HEAP_PAGES"
    and "\<And>j. j < n \<Longrightarrow> \<not> task_heap_pages h (first + j)"
  obtains e m' where
    "task_heap_request transport LUNA_ISOLATION_EVENT_MEMORY_MAP
       (LUNA_CHILD_HEAP_BASE + first * TASK_PAGE_SIZE) n h m =
       (e, h\<lparr>task_heap_ipc := ipc_counted (task_heap_ipc h)\<rparr>, m')"
    and "ok m'" and "mapped m' = (if e = 0 then memset_at (mapped m) first n True else mapped m)"
proof -
  have "\<not> mapped m (first + j)" if "j < n" for j using assms that by (auto simp: agree_def)
  then obtain e m' where r: "transport [event_word LUNA_ISOLATION_EVENT_MEMORY_MAP,
          of_nat (LUNA_CHILD_HEAP_BASE + first * TASK_PAGE_SIZE), of_nat n] m =
          (Message 0 0 [command_word LUNA_COMMAND_MEMORY_RESULT, word_of_cint e], m')"
    and "ok m'" "mapped m' = (if e = 0 then memset_at (mapped m) first n True else mapped m)"
    using map_reply [of m n first] assms by (auto simp: agree_def)
  moreover have "task_heap_request transport LUNA_ISOLATION_EVENT_MEMORY_MAP
       (LUNA_CHILD_HEAP_BASE + first * TASK_PAGE_SIZE) n h m =
       (e, h\<lparr>task_heap_ipc := ipc_counted (task_heap_ipc h)\<rparr>, m')"
    using assms manager_request_reply [where transport = transport, OF assms(2) r]
    by (simp add: task_heap_request_def expected_reply_def)
  ultimately show ?thesis by (intro that)
qed

lemma request_unmap:
  assumes "agree h m" "ipc_ready (task_heap_ipc h)" "0 < n" "first + n \<le> LUNA_CHILD_HEAP_PAGES"
    and "\<And>j. j < n \<Longrightarrow> task_heap_pages h (first + j)"
  obtains m' where
    "task_heap_request transport LUNA_ISOLATION_EVENT_MEMORY_UNMAP
       (LUNA_CHILD_HEAP_BASE + first * TASK_PAGE_SIZE) n h m =
       (0, h\<lparr>task_heap_ipc := ipc_counted (task_heap_ipc h)\<rparr>, m')"
    and "ok m'" and "mapped m' = memset_at (mapped m) first n False"
proof -
  have "mapped m (first + j)" if "j < n" for j using assms that by (auto simp: agree_def)
  then obtain m' where r: "transport [event_word LUNA_ISOLATION_EVENT_MEMORY_UNMAP,
          of_nat (LUNA_CHILD_HEAP_BASE + first * TASK_PAGE_SIZE), of_nat n] m =
          (Message 0 0 [command_word LUNA_COMMAND_MEMORY_RESULT, 0], m')"
    and "ok m'" "mapped m' = memset_at (mapped m) first n False"
    using unmap_reply [of m n first] assms by (auto simp: agree_def)
  moreover have "task_heap_request transport LUNA_ISOLATION_EVENT_MEMORY_UNMAP
       (LUNA_CHILD_HEAP_BASE + first * TASK_PAGE_SIZE) n h m =
       (0, h\<lparr>task_heap_ipc := ipc_counted (task_heap_ipc h)\<rparr>, m')"
    using assms manager_request_reply [where transport = transport and e = 0, OF assms(2), simplified word_of_cint_0, OF r]
    by (simp add: task_heap_request_def expected_reply_def)
  ultimately show ?thesis by (intro that)
qed

lemma alloc_spec:
  assumes inv: "heap_inv h" "agree h m" "ipc_ready (task_heap_ipc h)"
    and run: "task_heap_alloc transport bytes align zero h m = (a, h', m')"
  shows "heap_inv h' \<and> agree h' m' \<and> ipc_ready (task_heap_ipc h')"
    and "a = 0 \<Longrightarrow> task_heap_allocations h' = task_heap_allocations h \<and>
           task_heap_pages h' = task_heap_pages h \<and> task_heap_memory h' = task_heap_memory h"
    and "a \<noteq> 0 \<Longrightarrow> \<exists>k f. k < TASK_HEAP_MAX_ALLOCATIONS \<and> \<not> alloc_used h k \<and>
           a = ha_address (new_record bytes f) \<and> alloc_ok (new_record bytes f) \<and>
           (\<forall>p \<in> alloc_range (new_record bytes f). \<not> task_heap_pages h p) \<and>
           h' = alloc_commit k (new_record bytes f) zero
                  (h\<lparr>task_heap_ipc := ipc_counted (task_heap_ipc h)\<rparr>)"
proof -
  have "heap_inv h' \<and> agree h' m' \<and> ipc_ready (task_heap_ipc h') \<and>
    (a = 0 \<longrightarrow> task_heap_allocations h' = task_heap_allocations h \<and>
       task_heap_pages h' = task_heap_pages h \<and> task_heap_memory h' = task_heap_memory h) \<and>
    (a \<noteq> 0 \<longrightarrow> (\<exists>k f. k < TASK_HEAP_MAX_ALLOCATIONS \<and> \<not> alloc_used h k \<and>
           a = ha_address (new_record bytes f) \<and> alloc_ok (new_record bytes f) \<and>
           (\<forall>p \<in> alloc_range (new_record bytes f). \<not> task_heap_pages h p) \<and>
           h' = alloc_commit k (new_record bytes f) zero
                  (h\<lparr>task_heap_ipc := ipc_counted (task_heap_ipc h)\<rparr>)))"
    using run
  proof (cases rule: task_heap_alloc_cases)
    case refused
    with inv show ?thesis by simp
  next
    case (mapped k f e h1 m1)
    let ?r = "new_record bytes f"
    have fit: "f + ha_pages ?r \<le> LUNA_CHILD_HEAP_PAGES" "\<And>j. j < ha_pages ?r \<Longrightarrow> \<not> task_heap_pages h (f + j)"
      using find_run_Some [OF mapped(3)] by auto
    have ok: "alloc_ok ?r" by (rule new_record_ok [OF fit(1)])
    then have pos: "0 < ha_pages ?r" by (simp add: alloc_ok_def)
    have addr: "ha_address ?r = LUNA_CHILD_HEAP_BASE + f * TASK_PAGE_SIZE" by (simp add: new_record_def)
    have free: "\<forall>p \<in> alloc_range ?r. \<not> task_heap_pages h p"
      using fit(2) by (auto simp: alloc_range_def elim!: allE dest!: le_Suc_ex)
    have nz: "ha_address ?r \<noteq> 0" by (simp add: addr luna_consts)
    obtain e' m2 where "task_heap_request transport LUNA_ISOLATION_EVENT_MEMORY_MAP
         (ha_address ?r) (ha_pages ?r) h m = (e', h\<lparr>task_heap_ipc := ipc_counted (task_heap_ipc h)\<rparr>, m2)"
      and m2: "ok m2" "mapped m2 = (if e' = 0 then memset_at (mapped m) f (ha_pages ?r) True else mapped m)"
      using request_map [OF inv(2,3) pos fit] unfolding addr by blast
    with mapped(4) have h1: "h1 = h\<lparr>task_heap_ipc := ipc_counted (task_heap_ipc h)\<rparr>" and e': "e' = e" "m2 = m1"
      by auto
    show ?thesis
    proof (cases "e = 0")
      case True
      then have h': "a = ha_address ?r" "h' = alloc_commit k ?r zero h1" using mapped(6) by auto
      have "heap_inv h'"
        unfolding h' h1 using inv(1) mapped(1,2) ok free
        by (intro heap_inv_add) (auto simp: new_record_def)
      moreover have "agree h' m'"
        using inv(2) m2 True e' mapped(5) unfolding h' h1 agree_def alloc_commit_def
        by (simp add: memset_at_def)
      moreover have "ipc_ready (task_heap_ipc h')" using inv(3) by (simp add: h' h1 alloc_commit_def)
      ultimately show ?thesis using mapped(1,2) ok free nz h' h1 by auto
    next
      case False
      with mapped(5,6) inv m2 e' h1 show ?thesis by (auto simp: agree_def)
    qed
  qed
  then show "heap_inv h' \<and> agree h' m' \<and> ipc_ready (task_heap_ipc h')"
    and "a = 0 \<Longrightarrow> task_heap_allocations h' = task_heap_allocations h \<and>
           task_heap_pages h' = task_heap_pages h \<and> task_heap_memory h' = task_heap_memory h"
    and "a \<noteq> 0 \<Longrightarrow> \<exists>k f. k < TASK_HEAP_MAX_ALLOCATIONS \<and> \<not> alloc_used h k \<and>
           a = ha_address (new_record bytes f) \<and> alloc_ok (new_record bytes f) \<and>
           (\<forall>p \<in> alloc_range (new_record bytes f). \<not> task_heap_pages h p) \<and>
           h' = alloc_commit k (new_record bytes f) zero
                  (h\<lparr>task_heap_ipc := ipc_counted (task_heap_ipc h)\<rparr>)"
    by blast+
qed

text \<open>
  \<open>task_heap_free\<close> of the address of a live allocation always succeeds, removes exactly that
  record and unmaps exactly its pages; any other non-null pointer is rejected without effect.
\<close>

lemma free_live:
  assumes inv: "heap_inv h" "agree h m" "ipc_ready (task_heap_ipc h)"
    and k: "k < TASK_HEAP_MAX_ALLOCATIONS" "alloc_used h k" "ha_address (task_heap_allocations h k) = ptr"
  obtains m' where
    "task_heap_free transport ptr h m =
       (0, free_commit k (h\<lparr>task_heap_ipc := ipc_counted (task_heap_ipc h)\<rparr>), m')"
    and "heap_inv (free_commit k h)"
    and "agree (free_commit k (h\<lparr>task_heap_ipc := ipc_counted (task_heap_ipc h)\<rparr>)) m'"
proof -
  let ?r = "task_heap_allocations h k" and ?h = "h\<lparr>task_heap_ipc := ipc_counted (task_heap_ipc h)\<rparr>"
  have ok: "alloc_ok ?r" using inv(1) k by (auto simp: heap_inv_def)
  have addr: "ptr = LUNA_CHILD_HEAP_BASE + alloc_first ?r * TASK_PAGE_SIZE"
    and pos: "0 < ha_pages ?r" and fit: "alloc_first ?r + ha_pages ?r \<le> LUNA_CHILD_HEAP_PAGES"
    using ok k by (auto simp: alloc_ok_def)
  have guard: "\<not> (ptr < LUNA_CHILD_HEAP_BASE \<or> ptr \<ge> LUNA_CHILD_HEAP_BASE + LUNA_CHILD_HEAP_SIZE \<or>
      ptr mod TASK_PAGE_SIZE \<noteq> 0)" "ptr \<noteq> 0"
    using pos fit unfolding addr by (auto simp: luna_consts)
  have index: "first_index (\<lambda>i. alloc_used h i \<and> ha_address (task_heap_allocations h i) = ptr)
      TASK_HEAP_MAX_ALLOCATIONS = Some k"
    by (rule heap_inv_lookup [OF inv(1) k])
  have "task_heap_pages h (alloc_first ?r + j)" if "j < ha_pages ?r" for j
    using inv(1) k that fit unfolding heap_inv_def by (auto simp: alloc_range_def)
  from request_unmap [OF inv(2,3) pos fit this] obtain m' where
    req: "task_heap_request transport LUNA_ISOLATION_EVENT_MEMORY_UNMAP ptr (ha_pages ?r) h m = (0, ?h, m')"
    and m': "ok m'" "mapped m' = memset_at (mapped m) (alloc_first ?r) (ha_pages ?r) False"
    unfolding addr [symmetric] by blast
  have first: "(ptr - LUNA_CHILD_HEAP_BASE) div TASK_PAGE_SIZE = alloc_first ?r"
    using k by (simp add: alloc_first_def)
  show ?thesis
  proof (rule that)
    show "task_heap_free transport ptr h m = (0, free_commit k ?h, m')"
      using guard unfolding task_heap_free_def if_not_P [OF guard(1)]
      by (simp add: index req first free_commit_def Let_def)
    show "heap_inv (free_commit k h)"
      unfolding free_commit_def using heap_inv_remove [OF inv(1) k(1,2) refl] by simp
    show "agree (free_commit k ?h) m'"
      using inv(2) m' by (simp add: agree_def free_commit_def memset_at_def)
  qed
qed

end

end
