(* ===== verification/Allocator_Spec.thy ===== *)
theory Allocator_Spec
  imports Luna_Prelude
begin

text \<open>
  What a client may rely on of an allocator, independently of how it keeps its blocks. The state
  is abstracted to the partial map \<open>live\<close> from the addresses handed out and not yet freed to the
  sizes usable there. Both allocators of the task provide this contract: the page heap behind the
  LKL host operations and the block list behind the BusyBox \<open>malloc\<close>.
\<close>

datatype alloc_op = Alloc u64 | Free nat

locale allocator =
  fixes ok :: "'s \<Rightarrow> bool"
    and live :: "'s \<Rightarrow> nat \<Rightarrow> nat option"
    and alloc :: "u64 \<Rightarrow> 's \<Rightarrow> (nat \<times> 's) option"
    and free :: "nat \<Rightarrow> 's \<Rightarrow> 's option"
  assumes alloc_returns:
    "ok s \<Longrightarrow> \<exists>a s'. alloc b s = Some (a, s') \<and> ok s' \<and>
       (if a = 0 then live s' = live s
        else live s a = None \<and> (\<exists>k \<ge> unat b. 0 < k \<and> live s' = (live s)(a \<mapsto> k)))"
    and free_returns: "ok s \<Longrightarrow> \<exists>s'. free p s = Some s' \<and> ok s' \<and> live s' = (live s)(p := None)"
    and live_disjoint:
    "ok s \<Longrightarrow> live s p = Some n \<Longrightarrow> live s q = Some k \<Longrightarrow> p \<noteq> q \<Longrightarrow> {p..<p + n} \<inter> {q..<q + k} = {}"
    and live_not_null: "ok s \<Longrightarrow> live s 0 = None"
begin

fun run_op :: "alloc_op \<Rightarrow> 's \<Rightarrow> 's option" where
  "run_op (Alloc n) s = map_option snd (alloc n s)"
| "run_op (Free p) s = free p s"

fun run_ops :: "alloc_op list \<Rightarrow> 's \<Rightarrow> 's option" where
  "run_ops [] s = Some s"
| "run_ops (c # cs) s = Option.bind (run_op c s) (run_ops cs)"

lemma run_op_returns: "ok s \<Longrightarrow> \<exists>s'. run_op c s = Some s' \<and> ok s'"
  using alloc_returns [of s] free_returns [of s] by (cases c) fastforce+

lemma run_ops_returns: "ok s \<Longrightarrow> \<exists>s'. run_ops cs s = Some s' \<and> ok s'"
proof (induction cs arbitrary: s)
  case (Cons c cs)
  from run_op_returns [OF Cons.prems, of c] Cons.IH show ?case by fastforce
qed simp

text \<open>A block stays live with its size until its own address is freed.\<close>

lemma run_op_keeps:
  assumes "ok s" "live s p = Some n" "c \<noteq> Free p" "run_op c s = Some s'"
  shows "live s' p = Some n"
proof (cases c)
  case (Alloc k)
  then show ?thesis using assms alloc_returns [of s k] by (fastforce split: if_splits)
next
  case (Free q)
  then show ?thesis using assms free_returns [of s q] by auto
qed

lemma run_ops_keeps:
  "ok s \<Longrightarrow> live s p = Some n \<Longrightarrow> Free p \<notin> set cs \<Longrightarrow> run_ops cs s = Some s' \<Longrightarrow> live s' p = Some n"
proof (induction cs arbitrary: s)
  case (Cons c cs)
  then obtain s1 where s1: "run_op c s = Some s1" "run_ops cs s1 = Some s'"
    by (auto simp: bind_eq_Some_conv)
  moreover have "ok s1" using run_op_returns [OF Cons.prems(1), of c] s1 by simp
  moreover have "live s1 p = Some n" using run_op_keeps [of s p n c s1] Cons.prems s1 by auto
  ultimately show ?case using Cons.IH [of s1] Cons.prems by simp
qed simp

lemma alloc_free_restores:
  assumes "ok s" "alloc n s = Some (a, s1)" "free a s1 = Some s2"
  shows "live s2 = live s"
proof -
  have ok1: "ok s1" using assms(1,2) alloc_returns [of s n] by auto
  have free: "live s2 = (live s1)(a := None)" using free_returns [OF ok1, of a] assms(3) by auto
  show ?thesis
  proof (cases "a = 0")
    case True
    then have "live s1 = live s" using assms(1,2) alloc_returns [of s n] by auto
    with free True live_not_null [OF assms(1)] show ?thesis by (simp add: fun_upd_idem)
  next
    case False
    with assms(1,2) alloc_returns [of s n] obtain k where "live s a = None" "live s1 = (live s)(a \<mapsto> k)"
      by auto
    with free show ?thesis by (simp add: fun_upd_idem)
  qed
qed

text \<open>A block returned while another one is live never overlaps it, whatever happened in between.\<close>

lemma alloc_fresh:
  assumes "ok s" "live s p = Some n" "Free p \<notin> set cs" "run_ops cs s = Some s1"
    and "alloc k s1 = Some (a, s2)" "a \<noteq> 0"
  shows "live s2 p = Some n \<and> (\<exists>j \<ge> unat k. live s2 a = Some j \<and> {p..<p + n} \<inter> {a..<a + j} = {})"
proof -
  have ok1: "ok s1" using run_ops_returns [OF assms(1), of cs] assms(4) by simp
  have p1: "live s1 p = Some n" by (rule run_ops_keeps [OF assms(1-4)])
  from alloc_returns [OF ok1, of k] assms(5,6) obtain j where
    j: "unat k \<le> j" "live s1 a = None" "live s2 = (live s1)(a \<mapsto> j)" "ok s2" by auto
  then have "p \<noteq> a" using p1 by auto
  with j p1 have "live s2 p = Some n" "live s2 a = Some j" by auto
  with live_disjoint [OF j(4)] \<open>p \<noteq> a\<close> j(1) show ?thesis by blast
qed

end

end
