(* ===== verification/Manager_Memory.thy ===== *)
theory Manager_Memory
  imports Task_Heap Allocator_Spec
begin

text \<open>
  The manager's side of the child heap (\<open>service_memory_request\<close> of \<open>isolation_manager.c\<close>):
  the per-child bitmap of mapped pages and its counters. The virtual address space itself
  belongs to \<open>sel4utils\<close>; its two operations are parameters over an abstract address-space state.
  The theory shows that the manager's bitmap, its page count and its peak are consistent, that
  this service provides the contract \<open>page_service\<close> of the child heap, and what follows for
  every sequence of heap calls.
\<close>

record luna_heap_resource =
  hr_mapped :: "nat \<Rightarrow> bool"
  hr_mapped_pages :: nat
  hr_peak_pages :: nat
  hr_reserved :: bool

record 'v memory_context =
  mc_heap :: luna_heap_resource
  mc_vspace :: 'v

text \<open>
  \<open>new_pages v vaddr n\<close> stands for \<open>vspace_new_pages_at_vaddr\<close> (an error code and the new address
  space), \<open>unmap_pages v vaddr n\<close> for \<open>vspace_unmap_pages\<close>, which returns nothing.
\<close>

type_synonym 'v new_pages = "'v \<Rightarrow> nat \<Rightarrow> nat \<Rightarrow> c_int \<times> 'v"
type_synonym 'v unmap_pages = "'v \<Rightarrow> nat \<Rightarrow> nat \<Rightarrow> 'v"

definition memory_range_bad :: "luna_heap_resource \<Rightarrow> nat \<Rightarrow> nat \<Rightarrow> bool" where
  "memory_range_bad heap request page_count \<longleftrightarrow>
     \<not> hr_reserved heap \<or> page_count = 0 \<or> request < LUNA_CHILD_HEAP_BASE \<or>
     request \<ge> LUNA_CHILD_HEAP_BASE + LUNA_CHILD_HEAP_SIZE \<or> request mod 4096 \<noteq> 0 \<or>
     page_count > (LUNA_CHILD_HEAP_BASE + LUNA_CHILD_HEAP_SIZE - request) div 4096"

definition memory_page_conflict :: "luna_heap_resource \<Rightarrow> u64 \<Rightarrow> nat \<Rightarrow> bool" where
  "memory_page_conflict heap event p \<longleftrightarrow>
     (event = event_word LUNA_ISOLATION_EVENT_MEMORY_MAP \<and> hr_mapped heap p) \<or>
     (event = event_word LUNA_ISOLATION_EVENT_MEMORY_UNMAP \<and> \<not> hr_mapped heap p)"

text \<open>The result is the return code and the updated context; the reply carries the same code.\<close>

definition service_memory_request ::
  "'v new_pages \<Rightarrow> 'v unmap_pages \<Rightarrow> u64 \<Rightarrow> u64 \<Rightarrow> u64 \<Rightarrow> 'v memory_context \<Rightarrow> c_int \<times> 'v memory_context" where
  "service_memory_request new_pages unmap_pages event address pages c =
     (let heap = mc_heap c; request = unat address; page_count = unat pages in
      if memory_range_bad heap request page_count then (-1, c) else
      let first_page = (request - LUNA_CHILD_HEAP_BASE) div 4096 in
      if first_from (memory_page_conflict heap event) first_page page_count \<noteq> None then (-1, c)
      else if event = event_word LUNA_ISOLATION_EVENT_MEMORY_MAP then
        (case new_pages (mc_vspace c) request page_count of (error, v) \<Rightarrow>
           if error \<noteq> 0 then (error, c\<lparr>mc_vspace := v\<rparr>)
           else
             let total_pages = hr_mapped_pages heap + page_count in
             (0, c\<lparr>mc_vspace := v,
                   mc_heap := heap\<lparr>hr_mapped := memset_at (hr_mapped heap) first_page page_count True,
                     hr_mapped_pages := total_pages,
                     hr_peak_pages := (if total_pages > hr_peak_pages heap then total_pages
                                       else hr_peak_pages heap)\<rparr>\<rparr>))
      else if event = event_word LUNA_ISOLATION_EVENT_MEMORY_UNMAP then
        (0, c\<lparr>mc_vspace := unmap_pages (mc_vspace c) request page_count,
              mc_heap := heap\<lparr>hr_mapped := memset_at (hr_mapped heap) first_page page_count False,
                hr_mapped_pages := hr_mapped_pages heap - page_count\<rparr>\<rparr>)
      else (-1, c))"

definition memory_reply :: "c_int \<Rightarrow> ipc_message" where
  "memory_reply error = Message 0 0 [command_word LUNA_COMMAND_MEMORY_RESULT, word_of_cint error]"

text \<open>The request channel of a child whose peer only serves memory requests.\<close>

definition memory_transport :: "'v new_pages \<Rightarrow> 'v unmap_pages \<Rightarrow> 'v memory_context transport" where
  "memory_transport new_pages unmap_pages mrs c =
     (let (error, c') = service_memory_request new_pages unmap_pages (mrs ! 0) (mrs ! 1) (mrs ! 2) c
      in (memory_reply error, c'))"

definition heap_resource_inv :: "luna_heap_resource \<Rightarrow> bool" where
  "heap_resource_inv r \<longleftrightarrow>
     hr_mapped_pages r = count_below (hr_mapped r) LUNA_CHILD_HEAP_PAGES \<and>
     hr_mapped_pages r \<le> hr_peak_pages r \<and> hr_peak_pages r \<le> LUNA_CHILD_HEAP_PAGES"

section \<open>Counting runs of pages\<close>

lemma count_below_split:
  "f + n \<le> N \<Longrightarrow> count_below P N = card {i. i < N \<and> P i \<and> \<not> (f \<le> i \<and> i < f + n)} +
     card {i. f \<le> i \<and> i < f + n \<and> P i}"
proof -
  assume le: "f + n \<le> N"
  have "{i. i < N \<and> P i} = {i. i < N \<and> P i \<and> \<not> (f \<le> i \<and> i < f + n)} \<union> {i. f \<le> i \<and> i < f + n \<and> P i}"
    using le by auto
  then show ?thesis unfolding count_below_def
    by (simp only:) (subst card_Un_disjoint, auto intro: finite_subset [of _ "{..<N}"] simp: le)
qed

lemma count_below_memset:
  assumes "f + n \<le> N" "\<And>j. j < n \<Longrightarrow> P (f + j) = (\<not> v)"
  shows "count_below (memset_at P f n v) N + (if v then 0 else n) = count_below P N + (if v then n else 0)"
proof -
  have "{i. i < N \<and> memset_at P f n v i \<and> \<not> (f \<le> i \<and> i < f + n)} =
      {i. i < N \<and> P i \<and> \<not> (f \<le> i \<and> i < f + n)}" by (auto simp: memset_at_def)
  moreover have "{i. f \<le> i \<and> i < f + n \<and> memset_at P f n v i} = (if v then {f..<f + n} else {})"
    by (auto simp: memset_at_def)
  moreover have "{i. f \<le> i \<and> i < f + n \<and> P i} = (if v then {} else {f..<f + n})"
    using assms(2) by (auto dest!: le_Suc_ex)
  ultimately show ?thesis using assms(1) by (simp add: count_below_split)
qed

section \<open>The service\<close>

lemma memory_range_good:
  assumes "hr_reserved r" "0 < n" "first + n \<le> LUNA_CHILD_HEAP_PAGES"
  shows "\<not> memory_range_bad r (LUNA_CHILD_HEAP_BASE + first * TASK_PAGE_SIZE) n"
proof -
  have eq: "LUNA_CHILD_HEAP_BASE + LUNA_CHILD_HEAP_SIZE - (LUNA_CHILD_HEAP_BASE + first * TASK_PAGE_SIZE) =
      (LUNA_CHILD_HEAP_PAGES - first) * 4096" by (simp add: luna_consts)
  have "(LUNA_CHILD_HEAP_BASE + first * TASK_PAGE_SIZE) mod 4096 = 0" by (simp add: luna_consts)
  then show ?thesis using assms unfolding memory_range_bad_def eq by (auto simp: luna_consts)
qed

lemma memory_range_bad_cases:
  assumes "\<not> memory_range_bad r request n"
  obtains first where "hr_reserved r" "0 < n" "first + n \<le> LUNA_CHILD_HEAP_PAGES"
    "request = LUNA_CHILD_HEAP_BASE + first * 4096"
    "(request - LUNA_CHILD_HEAP_BASE) div 4096 = first"
proof -
  have le: "LUNA_CHILD_HEAP_BASE \<le> request" and div: "request mod 4096 = 0"
    using assms by (auto simp: memory_range_bad_def)
  then obtain q where q: "request = 4096 * q" by auto
  with le have "request = LUNA_CHILD_HEAP_BASE + (q - 131072) * 4096" by (simp add: luna_consts)
  moreover have "(q - 131072) + n \<le> LUNA_CHILD_HEAP_PAGES"
    using assms q by (auto simp: memory_range_bad_def luna_consts)
  ultimately show ?thesis
    using assms by (intro that [of "q - 131072"]) (auto simp: memory_range_bad_def)
qed

lemma unat_heap_address:
  "first \<le> LUNA_CHILD_HEAP_PAGES \<Longrightarrow>
   unat (of_nat (LUNA_CHILD_HEAP_BASE + first * TASK_PAGE_SIZE) :: u64) =
     LUNA_CHILD_HEAP_BASE + first * TASK_PAGE_SIZE"
  by (rule unat_u64) (simp add: luna_consts)

lemma unat_page_count: "n \<le> LUNA_CHILD_HEAP_PAGES \<Longrightarrow> unat (of_nat n :: u64) = n"
  by (rule unat_u64) (simp add: luna_consts)

text \<open>Whatever words the child sends, the bookkeeping stays consistent.\<close>

lemma service_memory_inv:
  assumes inv: "heap_resource_inv (mc_heap c)"
    and run: "service_memory_request new_pages unmap_pages event address pages c = (e, c')"
  shows "heap_resource_inv (mc_heap c') \<and> hr_reserved (mc_heap c') = hr_reserved (mc_heap c)"
proof (cases "memory_range_bad (mc_heap c) (unat address) (unat pages)")
  case True
  with assms show ?thesis by (auto simp: service_memory_request_def Let_def)
next
  case False
  then obtain f where f: "f + unat pages \<le> LUNA_CHILD_HEAP_PAGES"
      "(unat address - LUNA_CHILD_HEAP_BASE) div 4096 = f" by (elim memory_range_bad_cases) auto
  let ?m = "hr_mapped (mc_heap c)" and ?n = "unat pages"
  have conflict: "memory_page_conflict (mc_heap c) event (f + j) = False"
    if "first_from (memory_page_conflict (mc_heap c) event) f ?n = None" "j < ?n" for j
    using that by (simp add: first_from_None)
  have bound: "count_below (memset_at ?m f ?n True) LUNA_CHILD_HEAP_PAGES \<le> LUNA_CHILD_HEAP_PAGES"
    by (rule count_below_le)
  have up: "count_below (memset_at ?m f ?n True) LUNA_CHILD_HEAP_PAGES =
      count_below ?m LUNA_CHILD_HEAP_PAGES + ?n" if "\<And>j. j < ?n \<Longrightarrow> \<not> ?m (f + j)"
    using count_below_memset [OF f(1), of ?m True] that by simp
  have down: "count_below (memset_at ?m f ?n False) LUNA_CHILD_HEAP_PAGES + ?n =
      count_below ?m LUNA_CHILD_HEAP_PAGES" if "\<And>j. j < ?n \<Longrightarrow> ?m (f + j)"
    using count_below_memset [OF f(1), of ?m False] that by simp
  show ?thesis
    using run inv False bound up down conflict
    by (auto simp: service_memory_request_def Let_def f heap_resource_inv_def memory_page_conflict_def
        split: if_splits prod.splits)
qed

lemma service_memory_map:
  assumes ok: "hr_reserved (mc_heap c)" and n: "0 < n" "first + n \<le> LUNA_CHILD_HEAP_PAGES"
    and free: "\<And>j. j < n \<Longrightarrow> \<not> hr_mapped (mc_heap c) (first + j)"
    and run: "service_memory_request new_pages unmap_pages (event_word LUNA_ISOLATION_EVENT_MEMORY_MAP)
      (of_nat (LUNA_CHILD_HEAP_BASE + first * TASK_PAGE_SIZE)) (of_nat n) c = (e, c')"
    and vs: "new_pages (mc_vspace c) (LUNA_CHILD_HEAP_BASE + first * TASK_PAGE_SIZE) n = (e', v)"
  shows "e = e' \<and> hr_mapped (mc_heap c') =
      (if e = 0 then memset_at (hr_mapped (mc_heap c)) first n True else hr_mapped (mc_heap c))"
proof -
  have unat: "unat (of_nat (LUNA_CHILD_HEAP_BASE + first * TASK_PAGE_SIZE) :: u64) =
      LUNA_CHILD_HEAP_BASE + first * TASK_PAGE_SIZE" "unat (of_nat n :: u64) = n"
    using n unat_heap_address [of first] unat_page_count [of n] by auto
  have first: "(LUNA_CHILD_HEAP_BASE + first * TASK_PAGE_SIZE - LUNA_CHILD_HEAP_BASE) div 4096 = first"
    by (simp add: luna_consts)
  have none: "first_from (memory_page_conflict (mc_heap c) (event_word LUNA_ISOLATION_EVENT_MEMORY_MAP))
      first n = None"
    using free by (auto simp: first_from_None memory_page_conflict_def dest!: le_Suc_ex)
  show ?thesis
    using run unfolding service_memory_request_def Let_def unat first
      if_not_P [OF memory_range_good [OF ok n]] none
    by (auto simp: vs split: if_splits)
qed

lemma service_memory_unmap:
  assumes ok: "hr_reserved (mc_heap c)" and n: "0 < n" "first + n \<le> LUNA_CHILD_HEAP_PAGES"
    and used: "\<And>j. j < n \<Longrightarrow> hr_mapped (mc_heap c) (first + j)"
    and run: "service_memory_request new_pages unmap_pages (event_word LUNA_ISOLATION_EVENT_MEMORY_UNMAP)
      (of_nat (LUNA_CHILD_HEAP_BASE + first * TASK_PAGE_SIZE)) (of_nat n) c = (e, c')"
  shows "e = 0 \<and> hr_mapped (mc_heap c') = memset_at (hr_mapped (mc_heap c)) first n False"
proof -
  have unat: "unat (of_nat (LUNA_CHILD_HEAP_BASE + first * TASK_PAGE_SIZE) :: u64) =
      LUNA_CHILD_HEAP_BASE + first * TASK_PAGE_SIZE" "unat (of_nat n :: u64) = n"
    using n unat_heap_address [of first] unat_page_count [of n] by auto
  have first: "(LUNA_CHILD_HEAP_BASE + first * TASK_PAGE_SIZE - LUNA_CHILD_HEAP_BASE) div 4096 = first"
    by (simp add: luna_consts)
  have none: "first_from (memory_page_conflict (mc_heap c) (event_word LUNA_ISOLATION_EVENT_MEMORY_UNMAP))
      first n = None"
    using used by (auto simp: first_from_None memory_page_conflict_def dest!: le_Suc_ex)
  show ?thesis
    using run unfolding service_memory_request_def Let_def unat first
      if_not_P [OF memory_range_good [OF ok n]] none
    by (auto split: if_splits)
qed

definition memory_ok :: "'v memory_context \<Rightarrow> bool" where
  "memory_ok c \<longleftrightarrow> hr_reserved (mc_heap c) \<and> heap_resource_inv (mc_heap c)"

interpretation manager_pages:
  page_service "memory_transport new_pages unmap_pages" "\<lambda>c. hr_mapped (mc_heap c)" memory_ok
  for new_pages :: "'v new_pages" and unmap_pages :: "'v unmap_pages"
proof
  fix c :: "'v memory_context" and n first
  assume c: "memory_ok c" and n: "0 < n" "first + n \<le> LUNA_CHILD_HEAP_PAGES"
    and free: "\<And>j. j < n \<Longrightarrow> \<not> hr_mapped (mc_heap c) (first + j)"
  obtain e c' where run: "service_memory_request new_pages unmap_pages
      (event_word LUNA_ISOLATION_EVENT_MEMORY_MAP)
      (of_nat (LUNA_CHILD_HEAP_BASE + first * TASK_PAGE_SIZE)) (of_nat n) c = (e, c')" by force
  obtain e' v where vs: "new_pages (mc_vspace c) (LUNA_CHILD_HEAP_BASE + first * TASK_PAGE_SIZE) n = (e', v)"
    by force
  show "\<exists>e c'. memory_transport new_pages unmap_pages [event_word LUNA_ISOLATION_EVENT_MEMORY_MAP,
          of_nat (LUNA_CHILD_HEAP_BASE + first * TASK_PAGE_SIZE), of_nat n] c =
          (Message 0 0 [command_word LUNA_COMMAND_MEMORY_RESULT, word_of_cint e], c') \<and> memory_ok c' \<and>
       hr_mapped (mc_heap c') = (if e = 0 then memset_at (hr_mapped (mc_heap c)) first n True
                                 else hr_mapped (mc_heap c))"
    using service_memory_map [OF _ n free run vs] service_memory_inv [OF _ run] c run
    by (intro exI [of _ e] exI [of _ c'])
      (simp add: memory_ok_def memory_transport_def memory_reply_def del: event_word.simps command_word.simps)
next
  fix c :: "'v memory_context" and n first
  assume c: "memory_ok c" and n: "0 < n" "first + n \<le> LUNA_CHILD_HEAP_PAGES"
    and used: "\<And>j. j < n \<Longrightarrow> hr_mapped (mc_heap c) (first + j)"
  obtain e c' where run: "service_memory_request new_pages unmap_pages
      (event_word LUNA_ISOLATION_EVENT_MEMORY_UNMAP)
      (of_nat (LUNA_CHILD_HEAP_BASE + first * TASK_PAGE_SIZE)) (of_nat n) c = (e, c')" by force
  show "\<exists>c'. memory_transport new_pages unmap_pages [event_word LUNA_ISOLATION_EVENT_MEMORY_UNMAP,
          of_nat (LUNA_CHILD_HEAP_BASE + first * TASK_PAGE_SIZE), of_nat n] c =
          (Message 0 0 [command_word LUNA_COMMAND_MEMORY_RESULT, 0], c') \<and> memory_ok c' \<and>
       hr_mapped (mc_heap c') = memset_at (hr_mapped (mc_heap c)) first n False"
    using service_memory_unmap [OF _ n used run] service_memory_inv [OF _ run] c run
    by (intro exI [of _ c'])
      (simp add: memory_ok_def memory_transport_def memory_reply_def del: event_word.simps command_word.simps)
qed

section \<open>The child heap on top of the manager\<close>

text \<open>
  One call of the heap interface by the child, or any store of the child to its own arena, with
  arbitrary arguments; the manager answers through \<open>memory_transport\<close>.
\<close>

inductive heap_step :: "'v new_pages \<Rightarrow> 'v unmap_pages \<Rightarrow>
    task_heap \<times> 'v memory_context \<Rightarrow> task_heap \<times> 'v memory_context \<Rightarrow> bool"
  for new_pages unmap_pages where
  step_alloc: "task_heap_alloc (memory_transport new_pages unmap_pages) bytes align zero h m = (a, h', m') \<Longrightarrow>
    heap_step new_pages unmap_pages (h, m) (h', m')"
| step_free: "task_heap_free (memory_transport new_pages unmap_pages) ptr h m = (e, h', m') \<Longrightarrow>
    heap_step new_pages unmap_pages (h, m) (h', m')"
| step_store: "heap_step new_pages unmap_pages (h, m) (h\<lparr>task_heap_memory := mem\<rparr>, m)"

definition fresh_heap_resource :: luna_heap_resource where
  "fresh_heap_resource = \<lparr>hr_mapped = (\<lambda>_. False), hr_mapped_pages = 0, hr_peak_pages = 0, hr_reserved = True\<rparr>"

inductive heap_reachable :: "'v new_pages \<Rightarrow> 'v unmap_pages \<Rightarrow> task_heap \<times> 'v memory_context \<Rightarrow> bool"
  for new_pages unmap_pages where
  reachable_start: "ipc_ready (task_heap_ipc h) \<Longrightarrow>
    heap_reachable new_pages unmap_pages
      (task_heap_init h, \<lparr>mc_heap = fresh_heap_resource, mc_vspace = v\<rparr>)"
| reachable_step: "heap_reachable new_pages unmap_pages s \<Longrightarrow> heap_step new_pages unmap_pages s s' \<Longrightarrow>
    heap_reachable new_pages unmap_pages s'"

definition heap_system_ok :: "task_heap \<Rightarrow> 'v memory_context \<Rightarrow> bool" where
  "heap_system_ok h m \<longleftrightarrow>
     heap_inv h \<and> ipc_ready (task_heap_ipc h) \<and> memory_ok m \<and>
     (\<forall>p < LUNA_CHILD_HEAP_PAGES. hr_mapped (mc_heap m) p = task_heap_pages h p)"

lemma heap_system_ok_alt:
  "heap_system_ok h m \<longleftrightarrow>
     heap_inv h \<and> manager_pages.agree h m \<and> ipc_ready (task_heap_ipc h)"
  by (auto simp: heap_system_ok_def manager_pages.agree_def)

lemma heap_free_cases:
  assumes "heap_inv h"
  obtains (null) "ptr = 0"
  | (live) k where "k < TASK_HEAP_MAX_ALLOCATIONS" "alloc_used h k" "ha_address (task_heap_allocations h k) = ptr"
  | (dead) "ptr \<noteq> 0" "\<nexists>k. k < TASK_HEAP_MAX_ALLOCATIONS \<and> alloc_used h k \<and> ha_address (task_heap_allocations h k) = ptr"
  by blast

lemma free_commit_ipc: "heap_inv (free_commit k (h\<lparr>task_heap_ipc := c\<rparr>)) = heap_inv (free_commit k h)"
proof -
  have "free_commit k (h\<lparr>task_heap_ipc := c\<rparr>) = (free_commit k h)\<lparr>task_heap_ipc := c\<rparr>"
    by (simp add: free_commit_def)
  then show ?thesis by simp
qed

lemma heap_system_alloc:
  "heap_system_ok h m \<Longrightarrow>
   task_heap_alloc (memory_transport new_pages unmap_pages) bytes align zero h m = (a, h', m') \<Longrightarrow>
   heap_system_ok h' m'"
  unfolding heap_system_ok_alt
  using manager_pages.alloc_spec(1) [of h m new_pages unmap_pages bytes align zero a h' m'] by blast

lemma heap_system_free:
  assumes ok: "heap_system_ok h m"
    and run: "task_heap_free (memory_transport new_pages unmap_pages) ptr h m = (e, h', m')"
  shows "heap_system_ok h' m'"
proof -
  from ok have inv: "heap_inv h" by (simp add: heap_system_ok_def)
  then show ?thesis
  proof (cases rule: heap_free_cases [of h ptr])
    case null
    with run ok show ?thesis by (simp add: task_heap_free_def)
  next
    case (live k)
    with ok obtain m2 where
      "task_heap_free (memory_transport new_pages unmap_pages) ptr h m =
        (0, free_commit k (h\<lparr>task_heap_ipc := ipc_counted (task_heap_ipc h)\<rparr>), m2)"
      "heap_inv (free_commit k h)"
      "manager_pages.agree (free_commit k (h\<lparr>task_heap_ipc := ipc_counted (task_heap_ipc h)\<rparr>)) m2"
      using manager_pages.free_live [of h m k ptr new_pages unmap_pages] unfolding heap_system_ok_alt by metis
    then have "heap_inv h'" "manager_pages.agree h' m'" "task_heap_ipc h' = ipc_counted (task_heap_ipc h)"
      using run by (auto simp: free_commit_ipc) (simp add: free_commit_def)
    with ok show ?thesis by (simp add: heap_system_ok_alt)
  next
    case dead
    then have "task_heap_free (memory_transport new_pages unmap_pages) ptr h m = (-1, h, m)"
      by (intro heap_free_dead) auto
    with run ok show ?thesis by auto
  qed
qed

lemma heap_system_step:
  "heap_step new_pages unmap_pages (h, m) (h', m') \<Longrightarrow> heap_system_ok h m \<Longrightarrow> heap_system_ok h' m'"
proof (induction "(h, m)" "(h', m')" rule: heap_step.induct)
  case (step_store mem)
  have "heap_system_ok (h\<lparr>task_heap_memory := mem\<rparr>) m" 
    using \<open>heap_system_ok h m\<close> by (auto simp: heap_system_ok_def)
  with step_store show ?case by simp
qed (auto dest: heap_system_alloc heap_system_free)

lemma heap_system_reachable:
  "heap_reachable new_pages unmap_pages s \<Longrightarrow> heap_system_ok (fst s) (snd s)"
proof (induction rule: heap_reachable.induct)
  case (reachable_start h v)
  then show ?case
    using heap_inv_init [of h]
    by (simp add: heap_system_ok_def memory_ok_def fresh_heap_resource_def heap_resource_inv_def
        task_heap_init_def)
next
  case (reachable_step s s')
  then show ?case using heap_system_step by (metis prod.collapse)
qed

section \<open>Properties\<close>

definition live_region :: "task_heap_allocation \<Rightarrow> nat set" where
  "live_region r = {ha_address r..<ha_address r + ha_requested r}"

lemma live_region_pages:
  "alloc_ok r \<Longrightarrow> x \<in> live_region r \<Longrightarrow> (x - LUNA_CHILD_HEAP_BASE) div TASK_PAGE_SIZE \<in> alloc_range r"
proof -
  assume ok: "alloc_ok r" and x: "x \<in> live_region r"
  from ok have a: "ha_address r = LUNA_CHILD_HEAP_BASE + alloc_first r * TASK_PAGE_SIZE"
    and n: "ha_requested r \<le> ha_pages r * TASK_PAGE_SIZE" by (auto simp: alloc_ok_def)
  from x obtain d where d: "x = ha_address r + d" "d < ha_requested r"
    by (auto simp: live_region_def dest!: le_Suc_ex)
  then have "(x - LUNA_CHILD_HEAP_BASE) div TASK_PAGE_SIZE = alloc_first r + d div TASK_PAGE_SIZE"
    by (simp add: a luna_consts)
  moreover have "d div TASK_PAGE_SIZE < ha_pages r"
    using d n by (simp add: luna_consts less_mult_imp_div_less)
  ultimately show ?thesis by (simp add: alloc_range_def)
qed

lemma live_region_disjoint:
  assumes "heap_inv h" "i < TASK_HEAP_MAX_ALLOCATIONS" "alloc_used h i" "alloc_ok r"
    and "\<forall>p \<in> alloc_range r. \<not> task_heap_pages h p"
  shows "live_region (task_heap_allocations h i) \<inter> live_region r = {}"
proof -
  let ?s = "task_heap_allocations h i"
  have ok: "alloc_ok ?s" using assms by (auto simp: heap_inv_def)
  have "task_heap_pages h p" if "p \<in> alloc_range ?s" for p
  proof -
    have "p < LUNA_CHILD_HEAP_PAGES" using ok that by (auto simp: alloc_ok_def alloc_range_def)
    with assms that show ?thesis unfolding heap_inv_def by blast
  qed
  with assms(5) live_region_pages [OF ok] live_region_pages [OF assms(4)] show ?thesis by blast
qed

text \<open>The page heap behind \<open>lkl_host_ops.mem_alloc\<close> as an allocator over the joint state.\<close>

definition page_live :: "task_heap \<times> 'v memory_context \<Rightarrow> nat \<Rightarrow> nat option" where
  "page_live s p =
     map_option (\<lambda>k. ha_requested (task_heap_allocations (fst s) k))
       (first_index (\<lambda>i. alloc_used (fst s) i \<and> ha_address (task_heap_allocations (fst s) i) = p)
          TASK_HEAP_MAX_ALLOCATIONS)"

definition page_alloc_call :: "'v new_pages \<Rightarrow> 'v unmap_pages \<Rightarrow> u64 \<Rightarrow> task_heap \<times> 'v memory_context \<Rightarrow>
    (nat \<times> task_heap \<times> 'v memory_context) option" where
  "page_alloc_call new_pages unmap_pages bytes s =
     Some (task_mem_alloc (memory_transport new_pages unmap_pages) bytes (fst s) (snd s))"

definition page_free_call :: "'v new_pages \<Rightarrow> 'v unmap_pages \<Rightarrow> nat \<Rightarrow> task_heap \<times> 'v memory_context \<Rightarrow>
    (task_heap \<times> 'v memory_context) option" where
  "page_free_call new_pages unmap_pages p s =
     Some (task_mem_free (memory_transport new_pages unmap_pages) p (fst s) (snd s))"

lemma page_live_Some:
  assumes "heap_inv (fst s)"
  shows "page_live s p = Some n \<longleftrightarrow> (\<exists>k < TASK_HEAP_MAX_ALLOCATIONS. alloc_used (fst s) k \<and>
     ha_address (task_heap_allocations (fst s) k) = p \<and> ha_requested (task_heap_allocations (fst s) k) = n)"
  (is "?l \<longleftrightarrow> ?r")
proof
  assume ?l
  then show ?r by (auto simp: page_live_def dest!: first_index_Some)
next
  assume ?r
  then obtain k where k: "k < TASK_HEAP_MAX_ALLOCATIONS" "alloc_used (fst s) k"
    "ha_address (task_heap_allocations (fst s) k) = p" "ha_requested (task_heap_allocations (fst s) k) = n" by blast
  from heap_inv_lookup [OF assms k(1,2,3)] k(4) show ?l by (simp add: page_live_def)
qed

lemma page_live_add:
  assumes inv: "heap_inv (fst s)" "heap_inv (fst s')" and k: "k < TASK_HEAP_MAX_ALLOCATIONS" "\<not> alloc_used (fst s) k"
    and r: "task_heap_allocations (fst s') = (task_heap_allocations (fst s))(k := r)" "ha_used r"
  shows "page_live s' = (page_live s)(ha_address r \<mapsto> ha_requested r)" "page_live s (ha_address r) = None"
proof -
  have new: "page_live s' (ha_address r) = Some (ha_requested r)"
    using k r by (auto simp: page_live_Some [OF inv(2)] intro!: exI [of _ k])
  have uniq: "i = k" if "i < TASK_HEAP_MAX_ALLOCATIONS" "alloc_used (fst s') i"
    "ha_address (task_heap_allocations (fst s') i) = ha_address r" for i
    using heap_inv_lookup [OF inv(2) that] heap_inv_lookup [OF inv(2) k(1), of "ha_address r"] r by simp
  show none: "page_live s (ha_address r) = None"
  proof (rule ccontr)
    assume "page_live s (ha_address r) \<noteq> None"
    then obtain i where i: "i < TASK_HEAP_MAX_ALLOCATIONS" "alloc_used (fst s) i"
      "ha_address (task_heap_allocations (fst s) i) = ha_address r" by (auto simp: page_live_Some [OF inv(1)])
    then have "i \<noteq> k" using k(2) by auto
    with uniq [of i] i r show False by auto
  qed
  show "page_live s' = (page_live s)(ha_address r \<mapsto> ha_requested r)"
  proof
    fix p
    show "page_live s' p = ((page_live s)(ha_address r \<mapsto> ha_requested r)) p"
    proof (cases "p = ha_address r")
      case False
      have "page_live s' p = Some n \<longleftrightarrow> page_live s p = Some n" for n
        unfolding page_live_Some [OF inv(1)] page_live_Some [OF inv(2)] r using False k by auto
      then have "page_live s' p = page_live s p" by (metis option.exhaust)
      with False show ?thesis by simp
    qed (use new in simp)
  qed
qed

lemma page_live_remove:
  assumes inv: "heap_inv (fst s)" "heap_inv (fst s')" and k: "k < TASK_HEAP_MAX_ALLOCATIONS" "alloc_used (fst s) k"
    and r: "task_heap_allocations (fst s') = (task_heap_allocations (fst s))(k := empty_allocation)"
  shows "page_live s' = (page_live s)(ha_address (task_heap_allocations (fst s) k) := None)"
proof
  fix p
  have "page_live s' p = Some n \<longleftrightarrow> p \<noteq> ha_address (task_heap_allocations (fst s) k) \<and> page_live s p = Some n"
    (is "?l \<longleftrightarrow> ?r") for n
  proof -
    let ?h = "task_heap_allocations (fst s)"
    have uniq: "i = k" if "i < TASK_HEAP_MAX_ALLOCATIONS" "ha_used (?h i)" "ha_address (?h i) = ha_address (?h k)" for i
      using heap_inv_lookup [OF inv(1) that] heap_inv_lookup [OF inv(1) k refl] by simp
    have "?l \<longleftrightarrow> (\<exists>i < TASK_HEAP_MAX_ALLOCATIONS. i \<noteq> k \<and> ha_used (?h i) \<and> ha_address (?h i) = p \<and> ha_requested (?h i) = n)"
      unfolding page_live_Some [OF inv(2)] r by (auto simp: empty_allocation_def split: if_splits)
    also have "\<dots> \<longleftrightarrow> ?r"
      unfolding page_live_Some [OF inv(1)] using uniq by blast
    finally show ?thesis .
  qed
  then have eq: "page_live s' p = Some n \<longleftrightarrow>
      p \<noteq> ha_address (task_heap_allocations (fst s) k) \<and> page_live s p = Some n" for n by blast
  show "page_live s' p = ((page_live s)(ha_address (task_heap_allocations (fst s) k) := None)) p"
  proof (cases "p = ha_address (task_heap_allocations (fst s) k)")
    case True
    with eq show ?thesis by (cases "page_live s' p") auto
  next
    case False
    then have "page_live s' p = page_live s p" using eq by (metis not_None_eq)
    with False show ?thesis by simp
  qed
qed

lemma page_live_null:
  assumes "heap_inv (fst s)"
  shows "page_live s 0 = None"
proof (rule ccontr)
  assume "page_live s 0 \<noteq> None"
  then obtain k where "k < TASK_HEAP_MAX_ALLOCATIONS" "alloc_used (fst s) k"
    "ha_address (task_heap_allocations (fst s) k) = 0" by (auto simp: page_live_Some [OF assms])
  moreover from this have "alloc_ok (task_heap_allocations (fst s) k)" using assms unfolding heap_inv_def by blast
  ultimately show False by (simp add: alloc_ok_def luna_consts)
qed

lemma page_live_disjoint:
  assumes inv: "heap_inv (fst s)"
    and live: "page_live s p = Some n" "page_live s q = Some k" "p \<noteq> q"
  shows "{p..<p + n} \<inter> {q..<q + k} = {}"
proof -
  from live obtain i j where
    i: "i < TASK_HEAP_MAX_ALLOCATIONS" "alloc_used (fst s) i" "{p..<p + n} = live_region (task_heap_allocations (fst s) i)"
    and j: "j < TASK_HEAP_MAX_ALLOCATIONS" "alloc_used (fst s) j" "{q..<q + k} = live_region (task_heap_allocations (fst s) j)"
    and "i \<noteq> j"
    by (auto simp: page_live_Some [OF inv] live_region_def)
  then have "alloc_range (task_heap_allocations (fst s) i) \<inter> alloc_range (task_heap_allocations (fst s) j) = {}"
    "alloc_ok (task_heap_allocations (fst s) i)" "alloc_ok (task_heap_allocations (fst s) j)"
    using inv unfolding heap_inv_def by blast+
  then show ?thesis unfolding i(3) j(3) using live_region_pages by blast
qed

interpretation page_alloc:
  allocator "\<lambda>s. heap_system_ok (fst s) (snd s)" page_live "page_alloc_call new_pages unmap_pages"
    "page_free_call new_pages unmap_pages"
  for new_pages :: "'v new_pages" and unmap_pages :: "'v unmap_pages"
proof
  fix s :: "task_heap \<times> 'v memory_context" and b
  assume ok: "heap_system_ok (fst s) (snd s)"
  obtain a h' m' where run: "task_heap_alloc (memory_transport new_pages unmap_pages) b
      TASK_HEAP_ALIGNMENT False (fst s) (snd s) = (a, h', m')" by (metis prod_cases3)
  have ok': "heap_system_ok h' m'" by (rule heap_system_alloc [OF ok run])
  have call: "page_alloc_call new_pages unmap_pages b s = Some (a, h', m')"
    using run by (simp add: page_alloc_call_def task_mem_alloc_def)
  have inv: "heap_inv (fst s)" "heap_inv (fst (h', m'))" using ok ok' by (auto simp: heap_system_ok_def)
  have "if a = 0 then page_live (h', m') = page_live s
    else page_live s a = None \<and> (\<exists>k \<ge> unat b. 0 < k \<and> page_live (h', m') = (page_live s)(a \<mapsto> k))"
  proof (cases "a = 0")
    case True
    with manager_pages.alloc_spec(2) [OF _ _ _ run] ok show ?thesis
      by (simp add: heap_system_ok_alt page_live_def fun_eq_iff)
  next
    case False
    from manager_pages.alloc_spec(3) [OF _ _ _ run False] ok obtain k f where
      k: "k < TASK_HEAP_MAX_ALLOCATIONS" "\<not> alloc_used (fst s) k" "a = ha_address (new_record b f)"
      and h': "h' = alloc_commit k (new_record b f) False
                  ((fst s)\<lparr>task_heap_ipc := ipc_counted (task_heap_ipc (fst s))\<rparr>)"
      unfolding heap_system_ok_alt by blast
    have req: "ha_requested (new_record b f) = requested_bytes b" "unat b \<le> requested_bytes b" "ha_used (new_record b f)"
      by (simp_all add: new_record_def requested_bytes_def)
    note add = page_live_add [OF inv k(1,2), of "new_record b f"]
    have "task_heap_allocations (fst (h', m')) = (task_heap_allocations (fst s))(k := new_record b f)"
      by (simp add: h' alloc_commit_def)
    with add req k(3) have "page_live (h', m') = (page_live s)(a \<mapsto> requested_bytes b)" "page_live s a = None"
      by auto
    with False req(2) show ?thesis by auto
  qed
  with call ok' show "\<exists>a s'. page_alloc_call new_pages unmap_pages b s = Some (a, s') \<and>
      heap_system_ok (fst s') (snd s') \<and> (if a = 0 then page_live s' = page_live s
       else page_live s a = None \<and> (\<exists>k \<ge> unat b. 0 < k \<and> page_live s' = (page_live s)(a \<mapsto> k)))"
    by (intro exI [of _ a] exI [of _ "(h', m')"]) simp
next
  fix s :: "task_heap \<times> 'v memory_context" and p
  assume ok: "heap_system_ok (fst s) (snd s)"
  then have inv: "heap_inv (fst s)" by (simp add: heap_system_ok_def)
  obtain e h' m' where run: "task_heap_free (memory_transport new_pages unmap_pages) p (fst s) (snd s) = (e, h', m')"
    by (metis prod_cases3)
  have ok': "heap_system_ok h' m'" by (rule heap_system_free [OF ok run])
  have call: "page_free_call new_pages unmap_pages p s = Some (h', m')"
    using run by (simp add: page_free_call_def task_mem_free_def)
  have "page_live (h', m') = (page_live s)(p := None)"
    using inv
  proof (cases rule: heap_free_cases [of "fst s" p])
    case null
    have "page_live s 0 = None" by (rule page_live_null [OF inv])
    moreover have "(h', m') = s" using run null by (auto simp: task_heap_free_def)
    ultimately show ?thesis using null by (simp add: fun_upd_idem)
  next
    case (live k)
    obtain m2 where "task_heap_free (memory_transport new_pages unmap_pages) p (fst s) (snd s) =
        (0, free_commit k ((fst s)\<lparr>task_heap_ipc := ipc_counted (task_heap_ipc (fst s))\<rparr>), m2)"
      using manager_pages.free_live [OF _ _ _ live, of "snd s" new_pages unmap_pages] ok
      unfolding heap_system_ok_alt by metis
    with run have "task_heap_allocations h' = (task_heap_allocations (fst s))(k := empty_allocation)"
      by (auto simp: free_commit_def)
    with page_live_remove [OF inv, of "(h', m')", OF _ live(1,2)] ok' live(3) show ?thesis
      by (simp add: heap_system_ok_def)
  next
    case dead
    then have "page_live s p = None" using page_live_Some [OF inv, of p] by (metis option.exhaust)
    moreover have "(h', m') = s"
      using run heap_free_dead [OF dead(2,1), of "memory_transport new_pages unmap_pages" "snd s"] by auto
    ultimately show ?thesis by (simp add: fun_upd_idem)
  qed
  with call ok' show "\<exists>s'. page_free_call new_pages unmap_pages p s = Some s' \<and>
      heap_system_ok (fst s') (snd s') \<and> page_live s' = (page_live s)(p := None)"
    by (intro exI [of _ "(h', m')"]) simp
next
  fix s :: "task_heap \<times> 'v memory_context" and p n q k
  assume ok: "heap_system_ok (fst s) (snd s)"
    and live: "page_live s p = Some n" "page_live s q = Some k" "p \<noteq> q"
  then have inv: "heap_inv (fst s)" by (simp add: heap_system_ok_def)
  show "{p..<p + n} \<inter> {q..<q + k} = {}" by (rule page_live_disjoint [OF inv live])
next
  fix s :: "task_heap \<times> 'v memory_context"
  assume "heap_system_ok (fst s) (snd s)"
  then have inv: "heap_inv (fst s)" by (simp add: heap_system_ok_def)
  show "page_live s 0 = None" by (rule page_live_null [OF inv])
qed

text \<open>
  A concrete instance: an address space that always has room and counts its operations, a fresh
  child heap, and the state after one allocation of 5000 bytes (two pages).
\<close>

definition sample_new_pages :: "nat new_pages" where
  "sample_new_pages v a n = (0, v + n)"

definition sample_unmap_pages :: "nat unmap_pages" where
  "sample_unmap_pages v a n = v - n"

definition sample_heap :: task_heap where
  "sample_heap = task_heap_init
     \<lparr>task_heap_pages = (\<lambda>_. True), task_heap_allocations = (\<lambda>_. empty_allocation),
      task_heap_active_allocations = 7, task_heap_active_bytes = 7, task_heap_peak_bytes = 7,
      task_heap_ipc = \<lparr>task_manager_control_ep = 5, task_manager_command_ep = 6,
                       task_manager_ipc_count = 0\<rparr>,
      task_heap_memory = (\<lambda>_. 0xff)\<rparr>"

definition sample_context :: "nat memory_context" where
  "sample_context = \<lparr>mc_heap = fresh_heap_resource, mc_vspace = 0\<rparr>"

abbreviation sample_transport :: "nat memory_context transport" where
  "sample_transport \<equiv> memory_transport sample_new_pages sample_unmap_pages"

definition sample_call :: "nat \<times> task_heap \<times> nat memory_context" where
  "sample_call = task_heap_alloc sample_transport 5000 16 True sample_heap sample_context"

lemma sample_reachable: "heap_reachable sample_new_pages sample_unmap_pages (sample_heap, sample_context)"
  unfolding sample_heap_def sample_context_def
  by (rule reachable_start) (simp add: ipc_ready_def)

lemma sample_call_reachable:
  "heap_reachable sample_new_pages sample_unmap_pages (fst (snd sample_call), snd (snd sample_call))"
  by (rule reachable_step [OF sample_reachable step_alloc [of _ _ 5000 16 True _ _ "fst sample_call"]])
    (simp flip: sample_call_def)

lemma sample_unused [simp]: "\<not> alloc_used sample_heap i"
  by (simp add: sample_heap_def task_heap_init_def empty_allocation_def)

lemma sample_free [simp]: "\<not> task_heap_pages sample_heap p"
  by (simp add: sample_heap_def task_heap_init_def)

lemma sample_guard [simp]: "alloc_guard 5000 16" "requested_bytes 5000 = 5000"
  by (simp_all add: alloc_guard_def alloc_align_def requested_bytes_def luna_consts)

lemma sample_run [simp]: "run_at (task_heap_pages sample_heap) 2 LUNA_CHILD_HEAP_PAGES 0"
  by (simp add: run_at_def luna_consts)

lemma sample_least [simp]: "(LEAST f. run_at (task_heap_pages sample_heap) 2 LUNA_CHILD_HEAP_PAGES f) = 0"
  by (rule Least_eq_0) simp

lemma sample_slot [simp]: "0 < TASK_HEAP_MAX_ALLOCATIONS" by (simp add: luna_consts)

lemma sample_find [simp]: "find_run (task_heap_pages sample_heap) 2 LUNA_CHILD_HEAP_PAGES 0 = Some 0"
  using sample_run by (auto simp: find_run_first_fit simp del: sample_run)

lemma sample_service:
  "service_memory_request sample_new_pages sample_unmap_pages 0x200 0x20000000 2 sample_context =
     (0, \<lparr>mc_heap = \<lparr>hr_mapped = memset_at (\<lambda>_. False) 0 2 True, hr_mapped_pages = 2,
            hr_peak_pages = 2, hr_reserved = True\<rparr>, mc_vspace = 2\<rparr>)"
  by (simp add: service_memory_request_def sample_context_def fresh_heap_resource_def memory_range_bad_def
      luna_consts first_from_None memory_page_conflict_def sample_new_pages_def
      numeral_2_eq_2 [symmetric])

lemma sample_call_eq:
  "sample_call =
    (0x20000000, alloc_commit 0 (new_record 5000 0) True
       (sample_heap\<lparr>task_heap_ipc := ipc_counted (task_heap_ipc sample_heap)\<rparr>),
     \<lparr>mc_heap = \<lparr>hr_mapped = memset_at (\<lambda>_. False) 0 2 True, hr_mapped_pages = 2,
        hr_peak_pages = 2, hr_reserved = True\<rparr>, mc_vspace = 2\<rparr>)"
proof -
  have "ipc_ready (task_heap_ipc sample_heap)"
    by (simp add: sample_heap_def task_heap_init_def ipc_ready_def)
  moreover have "sample_transport [event_word LUNA_ISOLATION_EVENT_MEMORY_MAP, 0x20000000, 2] sample_context =
      (Message 0 0 [command_word LUNA_COMMAND_MEMORY_RESULT, word_of_cint 0], snd (service_memory_request
        sample_new_pages sample_unmap_pages 0x200 0x20000000 2 sample_context))"
    by (simp add: memory_transport_def memory_reply_def sample_service)
  ultimately have "luna_lkl_task_manager_request sample_transport LUNA_ISOLATION_EVENT_MEMORY_MAP
      0x20000000 2 (task_heap_ipc sample_heap) sample_context =
      (0, ipc_counted (task_heap_ipc sample_heap), snd (service_memory_request
        sample_new_pages sample_unmap_pages 0x200 0x20000000 2 sample_context))"
    by (intro manager_request_reply) (simp_all add: expected_reply_def)
  then have "task_heap_request sample_transport LUNA_ISOLATION_EVENT_MEMORY_MAP 0x20000000 2
      sample_heap sample_context = (0, sample_heap\<lparr>task_heap_ipc := ipc_counted (task_heap_ipc sample_heap)\<rparr>,
      snd (service_memory_request sample_new_pages sample_unmap_pages 0x200 0x20000000 2 sample_context))"
    by (simp add: task_heap_request_def)
  moreover have "ha_address (new_record 5000 0) = 0x20000000" "ha_pages (new_record 5000 0) = 2"
    by (simp_all add: new_record_def luna_consts)
  ultimately show ?thesis
    unfolding sample_call_def task_heap_alloc_eq by (simp add: sample_service)
qed

text \<open>
  C3: In every state that heap calls with arbitrary arguments can reach, the child's records,
  page bitmap and counters are consistent, the manager's bitmap equals the child's, the manager's
  page count is the number of set bits, and the heap is idle exactly when the manager holds no
  page for the child (the condition the manager enforces at the allocator events).
\<close>

theorem heap_system_invariant:
  assumes "heap_reachable new_pages unmap_pages (h, m)"
  shows "heap_system_ok h m \<and>
    hr_mapped_pages (mc_heap m) = count_below (task_heap_pages h) LUNA_CHILD_HEAP_PAGES \<and>
    hr_peak_pages (mc_heap m) \<le> LUNA_CHILD_HEAP_PAGES \<and>
    (task_heap_is_idle h \<longleftrightarrow> hr_mapped_pages (mc_heap m) = 0)"
proof -
  have ok: "heap_system_ok h m" using heap_system_reachable [OF assms] by simp
  then have eq: "hr_mapped_pages (mc_heap m) = count_below (task_heap_pages h) LUNA_CHILD_HEAP_PAGES"
    by (auto simp: heap_system_ok_def memory_ok_def heap_resource_inv_def intro!: count_below_cong)
  have "(\<forall>p < LUNA_CHILD_HEAP_PAGES. \<not> task_heap_pages h p) \<longleftrightarrow>
      (\<forall>i < TASK_HEAP_MAX_ALLOCATIONS. \<not> alloc_used h i)"
  proof
    assume free: "\<forall>p < LUNA_CHILD_HEAP_PAGES. \<not> task_heap_pages h p"
    show "\<forall>i < TASK_HEAP_MAX_ALLOCATIONS. \<not> alloc_used h i"
    proof (intro allI impI notI)
      fix i assume i: "i < TASK_HEAP_MAX_ALLOCATIONS" "alloc_used h i"
      with ok have r: "alloc_ok (task_heap_allocations h i)" by (auto simp: heap_system_ok_def heap_inv_def)
      then have "alloc_first (task_heap_allocations h i) \<in> alloc_range (task_heap_allocations h i)"
        "alloc_first (task_heap_allocations h i) < LUNA_CHILD_HEAP_PAGES"
        by (auto simp: alloc_ok_def alloc_range_def)
      with i ok free show False by (auto simp: heap_system_ok_def heap_inv_def)
    qed
  next
    assume "\<forall>i < TASK_HEAP_MAX_ALLOCATIONS. \<not> alloc_used h i"
    with ok show "\<forall>p < LUNA_CHILD_HEAP_PAGES. \<not> task_heap_pages h p"
      by (auto simp: heap_system_ok_def heap_inv_def)
  qed
  with ok eq idle_iff_no_allocation [of h] show ?thesis
    by (auto simp: heap_system_ok_def memory_ok_def heap_resource_inv_def)
qed

theorem heap_system_invariant_witness:
  "heap_system_ok (fst (snd sample_call)) (snd (snd sample_call)) \<and>
   hr_mapped_pages (mc_heap sample_context) = 0 \<and> task_heap_is_idle sample_heap"
  using heap_system_invariant [OF sample_call_reachable] heap_system_invariant [OF sample_reachable]
  by (simp add: sample_context_def fresh_heap_resource_def)

text \<open>
  C20: In a reachable state \<open>task_heap_alloc\<close> either returns NULL and leaves the records, the page
  bitmap and the arena contents as they were, or returns a page-aligned address such that the
  requested bytes lie inside the arena, do not overlap any live allocation, are backed by pages
  the manager has mapped, are recorded in a record that was free, read as zero when zeroing was
  asked for, and no other byte of memory changes.
\<close>

theorem heap_alloc_correct:
  assumes "heap_reachable new_pages unmap_pages (h, m)"
    and "task_heap_alloc (memory_transport new_pages unmap_pages) bytes align zero h m = (a, h', m')"
  shows "if a = 0
    then task_heap_allocations h' = task_heap_allocations h \<and> task_heap_pages h' = task_heap_pages h \<and>
         task_heap_memory h' = task_heap_memory h
    else \<exists>k r. k < TASK_HEAP_MAX_ALLOCATIONS \<and> \<not> alloc_used h k \<and>
      ha_address r = a \<and> ha_requested r = requested_bytes bytes \<and> ha_used r \<and>
      a mod TASK_PAGE_SIZE = 0 \<and> LUNA_CHILD_HEAP_BASE \<le> a \<and>
      a + requested_bytes bytes \<le> LUNA_CHILD_HEAP_BASE + LUNA_CHILD_HEAP_SIZE \<and>
      task_heap_allocations h' = (task_heap_allocations h)(k := r) \<and>
      (\<forall>i < TASK_HEAP_MAX_ALLOCATIONS. alloc_used h i \<longrightarrow>
         live_region (task_heap_allocations h i) \<inter> live_region r = {}) \<and>
      (\<forall>x \<in> live_region r. hr_mapped (mc_heap m') ((x - LUNA_CHILD_HEAP_BASE) div TASK_PAGE_SIZE)) \<and>
      task_heap_memory h' = (if zero then memset_at (task_heap_memory h) a (requested_bytes bytes) 0
                             else task_heap_memory h)"
proof (cases "a = 0")
  case True
  have "heap_system_ok h m" using heap_system_reachable [OF assms(1)] by simp
  then show ?thesis
    using manager_pages.alloc_spec(2) [OF _ _ _ assms(2)] True by (simp add: heap_system_ok_alt)
next
  case False
  have ok: "heap_system_ok h m" using heap_system_reachable [OF assms(1)] by simp
  have ok': "heap_system_ok h' m'" by (rule heap_system_alloc [OF ok assms(2)])
  obtain k f where k: "k < TASK_HEAP_MAX_ALLOCATIONS" "\<not> alloc_used h k"
    and a: "a = ha_address (new_record bytes f)" and r: "alloc_ok (new_record bytes f)"
    and free: "\<forall>p \<in> alloc_range (new_record bytes f). \<not> task_heap_pages h p"
    and h': "h' = alloc_commit k (new_record bytes f) zero
                  (h\<lparr>task_heap_ipc := ipc_counted (task_heap_ipc h)\<rparr>)"
    using manager_pages.alloc_spec(3) [OF _ _ _ assms(2) False] ok unfolding heap_system_ok_alt by blast
  let ?r = "new_record bytes f"
  have fields: "ha_requested ?r = requested_bytes bytes" "ha_used ?r"
    "ha_address ?r = LUNA_CHILD_HEAP_BASE + f * TASK_PAGE_SIZE" by (simp_all add: new_record_def)
  have range: "a + requested_bytes bytes \<le> LUNA_CHILD_HEAP_BASE + LUNA_CHILD_HEAP_SIZE"
    using r unfolding a fields alloc_ok_def new_record_first fields by (simp add: luna_consts)
  have inside: "p < LUNA_CHILD_HEAP_PAGES" if "p \<in> alloc_range ?r" for p
    using r that by (auto simp: alloc_range_def alloc_ok_def)
  have mapped: "hr_mapped (mc_heap m') p" if "p \<in> alloc_range ?r" for p
  proof -
    have "task_heap_pages h' p" using that by (auto simp: h' alloc_commit_def memset_at_def alloc_range_def)
    with ok' inside [OF that] show ?thesis by (simp add: heap_system_ok_def)
  qed
  have disj: "live_region (task_heap_allocations h i) \<inter> live_region ?r = {}"
    if "i < TASK_HEAP_MAX_ALLOCATIONS" "alloc_used h i" for i
    using live_region_disjoint [OF _ that r free] ok by (simp add: heap_system_ok_def)
  have "a mod TASK_PAGE_SIZE = 0" "LUNA_CHILD_HEAP_BASE \<le> a"
    unfolding a fields by (simp_all add: luna_consts)
  with False k a fields range mapped live_region_pages [OF r] disj show ?thesis
    by (auto simp: h' alloc_commit_def intro!: exI [of _ k] exI [of _ ?r])
qed

theorem heap_alloc_correct_witness:
  "0x20000000 mod TASK_PAGE_SIZE = 0 \<and>
     task_heap_memory (fst (snd sample_call)) 0x20001387 = 0 \<and>
     task_heap_memory (fst (snd sample_call)) 0x20001388 = 0xff"
proof -
  have "task_heap_alloc sample_transport 5000 16 True sample_heap sample_context =
      (0x20000000, fst (snd sample_call), snd (snd sample_call))"
    unfolding sample_call_def [symmetric] by (simp add: sample_call_eq)
  from heap_alloc_correct [OF sample_reachable this] show ?thesis
    by (auto simp: memset_at_def sample_heap_def task_heap_init_def)
qed



text \<open>
  C21: In a reachable state, freeing the address of a live allocation succeeds: that record and
  only that record becomes empty, exactly its pages leave both bitmaps, and the counters drop by
  one allocation and its requested size.
\<close>

theorem heap_free_correct:
  assumes "heap_reachable new_pages unmap_pages (h, m)"
    and "k < TASK_HEAP_MAX_ALLOCATIONS" "alloc_used h k"
    and "task_heap_free (memory_transport new_pages unmap_pages)
           (ha_address (task_heap_allocations h k)) h m = (e, h', m')"
  shows "e = 0 \<and> task_heap_allocations h' = (task_heap_allocations h)(k := empty_allocation) \<and>
    (\<forall>p. task_heap_pages h' p \<longleftrightarrow> task_heap_pages h p \<and> p \<notin> alloc_range (task_heap_allocations h k)) \<and>
    task_heap_active_allocations h' + 1 = task_heap_active_allocations h \<and>
    task_heap_active_bytes h' + ha_requested (task_heap_allocations h k) = task_heap_active_bytes h \<and>
    task_heap_memory h' = task_heap_memory h \<and> heap_system_ok h' m'"
proof -
  have ok: "heap_system_ok h m" using heap_system_reachable [OF assms(1)] by simp
  have ok': "heap_system_ok h' m'" by (rule heap_system_free [OF ok assms(4)])
  obtain m2 where "task_heap_free (memory_transport new_pages unmap_pages)
        (ha_address (task_heap_allocations h k)) h m =
      (0, free_commit k (h\<lparr>task_heap_ipc := ipc_counted (task_heap_ipc h)\<rparr>), m2)"
    using manager_pages.free_live [OF _ _ _ assms(2,3) refl, of m new_pages unmap_pages] ok
    unfolding heap_system_ok_alt by metis
  with assms(4) have e: "e = 0"
    and h': "h' = free_commit k (h\<lparr>task_heap_ipc := ipc_counted (task_heap_ipc h)\<rparr>)" by auto
  have "0 < task_heap_active_allocations h"
    using ok assms(2,3) by (auto simp: heap_system_ok_def heap_inv_def simp flip: neq0_conv)
  moreover have "ha_requested (task_heap_allocations h k) \<le> task_heap_active_bytes h"
    using ok assms(2,3) member_le_sum [of k "{..<TASK_HEAP_MAX_ALLOCATIONS}" "alloc_bytes h"]
    by (auto simp: heap_system_ok_def heap_inv_def alloc_bytes_def)
  ultimately show ?thesis
    using e ok' by (auto simp: h' free_commit_def memset_at_def alloc_range_def)
qed

theorem heap_free_correct_witness:
  "fst (task_heap_free sample_transport 0x20000000 (fst (snd sample_call)) (snd (snd sample_call))) = 0 \<and>
   task_heap_active_allocations (fst (snd (task_heap_free sample_transport 0x20000000
     (fst (snd sample_call)) (snd (snd sample_call))))) = 0"
proof -
  have "alloc_used (fst (snd sample_call)) 0"
    "ha_address (task_heap_allocations (fst (snd sample_call)) 0) = 0x20000000"
    "task_heap_active_allocations (fst (snd sample_call)) = 1"
    by (simp_all add: sample_call_eq alloc_commit_def new_record_def luna_consts sample_heap_def
        task_heap_init_def)
  with heap_free_correct [OF sample_call_reachable sample_slot, of "fst r" "fst (snd r)" "snd (snd r)" for r]
  show ?thesis by (metis One_nat_def Suc_eq_plus1 add_0 add_right_cancel prod.collapse)
qed

text \<open>
  Freeing NULL succeeds and changes nothing; freeing any other pointer that is not the address
  of a live allocation (an interior pointer, a pointer freed before, a pointer outside the arena)
  is rejected with -1 before any request is sent and changes nothing.
\<close>

theorem heap_free_rejects:
  "task_heap_free transport 0 h m = (0, h, m) \<and>
   ((\<nexists>k. k < TASK_HEAP_MAX_ALLOCATIONS \<and> alloc_used h k \<and> ha_address (task_heap_allocations h k) = ptr) \<longrightarrow>
    ptr \<noteq> 0 \<longrightarrow> task_heap_free transport ptr h m = (-1, h, m))"
  using heap_free_dead [of h ptr transport m] by (auto simp: task_heap_free_def [of _ 0])

theorem heap_free_rejects_witness:
  "task_heap_free sample_transport 0x20001000 sample_heap sample_context = (-1, sample_heap, sample_context)"
  using heap_free_rejects [where ptr = "0x20001000" and transport = sample_transport and h = sample_heap
      and m = sample_context] by simp

text \<open>
  C5: Whatever three words a child sends, the manager's page bitmap, page count and peak stay
  consistent, the reservation flag does not change, a rejected request changes no mapping, and the
  address space is only ever changed by operations on page ranges inside the child's arena: every
  property of the address space that such operations keep is kept.
\<close>

theorem service_memory_safe:
  assumes "heap_resource_inv (mc_heap c)"
    and "service_memory_request new_pages unmap_pages event address pages c = (e, c')"
    and "Q (mc_vspace c)"
    and "\<And>v f n. Q v \<Longrightarrow> 0 < n \<Longrightarrow> f + n \<le> LUNA_CHILD_HEAP_PAGES \<Longrightarrow>
      Q (snd (new_pages v (LUNA_CHILD_HEAP_BASE + f * TASK_PAGE_SIZE) n)) \<and>
      Q (unmap_pages v (LUNA_CHILD_HEAP_BASE + f * TASK_PAGE_SIZE) n)"
  shows "heap_resource_inv (mc_heap c') \<and> hr_reserved (mc_heap c') = hr_reserved (mc_heap c) \<and>
    (e \<noteq> 0 \<longrightarrow> mc_heap c' = mc_heap c) \<and> Q (mc_vspace c')"
proof -
  have "(e \<noteq> 0 \<longrightarrow> mc_heap c' = mc_heap c) \<and> Q (mc_vspace c')"
  proof (cases "memory_range_bad (mc_heap c) (unat address) (unat pages)")
    case True
    with assms show ?thesis by (auto simp: service_memory_request_def Let_def)
  next
    case False
    then obtain f where f: "0 < unat pages" "f + unat pages \<le> LUNA_CHILD_HEAP_PAGES"
      "unat address = LUNA_CHILD_HEAP_BASE + f * TASK_PAGE_SIZE"
      by (elim memory_range_bad_cases) (auto simp: luna_consts)
    with assms(2) assms(4) [OF assms(3) f(1,2)] assms(3) False show ?thesis
      by (auto simp: service_memory_request_def Let_def split: if_splits prod.splits)
  qed
  with service_memory_inv [OF assms(1,2)] show ?thesis by simp
qed

theorem service_memory_safe_witness:
  "heap_resource_inv (mc_heap (snd (service_memory_request sample_new_pages sample_unmap_pages
     0x200 0x20000000 2 sample_context)))"
proof -
  have "heap_resource_inv (mc_heap sample_context)"
    by (simp add: heap_resource_inv_def sample_context_def fresh_heap_resource_def)
  from service_memory_safe [OF this sample_service, where Q = "\<lambda>_. True"] show ?thesis
    by (simp add: sample_service)
qed

end
