(* ===== verification/Task_Sync.thy ===== *)
theory Task_Sync
  imports Luna_Protocol
begin

text \<open>
  Synchronisation objects of the child (\<open>lkl_task_host.c\<close>): the pool of 96 slots, counting
  semaphores built from an atomic counter, a waiter count and a seL4 notification, and mutexes
  built from a notification used as a token. The pool operations are functions on the table. The
  blocking operations are step relations over any number of threads, one step per atomic access
  or system call of the code; a compare-and-swap loop is one step, its successful exchange. The
  notification belongs to the kernel and is a parameter (\<open>ntfn_ops\<close>); the theorems name what they
  need of it.
\<close>

datatype task_sync_kind = TASK_SYNC_FREE | TASK_SYNC_SEM | TASK_SYNC_MUTEX

record lkl_sem =
  sem_count :: int
  sem_waiters :: int

record lkl_mutex =
  mutex_owner :: nat
  mutex_count :: int
  mutex_recursive :: bool

record task_sync_slot =
  ss_ntfn :: cptr
  ss_used :: bool
  ss_kind :: task_sync_kind
  ss_sem :: lkl_sem
  ss_mutex :: lkl_mutex

record task_sync_pool =
  task_sync :: "nat \<Rightarrow> task_sync_slot"
  task_sync_current :: nat
  task_sync_peak :: nat
  task_sync_calls :: "kcall list" \<comment> \<open>system calls issued, latest first\<close>

definition task_resource_peak :: "nat \<Rightarrow> nat \<Rightarrow> nat" where
  "task_resource_peak peak current = (if current > peak then current else peak)"

abbreviation put_sync :: "nat \<Rightarrow> task_sync_slot \<Rightarrow> task_sync_pool \<Rightarrow> task_sync_pool" where
  "put_sync i x s \<equiv> s\<lparr>task_sync := (task_sync s)(i := x)\<rparr>"

definition sync_call :: "kcall \<Rightarrow> task_sync_pool \<Rightarrow> task_sync_pool" where
  "sync_call c s = s\<lparr>task_sync_calls := c # task_sync_calls s\<rparr>"

definition task_sync_claim :: "task_sync_kind \<Rightarrow> task_sync_pool \<Rightarrow> nat option \<times> task_sync_pool" where
  "task_sync_claim kind s =
     (case first_index (\<lambda>i. \<not> ss_used (task_sync s i)) LUNA_SYNC_SLOTS of
        None \<Rightarrow> (None, s)
      | Some i \<Rightarrow>
          let s = put_sync i ((task_sync s i)\<lparr>ss_used := True, ss_kind := kind\<rparr>) s;
              s = sync_call (KPoll (ss_ntfn (task_sync s i))) s;
              current = task_sync_current s + 1
          in (Some i, s\<lparr>task_sync_current := current,
                        task_sync_peak := task_resource_peak (task_sync_peak s) current\<rparr>))"

definition task_sync_release :: "nat option \<Rightarrow> task_sync_pool \<Rightarrow> task_sync_pool" where
  "task_sync_release slot s =
     (case slot of
        None \<Rightarrow> s
      | Some i \<Rightarrow>
          let s = sync_call (KPoll (ss_ntfn (task_sync s i))) s
          in (put_sync i ((task_sync s i)\<lparr>ss_kind := TASK_SYNC_FREE, ss_used := False\<rparr>) s)
             \<lparr>task_sync_current := task_sync_current s - 1\<rparr>)"

definition task_sem_alloc :: "int \<Rightarrow> task_sync_pool \<Rightarrow> nat option \<times> task_sync_pool" where
  "task_sem_alloc count s =
     (if count < 0 then (None, s)
      else case task_sync_claim TASK_SYNC_SEM s of
        (None, s) \<Rightarrow> (None, s)
      | (Some i, s) \<Rightarrow>
          (Some i, put_sync i ((task_sync s i)\<lparr>ss_sem := \<lparr>sem_count = count, sem_waiters = 0\<rparr>\<rparr>) s))"

definition task_sem_free :: "nat option \<Rightarrow> task_sync_pool \<Rightarrow> task_sync_pool" where
  "task_sem_free sem s =
     (case sem of
        None \<Rightarrow> s
      | Some i \<Rightarrow> if sem_waiters (ss_sem (task_sync s i)) \<noteq> 0 then s else task_sync_release (Some i) s)"

definition task_mutex_alloc :: "bool \<Rightarrow> task_sync_pool \<Rightarrow> nat option \<times> task_sync_pool" where
  "task_mutex_alloc recursive s =
     (case task_sync_claim TASK_SYNC_MUTEX s of
        (None, s) \<Rightarrow> (None, s)
      | (Some i, s) \<Rightarrow>
          (Some i, sync_call (KSignal (ss_ntfn (task_sync s i)))
             (put_sync i ((task_sync s i)\<lparr>ss_mutex :=
                \<lparr>mutex_owner = 0, mutex_count = 0, mutex_recursive = recursive\<rparr>\<rparr>) s)))"

definition task_mutex_free :: "nat option \<Rightarrow> task_sync_pool \<Rightarrow> task_sync_pool" where
  "task_mutex_free mutex s =
     (case mutex of
        None \<Rightarrow> s
      | Some i \<Rightarrow>
          if mutex_owner (ss_mutex (task_sync s i)) \<noteq> 0 \<or> mutex_count (ss_mutex (task_sync s i)) \<noteq> 0 then s
          else task_sync_release (Some i) s)"

text \<open>The part of \<open>luna_lkl_task_configure_resources\<close> that clears and fills the pool.\<close>

fun configure_sync_from :: "(nat \<Rightarrow> cptr) \<Rightarrow> nat \<Rightarrow> nat \<Rightarrow> task_sync_pool \<Rightarrow> c_int \<times> task_sync_pool" where
  "configure_sync_from sync i 0 s = (0, s)"
| "configure_sync_from sync i (Suc n) s =
     (let s = put_sync i ((task_sync s i)\<lparr>ss_ntfn := sync i\<rparr>) s
      in if ss_ntfn (task_sync s i) = 0 then (-1, s)
         else configure_sync_from sync (i + 1) n (sync_call (KPoll (ss_ntfn (task_sync s i))) s))"

definition zero_sync_slot :: task_sync_slot where
  "zero_sync_slot = \<lparr>ss_ntfn = 0, ss_used = False, ss_kind = TASK_SYNC_FREE,
     ss_sem = \<lparr>sem_count = 0, sem_waiters = 0\<rparr>,
     ss_mutex = \<lparr>mutex_owner = 0, mutex_count = 0, mutex_recursive = False\<rparr>\<rparr>"

definition configure_sync :: "(nat \<Rightarrow> cptr) \<Rightarrow> task_sync_pool \<Rightarrow> c_int \<times> task_sync_pool" where
  "configure_sync sync s = configure_sync_from sync 0 LUNA_SYNC_SLOTS
     (s\<lparr>task_sync := (\<lambda>_. zero_sync_slot), task_sync_current := 0, task_sync_peak := 0\<rparr>)"

section \<open>Atomic pieces of the semaphore and the mutex\<close>

definition INT_MAX :: int where [luna_consts]: "INT_MAX = 2147483647"

definition task_sem_try_down :: "lkl_sem \<Rightarrow> bool \<times> lkl_sem" where
  "task_sem_try_down m = (if sem_count m > 0 then (True, m\<lparr>sem_count := sem_count m - 1\<rparr>) else (False, m))"

text \<open>The counting part of \<open>task_sem_up\<close>; \<open>False\<close> is the overflow return.\<close>

definition sem_add :: "lkl_sem \<Rightarrow> bool \<times> lkl_sem" where
  "sem_add m = (if sem_count m = INT_MAX then (False, m) else (True, m\<lparr>sem_count := sem_count m + 1\<rparr>))"

text \<open>The exchange of \<open>luna_lkl_task_sem_signal_once\<close>.\<close>

definition sem_add_once :: "lkl_sem \<Rightarrow> bool \<times> lkl_sem" where
  "sem_add_once m = (if sem_count m = 0 then (True, m\<lparr>sem_count := 1\<rparr>) else (False, m))"

text \<open>The kernel's notification: signalling, whether a wait would return, and its return.\<close>

record 'n ntfn_ops =
  ntfn_signal :: "'n \<Rightarrow> 'n"
  ntfn_ready :: "'n \<Rightarrow> bool"
  ntfn_consume :: "'n \<Rightarrow> 'n"

datatype sem_pc =
    Sem_Idle
  | Down_Try      \<comment> \<open>first \<open>task_sem_try_down\<close>\<close>
  | Down_Add      \<comment> \<open>\<open>fetch_add(&waiters)\<close>\<close>
  | Down_Loop     \<comment> \<open>\<open>task_sem_try_down\<close> in the loop\<close>
  | Down_Wait     \<comment> \<open>blocked in \<open>seL4_Wait\<close>\<close>
  | Down_Got      \<comment> \<open>\<open>sub_fetch(&waiters)\<close>\<close>
  | Down_Pass int \<comment> \<open>\<open>remaining > 0 && count > 0\<close>, then the signal\<close>
  | Up_Add
  | Once_Add
  | Up_Wake       \<comment> \<open>\<open>waiters > 0\<close>, then the signal\<close>

record 'n sem_sys =
  ss_state :: lkl_sem
  ss_bit :: 'n
  ss_pc :: "nat \<Rightarrow> sem_pc"
  ss_ups :: nat   \<comment> \<open>ghost: units added\<close>
  ss_downs :: nat \<comment> \<open>ghost: units taken\<close>

definition goto :: "nat \<Rightarrow> sem_pc \<Rightarrow> 'n sem_sys \<Rightarrow> 'n sem_sys" where
  "goto t pc s = s\<lparr>ss_pc := (ss_pc s)(t := pc)\<rparr>"

text \<open>One step of thread \<open>t\<close>.\<close>

inductive sem_step :: "'n ntfn_ops \<Rightarrow> nat \<Rightarrow> 'n sem_sys \<Rightarrow> 'n sem_sys \<Rightarrow> bool" for K t where
  start_down: "ss_pc s t = Sem_Idle \<Longrightarrow> sem_step K t s (goto t Down_Try s)"
| start_up: "ss_pc s t = Sem_Idle \<Longrightarrow> sem_step K t s (goto t Up_Add s)"
| start_once: "ss_pc s t = Sem_Idle \<Longrightarrow> sem_step K t s (goto t Once_Add s)"
| try_ok: "ss_pc s t = Down_Try \<Longrightarrow> task_sem_try_down (ss_state s) = (True, m) \<Longrightarrow>
    sem_step K t s (goto t Sem_Idle (s\<lparr>ss_state := m, ss_downs := ss_downs s + 1\<rparr>))"
| try_fail: "ss_pc s t = Down_Try \<Longrightarrow> task_sem_try_down (ss_state s) = (False, m) \<Longrightarrow>
    sem_step K t s (goto t Down_Add s)"
| add_waiter: "ss_pc s t = Down_Add \<Longrightarrow>
    sem_step K t s (goto t Down_Loop (s\<lparr>ss_state := (ss_state s)\<lparr>sem_waiters := sem_waiters (ss_state s) + 1\<rparr>\<rparr>))"
| loop_ok: "ss_pc s t = Down_Loop \<Longrightarrow> task_sem_try_down (ss_state s) = (True, m) \<Longrightarrow>
    sem_step K t s (goto t Down_Got (s\<lparr>ss_state := m, ss_downs := ss_downs s + 1\<rparr>))"
| loop_fail: "ss_pc s t = Down_Loop \<Longrightarrow> task_sem_try_down (ss_state s) = (False, m) \<Longrightarrow>
    sem_step K t s (goto t Down_Wait s)"
| wake: "ss_pc s t = Down_Wait \<Longrightarrow> ntfn_ready K (ss_bit s) \<Longrightarrow>
    sem_step K t s (goto t Down_Loop (s\<lparr>ss_bit := ntfn_consume K (ss_bit s)\<rparr>))"
| sub_waiter: "ss_pc s t = Down_Got \<Longrightarrow> remaining = sem_waiters (ss_state s) - 1 \<Longrightarrow>
    sem_step K t s (goto t (Down_Pass remaining) (s\<lparr>ss_state := (ss_state s)\<lparr>sem_waiters := remaining\<rparr>\<rparr>))"
| pass: "ss_pc s t = Down_Pass remaining \<Longrightarrow>
    sem_step K t s (goto t Sem_Idle (if remaining > 0 \<and> sem_count (ss_state s) > 0
      then s\<lparr>ss_bit := ntfn_signal K (ss_bit s)\<rparr> else s))"
| up_ok: "ss_pc s t = Up_Add \<Longrightarrow> sem_add (ss_state s) = (True, m) \<Longrightarrow>
    sem_step K t s (goto t Up_Wake (s\<lparr>ss_state := m, ss_ups := ss_ups s + 1\<rparr>))"
| up_full: "ss_pc s t = Up_Add \<Longrightarrow> sem_add (ss_state s) = (False, m) \<Longrightarrow> sem_step K t s (goto t Sem_Idle s)"
| once_ok: "ss_pc s t = Once_Add \<Longrightarrow> sem_add_once (ss_state s) = (True, m) \<Longrightarrow>
    sem_step K t s (goto t Up_Wake (s\<lparr>ss_state := m, ss_ups := ss_ups s + 1\<rparr>))"
| once_full: "ss_pc s t = Once_Add \<Longrightarrow> sem_add_once (ss_state s) = (False, m) \<Longrightarrow> sem_step K t s (goto t Sem_Idle s)"
| up_wake: "ss_pc s t = Up_Wake \<Longrightarrow>
    sem_step K t s (goto t Sem_Idle (if sem_waiters (ss_state s) > 0
      then s\<lparr>ss_bit := ntfn_signal K (ss_bit s)\<rparr> else s))"

inductive sem_reachable :: "'n ntfn_ops \<Rightarrow> nat \<Rightarrow> 'n sem_sys \<Rightarrow> bool" for K init where
  sem_start: "sem_reachable K init \<lparr>ss_state = \<lparr>sem_count = int init, sem_waiters = 0\<rparr>, ss_bit = b,
     ss_pc = (\<lambda>_. Sem_Idle), ss_ups = 0, ss_downs = 0\<rparr>"
| sem_next: "sem_reachable K init s \<Longrightarrow> sem_step K t s s' \<Longrightarrow> sem_reachable K init s'"

text \<open>A thread counted in \<open>waiters\<close>.\<close>

fun registered :: "sem_pc \<Rightarrow> bool" where
  "registered Down_Loop \<longleftrightarrow> True"
| "registered Down_Wait \<longleftrightarrow> True"
| "registered Down_Got \<longleftrightarrow> True"
| "registered _ \<longleftrightarrow> False"

text \<open>A thread that will still look at the counter or signal.\<close>

fun responsible :: "sem_pc \<Rightarrow> bool" where
  "responsible Up_Wake \<longleftrightarrow> True"
| "responsible Down_Loop \<longleftrightarrow> True"
| "responsible Down_Got \<longleftrightarrow> True"
| "responsible (Down_Pass r) \<longleftrightarrow> r > 0"
| "responsible _ \<longleftrightarrow> False"

inductive_cases sem_stepE: "sem_step K t s s'"

lemma goto_simps [simp]:
  "ss_state (goto t pc s) = ss_state s" "ss_bit (goto t pc s) = ss_bit s"
  "ss_pc (goto t pc s) = (ss_pc s)(t := pc)" "ss_ups (goto t pc s) = ss_ups s"
  "ss_downs (goto t pc s) = ss_downs s"
  by (simp_all add: goto_def)

lemma sem_ops:
  "task_sem_try_down m = (True, m') \<longleftrightarrow> 0 < sem_count m \<and> m' = m\<lparr>sem_count := sem_count m - 1\<rparr>"
  "task_sem_try_down m = (False, m') \<longleftrightarrow> sem_count m \<le> 0 \<and> m' = m"
  "sem_add m = (True, m') \<longleftrightarrow> sem_count m \<noteq> INT_MAX \<and> m' = m\<lparr>sem_count := sem_count m + 1\<rparr>"
  "sem_add m = (False, m') \<longleftrightarrow> sem_count m = INT_MAX \<and> m' = m"
  "sem_add_once m = (True, m') \<longleftrightarrow> sem_count m = 0 \<and> m' = m\<lparr>sem_count := 1\<rparr>"
  "sem_add_once m = (False, m') \<longleftrightarrow> sem_count m \<noteq> 0 \<and> m' = m"
  by (auto simp: task_sem_try_down_def sem_add_def sem_add_once_def)

definition sem_count_inv :: "nat \<Rightarrow> 'n sem_sys \<Rightarrow> bool" where
  "sem_count_inv init s \<longleftrightarrow> 0 \<le> sem_count (ss_state s) \<and>
     sem_count (ss_state s) + int (ss_downs s) = int init + int (ss_ups s)"

definition sem_waiters_inv :: "'n sem_sys \<Rightarrow> bool" where
  "sem_waiters_inv s \<longleftrightarrow> finite {t. registered (ss_pc s t)} \<and>
     sem_waiters (ss_state s) = int (card {t. registered (ss_pc s t)})"

lemma sem_count_step: "sem_step K t s s' \<Longrightarrow> sem_count_inv init s \<Longrightarrow> sem_count_inv init s'"
  by (erule sem_stepE) (auto simp: sem_count_inv_def sem_ops split: if_splits)

lemma registered_update:
  "{u. registered (if u = t then pc else f u)} =
     (if registered pc then insert t {u. registered (f u)} else {u. registered (f u)} - {t})"
  by auto

lemma int_card_minus: "finite A \<Longrightarrow> t \<in> A \<Longrightarrow> int (card (A - {t})) = int (card A) - 1"
  using card_Suc_Diff1 [of A t] by linarith

lemma sem_waiters_step: "sem_step K t s s' \<Longrightarrow> sem_waiters_inv s \<Longrightarrow> sem_waiters_inv s'"
  by (erule sem_stepE)
    (simp_all add: sem_waiters_inv_def registered_update insert_absorb card_insert_if int_card_minus sem_ops
      del: card_Diff_singleton card_Diff_insert)

definition no_lost_wakeup :: "'n ntfn_ops \<Rightarrow> 'n sem_sys \<Rightarrow> bool" where
  "no_lost_wakeup K s \<longleftrightarrow>
     ((\<exists>t. ss_pc s t = Down_Wait) \<and> sem_count (ss_state s) > 0 \<and> \<not> ntfn_ready K (ss_bit s) \<longrightarrow>
        (\<exists>t. responsible (ss_pc s t)))"

lemma waiter_counted: "sem_waiters_inv s \<Longrightarrow> ss_pc s t = Down_Wait \<Longrightarrow> 0 < sem_waiters (ss_state s)"
  by (auto simp: sem_waiters_inv_def card_gt_0_iff) (metis registered.simps(2))

lemma two_waiters:
  assumes "sem_waiters_inv s" "ss_pc s t = Down_Wait" "ss_pc s u = Down_Got"
  shows "1 < sem_waiters (ss_state s)"
proof -
  have "card {t, u} \<le> card {t. registered (ss_pc s t)}"
    using assms by (intro card_mono) (auto simp: sem_waiters_inv_def)
  moreover have "t \<noteq> u" using assms by auto
  ultimately show ?thesis using assms(1) by (simp add: sem_waiters_inv_def)
qed

lemma wakeup_other:
  assumes "no_lost_wakeup K s" "\<not> responsible (ss_pc s t)" "pc \<noteq> Down_Wait"
    "ss_pc s' = (ss_pc s)(t := pc)" "ss_bit s' = ss_bit s"
    "sem_count (ss_state s') > 0 \<Longrightarrow> sem_count (ss_state s) > 0"
  shows "no_lost_wakeup K s'"
  using assms by (auto simp: no_lost_wakeup_def split: if_splits)

lemma wakeup_here: "responsible (ss_pc s t) \<Longrightarrow> no_lost_wakeup K s"
  by (auto simp: no_lost_wakeup_def)

lemma sem_wakeup_step:
  assumes "sem_step K t s s'" "sem_waiters_inv s" "no_lost_wakeup K s" "\<forall>n. ntfn_ready K (ntfn_signal K n)"
  shows "no_lost_wakeup K s'"
  using assms(1)
proof (cases rule: sem_step.cases)
  case (pass r)
  show ?thesis
  proof (cases "r > 0")
    case True
    then show ?thesis using pass assms(4) by (auto simp: no_lost_wakeup_def)
  next
    case False
    show ?thesis by (rule wakeup_other [OF assms(3), of t]) (use pass False in auto)
  qed
next
  case (sub_waiter r)
  have "ss_pc s u \<noteq> Down_Wait \<or> 0 < r" for u
    using two_waiters [OF assms(2)] sub_waiter by fastforce
  then show ?thesis using sub_waiter by (auto simp: no_lost_wakeup_def split: if_splits)
next
  case up_wake
  then show ?thesis using waiter_counted [OF assms(2)] assms(4) by (auto simp: no_lost_wakeup_def split: if_splits)
next
  case loop_fail
  then show ?thesis by (auto simp: no_lost_wakeup_def sem_ops)
qed (auto intro: wakeup_here [of _ t] wakeup_other [OF assms(3), of t] simp: sem_ops)

lemma sem_reachable_inv:
  assumes "sem_reachable K init s" "\<forall>n. ntfn_ready K (ntfn_signal K n)"
  shows "sem_count_inv init s \<and> sem_waiters_inv s \<and> no_lost_wakeup K s"
  using assms
proof (induction rule: sem_reachable.induct)
  case (sem_start b)
  then show ?case by (simp add: sem_count_inv_def sem_waiters_inv_def no_lost_wakeup_def)
next
  case (sem_next s t s')
  then show ?case using sem_count_step sem_waiters_step sem_wakeup_step by blast
qed

text \<open>Runs in which only threads that are inside a call move.\<close>

definition sem_inside :: "'n ntfn_ops \<Rightarrow> 'n sem_sys \<Rightarrow> 'n sem_sys \<Rightarrow> bool" where
  "sem_inside K s s' \<longleftrightarrow> (\<exists>t. ss_pc s t \<noteq> Sem_Idle \<and> sem_step K t s s')"

lemma sem_insideI: "sem_step K t s s' \<Longrightarrow> ss_pc s t \<noteq> Sem_Idle \<Longrightarrow> sem_inside K s s'"
  by (auto simp: sem_inside_def)

lemma loop_takes:
  assumes "ss_pc s t = Down_Loop" "0 < sem_count (ss_state s)"
  shows "\<exists>s'. (sem_inside K)\<^sup>*\<^sup>* s s' \<and> ss_downs s' = ss_downs s + 1"
proof -
  let ?m = "(ss_state s)\<lparr>sem_count := sem_count (ss_state s) - 1\<rparr>"
  have "sem_inside K s (goto t Down_Got (s\<lparr>ss_state := ?m, ss_downs := ss_downs s + 1\<rparr>))"
    by (rule sem_insideI [OF loop_ok [OF assms(1)]]) (use assms in \<open>auto simp: sem_ops\<close>)
  then show ?thesis by (intro exI conjI) (erule r_into_rtranclp, simp)
qed

lemma wake_takes:
  assumes "ss_pc s t = Down_Wait" "0 < sem_count (ss_state s)" "ntfn_ready K (ss_bit s)"
  shows "\<exists>s'. (sem_inside K)\<^sup>*\<^sup>* s s' \<and> ss_downs s' = ss_downs s + 1"
proof -
  let ?m = "goto t Down_Loop (s\<lparr>ss_bit := ntfn_consume K (ss_bit s)\<rparr>)"
  have "sem_inside K s ?m" by (rule sem_insideI [OF wake [OF assms(1) assms(3)]]) (simp add: assms)
  moreover obtain s' where "(sem_inside K)\<^sup>*\<^sup>* ?m s'" "ss_downs s' = ss_downs ?m + 1"
    using loop_takes [of ?m t K] assms by auto
  ultimately show ?thesis by (auto intro: converse_rtranclp_into_rtranclp)
qed

lemma inside_takes:
  assumes "sem_inside K s m" "ss_pc m t = Down_Wait" "0 < sem_count (ss_state m)" "ntfn_ready K (ss_bit m)"
    "ss_downs m = ss_downs s"
  shows "\<exists>s'. (sem_inside K)\<^sup>*\<^sup>* s s' \<and> ss_downs s' = ss_downs s + 1"
  using wake_takes [OF assms(2-4)] assms(1,5) by (auto intro: converse_rtranclp_into_rtranclp)

lemma pass_takes:
  assumes "ss_pc s t = Down_Wait" "0 < sem_count (ss_state s)" "\<forall>n. ntfn_ready K (ntfn_signal K n)"
    "ss_pc s u = Down_Pass r" "0 < r"
  shows "\<exists>s'. (sem_inside K)\<^sup>*\<^sup>* s s' \<and> ss_downs s' = ss_downs s + 1"
  by (rule inside_takes [OF sem_insideI [OF pass [OF assms(4)]], where t = t]) (use assms in auto)

lemma responsible_takes:
  assumes "ss_pc s t = Down_Wait" "0 < sem_count (ss_state s)" "sem_waiters_inv s"
    "\<forall>n. ntfn_ready K (ntfn_signal K n)" "responsible (ss_pc s u)"
  shows "\<exists>s'. (sem_inside K)\<^sup>*\<^sup>* s s' \<and> ss_downs s' = ss_downs s + 1"
  using assms(5)
proof (cases "ss_pc s u" rule: responsible.cases)
  case 1
  show ?thesis
    by (rule inside_takes [OF sem_insideI [OF up_wake [OF 1]], where t = t])
      (use 1 assms waiter_counted [OF assms(3,1)] in auto)
next
  case 2
  then show ?thesis using loop_takes assms(2) by blast
next
  case 3
  let ?r = "sem_waiters (ss_state s) - 1"
  let ?m = "goto u (Down_Pass ?r) (s\<lparr>ss_state := (ss_state s)\<lparr>sem_waiters := ?r\<rparr>\<rparr>)"
  have tu: "t \<noteq> u" using assms(1) 3 by auto
  have "sem_inside K s ?m" by (rule sem_insideI [OF sub_waiter [OF 3 refl]]) (simp add: 3)
  moreover obtain s' where "(sem_inside K)\<^sup>*\<^sup>* ?m s'" "ss_downs s' = ss_downs ?m + 1"
    using pass_takes [of ?m t K u ?r] assms(1,2,4) 3 two_waiters [OF assms(3,1) 3] tu by auto
  ultimately show ?thesis by (auto intro: converse_rtranclp_into_rtranclp)
next
  case (4 r)
  then show ?thesis using pass_takes [OF assms(1,2,4) 4] assms(5) by simp
qed simp_all

lemma sem_facts:
  assumes "\<forall>n. ntfn_ready K (ntfn_signal K n)" "sem_reachable K init s"
  shows "0 \<le> sem_count (ss_state s)"
    and "int (ss_downs s) + sem_count (ss_state s) = int init + int (ss_ups s)"
    and "sem_waiters (ss_state s) = int (card {t. registered (ss_pc s t)})"
    and "ss_pc s t = Down_Wait \<Longrightarrow> 0 < sem_count (ss_state s) \<Longrightarrow>
      \<exists>s'. (sem_inside K)\<^sup>*\<^sup>* s s' \<and> ss_downs s' = ss_downs s + 1"
proof -
  note inv = sem_reachable_inv [OF assms(2,1)]
  show "0 \<le> sem_count (ss_state s)" "int (ss_downs s) + sem_count (ss_state s) = int init + int (ss_ups s)"
    "sem_waiters (ss_state s) = int (card {t. registered (ss_pc s t)})"
    using inv by (auto simp: sem_count_inv_def sem_waiters_inv_def)
  assume t: "ss_pc s t = Down_Wait" "0 < sem_count (ss_state s)"
  show "\<exists>s'. (sem_inside K)\<^sup>*\<^sup>* s s' \<and> ss_downs s' = ss_downs s + 1"
  proof (cases "ntfn_ready K (ss_bit s)")
    case True
    then show ?thesis using wake_takes t by blast
  next
    case False
    then show ?thesis using responsible_takes [OF t] inv t assms(1) by (auto simp: no_lost_wakeup_def)
  qed
qed

text \<open>
  C6: At every moment of any interleaving of \<open>task_sem_down\<close>, \<open>task_sem_up\<close> and
  \<open>luna_lkl_task_sem_signal_once\<close> by any number of threads, the counter is never negative, units
  taken never exceed the initial count plus the units added (exactly: their difference is the
  counter), \<open>waiters\<close> is the number of registered threads, and no wakeup is lost: while a thread
  sleeps in \<open>seL4_Wait\<close> and the counter is positive, the threads already inside a call can run,
  without any new call, to a point where one more unit has been taken. The only assumption on
  the kernel is that a wait on a notification that has been signalled returns.
\<close>

theorem sem_conserves_and_wakes:
  assumes "\<forall>n. ntfn_ready K (ntfn_signal K n)" "sem_reachable K init s"
  shows "0 \<le> sem_count (ss_state s) \<and>
    int (ss_downs s) + sem_count (ss_state s) = int init + int (ss_ups s) \<and>
    sem_waiters (ss_state s) = int (card {t. registered (ss_pc s t)}) \<and>
    (\<forall>t. ss_pc s t = Down_Wait \<and> 0 < sem_count (ss_state s) \<longrightarrow>
      (\<exists>s'. (sem_inside K)\<^sup>*\<^sup>* s s' \<and> ss_downs s' = ss_downs s + 1))"
  using sem_facts [OF assms] by blast

text \<open>A notification as a single bit, as the seL4 manual describes it for one waiter set.\<close>

definition bit_ntfn :: "bool ntfn_ops" where
  "bit_ntfn = \<lparr>ntfn_signal = (\<lambda>_. True), ntfn_ready = (\<lambda>b. b), ntfn_consume = (\<lambda>_. False)\<rparr>"

lemma bit_ntfn_simps [simp]:
  "ntfn_signal bit_ntfn b = True" "ntfn_ready bit_ntfn b = b" "ntfn_consume bit_ntfn b = False"
  by (simp_all add: bit_ntfn_def)

text \<open>Thread 1 sleeps, thread 2 has added a unit and not signalled yet.\<close>

definition sleeping :: "bool sem_sys" where
  "sleeping = \<lparr>ss_state = \<lparr>sem_count = 1, sem_waiters = 1\<rparr>, ss_bit = False,
     ss_pc = (\<lambda>_. Sem_Idle)(1 := Down_Wait, 2 := Up_Wake), ss_ups = 1, ss_downs = 0\<rparr>"

lemma sleeping_reachable: "sem_reachable bit_ntfn 0 sleeping"
proof -
  let ?s = "\<lambda>c w pc u. \<lparr>ss_state = \<lparr>sem_count = c, sem_waiters = w\<rparr>, ss_bit = False,
     ss_pc = pc, ss_ups = u, ss_downs = 0\<rparr>"
  have 0: "sem_reachable bit_ntfn 0 (?s 0 0 (\<lambda>_. Sem_Idle) 0)"
    using sem_start [of bit_ntfn 0 False] by simp
  have 1: "sem_reachable bit_ntfn 0 (?s 0 0 ((\<lambda>_. Sem_Idle)(1 := Down_Try)) 0)"
    using sem_next [OF 0 start_down [where t = 1]] by (simp add: goto_def)
  have 2: "sem_reachable bit_ntfn 0 (?s 0 0 ((\<lambda>_. Sem_Idle)(1 := Down_Add)) 0)"
    using sem_next [OF 1 try_fail [where t = 1]] by (simp add: goto_def sem_ops)
  have 3: "sem_reachable bit_ntfn 0 (?s 0 1 ((\<lambda>_. Sem_Idle)(1 := Down_Loop)) 0)"
    using sem_next [OF 2 add_waiter [where t = 1]] by (simp add: goto_def)
  have 4: "sem_reachable bit_ntfn 0 (?s 0 1 ((\<lambda>_. Sem_Idle)(1 := Down_Wait)) 0)"
    using sem_next [OF 3 loop_fail [where t = 1]] by (simp add: goto_def sem_ops)
  have 5: "sem_reachable bit_ntfn 0 (?s 0 1 ((\<lambda>_. Sem_Idle)(1 := Down_Wait, 2 := Up_Add)) 0)"
    using sem_next [OF 4 start_up [where t = 2]] by (simp add: goto_def)
  show ?thesis
    using sem_next [OF 5 up_ok [where t = 2]]
    by (simp add: goto_def sem_ops sleeping_def INT_MAX_def fun_upd_twist)
qed

theorem sem_conserves_and_wakes_witness:
  "\<exists>s'. (sem_inside bit_ntfn)\<^sup>*\<^sup>* sleeping s' \<and> ss_downs s' = 1"
  using sem_conserves_and_wakes [OF _ sleeping_reachable] by (simp add: sleeping_def)

section \<open>Mutex\<close>

datatype mutex_pc =
    Mutex_Idle
  | Lock_Test    \<comment> \<open>\<open>recursive && owner == current_tid\<close>\<close>
  | Lock_Inc     \<comment> \<open>\<open>count++\<close>\<close>
  | Lock_Wait    \<comment> \<open>\<open>seL4_Wait\<close>\<close>
  | Lock_Owner   \<comment> \<open>\<open>owner = current_tid\<close>\<close>
  | Lock_Count   \<comment> \<open>\<open>count = 1\<close>\<close>
  | Unlock_Test  \<comment> \<open>\<open>owner != current_tid\<close>\<close>
  | Unlock_Check \<comment> \<open>\<open>count <= 0\<close>\<close>
  | Unlock_Dec   \<comment> \<open>\<open>--count > 0\<close>\<close>
  | Clear_Owner
  | Clear_Count
  | Unlock_Signal

record 'n mutex_sys =
  ms_state :: lkl_mutex
  ms_bit :: 'n
  ms_pc :: "nat \<Rightarrow> mutex_pc"
  task_mutex_owner_errors :: nat
  ms_depth :: "nat \<Rightarrow> int" \<comment> \<open>ghost: lock calls returned minus successful unlocks returned\<close>

definition mgoto :: "nat \<Rightarrow> mutex_pc \<Rightarrow> 'n mutex_sys \<Rightarrow> 'n mutex_sys" where
  "mgoto t pc s = s\<lparr>ms_pc := (ms_pc s)(t := pc)\<rparr>"

definition locked :: "nat \<Rightarrow> 'n mutex_sys \<Rightarrow> 'n mutex_sys" where
  "locked t s = s\<lparr>ms_depth := (ms_depth s)(t := ms_depth s t + 1)\<rparr>"

definition unlocked :: "nat \<Rightarrow> 'n mutex_sys \<Rightarrow> 'n mutex_sys" where
  "unlocked t s = s\<lparr>ms_depth := (ms_depth s)(t := ms_depth s t - 1)\<rparr>"

definition put_owner :: "nat \<Rightarrow> 'n mutex_sys \<Rightarrow> 'n mutex_sys" where
  "put_owner x s = s\<lparr>ms_state := (ms_state s)\<lparr>mutex_owner := x\<rparr>\<rparr>"

definition put_count :: "int \<Rightarrow> 'n mutex_sys \<Rightarrow> 'n mutex_sys" where
  "put_count x s = s\<lparr>ms_state := (ms_state s)\<lparr>mutex_count := x\<rparr>\<rparr>"

definition owner_error :: "'n mutex_sys \<Rightarrow> 'n mutex_sys" where
  "owner_error s = s\<lparr>task_mutex_owner_errors := task_mutex_owner_errors s + 1\<rparr>"

text \<open>One step of the thread with \<open>current_tid = t\<close>.\<close>

inductive mutex_step :: "'n ntfn_ops \<Rightarrow> nat \<Rightarrow> 'n mutex_sys \<Rightarrow> 'n mutex_sys \<Rightarrow> bool" for K t where
  call_lock: "ms_pc s t = Mutex_Idle \<Longrightarrow> mutex_step K t s (mgoto t Lock_Test s)"
| call_unlock: "ms_pc s t = Mutex_Idle \<Longrightarrow> mutex_step K t s (mgoto t Unlock_Test s)"
| lock_test: "ms_pc s t = Lock_Test \<Longrightarrow>
    mutex_step K t s (mgoto t (if mutex_recursive (ms_state s) \<and> mutex_owner (ms_state s) = t
      then Lock_Inc else Lock_Wait) s)"
| lock_inc: "ms_pc s t = Lock_Inc \<Longrightarrow>
    mutex_step K t s (mgoto t Mutex_Idle (locked t (put_count (mutex_count (ms_state s) + 1) s)))"
| lock_wait: "ms_pc s t = Lock_Wait \<Longrightarrow> ntfn_ready K (ms_bit s) \<Longrightarrow>
    mutex_step K t s (mgoto t Lock_Owner (s\<lparr>ms_bit := ntfn_consume K (ms_bit s)\<rparr>))"
| lock_owner: "ms_pc s t = Lock_Owner \<Longrightarrow> mutex_step K t s (mgoto t Lock_Count (put_owner t s))"
| lock_count: "ms_pc s t = Lock_Count \<Longrightarrow> mutex_step K t s (mgoto t Mutex_Idle (locked t (put_count 1 s)))"
| unlock_test: "ms_pc s t = Unlock_Test \<Longrightarrow>
    mutex_step K t s (if mutex_owner (ms_state s) \<noteq> t then mgoto t Mutex_Idle (owner_error s)
      else mgoto t Unlock_Check s)"
| unlock_check: "ms_pc s t = Unlock_Check \<Longrightarrow>
    mutex_step K t s (if mutex_count (ms_state s) \<le> 0 then mgoto t Mutex_Idle (owner_error s)
      else mgoto t (if mutex_recursive (ms_state s) then Unlock_Dec else Clear_Owner) s)"
| unlock_dec: "ms_pc s t = Unlock_Dec \<Longrightarrow> c = mutex_count (ms_state s) - 1 \<Longrightarrow>
    mutex_step K t s (if c > 0 then mgoto t Mutex_Idle (unlocked t (put_count c s))
      else mgoto t Clear_Owner (put_count c s))"
| clear_owner: "ms_pc s t = Clear_Owner \<Longrightarrow> mutex_step K t s (mgoto t Clear_Count (put_owner 0 s))"
| clear_count: "ms_pc s t = Clear_Count \<Longrightarrow> mutex_step K t s (mgoto t Unlock_Signal (put_count 0 s))"
| unlock_signal: "ms_pc s t = Unlock_Signal \<Longrightarrow>
    mutex_step K t s (mgoto t Mutex_Idle (unlocked t (s\<lparr>ms_bit := ntfn_signal K (ms_bit s)\<rparr>)))"

inductive_cases mutex_stepE: "mutex_step K t s s'"

text \<open>The state left by \<open>task_mutex_alloc\<close>; thread identifiers start at 1.\<close>

inductive mutex_reachable :: "'n ntfn_ops \<Rightarrow> bool \<Rightarrow> 'n mutex_sys \<Rightarrow> bool" for K recursive where
  mutex_start: "mutex_reachable K recursive
     \<lparr>ms_state = \<lparr>mutex_owner = 0, mutex_count = 0, mutex_recursive = recursive\<rparr>,
      ms_bit = ntfn_signal K b, ms_pc = (\<lambda>_. Mutex_Idle), task_mutex_owner_errors = e, ms_depth = (\<lambda>_. 0)\<rparr>"
| mutex_next: "mutex_reachable K recursive s \<Longrightarrow> t \<noteq> 0 \<Longrightarrow> mutex_step K t s s' \<Longrightarrow> mutex_reachable K recursive s'"

text \<open>Code in which thread \<open>t\<close> does not own the mutex.\<close>

definition outside :: "'n mutex_sys \<Rightarrow> nat \<Rightarrow> bool" where
  "outside s t \<longleftrightarrow> ms_depth s t = 0 \<and> ms_pc s t \<in> {Mutex_Idle, Lock_Test, Lock_Wait, Unlock_Test}"

definition owning :: "'n mutex_sys \<Rightarrow> nat \<Rightarrow> bool" where
  "owning s t \<longleftrightarrow>
     (let m = ms_state s; d = ms_depth s t in
      case ms_pc s t of
        Lock_Owner \<Rightarrow> mutex_owner m = 0 \<and> mutex_count m = 0 \<and> d = 0
      | Lock_Count \<Rightarrow> mutex_owner m = t \<and> mutex_count m = 0 \<and> d = 0
      | Clear_Owner \<Rightarrow> mutex_owner m = t \<and> d = 1
      | Clear_Count \<Rightarrow> mutex_owner m = 0 \<and> d = 1
      | Unlock_Signal \<Rightarrow> mutex_owner m = 0 \<and> mutex_count m = 0 \<and> d = 1
      | Lock_Inc \<Rightarrow> mutex_owner m = t \<and> mutex_count m = d \<and> d > 0 \<and> mutex_recursive m
      | _ \<Rightarrow> mutex_owner m = t \<and> mutex_count m = d \<and> d > 0 \<and> (mutex_recursive m \<or> d = 1))"

definition mutex_inv :: "'n ntfn_ops \<Rightarrow> 'n mutex_sys \<Rightarrow> bool" where
  "mutex_inv K s \<longleftrightarrow>
     (ntfn_ready K (ms_bit s) \<and> mutex_owner (ms_state s) = 0 \<and> mutex_count (ms_state s) = 0 \<and> (\<forall>t. outside s t)) \<or>
     (\<not> ntfn_ready K (ms_bit s) \<and> (\<exists>h. h \<noteq> 0 \<and> owning s h \<and> (\<forall>t. t \<noteq> h \<longrightarrow> outside s t)))"

lemmas mutex_defs = mgoto_def locked_def unlocked_def put_owner_def put_count_def owner_error_def

lemma mutex_step_frame:
  "mutex_step K t s s' \<Longrightarrow> u \<noteq> t \<Longrightarrow> ms_pc s' u = ms_pc s u \<and> ms_depth s' u = ms_depth s u"
  by (erule mutex_stepE) (auto simp: mutex_defs)

lemma outside_frame: "mutex_step K t s s' \<Longrightarrow> u \<noteq> t \<Longrightarrow> outside s' u = outside s u"
  using mutex_step_frame [of K t s s' u] by (simp add: outside_def)

lemma outside_step:
  "mutex_step K t s s' \<Longrightarrow> outside s t \<Longrightarrow> mutex_owner (ms_state s) \<noteq> t \<Longrightarrow>
     \<not> (ntfn_ready K (ms_bit s) \<and> ms_pc s t = Lock_Wait) \<Longrightarrow>
     outside s' t \<and> ms_state s' = ms_state s \<and> ms_bit s' = ms_bit s"
  by (erule mutex_stepE) (auto simp: mutex_defs outside_def)

lemma owning_step:
  "mutex_step K h s s' \<Longrightarrow> owning s h \<Longrightarrow> h \<noteq> 0 \<Longrightarrow> \<not> ntfn_ready K (ms_bit s) \<Longrightarrow>
     owning s' h \<and> ms_bit s' = ms_bit s \<or>
     ms_bit s' = ntfn_signal K (ms_bit s) \<and> outside s' h \<and> mutex_owner (ms_state s') = 0 \<and> mutex_count (ms_state s') = 0"
  by (erule mutex_stepE) (auto simp: mutex_defs outside_def owning_def Let_def)

lemma owning_cong:
  "ms_state s' = ms_state s \<Longrightarrow> ms_pc s' h = ms_pc s h \<Longrightarrow> ms_depth s' h = ms_depth s h \<Longrightarrow> owning s' h = owning s h"
  by (simp add: owning_def)

lemma owning_owner: "owning s h \<Longrightarrow> t \<noteq> h \<Longrightarrow> t \<noteq> 0 \<Longrightarrow> mutex_owner (ms_state s) \<noteq> t"
  by (auto simp: owning_def Let_def split: mutex_pc.splits)

lemma mutex_inv_step:
  assumes step: "mutex_step K t s s'" and inv: "mutex_inv K s" and "t \<noteq> 0"
    and sig: "\<forall>n. ntfn_ready K (ntfn_signal K n)" and con: "\<forall>n. \<not> ntfn_ready K (ntfn_consume K n)"
  shows "mutex_inv K s'"
proof -
  note frame = outside_frame [OF step] and keep = outside_step [OF step]
  from inv consider
    (free) "ntfn_ready K (ms_bit s)" "mutex_owner (ms_state s) = 0" "mutex_count (ms_state s) = 0" "\<forall>t. outside s t"
  | (held) h where "\<not> ntfn_ready K (ms_bit s)" "h \<noteq> 0" "owning s h" "\<forall>t. t \<noteq> h \<longrightarrow> outside s t"
    by (auto simp: mutex_inv_def)
  then show ?thesis
  proof cases
    case free
    show ?thesis
    proof (cases "ms_pc s t = Lock_Wait")
      case True
      with step free con have "owning s' t \<and> \<not> ntfn_ready K (ms_bit s')"
        by (auto elim!: mutex_stepE simp: mutex_defs owning_def outside_def)
      then show ?thesis using free frame \<open>t \<noteq> 0\<close> by (auto simp: mutex_inv_def)
    next
      case False
      then have "outside s' t \<and> ms_state s' = ms_state s \<and> ms_bit s' = ms_bit s"
        using keep free \<open>t \<noteq> 0\<close> by auto
      then show ?thesis using free frame by (metis mutex_inv_def)
    qed
  next
    case held
    show ?thesis
    proof (cases "t = h")
      case True
      then have "owning s' h \<and> ms_bit s' = ms_bit s \<or>
        ms_bit s' = ntfn_signal K (ms_bit s) \<and> outside s' h \<and> mutex_owner (ms_state s') = 0 \<and> mutex_count (ms_state s') = 0"
        using owning_step [of K h s s'] step held by simp
      then show ?thesis using held frame sig True by (metis mutex_inv_def)
    next
      case False
      then have "outside s' t \<and> ms_state s' = ms_state s \<and> ms_bit s' = ms_bit s"
        using keep held \<open>t \<noteq> 0\<close> owning_owner [of s h t] by auto
      moreover from this have "owning s' h"
        using owning_cong [of s' s h] mutex_step_frame [OF step, of h] False held by simp
      ultimately show ?thesis using held frame by (metis mutex_inv_def)
    qed
  qed
qed

lemma mutex_reachable_inv:
  assumes "mutex_reachable K recursive s"
    "\<forall>n. ntfn_ready K (ntfn_signal K n)" "\<forall>n. \<not> ntfn_ready K (ntfn_consume K n)"
  shows "mutex_inv K s"
  using assms
proof (induction rule: mutex_reachable.induct)
  case (mutex_start b e)
  then show ?case by (simp add: mutex_inv_def outside_def)
next
  case (mutex_next s t s')
  then show ?case using mutex_inv_step by blast
qed

lemma mutex_facts:
  assumes "\<forall>n. ntfn_ready K (ntfn_signal K n)" "\<forall>n. \<not> ntfn_ready K (ntfn_consume K n)"
    "mutex_reachable K recursive s"
  shows "ms_depth s t > 0 \<Longrightarrow> ms_depth s u > 0 \<Longrightarrow> t = u"
    and "t \<noteq> 0 \<Longrightarrow> ms_depth s t = 0 \<Longrightarrow> ms_pc s t = Unlock_Test \<Longrightarrow> mutex_owner (ms_state s) \<noteq> t"
    and "ms_depth s t > 0 \<Longrightarrow> ms_pc s t = Mutex_Idle \<Longrightarrow>
      mutex_owner (ms_state s) = t \<and> mutex_count (ms_state s) = ms_depth s t \<and>
      (mutex_recursive (ms_state s) \<or> ms_depth s t = 1)"
    and "\<forall>t. outside s t \<Longrightarrow> ntfn_ready K (ms_bit s)"
proof -
  have inv: "mutex_inv K s" using mutex_reachable_inv assms by blast
  show "t = u" if "ms_depth s t > 0" "ms_depth s u > 0"
    using inv that by (metis mutex_inv_def outside_def less_irrefl)
  show "mutex_owner (ms_state s) \<noteq> t" if "t \<noteq> 0" "ms_depth s t = 0" "ms_pc s t = Unlock_Test"
  proof -
    have "\<not> owning s t" using that by (simp add: owning_def)
    then show ?thesis using inv that owning_owner [of s _ t] by (metis mutex_inv_def)
  qed
  show "mutex_owner (ms_state s) = t \<and> mutex_count (ms_state s) = ms_depth s t \<and>
      (mutex_recursive (ms_state s) \<or> ms_depth s t = 1)" if "ms_depth s t > 0" "ms_pc s t = Mutex_Idle"
  proof -
    have "\<not> outside s t" using that by (simp add: outside_def)
    then have "owning s t" using inv by (metis mutex_inv_def)
    then show ?thesis using that by (simp add: owning_def Let_def)
  qed
  show "ntfn_ready K (ms_bit s)" if "\<forall>t. outside s t"
    using inv that by (auto simp: mutex_inv_def owning_def outside_def Let_def split: mutex_pc.splits)
qed

text \<open>
  C7: In every interleaving of \<open>task_mutex_lock\<close> and \<open>task_mutex_unlock\<close> calls by any
  number of threads, recursive or not, two threads never hold the mutex at once; an unlock that
  reads the owner while its caller holds nothing is refused; a holder at rest is the recorded
  owner with \<open>count\<close> equal to its nesting depth (1 unless the mutex is recursive); and when no
  thread is between the return of its wait and its signal, a wait on the notification returns,
  so the mutex is never lost. Assumed of the kernel: a signalled notification is ready, a
  consumed one is not.
\<close>

theorem mutex_exclusive:
  assumes "\<forall>n. ntfn_ready K (ntfn_signal K n)" "\<forall>n. \<not> ntfn_ready K (ntfn_consume K n)"
    "mutex_reachable K recursive s"
  shows "(\<forall>t u. ms_depth s t > 0 \<and> ms_depth s u > 0 \<longrightarrow> t = u) \<and>
    (\<forall>t. t \<noteq> 0 \<and> ms_depth s t = 0 \<and> ms_pc s t = Unlock_Test \<longrightarrow> mutex_owner (ms_state s) \<noteq> t) \<and>
    (\<forall>t. ms_depth s t > 0 \<and> ms_pc s t = Mutex_Idle \<longrightarrow>
      mutex_owner (ms_state s) = t \<and> mutex_count (ms_state s) = ms_depth s t \<and>
      (mutex_recursive (ms_state s) \<or> ms_depth s t = 1)) \<and>
    ((\<forall>t. outside s t) \<longrightarrow> ntfn_ready K (ms_bit s))"
  using mutex_facts [OF assms] by blast

text \<open>Thread 1 has locked, thread 2 waits.\<close>

definition contended :: "bool mutex_sys" where
  "contended = \<lparr>ms_state = \<lparr>mutex_owner = 1, mutex_count = 1, mutex_recursive = True\<rparr>, ms_bit = False,
     ms_pc = (\<lambda>_. Mutex_Idle)(2 := Lock_Wait), task_mutex_owner_errors = 0, ms_depth = (\<lambda>_. 0)(1 := 1)\<rparr>"

lemma contended_reachable: "mutex_reachable bit_ntfn True contended"
proof -
  let ?s = "\<lambda>c w b pc d. \<lparr>ms_state = \<lparr>mutex_owner = w, mutex_count = c, mutex_recursive = True\<rparr>, ms_bit = b,
     ms_pc = pc, task_mutex_owner_errors = 0, ms_depth = d\<rparr>"
  let ?R = "mutex_reachable bit_ntfn True"
  have 0: "?R (?s 0 0 True (\<lambda>_. Mutex_Idle) (\<lambda>_. 0))"
    using mutex_start [of bit_ntfn True False 0] by simp
  have 1: "?R (?s 0 0 True ((\<lambda>_. Mutex_Idle)(1 := Lock_Test)) (\<lambda>_. 0))"
    using mutex_next [OF 0 _ call_lock [where t = 1]] by (simp add: mutex_defs)
  have 2: "?R (?s 0 0 True ((\<lambda>_. Mutex_Idle)(1 := Lock_Wait)) (\<lambda>_. 0))"
    using mutex_next [OF 1 _ lock_test [where t = 1]] by (simp add: mutex_defs)
  have 3: "?R (?s 0 0 False ((\<lambda>_. Mutex_Idle)(1 := Lock_Owner)) (\<lambda>_. 0))"
    using mutex_next [OF 2 _ lock_wait [where t = 1]] by (simp add: mutex_defs)
  have 4: "?R (?s 0 1 False ((\<lambda>_. Mutex_Idle)(1 := Lock_Count)) (\<lambda>_. 0))"
    using mutex_next [OF 3 _ lock_owner [where t = 1]] by (simp add: mutex_defs)
  have 5: "?R (?s 1 1 False (\<lambda>_. Mutex_Idle) ((\<lambda>_. 0)(1 := 1)))"
    using mutex_next [OF 4 _ lock_count [where t = 1]] by (simp add: mutex_defs fun_upd_idem)
  have 6: "?R (?s 1 1 False ((\<lambda>_. Mutex_Idle)(2 := Lock_Test)) ((\<lambda>_. 0)(1 := 1)))"
    using mutex_next [OF 5 _ call_lock [where t = 2]] by (simp add: mutex_defs)
  show ?thesis
    using mutex_next [OF 6 _ lock_test [where t = 2]] by (simp add: mutex_defs contended_def)
qed

theorem mutex_exclusive_witness:
  "mutex_count (ms_state contended) = ms_depth contended 1 \<and> mutex_owner (ms_state contended) = 1"
  using mutex_exclusive [OF _ _ contended_reachable] by (simp add: contended_def)

section \<open>The pool of synchronisation objects\<close>

definition sync_pool_ok :: "task_sync_pool \<Rightarrow> bool" where
  "sync_pool_ok s \<longleftrightarrow>
     task_sync_current s = count_below (\<lambda>i. ss_used (task_sync s i)) LUNA_SYNC_SLOTS \<and>
     task_sync_current s \<le> task_sync_peak s \<and> task_sync_peak s \<le> LUNA_SYNC_SLOTS \<and>
     (\<forall>i < LUNA_SYNC_SLOTS. ss_used (task_sync s i) \<longleftrightarrow> ss_kind (task_sync s i) \<noteq> TASK_SYNC_FREE)"

definition live :: "task_sync_kind \<Rightarrow> task_sync_pool \<Rightarrow> nat \<Rightarrow> bool" where
  "live k s i \<longleftrightarrow> i < LUNA_SYNC_SLOTS \<and> ss_used (task_sync s i) \<and> ss_kind (task_sync s i) = k"

text \<open>A run of pool operations, between which the live objects are used; only objects that are alive are freed.\<close>

inductive sync_run :: "task_sync_pool \<Rightarrow> task_sync_pool \<Rightarrow> bool" for s0 where
  run_none: "sync_run s0 s0"
| run_use: "sync_run s0 s \<Longrightarrow>
    sync_run s0 (s\<lparr>task_sync := (\<lambda>i. (task_sync s i)\<lparr>ss_sem := sems i, ss_mutex := mutexes i\<rparr>)\<rparr>)"
| run_sem: "sync_run s0 s \<Longrightarrow> sync_run s0 (snd (task_sem_alloc c s))"
| run_mutex: "sync_run s0 s \<Longrightarrow> sync_run s0 (snd (task_mutex_alloc r s))"
| run_sem_free: "sync_run s0 s \<Longrightarrow> live TASK_SYNC_SEM s i \<Longrightarrow> sync_run s0 (task_sem_free (Some i) s)"
| run_mutex_free: "sync_run s0 s \<Longrightarrow> live TASK_SYNC_MUTEX s i \<Longrightarrow> sync_run s0 (task_mutex_free (Some i) s)"

lemma sync_call_simps [simp]:
  "task_sync (sync_call c s) = task_sync s" "task_sync_current (sync_call c s) = task_sync_current s"
  "task_sync_peak (sync_call c s) = task_sync_peak s" "task_sync_calls (sync_call c s) = c # task_sync_calls s"
  by (simp_all add: sync_call_def)

lemma task_sync_claim_None:
  "task_sync_claim k s = (None, s') \<longleftrightarrow> s' = s \<and> (\<forall>i < LUNA_SYNC_SLOTS. ss_used (task_sync s i))"
  by (auto simp: task_sync_claim_def Let_def first_index_None split: option.splits dest: first_index_Some)

lemma task_sync_claim_Some:
  assumes "task_sync_claim k s = (Some i, s')" "sync_pool_ok s" "k \<noteq> TASK_SYNC_FREE"
  shows "i < LUNA_SYNC_SLOTS \<and> \<not> ss_used (task_sync s i) \<and> live k s' i \<and> sync_pool_ok s' \<and>
    (\<forall>j. j \<noteq> i \<longrightarrow> task_sync s' j = task_sync s j)"
proof -
  let ?P = "\<lambda>i. ss_used (task_sync s i)"
  have i: "i < LUNA_SYNC_SLOTS" "\<not> ss_used (task_sync s i)"
    using assms(1) by (auto simp: task_sync_claim_def Let_def split: option.splits dest!: first_index_Some)
  have slots: "task_sync s' = (task_sync s)(i := (task_sync s i)\<lparr>ss_used := True, ss_kind := k\<rparr>)"
    and cur: "task_sync_current s' = task_sync_current s + 1"
      "task_sync_peak s' = task_resource_peak (task_sync_peak s) (task_sync_current s + 1)"
    using assms(1) by (auto simp: task_sync_claim_def Let_def sync_call_def split: option.splits)
  have "count_below (?P(i := True)) LUNA_SYNC_SLOTS = Suc (count_below ?P LUNA_SYNC_SLOTS)"
    using count_below_set [of i LUNA_SYNC_SLOTS ?P] i by simp
  moreover have "count_below (?P(i := True)) LUNA_SYNC_SLOTS =
      count_below (\<lambda>j. ss_used (task_sync s' j)) LUNA_SYNC_SLOTS"
    by (intro count_below_cong) (simp add: slots)
  moreover have "task_sync_peak s' = max (task_sync_peak s) (task_sync_current s + 1)"
    using cur by (simp add: task_resource_peak_def)
  moreover have "\<forall>j < LUNA_SYNC_SLOTS. ss_used (task_sync s' j) \<longleftrightarrow> ss_kind (task_sync s' j) \<noteq> TASK_SYNC_FREE"
    using assms by (simp add: sync_pool_ok_def slots)
  moreover note count_below_le [of "\<lambda>j. ss_used (task_sync s' j)" LUNA_SYNC_SLOTS]
  ultimately have "sync_pool_ok s'" using assms cur unfolding sync_pool_ok_def by simp
  then show ?thesis using i by (simp add: slots live_def)
qed

lemma task_sync_release_live:
  assumes "sync_pool_ok s" "live k s i"
  shows "sync_pool_ok (task_sync_release (Some i) s) \<and> \<not> ss_used (task_sync (task_sync_release (Some i) s) i) \<and>
    (\<forall>j. j \<noteq> i \<longrightarrow> task_sync (task_sync_release (Some i) s) j = task_sync s j)"
proof -
  let ?P = "\<lambda>i. ss_used (task_sync s i)"
  define s' where "s' = task_sync_release (Some i) s"
  have slots: "task_sync s' = (task_sync s)(i := (task_sync s i)\<lparr>ss_kind := TASK_SYNC_FREE, ss_used := False\<rparr>)"
    and cur: "task_sync_current s' = task_sync_current s - 1" "task_sync_peak s' = task_sync_peak s"
    by (simp_all add: s'_def task_sync_release_def Let_def)
  have "Suc (count_below (?P(i := False)) LUNA_SYNC_SLOTS) = count_below ?P LUNA_SYNC_SLOTS"
    using count_below_clear [of i LUNA_SYNC_SLOTS ?P] assms by (simp add: live_def)
  moreover have "count_below (?P(i := False)) LUNA_SYNC_SLOTS = count_below (\<lambda>j. ss_used (task_sync s' j)) LUNA_SYNC_SLOTS"
    by (intro count_below_cong) (simp add: slots)
  ultimately have "task_sync_current s' = count_below (\<lambda>j. ss_used (task_sync s' j)) LUNA_SYNC_SLOTS"
    using assms cur unfolding sync_pool_ok_def by linarith
  moreover have "\<forall>j < LUNA_SYNC_SLOTS. ss_used (task_sync s' j) \<longleftrightarrow> ss_kind (task_sync s' j) \<noteq> TASK_SYNC_FREE"
    using assms by (simp add: sync_pool_ok_def slots)
  moreover have "task_sync_current s \<le> task_sync_peak s" using assms(1) by (simp add: sync_pool_ok_def)
  then have "task_sync_current s' \<le> task_sync_peak s'" using cur by linarith
  ultimately have "sync_pool_ok s'" using assms(1) cur(2) unfolding sync_pool_ok_def by auto
  then show ?thesis by (simp add: s'_def [symmetric] slots)
qed

lemma sync_pool_ok_cong:
  assumes "sync_pool_ok s" "\<forall>i. ss_used (task_sync s' i) = ss_used (task_sync s i)"
    "\<forall>i. ss_kind (task_sync s' i) = ss_kind (task_sync s i)"
    "task_sync_current s' = task_sync_current s" "task_sync_peak s' = task_sync_peak s"
  shows "sync_pool_ok s'"
  using assms by (simp add: sync_pool_ok_def)

lemma sync_pool_ok_put:
  "sync_pool_ok s \<Longrightarrow> ss_used x = ss_used (task_sync s i) \<Longrightarrow> ss_kind x = ss_kind (task_sync s i) \<Longrightarrow>
   sync_pool_ok (put_sync i x s)"
  by (erule sync_pool_ok_cong) auto

lemma sync_pool_ok_call [simp]: "sync_pool_ok (sync_call c s) = sync_pool_ok s"
  by (simp add: sync_pool_ok_def)

lemma task_sem_alloc_ok:
  assumes "sync_pool_ok s"
  shows "case task_sem_alloc c s of
      (None, s') \<Rightarrow> s' = s \<and> (c < 0 \<or> (\<forall>i < LUNA_SYNC_SLOTS. ss_used (task_sync s i)))
    | (Some i, s') \<Rightarrow> i < LUNA_SYNC_SLOTS \<and> \<not> ss_used (task_sync s i) \<and> live TASK_SYNC_SEM s' i \<and>
        ss_sem (task_sync s' i) = \<lparr>sem_count = c, sem_waiters = 0\<rparr> \<and> 0 \<le> c \<and> sync_pool_ok s' \<and>
        (\<forall>j. j \<noteq> i \<longrightarrow> task_sync s' j = task_sync s j)"
proof -
  obtain r s1 where r: "task_sync_claim TASK_SYNC_SEM s = (r, s1)" by force
  show ?thesis
  proof (cases r)
    case None
    then show ?thesis using r task_sync_claim_None [of TASK_SYNC_SEM s s1] by (simp add: task_sem_alloc_def)
  next
    case (Some i)
    then show ?thesis using task_sync_claim_Some [OF r [unfolded Some] assms] r
      by (auto simp: task_sem_alloc_def live_def intro: sync_pool_ok_put)
  qed
qed

lemma task_mutex_alloc_ok:
  assumes "sync_pool_ok s"
  shows "case task_mutex_alloc r s of
      (None, s') \<Rightarrow> s' = s \<and> (\<forall>i < LUNA_SYNC_SLOTS. ss_used (task_sync s i))
    | (Some i, s') \<Rightarrow> i < LUNA_SYNC_SLOTS \<and> \<not> ss_used (task_sync s i) \<and> live TASK_SYNC_MUTEX s' i \<and>
        ss_mutex (task_sync s' i) = \<lparr>mutex_owner = 0, mutex_count = 0, mutex_recursive = r\<rparr> \<and>
        hd (task_sync_calls s') = KSignal (ss_ntfn (task_sync s' i)) \<and> sync_pool_ok s' \<and>
        (\<forall>j. j \<noteq> i \<longrightarrow> task_sync s' j = task_sync s j)"
proof -
  obtain x s1 where x: "task_sync_claim TASK_SYNC_MUTEX s = (x, s1)" by force
  show ?thesis
  proof (cases x)
    case None
    then show ?thesis using x task_sync_claim_None [of TASK_SYNC_MUTEX s s1] by (simp add: task_mutex_alloc_def)
  next
    case (Some i)
    then show ?thesis using task_sync_claim_Some [OF x [unfolded Some] assms] x
      by (auto simp: task_mutex_alloc_def live_def intro: sync_pool_ok_put)
  qed
qed

lemma sync_run_ok: "sync_run s0 s \<Longrightarrow> sync_pool_ok s0 \<Longrightarrow> sync_pool_ok s"
proof (induction rule: sync_run.induct)
  case (run_use s sems mutexes)
  then show ?case by (auto elim: sync_pool_ok_cong)
next
  case (run_sem s c)
  then show ?case using task_sem_alloc_ok [of s c] by (auto split: prod.splits option.splits)
next
  case (run_mutex s r)
  then show ?case using task_mutex_alloc_ok [of s r] by (auto split: prod.splits option.splits)
next
  case (run_sem_free s i)
  then show ?case using task_sync_release_live [of s _ i] by (auto simp: task_sem_free_def)
next
  case (run_mutex_free s i)
  then show ?case using task_sync_release_live [of s _ i] by (auto simp: task_mutex_free_def)
qed

lemma configure_sync_from_ok:
  "sync_pool_ok s \<Longrightarrow> \<forall>j. i \<le> j \<and> j < i + n \<longrightarrow> sync j \<noteq> 0 \<Longrightarrow>
   fst (configure_sync_from sync i n s) = 0 \<and> sync_pool_ok (snd (configure_sync_from sync i n s)) \<and>
   (\<forall>j. ss_ntfn (task_sync (snd (configure_sync_from sync i n s)) j) =
      (if i \<le> j \<and> j < i + n then sync j else ss_ntfn (task_sync s j)))"
proof (induction n arbitrary: i s)
  case (Suc n)
  let ?s = "sync_call (KPoll (sync i)) (put_sync i ((task_sync s i)\<lparr>ss_ntfn := sync i\<rparr>) s)"
  have "sync_pool_ok ?s" by (rule sync_pool_ok_cong [OF Suc.prems(1)]) auto
  moreover have "\<forall>j. i + 1 \<le> j \<and> j < i + 1 + n \<longrightarrow> sync j \<noteq> 0" "sync i \<noteq> 0" using Suc.prems(2) by auto
  moreover have "task_sync ?s = (task_sync s)(i := (task_sync s i)\<lparr>ss_ntfn := sync i\<rparr>)" by simp
  moreover have "j = i \<or> (i + 1 \<le> j \<and> j < i + 1 + n) = (i \<le> j \<and> j < i + Suc n)" for j by auto
  ultimately show ?case using Suc.IH [of ?s "i + 1"] by (auto simp: Let_def not_less_eq_eq le_Suc_eq)
qed auto

lemma configure_sync_ok:
  assumes "\<forall>j < LUNA_SYNC_SLOTS. sync j \<noteq> 0"
  shows "fst (configure_sync sync s) = 0 \<and> sync_pool_ok (snd (configure_sync sync s)) \<and>
    (\<forall>j < LUNA_SYNC_SLOTS. ss_ntfn (task_sync (snd (configure_sync sync s)) j) = sync j)"
proof -
  have "sync_pool_ok (s\<lparr>task_sync := (\<lambda>_. zero_sync_slot), task_sync_current := 0, task_sync_peak := 0\<rparr>)"
    by (simp add: sync_pool_ok_def zero_sync_slot_def)
  from configure_sync_from_ok [OF this, of 0 LUNA_SYNC_SLOTS sync] assms show ?thesis
    by (simp add: configure_sync_def)
qed

lemma sync_pool_facts:
  assumes "\<forall>j < LUNA_SYNC_SLOTS. sync j \<noteq> 0" "sync_run (snd (configure_sync sync s0)) s"
  shows "task_sync_current s = count_below (\<lambda>i. ss_used (task_sync s i)) LUNA_SYNC_SLOTS"
    and "task_sync_current s \<le> task_sync_peak s"
    and "case task_sem_alloc c s of
        (None, s') \<Rightarrow> s' = s \<and> (c < 0 \<or> (\<forall>i < LUNA_SYNC_SLOTS. ss_used (task_sync s i)))
      | (Some i, s') \<Rightarrow> i < LUNA_SYNC_SLOTS \<and> \<not> ss_used (task_sync s i) \<and> live TASK_SYNC_SEM s' i \<and>
          ss_sem (task_sync s' i) = \<lparr>sem_count = c, sem_waiters = 0\<rparr> \<and> (\<forall>j. j \<noteq> i \<longrightarrow> task_sync s' j = task_sync s j)"
    and "case task_mutex_alloc r s of
        (None, s') \<Rightarrow> s' = s \<and> (\<forall>i < LUNA_SYNC_SLOTS. ss_used (task_sync s i))
      | (Some i, s') \<Rightarrow> i < LUNA_SYNC_SLOTS \<and> \<not> ss_used (task_sync s i) \<and> live TASK_SYNC_MUTEX s' i \<and>
          ss_mutex (task_sync s' i) = \<lparr>mutex_owner = 0, mutex_count = 0, mutex_recursive = r\<rparr> \<and>
          hd (task_sync_calls s') = KSignal (ss_ntfn (task_sync s' i)) \<and> (\<forall>j. j \<noteq> i \<longrightarrow> task_sync s' j = task_sync s j)"
    and "live TASK_SYNC_SEM s k \<Longrightarrow> s' = task_sem_free (Some k) s \<Longrightarrow>
      (if sem_waiters (ss_sem (task_sync s k)) \<noteq> 0 then s' = s
       else \<not> ss_used (task_sync s' k) \<and> (\<forall>j. j \<noteq> k \<longrightarrow> task_sync s' j = task_sync s j))"
    and "live TASK_SYNC_MUTEX s k \<Longrightarrow> s' = task_mutex_free (Some k) s \<Longrightarrow>
      (if mutex_owner (ss_mutex (task_sync s k)) \<noteq> 0 \<or> mutex_count (ss_mutex (task_sync s k)) \<noteq> 0 then s' = s
       else \<not> ss_used (task_sync s' k) \<and> (\<forall>j. j \<noteq> k \<longrightarrow> task_sync s' j = task_sync s j))"
proof -
  have ok: "sync_pool_ok s" using sync_run_ok assms configure_sync_ok by blast
  show "task_sync_current s = count_below (\<lambda>i. ss_used (task_sync s i)) LUNA_SYNC_SLOTS"
    "task_sync_current s \<le> task_sync_peak s"
    using ok by (simp_all add: sync_pool_ok_def)
  show "case task_sem_alloc c s of
        (None, s') \<Rightarrow> s' = s \<and> (c < 0 \<or> (\<forall>i < LUNA_SYNC_SLOTS. ss_used (task_sync s i)))
      | (Some i, s') \<Rightarrow> i < LUNA_SYNC_SLOTS \<and> \<not> ss_used (task_sync s i) \<and> live TASK_SYNC_SEM s' i \<and>
          ss_sem (task_sync s' i) = \<lparr>sem_count = c, sem_waiters = 0\<rparr> \<and> (\<forall>j. j \<noteq> i \<longrightarrow> task_sync s' j = task_sync s j)"
    using task_sem_alloc_ok [OF ok, of c] by (simp split: prod.splits option.splits)
  show "case task_mutex_alloc r s of
        (None, s') \<Rightarrow> s' = s \<and> (\<forall>i < LUNA_SYNC_SLOTS. ss_used (task_sync s i))
      | (Some i, s') \<Rightarrow> i < LUNA_SYNC_SLOTS \<and> \<not> ss_used (task_sync s i) \<and> live TASK_SYNC_MUTEX s' i \<and>
          ss_mutex (task_sync s' i) = \<lparr>mutex_owner = 0, mutex_count = 0, mutex_recursive = r\<rparr> \<and>
          hd (task_sync_calls s') = KSignal (ss_ntfn (task_sync s' i)) \<and> (\<forall>j. j \<noteq> i \<longrightarrow> task_sync s' j = task_sync s j)"
    using task_mutex_alloc_ok [OF ok, of r] by (simp split: prod.splits option.splits)
qed (use sync_run_ok [OF assms(2)] configure_sync_ok [OF assms(1)] task_sync_release_live in
      \<open>auto simp: task_sem_free_def task_mutex_free_def\<close>)

text \<open>
  From configuration with non-null notifications, every run of allocations, frees of live
  objects and uses of them keeps the pool exact: \<open>task_sync_current\<close> is the number of used slots
  and the peak bounds it. An allocation fails only for a negative count or with all 96 slots
  in use, and changes nothing then; otherwise it hands out a slot that was free, initialised as
  asked and, for a mutex, signalled once, and touches no other object. Freeing a semaphore with
  waiters or an owned mutex is refused without effect; any other free releases exactly that slot.
\<close>

theorem sync_pool_correct:
  assumes "\<forall>j < LUNA_SYNC_SLOTS. sync j \<noteq> 0" "sync_run (snd (configure_sync sync s0)) s"
  shows "task_sync_current s = count_below (\<lambda>i. ss_used (task_sync s i)) LUNA_SYNC_SLOTS \<and>
    task_sync_current s \<le> task_sync_peak s \<and>
    (case task_sem_alloc c s of
        (None, s') \<Rightarrow> s' = s \<and> (c < 0 \<or> (\<forall>i < LUNA_SYNC_SLOTS. ss_used (task_sync s i)))
      | (Some i, s') \<Rightarrow> i < LUNA_SYNC_SLOTS \<and> \<not> ss_used (task_sync s i) \<and> live TASK_SYNC_SEM s' i \<and>
          ss_sem (task_sync s' i) = \<lparr>sem_count = c, sem_waiters = 0\<rparr> \<and> (\<forall>j. j \<noteq> i \<longrightarrow> task_sync s' j = task_sync s j)) \<and>
    (case task_mutex_alloc r s of
        (None, s') \<Rightarrow> s' = s \<and> (\<forall>i < LUNA_SYNC_SLOTS. ss_used (task_sync s i))
      | (Some i, s') \<Rightarrow> i < LUNA_SYNC_SLOTS \<and> \<not> ss_used (task_sync s i) \<and> live TASK_SYNC_MUTEX s' i \<and>
          ss_mutex (task_sync s' i) = \<lparr>mutex_owner = 0, mutex_count = 0, mutex_recursive = r\<rparr> \<and>
          hd (task_sync_calls s') = KSignal (ss_ntfn (task_sync s' i)) \<and> (\<forall>j. j \<noteq> i \<longrightarrow> task_sync s' j = task_sync s j)) \<and>
    (\<forall>k. live TASK_SYNC_SEM s k \<longrightarrow>
      (if sem_waiters (ss_sem (task_sync s k)) \<noteq> 0 then task_sem_free (Some k) s = s
       else \<not> ss_used (task_sync (task_sem_free (Some k) s) k) \<and>
         (\<forall>j. j \<noteq> k \<longrightarrow> task_sync (task_sem_free (Some k) s) j = task_sync s j))) \<and>
    (\<forall>k. live TASK_SYNC_MUTEX s k \<longrightarrow>
      (if mutex_owner (ss_mutex (task_sync s k)) \<noteq> 0 \<or> mutex_count (ss_mutex (task_sync s k)) \<noteq> 0
       then task_mutex_free (Some k) s = s
       else \<not> ss_used (task_sync (task_mutex_free (Some k) s) k) \<and>
         (\<forall>j. j \<noteq> k \<longrightarrow> task_sync (task_mutex_free (Some k) s) j = task_sync s j)))"
  by (intro conjI allI impI sync_pool_facts [OF assms]) auto

definition sample_pool :: task_sync_pool where
  "sample_pool = snd (configure_sync (\<lambda>_. 7)
     \<lparr>task_sync = (\<lambda>_. zero_sync_slot), task_sync_current = 5, task_sync_peak = 9, task_sync_calls = []\<rparr>)"

theorem sync_pool_correct_witness:
  "let p = snd (task_mutex_alloc True (snd (task_sem_alloc 1 sample_pool))) in
     task_sync_current p = count_below (\<lambda>i. ss_used (task_sync p i)) LUNA_SYNC_SLOTS \<and>
     fst (task_sem_alloc (-1) p) = None"
proof -
  have "sync_run sample_pool (snd (task_mutex_alloc True (snd (task_sem_alloc 1 sample_pool))))"
    by (intro run_mutex run_sem run_none)
  then show ?thesis
    using sync_pool_correct [of "\<lambda>_. 7"] by (simp add: sample_pool_def Let_def task_sem_alloc_def)
qed

end
