(* ===== verification/Task_Disk.thy ===== *)
theory Task_Disk
  imports Manager_Disk "HOL-Library.Monad_Syntax"
begin

text \<open>
  The child's virtio-block backend (\<open>lkl_task_disk.c\<close>): up to eight local batches of fifteen
  descriptors, a worker that submits them in publication order, write-behind through the pending
  batch, and reads that first drain the queue. Semaphores are counters. A requester that waits on
  a semaphore lets the worker run; an iteration of the worker (pick, submit, complete) is one
  step, because only the worker touches a batch between READY and FREE or DONE. The result \<open>None\<close>
  is a wait that nobody can end. The time statistics (\<open>*_ns\<close>) are not modelled. The buffer pointer of a
  slot always is the slot's own data area (\<open>task_disk_queue_write\<close>), so the model has only that.
\<close>

datatype task_disk_batch_state =
    TASK_DISK_BATCH_FREE
  | TASK_DISK_BATCH_BUILDING
  | TASK_DISK_BATCH_READY
  | TASK_DISK_BATCH_PROCESSING
  | TASK_DISK_BATCH_DONE

record task_disk_local_batch =
  tb_state :: task_disk_batch_state
  tb_sequence :: nat
  tb_count :: nat
  tb_event :: "nat \<Rightarrow> luna_isolation_event"
  tb_offset :: "nat \<Rightarrow> nat"
  tb_data :: "nat \<Rightarrow> bytes"
  tb_length :: "nat \<Rightarrow> nat"
  tb_result :: c_int
  tb_auto_release :: bool
  tb_completion_sem :: nat

record task_disk =
  task_disk_io :: bool \<comment> \<open>the window pointer is set\<close>
  task_disk_size :: nat
  task_disk_batches :: "nat \<Rightarrow> task_disk_local_batch"
  task_disk_worker_sem :: nat
  task_disk_queue_free_sem :: nat
  task_disk_async_completion_sem :: nat
  task_disk_flush_gate_sem :: nat
  task_disk_sequence :: nat
  task_disk_ipc :: u64
  task_disk_batches_completed :: u64
  task_disk_requests :: u64
  task_disk_copies :: u64
  task_disk_backpressure :: u64
  task_disk_queue_waits :: u64
  task_disk_completion_signals :: u64
  task_disk_queue_high_water :: nat
  task_disk_pending_write :: "nat option"
  task_disk_async_pending :: nat
  task_disk_async_error :: bool
  task_disk_channel :: task_ipc

type_synonym disk_sys = "task_disk \<times> luna_persistent_disk"

definition free_batch :: task_disk_local_batch where
  "free_batch = \<lparr>tb_state = TASK_DISK_BATCH_FREE, tb_sequence = 0, tb_count = 0,
     tb_event = (\<lambda>_. LUNA_ISOLATION_EVENT_DISK_FLUSH), tb_offset = (\<lambda>_. 0), tb_data = (\<lambda>_ _. 0),
     tb_length = (\<lambda>_. 0), tb_result = 0, tb_auto_release = False, tb_completion_sem = 0\<rparr>"

text \<open>
  State after \<open>luna_lkl_task_configure_disk\<close> with the expected window and size, and after
  \<open>luna_lkl_task_disk_add\<close> has allocated the semaphores.
\<close>

definition luna_lkl_task_configure_disk :: "nat \<Rightarrow> nat \<Rightarrow> nat \<Rightarrow> task_ipc \<Rightarrow> task_disk option" where
  "luna_lkl_task_configure_disk io_base io_size disk_size c =
     (if io_base \<noteq> LUNA_DISK_IO_BASE \<or> io_size \<noteq> LUNA_DISK_IO_SIZE \<or>
         disk_size \<noteq> LUNA_PERSISTENT_DISK_SIZE \<or> io_base mod 512 \<noteq> 0 then None
      else Some \<lparr>task_disk_io = True, task_disk_size = disk_size, task_disk_batches = (\<lambda>_. free_batch),
        task_disk_worker_sem = 0, task_disk_queue_free_sem = 0, task_disk_async_completion_sem = 0,
        task_disk_flush_gate_sem = 0, task_disk_sequence = 1, task_disk_ipc = 0,
        task_disk_batches_completed = 0, task_disk_requests = 0, task_disk_copies = 0,
        task_disk_backpressure = 0, task_disk_queue_waits = 0, task_disk_completion_signals = 0,
        task_disk_queue_high_water = 0, task_disk_pending_write = None, task_disk_async_pending = 0,
        task_disk_async_error = False, task_disk_channel = c\<rparr>)"

definition task_disk_sems :: "task_disk \<Rightarrow> task_disk" where
  "task_disk_sems t = t\<lparr>task_disk_queue_free_sem := LUNA_DISK_LOCAL_QUEUE_COUNT,
     task_disk_async_completion_sem := 0, task_disk_flush_gate_sem := 1, task_disk_worker_sem := 0\<rparr>"

definition task_disk_get_capacity :: "task_disk \<Rightarrow> nat option" where
  "task_disk_get_capacity t = (if \<not> task_disk_io t \<or> task_disk_size t = 0 then None else Some (task_disk_size t))"

text \<open>One request to the manager's disk service, with the shared window as part of its state.\<close>

definition disk_call :: "luna_isolation_event \<Rightarrow> u64 \<Rightarrow> u64 \<Rightarrow> disk_sys \<Rightarrow> c_int \<times> disk_sys" where
  "disk_call event v1 v2 s =
     (case luna_lkl_task_manager_request disk_transport event v1 v2 (task_disk_channel (fst s)) (Some (snd s)) of
        (e, c, d) \<Rightarrow> (e, (fst s)\<lparr>task_disk_channel := c\<rparr>, the d))"

function task_disk_read_direct :: "nat \<Rightarrow> bytes \<Rightarrow> nat \<Rightarrow> nat \<Rightarrow> disk_sys \<Rightarrow> c_int \<times> bytes \<times> disk_sys" where
  "task_disk_read_direct offset buffer pos len s =
     (if len = 0 then (0, buffer, s)
      else
        let chunk = (if len < DISK_WINDOW then len else DISK_WINDOW);
            (e, t1, d1) = disk_call LUNA_ISOLATION_EVENT_DISK_READ (of_nat offset) (of_nat chunk) s;
            buffer1 = (if e = 0 then memcpy_at buffer pos (dk_io_data d1) 0 chunk else buffer);
            t2 = t1\<lparr>task_disk_ipc := task_disk_ipc t1 + 1\<rparr>
        in if e \<noteq> 0 then (-1, buffer1, t2, d1)
           else task_disk_read_direct (offset + chunk) buffer1 (pos + chunk) (len - chunk)
                  (t2\<lparr>task_disk_requests := task_disk_requests t2 + 1,
                      task_disk_copies := task_disk_copies t2 + 1\<rparr>, d1))"
  by pat_completeness auto
termination
  by (relation "measure (\<lambda>(offset, buffer, pos, len, s). len)") (auto simp: luna_consts)

declare task_disk_read_direct.simps [simp del]

definition task_disk_record_high_water :: "task_disk \<Rightarrow> task_disk" where
  "task_disk_record_high_water t =
     (let used = length (filter (\<lambda>i. tb_state (task_disk_batches t i) \<noteq> TASK_DISK_BATCH_FREE)
                           [0..<LUNA_DISK_LOCAL_QUEUE_COUNT])
      in if used > task_disk_queue_high_water t then t\<lparr>task_disk_queue_high_water := used\<rparr> else t)"

text \<open>The three loops of \<open>task_disk_process_batch\<close> are folds over the slot numbers.\<close>

definition fill_slot :: "task_disk_local_batch \<Rightarrow> nat \<Rightarrow> disk_sys \<Rightarrow> disk_sys" where
  "fill_slot batch i s =
     (let (t, d) = s;
          h = dk_io_header d;
          d1 = d\<lparr>dk_io_header := h\<lparr>dh_descriptors := (dh_descriptors h)(i :=
                 \<lparr>dd_event = event_word (tb_event batch i), dd_offset = of_nat (tb_offset batch i),
                  dd_length = of_nat (tb_length batch i), dd_status = - 1\<rparr>)\<rparr>\<rparr>
      in if tb_event batch i = LUNA_ISOLATION_EVENT_DISK_WRITE
         then (t\<lparr>task_disk_copies := task_disk_copies t + 1\<rparr>,
               d1\<lparr>dk_io_data := memcpy_at (dk_io_data d1) (i * LUNA_DISK_BATCH_SLOT_SIZE)
                    (tb_data batch i) 0 (tb_length batch i)\<rparr>)
         else (t, d1))"

fun collect_slots :: "nat \<Rightarrow> nat \<Rightarrow> task_disk_local_batch \<Rightarrow> disk_sys \<Rightarrow> bool \<times> task_disk_local_batch \<times> disk_sys" where
  "collect_slots i 0 batch s = (True, batch, s)"
| "collect_slots i (Suc n) batch s =
     (let (t, d) = s in
      if cint_of_word (dd_status (dh_descriptors (dk_io_header d) i)) \<noteq> 0 then (False, batch, s)
      else if tb_event batch i = LUNA_ISOLATION_EVENT_DISK_READ
      then collect_slots (Suc i) n
             (batch\<lparr>tb_data := (tb_data batch)(i := memcpy_at (tb_data batch i) 0 (dk_io_data d)
                      (i * LUNA_DISK_BATCH_SLOT_SIZE) (tb_length batch i))\<rparr>)
             (t\<lparr>task_disk_copies := task_disk_copies t + 1\<rparr>, d)
      else collect_slots (Suc i) n batch s)"

definition task_disk_process_batch :: "task_disk_local_batch \<Rightarrow> disk_sys \<Rightarrow> c_int \<times> task_disk_local_batch \<times> disk_sys" where
  "task_disk_process_batch batch s =
     (let (t1, d1) = fold (fill_slot batch) [0..<tb_count batch] s;
          d2 = d1\<lparr>dk_io_header := (dk_io_header d1)\<lparr>dh_completed := 0, dh_count := of_nat (tb_count batch)\<rparr>\<rparr>;
          (result, t3, d3) = disk_call LUNA_ISOLATION_EVENT_DISK_SUBMIT_BATCH (of_nat (tb_count batch)) 0 (t1, d2);
          t4 = t3\<lparr>task_disk_ipc := task_disk_ipc t3 + 1\<rparr>
      in if result \<noteq> 0 \<or> dh_completed (dk_io_header d3) \<noteq> of_nat (tb_count batch) then (-1, batch, t4, d3)
         else case collect_slots 0 (tb_count batch) batch (t4, d3) of
           (False, batch', t5, d5) \<Rightarrow> (-1, batch', t5, d5)
         | (True, batch', t5, d5) \<Rightarrow>
             (0, batch', t5\<lparr>task_disk_batches_completed := task_disk_batches_completed t5 + 1,
                           task_disk_requests := task_disk_requests t5 + of_nat (tb_count batch)\<rparr>, d5))"

text \<open>The scan of the worker: the READY batch of least sequence, the first one among equals.\<close>

definition select_batch :: "task_disk \<Rightarrow> nat option" where
  "select_batch t = fold (\<lambda>i selected.
     if tb_state (task_disk_batches t i) = TASK_DISK_BATCH_READY \<and>
        (case selected of None \<Rightarrow> True
         | Some j \<Rightarrow> tb_sequence (task_disk_batches t i) < tb_sequence (task_disk_batches t j))
     then Some i else selected) [0..<LUNA_DISK_LOCAL_QUEUE_COUNT] None"

abbreviation put_batch :: "nat \<Rightarrow> task_disk_local_batch \<Rightarrow> task_disk \<Rightarrow> task_disk" where
  "put_batch i b t \<equiv> t\<lparr>task_disk_batches := (task_disk_batches t)(i := b)\<rparr>"

text \<open>One pass of the worker's loop; \<open>None\<close> while its semaphore is zero.\<close>

definition task_disk_worker :: "disk_sys \<Rightarrow> disk_sys option" where
  "task_disk_worker s =
     (let (t, d) = s in
      if task_disk_worker_sem t = 0 then None
      else
        let t = t\<lparr>task_disk_worker_sem := task_disk_worker_sem t - 1\<rparr> in
        case select_batch t of
          None \<Rightarrow> Some (t, d)
        | Some i \<Rightarrow>
            let batch = (task_disk_batches t i)\<lparr>tb_state := TASK_DISK_BATCH_PROCESSING\<rparr>;
                (result, batch, t, d) = task_disk_process_batch batch (put_batch i batch t, d);
                batch = batch\<lparr>tb_result := result\<rparr>
            in if tb_auto_release batch
               then Some ((put_batch i (batch\<lparr>tb_count := 0, tb_auto_release := False,
                                              tb_state := TASK_DISK_BATCH_FREE\<rparr>) t)
                     \<lparr>task_disk_async_error := (task_disk_async_error t \<or> result \<noteq> 0),
                      task_disk_queue_free_sem := task_disk_queue_free_sem t + 1,
                      task_disk_async_completion_sem := task_disk_async_completion_sem t + 1,
                      task_disk_completion_signals := task_disk_completion_signals t + 1\<rparr>, d)
               else Some ((put_batch i (batch\<lparr>tb_state := TASK_DISK_BATCH_DONE,
                                              tb_completion_sem := tb_completion_sem batch + 1\<rparr>) t)
                     \<lparr>task_disk_completion_signals := task_disk_completion_signals t + 1\<rparr>, d))"

text \<open>
  \<open>sem_down\<close> on one of the semaphores: while it is zero the worker runs. \<open>get\<close> and \<open>put\<close> read and
  write the counter. Every pass of the worker consumes one unit of its own semaphore, so the wait
  ends, with \<open>None\<close> when the worker is blocked too.
\<close>

lemma fold_fill_worker_sem:
  "task_disk_worker_sem (fst (fold (fill_slot b) xs s)) = task_disk_worker_sem (fst s)"
  by (induction xs arbitrary: s) (auto simp: fill_slot_def Let_def split: prod.splits)

lemma collect_worker_sem:
  "collect_slots i n b s = (r, b', s') \<Longrightarrow> task_disk_worker_sem (fst s') = task_disk_worker_sem (fst s)"
  by (induction i n b s arbitrary: r b' s' rule: collect_slots.induct) (auto simp: Let_def split: if_splits prod.splits)

lemma process_worker_sem:
  assumes "task_disk_process_batch b s = (e, b', t', d')"
  shows "task_disk_worker_sem t' = task_disk_worker_sem (fst s)"
proof -
  obtain t1 d1 where fill: "fold (fill_slot b) [0..<tb_count b] s = (t1, d1)" by force
  have t1: "task_disk_worker_sem t1 = task_disk_worker_sem (fst s)"
    using fold_fill_worker_sem [of b "[0..<tb_count b]" s] fill by simp
  define d2 where "d2 = d1\<lparr>dk_io_header := (dk_io_header d1)\<lparr>dh_completed := 0, dh_count := of_nat (tb_count b)\<rparr>\<rparr>"
  obtain e3 t3 d3 where call: "disk_call LUNA_ISOLATION_EVENT_DISK_SUBMIT_BATCH (of_nat (tb_count b)) 0 (t1, d2) = (e3, t3, d3)"
    by (metis prod_cases3)
  then have t3: "task_disk_worker_sem t3 = task_disk_worker_sem t1"
    by (auto simp: disk_call_def split: prod.splits)
  obtain r b5 t5 d5 where coll: "collect_slots 0 (tb_count b) b (t3\<lparr>task_disk_ipc := task_disk_ipc t3 + 1\<rparr>, d3) = (r, b5, t5, d5)"
    by (metis prod_cases4)
  have t5: "task_disk_worker_sem t5 = task_disk_worker_sem t3" using collect_worker_sem [OF coll] by simp
  show ?thesis
    using assms t1 t3 t5 unfolding task_disk_process_batch_def fill Let_def prod.case d2_def [symmetric] call coll
    by (auto split: if_splits bool.splits)
qed

lemma worker_decreases:
  "task_disk_worker s = Some s' \<Longrightarrow> task_disk_worker_sem (fst s') < task_disk_worker_sem (fst s)"
  by (auto simp: task_disk_worker_def Let_def split: prod.splits if_splits option.splits dest!: process_worker_sem)

function sem_wait :: "(task_disk \<Rightarrow> nat) \<Rightarrow> (nat \<Rightarrow> task_disk \<Rightarrow> task_disk) \<Rightarrow> disk_sys \<Rightarrow> disk_sys option" where
  "sem_wait get put s =
     (if get (fst s) > 0 then Some (put (get (fst s) - 1) (fst s), snd s)
      else case task_disk_worker s of None \<Rightarrow> None | Some s' \<Rightarrow> sem_wait get put s')"
  by pat_completeness auto
termination
  by (relation "measure (\<lambda>(get, put, s). task_disk_worker_sem (fst s))") (auto dest: worker_decreases)

declare sem_wait.simps [simp del]

abbreviation wait_queue_free :: "disk_sys \<Rightarrow> disk_sys option" where
  "wait_queue_free \<equiv> sem_wait task_disk_queue_free_sem (\<lambda>n t. t\<lparr>task_disk_queue_free_sem := n\<rparr>)"

abbreviation wait_async :: "disk_sys \<Rightarrow> disk_sys option" where
  "wait_async \<equiv> sem_wait task_disk_async_completion_sem (\<lambda>n t. t\<lparr>task_disk_async_completion_sem := n\<rparr>)"

abbreviation wait_gate :: "disk_sys \<Rightarrow> disk_sys option" where
  "wait_gate \<equiv> sem_wait task_disk_flush_gate_sem (\<lambda>n t. t\<lparr>task_disk_flush_gate_sem := n\<rparr>)"

abbreviation wait_completion :: "nat \<Rightarrow> disk_sys \<Rightarrow> disk_sys option" where
  "wait_completion i \<equiv> sem_wait (\<lambda>t. tb_completion_sem (task_disk_batches t i))
     (\<lambda>n t. put_batch i ((task_disk_batches t i)\<lparr>tb_completion_sem := n\<rparr>) t)"

definition batch_free :: "task_disk \<Rightarrow> nat \<Rightarrow> bool" where
  "batch_free t i \<longleftrightarrow> tb_state (task_disk_batches t i) = TASK_DISK_BATCH_FREE"

text \<open>The claimed index, or \<open>None\<close> for NULL.\<close>

definition task_disk_claim_batch :: "disk_sys \<Rightarrow> (nat option \<times> disk_sys) option" where
  "task_disk_claim_batch s =
     (let (t, d) = s;
          found_free = (first_index (batch_free t) LUNA_DISK_LOCAL_QUEUE_COUNT \<noteq> None);
          t = (if found_free then t
               else t\<lparr>task_disk_backpressure := task_disk_backpressure t + 1,
                      task_disk_queue_waits := task_disk_queue_waits t + 1\<rparr>)
      in do {
        (t, d) \<leftarrow> wait_queue_free (t, d);
        case first_index (batch_free t) LUNA_DISK_LOCAL_QUEUE_COUNT of
          Some i \<Rightarrow> Some (Some i, task_disk_record_high_water
             (put_batch i ((task_disk_batches t i)\<lparr>tb_state := TASK_DISK_BATCH_BUILDING\<rparr>) t), d)
        | None \<Rightarrow> Some (None, t\<lparr>task_disk_queue_free_sem := task_disk_queue_free_sem t + 1\<rparr>, d)
      })"

definition task_disk_publish_batch :: "nat \<Rightarrow> bool \<Rightarrow> task_disk \<Rightarrow> task_disk" where
  "task_disk_publish_batch i auto_release t =
     (put_batch i ((task_disk_batches t i)\<lparr>tb_sequence := task_disk_sequence t, tb_result := - 1,
                     tb_auto_release := auto_release, tb_state := TASK_DISK_BATCH_READY\<rparr>) t)
     \<lparr>task_disk_sequence := task_disk_sequence t + 1,
      task_disk_async_pending := (if auto_release then task_disk_async_pending t + 1 else task_disk_async_pending t),
      task_disk_worker_sem := task_disk_worker_sem t + 1\<rparr>"

definition task_disk_submit_batch :: "nat \<Rightarrow> disk_sys \<Rightarrow> (c_int \<times> disk_sys) option" where
  "task_disk_submit_batch i s = do {
     (t, d) \<leftarrow> wait_completion i (task_disk_publish_batch i False (fst s), snd s);
     if tb_state (task_disk_batches t i) \<noteq> TASK_DISK_BATCH_DONE then Some (-1, t, d)
     else Some (tb_result (task_disk_batches t i),
       (put_batch i ((task_disk_batches t i)\<lparr>tb_count := 0, tb_state := TASK_DISK_BATCH_FREE\<rparr>) t)
         \<lparr>task_disk_queue_free_sem := task_disk_queue_free_sem t + 1\<rparr>, d)
   }"

fun wait_async_times :: "nat \<Rightarrow> disk_sys \<Rightarrow> disk_sys option" where
  "wait_async_times 0 s = Some s"
| "wait_async_times (Suc n) s = do { s' \<leftarrow> wait_async s; wait_async_times n s' }"

definition task_disk_flush_writes :: "disk_sys \<Rightarrow> (c_int \<times> disk_sys) option" where
  "task_disk_flush_writes s = do {
     (t, d) \<leftarrow> wait_gate s;
     let batch = task_disk_pending_write t;
     let t = t\<lparr>task_disk_pending_write := None\<rparr>;
     let t = (case batch of
                Some i \<Rightarrow> if tb_count (task_disk_batches t i) \<noteq> 0 then task_disk_publish_batch i True t else t
              | None \<Rightarrow> t);
     let pending = task_disk_async_pending t;
     (t, d) \<leftarrow> wait_async_times pending (t\<lparr>task_disk_async_pending := 0\<rparr>, d);
     Some (if task_disk_async_error t then -1 else 0,
           t\<lparr>task_disk_flush_gate_sem := task_disk_flush_gate_sem t + 1\<rparr>, d)
   }"

text \<open>The pending write batch, claimed when there is none; \<open>None\<close> inside is the failed claim.\<close>

definition ensure_pending :: "disk_sys \<Rightarrow> (nat option \<times> disk_sys) option" where
  "ensure_pending s =
     (case task_disk_pending_write (fst s) of
        Some i \<Rightarrow> Some (Some i, s)
      | None \<Rightarrow>
          (case task_disk_claim_batch s of
             None \<Rightarrow> None
           | Some (None, s') \<Rightarrow> Some (None, s')
           | Some (Some i, t, d) \<Rightarrow>
               Some (Some i, (put_batch i ((task_disk_batches t i)\<lparr>tb_count := 0\<rparr>) t)
                  \<lparr>task_disk_pending_write := Some i\<rparr>, d)))"

definition put_chunk :: "nat \<Rightarrow> nat \<Rightarrow> bytes \<Rightarrow> nat \<Rightarrow> nat \<Rightarrow> task_disk \<Rightarrow> task_disk" where
  "put_chunk i offset source iov_offset chunk t =
     (let b = task_disk_batches t i;
          slot = tb_count b;
          b = b\<lparr>tb_count := slot + 1,
                tb_event := (tb_event b)(slot := LUNA_ISOLATION_EVENT_DISK_WRITE),
                tb_offset := (tb_offset b)(slot := offset),
                tb_length := (tb_length b)(slot := chunk),
                tb_data := (tb_data b)(slot := memcpy_at (tb_data b slot) 0 source iov_offset chunk)\<rparr>;
          t = (put_batch i b t)\<lparr>task_disk_copies := task_disk_copies t + 1\<rparr>
      in if tb_count b = LUNA_DISK_BATCH_SLOTS
         then task_disk_publish_batch i True (t\<lparr>task_disk_pending_write := None\<rparr>)
         else t)"

text \<open>The inner loop of \<open>task_disk_queue_write\<close>; it yields the next disk offset.\<close>

function queue_iov :: "bytes \<Rightarrow> nat \<Rightarrow> nat \<Rightarrow> nat \<Rightarrow> disk_sys \<Rightarrow> (nat option \<times> disk_sys) option" where
  "queue_iov source len iov_offset offset s =
     (if iov_offset < len
      then case ensure_pending s of
             None \<Rightarrow> None
           | Some (None, s') \<Rightarrow> Some (None, s')
           | Some (Some i, t, d) \<Rightarrow>
               let remaining = len - iov_offset;
                   chunk = (if remaining < LUNA_DISK_BATCH_SLOT_SIZE then remaining else LUNA_DISK_BATCH_SLOT_SIZE)
               in queue_iov source len (iov_offset + chunk) (offset + chunk)
                    (put_chunk i offset source iov_offset chunk t, d)
      else Some (Some offset, s))"
  by pat_completeness auto
termination
  by (relation "measure (\<lambda>(source, len, iov_offset, offset, s). len - iov_offset)") (auto simp: luna_consts)

declare queue_iov.simps [simp del]

record iov =
  iov_base :: nat
  iov_len :: nat
  iov_bytes :: bytes

fun queue_iovs :: "iov list \<Rightarrow> nat \<Rightarrow> disk_sys \<Rightarrow> (bool \<times> disk_sys) option" where
  "queue_iovs [] offset s = Some (True, s)"
| "queue_iovs (v # vs) offset s =
     (case queue_iov (iov_bytes v) (iov_len v) 0 offset s of
        None \<Rightarrow> None
      | Some (None, s') \<Rightarrow> Some (False, s')
      | Some (Some offset', s') \<Rightarrow> queue_iovs vs offset' s')"

definition task_disk_queue_write :: "iov list \<Rightarrow> nat \<Rightarrow> disk_sys \<Rightarrow> (c_int \<times> disk_sys) option" where
  "task_disk_queue_write vs offset s =
     (case queue_iovs vs offset s of
        None \<Rightarrow> None
      | Some (False, s') \<Rightarrow> Some (-1, s')
      | Some (True, s') \<Rightarrow> Some (if task_disk_async_error (fst s') then -1 else 0, s'))"

datatype blk_type = LKL_DEV_BLK_TYPE_READ | LKL_DEV_BLK_TYPE_WRITE | LKL_DEV_BLK_TYPE_FLUSH
  | LKL_DEV_BLK_TYPE_FLUSH_OUT | LKL_DEV_BLK_TYPE_OTHER nat

datatype blk_status = LKL_DEV_BLK_STATUS_OK | LKL_DEV_BLK_STATUS_IOERR | LKL_DEV_BLK_STATUS_UNSUP

record lkl_blk_req =
  rq_type :: blk_type
  rq_sector :: nat
  rq_count :: int
  rq_buf :: "nat \<Rightarrow> iov"

abbreviation rq_iovs :: "lkl_blk_req \<Rightarrow> iov list" where
  "rq_iovs r \<equiv> map (rq_buf r) [0..<nat (rq_count r)]"

text \<open>The length check over the vector: the running total, or \<open>None\<close> for the early return.\<close>

fun iov_total :: "nat \<Rightarrow> nat \<Rightarrow> iov list \<Rightarrow> nat option" where
  "iov_total disk_size acc [] = Some acc"
| "iov_total disk_size acc (v # vs) =
     (if iov_base v = 0 \<or> iov_len v > disk_size - acc then None
      else iov_total disk_size (acc + iov_len v) vs)"

fun read_iovs :: "iov list \<Rightarrow> nat \<Rightarrow> disk_sys \<Rightarrow> bool \<times> iov list \<times> disk_sys" where
  "read_iovs [] offset s = (True, [], s)"
| "read_iovs (v # vs) offset s =
     (let (e, buffer, s') = task_disk_read_direct offset (iov_bytes v) 0 (iov_len v) s;
          v' = v\<lparr>iov_bytes := buffer\<rparr>
      in if e \<noteq> 0 then (False, v' # vs, s')
         else let (ok, vs', s'') = read_iovs vs (offset + iov_len v) s' in (ok, v' # vs', s''))"

text \<open>The block operation; a read also returns the filled buffers.\<close>

definition task_disk_request ::
  "lkl_blk_req option \<Rightarrow> disk_sys \<Rightarrow> (blk_status \<times> iov list \<times> disk_sys) option" where
  "task_disk_request request s =
     (case request of
        None \<Rightarrow> Some (LKL_DEV_BLK_STATUS_IOERR, [], s)
      | Some r \<Rightarrow>
          if \<not> task_disk_io (fst s) \<or> rq_count r < 0 then Some (LKL_DEV_BLK_STATUS_IOERR, rq_iovs r, s)
          else if rq_type r = LKL_DEV_BLK_TYPE_FLUSH \<or> rq_type r = LKL_DEV_BLK_TYPE_FLUSH_OUT then do {
            (e, s) \<leftarrow> task_disk_flush_writes s;
            if e \<noteq> 0 then Some (LKL_DEV_BLK_STATUS_IOERR, rq_iovs r, s)
            else do {
              (claimed, t, d) \<leftarrow> task_disk_claim_batch s;
              case claimed of
                None \<Rightarrow> Some (LKL_DEV_BLK_STATUS_IOERR, rq_iovs r, t, d)
              | Some i \<Rightarrow> do {
                  let b = task_disk_batches t i;
                  let b = b\<lparr>tb_count := 1, tb_event := (tb_event b)(0 := LUNA_ISOLATION_EVENT_DISK_FLUSH),
                        tb_offset := (tb_offset b)(0 := 0), tb_length := (tb_length b)(0 := 0)\<rparr>;
                  (e, s) \<leftarrow> task_disk_submit_batch i (put_batch i b t, d);
                  Some (if e \<noteq> 0 then LKL_DEV_BLK_STATUS_IOERR else LKL_DEV_BLK_STATUS_OK, rq_iovs r, s)
                }
            }
          }
          else if rq_type r \<noteq> LKL_DEV_BLK_TYPE_READ \<and> rq_type r \<noteq> LKL_DEV_BLK_TYPE_WRITE
          then Some (LKL_DEV_BLK_STATUS_UNSUP, rq_iovs r, s)
          else if rq_sector r > task_disk_size (fst s) div 512 then Some (LKL_DEV_BLK_STATUS_IOERR, rq_iovs r, s)
          else
            let offset = rq_sector r * 512 in
            (case iov_total (task_disk_size (fst s)) 0 (rq_iovs r) of
               None \<Rightarrow> Some (LKL_DEV_BLK_STATUS_IOERR, rq_iovs r, s)
             | Some total_bytes \<Rightarrow>
                 if offset > task_disk_size (fst s) \<or> total_bytes > task_disk_size (fst s) - offset
                 then Some (LKL_DEV_BLK_STATUS_IOERR, rq_iovs r, s)
                 else if rq_type r = LKL_DEV_BLK_TYPE_WRITE then do {
                   (e, s) \<leftarrow> task_disk_queue_write (rq_iovs r) offset s;
                   Some (if e \<noteq> 0 then LKL_DEV_BLK_STATUS_IOERR else LKL_DEV_BLK_STATUS_OK, rq_iovs r, s)
                 }
                 else do {
                   (e, s) \<leftarrow> task_disk_flush_writes s;
                   if e \<noteq> 0 then Some (LKL_DEV_BLK_STATUS_IOERR, rq_iovs r, s)
                   else let (ok, vs, s) = read_iovs (rq_iovs r) offset s
                        in Some (if ok then LKL_DEV_BLK_STATUS_OK else LKL_DEV_BLK_STATUS_IOERR, vs, s)
                 }))"

section \<open>Processing one batch\<close>

text \<open>The fields a batch transfer may change: statistics and the request channel.\<close>

definition strip :: "task_disk \<Rightarrow> task_disk" where
  "strip t = t\<lparr>task_disk_ipc := 0, task_disk_batches_completed := 0, task_disk_requests := 0,
     task_disk_copies := 0, task_disk_channel := \<lparr>task_manager_control_ep = 0,
     task_manager_command_ep = 0, task_manager_ipc_count = 0\<rparr>\<rparr>"

lemma strip_eqD:
  assumes "strip t' = strip t"
  shows "task_disk_io t' = task_disk_io t" "task_disk_size t' = task_disk_size t"
    "task_disk_batches t' = task_disk_batches t" "task_disk_worker_sem t' = task_disk_worker_sem t"
    "task_disk_queue_free_sem t' = task_disk_queue_free_sem t"
    "task_disk_async_completion_sem t' = task_disk_async_completion_sem t"
    "task_disk_flush_gate_sem t' = task_disk_flush_gate_sem t"
    "task_disk_sequence t' = task_disk_sequence t"
    "task_disk_pending_write t' = task_disk_pending_write t"
    "task_disk_async_pending t' = task_disk_async_pending t"
    "task_disk_async_error t' = task_disk_async_error t"
  using assms unfolding strip_def
  by (cases t, cases t', simp)+

lemma strip_simps [simp]:
  "strip (t\<lparr>task_disk_ipc := n\<rparr>) = strip t" "strip (t\<lparr>task_disk_batches_completed := n\<rparr>) = strip t"
  "strip (t\<lparr>task_disk_requests := n\<rparr>) = strip t" "strip (t\<lparr>task_disk_copies := n\<rparr>) = strip t"
  "strip (t\<lparr>task_disk_channel := c\<rparr>) = strip t"
  by (simp_all add: strip_def)

definition manager_ready :: "nat \<Rightarrow> luna_persistent_disk \<Rightarrow> bool" where
  "manager_ready n d \<longleftrightarrow> dk_allocated d \<and> dk_io_allocated d \<and> dk_bytes d = n \<and> n < 2 ^ 64"

definition slot_ok :: "nat \<Rightarrow> task_disk_local_batch \<Rightarrow> nat \<Rightarrow> bool" where
  "slot_ok n b j \<longleftrightarrow>
     (tb_event b j = LUNA_ISOLATION_EVENT_DISK_WRITE \<and> 0 < tb_length b j \<and>
        tb_length b j \<le> LUNA_DISK_BATCH_SLOT_SIZE \<and> tb_offset b j + tb_length b j \<le> n) \<or>
     (tb_event b j = LUNA_ISOLATION_EVENT_DISK_FLUSH \<and> tb_length b j = 0 \<and> tb_offset b j = 0)"

definition batch_ok :: "nat \<Rightarrow> task_disk_local_batch \<Rightarrow> bool" where
  "batch_ok n b \<longleftrightarrow> tb_count b \<le> LUNA_DISK_BATCH_SLOTS \<and> (\<forall>j < tb_count b. slot_ok n b j)"

definition apply_slot :: "task_disk_local_batch \<Rightarrow> nat \<Rightarrow> bytes \<Rightarrow> bytes" where
  "apply_slot b j m = (if tb_event b j = LUNA_ISOLATION_EVENT_DISK_WRITE
     then memcpy_at m (tb_offset b j) (tb_data b j) 0 (tb_length b j) else m)"

definition apply_batch :: "task_disk_local_batch \<Rightarrow> bytes \<Rightarrow> bytes" where
  "apply_batch b m = fold (apply_slot b) [0..<tb_count b] m"

definition slot_filled :: "task_disk_local_batch \<Rightarrow> luna_persistent_disk \<Rightarrow> nat \<Rightarrow> bool" where
  "slot_filled b d j \<longleftrightarrow>
     dd_event (dh_descriptors (dk_io_header d) j) = event_word (tb_event b j) \<and>
     dd_offset (dh_descriptors (dk_io_header d) j) = of_nat (tb_offset b j) \<and>
     dd_length (dh_descriptors (dk_io_header d) j) = of_nat (tb_length b j) \<and>
     (tb_event b j = LUNA_ISOLATION_EVENT_DISK_WRITE \<longrightarrow>
        (\<forall>k < tb_length b j. dk_io_data d (j * LUNA_DISK_BATCH_SLOT_SIZE + k) = tb_data b j k))"

lemma fill_slots:
  assumes "n \<le> tb_count b" "batch_ok sz b"
  obtains t' d' where "fold (fill_slot b) [0..<n] (t, d) = (t', d')" "strip t' = strip t"
    "task_disk_channel t' = task_disk_channel t"
    "\<And>j. j < n \<Longrightarrow> slot_filled b d' j" "dk_mapping d' = dk_mapping d"
    "dk_bytes d' = dk_bytes d" "dk_allocated d' = dk_allocated d" "dk_io_allocated d' = dk_io_allocated d"
  using assms
proof (induction n arbitrary: thesis)
  case 0
  then show ?case by simp
next
  case (Suc n)
  obtain t1 d1 where run: "fold (fill_slot b) [0..<n] (t, d) = (t1, d1)" and t1: "strip t1 = strip t"
    "task_disk_channel t1 = task_disk_channel t"
    and filled: "\<And>j. j < n \<Longrightarrow> slot_filled b d1 j" and d1: "dk_mapping d1 = dk_mapping d"
    "dk_bytes d1 = dk_bytes d" "dk_allocated d1 = dk_allocated d" "dk_io_allocated d1 = dk_io_allocated d"
    using Suc.IH Suc.prems(2,3) by auto
  obtain t2 d2 where step: "fill_slot b n (t1, d1) = (t2, d2)" by force
  have small: "tb_length b j \<le> LUNA_DISK_BATCH_SLOT_SIZE" if "j \<le> n" for j
  proof -
    have "slot_ok sz b j" using Suc.prems that by (auto simp: batch_ok_def)
    then show ?thesis by (auto simp: slot_ok_def)
  qed
  have "slot_filled b d2 j" if "j < Suc n" for j
  proof (cases "j = n")
    case True
    then show ?thesis using step
      by (auto simp: fill_slot_def slot_filled_def Let_def mem_simps split: if_splits)
  next
    case False
    with that have "j < n" by simp
    have apart: "j * LUNA_DISK_BATCH_SLOT_SIZE + k < n * LUNA_DISK_BATCH_SLOT_SIZE" if "k < tb_length b j" for k
      using small [of j] that \<open>j < n\<close> mult_le_mono1 [of "Suc j" n LUNA_DISK_BATCH_SLOT_SIZE] by simp
    show ?thesis using step filled [OF \<open>j < n\<close>] \<open>j < n\<close> apart
      by (auto simp: fill_slot_def slot_filled_def Let_def mem_simps split: if_splits)
  qed
  moreover have "strip t2 = strip t" "task_disk_channel t2 = task_disk_channel t"
    "dk_mapping d2 = dk_mapping d" "dk_bytes d2 = dk_bytes d" "dk_allocated d2 = dk_allocated d"
    "dk_io_allocated d2 = dk_io_allocated d"
    using step t1 d1 by (auto simp: fill_slot_def Let_def split: if_splits)
  ultimately show ?case using run step Suc.prems(1) by simp
qed

lemma unat_small: "n < 2 ^ 64 \<Longrightarrow> unat (of_nat n :: u64) = n"
  by (rule unat_u64)

text \<open>One descriptor, then the whole loop of the manager on a filled batch.\<close>

lemma disk_batch_step_filled:
  assumes "slot_filled b d j" "slot_ok (dk_bytes d) b j" "dk_bytes d < 2 ^ 64"
  obtains d' where "disk_batch_step j d = (False, d')" "dk_mapping d' = apply_slot b j (dk_mapping d)"
    "dk_io_data d' = dk_io_data d" "dk_bytes d' = dk_bytes d" "dk_allocated d' = dk_allocated d"
    "dk_io_allocated d' = dk_io_allocated d"
    "dd_status (dh_descriptors (dk_io_header d') j) = 0"
    "\<And>k. k \<noteq> j \<Longrightarrow> dh_descriptors (dk_io_header d') k = dh_descriptors (dk_io_header d) k"
proof (cases "tb_event b j = LUNA_ISOLATION_EVENT_DISK_WRITE")
  case True
  have len: "tb_length b j < 2 ^ 64" "tb_offset b j < 2 ^ 64" using assms True by (auto simp: slot_ok_def)
  have copy: "memcpy_at (dk_mapping d) (tb_offset b j) (dk_io_data d) (j * LUNA_DISK_BATCH_SLOT_SIZE) (tb_length b j) =
      memcpy_at (dk_mapping d) (tb_offset b j) (tb_data b j) 0 (tb_length b j)"
    using assms(1) True by (intro memcpy_at_cong) (auto simp: slot_filled_def)
  show ?thesis
    using assms True len copy
    by (intro that [of "snd (disk_batch_step j d)"])
      (auto simp: disk_batch_step_def Let_def slot_filled_def slot_ok_def unat_small apply_slot_def set_status_def)
next
  case False
  then have "tb_event b j = LUNA_ISOLATION_EVENT_DISK_FLUSH" "tb_length b j = 0" "tb_offset b j = 0"
    using assms(2) by (auto simp: slot_ok_def)
  then show ?thesis
    using assms(1) by (intro that [of "snd (disk_batch_step j d)"])
      (auto simp: disk_batch_step_def Let_def slot_filled_def apply_slot_def)
qed

lemma disk_batch_loop_filled:
  assumes "\<forall>j. i \<le> j \<and> j < i + n \<longrightarrow> slot_filled b d j \<and> slot_ok (dk_bytes d) b j" "dk_bytes d < 2 ^ 64"
  shows "\<exists>d'. disk_batch_loop i n d = (False, d') \<and>
    dk_mapping d' = fold (apply_slot b) [i..<i + n] (dk_mapping d) \<and>
    dk_bytes d' = dk_bytes d \<and> dk_allocated d' = dk_allocated d \<and> dk_io_allocated d' = dk_io_allocated d \<and>
    (\<forall>j. i \<le> j \<and> j < i + n \<longrightarrow> dd_status (dh_descriptors (dk_io_header d') j) = 0) \<and>
    (\<forall>j < i. dh_descriptors (dk_io_header d') j = dh_descriptors (dk_io_header d) j)"
  using assms
proof (induction n arbitrary: i d)
  case 0
  show ?case by auto
next
  case (Suc n)
  have "slot_filled b d i" "slot_ok (dk_bytes d) b i" using Suc.prems(1) by auto
  then obtain d1 where d1: "disk_batch_step i d = (False, d1)" "dk_mapping d1 = apply_slot b i (dk_mapping d)"
    "dk_io_data d1 = dk_io_data d" "dk_bytes d1 = dk_bytes d" "dk_allocated d1 = dk_allocated d"
    "dk_io_allocated d1 = dk_io_allocated d" "dd_status (dh_descriptors (dk_io_header d1) i) = 0"
    "\<And>k. k \<noteq> i \<Longrightarrow> dh_descriptors (dk_io_header d1) k = dh_descriptors (dk_io_header d) k"
    using Suc.prems(2) disk_batch_step_filled by metis
  have "\<forall>j. Suc i \<le> j \<and> j < Suc i + n \<longrightarrow> slot_filled b d1 j \<and> slot_ok (dk_bytes d1) b j"
    using Suc.prems(1) d1 by (simp add: slot_filled_def)
  then obtain d2 where d2: "disk_batch_loop (Suc i) n d1 = (False, d2)"
    "dk_mapping d2 = fold (apply_slot b) [Suc i..<Suc i + n] (dk_mapping d1)"
    "dk_bytes d2 = dk_bytes d1" "dk_allocated d2 = dk_allocated d1" "dk_io_allocated d2 = dk_io_allocated d1"
    "\<forall>j. Suc i \<le> j \<and> j < Suc i + n \<longrightarrow> dd_status (dh_descriptors (dk_io_header d2) j) = 0"
    "\<forall>j < Suc i. dh_descriptors (dk_io_header d2) j = dh_descriptors (dk_io_header d1) j"
    using Suc.IH [of "Suc i" d1] d1(4) Suc.prems(2) by auto
  have st: "dd_status (dh_descriptors (dk_io_header d2) j) = 0" if "i \<le> j" "j < i + Suc n" for j
    using d2(6,7) d1(7) that by (cases "j = i") auto
  have fr: "dh_descriptors (dk_io_header d2) j = dh_descriptors (dk_io_header d) j" if "j < i" for j
    using d2(7) d1(8) [of j] that by simp
  have up: "[i..<Suc (i + n)] = i # [Suc i..<Suc (i + n)]" by (simp add: upt_conv_Cons del: upt_Suc)
  show ?case
    by (rule exI [of _ d2]) (use d1 d2 st fr in \<open>simp add: up del: upt_Suc\<close>)
qed

lemma collect_filled:
  assumes "\<And>j. i \<le> j \<Longrightarrow> j < i + n \<Longrightarrow> dd_status (dh_descriptors (dk_io_header d) j) = 0"
    and "\<And>j. i \<le> j \<Longrightarrow> j < i + n \<Longrightarrow> tb_event b j \<noteq> LUNA_ISOLATION_EVENT_DISK_READ"
  shows "collect_slots i n b (t, d) = (True, b, t, d)"
  using assms
proof (induction n arbitrary: i)
  case (Suc n)
  have "collect_slots (Suc i) n b (t, d) = (True, b, t, d)"
    by (rule Suc.IH) (use Suc.prems in auto)
  with Suc.prems(1) [of i] Suc.prems(2) [of i] show ?case by simp
qed simp

text \<open>Submitting a well-formed batch succeeds and applies its writes to the disk in slot order.\<close>

lemma process_batch_ok:
  assumes b: "batch_ok (dk_bytes d) b" "0 < tb_count b"
    and d: "manager_ready n d" and c: "ipc_ready (task_disk_channel t)"
  obtains t' d' where "task_disk_process_batch b (t, d) = (0, b, t', d')" "strip t' = strip t"
    "ipc_ready (task_disk_channel t')" "manager_ready n d'" "dk_mapping d' = apply_batch b (dk_mapping d)"
proof -
  let ?n = "tb_count b"
  obtain t1 d1 where fill: "fold (fill_slot b) [0..<?n] (t, d) = (t1, d1)" "strip t1 = strip t"
    "task_disk_channel t1 = task_disk_channel t" "\<And>j. j < ?n \<Longrightarrow> slot_filled b d1 j"
    "dk_mapping d1 = dk_mapping d" "dk_bytes d1 = dk_bytes d" "dk_allocated d1 = dk_allocated d"
    "dk_io_allocated d1 = dk_io_allocated d"
    using fill_slots [OF order_refl b(1), of t d] by metis
  have n15: "?n \<le> LUNA_DISK_BATCH_SLOTS" and slots: "\<And>j. j < ?n \<Longrightarrow> slot_ok (dk_bytes d) b j"
    using b by (auto simp: batch_ok_def)
  have n64: "unat (of_nat ?n :: u64) = ?n" using n15 by (intro unat_small) (simp add: luna_consts)
  define d2 where "d2 = d1\<lparr>dk_io_header := (dk_io_header d1)\<lparr>dh_completed := 0, dh_count := of_nat ?n\<rparr>\<rparr>"
  define d3 where "d3 = d2\<lparr>dk_ipc_count := dk_ipc_count d2 + 1, dk_batch_count := dk_batch_count d2 + 1,
                  dk_request_count := dk_request_count d2 + of_nat ?n,
                  dk_queue_high_water := (if of_nat ?n > dk_queue_high_water d2 then of_nat ?n
                                          else dk_queue_high_water d2)\<rparr>"
  have d3: "dk_mapping d3 = dk_mapping d" "dk_bytes d3 = dk_bytes d" "dk_allocated d3 = dk_allocated d"
    "dk_io_allocated d3 = dk_io_allocated d" "dh_descriptors (dk_io_header d3) = dh_descriptors (dk_io_header d1)"
    "dk_io_data d3 = dk_io_data d1"
    using fill by (simp_all add: d3_def d2_def)
  have small: "dk_bytes d3 < 2 ^ 64" using d d3 by (simp add: manager_ready_def)
  have filled: "\<forall>j. 0 \<le> j \<and> j < 0 + ?n \<longrightarrow> slot_filled b d3 j \<and> slot_ok (dk_bytes d3) b j"
    using fill(4) slots d3 by (simp add: slot_filled_def)
  obtain d4 where d4: "disk_batch_loop 0 ?n d3 = (False, d4)"
    "dk_mapping d4 = fold (apply_slot b) [0..<0 + ?n] (dk_mapping d3)"
    "dk_bytes d4 = dk_bytes d3" "dk_allocated d4 = dk_allocated d3" "dk_io_allocated d4 = dk_io_allocated d3"
    "\<forall>j. 0 \<le> j \<and> j < 0 + ?n \<longrightarrow> dd_status (dh_descriptors (dk_io_header d4) j) = 0"
    using disk_batch_loop_filled [OF filled small] by (elim exE conjE) (rule that, assumption+)
  let ?d5 = "set_completed (of_nat ?n) d4"
  have guard: "\<not> (\<not> dk_allocated d2 \<or> \<not> dk_io_allocated d2 \<or> ?n = 0 \<or> ?n > LUNA_DISK_BATCH_SLOTS \<or>
      dh_count (dk_io_header d2) \<noteq> of_nat ?n)"
    using d b(2) n15 fill by (simp add: manager_ready_def d2_def)
  have "service_disk_batch (of_nat ?n) (Some d2) = (0, Some ?d5)"
    unfolding service_disk_batch_def option.case Let_def n64 if_not_P [OF guard] d3_def [symmetric] d4(1)
    by simp
  then have tr: "disk_transport [event_word LUNA_ISOLATION_EVENT_DISK_SUBMIT_BATCH, of_nat ?n, 0] (Some d2) =
      (Message 0 0 [command_word LUNA_COMMAND_DISK_RESULT, word_of_cint 0], Some ?d5)"
    by (simp add: disk_transport_def disk_reply_def)
  have "luna_lkl_task_manager_request disk_transport LUNA_ISOLATION_EVENT_DISK_SUBMIT_BATCH (of_nat ?n) 0
      (task_disk_channel t1) (Some d2) = (0, ipc_counted (task_disk_channel t1), Some ?d5)"
    by (rule manager_request_reply [where transport = disk_transport, OF _ tr]) (simp_all add: fill c expected_reply_def)
  then have call: "disk_call LUNA_ISOLATION_EVENT_DISK_SUBMIT_BATCH (of_nat ?n) 0 (t1, d2) =
      (0, t1\<lparr>task_disk_channel := ipc_counted (task_disk_channel t1)\<rparr>, ?d5)"
    by (simp add: disk_call_def)
  have "tb_event b j \<noteq> LUNA_ISOLATION_EVENT_DISK_READ" if "j < ?n" for j
    using slots [OF that] by (auto simp: slot_ok_def)
  then have coll: "collect_slots 0 ?n b (t4, ?d5) = (True, b, t4, ?d5)" for t4
    by (intro collect_filled) (use d4(6) in auto)
  define t6 where "t6 = t1\<lparr>task_disk_channel := ipc_counted (task_disk_channel t1),
       task_disk_ipc := task_disk_ipc t1 + 1,
       task_disk_batches_completed := task_disk_batches_completed t1 + 1,
       task_disk_requests := task_disk_requests t1 + of_nat ?n\<rparr>"
  have run: "task_disk_process_batch b (t, d) = (0, b, t6, ?d5)"
    unfolding task_disk_process_batch_def fill(1) Let_def prod.case d2_def [symmetric] call
    by (simp add: coll t6_def)
  show ?thesis
    by (rule that [OF run])
      (use fill c d d3 d4 in \<open>simp_all add: t6_def manager_ready_def apply_batch_def\<close>)
qed

end
