(* ===== verification/Net_Manager.thy ===== *)
theory Net_Manager
  imports Ring Luna_Protocol "HOL-Library.Monad_Syntax"
begin

text \<open>
  The manager's network service (\<open>isolation_net.c\<close>): the receive and transmit queues between the
  Ethernet driver and the child, the window shared with the child, the poll and interrupt
  threads, and the dispatcher of the child's requests. The driver, the DMA allocator and the
  network deadline of the timer are parameters (\<open>net_env\<close>). A result \<open>None\<close> means that the C
  function does not return normally: a loop that never ends, a call that blocks, or a copy past
  the end of an array.
\<close>

definition LUNA_NET_RX_DMA_COUNT :: nat where [luna_consts]: "LUNA_NET_RX_DMA_COUNT = 64"
definition LUNA_NET_TX_DMA_COUNT :: nat where [luna_consts]: "LUNA_NET_TX_DMA_COUNT = 16"
definition LUNA_NET_RX_QUEUE_COUNT :: nat where [luna_consts]: "LUNA_NET_RX_QUEUE_COUNT = 32"
definition LUNA_NET_TX_QUEUE_COUNT :: nat where [luna_consts]: "LUNA_NET_TX_QUEUE_COUNT = 64"
definition LUNA_NET_TX_RECHECK_NS :: u64 where [luna_consts]: "LUNA_NET_TX_RECHECK_NS = 5000000"
definition LUNA_NET_INTX_BUDGET :: nat where [luna_consts]: "LUNA_NET_INTX_BUDGET = 16"
definition LUNA_NET_IRQ_BADGE :: u64 where [luna_consts]: "LUNA_NET_IRQ_BADGE = 1"
definition LUNA_NET_TIMER_BADGE :: u64 where [luna_consts]: "LUNA_NET_TIMER_BADGE = 4"

interpretation rxq: ring LUNA_NET_RX_QUEUE_COUNT
  by unfold_locales (simp add: luna_consts)

interpretation txq: ring LUNA_NET_TX_QUEUE_COUNT
  by unfold_locales (simp add: luna_consts)

section \<open>State\<close>

record luna_dma_buffer =
  dma_virt :: u64
  dma_phys :: u64
  dma_in_use :: bool
  dma_queue_index :: nat

record luna_packet =
  pk_length :: nat
  pk_data :: bytes

definition packet_bytes :: "luna_packet \<Rightarrow> u8 list" where
  "packet_bytes p = slice (pk_data p) 0 (pk_length p)"

record luna_net_counters =
  nc_rx_drops :: u64
  nc_rx_high_water :: u64
  nc_rx_backpressure :: u64
  nc_rx_empty_fetches :: u64
  nc_tx_high_water :: u64
  nc_tx_backpressure :: u64
  nc_tx_driver_retries :: u64
  nc_tx_completed :: u64
  nc_tx_endpoint_requests :: u64
  nc_tx_endpoint_batches :: u64
  nc_tx_endpoint_packets :: u64
  nc_tx_shared_copies :: u64
  nc_tx_kicks :: u64
  nc_tx_timeout_retries :: u64
  nc_rx_endpoint_requests :: u64
  nc_rx_endpoint_batches :: u64
  nc_rx_endpoint_packets :: u64
  nc_rx_shared_copies :: u64
  nc_irq_count :: u64
  nc_irq_packets :: u64
  nc_irq_coalesced_polls :: u64
  nc_irq_coalesced_packets :: u64
  nc_irq_budget_exhaustions :: u64
  nc_irq_max_packets :: u64
  nc_irq_kick_polls :: u64
  nc_fallback_polls :: u64
  nc_irq_errors :: u64

definition zero_counters :: luna_net_counters where
  "zero_counters = \<lparr>nc_rx_drops = 0, nc_rx_high_water = 0, nc_rx_backpressure = 0, nc_rx_empty_fetches = 0,
     nc_tx_high_water = 0, nc_tx_backpressure = 0, nc_tx_driver_retries = 0, nc_tx_completed = 0,
     nc_tx_endpoint_requests = 0, nc_tx_endpoint_batches = 0, nc_tx_endpoint_packets = 0,
     nc_tx_shared_copies = 0, nc_tx_kicks = 0, nc_tx_timeout_retries = 0, nc_rx_endpoint_requests = 0,
     nc_rx_endpoint_batches = 0, nc_rx_endpoint_packets = 0, nc_rx_shared_copies = 0, nc_irq_count = 0,
     nc_irq_packets = 0, nc_irq_coalesced_polls = 0, nc_irq_coalesced_packets = 0,
     nc_irq_budget_exhaustions = 0, nc_irq_max_packets = 0, nc_irq_kick_polls = 0, nc_fallback_polls = 0,
     nc_irq_errors = 0\<rparr>"

text \<open>
  \<open>net_header\<close> and \<open>net_window\<close> are the shared mapping: the header structure at its start and the
  packet slots, by byte offset. \<open>net_dev\<close> is the state of the driver, the device and the timer.
  The last four fields are a record of history, not of the program: the packets accepted from
  the child, given to the driver, queued for the child and fetched by it.
\<close>

record 'd luna_network_state =
  net_dev :: 'd
  net_rx_dma :: "nat \<Rightarrow> luna_dma_buffer"
  net_tx_dma :: "nat \<Rightarrow> luna_dma_buffer"
  net_tx_mem :: "nat \<Rightarrow> bytes"
  net_rx_queue :: "nat \<Rightarrow> luna_packet"
  net_tx_queue :: "nat \<Rightarrow> luna_packet"
  net_rx_head :: nat
  net_rx_tail :: nat
  net_tx_head :: nat
  net_tx_tail :: nat
  net_tx_submit :: nat
  net_tx_pending :: u32
  net_tx_stress_gate :: bool
  net_child_active :: bool
  net_poll_in_driver :: bool
  net_notification_masked :: bool
  net_backpressure_active :: bool
  net_counters :: luna_net_counters
  net_header :: luna_net_batch_header
  net_window :: bytes
  net_rx_ntfn :: cptr
  net_tx_ntfn :: cptr
  net_tx_idle_ntfn :: cptr
  net_poll_kick_ntfn :: cptr
  net_irq_done_ntfn :: cptr
  net_irq_badged_ntfn :: cptr
  net_timer_badged_ntfn :: cptr
  net_irq_line :: nat
  net_irq_mode :: bool
  net_ready :: bool
  net_log :: "kcall list"
  net_accepted :: "u8 list list"
  net_sent :: "u8 list list"
  net_received :: "u8 list list"
  net_delivered :: "u8 list list"

datatype tx_result = ETHIF_TX_FAILED | ETHIF_TX_COMPLETE | ETHIF_TX_ENQUEUED

text \<open>
  What a driver does while it is being called: complete transmissions, deliver a chain of
  receive buffers (cookie, length and the memory of each), or ask for a buffer.
\<close>

type_synonym rx_chain = "(nat option \<times> nat \<times> bytes) list"

datatype driver_event = Tx_Done nat | Rx_Done rx_chain | Rx_Refill nat

record 'd net_env =
  raw_tx :: "nat \<Rightarrow> u64 \<Rightarrow> u8 list \<Rightarrow> 'd \<Rightarrow> (nat list \<times> tx_result) \<times> 'd"
  raw_poll_budget :: "nat \<Rightarrow> 'd \<Rightarrow> (driver_event list \<times> nat \<times> bool) \<times> 'd"
  raw_poll :: "'d \<Rightarrow> driver_event list \<times> 'd"
  raw_ack_irq :: "nat \<Rightarrow> 'd \<Rightarrow> 'd"
  dma_alloc_pin :: "nat \<Rightarrow> 'd \<Rightarrow> (u64 \<times> u64) \<times> 'd"
  schedule_network :: "cptr \<Rightarrow> u64 \<Rightarrow> 'd \<Rightarrow> c_int \<times> 'd"
  cancel_network :: "'d \<Rightarrow> 'd"

definition count :: "(luna_net_counters \<Rightarrow> luna_net_counters) \<Rightarrow> 'd luna_network_state \<Rightarrow> 'd luna_network_state" where
  "count f s = s\<lparr>net_counters := f (net_counters s)\<rparr>"

definition plus_one :: "u64 \<Rightarrow> u64" where
  "plus_one x = x + 1"

definition signal :: "cptr \<Rightarrow> 'd luna_network_state \<Rightarrow> 'd luna_network_state" where
  "signal c s = s\<lparr>net_log := net_log s @ [KSignal c]\<rparr>"

definition put_header :: "luna_net_batch_header \<Rightarrow> 'd luna_network_state \<Rightarrow> 'd luna_network_state" where
  "put_header h s = s\<lparr>net_header := h\<rparr>"

section \<open>Receiving from the driver\<close>

definition rx_queue_full :: "'d luna_network_state \<Rightarrow> bool" where
  "rx_queue_full s \<longleftrightarrow> ring_next LUNA_NET_RX_QUEUE_COUNT (net_rx_head s) = net_rx_tail s"

definition tx_queue_empty :: "'d luna_network_state \<Rightarrow> bool" where
  "tx_queue_empty s \<longleftrightarrow> net_tx_head s = net_tx_tail s"

definition record_rx_backpressure :: "'d luna_network_state \<Rightarrow> 'd luna_network_state" where
  "record_rx_backpressure s =
     (if net_backpressure_active s then s
      else count (nc_rx_backpressure_update plus_one) (s\<lparr>net_backpressure_active := True\<rparr>))"

definition signal_rx :: "'d luna_network_state \<Rightarrow> 'd luna_network_state" where
  "signal_rx s = (if \<not> net_notification_masked s \<and> net_child_active s then signal (net_rx_ntfn s) s else s)"

definition allocate_rx_buffer :: "'d net_env \<Rightarrow> nat \<Rightarrow> 'd luna_network_state \<Rightarrow> (u64 \<times> nat) option \<times> 'd luna_network_state" where
  "allocate_rx_buffer E wanted s =
     (if wanted > LUNA_NET_PACKET_SIZE \<or> \<not> net_child_active s then (None, s)
      else case first_index (\<lambda>i. \<not> dma_in_use (net_rx_dma s i)) LUNA_NET_RX_DMA_COUNT of
        None \<Rightarrow> (None, s)
      | Some i \<Rightarrow>
          let buffer = net_rx_dma s i
          in if dma_virt buffer = 0 then
               let ((virt, phys), d) = dma_alloc_pin E LUNA_NET_PACKET_SIZE (net_dev s);
                   s = s\<lparr>net_dev := d\<rparr>
               in if virt = 0 \<or> phys = 0 then (None, s)
                  else (Some (phys, i), s\<lparr>net_rx_dma := (net_rx_dma s)(i :=
                          buffer\<lparr>dma_virt := virt, dma_phys := phys, dma_in_use := True\<rparr>)\<rparr>)
             else (Some (dma_phys buffer, i), s\<lparr>net_rx_dma := (net_rx_dma s)(i := buffer\<lparr>dma_in_use := True\<rparr>)\<rparr>))"

text \<open>The length check, the gathering copy and the release of the buffers of \<open>receive_complete\<close>.\<close>

fun rx_total :: "nat \<Rightarrow> rx_chain \<Rightarrow> nat" where
  "rx_total tot [] = tot"
| "rx_total tot ((cookie, len, mem) # bs) =
     (if cookie = None \<or> len > LUNA_NET_PACKET_SIZE - tot then 0 else rx_total (tot + len) bs)"

fun rx_gather :: "bytes \<Rightarrow> nat \<Rightarrow> rx_chain \<Rightarrow> bytes" where
  "rx_gather d offset [] = d"
| "rx_gather d offset ((cookie, len, mem) # bs) = rx_gather (memcpy_at d offset mem 0 len) (offset + len) bs"

fun rx_release :: "rx_chain \<Rightarrow> (nat \<Rightarrow> luna_dma_buffer) \<Rightarrow> (nat \<Rightarrow> luna_dma_buffer)" where
  "rx_release [] dma = dma"
| "rx_release ((None, len, mem) # bs) dma = rx_release bs dma"
| "rx_release ((Some i, len, mem) # bs) dma = rx_release bs (dma(i := (dma i)\<lparr>dma_in_use := False\<rparr>))"

definition rx_enqueue :: "nat \<Rightarrow> rx_chain \<Rightarrow> 'd luna_network_state \<Rightarrow> 'd luna_network_state" where
  "rx_enqueue tot bs s =
     (let head = net_rx_head s;
          next = ring_next LUNA_NET_RX_QUEUE_COUNT head;
          packet = \<lparr>pk_length = tot, pk_data = rx_gather (pk_data (net_rx_queue s head)) 0 bs\<rparr>;
          used = of_nat (ring_used LUNA_NET_RX_QUEUE_COUNT next (net_rx_tail s));
          waiting = rx_waiting (net_header s);
          s = s\<lparr>net_rx_queue := (net_rx_queue s)(head := packet), net_rx_head := next,
                net_received := net_received s @ [packet_bytes packet],
                net_header := (net_header s)\<lparr>rx_produced := rx_produced (net_header s) + 1, rx_waiting := 0\<rparr>\<rparr>;
          s = count (nc_rx_high_water_update (max used)) s
      in if waiting \<noteq> 0 then signal_rx s else s)"

definition receive_complete :: "rx_chain \<Rightarrow> 'd luna_network_state \<Rightarrow> 'd luna_network_state" where
  "receive_complete bs s =
     (let tot = rx_total 0 bs;
          s = (if tot \<noteq> 0 \<and> tot \<le> LUNA_NET_PACKET_SIZE \<and> net_child_active s \<and> \<not> rx_queue_full s
               then rx_enqueue tot bs s
               else if tot \<noteq> 0 \<and> tot \<le> LUNA_NET_PACKET_SIZE \<and> net_child_active s
               then count (nc_rx_drops_update plus_one) (record_rx_backpressure s)
               else s)
      in s\<lparr>net_rx_dma := rx_release bs (net_rx_dma s)\<rparr>)"

section \<open>Transmitting through the driver\<close>

text \<open>\<open>while (tail != head && !tx_queue[tail].length) tail = (tail + 1) % 64;\<close> the first argument bounds the rounds.\<close>

fun advance_tail :: "nat \<Rightarrow> (nat \<Rightarrow> luna_packet) \<Rightarrow> nat \<Rightarrow> nat \<Rightarrow> nat option" where
  "advance_tail 0 q head tail = None"
| "advance_tail (Suc n) q head tail =
     (if tail \<noteq> head \<and> pk_length (q tail) = 0
      then advance_tail n q head (ring_next LUNA_NET_TX_QUEUE_COUNT tail) else Some tail)"

definition tx_idle_signal :: "'d luna_network_state \<Rightarrow> 'd luna_network_state" where
  "tx_idle_signal s = (if tx_queue_empty s \<and> net_tx_pending s = 0 then signal (net_tx_idle_ntfn s) s else s)"

definition transmit_complete :: "nat \<Rightarrow> 'd luna_network_state \<Rightarrow> 'd luna_network_state option" where
  "transmit_complete i s =
     (let buffer = net_tx_dma s i; index = dma_queue_index buffer
      in if i \<ge> LUNA_NET_TX_DMA_COUNT \<or> \<not> dma_in_use buffer \<or> index \<ge> LUNA_NET_TX_QUEUE_COUNT then Some s
         else
           let q = (net_tx_queue s)(index := (net_tx_queue s index)\<lparr>pk_length := 0\<rparr>)
           in map_option
                (\<lambda>tail. tx_idle_signal (signal (net_tx_ntfn s) (count (nc_tx_completed_update plus_one)
                   (s\<lparr>net_tx_queue := q, net_tx_dma := (net_tx_dma s)(i := buffer\<lparr>dma_in_use := False\<rparr>),
                      net_tx_pending := net_tx_pending s - 1, net_tx_tail := tail\<rparr>))))
                (advance_tail LUNA_NET_TX_QUEUE_COUNT q (net_tx_head s) (net_tx_tail s)))"

fun transmit_completes :: "nat list \<Rightarrow> 'd luna_network_state \<Rightarrow> 'd luna_network_state option" where
  "transmit_completes [] s = Some s"
| "transmit_completes (i # is) s = transmit_complete i s \<bind> transmit_completes is"

text \<open>
  One packet of \<open>process_tx_queue\<close>: \<open>submit_packet\<close> fills the DMA buffer and advances the submit
  index before the driver is called, \<open>undo_submit\<close> takes both back when it refuses.
\<close>

definition submit_packet :: "nat \<Rightarrow> 'd luna_network_state \<Rightarrow> 'd luna_network_state" where
  "submit_packet b s =
     (let submit = net_tx_submit s; packet = net_tx_queue s submit
      in s\<lparr>net_tx_mem := (net_tx_mem s)(b := memcpy_at (net_tx_mem s b) 0 (pk_data packet) 0 (pk_length packet)),
           net_tx_dma := (net_tx_dma s)(b := (net_tx_dma s b)\<lparr>dma_queue_index := submit, dma_in_use := True\<rparr>),
           net_tx_submit := ring_next LUNA_NET_TX_QUEUE_COUNT submit,
           net_tx_pending := net_tx_pending s + 1\<rparr>)"

definition undo_submit :: "nat \<Rightarrow> nat \<Rightarrow> 'd luna_network_state \<Rightarrow> 'd luna_network_state" where
  "undo_submit submit b s =
     count (nc_tx_driver_retries_update plus_one)
       (s\<lparr>net_tx_submit := submit, net_tx_pending := net_tx_pending s - 1,
          net_tx_dma := (net_tx_dma s)(b := (net_tx_dma s b)\<lparr>dma_in_use := False\<rparr>)\<rparr>)"

definition log_sent :: "u8 list \<Rightarrow> 'd luna_network_state \<Rightarrow> 'd luna_network_state" where
  "log_sent p s = s\<lparr>net_sent := net_sent s @ [p]\<rparr>"

definition call_driver :: "'d net_env \<Rightarrow> nat \<Rightarrow> nat \<Rightarrow> 'd luna_network_state \<Rightarrow> (tx_result \<times> 'd luna_network_state) option" where
  "call_driver E b len s =
     (let ((done, result), d) = raw_tx E b (dma_phys (net_tx_dma s b)) (slice (net_tx_mem s b) 0 len) (net_dev s)
      in map_option (Pair result) (transmit_completes done (s\<lparr>net_dev := d\<rparr>)))"

fun process_tx_loop :: "'d net_env \<Rightarrow> nat \<Rightarrow> 'd luna_network_state \<Rightarrow> 'd luna_network_state option" where
  "process_tx_loop E 0 s = None"
| "process_tx_loop E (Suc n) s =
     (let submit = net_tx_submit s
      in if submit = net_tx_head s then Some s
         else case first_index (\<lambda>i. \<not> dma_in_use (net_tx_dma s i)) LUNA_NET_TX_DMA_COUNT of
           None \<Rightarrow> Some s
         | Some b \<Rightarrow>
             let packet = net_tx_queue s submit; len = pk_length packet
             in if len = 0 \<or> len > LUNA_NET_PACKET_SIZE then Some s
                else do {
                  (result, s) \<leftarrow> call_driver E b len (submit_packet b s);
                  (case result of
                     ETHIF_TX_FAILED \<Rightarrow> Some (undo_submit submit b s)
                   | ETHIF_TX_COMPLETE \<Rightarrow> transmit_complete b (log_sent (packet_bytes packet) s) \<bind> process_tx_loop E n
                   | ETHIF_TX_ENQUEUED \<Rightarrow> process_tx_loop E n (log_sent (packet_bytes packet) s))
                })"

definition process_tx_queue :: "'d net_env \<Rightarrow> 'd luna_network_state \<Rightarrow> 'd luna_network_state option" where
  "process_tx_queue E s = (if net_tx_stress_gate s then Some s else process_tx_loop E LUNA_NET_TX_QUEUE_COUNT s)"

section \<open>Packets from the child\<close>

text \<open>
  \<open>service_tx_batch\<close> reads \<open>tx_lengths\<close> twice from memory that the child can write: once to
  validate and once to copy. \<open>C\<close> is what the child does to the header in between.
\<close>

type_synonym interference = "luna_net_batch_header \<Rightarrow> luna_net_batch_header"

fun tx_lengths_valid :: "luna_net_batch_header \<Rightarrow> nat \<Rightarrow> bool" where
  "tx_lengths_valid H 0 = True"
| "tx_lengths_valid H (Suc n) =
     (tx_lengths_valid H n \<and> tx_lengths H n \<noteq> 0 \<and> unat (tx_lengths H n) \<le> LUNA_NET_PACKET_SIZE)"

fun tx_copy :: "luna_net_batch_header \<Rightarrow> bytes \<Rightarrow> nat \<Rightarrow> nat \<Rightarrow> nat \<Rightarrow> (nat \<Rightarrow> luna_packet) \<Rightarrow>
    (nat \<times> (nat \<Rightarrow> luna_packet)) option" where
  "tx_copy H w i 0 head q = Some (head, q)"
| "tx_copy H w i (Suc n) head q =
     (let len = unat (tx_lengths H i)
      in if len > LUNA_NET_PACKET_SIZE then None
         else tx_copy H w (Suc i) n (ring_next LUNA_NET_TX_QUEUE_COUNT head)
                (q(head := \<lparr>pk_length = len,
                     pk_data = memcpy_at (pk_data (q head)) 0 w (LUNA_NET_TX_OFFSET + i * LUNA_NET_PACKET_SIZE) len\<rparr>)))"

definition tx_slot :: "luna_net_batch_header \<Rightarrow> bytes \<Rightarrow> nat \<Rightarrow> u8 list" where
  "tx_slot H w i = slice w (LUNA_NET_TX_OFFSET + i * LUNA_NET_PACKET_SIZE) (unat (tx_lengths H i))"

definition tx_refuse :: "'d luna_network_state \<Rightarrow> 'd luna_network_state" where
  "tx_refuse s =
     (let s = count (nc_tx_backpressure_update plus_one) s
      in if net_tx_stress_gate s
         then count (nc_tx_kicks_update plus_one) (signal (net_poll_kick_ntfn s) (s\<lparr>net_tx_stress_gate := False\<rparr>))
         else s)"

definition tx_publish :: "nat \<Rightarrow> nat \<Rightarrow> nat \<Rightarrow> (nat \<Rightarrow> luna_packet) \<Rightarrow> 'd luna_network_state \<Rightarrow> 'd luna_network_state" where
  "tx_publish used accepted head q s =
     (let was_empty = tx_queue_empty s;
          s = s\<lparr>net_tx_queue := q, net_tx_head := head\<rparr>;
          s = count (nc_tx_high_water_update (max (of_nat (used + accepted)))) s;
          s = count (nc_tx_endpoint_batches_update plus_one) s;
          s = count (nc_tx_endpoint_packets_update (\<lambda>x. x + of_nat accepted)) s;
          s = count (nc_tx_shared_copies_update (\<lambda>x. x + of_nat accepted)) s
      in if was_empty then count (nc_tx_kicks_update plus_one) (signal (net_poll_kick_ntfn s) s) else s)"

definition service_tx_batch ::
  "interference \<Rightarrow> u64 \<Rightarrow> 'd luna_network_state \<Rightarrow> ((c_int \<times> u64) \<times> 'd luna_network_state) option" where
  "service_tx_batch C requested s =
     (let s = count (nc_tx_endpoint_requests_update plus_one) s;
          H = net_header s
      in if requested = 0 \<or> unat requested > LUNA_NET_BATCH_SLOTS \<or> tx_count H \<noteq> requested \<or> \<not> net_child_active s
         then Some ((-1, 0), s)
         else
           let used = ring_used LUNA_NET_TX_QUEUE_COUNT (net_tx_head s) (net_tx_tail s);
               available = LUNA_NET_TX_QUEUE_COUNT - 1 - used;
               accepted = (if unat requested < available then unat requested else available)
           in if accepted = 0 then Some ((0, 0), tx_refuse s)
              else if \<not> tx_lengths_valid H accepted then Some ((-1, 0), s)
              else let s = put_header (C H) s
                   in map_option
                        (\<lambda>(head, q). ((0, of_nat accepted),
                           tx_publish used accepted head q
                             (s\<lparr>net_accepted := net_accepted s @ map (tx_slot (C H) (net_window s)) [0..<accepted]\<rparr>)))
                        (tx_copy (C H) (net_window s) 0 accepted (net_tx_head s) (net_tx_queue s)))"

definition respond_tx :: "'d net_env \<Rightarrow> u64 \<Rightarrow> u64 \<Rightarrow> 'd luna_network_state \<Rightarrow> 'd luna_network_state" where
  "respond_tx E accepted sequence s =
     (let s = s\<lparr>net_dev := cancel_network E (net_dev s)\<rparr>
      in s\<lparr>net_header := (net_header s)\<lparr>tx_accepted := accepted, tx_response_sequence := sequence\<rparr>\<rparr>)"

definition tx_response_pending :: "'d luna_network_state \<Rightarrow> bool" where
  "tx_response_pending s \<longleftrightarrow>
     tx_request_sequence (net_header s) \<noteq> 0 \<and>
     tx_request_sequence (net_header s) \<noteq> tx_response_sequence (net_header s)"

definition service_tx_notification ::
  "'d net_env \<Rightarrow> interference \<Rightarrow> 'd luna_network_state \<Rightarrow> 'd luna_network_state option" where
  "service_tx_notification E C s =
     (if \<not> net_child_active s \<or> \<not> tx_response_pending s then Some s
      else
        let sequence = tx_request_sequence (net_header s)
        in map_option
             (\<lambda>((result, accepted), s).
                if result = 0 \<and> accepted = 0 then s
                else signal (net_tx_ntfn s)
                       (respond_tx E (if result \<noteq> 0 then -1 else accepted) sequence s))
             (service_tx_batch C (tx_count (net_header s)) s))"

definition service_tx_timeout_retry :: "'d net_env \<Rightarrow> 'd luna_network_state \<Rightarrow> 'd luna_network_state" where
  "service_tx_timeout_retry E s =
     (if \<not> tx_response_pending s then s
      else let sequence = tx_request_sequence (net_header s)
           in signal (net_tx_ntfn s)
                (count (nc_tx_timeout_retries_update plus_one) (respond_tx E 0 sequence s)))"

definition service_tx :: "interference \<Rightarrow> u64 \<Rightarrow> 'd luna_network_state \<Rightarrow> (c_int \<times> 'd luna_network_state) option" where
  "service_tx C len s =
     (if len = 0 \<or> unat len > LUNA_NET_PACKET_SIZE then Some (-1, s)
      else
        let H = (net_header s)\<lparr>tx_count := 1, tx_lengths := (tx_lengths (net_header s))(0 := len)\<rparr>
        in map_option (\<lambda>((result, accepted), s). (if result \<noteq> 0 \<or> accepted = 0 then of_int LUNA_NET_TX_RETRY else 0, s))
             (service_tx_batch C 1 (put_header H s)))"

section \<open>Packets to the child\<close>

text \<open>The copying loop of \<open>service_rx_batch\<close>: success, the new tail and the number of packets copied.\<close>

fun rx_fetch :: "nat \<Rightarrow> nat \<Rightarrow> nat \<Rightarrow> nat \<Rightarrow> 'd luna_network_state \<Rightarrow> (bool \<times> nat \<times> nat) \<times> 'd luna_network_state" where
  "rx_fetch 0 head tail n s = ((True, tail, n), s)"
| "rx_fetch (Suc k) head tail n s =
     (if tail = head then ((True, tail, n), s)
      else
        let packet = net_rx_queue s tail; len = pk_length packet
        in if len = 0 \<or> len > LUNA_NET_PACKET_SIZE then ((False, tail, n), s)
           else rx_fetch k head (ring_next LUNA_NET_RX_QUEUE_COUNT tail) (Suc n)
                  (s\<lparr>net_window := memcpy_at (net_window s) (LUNA_NET_RX_OFFSET + n * LUNA_NET_PACKET_SIZE) (pk_data packet) 0 len,
                     net_header := (net_header s)\<lparr>rx_lengths := (rx_lengths (net_header s))(n := of_nat len)\<rparr>,
                     net_rx_queue := (net_rx_queue s)(tail := packet\<lparr>pk_length := 0\<rparr>),
                     net_delivered := net_delivered s @ [packet_bytes packet]\<rparr>))"

definition service_rx_batch :: "u64 \<Rightarrow> 'd luna_network_state \<Rightarrow> (c_int \<times> u64) \<times> 'd luna_network_state" where
  "service_rx_batch requested s =
     (let s = count (nc_rx_endpoint_requests_update plus_one) s
      in if requested = 0 \<or> unat requested > LUNA_NET_BATCH_SLOTS then ((-1, 0), s)
         else if net_rx_tail s = net_rx_head s
         then ((0, 0), (count (nc_rx_empty_fetches_update plus_one) s)\<lparr>net_header := (net_header s)\<lparr>rx_count := 0\<rparr>\<rparr>)
         else
           let ((ok, tail, n), s) = rx_fetch (unat requested) (net_rx_head s) (net_rx_tail s) 0 s
           in if \<not> ok then ((-1, 0), s)
              else
                let s = s\<lparr>net_header := (net_header s)\<lparr>rx_count := of_nat n,
                             rx_consumed := rx_consumed (net_header s) + of_nat n\<rparr>,
                          net_rx_tail := tail, net_backpressure_active := False\<rparr>;
                    s = count (nc_rx_endpoint_batches_update plus_one) s;
                    s = count (nc_rx_endpoint_packets_update (\<lambda>x. x + of_nat n)) s;
                    s = count (nc_rx_shared_copies_update (\<lambda>x. x + of_nat n)) s
                in ((0, of_nat n), s))"

definition service_rx :: "'d luna_network_state \<Rightarrow> (c_int \<times> u64) \<times> 'd luna_network_state" where
  "service_rx s =
     (let ((result, packets), s) = service_rx_batch 1 s
      in if result \<noteq> 0 \<or> packets = 0 then ((result, 0), s) else ((0, rx_lengths (net_header s) 0), s))"

section \<open>Control and the dispatcher\<close>

definition service_stats :: "'d luna_network_state \<Rightarrow> u64" where
  "service_stats s =
     (let c = net_counters s
      in luna_net_stats_pack (nc_rx_high_water c) (nc_rx_backpressure c) (nc_rx_drops c) (nc_rx_empty_fetches c))"

definition service_tx_stats :: "'d luna_network_state \<Rightarrow> u64" where
  "service_tx_stats s =
     (let c = net_counters s
      in luna_net_stats_pack (nc_tx_high_water c) (nc_tx_backpressure c) (nc_tx_driver_retries c) (nc_tx_completed c))"

definition service_control :: "u64 \<Rightarrow> 'd luna_network_state \<Rightarrow> c_int \<times> 'd luna_network_state" where
  "service_control control s =
     (if control > 1 then (-1, s)
      else
        let s = s\<lparr>net_notification_masked := control \<noteq> 0\<rparr>
        in (0, if control = 0 \<and> net_rx_head s \<noteq> net_rx_tail s then signal_rx s else s))"

definition tx_quiet :: "'d luna_network_state \<Rightarrow> bool" where
  "tx_quiet s \<longleftrightarrow> tx_queue_empty s \<and> net_tx_pending s = 0 \<and> \<not> net_poll_in_driver s"

text \<open>\<open>None\<close>: the service waits for the transmit queue to drain.\<close>

definition service_tx_stress :: "u64 \<Rightarrow> 'd luna_network_state \<Rightarrow> (c_int \<times> 'd luna_network_state) option" where
  "service_tx_stress control s =
     (if control > 1 then Some (-1, s)
      else if control \<noteq> 0 \<and> \<not> tx_quiet s then None
      else
        let s = s\<lparr>net_tx_stress_gate := control \<noteq> 0\<rparr>
        in Some (0, if control = 0 then signal (net_tx_ntfn s) (signal (net_poll_kick_ntfn s) s) else s))"

definition net_dispatch ::
  "interference \<Rightarrow> u64 \<Rightarrow> u64 \<Rightarrow> 'd luna_network_state \<Rightarrow> ((c_int \<times> u64) \<times> 'd luna_network_state) option" where
  "net_dispatch C event len s =
     (let plain = map_option (\<lambda>(e, s). ((e, 0), s))
      in if event = event_word LUNA_ISOLATION_EVENT_NET_TX then plain (service_tx C len s)
      else if event = event_word LUNA_ISOLATION_EVENT_NET_TX_BATCH then service_tx_batch C len s
      else if event = event_word LUNA_ISOLATION_EVENT_NET_RX \<and> len = 0 then Some (service_rx s)
      else if event = event_word LUNA_ISOLATION_EVENT_NET_RX_BATCH then Some (service_rx_batch len s)
      else if event = event_word LUNA_ISOLATION_EVENT_NET_WAKE \<and> len = 0 then Some ((0, 0), signal (net_rx_ntfn s) s)
      else if event = event_word LUNA_ISOLATION_EVENT_NET_CONTROL then plain (Some (service_control len s))
      else if event = event_word LUNA_ISOLATION_EVENT_NET_STATS \<and> len = 0 then Some ((0, service_stats s), s)
      else if event = event_word LUNA_ISOLATION_EVENT_NET_TX_STATS \<and> len = 0 then Some ((0, service_tx_stats s), s)
      else if event = event_word LUNA_ISOLATION_EVENT_NET_TX_STRESS then plain (service_tx_stress len s)
      else if event = event_word LUNA_ISOLATION_EVENT_NET_DEBUG \<and> len = 0 then Some ((0, 0), s)
      else Some ((-1, 0), s))"

text \<open>The reply sent on the command endpoint and the value returned to the manager's loop.\<close>

definition luna_network_service ::
  "interference \<Rightarrow> u64 \<Rightarrow> u64 \<Rightarrow> 'd luna_network_state \<Rightarrow> (ipc_message \<times> c_int \<times> 'd luna_network_state) option" where
  "luna_network_service C event len s =
     map_option
       (\<lambda>((error, response), s).
          (Message 0 0 [command_word LUNA_COMMAND_NET_RESULT, word_of_cint error, response],
           if error = of_int LUNA_NET_TX_RETRY then 0 else error, s))
       (if net_ready s then net_dispatch C event len s else Some ((-1, 0), s))"

section \<open>The poll and interrupt threads\<close>

fun run_event :: "'d net_env \<Rightarrow> driver_event \<Rightarrow> 'd luna_network_state \<Rightarrow> 'd luna_network_state option" where
  "run_event E (Tx_Done i) s = transmit_complete i s"
| "run_event E (Rx_Done bs) s = Some (receive_complete bs s)"
| "run_event E (Rx_Refill wanted) s = Some (snd (allocate_rx_buffer E wanted s))"

fun run_events :: "'d net_env \<Rightarrow> driver_event list \<Rightarrow> 'd luna_network_state \<Rightarrow> 'd luna_network_state option" where
  "run_events E [] s = Some s"
| "run_events E (ev # evs) s = run_event E ev s \<bind> run_events E evs"

definition network_poll_budget :: "'d net_env \<Rightarrow> 'd luna_network_state \<Rightarrow> ((nat \<times> bool) \<times> 'd luna_network_state) option" where
  "network_poll_budget E s =
     (let ((evs, processed, again), d) = raw_poll_budget E LUNA_NET_INTX_BUDGET (net_dev s)
      in map_option (Pair (processed, again)) (run_events E evs (s\<lparr>net_dev := d\<rparr>)))"

definition record_irq_packets :: "nat \<Rightarrow> 'd luna_network_state \<Rightarrow> 'd luna_network_state" where
  "record_irq_packets processed s =
     count (nc_irq_max_packets_update (max (of_nat processed)))
       (count (nc_irq_packets_update (\<lambda>x. x + of_nat processed)) s)"

definition record_coalesced :: "nat \<Rightarrow> 'd luna_network_state \<Rightarrow> 'd luna_network_state" where
  "record_coalesced processed s =
     (if processed = 0 then s
      else count (nc_irq_coalesced_packets_update (\<lambda>x. x + of_nat processed))
             (count (nc_irq_coalesced_polls_update plus_one) s))"

definition record_exhausted :: "bool \<Rightarrow> 'd luna_network_state \<Rightarrow> 'd luna_network_state" where
  "record_exhausted again s = (if again then count (nc_irq_budget_exhaustions_update plus_one) s else s)"

definition push_tx :: "'d net_env \<Rightarrow> interference \<Rightarrow> 'd luna_network_state \<Rightarrow> 'd luna_network_state option" where
  "push_tx E C s = process_tx_queue E s \<bind> service_tx_notification E C \<bind> process_tx_queue E"

text \<open>The bounded recheck when the child's request is still unanswered.\<close>

definition poll_recheck :: "'d net_env \<Rightarrow> interference \<Rightarrow> bool \<Rightarrow> bool \<Rightarrow> 'd luna_network_state \<Rightarrow>
    ((bool \<times> bool) \<times> 'd luna_network_state) option" where
  "poll_recheck E C again timer_event s = do {
     ((rechecked, recheck_more), s) \<leftarrow> network_poll_budget E s;
     let s = record_exhausted recheck_more (record_coalesced rechecked (count (nc_irq_kick_polls_update plus_one) s));
     let again = (again \<or> recheck_more);
     s \<leftarrow> push_tx E C s;
     (if \<not> tx_response_pending s then Some ((again, timer_event), s)
      else if timer_event then Some ((again, False), service_tx_timeout_retry E s)
      else
        let (e, d) = schedule_network E (net_timer_badged_ntfn s) LUNA_NET_TX_RECHECK_NS (net_dev s);
            s = s\<lparr>net_dev := d\<rparr>
        in Some ((again, timer_event), if e \<noteq> 0 then count (nc_irq_errors_update plus_one) s else s))
   }"

definition poll_round :: "'d net_env \<Rightarrow> interference \<Rightarrow> bool \<Rightarrow> bool \<Rightarrow> bool \<Rightarrow> 'd luna_network_state \<Rightarrow>
    ((bool \<times> bool) \<times> 'd luna_network_state) option" where
  "poll_round E C irq_event first timer_event s = do {
     let s = (if net_child_active s \<and> rx_queue_full s then record_rx_backpressure s else s);
     ((processed, again), s) \<leftarrow> network_poll_budget E s;
     let s = count (nc_irq_kick_polls_update plus_one) s;
     let s = (if irq_event \<and> first then record_irq_packets processed s else record_coalesced processed s);
     s \<leftarrow> push_tx E C (record_exhausted again s);
     (if tx_response_pending s then poll_recheck E C again timer_event s else Some ((again, timer_event), s))
   }"

text \<open>The loop \<open>do ... while (again)\<close>; how often the driver asks for another round is up to the device.\<close>

fun poll_rounds :: "'d net_env \<Rightarrow> interference \<Rightarrow> nat \<Rightarrow> bool \<Rightarrow> bool \<Rightarrow> bool \<Rightarrow> 'd luna_network_state \<Rightarrow>
    'd luna_network_state option" where
  "poll_rounds E C 0 irq_event first timer_event s = None"
| "poll_rounds E C (Suc n) irq_event first timer_event s = do {
     ((again, timer_event), s) \<leftarrow> poll_round E C irq_event first timer_event s;
     (if again then poll_rounds E C n irq_event False timer_event s else Some s)
   }"

text \<open>One iteration of \<open>network_poll_thread\<close> in interrupt mode, for the badge it was woken with.\<close>

definition poll_irq_iteration :: "'d net_env \<Rightarrow> interference \<Rightarrow> nat \<Rightarrow> u64 \<Rightarrow> 'd luna_network_state \<Rightarrow>
    'd luna_network_state option" where
  "poll_irq_iteration E C n badge s =
     (let irq_event = (and badge LUNA_NET_IRQ_BADGE \<noteq> 0);
          timer_event = (and badge LUNA_NET_TIMER_BADGE \<noteq> 0);
          s = s\<lparr>net_poll_in_driver := True\<rparr>;
          s = (if irq_event
               then signal (net_irq_done_ntfn s) (count (nc_irq_count_update plus_one)
                      (s\<lparr>net_dev := raw_ack_irq E (net_irq_line s) (net_dev s)\<rparr>))
               else s)
      in map_option (\<lambda>s. tx_idle_signal (s\<lparr>net_poll_in_driver := False\<rparr>))
           (poll_rounds E C n irq_event True timer_event s))"

text \<open>One iteration without interrupts.\<close>

definition poll_fallback_iteration :: "'d net_env \<Rightarrow> interference \<Rightarrow> 'd luna_network_state \<Rightarrow> 'd luna_network_state option" where
  "poll_fallback_iteration E C s =
     (if \<not> net_child_active s \<and> net_tx_pending s = 0 \<and> tx_queue_empty s then Some s
      else do {
        s \<leftarrow> push_tx E C (s\<lparr>net_poll_in_driver := True\<rparr>);
        let queue_full = (net_child_active s \<and> rx_queue_full s);
        (if queue_full \<and> net_tx_pending s = 0
         then Some ((record_rx_backpressure s)\<lparr>net_poll_in_driver := False\<rparr>)
         else
           let s = (if net_child_active s \<and> \<not> queue_full then s\<lparr>net_backpressure_active := False\<rparr> else s)
           in if \<not> net_child_active s \<and> net_tx_pending s = 0 \<and> tx_queue_empty s
              then Some (signal (net_tx_idle_ntfn s) (s\<lparr>net_poll_in_driver := False\<rparr>))
              else if \<not> net_child_active s \<and> net_tx_pending s = 0 then Some (s\<lparr>net_poll_in_driver := False\<rparr>)
              else
                let (evs, d) = raw_poll E (net_dev s)
                in map_option (\<lambda>s. (count (nc_fallback_polls_update plus_one) s)\<lparr>net_poll_in_driver := False\<rparr>)
                     (run_events E evs (s\<lparr>net_dev := d\<rparr>)))
      })"

definition network_poll_iteration :: "'d net_env \<Rightarrow> interference \<Rightarrow> nat \<Rightarrow> u64 \<Rightarrow> 'd luna_network_state \<Rightarrow>
    'd luna_network_state option" where
  "network_poll_iteration E C n badge s =
     (if net_irq_mode s then poll_irq_iteration E C n badge s else poll_fallback_iteration E C s)"

text \<open>One interrupt: forward it to the poll thread, wait until it is served, acknowledge it.\<close>

definition network_irq_step :: "bool \<Rightarrow> 'd luna_network_state \<Rightarrow> 'd luna_network_state" where
  "network_irq_step ack_ok s =
     (if \<not> net_irq_mode s then s
      else
        let s = signal (net_irq_badged_ntfn s) s
        in if ack_ok then s
           else signal (net_poll_kick_ntfn s) (count (nc_irq_errors_update plus_one) (s\<lparr>net_irq_mode := False\<rparr>)))"

section \<open>Attaching and detaching a child\<close>

text \<open>The reset at the end of \<open>luna_network_map_child\<close>, once the window is mapped.\<close>

definition reset_header :: "luna_net_batch_header \<Rightarrow> luna_net_batch_header" where
  "reset_header h = h\<lparr>tx_request_sequence := 0, tx_response_sequence := 0, tx_accepted := 0,
     rx_produced := 0, rx_consumed := 0, rx_waiting := 0\<rparr>"

definition map_child_reset :: "bool \<Rightarrow> 'd luna_network_state \<Rightarrow> 'd luna_network_state" where
  "map_child_reset activate s =
     (let s = s\<lparr>net_log := net_log s @ [KPoll (net_rx_ntfn s), KPoll (net_tx_ntfn s), KPoll (net_tx_idle_ntfn s)],
                net_rx_head := 0, net_rx_tail := 0, net_tx_head := 0, net_tx_tail := 0, net_tx_submit := 0,
                net_header := reset_header (net_header s), net_notification_masked := False,
                net_backpressure_active := False, net_counters := zero_counters,
                net_tx_stress_gate := False, net_tx_pending := 0,
                net_tx_dma := (\<lambda>i. if i < LUNA_NET_TX_DMA_COUNT
                                  then (net_tx_dma s i)\<lparr>dma_in_use := False, dma_queue_index := 0\<rparr> else net_tx_dma s i),
                net_child_active := activate,
                net_accepted := [], net_sent := [], net_received := [], net_delivered := []\<rparr>
      in if activate then signal (net_poll_kick_ntfn s) s else s)"

text \<open>\<open>luna_network_deactivate_child\<close> up to its waiting loop and, once \<open>tx_quiet\<close>, the rest.\<close>

definition deactivate_begin :: "'d luna_network_state \<Rightarrow> 'd luna_network_state" where
  "deactivate_begin s =
     (if \<not> net_ready s then s
      else signal (net_poll_kick_ntfn s) (s\<lparr>net_child_active := False, net_tx_stress_gate := False\<rparr>))"

definition deactivate_finish :: "'d net_env \<Rightarrow> 'd luna_network_state \<Rightarrow> 'd luna_network_state" where
  "deactivate_finish E s =
     (let s = s\<lparr>net_dev := cancel_network E (net_dev s), net_notification_masked := False,
                net_rx_head := 0, net_rx_tail := 0, net_backpressure_active := False,
                net_received := [], net_delivered := [],
                net_log := net_log s @ [KPoll (net_rx_ntfn s)]\<rparr>
      in signal (net_tx_ntfn s) s)"

definition luna_network_verify_irq :: "'d luna_network_state \<Rightarrow> c_int" where
  "luna_network_verify_irq s =
     (let c = net_counters s
      in if net_irq_mode s then
           (if nc_irq_count c = 0 \<or> nc_fallback_polls c \<noteq> 0 \<or> nc_irq_errors c \<noteq> 0 then -1
            else if nc_irq_max_packets c > of_nat LUNA_NET_INTX_BUDGET then -1 else 0)
         else if nc_fallback_polls c = 0 then -1 else 0)"

end
