(* ===== verification/Net_Queues.thy ===== *)
theory Net_Queues
  imports Net_Manager
begin

text \<open>
  The transmit and receive queues of the manager. The transmit queue has three indexes: packets
  from \<open>tail\<close> to \<open>submit\<close> are with the driver or done, those from \<open>submit\<close> to \<open>head\<close> are waiting.
  The invariant relates them to the DMA buffers and to the history of accepted and sent packets;
  it is kept by every operation of the service, the threads and the driver's callbacks.
\<close>

abbreviation TXN :: nat where "TXN \<equiv> LUNA_NET_TX_QUEUE_COUNT"
abbreviation RXN :: nat where "RXN \<equiv> LUNA_NET_RX_QUEUE_COUNT"
abbreviation DMAN :: nat where "DMAN \<equiv> LUNA_NET_TX_DMA_COUNT"

section \<open>The transmit ring\<close>

text \<open>\<open>q\<close> the lengths, \<open>U\<close> the busy buffers with their queue positions \<open>Q\<close>; tail \<open>t\<close>, submit \<open>m\<close>, head \<open>h\<close>.\<close>

definition tx_range :: "(nat \<Rightarrow> nat) \<Rightarrow> nat \<Rightarrow> nat \<Rightarrow> nat \<Rightarrow> bool" where
  "tx_range q t m h \<longleftrightarrow> t < TXN \<and> m < TXN \<and> h < TXN \<and> ring_used TXN m t \<le> ring_used TXN h t \<and>
     (\<forall>p < TXN. ring_in TXN h t p \<longrightarrow> q p \<le> LUNA_NET_PACKET_SIZE) \<and>
     (\<forall>p < TXN. ring_in TXN h m p \<longrightarrow> q p \<noteq> 0)"

definition tx_owned :: "(nat \<Rightarrow> nat) \<Rightarrow> (nat \<Rightarrow> bool) \<Rightarrow> (nat \<Rightarrow> nat) \<Rightarrow> nat \<Rightarrow> nat \<Rightarrow> bool" where
  "tx_owned q U Q t m \<longleftrightarrow>
     (\<forall>p < TXN. ring_in TXN m t p \<and> q p \<noteq> 0 \<longrightarrow> (\<exists>i < DMAN. U i \<and> Q i = p)) \<and>
     (\<forall>i < DMAN. U i \<longrightarrow> Q i < TXN \<and> ring_in TXN m t (Q i) \<and> q (Q i) \<noteq> 0) \<and>
     (\<forall>i < DMAN. \<forall>j < DMAN. U i \<and> U j \<and> Q i = Q j \<longrightarrow> i = j)"

definition tx_ring_ok :: "(nat \<Rightarrow> nat) \<Rightarrow> (nat \<Rightarrow> bool) \<Rightarrow> (nat \<Rightarrow> nat) \<Rightarrow> nat \<Rightarrow> nat \<Rightarrow> nat \<Rightarrow> bool" where
  "tx_ring_ok q U Q t m h \<longleftrightarrow> tx_range q t m h \<and> tx_owned q U Q t m \<and> (m \<noteq> t \<longrightarrow> q t \<noteq> 0)"

lemma tx_ownedD:
  assumes "tx_owned q U Q t m"
  shows "p < TXN \<Longrightarrow> ring_in TXN m t p \<Longrightarrow> q p \<noteq> 0 \<Longrightarrow> \<exists>i < DMAN. U i \<and> Q i = p"
    and "i < DMAN \<Longrightarrow> U i \<Longrightarrow> Q i < TXN \<and> ring_in TXN m t (Q i) \<and> q (Q i) \<noteq> 0"
    and "i < DMAN \<Longrightarrow> j < DMAN \<Longrightarrow> U i \<Longrightarrow> U j \<Longrightarrow> Q i = Q j \<Longrightarrow> i = j"
  using assms by (simp_all add: tx_owned_def)

lemma tx_ownedI:
  assumes "\<And>p. p < TXN \<Longrightarrow> ring_in TXN m t p \<Longrightarrow> q p \<noteq> 0 \<Longrightarrow> \<exists>i < DMAN. U i \<and> Q i = p"
    and "\<And>i. i < DMAN \<Longrightarrow> U i \<Longrightarrow> Q i < TXN \<and> ring_in TXN m t (Q i) \<and> q (Q i) \<noteq> 0"
    and "\<And>i j. i < DMAN \<Longrightarrow> j < DMAN \<Longrightarrow> U i \<Longrightarrow> U j \<Longrightarrow> Q i = Q j \<Longrightarrow> i = j"
  shows "tx_owned q U Q t m"
  using assms by (simp add: tx_owned_def)

lemma tx_push:
  assumes "tx_ring_ok q U Q t m h" "ring_next TXN h \<noteq> t" "0 < n" "n \<le> LUNA_NET_PACKET_SIZE"
  shows "tx_ring_ok (q(h := n)) U Q t m (ring_next TXN h)"
proof -
  have r: "tx_range q t m h" and o: "tx_owned q U Q t m" and f: "m \<noteq> t \<longrightarrow> q t \<noteq> 0"
    using assms(1) by (auto simp: tx_ring_ok_def)
  have l: "t < TXN" "m < TXN" "h < TXN" and le: "ring_used TXN m t \<le> ring_used TXN h t"
    using r by (auto simp: tx_range_def)
  have up: "ring_used TXN (ring_next TXN h) t = Suc (ring_used TXN h t)"
    by (rule txq.used_next_head [OF l(3,1) assms(2)])
  have nm: "ring_next TXN h \<noteq> m"
    using up le l txq.used_inj [of "ring_next TXN h" m t] by auto
  have out: "\<not> ring_in TXN m t h" using le by (simp add: ring_in_def)
  have "tx_range (q(h := n)) t m (ring_next TXN h)"
    using r le assms(2-4) l up nm unfolding tx_range_def by (auto simp: txq.in_push)
  moreover have "tx_owned (q(h := n)) U Q t m"
    using o out unfolding tx_owned_def by (auto simp del: fun_upd_apply simp: fun_upd_def)
  moreover have "m \<noteq> t \<longrightarrow> (q(h := n)) t \<noteq> 0" using f assms(3) by auto
  ultimately show ?thesis by (simp only: tx_ring_ok_def)
qed

lemma tx_submit:
  assumes "tx_ring_ok q U Q t m h" "m \<noteq> h" "b < DMAN" "\<not> U b"
  shows "tx_ring_ok q (U(b := True)) (Q(b := m)) t (ring_next TXN m) h"
proof -
  have r: "tx_range q t m h" and o: "tx_owned q U Q t m" and f: "m \<noteq> t \<longrightarrow> q t \<noteq> 0"
    using assms(1) by (auto simp: tx_ring_ok_def)
  have l: "t < TXN" "m < TXN" "h < TXN" and le: "ring_used TXN m t \<le> ring_used TXN h t"
    using r by (auto simp: tx_range_def)
  note mid = txq.middle_next [OF l(3,2,1) le assms(2)]
  have qm: "q m \<noteq> 0" using r txq.in_tail [OF l(3,2)] assms(2) l by (auto simp: tx_range_def)
  have inm: "ring_in TXN (ring_next TXN m) t p \<longleftrightarrow> ring_in TXN m t p \<or> p = m" if "p < TXN" for p
    using txq.in_push [OF l(2,1) that] mid by simp
  have inh: "ring_in TXN h (ring_next TXN m) p \<longleftrightarrow> ring_in TXN h m p \<and> p \<noteq> m" if "p < TXN" for p
    using txq.in_pop [OF l(3,2) that] assms(2) by simp
  have own: "Q i \<noteq> m" if "i < DMAN" "U i" for i
    using o that txq.not_in_head [of m t] unfolding tx_owned_def by metis
  have "tx_range q t (ring_next TXN m) h"
    using r mid inh unfolding tx_range_def by auto
  moreover have "tx_owned q (U(b := True)) (Q(b := m)) t (ring_next TXN m)"
  proof (rule tx_ownedI)
    fix p assume p: "p < TXN" "ring_in TXN (ring_next TXN m) t p" "q p \<noteq> 0"
    show "\<exists>i < DMAN. (U(b := True)) i \<and> (Q(b := m)) i = p"
    proof (cases "p = m")
      case False
      then obtain i where "i < DMAN" "U i" "Q i = p" using tx_ownedD(1) [OF o p(1) _ p(3)] p inm by auto
      then show ?thesis using assms(4) by (intro exI [of _ i]) auto
    qed (use assms(3) in auto)
  next
    fix i assume i: "i < DMAN" "(U(b := True)) i"
    show "(Q(b := m)) i < TXN \<and> ring_in TXN (ring_next TXN m) t ((Q(b := m)) i) \<and> q ((Q(b := m)) i) \<noteq> 0"
      using tx_ownedD(2) [OF o i(1)] i inm l(2) qm by (cases "i = b") auto
  next
    fix i j assume "i < DMAN" "j < DMAN" "(U(b := True)) i" "(U(b := True)) j" "(Q(b := m)) i = (Q(b := m)) j"
    then show "i = j" using tx_ownedD(3) [OF o, of i j] own [of i] own [of j] by (cases "i = b"; cases "j = b") auto
  qed
  moreover have "q t \<noteq> 0" using f qm by (cases "m = t") auto
  ultimately show ?thesis by (simp add: tx_ring_ok_def)
qed

lemma tx_undo:
  assumes "tx_ring_ok q U Q t (ring_next TXN m) h" "m < TXN" "b < DMAN" "U b" "Q b = m"
  shows "tx_ring_ok q (U(b := False)) Q t m h"
proof -
  let ?m = "ring_next TXN m"
  have r: "tx_range q t ?m h" and o: "tx_owned q U Q t ?m" and f: "?m \<noteq> t \<longrightarrow> q t \<noteq> 0"
    using assms(1) by (auto simp: tx_ring_ok_def)
  have l: "t < TXN" "h < TXN" and le: "ring_used TXN ?m t \<le> ring_used TXN h t"
    using r by (auto simp: tx_range_def)
  have b: "ring_in TXN ?m t m" "q m \<noteq> 0" using o assms(3-5) by (auto simp: tx_owned_def)
  have ne: "?m \<noteq> t" using b(1) l(1) by auto
  have up: "ring_used TXN ?m t = Suc (ring_used TXN m t)" by (rule txq.used_next_head [OF assms(2) l(1) ne])
  have mh: "h \<noteq> m" using up le by auto
  have inm: "ring_in TXN ?m t p \<longleftrightarrow> ring_in TXN m t p \<or> p = m" if "p < TXN" for p
    by (rule txq.in_push [OF assms(2) l(1) that ne])
  have inh: "ring_in TXN h ?m p \<longleftrightarrow> ring_in TXN h m p \<and> p \<noteq> m" if "p < TXN" for p
    by (rule txq.in_pop [OF l(2) assms(2) that mh])
  have "tx_range q t m h"
    using r up inh b(2) assms(2) unfolding tx_range_def by auto
  moreover have "tx_owned q (U(b := False)) Q t m"
    unfolding tx_owned_def
  proof (intro conjI allI impI)
    fix p assume "p < TXN" and p: "ring_in TXN m t p \<and> q p \<noteq> 0"
    then have "p \<noteq> m" using txq.not_in_head by metis
    moreover obtain i where "i < DMAN" "U i" "Q i = p" using o p \<open>p < TXN\<close> inm unfolding tx_owned_def by blast
    ultimately show "\<exists>i < DMAN. (U(b := False)) i \<and> Q i = p" using assms(5) by auto
  next
    fix i assume i: "i < DMAN" "(U(b := False)) i"
    then have u: "U i" "i \<noteq> b" by (auto split: if_splits)
    then have "Q i \<noteq> m" using o i(1) assms(3-5) unfolding tx_owned_def by metis
    then show "Q i < TXN" "ring_in TXN m t (Q i)" "q (Q i) \<noteq> 0"
      using o i(1) u(1) inm unfolding tx_owned_def by blast+
  next
    fix i j assume "i < DMAN" "j < DMAN" "(U(b := False)) i \<and> (U(b := False)) j \<and> Q i = Q j"
    then show "i = j" using o unfolding tx_owned_def by (auto split: if_splits)
  qed
  ultimately show ?thesis using f ne by (simp add: tx_ring_ok_def)
qed

text \<open>Completion clears one entry; the tail then skips every cleared entry and stops at the submit index.\<close>

lemma tx_clear:
  assumes "tx_ring_ok q U Q t m h" "b < DMAN" "U b"
  shows "tx_range (q(Q b := 0)) t m h \<and> tx_owned (q(Q b := 0)) (U(b := False)) Q t m"
proof -
  have r: "tx_range q t m h" and o: "tx_owned q U Q t m"
    using assms(1) by (auto simp: tx_ring_ok_def)
  have l: "t < TXN" "m < TXN" "h < TXN" and le: "ring_used TXN m t \<le> ring_used TXN h t"
    using r by (auto simp: tx_range_def)
  have b: "Q b < TXN" "ring_in TXN m t (Q b)" using o assms(2,3) by (auto simp: tx_owned_def)
  have "\<not> ring_in TXN h m (Q b)" by (rule txq.in_disjoint [OF l(3,2,1) b(1) le b(2)])
  then have "tx_range (q(Q b := 0)) t m h" using r unfolding tx_range_def by (auto simp: fun_upd_def)
  moreover have "tx_owned (q(Q b := 0)) (U(b := False)) Q t m"
    unfolding tx_owned_def
  proof (intro conjI allI impI)
    fix p assume "p < TXN" and p: "ring_in TXN m t p \<and> (q(Q b := 0)) p \<noteq> 0"
    then have "p \<noteq> Q b" "q p \<noteq> 0" by (auto split: if_splits)
    moreover obtain i where "i < DMAN" "U i" "Q i = p" using o p \<open>q p \<noteq> 0\<close> \<open>p < TXN\<close> unfolding tx_owned_def by blast
    ultimately show "\<exists>i < DMAN. (U(b := False)) i \<and> Q i = p" by auto
  next
    fix i assume i: "i < DMAN" "(U(b := False)) i"
    then have u: "U i" "i \<noteq> b" by (auto split: if_splits)
    then have "Q i \<noteq> Q b" using o i(1) assms(2,3) unfolding tx_owned_def by metis
    then show "Q i < TXN" "ring_in TXN m t (Q i)" "(q(Q b := 0)) (Q i) \<noteq> 0"
      using o i(1) u(1) unfolding tx_owned_def by auto
  next
    fix i j assume "i < DMAN" "j < DMAN" "(U(b := False)) i \<and> (U(b := False)) j \<and> Q i = Q j"
    then show "i = j" using o unfolding tx_owned_def by (auto split: if_splits)
  qed
  ultimately show ?thesis ..
qed

lemma tx_skip:
  assumes "tx_range q t m h" "tx_owned q U Q t m" "t \<noteq> h" "q t = 0"
  shows "tx_range q (ring_next TXN t) m h \<and> tx_owned q U Q (ring_next TXN t) m \<and> t \<noteq> m"
proof -
  have l: "t < TXN" "m < TXN" "h < TXN" and le: "ring_used TXN m t \<le> ring_used TXN h t"
    using assms(1) by (auto simp: tx_range_def)
  have tm: "m \<noteq> t"
  proof
    assume "m = t"
    then have "ring_in TXN h m t" using txq.in_tail [OF l(3,1)] assms(3) by auto
    then show False using assms(1,4) l by (auto simp: tx_range_def)
  qed
  have inh: "ring_in TXN h (ring_next TXN t) p \<longleftrightarrow> ring_in TXN h t p \<and> p \<noteq> t" if "p < TXN" for p
    using txq.in_pop [OF l(3,1) that] assms(3) by simp
  have inm: "ring_in TXN m (ring_next TXN t) p \<longleftrightarrow> ring_in TXN m t p \<and> p \<noteq> t" if "p < TXN" for p
    by (rule txq.in_pop [OF l(2,1) that tm])
  have "tx_range q (ring_next TXN t) m h"
    using assms(1) txq.tail_next [OF l(3,2,1) le tm] inh unfolding tx_range_def by auto
  moreover have "tx_owned q U Q (ring_next TXN t) m"
  proof (rule tx_ownedI)
    fix p assume "p < TXN" "ring_in TXN m (ring_next TXN t) p" "q p \<noteq> 0"
    then show "\<exists>i < DMAN. U i \<and> Q i = p" using tx_ownedD(1) [OF assms(2), of p] inm by blast
  next
    fix i assume i: "i < DMAN" "U i"
    from tx_ownedD(2) [OF assms(2) this] assms(4) have "Q i < TXN" "ring_in TXN m t (Q i)" "q (Q i) \<noteq> 0" "Q i \<noteq> t"
      by auto
    then show "Q i < TXN \<and> ring_in TXN m (ring_next TXN t) (Q i) \<and> q (Q i) \<noteq> 0" using inm by blast
  next
    fix i j assume "i < DMAN" "j < DMAN" "U i" "U j" "Q i = Q j"
    then show "i = j" by (rule tx_ownedD(3) [OF assms(2)])
  qed
  ultimately show ?thesis using tm by simp
qed

lemma tx_advance:
  assumes "tx_range (\<lambda>p. pk_length (q p)) t m h" "tx_owned (\<lambda>p. pk_length (q p)) U Q t m" "ring_used TXN h t < n"
  shows "\<exists>t'. advance_tail n q h t = Some t' \<and> tx_ring_ok (\<lambda>p. pk_length (q p)) U Q t' m h"
  using assms
proof (induction n arbitrary: t)
  case (Suc n)
  have l: "t < TXN" "m < TXN" "h < TXN" using Suc.prems(1) by (auto simp: tx_range_def)
  show ?case
  proof (cases "t \<noteq> h \<and> pk_length (q t) = 0")
    case True
    from tx_skip [OF Suc.prems(1,2)] True
    have sk: "tx_range (\<lambda>p. pk_length (q p)) (ring_next TXN t) m h" "tx_owned (\<lambda>p. pk_length (q p)) U Q (ring_next TXN t) m"
      by auto
    have "ring_used TXN h (ring_next TXN t) < n"
      using txq.used_next_tail [OF l(3,1)] True Suc.prems(3) by auto
    from Suc.IH [OF sk this] show ?thesis using True by simp
  next
    case False
    then have "m \<noteq> t \<longrightarrow> pk_length (q t) \<noteq> 0"
      using Suc.prems(1) l txq.used_0 [of m t] by (auto simp: tx_range_def)
    then have "tx_ring_ok (\<lambda>p. pk_length (q p)) U Q t m h" using Suc.prems by (simp add: tx_ring_ok_def)
    moreover have "advance_tail (Suc n) q h t = Some t" using False by auto
    ultimately show ?thesis by blast
  qed
qed simp

text \<open>With nothing in flight, everything submitted has been released.\<close>

lemma tx_drained:
  assumes "tx_ring_ok q U Q t m h" "\<forall>i < DMAN. \<not> U i"
  shows "t = m"
proof (rule ccontr)
  assume "t \<noteq> m"
  moreover have "t < TXN" "m < TXN" using assms(1) by (auto simp: tx_ring_ok_def tx_range_def)
  ultimately have "ring_in TXN m t t" by (simp add: txq.in_tail)
  then show False using assms \<open>t \<noteq> m\<close> \<open>t < TXN\<close> unfolding tx_ring_ok_def tx_owned_def by blast
qed

section \<open>The transmit queue of a state\<close>

abbreviation tx_len :: "'d luna_network_state \<Rightarrow> nat \<Rightarrow> nat" where
  "tx_len s \<equiv> \<lambda>p. pk_length (net_tx_queue s p)"

abbreviation tx_busy :: "'d luna_network_state \<Rightarrow> nat \<Rightarrow> bool" where
  "tx_busy s \<equiv> \<lambda>i. dma_in_use (net_tx_dma s i)"

abbreviation tx_at :: "'d luna_network_state \<Rightarrow> nat \<Rightarrow> nat" where
  "tx_at s \<equiv> \<lambda>i. dma_queue_index (net_tx_dma s i)"

definition tx_inv :: "'d luna_network_state \<Rightarrow> bool" where
  "tx_inv s \<longleftrightarrow> tx_ring_ok (tx_len s) (tx_busy s) (tx_at s) (net_tx_tail s) (net_tx_submit s) (net_tx_head s) \<and>
     net_tx_pending s = of_nat (count_below (tx_busy s) DMAN)"

text \<open>The packets accepted from the child and not yet given to the driver, oldest first.\<close>

definition tx_waiting :: "'d luna_network_state \<Rightarrow> u8 list list" where
  "tx_waiting s = map packet_bytes (ring_list TXN (net_tx_queue s) (net_tx_head s) (net_tx_submit s))"

definition tx_logged :: "'d luna_network_state \<Rightarrow> bool" where
  "tx_logged s \<longleftrightarrow> net_accepted s = net_sent s @ tx_waiting s"

text \<open>The fields the transmit and the receive side depend on.\<close>

definition tx_view where
  "tx_view s = (net_tx_queue s, net_tx_dma s, net_tx_tail s, net_tx_submit s, net_tx_head s, net_tx_pending s,
     net_accepted s, net_sent s)"

definition rx_view where
  "rx_view s = (net_rx_queue s, net_rx_head s, net_rx_tail s, net_received s, net_delivered s)"

lemmas view_defs = tx_view_def rx_view_def

lemma tx_view_cong:
  assumes "tx_view s' = tx_view s"
  shows "tx_inv s' = tx_inv s" "tx_logged s' = tx_logged s" "tx_waiting s' = tx_waiting s"
  using assms by (simp_all add: tx_view_def tx_inv_def tx_logged_def tx_waiting_def)

lemma view_frame [simp]:
  "rx_view (s\<lparr>net_tx_queue := x0\<rparr>) = rx_view s" "rx_view (s\<lparr>net_tx_dma := x1\<rparr>) = rx_view s"
  "rx_view (s\<lparr>net_tx_tail := x2\<rparr>) = rx_view s" "rx_view (s\<lparr>net_tx_submit := x3\<rparr>) = rx_view s"
  "rx_view (s\<lparr>net_tx_head := x4\<rparr>) = rx_view s" "rx_view (s\<lparr>net_tx_pending := x5\<rparr>) = rx_view s"
  "rx_view (s\<lparr>net_accepted := x6\<rparr>) = rx_view s" "rx_view (s\<lparr>net_sent := x7\<rparr>) = rx_view s"
  "rx_view (s\<lparr>net_dev := x8\<rparr>) = rx_view s" "rx_view (s\<lparr>net_header := x9\<rparr>) = rx_view s"
  "rx_view (s\<lparr>net_window := x10\<rparr>) = rx_view s" "rx_view (s\<lparr>net_counters := x11\<rparr>) = rx_view s"
  "rx_view (s\<lparr>net_log := x12\<rparr>) = rx_view s" "rx_view (s\<lparr>net_tx_mem := x13\<rparr>) = rx_view s"
  "rx_view (s\<lparr>net_tx_stress_gate := x14\<rparr>) = rx_view s" "rx_view (s\<lparr>net_poll_in_driver := x15\<rparr>) = rx_view s"
  "rx_view (s\<lparr>net_backpressure_active := x16\<rparr>) = rx_view s" "rx_view (s\<lparr>net_notification_masked := x17\<rparr>) = rx_view s"
  "rx_view (s\<lparr>net_child_active := x18\<rparr>) = rx_view s" "rx_view (s\<lparr>net_irq_mode := x19\<rparr>) = rx_view s"
  "rx_view (s\<lparr>net_rx_dma := x20\<rparr>) = rx_view s"
  "tx_view (s\<lparr>net_rx_queue := y0\<rparr>) = tx_view s" "tx_view (s\<lparr>net_rx_head := y1\<rparr>) = tx_view s"
  "tx_view (s\<lparr>net_rx_tail := y2\<rparr>) = tx_view s" "tx_view (s\<lparr>net_received := y3\<rparr>) = tx_view s"
  "tx_view (s\<lparr>net_delivered := y4\<rparr>) = tx_view s" "tx_view (s\<lparr>net_dev := y5\<rparr>) = tx_view s"
  "tx_view (s\<lparr>net_header := y6\<rparr>) = tx_view s" "tx_view (s\<lparr>net_window := y7\<rparr>) = tx_view s"
  "tx_view (s\<lparr>net_counters := y8\<rparr>) = tx_view s" "tx_view (s\<lparr>net_log := y9\<rparr>) = tx_view s"
  "tx_view (s\<lparr>net_tx_mem := y10\<rparr>) = tx_view s" "tx_view (s\<lparr>net_tx_stress_gate := y11\<rparr>) = tx_view s"
  "tx_view (s\<lparr>net_poll_in_driver := y12\<rparr>) = tx_view s" "tx_view (s\<lparr>net_backpressure_active := y13\<rparr>) = tx_view s"
  "tx_view (s\<lparr>net_notification_masked := y14\<rparr>) = tx_view s" "tx_view (s\<lparr>net_child_active := y15\<rparr>) = tx_view s"
  "tx_view (s\<lparr>net_irq_mode := y16\<rparr>) = tx_view s" "tx_view (s\<lparr>net_rx_dma := y17\<rparr>) = tx_view s"
  by (simp_all add: view_defs)

lemma view_simps [simp]:
  "tx_view (count f s) = tx_view s" "rx_view (count f s) = rx_view s"
  "tx_view (signal c s) = tx_view s" "rx_view (signal c s) = rx_view s"
  "tx_view (put_header H s) = tx_view s" "rx_view (put_header H s) = rx_view s"
  "tx_view (tx_idle_signal s) = tx_view s" "rx_view (tx_idle_signal s) = rx_view s"
  "tx_view (record_rx_backpressure s) = tx_view s" "rx_view (record_rx_backpressure s) = rx_view s"
  "tx_view (signal_rx s) = tx_view s" "rx_view (signal_rx s) = rx_view s"
  "tx_view (log_sent p s) = (net_tx_queue s, net_tx_dma s, net_tx_tail s, net_tx_submit s, net_tx_head s, net_tx_pending s,
     net_accepted s, net_sent s @ [p])" "rx_view (log_sent p s) = rx_view s"
  by (simp_all add: view_defs count_def signal_def put_header_def tx_idle_signal_def record_rx_backpressure_def
      signal_rx_def log_sent_def)

lemma one_less_pending: "Suc a = b \<Longrightarrow> (of_nat b :: u32) - 1 = of_nat a"
  by auto

lemma busy_zero: "tx_inv s \<Longrightarrow> net_tx_pending s = 0 \<longleftrightarrow> (\<forall>i < DMAN. \<not> tx_busy s i)"
proof -
  assume "tx_inv s"
  then have p: "net_tx_pending s = of_nat (count_below (tx_busy s) DMAN)" by (simp add: tx_inv_def)
  have "count_below (tx_busy s) DMAN \<le> 16" using count_below_le [of "tx_busy s" DMAN] by (simp add: luna_consts)
  then have "unat (of_nat (count_below (tx_busy s) DMAN) :: u32) = count_below (tx_busy s) DMAN"
    by (simp add: unat_of_nat take_bit_nat_eq_self)
  then have "net_tx_pending s = 0 \<longleftrightarrow> count_below (tx_busy s) DMAN = 0" using p by (metis unat_0 unat_eq_zero of_nat_0)
  then show ?thesis by simp
qed

text \<open>What a completion keeps: everything but the tail, the cleared entry and its buffer.\<close>

definition tx_kept :: "'d luna_network_state \<Rightarrow> 'd luna_network_state \<Rightarrow> bool" where
  "tx_kept s s' \<longleftrightarrow> net_tx_submit s' = net_tx_submit s \<and> net_tx_head s' = net_tx_head s \<and>
     net_accepted s' = net_accepted s \<and> net_sent s' = net_sent s \<and> tx_waiting s' = tx_waiting s \<and> rx_view s' = rx_view s \<and>
     (\<forall>p. pk_length (net_tx_queue s' p) \<noteq> 0 \<longrightarrow> net_tx_queue s' p = net_tx_queue s p) \<and>
     net_child_active s' = net_child_active s \<and> net_tx_stress_gate s' = net_tx_stress_gate s \<and>
     net_header s' = net_header s \<and> net_window s' = net_window s \<and>
     nc_tx_driver_retries (net_counters s') = nc_tx_driver_retries (net_counters s)"

lemma tx_kept_refl [simp]: "tx_kept s s"
  by (simp add: tx_kept_def)

lemma tx_kept_trans: "tx_kept s s' \<Longrightarrow> tx_kept s' s'' \<Longrightarrow> tx_kept s s''"
  by (simp add: tx_kept_def)

lemma transmit_complete_ok:
  assumes "tx_inv s"
  shows "\<exists>s'. transmit_complete i s = Some s' \<and> tx_inv s' \<and> tx_kept s s' \<and> (\<forall>j. j \<noteq> i \<longrightarrow> net_tx_dma s' j = net_tx_dma s j)"
proof (cases "i \<ge> DMAN \<or> \<not> tx_busy s i \<or> tx_at s i \<ge> TXN")
  case True
  then show ?thesis using assms by (auto simp: transmit_complete_def Let_def)
next
  case False
  then have i: "i < DMAN" "tx_busy s i" "tx_at s i < TXN" by auto
  define q where "q = (net_tx_queue s)(tx_at s i := (net_tx_queue s (tx_at s i))\<lparr>pk_length := 0\<rparr>)"
  have len: "(\<lambda>p. pk_length (q p)) = (tx_len s)(tx_at s i := 0)" by (auto simp: q_def)
  have ring: "tx_ring_ok (tx_len s) (tx_busy s) (tx_at s) (net_tx_tail s) (net_tx_submit s) (net_tx_head s)"
    and pend: "net_tx_pending s = of_nat (count_below (tx_busy s) DMAN)" using assms by (auto simp: tx_inv_def)
  from tx_clear [OF ring i(1,2)]
  have cl: "tx_range (\<lambda>p. pk_length (q p)) (net_tx_tail s) (net_tx_submit s) (net_tx_head s)"
    "tx_owned (\<lambda>p. pk_length (q p)) ((tx_busy s)(i := False)) (tx_at s) (net_tx_tail s) (net_tx_submit s)"
    unfolding len by auto
  obtain t' where t': "advance_tail TXN q (net_tx_head s) (net_tx_tail s) = Some t'"
    "tx_ring_ok (\<lambda>p. pk_length (q p)) ((tx_busy s)(i := False)) (tx_at s) t' (net_tx_submit s) (net_tx_head s)"
    using tx_advance [OF cl txq.used_less] by blast
  define s1 where "s1 = s\<lparr>net_tx_queue := q, net_tx_dma := (net_tx_dma s)(i := (net_tx_dma s i)\<lparr>dma_in_use := False\<rparr>),
     net_tx_pending := net_tx_pending s - 1, net_tx_tail := t'\<rparr>"
  let ?s' = "tx_idle_signal (signal (net_tx_ntfn s) (count (nc_tx_completed_update plus_one) s1))"
  have run: "transmit_complete i s = Some ?s'"
    using i t'(1) by (simp add: transmit_complete_def Let_def q_def s1_def)
  have busy: "tx_busy s1 = (tx_busy s)(i := False)" "tx_at s1 = tx_at s" by (auto simp: s1_def)
  have "net_tx_pending s1 = of_nat (count_below (tx_busy s1) DMAN)"
    using pend one_less_pending [OF count_below_clear [of i DMAN "tx_busy s"]] i unfolding busy by (simp add: s1_def)
  then have inv: "tx_inv s1" using t'(2) unfolding tx_inv_def busy by (simp add: s1_def)
  have "\<not> ring_in TXN (net_tx_head s) (net_tx_submit s) (tx_at s i)"
  proof (rule txq.in_disjoint)
    show "ring_in TXN (net_tx_submit s) (net_tx_tail s) (tx_at s i)"
      using ring i unfolding tx_ring_ok_def tx_owned_def by blast
  qed (use ring i in \<open>auto simp: tx_ring_ok_def tx_range_def\<close>)
  then have "ring_list TXN q (net_tx_head s) (net_tx_submit s) = ring_list TXN (net_tx_queue s) (net_tx_head s) (net_tx_submit s)"
    by (intro txq.list_cong) (use ring in \<open>auto simp: q_def tx_ring_ok_def tx_range_def\<close>)
  then have wait: "tx_waiting s1 = tx_waiting s" by (simp add: tx_waiting_def s1_def)
  have view: "tx_view ?s' = tx_view s1" by simp
  then have "tx_inv ?s'" "tx_waiting ?s' = tx_waiting s" using inv wait tx_view_cong [of ?s' s1] by auto
  moreover have "tx_kept s ?s'"
    using view wait tx_view_cong(3) [OF view]
    by (simp add: tx_kept_def s1_def q_def view_defs tx_idle_signal_def signal_def count_def)
  moreover have "net_tx_dma ?s' j = net_tx_dma s j" if "j \<noteq> i" for j
    using that view by (simp add: tx_view_def s1_def)
  ultimately show ?thesis using run by blast
qed

lemma transmit_completes_ok:
  assumes "tx_inv s"
  shows "\<exists>s'. transmit_completes is s = Some s' \<and> tx_inv s' \<and> tx_kept s s' \<and>
    (\<forall>j. j \<notin> set is \<longrightarrow> net_tx_dma s' j = net_tx_dma s j)"
  using assms
proof (induction "is" arbitrary: s)
  case (Cons i "is")
  obtain s1 where s1: "transmit_complete i s = Some s1" "tx_inv s1" "tx_kept s s1" "\<forall>j. j \<noteq> i \<longrightarrow> net_tx_dma s1 j = net_tx_dma s j"
    using transmit_complete_ok [OF Cons.prems] by blast
  obtain s2 where "transmit_completes is s1 = Some s2" "tx_inv s2" "tx_kept s1 s2" "\<forall>j. j \<notin> set is \<longrightarrow> net_tx_dma s2 j = net_tx_dma s1 j"
    using Cons.IH [OF s1(2)] by blast
  then show ?case using s1 tx_kept_trans [of s s1 s2] by auto
qed simp

text \<open>
  What the service relies on of the driver: while it is handed a packet it does not report that
  packet complete, unless it has queued it.
\<close>

definition driver_ok :: "'d net_env \<Rightarrow> bool" where
  "driver_ok E \<longleftrightarrow> (\<forall>b phys p d fin r d'. raw_tx E b phys p d = ((fin, r), d') \<and> b \<in> set fin \<longrightarrow> r = ETHIF_TX_ENQUEUED)"

lemma submit_packet_ok:
  assumes "tx_inv s" "net_tx_submit s \<noteq> net_tx_head s" "b < DMAN" "\<not> tx_busy s b"
  shows "tx_inv (submit_packet b s)" "tx_waiting s = packet_bytes (net_tx_queue s (net_tx_submit s)) # tx_waiting (submit_packet b s)"
proof -
  let ?s = "submit_packet b s"
  have ring: "tx_ring_ok (tx_len s) (tx_busy s) (tx_at s) (net_tx_tail s) (net_tx_submit s) (net_tx_head s)"
    and pend: "net_tx_pending s = of_nat (count_below (tx_busy s) DMAN)" using assms(1) by (auto simp: tx_inv_def)
  have b: "tx_busy ?s = (tx_busy s)(b := True)" "tx_at ?s = (tx_at s)(b := net_tx_submit s)"
    by (auto simp: submit_packet_def Let_def)
  have "net_tx_pending ?s = of_nat (count_below (tx_busy ?s) DMAN)"
    using pend count_below_set [of b DMAN "tx_busy s"] assms(3,4) unfolding b by (simp add: submit_packet_def Let_def)
  then show "tx_inv ?s"
    using tx_submit [OF ring assms(2-4)] unfolding tx_inv_def b by (simp add: submit_packet_def Let_def)
  have "net_tx_head s < TXN" "net_tx_submit s < TXN" using ring by (auto simp: tx_ring_ok_def tx_range_def)
  from txq.list_pop [OF this, where q = "net_tx_queue s"] assms(2)
  show "tx_waiting s = packet_bytes (net_tx_queue s (net_tx_submit s)) # tx_waiting ?s"
    by (simp add: tx_waiting_def submit_packet_def Let_def)
qed

lemma submit_packet_simps [simp]:
  "net_tx_head (submit_packet b s) = net_tx_head s" "net_accepted (submit_packet b s) = net_accepted s"
  "net_sent (submit_packet b s) = net_sent s" "rx_view (submit_packet b s) = rx_view s"
  "net_tx_submit (submit_packet b s) = ring_next TXN (net_tx_submit s)"
  "net_child_active (submit_packet b s) = net_child_active s" "net_tx_stress_gate (submit_packet b s) = net_tx_stress_gate s"
  "net_header (submit_packet b s) = net_header s" "net_window (submit_packet b s) = net_window s"
  "net_counters (submit_packet b s) = net_counters s"
  "net_tx_dma (submit_packet b s) b = (net_tx_dma s b)\<lparr>dma_queue_index := net_tx_submit s, dma_in_use := True\<rparr>"
  by (simp_all add: submit_packet_def Let_def rx_view_def)

lemma undo_submit_ok:
  assumes "tx_inv s" "net_tx_submit s = ring_next TXN m" "m < TXN" "b < DMAN" "tx_busy s b" "tx_at s b = m"
  shows "tx_inv (undo_submit m b s)" "tx_waiting (undo_submit m b s) = packet_bytes (net_tx_queue s m) # tx_waiting s"
proof -
  let ?s = "undo_submit m b s"
  have ring: "tx_ring_ok (tx_len s) (tx_busy s) (tx_at s) (net_tx_tail s) (ring_next TXN m) (net_tx_head s)"
    and pend: "net_tx_pending s = of_nat (count_below (tx_busy s) DMAN)" using assms(1,2) by (auto simp: tx_inv_def)
  have b: "tx_busy ?s = (tx_busy s)(b := False)" "tx_at ?s = tx_at s"
    by (auto simp: undo_submit_def count_def)
  have "net_tx_pending ?s = of_nat (count_below (tx_busy ?s) DMAN)"
    using pend one_less_pending [OF count_below_clear [of b DMAN "tx_busy s"]] assms(4,5) unfolding b
    by (simp add: undo_submit_def count_def)
  moreover have undone: "tx_ring_ok (tx_len s) ((tx_busy s)(b := False)) (tx_at s) (net_tx_tail s) m (net_tx_head s)"
    by (rule tx_undo [OF ring assms(3-6)])
  ultimately show "tx_inv ?s" unfolding tx_inv_def b by (simp add: undo_submit_def count_def)
  have l: "net_tx_head s < TXN" "net_tx_tail s < TXN" using ring by (auto simp: tx_ring_ok_def tx_range_def)
  have "ring_in TXN (ring_next TXN m) (net_tx_tail s) m"
    using ring assms(4-6) unfolding tx_ring_ok_def tx_owned_def by blast
  then have "ring_next TXN m \<noteq> net_tx_tail s" using l by auto
  then have "net_tx_head s \<noteq> m"
    using ring l txq.used_next_head [OF assms(3) l(2)] by (auto simp: tx_ring_ok_def tx_range_def)
  from txq.list_pop [OF l(1) assms(3) this, where q = "net_tx_queue s"]
  show "tx_waiting ?s = packet_bytes (net_tx_queue s m) # tx_waiting s"
    by (simp add: tx_waiting_def undo_submit_def count_def assms(2))
qed

text \<open>What the transmit loop does to the rest of the state.\<close>

definition tx_progress :: "'d luna_network_state \<Rightarrow> 'd luna_network_state \<Rightarrow> bool" where
  "tx_progress s s' \<longleftrightarrow> net_tx_head s' = net_tx_head s \<and> net_accepted s' = net_accepted s \<and>
     (\<exists>ps. net_sent s' = net_sent s @ ps) \<and> rx_view s' = rx_view s \<and>
     net_child_active s' = net_child_active s \<and> net_tx_stress_gate s' = net_tx_stress_gate s \<and>
     net_header s' = net_header s \<and> net_window s' = net_window s"

lemma tx_progress_refl [simp]: "tx_progress s s"
  by (simp add: tx_progress_def)

lemma tx_progress_trans: "tx_progress s s' \<Longrightarrow> tx_progress s' s'' \<Longrightarrow> tx_progress s s''"
  by (auto simp: tx_progress_def)

lemma tx_kept_progress: "tx_kept s s' \<Longrightarrow> tx_progress s s'"
  by (simp add: tx_kept_def tx_progress_def)

lemma call_driver_ok:
  assumes "tx_inv s" "b < DMAN" "tx_busy s b" "driver_ok E" "call_driver E b n s = Some (r, s')"
  shows "tx_inv s' \<and> tx_kept s s' \<and> (r \<noteq> ETHIF_TX_ENQUEUED \<longrightarrow> net_tx_dma s' b = net_tx_dma s b)"
proof -
  obtain fin r' d where raw: "raw_tx E b (dma_phys (net_tx_dma s b)) (slice (net_tx_mem s b) 0 n) (net_dev s) = ((fin, r'), d)"
    by (metis prod.collapse)
  let ?s = "s\<lparr>net_dev := d\<rparr>"
  have v: "tx_view ?s = tx_view s" "rx_view ?s = rx_view s" by (simp_all add: view_defs)
  obtain s2 where s2: "transmit_completes fin ?s = Some s2" "tx_inv s2" "tx_kept ?s s2"
    "\<forall>j. j \<notin> set fin \<longrightarrow> net_tx_dma s2 j = net_tx_dma ?s j"
    using transmit_completes_ok [of ?s] assms(1) tx_view_cong(1) [OF v(1)] by blast
  have eq: "r = r'" "s' = s2" using assms(5) raw s2(1) by (simp_all add: call_driver_def)
  have "b \<notin> set fin" if "r' \<noteq> ETHIF_TX_ENQUEUED" using assms(4) raw that unfolding driver_ok_def by blast
  moreover have "tx_kept s s2" using s2(3) tx_view_cong(3) [OF v(1)] v(2) by (simp add: tx_kept_def)
  ultimately show ?thesis using s2 eq by auto
qed

lemma call_driver_total:
  assumes "tx_inv s"
  shows "\<exists>r s'. call_driver E b n s = Some (r, s')"
proof -
  obtain fin r d where raw: "raw_tx E b (dma_phys (net_tx_dma s b)) (slice (net_tx_mem s b) 0 n) (net_dev s) = ((fin, r), d)"
    by (metis prod.collapse)
  have "tx_inv (s\<lparr>net_dev := d\<rparr>)" using assms tx_view_cong(1) [of "s\<lparr>net_dev := d\<rparr>" s] by (simp add: view_defs)
  then show ?thesis using transmit_completes_ok [of "s\<lparr>net_dev := d\<rparr>" "fin"] raw by (auto simp: call_driver_def)
qed

lemma log_sent_inv [simp]: "tx_inv (log_sent p s) = tx_inv s" "tx_waiting (log_sent p s) = tx_waiting s"
  by (simp_all add: tx_inv_def tx_waiting_def log_sent_def)

text \<open>
  The transmit loop ends within as many rounds as packets are waiting, and stops only when the
  queue is submitted, every buffer is busy or the driver refused a packet.
\<close>

lemma process_tx_loop_ok:
  assumes "driver_ok E" "tx_inv s" "tx_logged s" "ring_used TXN (net_tx_head s) (net_tx_submit s) < n"
  shows "\<exists>s'. process_tx_loop E n s = Some s' \<and> tx_inv s' \<and> tx_logged s' \<and> tx_progress s s' \<and>
    (net_tx_submit s' = net_tx_head s' \<or> (\<forall>i < DMAN. tx_busy s' i) \<or>
     nc_tx_driver_retries (net_counters s') = nc_tx_driver_retries (net_counters s) + 1)"
  using assms(2-)
proof (induction n arbitrary: s)
  case (Suc n)
  let ?m = "net_tx_submit s" and ?h = "net_tx_head s"
  have ring: "tx_ring_ok (tx_len s) (tx_busy s) (tx_at s) (net_tx_tail s) ?m ?h" using Suc.prems(1) by (simp add: tx_inv_def)
  have l: "?m < TXN" "?h < TXN" using ring by (auto simp: tx_ring_ok_def tx_range_def)
  show ?case
  proof (cases "?m = ?h \<or> first_index (\<lambda>i. \<not> tx_busy s i) DMAN = None")
    case True
    then have "process_tx_loop E (Suc n) s = Some s" by (elim disjE) (simp_all add: Let_def)
    moreover have "?m = ?h \<or> (\<forall>i < DMAN. tx_busy s i)" using True by (auto simp: first_index_None)
    ultimately show ?thesis using Suc.prems by auto
  next
    case False
    then have mh: "?m \<noteq> ?h" by simp
    obtain b where fb: "first_index (\<lambda>i. \<not> tx_busy s i) DMAN = Some b" using False by auto
    then have b: "b < DMAN" "\<not> tx_busy s b" using first_index_Some [OF fb] by auto
    have len: "tx_len s ?m \<noteq> 0" "tx_len s ?m \<le> LUNA_NET_PACKET_SIZE"
      using ring mh l txq.in_tail [of ?h ?m] txq.in_split [of ?h ?m "net_tx_tail s" ?m]
      by (auto simp: tx_ring_ok_def tx_range_def)
    let ?s1 = "submit_packet b s" and ?p = "packet_bytes (net_tx_queue s ?m)"
    note sub = submit_packet_ok [OF Suc.prems(1) mh b]
    have b1: "tx_busy ?s1 b" "tx_at ?s1 b = ?m" by simp_all
    obtain r s2 where drv: "call_driver E b (tx_len s ?m) ?s1 = Some (r, s2)"
      using call_driver_total [OF sub(1)] by blast
    note drv' = call_driver_ok [OF sub(1) b(1) b1(1) assms(1) drv]
    have loop: "process_tx_loop E (Suc n) s =
        (case r of ETHIF_TX_FAILED \<Rightarrow> Some (undo_submit ?m b s2)
         | ETHIF_TX_COMPLETE \<Rightarrow> transmit_complete b (log_sent ?p s2) \<bind> process_tx_loop E n
         | ETHIF_TX_ENQUEUED \<Rightarrow> process_tx_loop E n (log_sent ?p s2))"
      using mh fb len drv by (simp add: Let_def)
    have kept: "tx_kept ?s1 s2" and inv2: "tx_inv s2" using drv' by auto
    then have s2: "net_tx_submit s2 = ring_next TXN ?m" "net_tx_head s2 = ?h" "tx_waiting s2 = tx_waiting ?s1"
      "net_accepted s2 = net_accepted s" "net_sent s2 = net_sent s"
      by (simp_all add: tx_kept_def)
    have shorter: "ring_used TXN ?h (ring_next TXN ?m) < n"
      using txq.used_next_tail [OF l(2,1)] mh Suc.prems(3) by simp
    have logged: "tx_logged (log_sent ?p s2)"
      using Suc.prems(2) sub(2) s2 unfolding tx_logged_def by (simp add: log_sent_def tx_waiting_def)
    have prog: "tx_progress s (log_sent ?p s2)" and retr: "nc_tx_driver_retries (net_counters s2) = nc_tx_driver_retries (net_counters s)"
      using kept by (auto simp: tx_progress_def tx_kept_def log_sent_def)
    show ?thesis
    proof (cases r)
      case ETHIF_TX_FAILED
      then have dma: "net_tx_dma s2 b = net_tx_dma ?s1 b" using drv' by simp
      have u: "tx_busy s2 b" "tx_at s2 b = ?m" using dma by simp_all
      note undo = undo_submit_ok [OF inv2 s2(1) l(1) b(1) u]
      have "tx_len s2 ?m \<noteq> 0" using tx_ownedD(2) [of _ "tx_busy s2" "tx_at s2" _ _ b] inv2 b(1) u
        unfolding tx_inv_def tx_ring_ok_def by metis
      then have same: "net_tx_queue s2 ?m = net_tx_queue s ?m"
        using kept by (simp add: tx_kept_def submit_packet_def Let_def)
      have "tx_logged (undo_submit ?m b s2)"
        using undo(2) Suc.prems(2) sub(2) s2 same unfolding tx_logged_def by (simp add: undo_submit_def count_def)
      then show ?thesis using ETHIF_TX_FAILED loop undo(1) kept retr
        by (auto simp: tx_progress_def tx_kept_def undo_submit_def count_def plus_one_def)
    next
      case ETHIF_TX_COMPLETE
      obtain s3 where s3: "transmit_complete b (log_sent ?p s2) = Some s3" "tx_inv s3" "tx_kept (log_sent ?p s2) s3"
        using transmit_complete_ok [of "log_sent ?p s2" b] inv2 by auto
      have "tx_logged s3" "net_tx_head s3 = ?h" "net_tx_submit s3 = ring_next TXN ?m"
        using logged s3(3) s2 by (auto simp: tx_logged_def tx_kept_def log_sent_def)
      with Suc.IH [OF s3(2)] shorter obtain s' where "process_tx_loop E n s3 = Some s'" "tx_inv s'" "tx_logged s'" "tx_progress s3 s'"
        "net_tx_submit s' = net_tx_head s' \<or> (\<forall>i < DMAN. tx_busy s' i) \<or>
         nc_tx_driver_retries (net_counters s') = nc_tx_driver_retries (net_counters s3) + 1" by auto
      moreover have "tx_progress s s3" by (rule tx_progress_trans [OF prog tx_kept_progress [OF s3(3)]])
      moreover have "nc_tx_driver_retries (net_counters s3) = nc_tx_driver_retries (net_counters s)"
        using s3(3) retr by (simp add: tx_kept_def log_sent_def)
      ultimately show ?thesis using ETHIF_TX_COMPLETE loop s3(1) tx_progress_trans [of s s3 s'] by auto
    next
      case ETHIF_TX_ENQUEUED
      have "net_tx_head (log_sent ?p s2) = ?h" "net_tx_submit (log_sent ?p s2) = ring_next TXN ?m"
        "nc_tx_driver_retries (net_counters (log_sent ?p s2)) = nc_tx_driver_retries (net_counters s)"
        using s2 retr by (simp_all add: log_sent_def)
      then obtain s' where "process_tx_loop E n (log_sent ?p s2) = Some s'" "tx_inv s'" "tx_logged s'" "tx_progress (log_sent ?p s2) s'"
        "net_tx_submit s' = net_tx_head s' \<or> (\<forall>i < DMAN. tx_busy s' i) \<or>
         nc_tx_driver_retries (net_counters s') = nc_tx_driver_retries (net_counters s) + 1"
        using Suc.IH [of "log_sent ?p s2"] inv2 logged shorter by auto
      then show ?thesis using ETHIF_TX_ENQUEUED loop tx_progress_trans [OF prog, of s'] by auto
    qed
  qed
qed simp

lemma process_tx_queue_ok:
  assumes "driver_ok E" "tx_inv s" "tx_logged s"
  shows "\<exists>s'. process_tx_queue E s = Some s' \<and> tx_inv s' \<and> tx_logged s' \<and> tx_progress s s' \<and>
    (net_tx_stress_gate s \<or> net_tx_submit s' = net_tx_head s' \<or> (\<forall>i < DMAN. tx_busy s' i) \<or>
     nc_tx_driver_retries (net_counters s') = nc_tx_driver_retries (net_counters s) + 1)"
  using process_tx_loop_ok [OF assms txq.used_less] assms by (auto simp: process_tx_queue_def)

section \<open>Accepting a batch from the child\<close>

text \<open>A child that does not change the lengths while the manager reads them.\<close>

definition calm :: "interference \<Rightarrow> bool" where
  "calm C \<longleftrightarrow> (\<forall>H. tx_lengths (C H) = tx_lengths H)"

lemma tx_lengths_valid_iff:
  "tx_lengths_valid H n \<longleftrightarrow> (\<forall>k < n. tx_lengths H k \<noteq> 0 \<and> unat (tx_lengths H k) \<le> LUNA_NET_PACKET_SIZE)"
  by (induction n) (auto simp: less_Suc_eq)

lemma tx_copy_ok:
  assumes "tx_ring_ok (\<lambda>p. pk_length (q p)) U Q t m h" "ring_used TXN h t + n < TXN"
    and "\<forall>k < n. tx_lengths H (i + k) \<noteq> 0 \<and> unat (tx_lengths H (i + k)) \<le> LUNA_NET_PACKET_SIZE"
  shows "\<exists>h' q'. tx_copy H w i n h q = Some (h', q') \<and> tx_ring_ok (\<lambda>p. pk_length (q' p)) U Q t m h' \<and>
    map packet_bytes (ring_list TXN q' h' m) = map packet_bytes (ring_list TXN q h m) @ map (tx_slot H w) [i..<i + n] \<and>
    ring_used TXN h' t = ring_used TXN h t + n"
  using assms
proof (induction n arbitrary: i h q)
  case (Suc n)
  let ?len = "unat (tx_lengths H i)"
  let ?p = "\<lparr>pk_length = ?len, pk_data = memcpy_at (pk_data (q h)) 0 w (LUNA_NET_TX_OFFSET + i * LUNA_NET_PACKET_SIZE) ?len\<rparr>"
  have len: "0 < ?len" "?len \<le> LUNA_NET_PACKET_SIZE" using Suc.prems(3) by (auto simp: unat_gt_0)
  have l: "t < TXN" "m < TXN" "h < TXN" and le: "ring_used TXN m t \<le> ring_used TXN h t"
    using Suc.prems(1) by (auto simp: tx_ring_ok_def tx_range_def)
  have ne: "ring_next TXN h \<noteq> t" using txq.full_iff [OF l(3,1)] Suc.prems(2) by auto
  have up: "ring_used TXN (ring_next TXN h) t = Suc (ring_used TXN h t)" by (rule txq.used_next_head [OF l(3,1) ne])
  have nm: "ring_next TXN h \<noteq> m" using up le l txq.used_inj [of "ring_next TXN h" m t] by auto
  have "(\<lambda>p. pk_length ((q(h := ?p)) p)) = (\<lambda>p. pk_length (q p))(h := ?len)" by auto
  then have ok: "tx_ring_ok (\<lambda>p. pk_length ((q(h := ?p)) p)) U Q t m (ring_next TXN h)"
    using tx_push [OF Suc.prems(1) ne len] by simp
  have "\<forall>k < n. tx_lengths H (Suc i + k) \<noteq> 0 \<and> unat (tx_lengths H (Suc i + k)) \<le> LUNA_NET_PACKET_SIZE"
    using Suc.prems(3) by auto
  moreover have "ring_used TXN (ring_next TXN h) t + n < TXN" using up Suc.prems(2) by simp
  ultimately obtain h' q' where r: "tx_copy H w (Suc i) n (ring_next TXN h) (q(h := ?p)) = Some (h', q')"
    "tx_ring_ok (\<lambda>p. pk_length (q' p)) U Q t m h'"
    "map packet_bytes (ring_list TXN q' h' m) =
      map packet_bytes (ring_list TXN (q(h := ?p)) (ring_next TXN h) m) @ map (tx_slot H w) [Suc i..<Suc i + n]"
    "ring_used TXN h' t = ring_used TXN (ring_next TXN h) t + n" using Suc.IH [OF ok] by blast
  have "packet_bytes ?p = tx_slot H w i"
    using slice_memcpy_same [of "pk_data (q h)" 0 w] by (simp add: packet_bytes_def tx_slot_def)
  then have "map packet_bytes (ring_list TXN (q(h := ?p)) (ring_next TXN h) m) =
      map packet_bytes (ring_list TXN q h m) @ [tx_slot H w i]"
    using txq.list_push [OF l(3,2) nm, where q = q and x = ?p] by simp
  moreover have "[i..<i + Suc n] = i # [Suc i..<Suc i + n]" by (simp add: upt_conv_Cons)
  ultimately show ?case using r len up by (simp add: Let_def)
qed simp

lemma tx_publish_simps [simp]:
  "net_tx_queue (tx_publish u a h q s) = q" "net_tx_head (tx_publish u a h q s) = h"
  "net_tx_tail (tx_publish u a h q s) = net_tx_tail s" "net_tx_submit (tx_publish u a h q s) = net_tx_submit s"
  "net_tx_dma (tx_publish u a h q s) = net_tx_dma s" "net_tx_pending (tx_publish u a h q s) = net_tx_pending s"
  "net_accepted (tx_publish u a h q s) = net_accepted s" "net_sent (tx_publish u a h q s) = net_sent s"
  "rx_view (tx_publish u a h q s) = rx_view s" "net_header (tx_publish u a h q s) = net_header s"
  "net_window (tx_publish u a h q s) = net_window s"
  by (simp_all add: tx_publish_def Let_def count_def signal_def rx_view_def tx_queue_empty_def)

lemma tx_refuse_view [simp]: "tx_view (tx_refuse s) = tx_view s" "rx_view (tx_refuse s) = rx_view s"
  by (simp_all add: tx_refuse_def Let_def view_defs count_def signal_def)

text \<open>The number of packets a request for \<open>requested\<close> is granted.\<close>

definition tx_room :: "'d luna_network_state \<Rightarrow> nat" where
  "tx_room s = TXN - 1 - ring_used TXN (net_tx_head s) (net_tx_tail s)"

lemma if_less_min: "(if a < b then a else b) = min a (b::nat)"
  by simp

lemma service_tx_batch_eq:
  "service_tx_batch C requested s =
     (let s1 = count (nc_tx_endpoint_requests_update plus_one) s; H = net_header s; n = min (unat requested) (tx_room s)
      in if requested = 0 \<or> unat requested > LUNA_NET_BATCH_SLOTS \<or> tx_count H \<noteq> requested \<or> \<not> net_child_active s
         then Some ((-1, 0), s1)
         else if n = 0 then Some ((0, 0), tx_refuse s1)
         else if \<not> tx_lengths_valid H n then Some ((-1, 0), s1)
         else map_option (\<lambda>(head, q). ((0, of_nat n),
                tx_publish (ring_used TXN (net_tx_head s) (net_tx_tail s)) n head q
                  ((put_header (C H) s1)\<lparr>net_accepted := net_accepted s @ map (tx_slot (C H) (net_window s)) [0..<n]\<rparr>)))
                (tx_copy (C H) (net_window s) 0 n (net_tx_head s) (net_tx_queue s)))"
proof -
  define n where "n = min (unat requested) (TXN - 1 - ring_used TXN (net_tx_head s) (net_tx_tail s))"
  have fields: "net_tx_head (count f s) = net_tx_head s" "net_tx_tail (count f s) = net_tx_tail s" for f
    by (simp_all add: count_def)
  show ?thesis
    unfolding service_tx_batch_def Let_def if_less_min tx_room_def fields n_def [symmetric]
    by (simp add: count_def put_header_def)
qed

lemma service_tx_batch_ok:
  assumes "tx_inv s" "tx_logged s" "calm C" and n: "n = min (unat requested) (tx_room s)"
  shows "\<exists>e r s'. service_tx_batch C requested s = Some ((e, r), s') \<and> tx_inv s' \<and> tx_logged s' \<and> rx_view s' = rx_view s \<and>
    net_sent s' = net_sent s \<and>
    (if requested = 0 \<or> unat requested > LUNA_NET_BATCH_SLOTS \<or> tx_count (net_header s) \<noteq> requested \<or> \<not> net_child_active s \<or>
        \<not> tx_lengths_valid (net_header s) n
     then e = -1 \<and> r = 0 \<and> tx_view s' = tx_view s
     else e = 0 \<and> r = of_nat n \<and>
       net_accepted s' = net_accepted s @ map (tx_slot (net_header s) (net_window s)) [0..<n])"
proof -
  let ?s = "count (nc_tx_endpoint_requests_update plus_one) s"
  let ?H = "net_header s"
  have v: "tx_view ?s = tx_view s" "rx_view ?s = rx_view s" by simp_all
  have keep: "tx_inv s' \<and> tx_logged s' \<and> rx_view s' = rx_view s \<and> net_sent s' = net_sent s \<and> net_accepted s' = net_accepted s"
    if "tx_view s' = tx_view s" "rx_view s' = rx_view s" for s' :: "'a luna_network_state"
    using assms that tx_view_cong [OF that(1)] by (simp add: tx_view_def)
  consider (bad) "requested = 0 \<or> unat requested > LUNA_NET_BATCH_SLOTS \<or> tx_count ?H \<noteq> requested \<or> \<not> net_child_active s"
    | (none) "\<not> (requested = 0 \<or> unat requested > LUNA_NET_BATCH_SLOTS \<or> tx_count ?H \<noteq> requested \<or> \<not> net_child_active s)" "n = 0"
    | (lens) "\<not> (requested = 0 \<or> unat requested > LUNA_NET_BATCH_SLOTS \<or> tx_count ?H \<noteq> requested \<or> \<not> net_child_active s)" "n \<noteq> 0" "\<not> tx_lengths_valid ?H n"
    | (some) "\<not> (requested = 0 \<or> unat requested > LUNA_NET_BATCH_SLOTS \<or> tx_count ?H \<noteq> requested \<or> \<not> net_child_active s)" "n \<noteq> 0" "tx_lengths_valid ?H n"
    by argo
  then show ?thesis
  proof cases
    case bad
    then have "service_tx_batch C requested s = Some ((-1, 0), ?s)" by (simp add: service_tx_batch_eq Let_def n [symmetric])
    then show ?thesis using bad keep [OF v] v by auto
  next
    case none
    then have "service_tx_batch C requested s = Some ((0, 0), tx_refuse ?s)"
      by (simp add: service_tx_batch_eq Let_def n [symmetric])
    moreover have "tx_lengths_valid ?H n" unfolding none(2) by simp
    ultimately show ?thesis using none keep [of "tx_refuse ?s"] v by (simp add: none(2))
  next
    case lens
    then have "service_tx_batch C requested s = Some ((-1, 0), ?s)"
      by (simp add: service_tx_batch_eq Let_def n [symmetric])
    then show ?thesis using lens keep [OF v] v by auto
  next
    case some
    have slots: "tx_slot (C ?H) w = tx_slot ?H w" for w using assms(3) by (auto simp: calm_def tx_slot_def)
    have ring: "tx_ring_ok (tx_len s) (tx_busy s) (tx_at s) (net_tx_tail s) (net_tx_submit s) (net_tx_head s)"
      and pend: "net_tx_pending s = of_nat (count_below (tx_busy s) DMAN)" using assms(1) by (auto simp: tx_inv_def)
    have "ring_used TXN (net_tx_head s) (net_tx_tail s) + n < TXN"
      using txq.used_less [of "net_tx_head s" "net_tx_tail s"] unfolding n tx_room_def by linarith
    moreover have "\<forall>k < n. tx_lengths (C ?H) (0 + k) \<noteq> 0 \<and> unat (tx_lengths (C ?H) (0 + k)) \<le> LUNA_NET_PACKET_SIZE"
      using some(3) assms(3) by (simp add: calm_def tx_lengths_valid_iff)
    ultimately obtain h' q' where copy: "tx_copy (C ?H) (net_window s) 0 n (net_tx_head s) (net_tx_queue s) = Some (h', q')"
      "tx_ring_ok (\<lambda>p. pk_length (q' p)) (tx_busy s) (tx_at s) (net_tx_tail s) (net_tx_submit s) h'"
      "map packet_bytes (ring_list TXN q' h' (net_tx_submit s)) = tx_waiting s @ map (tx_slot ?H (net_window s)) [0..<n]"
      using tx_copy_ok [OF ring, of n "C ?H" 0 "net_window s"] by (auto simp: tx_waiting_def slots)
    let ?s2 = "tx_publish (ring_used TXN (net_tx_head s) (net_tx_tail s)) n h' q'
      ((put_header (C ?H) ?s)\<lparr>net_accepted := net_accepted s @ map (tx_slot ?H (net_window s)) [0..<n]\<rparr>)"
    have "service_tx_batch C requested s = Some ((0, of_nat n), ?s2)"
      using some copy(1) by (simp add: service_tx_batch_eq Let_def n [symmetric] slots)
    moreover have "tx_inv ?s2" using copy(2) pend unfolding tx_inv_def by (simp add: put_header_def count_def)
    moreover have "tx_logged ?s2"
      using assms(2) copy(3) unfolding tx_logged_def by (simp add: tx_waiting_def put_header_def count_def)
    moreover have "rx_view ?s2 = rx_view s" "net_sent ?s2 = net_sent s"
      "net_accepted ?s2 = net_accepted s @ map (tx_slot ?H (net_window s)) [0..<n]"
      by (simp_all add: put_header_def count_def)
    ultimately show ?thesis using some by auto
  qed
qed

end
