(* ===== verification/Net_Service.thy ===== *)
theory Net_Service
  imports Net_Queues
begin

text \<open>
  The receive queue, and the manager's network service as a whole: a step relation over the
  child's writes to the shared window, its requests, the poll and interrupt threads and the
  attachment of children, with the invariant of both queues.
\<close>

section \<open>The receive queue\<close>

definition rx_inv :: "'d luna_network_state \<Rightarrow> bool" where
  "rx_inv s \<longleftrightarrow> net_rx_head s < RXN \<and> net_rx_tail s < RXN \<and>
     (\<forall>p < RXN. ring_in RXN (net_rx_head s) (net_rx_tail s) p \<longrightarrow>
        0 < pk_length (net_rx_queue s p) \<and> pk_length (net_rx_queue s p) \<le> LUNA_NET_PACKET_SIZE)"

definition rx_queued :: "'d luna_network_state \<Rightarrow> u8 list list" where
  "rx_queued s = map packet_bytes (ring_list RXN (net_rx_queue s) (net_rx_head s) (net_rx_tail s))"

definition rx_logged :: "'d luna_network_state \<Rightarrow> bool" where
  "rx_logged s \<longleftrightarrow> net_received s = net_delivered s @ rx_queued s"

lemma rx_view_cong:
  assumes "rx_view s' = rx_view s"
  shows "rx_inv s' = rx_inv s" "rx_logged s' = rx_logged s" "rx_queued s' = rx_queued s"
  using assms by (simp_all add: rx_view_def rx_inv_def rx_logged_def rx_queued_def)

text \<open>The bytes of a chain of receive buffers.\<close>

definition chain_bytes :: "rx_chain \<Rightarrow> u8 list" where
  "chain_bytes bs = concat (map (\<lambda>(cookie, len, mem). slice mem 0 len) bs)"

lemma slice_0 [simp]: "slice a i 0 = []"
  by (simp add: slice_def)

lemma rx_gather_bytes:
  "slice (rx_gather d offset bs) 0 (offset + length (chain_bytes bs)) = slice d 0 offset @ chain_bytes bs"
proof (induction bs arbitrary: d offset)
  case (Cons b bs)
  obtain cookie len mem where b: "b = (cookie, len, mem)" by (cases b)
  have "slice (memcpy_at d offset mem 0 len) 0 (offset + len) = slice d 0 offset @ slice mem 0 len"
    using slice_append [of "memcpy_at d offset mem 0 len" 0 offset len]
    by (simp add: slice_memcpy_same slice_memcpy_other)
  then show ?case using Cons [of "memcpy_at d offset mem 0 len" "offset + len"] b
    by (simp add: chain_bytes_def add.assoc)
qed (simp add: chain_bytes_def)

lemma rx_total_bytes: "rx_total n bs \<noteq> 0 \<Longrightarrow> rx_total n bs = n + length (chain_bytes bs)"
proof (induction bs arbitrary: n)
  case (Cons b bs)
  obtain cookie len mem where b: "b = (cookie, len, mem)" by (cases b)
  have "rx_total n (b # bs) = rx_total (n + len) bs" "rx_total (n + len) bs \<noteq> 0"
    using Cons.prems b by (auto split: if_splits)
  then show ?case using Cons.IH [of "n + len"] b by (simp add: chain_bytes_def)
qed (simp add: chain_bytes_def)

lemma rx_enqueue_ok:
  assumes "rx_inv s" "rx_logged s" "\<not> rx_queue_full s" "rx_total 0 bs = n" "n \<noteq> 0" "n \<le> LUNA_NET_PACKET_SIZE"
  shows "rx_inv (rx_enqueue n bs s) \<and> rx_logged (rx_enqueue n bs s) \<and> tx_view (rx_enqueue n bs s) = tx_view s \<and>
    rx_queued (rx_enqueue n bs s) = rx_queued s @ [chain_bytes bs] \<and> net_delivered (rx_enqueue n bs s) = net_delivered s"
proof -
  let ?h = "net_rx_head s" and ?t = "net_rx_tail s"
  let ?p = "\<lparr>pk_length = n, pk_data = rx_gather (pk_data (net_rx_queue s ?h)) 0 bs\<rparr>"
  let ?q = "(net_rx_queue s)(?h := ?p)" and ?s = "rx_enqueue n bs s"
  have l: "?h < RXN" "?t < RXN" and ne: "ring_next RXN ?h \<noteq> ?t" using assms(1,3) by (auto simp: rx_inv_def rx_queue_full_def)
  have len: "n = length (chain_bytes bs)" using rx_total_bytes [of 0 bs] assms(4,5) by simp
  have bytes: "packet_bytes ?p = chain_bytes bs"
    using rx_gather_bytes [of "pk_data (net_rx_queue s ?h)" 0 bs] len by (simp add: packet_bytes_def)
  have fields: "net_rx_queue ?s = ?q" "net_rx_head ?s = ring_next RXN ?h" "net_rx_tail ?s = ?t"
    "net_received ?s = net_received s @ [packet_bytes ?p]" "net_delivered ?s = net_delivered s" "tx_view ?s = tx_view s"
    by (simp_all add: rx_enqueue_def Let_def count_def signal_rx_def signal_def)
  have "rx_inv ?s" unfolding rx_inv_def fields using assms(1,5,6) l ne by (auto simp: rx_inv_def rxq.in_push)
  moreover have queued: "rx_queued ?s = rx_queued s @ [chain_bytes bs]"
    unfolding rx_queued_def fields using rxq.list_push [OF l ne, where q = "net_rx_queue s" and x = ?p] bytes by simp
  moreover have "rx_logged ?s" using assms(2) queued bytes unfolding rx_logged_def fields by simp
  ultimately show ?thesis using fields by simp
qed

text \<open>
  A chain of buffers becomes one packet at the end of the queue, or is dropped when it is
  malformed, too long, not wanted or the queue is full; its buffers are released in every case.
\<close>

lemma receive_complete_ok:
  assumes "rx_inv s" "rx_logged s"
  shows "rx_inv (receive_complete bs s)" "rx_logged (receive_complete bs s)"
    "tx_view (receive_complete bs s) = tx_view s" "net_delivered (receive_complete bs s) = net_delivered s"
    "rx_queued (receive_complete bs s) =
       (if rx_total 0 bs \<noteq> 0 \<and> rx_total 0 bs \<le> LUNA_NET_PACKET_SIZE \<and> net_child_active s \<and> \<not> rx_queue_full s
        then rx_queued s @ [chain_bytes bs] else rx_queued s)"
proof -
  let ?ok = "rx_total 0 bs \<noteq> 0 \<and> rx_total 0 bs \<le> LUNA_NET_PACKET_SIZE \<and> net_child_active s"
  let ?s = "if ?ok \<and> \<not> rx_queue_full s then rx_enqueue (rx_total 0 bs) bs s
    else if ?ok then count (nc_rx_drops_update plus_one) (record_rx_backpressure s) else s"
  have eq: "receive_complete bs s = ?s\<lparr>net_rx_dma := rx_release bs (net_rx_dma ?s)\<rparr>"
    unfolding receive_complete_def Let_def by simp
  have v: "rx_view (receive_complete bs s) = rx_view ?s" "tx_view (receive_complete bs s) = tx_view ?s"
    unfolding eq by (simp_all only: view_frame)
  have "rx_inv ?s \<and> rx_logged ?s \<and> tx_view ?s = tx_view s \<and> net_delivered ?s = net_delivered s \<and>
     rx_queued ?s = (if ?ok \<and> \<not> rx_queue_full s then rx_queued s @ [chain_bytes bs] else rx_queued s)"
  proof (cases "?ok \<and> \<not> rx_queue_full s")
    case True
    then show ?thesis using rx_enqueue_ok [OF assms, of bs "rx_total 0 bs"] by simp
  next
    case False
    then have "rx_view ?s = rx_view s" "tx_view ?s = tx_view s" by auto
    then show ?thesis using assms rx_view_cong [of ?s s] False by (simp add: rx_view_def)
  qed
  moreover have "net_delivered (receive_complete bs s) = net_delivered ?s" using v(1) by (simp add: rx_view_def)
  ultimately show "rx_inv (receive_complete bs s)" "rx_logged (receive_complete bs s)"
    "tx_view (receive_complete bs s) = tx_view s" "net_delivered (receive_complete bs s) = net_delivered s"
    "rx_queued (receive_complete bs s) = (if rx_total 0 bs \<noteq> 0 \<and> rx_total 0 bs \<le> LUNA_NET_PACKET_SIZE \<and> net_child_active s \<and> \<not> rx_queue_full s
        then rx_queued s @ [chain_bytes bs] else rx_queued s)"
    using rx_view_cong [OF v(1)] v(2) by simp_all
qed

section \<open>Fetching packets\<close>

text \<open>The packet lies in slot \<open>k\<close> of the window with its length in the header.\<close>

definition rx_slot_holds :: "'d luna_network_state \<Rightarrow> nat \<Rightarrow> u8 list \<Rightarrow> bool" where
  "rx_slot_holds s k p \<longleftrightarrow> rx_lengths (net_header s) k = of_nat (length p) \<and>
     slice (net_window s) (LUNA_NET_RX_OFFSET + k * LUNA_NET_PACKET_SIZE) (length p) = p"

text \<open>What the copying loop leaves alone.\<close>

definition rx_rest where
  "rx_rest s = (tx_view s, net_rx_head s, net_rx_tail s, net_received s, net_child_active s,
     (net_header s)\<lparr>rx_lengths := (\<lambda>_. 0)\<rparr>, net_counters s)"

lemma rx_fetch_ok:
  assumes "h < RXN" "t < RXN"
    and "\<forall>p < RXN. ring_in RXN h t p \<longrightarrow> 0 < pk_length (net_rx_queue s p) \<and> pk_length (net_rx_queue s p) \<le> LUNA_NET_PACKET_SIZE"
    and L: "L = map packet_bytes (ring_list RXN (net_rx_queue s) h t)" and m: "m = min k (ring_used RXN h t)"
    and held: "\<forall>j < n. rx_slot_holds s j (D j)" "\<forall>j < n. length (D j) \<le> LUNA_NET_PACKET_SIZE"
  shows "\<exists>t' s'. rx_fetch k h t n s = ((True, t', n + m), s') \<and> t' < RXN \<and> rx_rest s' = rx_rest s \<and>
    (\<forall>p < RXN. ring_in RXN h t' p \<longrightarrow> 0 < pk_length (net_rx_queue s' p) \<and> pk_length (net_rx_queue s' p) \<le> LUNA_NET_PACKET_SIZE) \<and>
    map packet_bytes (ring_list RXN (net_rx_queue s') h t') = drop m L \<and> net_delivered s' = net_delivered s @ take m L \<and>
    (\<forall>j < n. rx_slot_holds s' j (D j)) \<and> (\<forall>j < m. rx_slot_holds s' (n + j) (L ! j))"
  using assms
proof (induction k arbitrary: t n s L m D)
  case 0
  then show ?case by simp
next
  case (Suc k)
  show ?case
  proof (cases "t = h")
    case True
    then show ?thesis using Suc.prems by simp
  next
    case False
    then have ht: "h \<noteq> t" by simp
    let ?p = "net_rx_queue s t" let ?len = "pk_length ?p" let ?t = "ring_next RXN t"
    let ?s = "s\<lparr>net_window := memcpy_at (net_window s) (LUNA_NET_RX_OFFSET + n * LUNA_NET_PACKET_SIZE) (pk_data ?p) 0 ?len,
       net_header := (net_header s)\<lparr>rx_lengths := (rx_lengths (net_header s))(n := of_nat ?len)\<rparr>,
       net_rx_queue := (net_rx_queue s)(t := ?p\<lparr>pk_length := 0\<rparr>),
       net_delivered := net_delivered s @ [packet_bytes ?p]\<rparr>"
    let ?L = "map packet_bytes (ring_list RXN (net_rx_queue ?s) h ?t)" and ?m = "min k (ring_used RXN h ?t)"
    let ?D = "D(n := packet_bytes ?p)"
    have len: "0 < ?len" "?len \<le> LUNA_NET_PACKET_SIZE"
      using Suc.prems(3) rxq.in_tail [OF Suc.prems(1,2) ht] Suc.prems(2) by auto
    have step: "rx_fetch (Suc k) h t n s = rx_fetch k h ?t (Suc n) ?s" using False len by (simp add: Let_def)
    have Lc: "L = packet_bytes ?p # ?L"
      using rxq.list_pop [OF Suc.prems(1,2) ht, where q = "net_rx_queue s"]
        rxq.list_clear_tail [OF Suc.prems(1,2) ht, of "net_rx_queue s" "?p\<lparr>pk_length := 0\<rparr>"] Suc.prems(4) by simp
    have mc: "m = Suc ?m" using rxq.used_next_tail [OF Suc.prems(1,2) ht] Suc.prems(5) by simp
    have plen: "length (packet_bytes ?p) = ?len" by (simp add: packet_bytes_def)
    have lens: "\<forall>p < RXN. ring_in RXN h ?t p \<longrightarrow> 0 < pk_length (net_rx_queue ?s p) \<and> pk_length (net_rx_queue ?s p) \<le> LUNA_NET_PACKET_SIZE"
      using Suc.prems(3) rxq.in_pop [OF Suc.prems(1,2) _ ht] by auto
    have slots: "\<forall>j < Suc n. rx_slot_holds ?s j (?D j)"
    proof (intro allI impI)
      fix j assume "j < Suc n"
      then consider "j = n" | "j < n" by linarith
      then show "rx_slot_holds ?s j (?D j)"
      proof cases
        case 1
        then show ?thesis by (simp add: rx_slot_holds_def plen slice_memcpy_same) (simp add: packet_bytes_def)
      next
        case 2
        have le: "length (D j) \<le> LUNA_NET_PACKET_SIZE" using Suc.prems(7) 2 by blast
        have "Suc j * LUNA_NET_PACKET_SIZE \<le> n * LUNA_NET_PACKET_SIZE" using 2 by (intro mult_le_mono1) simp
        then have "j * LUNA_NET_PACKET_SIZE + length (D j) \<le> n * LUNA_NET_PACKET_SIZE" using le by simp
        then show ?thesis using Suc.prems(6) 2 by (simp add: rx_slot_holds_def slice_memcpy_other)
      qed
    qed
    have small: "\<forall>j < Suc n. length (?D j) \<le> LUNA_NET_PACKET_SIZE" using Suc.prems(7) plen len by (simp add: less_Suc_eq)
    from Suc.IH [OF Suc.prems(1) rxq.next_less lens refl refl slots small]
    obtain t' s' where r: "rx_fetch k h ?t (Suc n) ?s = ((True, t', Suc n + ?m), s')" "t' < RXN" "rx_rest s' = rx_rest ?s"
      "\<forall>p < RXN. ring_in RXN h t' p \<longrightarrow> 0 < pk_length (net_rx_queue s' p) \<and> pk_length (net_rx_queue s' p) \<le> LUNA_NET_PACKET_SIZE"
      "map packet_bytes (ring_list RXN (net_rx_queue s') h t') = drop ?m ?L" "net_delivered s' = net_delivered ?s @ take ?m ?L"
      "\<forall>j < Suc n. rx_slot_holds s' j (?D j)" "\<forall>j < ?m. rx_slot_holds s' (Suc n + j) (?L ! j)" by blast
    have "rx_rest ?s = rx_rest s" by (simp add: rx_rest_def)
    moreover have "\<forall>j < n. rx_slot_holds s' j (D j)"
    proof (intro allI impI)
      fix j assume "j < n"
      then show "rx_slot_holds s' j (D j)" using r(7) [rule_format, of j] by simp
    qed
    moreover have "\<forall>j < m. rx_slot_holds s' (n + j) (L ! j)"
    proof (intro allI impI)
      fix j assume "j < m"
      then show "rx_slot_holds s' (n + j) (L ! j)"
        using r(7) [rule_format, of n] r(8) [rule_format, of "j - 1"] unfolding Lc mc by (cases j) auto
    qed
    ultimately show ?thesis using r step Lc mc by simp
  qed
qed

lemma service_rx_batch_ok:
  assumes "rx_inv s" "rx_logged s" and n: "n = min (unat requested) (length (rx_queued s))"
  shows "rx_inv (snd (service_rx_batch requested s)) \<and> rx_logged (snd (service_rx_batch requested s)) \<and>
    tx_view (snd (service_rx_batch requested s)) = tx_view s \<and>
    (if requested = 0 \<or> unat requested > LUNA_NET_BATCH_SLOTS
     then fst (service_rx_batch requested s) = (-1, 0) \<and> rx_view (snd (service_rx_batch requested s)) = rx_view s
     else fst (service_rx_batch requested s) = (0, of_nat n) \<and>
       net_delivered (snd (service_rx_batch requested s)) = net_delivered s @ take n (rx_queued s) \<and>
       rx_queued (snd (service_rx_batch requested s)) = drop n (rx_queued s) \<and>
       (\<forall>k < n. rx_slot_holds (snd (service_rx_batch requested s)) k (rx_queued s ! k)) \<and>
       rx_count (net_header (snd (service_rx_batch requested s))) = of_nat n \<and>
       rx_consumed (net_header (snd (service_rx_batch requested s))) = rx_consumed (net_header s) + of_nat n \<and>
       rx_produced (net_header (snd (service_rx_batch requested s))) = rx_produced (net_header s))"
proof -
  let ?s = "count (nc_rx_endpoint_requests_update plus_one) s"
  let ?L = "rx_queued s" and ?h = "net_rx_head s" and ?t = "net_rx_tail s"
  have l: "?h < RXN" "?t < RXN"
    and lens: "\<forall>p < RXN. ring_in RXN ?h ?t p \<longrightarrow> 0 < pk_length (net_rx_queue s p) \<and> pk_length (net_rx_queue s p) \<le> LUNA_NET_PACKET_SIZE"
    using assms(1) by (auto simp: rx_inv_def)
  have len: "length ?L = ring_used RXN ?h ?t" by (simp add: rx_queued_def)
  consider (bad) "requested = 0 \<or> unat requested > LUNA_NET_BATCH_SLOTS"
    | (empty) "\<not> (requested = 0 \<or> unat requested > LUNA_NET_BATCH_SLOTS)" "?t = ?h"
    | (some) "\<not> (requested = 0 \<or> unat requested > LUNA_NET_BATCH_SLOTS)" "?t \<noteq> ?h" by blast
  then show ?thesis
  proof cases
    case bad
    then have "service_rx_batch requested s = ((-1, 0), ?s)" by (simp add: service_rx_batch_def Let_def)
    then show ?thesis using bad assms rx_view_cong [of ?s s] by auto
  next
    case empty
    then have n0: "n = 0" "?L = []" using l len n by simp_all
    let ?s1 = "(count (nc_rx_empty_fetches_update plus_one) ?s)\<lparr>net_header := (net_header s)\<lparr>rx_count := 0\<rparr>\<rparr>"
    have eq: "service_rx_batch requested s = ((0, 0), ?s1)"
      using empty by (simp add: service_rx_batch_def Let_def count_def)
    have v: "rx_view ?s1 = rx_view s" "tx_view ?s1 = tx_view s" by simp_all
    have "net_delivered ?s1 = net_delivered s" using v(1) by (simp add: rx_view_def)
    then show ?thesis unfolding eq using empty assms rx_view_cong [OF v(1)] v(2) n0 by simp
  next
    case some
    have cs: "net_rx_queue ?s = net_rx_queue s" "net_rx_head ?s = ?h" "net_rx_tail ?s = ?t" "net_delivered ?s = net_delivered s"
      "net_header ?s = net_header s" "net_received ?s = net_received s"
      by (simp_all add: count_def)
    have "\<forall>p < RXN. ring_in RXN ?h ?t p \<longrightarrow> 0 < pk_length (net_rx_queue ?s p) \<and> pk_length (net_rx_queue ?s p) \<le> LUNA_NET_PACKET_SIZE"
      using lens by (simp add: cs)
    from rx_fetch_ok [OF l this, of ?L n "unat requested" 0 "\<lambda>_. []"] n len
    obtain t' s' where r: "rx_fetch (unat requested) ?h ?t 0 ?s = ((True, t', n), s')" "t' < RXN" "rx_rest s' = rx_rest ?s"
      "\<forall>p < RXN. ring_in RXN ?h t' p \<longrightarrow> 0 < pk_length (net_rx_queue s' p) \<and> pk_length (net_rx_queue s' p) \<le> LUNA_NET_PACKET_SIZE"
      "map packet_bytes (ring_list RXN (net_rx_queue s') ?h t') = drop n ?L" "net_delivered s' = net_delivered s @ take n ?L"
      "\<forall>j < n. rx_slot_holds s' j (?L ! j)" unfolding cs rx_queued_def by auto
    define s2 where "s2 = snd (service_rx_batch requested s)"
    define s3 where "s3 = s'\<lparr>net_header := (net_header s')\<lparr>rx_count := of_nat n, rx_consumed := rx_consumed (net_header s') + of_nat n\<rparr>,
      net_rx_tail := t', net_backpressure_active := False\<rparr>"
    have eq: "service_rx_batch requested s = ((0, of_nat n), s2)" and
      s2: "s2 = count (nc_rx_shared_copies_update (\<lambda>x. x + of_nat n)) (count (nc_rx_endpoint_packets_update (\<lambda>x. x + of_nat n))
        (count (nc_rx_endpoint_batches_update plus_one) s3))"
      using some r(1) unfolding s2_def s3_def by (simp_all add: service_rx_batch_def Let_def cs)
    have f: "net_rx_queue s2 = net_rx_queue s'" "net_rx_head s2 = ?h" "net_rx_tail s2 = t'" "net_received s2 = net_received s"
      "net_delivered s2 = net_delivered s @ take n ?L" "tx_view s2 = tx_view s" "net_header s2 = net_header s3" "net_window s2 = net_window s'"
      using r(3,6) cs unfolding s2 s3_def by (simp_all add: count_def rx_rest_def tx_view_def)
    have q: "rx_queued s2 = drop n ?L" using r(5) by (simp add: rx_queued_def f)
    have "rx_inv s2" using r(2,4) l(1) by (simp add: rx_inv_def f)
    moreover have "rx_logged s2" using assms(2) q by (simp add: rx_logged_def f)
    moreover have "\<forall>k < n. rx_slot_holds s2 k (?L ! k)" using r(7) unfolding rx_slot_holds_def f s3_def by simp
    moreover have "rx_consumed (net_header s') = rx_consumed (net_header s)" "rx_produced (net_header s') = rx_produced (net_header s)"
      using r(3) cs unfolding rx_rest_def by (metis (no_types, lifting) prod.inject luna_net_batch_header.select_convs(6,7)
          luna_net_batch_header.surjective luna_net_batch_header.update_convs(10))+
    then have "rx_count (net_header s2) = of_nat n" "rx_consumed (net_header s2) = rx_consumed (net_header s) + of_nat n"
      "rx_produced (net_header s2) = rx_produced (net_header s)" unfolding f s3_def by simp_all
    ultimately show ?thesis using eq some q f by simp
  qed
qed

section \<open>The service keeps both queues\<close>

definition net_inv :: "'d luna_network_state \<Rightarrow> bool" where
  "net_inv s \<longleftrightarrow> tx_inv s \<and> tx_logged s \<and> rx_inv s \<and> rx_logged s"

lemma net_inv_frame: "tx_view s' = tx_view s \<Longrightarrow> rx_view s' = rx_view s \<Longrightarrow> net_inv s' = net_inv s"
  using tx_view_cong [of s' s] rx_view_cong [of s' s] by (simp add: net_inv_def)

lemma allocate_rx_buffer_view: "tx_view (snd (allocate_rx_buffer E n s)) = tx_view s" "rx_view (snd (allocate_rx_buffer E n s)) = rx_view s"
proof -
  let ?i = "first_index (\<lambda>i. \<not> dma_in_use (net_rx_dma s i)) LUNA_NET_RX_DMA_COUNT"
  obtain virt phys d where dma: "dma_alloc_pin E LUNA_NET_PACKET_SIZE (net_dev s) = ((virt, phys), d)" by (metis prod.collapse)
  consider "n > LUNA_NET_PACKET_SIZE \<or> \<not> net_child_active s \<or> ?i = None"
    | i where "\<not> n > LUNA_NET_PACKET_SIZE" "net_child_active s" "?i = Some i" by fastforce
  then show "tx_view (snd (allocate_rx_buffer E n s)) = tx_view s" "rx_view (snd (allocate_rx_buffer E n s)) = rx_view s"
    by (cases; auto simp: allocate_rx_buffer_def Let_def dma)+
qed

lemma transmit_complete_inv:
  assumes "net_inv s"
  shows "\<exists>s'. transmit_complete i s = Some s' \<and> net_inv s'"
proof -
  have inv: "tx_inv s" "tx_logged s" "rx_inv s" "rx_logged s" using assms by (simp_all add: net_inv_def)
  obtain s' where s': "transmit_complete i s = Some s'" "tx_inv s'" "tx_kept s s'" using transmit_complete_ok [OF inv(1)] by blast
  have "rx_view s' = rx_view s" "tx_logged s'" using s'(3) inv(2) by (simp_all add: tx_kept_def tx_logged_def)
  then show ?thesis using s' inv rx_view_cong [of s' s] by (simp add: net_inv_def)
qed

lemma run_event_inv: "net_inv s \<Longrightarrow> \<exists>s'. run_event E ev s = Some s' \<and> net_inv s'"
proof (cases ev)
  case (Rx_Done bs)
  assume "net_inv s"
  then show ?thesis
    using Rx_Done receive_complete_ok [of s bs] tx_view_cong [of "receive_complete bs s" s] by (simp add: net_inv_def)
next
  case (Rx_Refill n)
  assume "net_inv s"
  then show ?thesis using Rx_Refill net_inv_frame [OF allocate_rx_buffer_view, of E n s] by simp
qed (use transmit_complete_inv in simp)

lemma process_tx_queue_inv:
  assumes "driver_ok E" "net_inv s"
  shows "\<exists>s'. process_tx_queue E s = Some s' \<and> net_inv s'"
proof -
  have inv: "tx_inv s" "tx_logged s" "rx_inv s" "rx_logged s" using assms(2) by (simp_all add: net_inv_def)
  obtain s' where s': "process_tx_queue E s = Some s'" "tx_inv s'" "tx_logged s'" "tx_progress s s'"
    using process_tx_queue_ok [OF assms(1) inv(1,2)] by blast
  have "rx_view s' = rx_view s" using s'(4) by (simp add: tx_progress_def)
  then show ?thesis using s' inv rx_view_cong [of s' s] by (simp add: net_inv_def)
qed

lemma respond_tx_view [simp]: "tx_view (respond_tx E a b s) = tx_view s" "rx_view (respond_tx E a b s) = rx_view s"
  by (simp_all add: respond_tx_def Let_def)

lemma service_tx_batch_inv:
  assumes "calm C" "net_inv s"
  shows "\<exists>r s'. service_tx_batch C n s = Some (r, s') \<and> net_inv s'"
proof -
  from service_tx_batch_ok [OF _ _ assms(1) refl, of s n] assms(2)
  obtain e r s' where "service_tx_batch C n s = Some ((e, r), s')" "tx_inv s'" "tx_logged s'" "rx_view s' = rx_view s"
    by (auto simp: net_inv_def)
  then show ?thesis using rx_view_cong [of s' s] assms(2) by (auto simp: net_inv_def)
qed

lemma service_tx_notification_inv:
  assumes "calm C" "net_inv s"
  shows "\<exists>s'. service_tx_notification E C s = Some s' \<and> net_inv s'"
proof (cases "\<not> net_child_active s \<or> \<not> tx_response_pending s")
  case True
  then show ?thesis using assms(2) by (auto simp: service_tx_notification_def)
next
  case False
  obtain e a s1 where s1: "service_tx_batch C (tx_count (net_header s)) s = Some ((e, a), s1)" "net_inv s1"
    using service_tx_batch_inv [OF assms, of "tx_count (net_header s)"] by auto
  have "net_inv (signal c (respond_tx E x y s1))" for c x y
    using s1(2) net_inv_frame [of "signal c (respond_tx E x y s1)" s1] by simp
  then show ?thesis using False s1 by (simp add: service_tx_notification_def Let_def)
qed

lemma record_inv [simp]:
  "net_inv (count f s) = net_inv s" "net_inv (signal c s) = net_inv s" "net_inv (record_rx_backpressure s) = net_inv s"
  "net_inv (record_irq_packets n s) = net_inv s" "net_inv (record_coalesced n s) = net_inv s"
  "net_inv (record_exhausted b s) = net_inv s" "net_inv (tx_idle_signal s) = net_inv s" "net_inv (signal_rx s) = net_inv s"
  "net_inv (put_header H s) = net_inv s" "net_inv (respond_tx E u v s) = net_inv s"
  by (rule net_inv_frame; simp add: record_irq_packets_def record_coalesced_def record_exhausted_def)+

lemma field_inv [simp]:
  "net_inv (s\<lparr>net_dev := d\<rparr>) = net_inv s" "net_inv (s\<lparr>net_header := H\<rparr>) = net_inv s" "net_inv (s\<lparr>net_window := w\<rparr>) = net_inv s"
  "net_inv (s\<lparr>net_poll_in_driver := b\<rparr>) = net_inv s" "net_inv (s\<lparr>net_backpressure_active := b\<rparr>) = net_inv s"
  "net_inv (s\<lparr>net_notification_masked := b\<rparr>) = net_inv s" "net_inv (s\<lparr>net_tx_stress_gate := b\<rparr>) = net_inv s"
  "net_inv (s\<lparr>net_child_active := b\<rparr>) = net_inv s" "net_inv (s\<lparr>net_irq_mode := b\<rparr>) = net_inv s"
  by (rule net_inv_frame; simp)+

lemma timeout_retry_inv [simp]: "net_inv (service_tx_timeout_retry E s) = net_inv s"
  by (simp add: service_tx_timeout_retry_def Let_def)

section \<open>What the poll thread keeps\<close>

text \<open>
  The poll thread is a composition of driver callbacks, the transmit loop, the child's
  notification and statistics. Whatever those keep, every iteration keeps.
\<close>

definition net_frame :: "'d luna_network_state \<Rightarrow> 'd luna_network_state \<Rightarrow> bool" where
  "net_frame s' s \<longleftrightarrow> tx_view s' = tx_view s \<and> rx_view s' = rx_view s \<and> net_child_active s' = net_child_active s \<and>
     net_header s' = net_header s \<and> net_window s' = net_window s"

lemma net_frame_ops [simp]:
  "net_frame (count f s) s" "net_frame (signal c s) s" "net_frame (record_rx_backpressure s) s"
  "net_frame (record_irq_packets n s) s" "net_frame (record_coalesced n s) s" "net_frame (record_exhausted b s) s"
  "net_frame (tx_idle_signal s) s"
  "net_frame (s\<lparr>net_dev := d\<rparr>) s" "net_frame (s\<lparr>net_poll_in_driver := b\<rparr>) s" "net_frame (s\<lparr>net_backpressure_active := b\<rparr>) s"
  by (simp_all add: net_frame_def record_irq_packets_def record_coalesced_def record_exhausted_def)
    (simp_all add: count_def signal_def record_rx_backpressure_def tx_idle_signal_def)

locale net_preserved =
  fixes E :: "'d net_env" and C :: interference and P :: "'d luna_network_state \<Rightarrow> bool"
  assumes frame: "net_frame s' s \<Longrightarrow> P s' = P s"
    and event: "P s \<Longrightarrow> \<exists>s'. run_event E ev s = Some s' \<and> P s'"
    and process: "P s \<Longrightarrow> \<exists>s'. process_tx_queue E s = Some s' \<and> P s'"
    and notify: "P s \<Longrightarrow> \<exists>s'. service_tx_notification E C s = Some s' \<and> P s'"
    and retry: "P s \<Longrightarrow> tx_response_pending s \<Longrightarrow> P (service_tx_timeout_retry E s)"
begin

lemma ops [simp]:
  "P (count f s) = P s" "P (signal c s) = P s" "P (record_rx_backpressure s) = P s"
  "P (record_irq_packets n s) = P s" "P (record_coalesced n s) = P s" "P (record_exhausted b s) = P s"
  "P (tx_idle_signal s) = P s"
  "P (s\<lparr>net_dev := d\<rparr>) = P s" "P (s\<lparr>net_poll_in_driver := b\<rparr>) = P s" "P (s\<lparr>net_backpressure_active := b\<rparr>) = P s"
  by (rule frame; simp)+

lemma run_events: "P s \<Longrightarrow> \<exists>s'. run_events E evs s = Some s' \<and> P s'"
proof (induction evs arbitrary: s)
  case (Cons ev evs)
  then show ?case using event [OF Cons.prems, of ev] by auto
qed simp

lemma poll_budget: "P s \<Longrightarrow> \<exists>r s'. network_poll_budget E s = Some (r, s') \<and> P s'"
proof -
  assume p: "P s"
  obtain evs processed again d where raw: "raw_poll_budget E LUNA_NET_INTX_BUDGET (net_dev s) = ((evs, processed, again), d)"
    by (metis prod.collapse)
  show ?thesis using run_events [of "s\<lparr>net_dev := d\<rparr>" evs] p raw by (auto simp: network_poll_budget_def)
qed

lemma push: "P s \<Longrightarrow> \<exists>s'. push_tx E C s = Some s' \<and> P s'"
proof -
  assume "P s"
  then obtain s1 where s1: "process_tx_queue E s = Some s1" "P s1" using process by blast
  then obtain s2 where s2: "service_tx_notification E C s1 = Some s2" "P s2" using notify by blast
  show ?thesis using process [OF s2(2)] s1(1) s2(1) by (auto simp: push_tx_def)
qed

lemma recheck: "P s \<Longrightarrow> \<exists>r s'. poll_recheck E C again timer s = Some (r, s') \<and> P s'"
proof -
  assume "P s"
  then obtain n b s1 where s1: "network_poll_budget E s = Some ((n, b), s1)" "P s1" using poll_budget by fastforce
  let ?s = "record_exhausted b (record_coalesced n (count (nc_irq_kick_polls_update plus_one) s1))"
  obtain s2 where s2: "push_tx E C ?s = Some s2" "P s2" using push [of ?s] s1(2) by auto
  then show ?thesis using s1(1) retry [OF s2(2)] by (auto simp: poll_recheck_def Let_def split: prod.splits)
qed

lemma round: "P s \<Longrightarrow> \<exists>r s'. poll_round E C irq first timer s = Some (r, s') \<and> P s'"
proof -
  assume p: "P s"
  let ?s0 = "if net_child_active s \<and> rx_queue_full s then record_rx_backpressure s else s"
  have "P ?s0" using p by simp
  then obtain n b s1 where s1: "network_poll_budget E ?s0 = Some ((n, b), s1)" "P s1" using poll_budget by fastforce
  let ?c = "count (nc_irq_kick_polls_update plus_one) s1"
  let ?s = "record_exhausted b (if irq \<and> first then record_irq_packets n ?c else record_coalesced n ?c)"
  have "P ?s" using s1(2) by simp
  then obtain s2 where s2: "push_tx E C ?s = Some s2" "P s2" using push by blast
  then show ?thesis using s1(1) recheck [OF s2(2)] by (auto simp: poll_round_def Let_def)
qed

lemma rounds: "P s \<Longrightarrow> poll_rounds E C n irq first timer s = Some s' \<Longrightarrow> P s'"
proof (induction n arbitrary: first timer s)
  case (Suc n)
  obtain again timer' s1 where "poll_round E C irq first timer s = Some ((again, timer'), s1)" "P s1"
    using round [OF Suc.prems(1)] by (metis surj_pair)
  then show ?case using Suc by (auto split: if_splits)
qed simp

lemma fallback: "P s \<Longrightarrow> poll_fallback_iteration E C s = Some s' \<Longrightarrow> P s'"
proof (cases "\<not> net_child_active s \<and> net_tx_pending s = 0 \<and> tx_queue_empty s")
  case True
  assume "P s" "poll_fallback_iteration E C s = Some s'"
  then show ?thesis using True by (simp add: poll_fallback_iteration_def)
next
  case busy: False
  assume p: "P s" "poll_fallback_iteration E C s = Some s'"
  obtain s1 where s1: "push_tx E C (s\<lparr>net_poll_in_driver := True\<rparr>) = Some s1" "P s1"
    using push [of "s\<lparr>net_poll_in_driver := True\<rparr>"] p(1) by auto
  obtain evs d where raw: "raw_poll E (net_dev s1) = (evs, d)" by (metis prod.collapse)
  let ?s2 = "if net_child_active s1 \<and> \<not> (net_child_active s1 \<and> rx_queue_full s1) then s1\<lparr>net_backpressure_active := False\<rparr> else s1"
  have dev: "net_dev ?s2 = net_dev s1" by simp
  have "P (?s2\<lparr>net_dev := d\<rparr>)" using s1(2) by simp
  from run_events [OF this, of evs]
  obtain s3 where s3: "run_events E evs (?s2\<lparr>net_dev := d\<rparr>) = Some s3" "P s3" by blast
  have "s' = (record_rx_backpressure s1)\<lparr>net_poll_in_driver := False\<rparr> \<or>
      s' = signal (net_tx_idle_ntfn ?s2) (?s2\<lparr>net_poll_in_driver := False\<rparr>) \<or> s' = ?s2\<lparr>net_poll_in_driver := False\<rparr> \<or>
      s' = (count (nc_fallback_polls_update plus_one) s3)\<lparr>net_poll_in_driver := False\<rparr>"
    using p(2) busy s1(1) raw s3(1) dev by (simp add: poll_fallback_iteration_def Let_def split: if_splits)
  then show ?thesis using s1(2) s3(2) by (elim disjE) simp_all
qed

lemma iteration: "P s \<Longrightarrow> network_poll_iteration E C n badge s = Some s' \<Longrightarrow> P s'"
proof (cases "net_irq_mode s")
  case True
  assume p: "P s" "network_poll_iteration E C n badge s = Some s'"
  let ?a = "s\<lparr>net_poll_in_driver := True\<rparr>"
  let ?s = "if and badge LUNA_NET_IRQ_BADGE \<noteq> 0 then signal (net_irq_done_ntfn ?a) (count (nc_irq_count_update plus_one)
     (?a\<lparr>net_dev := raw_ack_irq E (net_irq_line ?a) (net_dev ?a)\<rparr>)) else ?a"
  obtain s1 where "poll_rounds E C n (and badge LUNA_NET_IRQ_BADGE \<noteq> 0) True (and badge LUNA_NET_TIMER_BADGE \<noteq> 0) ?s = Some s1"
    "s' = tx_idle_signal (s1\<lparr>net_poll_in_driver := False\<rparr>)"
    using p(2) True unfolding network_poll_iteration_def poll_irq_iteration_def Let_def by auto
  moreover have "P ?s" using p(1) by simp
  ultimately show ?thesis using rounds by auto
qed (use fallback in \<open>auto simp: network_poll_iteration_def\<close>)

end

text \<open>The invariant of the queues is kept, under a driver that keeps its contract.\<close>

interpretation net_ok: net_preserved E C "\<lambda>s. driver_ok E \<and> calm C \<and> net_inv s"
proof
  fix s s' :: "'a luna_network_state" and ev
  show "net_frame s' s \<Longrightarrow> (driver_ok E \<and> calm C \<and> net_inv s') = (driver_ok E \<and> calm C \<and> net_inv s)"
    using net_inv_frame by (auto simp: net_frame_def)
  show "driver_ok E \<and> calm C \<and> net_inv s \<Longrightarrow> \<exists>s'. run_event E ev s = Some s' \<and> driver_ok E \<and> calm C \<and> net_inv s'"
    using run_event_inv [of s E ev] by auto
  show "driver_ok E \<and> calm C \<and> net_inv s \<Longrightarrow> \<exists>s'. process_tx_queue E s = Some s' \<and> driver_ok E \<and> calm C \<and> net_inv s'"
    using process_tx_queue_inv [of E s] by auto
  show "driver_ok E \<and> calm C \<and> net_inv s \<Longrightarrow> \<exists>s'. service_tx_notification E C s = Some s' \<and> driver_ok E \<and> calm C \<and> net_inv s'"
    using service_tx_notification_inv [of C s E] by auto
  show "driver_ok E \<and> calm C \<and> net_inv s \<Longrightarrow> driver_ok E \<and> calm C \<and> net_inv (service_tx_timeout_retry E s)"
    by simp
qed

section \<open>Requests\<close>

lemma service_control_inv [simp]: "net_inv (snd (service_control control s)) = net_inv s"
  by (simp add: service_control_def Let_def)

lemma service_tx_stress_inv: "service_tx_stress control s = Some (e, s') \<Longrightarrow> net_inv s' = net_inv s"
  by (auto simp: service_tx_stress_def Let_def split: if_splits)

lemma service_rx_batch_inv: "net_inv s \<Longrightarrow> net_inv (snd (service_rx_batch n s))"
  using service_rx_batch_ok [OF _ _ refl, of s n] tx_view_cong [of "snd (service_rx_batch n s)" s] by (simp add: net_inv_def)

lemma service_rx_inv: "net_inv s \<Longrightarrow> net_inv (snd (service_rx s))"
  using service_rx_batch_inv [of s 1] by (auto simp: service_rx_def Let_def split: prod.splits)

lemma service_tx_inv:
  assumes "calm C" "net_inv s"
  shows "\<exists>e s'. service_tx C n s = Some (e, s') \<and> net_inv s'"
proof -
  let ?H = "(net_header s)\<lparr>tx_count := 1, tx_lengths := (tx_lengths (net_header s))(0 := n)\<rparr>"
  obtain e a s' where "service_tx_batch C 1 (put_header ?H s) = Some ((e, a), s')" "net_inv s'"
    using service_tx_batch_inv [OF assms(1), of "put_header ?H s" 1] assms(2) by auto
  then show ?thesis using assms(2) by (auto simp: service_tx_def Let_def)
qed

text \<open>Every request is answered, except that the stress gate waits for the queue to drain.\<close>

lemma net_dispatch_inv:
  assumes "calm C" "net_inv s"
  shows "(\<exists>e r s'. net_dispatch C ev n s = Some ((e, r), s') \<and> net_inv s') \<or>
    net_dispatch C ev n s = None \<and> ev = event_word LUNA_ISOLATION_EVENT_NET_TX_STRESS \<and> n = 1 \<and> \<not> tx_quiet s"
proof (cases "service_tx_stress n s")
  case None
  then have blocked: "\<not> n > 1" "n \<noteq> 0" "\<not> tx_quiet s" by (auto simp: service_tx_stress_def Let_def split: if_splits)
  then have "n = 1" using word_le_less_eq [of n 1] by (simp add: not_less word_less_1)
  with None blocked service_tx_inv [OF assms, of n] service_tx_batch_inv [OF assms, of n] service_rx_inv [OF assms(2)]
    service_rx_batch_inv [OF assms(2), of n] assms(2) service_control_inv [of n s]
  show ?thesis
    by (cases "service_control n s"; cases "service_rx s"; cases "service_rx_batch n s") (auto simp: net_dispatch_def Let_def)
next
  case (Some r)
  then obtain e s' where stress: "service_tx_stress n s = Some (e, s')" "net_inv s'"
    using assms(2) service_tx_stress_inv by (cases r) blast
  have "net_inv (snd (service_control n s))" using assms(2) by simp
  with stress service_tx_inv [OF assms, of n] service_tx_batch_inv [OF assms, of n] service_rx_inv [OF assms(2)]
    service_rx_batch_inv [OF assms(2), of n] assms(2)
  show ?thesis
    by (cases "service_control n s"; cases "service_rx s"; cases "service_rx_batch n s") (auto simp: net_dispatch_def Let_def)
qed

lemma tx_ring_empty:
  assumes "p < TXN" "\<forall>i < DMAN. \<not> U i"
  shows "tx_ring_ok q U Q p p p"
  using assms by (simp add: tx_ring_ok_def tx_range_def tx_owned_def)

lemma map_child_reset_inv: "net_inv (map_child_reset activate s)"
proof -
  let ?s = "map_child_reset activate s"
  have zero: "0 < TXN" "0 < RXN" by (simp_all add: luna_consts)
  have f: "net_tx_head ?s = 0" "net_tx_tail ?s = 0" "net_tx_submit ?s = 0" "net_tx_pending ?s = 0" "net_rx_head ?s = 0"
    "net_rx_tail ?s = 0" "net_accepted ?s = []" "net_sent ?s = []" "net_received ?s = []" "net_delivered ?s = []"
    "\<forall>i < DMAN. \<not> tx_busy ?s i"
    by (simp_all add: map_child_reset_def Let_def signal_def)
  have c: "count_below (tx_busy ?s) DMAN = 0" using f(11) by simp
  have "tx_inv ?s" unfolding tx_inv_def f c using tx_ring_empty [OF zero(1) f(11)] by simp
  moreover have "tx_logged ?s" "rx_logged ?s" "rx_inv ?s"
    using zero by (simp_all add: tx_logged_def tx_waiting_def rx_logged_def rx_queued_def rx_inv_def f)
  ultimately show ?thesis by (simp add: net_inv_def)
qed

lemma deactivate_inv: "net_inv s \<Longrightarrow> net_inv (deactivate_begin s)" "net_inv s \<Longrightarrow> net_inv (deactivate_finish E s)"
proof -
  assume inv: "net_inv s"
  show "net_inv (deactivate_begin s)" using inv by (simp add: deactivate_begin_def)
  let ?s = "deactivate_finish E s"
  have "tx_view ?s = tx_view s" by (simp add: deactivate_finish_def Let_def)
  moreover have "rx_inv ?s" "rx_logged ?s"
    by (simp_all add: deactivate_finish_def Let_def signal_def rx_inv_def rx_logged_def rx_queued_def luna_consts ring32.in_self
        ring32.list_empty)
  ultimately show "net_inv ?s" using inv tx_view_cong [of ?s s] by (simp add: net_inv_def)
qed

section \<open>Runs of the service\<close>

text \<open>
  Between the steps of the manager the child writes whatever it likes into the shared window;
  only while the manager copies a batch are its lengths assumed to stay.
\<close>

inductive net_reachable :: "'d net_env \<Rightarrow> 'd luna_network_state \<Rightarrow> bool" for E where
  net_attach: "net_reachable E (map_child_reset activate s)"
| net_child: "net_reachable E s \<Longrightarrow> net_reachable E (s\<lparr>net_header := H, net_window := w\<rparr>)"
| net_request: "net_reachable E s \<Longrightarrow> calm C \<Longrightarrow> luna_network_service C ev n s = Some (m, e, s') \<Longrightarrow> net_reachable E s'"
| net_poll: "net_reachable E s \<Longrightarrow> calm C \<Longrightarrow> network_poll_iteration E C n badge s = Some s' \<Longrightarrow> net_reachable E s'"
| net_irq: "net_reachable E s \<Longrightarrow> net_reachable E (network_irq_step ok s)"
| net_detach: "net_reachable E s \<Longrightarrow> net_reachable E (deactivate_begin s)"
| net_detached: "net_reachable E s \<Longrightarrow> tx_quiet s \<Longrightarrow> net_reachable E (deactivate_finish E s)"

lemma luna_network_service_inv:
  assumes "calm C" "net_inv s" "luna_network_service C ev n s = Some (m, e, s')"
  shows "net_inv s'"
proof (cases "net_ready s")
  case True
  obtain e' r s1 where d: "net_dispatch C ev n s = Some ((e', r), s1)" "s' = s1"
    using assms(3) True by (auto simp: luna_network_service_def)
  then show ?thesis using net_dispatch_inv [OF assms(1,2), of ev n] by auto
qed (use assms in \<open>auto simp: luna_network_service_def\<close>)

lemma net_reachable_inv: "net_reachable E s \<Longrightarrow> driver_ok E \<Longrightarrow> net_inv s"
proof (induction rule: net_reachable.induct)
  case (net_attach activate s)
  then show ?case by (simp add: map_child_reset_inv)
next
  case (net_request s C ev n m e s')
  then show ?case using luna_network_service_inv [OF net_request.hyps(2) _ net_request.hyps(3)] by simp
next
  case (net_poll s C n badge s')
  then show ?case using net_ok.iteration [OF _ net_poll.hyps(3)] by simp
next
  case (net_irq s ok)
  then show ?case by (simp add: network_irq_step_def Let_def)
qed (simp_all add: deactivate_inv)

section \<open>Properties\<close>


text \<open>
  The transmit loop terminates. In every reachable state \<open>process_tx_queue\<close> returns within
  the rounds its queue bounds (and so does every round of the poll thread, including the tail-advancing
  loops of the completions the driver reports), and it stops only because the stress gate is
  closed, everything is submitted, every DMA buffer is busy, or the driver refused the packet,
  which stays first in line.
\<close>

theorem process_tx_terminates:
  assumes "driver_ok E" "net_reachable E s" "calm C"
  shows "(\<exists>s'. process_tx_queue E s = Some s' \<and> net_accepted s' = net_accepted s \<and>
      net_accepted s' = net_sent s' @ tx_waiting s' \<and> (\<exists>ps. net_sent s' = net_sent s @ ps) \<and>
      (net_tx_stress_gate s \<or> tx_waiting s' = [] \<or> (\<forall>i < LUNA_NET_TX_DMA_COUNT. dma_in_use (net_tx_dma s' i)) \<or>
       nc_tx_driver_retries (net_counters s') = nc_tx_driver_retries (net_counters s) + 1)) \<and>
    (\<forall>irq first timer. \<exists>again timer' s'. poll_round E C irq first timer s = Some ((again, timer'), s'))"
proof -
  have inv: "net_inv s" by (rule net_reachable_inv [OF assms(2,1)])
  then obtain s' where s': "process_tx_queue E s = Some s'" "tx_inv s'" "tx_logged s'" "tx_progress s s'"
    "net_tx_stress_gate s \<or> net_tx_submit s' = net_tx_head s' \<or> (\<forall>i < DMAN. tx_busy s' i) \<or>
     nc_tx_driver_retries (net_counters s') = nc_tx_driver_retries (net_counters s) + 1"
    using process_tx_queue_ok [OF assms(1), of s] by (auto simp: net_inv_def)
  have "tx_waiting s' = []" if "net_tx_submit s' = net_tx_head s'"
    using that s'(2) by (simp add: tx_waiting_def tx_inv_def tx_ring_ok_def tx_range_def)
  moreover have "\<exists>again timer' s'. poll_round E C irq first timer s = Some ((again, timer'), s')" for irq first timer
    using net_ok.round [of E C s irq first timer] assms inv by (metis surj_pair)
  ultimately show ?thesis using s' by (auto simp: tx_progress_def tx_logged_def)
qed

text \<open>
  A batch from the child is accepted exactly. A request is refused with -1 and leaves the
  queue alone when it is empty, longer than the window, not announced in the header, from an inactive child or
  contains a length that is 0 or exceeds the packet size; otherwise the first packets that fit
  are appended, byte for byte, and their number is the answer (0 when the queue is full).
\<close>

theorem service_tx_batch_correct:
  assumes "driver_ok E" "net_reachable E s" "calm C" "n = min (unat requested) (tx_room s)"
  shows "\<exists>e r s'. service_tx_batch C requested s = Some ((e, r), s') \<and> net_sent s' = net_sent s \<and>
    net_accepted s' = net_sent s' @ tx_waiting s' \<and>
    (if requested = 0 \<or> unat requested > LUNA_NET_BATCH_SLOTS \<or> tx_count (net_header s) \<noteq> requested \<or>
        \<not> net_child_active s \<or> \<not> tx_lengths_valid (net_header s) n
     then e = -1 \<and> r = 0 \<and> net_accepted s' = net_accepted s
     else e = 0 \<and> r = of_nat n \<and>
       net_accepted s' = net_accepted s @ map (tx_slot (net_header s) (net_window s)) [0..<n])"
proof -
  have "tx_inv s" "tx_logged s" using net_reachable_inv [OF assms(2,1)] by (auto simp: net_inv_def)
  from service_tx_batch_ok [OF this assms(3,4)]
  obtain e r s' where s': "service_tx_batch C requested s = Some ((e, r), s')" "tx_logged s'" "net_sent s' = net_sent s"
    "if requested = 0 \<or> unat requested > LUNA_NET_BATCH_SLOTS \<or> tx_count (net_header s) \<noteq> requested \<or>
        \<not> net_child_active s \<or> \<not> tx_lengths_valid (net_header s) n
     then e = -1 \<and> r = 0 \<and> tx_view s' = tx_view s
     else e = 0 \<and> r = of_nat n \<and> net_accepted s' = net_accepted s @ map (tx_slot (net_header s) (net_window s)) [0..<n]"
    by blast
  show ?thesis
    by (rule exI [of _ e], rule exI [of _ r], rule exI [of _ s'])
      (use s' in \<open>auto simp: tx_logged_def tx_view_def split: if_splits\<close>)
qed

text \<open>
  C25: Packets for the child are delivered in order, exactly once and unchanged. The packets queued
  so far are those the child has fetched followed by those in the queue; a completed chain of receive
  buffers appends exactly its bytes, unless it is malformed, too long, unwanted or the queue is full; and a
  fetch moves the oldest packets, as many as asked for and at most sixteen, into the slots of the
  window with their lengths in the header.
\<close>

theorem net_rx_in_order:
  assumes "driver_ok E" "net_reachable E s" "n = min (unat requested) (length (rx_queued s))"
  shows "net_received s = net_delivered s @ rx_queued s \<and>
    rx_queued (receive_complete bs s) =
      (if rx_total 0 bs \<noteq> 0 \<and> rx_total 0 bs \<le> LUNA_NET_PACKET_SIZE \<and> net_child_active s \<and> \<not> rx_queue_full s
       then rx_queued s @ [chain_bytes bs] else rx_queued s) \<and>
    (if requested = 0 \<or> unat requested > LUNA_NET_BATCH_SLOTS
     then fst (service_rx_batch requested s) = (-1, 0) \<and> rx_queued (snd (service_rx_batch requested s)) = rx_queued s
     else fst (service_rx_batch requested s) = (0, of_nat n) \<and>
       net_delivered (snd (service_rx_batch requested s)) = net_delivered s @ take n (rx_queued s) \<and>
       rx_queued (snd (service_rx_batch requested s)) = drop n (rx_queued s) \<and>
       (\<forall>k < n. rx_slot_holds (snd (service_rx_batch requested s)) k (rx_queued s ! k)))"
proof -
  have inv: "rx_inv s" "rx_logged s" using net_reachable_inv [OF assms(2,1)] by (auto simp: net_inv_def)
  show ?thesis
    using inv(2) receive_complete_ok(5) [OF inv, of bs] service_rx_batch_ok [OF inv assms(3)]
      rx_view_cong(3) [of "snd (service_rx_batch requested s)" s]
    by (auto simp: rx_logged_def split: if_splits)
qed

definition net_events :: "luna_isolation_event set" where
  "net_events = {LUNA_ISOLATION_EVENT_NET_TX, LUNA_ISOLATION_EVENT_NET_TX_BATCH, LUNA_ISOLATION_EVENT_NET_RX,
     LUNA_ISOLATION_EVENT_NET_RX_BATCH, LUNA_ISOLATION_EVENT_NET_WAKE, LUNA_ISOLATION_EVENT_NET_CONTROL,
     LUNA_ISOLATION_EVENT_NET_STATS, LUNA_ISOLATION_EVENT_NET_TX_STATS, LUNA_ISOLATION_EVENT_NET_TX_STRESS,
     LUNA_ISOLATION_EVENT_NET_DEBUG}"

lemma net_dispatch_unknown:
  assumes "ev \<notin> event_word ` net_events"
  shows "net_dispatch C ev n s = Some ((-1, 0), s)"
proof -
  have "ev \<noteq> event_word x" if "x \<in> net_events" for x using assms that by blast
  then show ?thesis unfolding net_dispatch_def Let_def net_events_def by (simp del: event_word.simps)
qed

text \<open>
  The manager answers every network request with one \<open>NET_RESULT\<close> message carrying the
  error and the response, whatever the child asks, and blocks only when the stress gate is to be
  closed before the transmit queue has drained; an unknown event, a stray argument or a service that is
  not ready gives -1 and changes nothing, and a refused transmission is not an error of the manager.
\<close>

theorem network_service_answers:
  assumes "driver_ok E" "net_reachable E s" "calm C"
  shows "(luna_network_service C ev n s = None \<longrightarrow>
      ev = event_word LUNA_ISOLATION_EVENT_NET_TX_STRESS \<and> n = 1 \<and> \<not> tx_quiet s) \<and>
    (\<forall>m e s'. luna_network_service C ev n s = Some (m, e, s') \<longrightarrow>
      (\<exists>err r. m = Message 0 0 [command_word LUNA_COMMAND_NET_RESULT, word_of_cint err, r] \<and>
        e = (if err = of_int LUNA_NET_TX_RETRY then 0 else err)) \<and> net_reachable E s') \<and>
    (\<not> net_ready s \<or> ev \<notin> event_word ` net_events \<longrightarrow>
      luna_network_service C ev n s =
        Some (Message 0 0 [command_word LUNA_COMMAND_NET_RESULT, word_of_cint (-1), 0], -1, s))"
proof -
  have inv: "net_inv s" by (rule net_reachable_inv [OF assms(2,1)])
  have retry: "(-1 :: c_int) \<noteq> of_int LUNA_NET_TX_RETRY" by (simp add: luna_consts)
  have "luna_network_service C ev n s = None \<Longrightarrow> net_dispatch C ev n s = None"
    by (auto simp: luna_network_service_def split: if_splits)
  then have "luna_network_service C ev n s = None \<longrightarrow>
      ev = event_word LUNA_ISOLATION_EVENT_NET_TX_STRESS \<and> n = 1 \<and> \<not> tx_quiet s"
    using net_dispatch_inv [OF assms(3) inv, of ev n] by auto
  moreover have "\<exists>err r. m = Message 0 0 [command_word LUNA_COMMAND_NET_RESULT, word_of_cint err, r] \<and>
        e = (if err = of_int LUNA_NET_TX_RETRY then 0 else err)"
    if "luna_network_service C ev n s = Some (m, e, s')" for m e s'
    using that by (auto simp: luna_network_service_def split: if_splits)
  moreover have "net_reachable E s'" if "luna_network_service C ev n s = Some (m, e, s')" for m e s'
    by (rule net_request [OF assms(2,3) that])
  moreover have "luna_network_service C ev n s =
        Some (Message 0 0 [command_word LUNA_COMMAND_NET_RESULT, word_of_cint (-1), 0], -1, s)"
    if "\<not> net_ready s \<or> ev \<notin> event_word ` net_events"
    using that retry net_dispatch_unknown [of ev C n s] by (auto simp: luna_network_service_def)
  ultimately show ?thesis by blast
qed

section \<open>The lengths are read twice\<close>

text \<open>
  A packet of length 0 at the submit index: nothing is in flight, so no completion will move the
  tail, and the transmit loop stops at it.
\<close>

definition jammed :: "'d luna_network_state \<Rightarrow> bool" where
  "jammed s \<longleftrightarrow> \<not> net_child_active s \<and> net_tx_submit s \<noteq> net_tx_head s \<and> net_tx_tail s = net_tx_submit s \<and>
     pk_length (net_tx_queue s (net_tx_submit s)) = 0 \<and> (\<forall>i < LUNA_NET_TX_DMA_COUNT. \<not> dma_in_use (net_tx_dma s i))"

lemma jammed_frame: "tx_view s' = tx_view s \<Longrightarrow> net_child_active s' = net_child_active s \<Longrightarrow> jammed s' = jammed s"
  by (simp add: tx_view_def jammed_def)

lemma receive_complete_active [simp]: "net_child_active (receive_complete bs s) = net_child_active s"
  by (simp add: receive_complete_def rx_enqueue_def Let_def count_def signal_def signal_rx_def record_rx_backpressure_def)

lemma rx_enqueue_view: "tx_view (rx_enqueue n bs s) = tx_view s"
  by (simp add: rx_enqueue_def Let_def)

lemma receive_complete_view: "tx_view (receive_complete bs s) = tx_view s"
  by (simp add: receive_complete_def Let_def rx_enqueue_view)

lemma allocate_rx_buffer_active: "net_child_active (snd (allocate_rx_buffer E n s)) = net_child_active s"
proof -
  let ?i = "first_index (\<lambda>i. \<not> dma_in_use (net_rx_dma s i)) LUNA_NET_RX_DMA_COUNT"
  obtain virt phys d where dma: "dma_alloc_pin E LUNA_NET_PACKET_SIZE (net_dev s) = ((virt, phys), d)" by (metis prod.collapse)
  show ?thesis by (cases ?i) (auto simp: allocate_rx_buffer_def Let_def dma)
qed

interpretation net_jam: net_preserved E C jammed
proof
  fix s s' :: "'a luna_network_state" and ev
  show "net_frame s' s \<Longrightarrow> jammed s' = jammed s" using jammed_frame by (auto simp: net_frame_def)
  show "jammed s \<Longrightarrow> \<exists>s'. run_event E ev s = Some s' \<and> jammed s'"
  proof (cases ev)
    case (Tx_Done i)
    assume j: "jammed s"
    then have "transmit_complete i s = Some s" by (cases "i < DMAN") (auto simp: jammed_def transmit_complete_def Let_def)
    then show ?thesis using j Tx_Done by simp
  next
    case (Rx_Done bs)
    assume "jammed s"
    then show ?thesis using Rx_Done jammed_frame [OF receive_complete_view, of bs s] by simp
  next
    case (Rx_Refill n)
    assume "jammed s"
    then show ?thesis using Rx_Refill jammed_frame [OF allocate_rx_buffer_view(1) allocate_rx_buffer_active, of E n s] by simp
  qed
  show "\<exists>s'. process_tx_queue E s = Some s' \<and> jammed s'" if j: "jammed s"
  proof -
    have "0 < DMAN" "\<not> dma_in_use (net_tx_dma s 0)" using j by (auto simp: jammed_def luna_consts)
    then have "first_index (\<lambda>i. \<not> dma_in_use (net_tx_dma s i)) DMAN = Some 0" by simp
    then have loop: "process_tx_loop E (Suc n) s = Some s" for n using j unfolding jammed_def by (simp add: Let_def)
    have "TXN = Suc 63" by (simp add: luna_consts)
    then have "process_tx_queue E s = Some s" using loop by (metis process_tx_queue_def)
    then show ?thesis using j by blast
  qed
  show "jammed s \<Longrightarrow> \<exists>s'. service_tx_notification E C s = Some s' \<and> jammed s'"
    by (simp add: service_tx_notification_def jammed_def)
  show "jammed s \<Longrightarrow> jammed (service_tx_timeout_retry E s)"
    by (simp add: service_tx_timeout_retry_def jammed_def respond_tx_def count_def signal_def Let_def)
qed

text \<open>Any number of iterations of the poll thread, with any behaviour of device and child.\<close>

inductive net_polls :: "'d net_env \<Rightarrow> 'd luna_network_state \<Rightarrow> 'd luna_network_state \<Rightarrow> bool" for E where
  polls_none: "net_polls E s s"
| polls_more: "net_polls E s s' \<Longrightarrow> network_poll_iteration E C n badge s' = Some s'' \<Longrightarrow> net_polls E s s''"

lemma jammed_polls: "net_polls E s s' \<Longrightarrow> jammed s \<Longrightarrow> jammed s' \<and> \<not> tx_quiet s'"
proof (induction rule: net_polls.induct)
  case (polls_none s)
  then show ?case by (auto simp: jammed_def tx_quiet_def tx_queue_empty_def)
next
  case (polls_more s s' C n badge s'')
  then have "jammed s''" using net_jam.iteration by blast
  then show ?case by (auto simp: jammed_def tx_quiet_def tx_queue_empty_def)
qed

text \<open>The child replaces the first length after it was checked.\<close>

definition rewrite_length :: "u64 \<Rightarrow> interference" where
  "rewrite_length v H = H\<lparr>tx_lengths := (tx_lengths H)(0 := v)\<rparr>"

text \<open>
  C36: The lengths of a batch are not safe against the child. \<open>service_tx_batch\<close> checks
  \<open>tx_lengths\<close> in the shared window and then reads them again to copy: a child that rewrites one
  in between makes the manager copy past the 2048 bytes of a packet (no defined result), or
  queue a packet of length 0; in the second case, when the queue was idle, the manager's
  \<open>luna_network_deactivate_child\<close> waits forever, because no later iteration of the poll thread,
  whatever the device does, makes the queue quiet.
\<close>

theorem tx_lengths_double_fetch:
  assumes "driver_ok E" "net_reachable E s" "net_ready s" "net_child_active s" "tx_quiet s"
    and "tx_count (net_header s) = 1" "tx_lengths_valid (net_header s) 1"
  shows "service_tx_batch (rewrite_length (of_nat (LUNA_NET_PACKET_SIZE + 1))) 1 s = None \<and>
    (\<exists>s'. service_tx_batch (rewrite_length 0) 1 s = Some ((0, 1), s') \<and>
      (\<forall>s''. net_polls E (deactivate_begin s') s'' \<longrightarrow> \<not> tx_quiet s''))"
proof -
  have inv: "tx_inv s" using net_reachable_inv [OF assms(2,1)] by (simp add: net_inv_def)
  have ring: "tx_ring_ok (tx_len s) (tx_busy s) (tx_at s) (net_tx_tail s) (net_tx_submit s) (net_tx_head s)"
    using inv by (simp add: tx_inv_def)
  have idle: "\<forall>i < DMAN. \<not> tx_busy s i" using busy_zero [OF inv] assms(5) by (simp add: tx_quiet_def)
  have eq: "net_tx_tail s = net_tx_submit s" "net_tx_head s = net_tx_submit s" and l: "net_tx_submit s < TXN"
    using tx_drained [OF ring idle] assms(5) ring by (auto simp: tx_quiet_def tx_queue_empty_def tx_ring_ok_def tx_range_def)
  have room: "min (unat (1::u64)) (tx_room s) = 1" using eq l by (simp add: tx_room_def) (simp add: luna_consts)
  have slots: "\<not> unat (1::u64) > LUNA_NET_BATCH_SLOTS" by (simp add: luna_consts)
  have over: "service_tx_batch (rewrite_length (of_nat (LUNA_NET_PACKET_SIZE + 1))) 1 s = None"
    using assms(4,6,7) slots by (simp add: service_tx_batch_eq Let_def room rewrite_length_def del: unat_1 unsigned_1)
      (simp add: luna_consts)
  let ?H = "rewrite_length 0 (net_header s)"
  let ?q = "(net_tx_queue s)(net_tx_head s := \<lparr>pk_length = 0,
     pk_data = memcpy_at (pk_data (net_tx_queue s (net_tx_head s))) 0 (net_window s) LUNA_NET_TX_OFFSET 0\<rparr>)"
  let ?s1 = "put_header ?H (count (nc_tx_endpoint_requests_update plus_one) s)"
  let ?s' = "tx_publish 0 1 (ring_next TXN (net_tx_head s)) ?q (?s1\<lparr>net_accepted := net_accepted s @ map (tx_slot ?H (net_window s)) [0..<1]\<rparr>)"
  have "tx_copy ?H (net_window s) 0 1 (net_tx_head s) (net_tx_queue s) = Some (ring_next TXN (net_tx_head s), ?q)"
    by (simp add: rewrite_length_def)
  moreover have "ring_used TXN (net_tx_head s) (net_tx_tail s) = 0" using eq l by simp
  ultimately have run: "service_tx_batch (rewrite_length 0) 1 s = Some ((0, 1), ?s')"
    using assms(4,6,7) slots by (simp add: service_tx_batch_eq Let_def room del: unat_1 unsigned_1 tx_copy.simps)
  have pub: "net_tx_queue ?s' = ?q" "net_tx_head ?s' = ring_next TXN (net_tx_head s)" "net_tx_tail ?s' = net_tx_tail s"
    "net_tx_submit ?s' = net_tx_submit s" "net_tx_dma ?s' = net_tx_dma s"
    by (simp_all add: put_header_def count_def)
  have "net_ready ?s'" using assms(3)
    by (simp add: tx_publish_def Let_def put_header_def count_def signal_def)
  then have "tx_view (deactivate_begin ?s') = tx_view ?s'" "\<not> net_child_active (deactivate_begin ?s')"
    by (simp_all add: deactivate_begin_def) (simp add: signal_def)
  moreover have "ring_next TXN (net_tx_head s) \<noteq> net_tx_head s" using eq l by simp
  ultimately have jam: "jammed (deactivate_begin ?s')"
    using eq idle pub unfolding jammed_def tx_view_def by simp
  have "\<forall>s''. net_polls E (deactivate_begin ?s') s'' \<longrightarrow> \<not> tx_quiet s''" using jammed_polls jam by blast
  then show ?thesis using over run by blast
qed

section \<open>A sample run\<close>

text \<open>A driver that queues every packet and never reports anything, and a child that submits two packets.\<close>

definition sample_env :: "unit net_env" where
  "sample_env = \<lparr>raw_tx = (\<lambda>b phys p d. (([], ETHIF_TX_ENQUEUED), d)), raw_poll_budget = (\<lambda>n d. (([], 0, False), d)),
     raw_poll = (\<lambda>d. ([], d)), raw_ack_irq = (\<lambda>n d. d), dma_alloc_pin = (\<lambda>n d. ((4096, 4096), d)),
     schedule_network = (\<lambda>c ns d. (0, d)), cancel_network = (\<lambda>d. d)\<rparr>"

definition sample_header :: luna_net_batch_header where
  "sample_header = \<lparr>tx_count = 0, rx_count = 0, tx_request_sequence = 0, tx_response_sequence = 0, tx_accepted = 0,
     rx_produced = 0, rx_consumed = 0, rx_waiting = 0, tx_lengths = (\<lambda>_. 0), rx_lengths = (\<lambda>_. 0)\<rparr>"

definition sample_buffer :: luna_dma_buffer where
  "sample_buffer = \<lparr>dma_virt = 4096, dma_phys = 4096, dma_in_use = False, dma_queue_index = 0\<rparr>"

definition sample_packet :: luna_packet where
  "sample_packet = \<lparr>pk_length = 0, pk_data = (\<lambda>_. 0)\<rparr>"

definition sample_boot :: "unit luna_network_state" where
  "sample_boot = \<lparr>net_dev = (), net_rx_dma = (\<lambda>_. sample_buffer), net_tx_dma = (\<lambda>_. sample_buffer), net_tx_mem = (\<lambda>_ _. 0),
     net_rx_queue = (\<lambda>_. sample_packet), net_tx_queue = (\<lambda>_. sample_packet), net_rx_head = 0, net_rx_tail = 0,
     net_tx_head = 0, net_tx_tail = 0, net_tx_submit = 0, net_tx_pending = 0, net_tx_stress_gate = False,
     net_child_active = False, net_poll_in_driver = False, net_notification_masked = False,
     net_backpressure_active = False, net_counters = zero_counters, net_header = sample_header, net_window = (\<lambda>_. 0),
     net_rx_ntfn = 10, net_tx_ntfn = 11, net_tx_idle_ntfn = 12, net_poll_kick_ntfn = 13, net_irq_done_ntfn = 14,
     net_irq_badged_ntfn = 15, net_timer_badged_ntfn = 16, net_irq_line = 11, net_irq_mode = True, net_ready = True,
     net_log = [], net_accepted = [], net_sent = [], net_received = [], net_delivered = []\<rparr>"

definition sample_written :: "unit luna_network_state" where
  "sample_written = (map_child_reset True sample_boot)\<lparr>
     net_header := sample_header\<lparr>tx_count := 1, tx_lengths := (\<lambda>_. 2)\<rparr>, net_window := (\<lambda>i. of_nat i)\<rparr>"

definition sample_accepted :: "unit luna_network_state" where
  "sample_accepted = snd (the (service_tx_batch id 1 sample_written))"

lemma sample_driver [simp]: "driver_ok sample_env" "calm id" "calm (\<lambda>H. H)"
  by (simp_all add: driver_ok_def sample_env_def calm_def)

lemma sample_written_reachable: "net_reachable E sample_written"
  unfolding sample_written_def by (rule net_child [OF net_attach])

lemma sample_batch: "service_tx_batch id 1 sample_written = Some ((0, 1), sample_accepted)"
proof -
  have "fst (the (service_tx_batch id 1 sample_written)) = (0, 1) \<and> service_tx_batch id 1 sample_written \<noteq> None" by code_simp
  then show ?thesis unfolding sample_accepted_def by (metis option.exhaust_sel prod.collapse)
qed

lemma sample_accepted_reachable: "net_reachable E sample_accepted"
proof -
  have "net_ready sample_written" by code_simp
  then have "luna_network_service id (event_word LUNA_ISOLATION_EVENT_NET_TX_BATCH) 1 sample_written =
      Some (Message 0 0 [command_word LUNA_COMMAND_NET_RESULT, word_of_cint 0, 1], 0, sample_accepted)"
    using sample_batch by (simp add: luna_network_service_def net_dispatch_def Let_def luna_consts)
  then show ?thesis by (rule net_request [OF sample_written_reachable sample_driver(2)])
qed

definition sample_sent :: "unit luna_network_state" where
  "sample_sent = the (network_poll_iteration sample_env id 1 2 sample_accepted)"

lemma sample_sent_reachable: "net_reachable sample_env sample_sent"
proof -
  have "network_poll_iteration sample_env id 1 2 sample_accepted \<noteq> None" by code_simp
  then have "network_poll_iteration sample_env id 1 2 sample_accepted = Some sample_sent" by (auto simp: sample_sent_def)
  then show ?thesis by (rule net_poll [OF sample_accepted_reachable sample_driver(2)])
qed


theorem process_tx_terminates_witness:
  "\<exists>s'. process_tx_queue sample_env sample_accepted = Some s' \<and> net_accepted s' = [[0, 1]]"
proof -
  have "net_accepted sample_accepted = [[0, 1]]" by code_simp
  then show ?thesis
    using process_tx_terminates [OF sample_driver(1) sample_accepted_reachable sample_driver(2)] by auto
qed

theorem service_tx_batch_correct_witness:
  "\<exists>s'. service_tx_batch id 1 sample_written = Some ((0, 1), s') \<and> net_accepted s' = [[0, 1]]"
proof -
  have n: "(1::nat) = min (unat (1::u64)) (tx_room sample_written)" by code_simp
  have v: "\<not> (unat (1::u64) > LUNA_NET_BATCH_SLOTS \<or> tx_count (net_header sample_written) \<noteq> 1 \<or>
        \<not> net_child_active sample_written \<or> \<not> tx_lengths_valid (net_header sample_written) 1)" by code_simp
  have "map (tx_slot (net_header sample_written) (net_window sample_written)) [0..<1] = [[0, 1]] \<and> net_accepted sample_written = []"
    by code_simp
  then show ?thesis
    using service_tx_batch_correct [OF sample_driver(1) sample_written_reachable sample_driver(2) n] v by auto
qed

theorem net_rx_in_order_witness:
  "rx_queued (receive_complete [(Some 0, 3, \<lambda>_. 7)] sample_written) = [[7, 7, 7]]"
proof -
  have "rx_queued sample_written = [] \<and> net_child_active sample_written \<and> \<not> rx_queue_full sample_written \<and>
      rx_total 0 [(Some 0, 3, \<lambda>_. 7)] = 3 \<and> 3 \<le> LUNA_NET_PACKET_SIZE \<and> chain_bytes [(Some 0, 3, \<lambda>_. 7)] = [7, 7, 7]"
    by code_simp
  then show ?thesis
    using net_rx_in_order [OF sample_driver(1) sample_written_reachable refl, of "[(Some 0, 3, \<lambda>_. 7)]" 1] by simp
qed

theorem network_service_answers_witness:
  "luna_network_service id 7 0 sample_written =
     Some (Message 0 0 [command_word LUNA_COMMAND_NET_RESULT, word_of_cint (-1), 0], -1, sample_written)"
proof -
  have "7 \<notin> event_word ` net_events" by (simp add: net_events_def)
  then show ?thesis
    using network_service_answers [OF sample_driver(1) sample_written_reachable sample_driver(2), of 7 0] by blast
qed

theorem tx_lengths_double_fetch_witness:
  "service_tx_batch (rewrite_length (of_nat (LUNA_NET_PACKET_SIZE + 1))) 1 sample_written = None"
proof -
  have "net_ready sample_written \<and> net_child_active sample_written \<and> tx_quiet sample_written \<and>
      tx_count (net_header sample_written) = 1 \<and> tx_lengths_valid (net_header sample_written) 1" by code_simp
  then show ?thesis using tx_lengths_double_fetch [OF sample_driver(1) sample_written_reachable] by blast
qed

end
