(* ===== verification/Task_Net.thy ===== *)
theory Task_Net
  imports Net_Service Task_Ipc
begin

text \<open>
  The child's network backend (\<open>lkl_task_net.c\<close>): the transmit queue filled by \<open>task_net_tx\<close>,
  the worker that batches it into the shared window and submits it to the manager, the
  coalescing timer, the receive side, and the set-up and tear-down of the device. A section under
  \<open>tx_mutex\<close> is one step. Semaphores are their counters (their own code is verified in
  \<open>Task_Sync\<close>); waiting for one is a step that is enabled only when the counter is positive.
  Cycle and time statistics are left out.
\<close>

definition TASK_NET_TX_COALESCE_MIN_NS :: u64 where [luna_consts]: "TASK_NET_TX_COALESCE_MIN_NS = 50000"
definition TASK_NET_TX_COALESCE_MID_NS :: u64 where [luna_consts]: "TASK_NET_TX_COALESCE_MID_NS = 100000"
definition TASK_NET_TX_COALESCE_MAX_NS :: u64 where [luna_consts]: "TASK_NET_TX_COALESCE_MAX_NS = 200000"

interpretation cq: ring LUNA_NET_CHILD_TX_QUEUE_COUNT
  by unfold_locales (simp add: luna_consts)

abbreviation CQN :: nat where "CQN \<equiv> LUNA_NET_CHILD_TX_QUEUE_COUNT"

type_synonym task_net_packet = luna_packet

text \<open>The last two fields record history: the packets taken from LKL and those handed to it.\<close>

record task_net_backend =
  tn_tx_queue :: "nat \<Rightarrow> task_net_packet"
  tn_tx_head :: nat
  tn_tx_tail :: nat
  tn_tx_stop :: bool
  tn_coalesce_stop :: bool
  tn_tx_error :: bool
  tn_tx_work_sem :: nat
  tn_tx_free_sem :: nat
  tn_tx_drain_sem :: nat
  tn_coalesce_sem :: nat
  tn_coalesce_generation :: u64
  tn_coalesce_expired_generation :: u64
  tn_coalesce_delay_ns :: u64
  tn_adaptive_delay_ns :: u64
  tn_rx_count :: nat
  tn_rx_index :: nat
  tn_pending_rx :: nat
  tn_tx_submit_sequence :: u64
  tn_hup :: bool
  tn_configured :: bool
  tn_tx_ipc :: u64
  tn_tx_batches :: u64
  tn_tx_packets :: u64
  tn_tx_backpressure :: u64
  tn_tx_enqueued :: u64
  tn_tx_batch_max :: u64
  tn_tx_coalesce_timers :: u64
  tn_tx_full_batch_bypass :: u64
  tn_tx_spurious_wakes :: u64
  tn_rx_ipc :: u64
  tn_rx_batches :: u64
  tn_rx_packets :: u64
  tn_taken :: "u8 list list"
  tn_handed :: "u8 list list"

definition sem_signal_once :: "nat \<Rightarrow> nat" where
  "sem_signal_once n = (if n = 0 then 1 else n)"

section \<open>The transmit queue\<close>

definition task_net_tx_queued :: "task_net_backend \<Rightarrow> nat" where
  "task_net_tx_queued b = ring_used CQN (tn_tx_head b) (tn_tx_tail b)"

definition task_net_coalesce_delay :: "task_net_backend \<Rightarrow> nat \<Rightarrow> u64" where
  "task_net_coalesce_delay b queued =
     (let delay = (if queued \<le> 1 then TASK_NET_TX_COALESCE_MIN_NS
                   else if queued \<le> 4 then TASK_NET_TX_COALESCE_MID_NS else TASK_NET_TX_COALESCE_MAX_NS)
      in if tn_adaptive_delay_ns b > delay then tn_adaptive_delay_ns b else delay)"

definition task_net_signal_error :: "task_net_backend \<Rightarrow> task_net_backend" where
  "task_net_signal_error b =
     b\<lparr>tn_tx_error := True, tn_tx_drain_sem := tn_tx_drain_sem b + 1, tn_tx_free_sem := tn_tx_free_sem b + CQN\<rparr>"

text \<open>An I/O vector: each element's memory, or \<open>None\<close> for a null base.\<close>

type_synonym iovec = "u8 list option list"

fun iov_total :: "nat \<Rightarrow> iovec \<Rightarrow> nat option" where
  "iov_total n [] = Some n"
| "iov_total n (v # vs) =
     (case v of None \<Rightarrow> None
      | Some d \<Rightarrow> if length d > LUNA_NET_PACKET_SIZE - n then None else iov_total (n + length d) vs)"

fun iov_copy :: "bytes \<Rightarrow> nat \<Rightarrow> iovec \<Rightarrow> bytes" where
  "iov_copy d offset [] = d"
| "iov_copy d offset (v # vs) =
     (case v of None \<Rightarrow> iov_copy d offset vs
      | Some x \<Rightarrow> iov_copy (memcpy_at d offset (\<lambda>i. x ! i) 0 (length x)) (offset + length x) vs)"

text \<open>
  \<open>task_net_tx\<close> in two steps: the checks and the statistics up to \<open>sem_down(tx_free_sem)\<close>
  (\<open>None\<close>: the call returns -1 at once), and, when the semaphore was taken, the insertion.
\<close>

definition task_net_tx_check :: "iovec \<Rightarrow> task_net_backend \<Rightarrow> nat option" where
  "task_net_tx_check iov b =
     (if \<not> tn_configured b then None
      else case iov_total 0 iov of None \<Rightarrow> None | Some n \<Rightarrow> if n = 0 then None else Some n)"

definition task_net_tx_enter :: "task_net_backend \<Rightarrow> task_net_backend" where
  "task_net_tx_enter b =
     (if ring_next CQN (tn_tx_head b) = tn_tx_tail b then b\<lparr>tn_tx_backpressure := tn_tx_backpressure b + 1\<rparr> else b)"

definition task_net_tx_insert :: "iovec \<Rightarrow> nat \<Rightarrow> task_net_backend \<Rightarrow> int \<times> task_net_backend" where
  "task_net_tx_insert iov n b =
     (if tn_tx_error b \<or> tn_tx_stop b then (-1, b\<lparr>tn_tx_free_sem := tn_tx_free_sem b + 1\<rparr>)
      else
        let head = tn_tx_head b; next = ring_next CQN head
        in if next = tn_tx_tail b
           then (-1, task_net_signal_error (b\<lparr>tn_tx_free_sem := tn_tx_free_sem b + 1\<rparr>))
           else
             let packet = \<lparr>pk_length = n, pk_data = iov_copy (pk_data (tn_tx_queue b head)) 0 iov\<rparr>
             in (int n, b\<lparr>tn_tx_queue := (tn_tx_queue b)(head := packet), tn_tx_head := next,
                          tn_tx_enqueued := tn_tx_enqueued b + 1,
                          tn_tx_work_sem := sem_signal_once (tn_tx_work_sem b),
                          tn_taken := tn_taken b @ [packet_bytes packet]\<rparr>))"

section \<open>The coalescing timer\<close>

text \<open>
  \<open>task_net_coalesce_worker\<close>: taken with its generation and delay; then the sleep fails, or it
  expires and wakes the transmit worker if the generation is still current.
\<close>

definition coalesce_take :: "task_net_backend \<Rightarrow> (u64 \<times> u64) option" where
  "coalesce_take b = (if tn_coalesce_stop b then None else Some (tn_coalesce_generation b, tn_coalesce_delay_ns b))"

definition coalesce_fail :: "task_net_backend \<Rightarrow> task_net_backend" where
  "coalesce_fail b = b\<lparr>tn_tx_error := True, tn_tx_work_sem := sem_signal_once (tn_tx_work_sem b)\<rparr>"

definition coalesce_expire :: "u64 \<Rightarrow> task_net_backend \<Rightarrow> task_net_backend" where
  "coalesce_expire generation b =
     (if generation = tn_coalesce_generation b
      then b\<lparr>tn_coalesce_expired_generation := generation, tn_tx_work_sem := sem_signal_once (tn_tx_work_sem b)\<rparr>
      else b)"

section \<open>The transmit worker\<close>

text \<open>Where \<open>task_net_tx_worker\<close> is.\<close>

datatype worker_pc =
    W_Sleep                     \<comment> \<open>\<open>sem_down(tx_work_sem)\<close> at the top of the loop\<close>
  | W_Coalesce u64              \<comment> \<open>the inner loop, for a generation of the timer\<close>
  | W_Coalesce_Sleep u64        \<comment> \<open>its \<open>sem_down\<close>\<close>
  | W_Collect                   \<comment> \<open>filling the window\<close>
  | W_Submit nat                \<comment> \<open>about to publish a sequence number\<close>
  | W_Wait nat u64              \<comment> \<open>waiting for the response to a sequence number\<close>
  | W_Release nat               \<comment> \<open>about to release the accepted packets\<close>
  | W_Free nat nat bool         \<comment> \<open>\<open>sem_up(tx_free_sem)\<close>: how many are left, how many in all, and whether the queue is empty\<close>
  | W_Exit

definition worker_wake :: "task_net_backend \<Rightarrow> worker_pc \<times> task_net_backend" where
  "worker_wake b =
     (let b = b\<lparr>tn_tx_work_sem := tn_tx_work_sem b - 1\<rparr>; queued = task_net_tx_queued b
      in if tn_tx_stop b then (W_Exit, b)
         else if queued = 0 then (W_Sleep, b\<lparr>tn_tx_spurious_wakes := tn_tx_spurious_wakes b + 1\<rparr>)
         else if queued < LUNA_NET_BATCH_SLOTS
         then (W_Coalesce (tn_coalesce_generation b + 1),
               b\<lparr>tn_coalesce_generation := tn_coalesce_generation b + 1, tn_coalesce_expired_generation := 0,
                 tn_coalesce_delay_ns := task_net_coalesce_delay b queued,
                 tn_tx_coalesce_timers := tn_tx_coalesce_timers b + 1,
                 tn_coalesce_sem := sem_signal_once (tn_coalesce_sem b)\<rparr>)
         else (W_Collect, b\<lparr>tn_tx_full_batch_bypass := tn_tx_full_batch_bypass b + 1\<rparr>))"

definition worker_coalesce :: "u64 \<Rightarrow> task_net_backend \<Rightarrow> worker_pc \<times> task_net_backend" where
  "worker_coalesce generation b =
     (if task_net_tx_queued b \<ge> LUNA_NET_BATCH_SLOTS
      then (W_Collect, b\<lparr>tn_tx_full_batch_bypass := tn_tx_full_batch_bypass b + 1,
              tn_coalesce_generation := (if tn_coalesce_generation b = generation then generation + 1
                                         else tn_coalesce_generation b)\<rparr>)
      else if tn_coalesce_expired_generation b = generation then (W_Collect, b)
      else (W_Coalesce_Sleep generation, b))"

definition worker_coalesce_wake :: "u64 \<Rightarrow> task_net_backend \<Rightarrow> worker_pc \<times> task_net_backend" where
  "worker_coalesce_wake generation b =
     (let b = b\<lparr>tn_tx_work_sem := tn_tx_work_sem b - 1\<rparr>
      in (if tn_tx_stop b then W_Exit else W_Coalesce generation, b))"

text \<open>The copy of at most 16 packets into the window.\<close>

fun collect_loop :: "nat \<Rightarrow> (nat \<Rightarrow> task_net_packet) \<Rightarrow> nat \<Rightarrow> nat \<Rightarrow> nat \<Rightarrow> luna_net_batch_header \<Rightarrow> bytes \<Rightarrow>
    nat \<times> luna_net_batch_header \<times> bytes" where
  "collect_loop 0 q head tail n H w = (n, H, w)"
| "collect_loop (Suc k) q head tail n H w =
     (if tail = head then (n, H, w)
      else collect_loop k q head (ring_next CQN tail) (Suc n)
             (H\<lparr>tx_lengths := (tx_lengths H)(n := of_nat (pk_length (q tail)))\<rparr>)
             (memcpy_at w (LUNA_NET_TX_OFFSET + n * LUNA_NET_PACKET_SIZE) (pk_data (q tail)) 0 (pk_length (q tail))))"

definition worker_collect :: "task_net_backend \<Rightarrow> luna_net_batch_header \<Rightarrow> bytes \<Rightarrow>
    worker_pc \<times> luna_net_batch_header \<times> bytes" where
  "worker_collect b H w =
     (let (n, H, w) = collect_loop LUNA_NET_BATCH_SLOTS (tn_tx_queue b) (tn_tx_head b) (tn_tx_tail b) 0 H w
      in (if n = 0 then W_Sleep else W_Submit n, H\<lparr>tx_count := of_nat n\<rparr>, w))"

definition next_sequence :: "u64 \<Rightarrow> u64" where
  "next_sequence q = (if q + 1 = 0 then q + 1 + 1 else q + 1)"

definition worker_submit :: "nat \<Rightarrow> task_net_backend \<Rightarrow> luna_net_batch_header \<Rightarrow>
    worker_pc \<times> task_net_backend \<times> luna_net_batch_header" where
  "worker_submit n b H =
     (let q = next_sequence (tn_tx_submit_sequence b)
      in (W_Wait n q, b\<lparr>tn_tx_submit_sequence := q\<rparr>, H\<lparr>tx_request_sequence := q\<rparr>))"

definition worker_response :: "nat \<Rightarrow> task_net_backend \<Rightarrow> luna_net_batch_header \<Rightarrow> worker_pc \<times> task_net_backend" where
  "worker_response n b H =
     (let accepted = tx_accepted H; b = b\<lparr>tn_tx_ipc := tn_tx_ipc b + 1\<rparr>
      in if accepted > of_nat n then (W_Exit, task_net_signal_error b)
         else if accepted \<noteq> 0 then (W_Release (unat accepted), b)
         else (W_Submit n, b\<lparr>tn_tx_backpressure := tn_tx_backpressure b + 1\<rparr>))"

fun release_loop :: "nat \<Rightarrow> task_net_backend \<Rightarrow> task_net_backend" where
  "release_loop 0 b = b"
| "release_loop (Suc n) b =
     release_loop n (b\<lparr>tn_tx_queue := (tn_tx_queue b)(tn_tx_tail b := (tn_tx_queue b (tn_tx_tail b))\<lparr>pk_length := 0\<rparr>),
                       tn_tx_tail := ring_next CQN (tn_tx_tail b)\<rparr>)"

definition worker_release :: "nat \<Rightarrow> task_net_backend \<Rightarrow> worker_pc \<times> task_net_backend" where
  "worker_release accepted b =
     (let b = release_loop accepted b;
          drained = (tn_tx_tail b = tn_tx_head b);
          delay = (if \<not> drained \<or> accepted \<ge> LUNA_NET_BATCH_SLOTS div 4 then TASK_NET_TX_COALESCE_MAX_NS
                   else if accepted \<ge> LUNA_NET_BATCH_SLOTS div 8 then TASK_NET_TX_COALESCE_MID_NS
                   else TASK_NET_TX_COALESCE_MIN_NS)
      in (W_Free accepted accepted drained, b\<lparr>tn_adaptive_delay_ns := delay\<rparr>))"

fun worker_free :: "nat \<Rightarrow> nat \<Rightarrow> bool \<Rightarrow> task_net_backend \<Rightarrow> worker_pc \<times> task_net_backend" where
  "worker_free (Suc k) accepted drained b = (W_Free k accepted drained, b\<lparr>tn_tx_free_sem := tn_tx_free_sem b + 1\<rparr>)"
| "worker_free 0 accepted drained b =
     (W_Sleep,
      (if drained then b\<lparr>tn_tx_drain_sem := tn_tx_drain_sem b + 1\<rparr>
       else b\<lparr>tn_tx_work_sem := sem_signal_once (tn_tx_work_sem b)\<rparr>)
      \<lparr>tn_tx_batches := tn_tx_batches b + 1, tn_tx_packets := tn_tx_packets b + of_nat accepted,
       tn_tx_batch_max := max (tn_tx_batch_max b) (of_nat accepted)\<rparr>)"

text \<open>One step of \<open>task_net_tx_worker\<close>; \<open>None\<close>: it waits for a semaphore or the manager, or has returned.\<close>

definition worker_step :: "worker_pc \<Rightarrow> task_net_backend \<Rightarrow> luna_net_batch_header \<Rightarrow> bytes \<Rightarrow>
    (worker_pc \<times> task_net_backend \<times> luna_net_batch_header \<times> bytes) option" where
  "worker_step pc b H w =
     (let plain = (\<lambda>(pc, b). Some (pc, b, H, w))
      in case pc of
           W_Sleep \<Rightarrow> if tn_tx_work_sem b = 0 then None else plain (worker_wake b)
         | W_Coalesce generation \<Rightarrow> plain (worker_coalesce generation b)
         | W_Coalesce_Sleep generation \<Rightarrow>
             if tn_tx_work_sem b = 0 then None else plain (worker_coalesce_wake generation b)
         | W_Collect \<Rightarrow> (let (pc, H, w) = worker_collect b H w in Some (pc, b, H, w))
         | W_Submit n \<Rightarrow> (let (pc, b, H) = worker_submit n b H in Some (pc, b, H, w))
         | W_Wait n q \<Rightarrow> if tx_response_sequence H \<noteq> q then None else plain (worker_response n b H)
         | W_Release accepted \<Rightarrow> plain (worker_release accepted b)
         | W_Free k accepted drained \<Rightarrow> plain (worker_free k accepted drained b)
         | W_Exit \<Rightarrow> None)"

section \<open>Receiving\<close>

datatype poll_result = Poll_Hup | Poll_Rx | Poll_Error | Poll_Sleep | Poll_Fetch

text \<open>
  \<open>task_net_poll\<close> without its loop: what it does with the batch it holds, and, when there is
  none, the decision to sleep or to fetch, from the counters it reads. \<open>Poll_Sleep\<close> and
  \<open>Poll_Fetch\<close> are not results of the call: it waits, or sends \<open>NET_RX_BATCH\<close>, and goes on.
\<close>

definition task_net_poll_local :: "luna_net_batch_header \<Rightarrow> task_net_backend \<Rightarrow> poll_result \<times> task_net_backend" where
  "task_net_poll_local H b =
     (if tn_hup b then (Poll_Hup, b)
      else if tn_rx_index b < tn_rx_count b then
        let len = unat (rx_lengths H (tn_rx_index b))
        in if len = 0 \<or> len > LUNA_NET_PACKET_SIZE then (Poll_Error, b) else (Poll_Rx, b\<lparr>tn_pending_rx := len\<rparr>)
      else (if rx_produced H = rx_consumed H then Poll_Sleep else Poll_Fetch, b\<lparr>tn_rx_count := 0, tn_rx_index := 0\<rparr>))"

text \<open>
  The decision after the wait for a notification: \<open>None\<close>, return HUP; otherwise whether to fetch
  or to go round the loop again.
\<close>

definition task_net_poll_woken :: "luna_net_batch_header \<Rightarrow> task_net_backend \<Rightarrow> bool option" where
  "task_net_poll_woken H b = (if tn_hup b then None else Some (rx_produced H \<noteq> rx_consumed H))"

definition poll_announce :: "poll_result \<Rightarrow> luna_net_batch_header \<Rightarrow> luna_net_batch_header" where
  "poll_announce r H = (if r = Poll_Sleep then H\<lparr>rx_waiting := 1\<rparr> else if r = Poll_Fetch then H\<lparr>rx_waiting := 0\<rparr> else H)"

definition task_net_poll_fetch ::
  "'m transport \<Rightarrow> task_ipc \<Rightarrow> 'm \<Rightarrow> task_net_backend \<Rightarrow> poll_result option \<times> task_ipc \<times> 'm \<times> task_net_backend" where
  "task_net_poll_fetch transport c m b =
     (let ((result, packets), c, m) = luna_lkl_task_manager_request_value transport
            LUNA_ISOLATION_EVENT_NET_RX_BATCH (of_nat LUNA_NET_BATCH_SLOTS) 0 c m;
          packets = (case packets of None \<Rightarrow> 0 | Some p \<Rightarrow> p);
          b = b\<lparr>tn_rx_ipc := tn_rx_ipc b + 1\<rparr>
      in if result \<noteq> 0 \<or> packets > of_nat LUNA_NET_BATCH_SLOTS then (Some Poll_Error, c, m, b)
         else (None, c, m, if packets \<noteq> 0
                           then b\<lparr>tn_rx_count := unat packets, tn_rx_index := 0, tn_rx_batches := tn_rx_batches b + 1\<rparr>
                           else b))"

text \<open>
  \<open>task_net_rx\<close>: the packet goes into the given buffers (capacities, \<open>None\<close> for a null base),
  as much as fits; the result is the list of pieces written, or \<open>None\<close> for -1.
\<close>

fun rx_scatter :: "nat option list \<Rightarrow> bytes \<Rightarrow> nat \<Rightarrow> nat \<Rightarrow> u8 list list option" where
  "rx_scatter [] w offset remaining = Some []"
| "rx_scatter (v # vs) w offset remaining =
     (if remaining = 0 then Some []
      else case v of None \<Rightarrow> None
           | Some len \<Rightarrow>
               let chunk = (if len < remaining then len else remaining)
               in map_option (Cons (slice w offset chunk)) (rx_scatter vs w (offset + chunk) (remaining - chunk)))"

definition task_net_rx :: "nat option list \<Rightarrow> bytes \<Rightarrow> task_net_backend \<Rightarrow> u8 list list option \<times> task_net_backend" where
  "task_net_rx iov w b =
     (if tn_pending_rx b = 0 then (None, b)
      else case rx_scatter iov w (LUNA_NET_RX_OFFSET + tn_rx_index b * LUNA_NET_PACKET_SIZE) (tn_pending_rx b) of
        None \<Rightarrow> (None, b)
      | Some pieces \<Rightarrow> (Some pieces,
          b\<lparr>tn_pending_rx := 0, tn_rx_index := tn_rx_index b + 1, tn_rx_packets := tn_rx_packets b + 1,
            tn_handed := tn_handed b @ [concat pieces]\<rparr>))"

definition task_net_free :: "task_net_backend \<Rightarrow> task_net_backend" where
  "task_net_free b = b\<lparr>tn_configured := False, tn_pending_rx := 0, tn_rx_count := 0, tn_rx_index := 0\<rparr>"

section \<open>Set-up and tear-down\<close>

definition zero_backend :: task_net_backend where
  "zero_backend = \<lparr>tn_tx_queue = (\<lambda>_. \<lparr>pk_length = 0, pk_data = (\<lambda>_. 0)\<rparr>), tn_tx_head = 0, tn_tx_tail = 0, tn_tx_stop = False,
     tn_coalesce_stop = False, tn_tx_error = False, tn_tx_work_sem = 0, tn_tx_free_sem = 0, tn_tx_drain_sem = 0,
     tn_coalesce_sem = 0, tn_coalesce_generation = 0, tn_coalesce_expired_generation = 0, tn_coalesce_delay_ns = 0,
     tn_adaptive_delay_ns = 0, tn_rx_count = 0, tn_rx_index = 0, tn_pending_rx = 0, tn_tx_submit_sequence = 0,
     tn_hup = False, tn_configured = False, tn_tx_ipc = 0, tn_tx_batches = 0, tn_tx_packets = 0, tn_tx_backpressure = 0,
     tn_tx_enqueued = 0, tn_tx_batch_max = 0, tn_tx_coalesce_timers = 0, tn_tx_full_batch_bypass = 0,
     tn_tx_spurious_wakes = 0, tn_rx_ipc = 0, tn_rx_batches = 0, tn_rx_packets = 0, tn_taken = [], tn_handed = []\<rparr>"

definition luna_lkl_task_configure_net ::
  "u64 \<Rightarrow> u64 \<Rightarrow> u64 \<Rightarrow> u64 \<Rightarrow> cptr \<Rightarrow> cptr \<Rightarrow> cptr \<Rightarrow> task_net_backend \<Rightarrow> c_int \<times> task_net_backend" where
  "luna_lkl_task_configure_net io_base io_size mac_word0 mac_word1 rx_ntfn tx_ntfn tx_submit_ntfn b =
     (if io_base \<noteq> of_nat LUNA_NET_IO_BASE \<or> io_size \<noteq> of_nat LUNA_NET_IO_SIZE \<or>
         mac_word0 \<noteq> LUNA_NET_MAC_WORD0 \<or> mac_word1 \<noteq> LUNA_NET_MAC_WORD1 \<or>
         rx_ntfn = 0 \<or> tx_ntfn = 0 \<or> tx_submit_ntfn = 0
      then (-1, b)
      else (0, zero_backend\<lparr>tn_configured := True\<rparr>))"

text \<open>
  \<open>luna_lkl_task_net_add\<close>: which allocations and thread creations succeed is given; the log
  shows what is acquired and released. The semaphores start at 0, 0, 63, 0.
\<close>

datatype net_object = O_Mutex | O_Work | O_Free | O_Drain | O_Coalesce | O_Coalesce_Thread | O_Tx_Thread

datatype net_action = Acquire net_object | Release net_object

definition net_add_fail :: "(net_object \<Rightarrow> bool) \<Rightarrow> net_action list" where
  "net_add_fail ok = map Release (filter ok [O_Coalesce, O_Drain, O_Free, O_Work, O_Mutex])"

definition luna_lkl_task_net_add ::
  "(net_object \<Rightarrow> bool) \<Rightarrow> int \<Rightarrow> int \<Rightarrow> task_net_backend \<Rightarrow> (c_int \<times> net_action list) \<times> int \<times> task_net_backend" where
  "luna_lkl_task_net_add ok device net_id b =
     (if \<not> tn_configured b \<or> net_id \<ge> 0 then ((-1, []), net_id, b)
      else
        let objects = [O_Mutex, O_Work, O_Free, O_Drain, O_Coalesce];
            log = map Acquire (filter ok objects);
            b = b\<lparr>tn_tx_work_sem := 0, tn_tx_free_sem := CQN - 1, tn_tx_drain_sem := 0, tn_coalesce_sem := 0\<rparr>
        in if \<not> list_all ok objects \<or> \<not> ok O_Coalesce_Thread then ((-1, log @ net_add_fail ok), net_id, b)
           else if \<not> ok O_Tx_Thread
           then ((-1, log @ [Acquire O_Coalesce_Thread, Release O_Coalesce_Thread] @ net_add_fail ok), net_id,
                 b\<lparr>tn_coalesce_stop := True\<rparr>)
           else
             let b = b\<lparr>tn_hup := False\<rparr>; log = log @ [Acquire O_Coalesce_Thread, Acquire O_Tx_Thread]
             in if device < 0
                then ((-1, log @ [Release O_Tx_Thread, Release O_Coalesce_Thread] @ net_add_fail ok), device,
                      b\<lparr>tn_tx_stop := True, tn_coalesce_stop := True\<rparr>)
                else ((0, log), device, b))"

text \<open>
  The decision of \<open>luna_lkl_task_net_finish\<close> before it stops the threads: it waits for the drain
  semaphore only when the queue is not empty (\<open>None\<close>: it blocks), and fails when the queue is
  still not empty then.
\<close>

definition net_finish_drain :: "task_net_backend \<Rightarrow> (c_int \<times> task_net_backend) option" where
  "net_finish_drain b =
     (let drained = (tn_tx_head b = tn_tx_tail b)
      in if \<not> drained \<and> tn_tx_drain_sem b = 0 then None
         else
           let b = (if drained then b
                    else b\<lparr>tn_tx_work_sem := sem_signal_once (tn_tx_work_sem b), tn_tx_drain_sem := tn_tx_drain_sem b - 1\<rparr>)
           in if tn_tx_head b \<noteq> tn_tx_tail b \<or> tn_tx_error b then Some (-1, b)
              else Some (0, b\<lparr>tn_tx_stop := True, tn_coalesce_stop := True,
                     tn_tx_work_sem := sem_signal_once (tn_tx_work_sem b), tn_coalesce_sem := sem_signal_once (tn_coalesce_sem b)\<rparr>))"

section \<open>Control requests\<close>

definition task_net_control :: "'m transport \<Rightarrow> u64 \<Rightarrow> task_ipc \<Rightarrow> 'm \<Rightarrow> c_int \<times> task_ipc \<times> 'm" where
  "task_net_control transport control c m = luna_lkl_task_manager_request transport LUNA_ISOLATION_EVENT_NET_CONTROL control 0 c m"

definition task_net_tx_stress_control :: "'m transport \<Rightarrow> u64 \<Rightarrow> task_ipc \<Rightarrow> 'm \<Rightarrow> c_int \<times> task_ipc \<times> 'm" where
  "task_net_tx_stress_control transport control c m =
     luna_lkl_task_manager_request transport LUNA_ISOLATION_EVENT_NET_TX_STRESS control 0 c m"

definition task_net_stats :: "'m transport \<Rightarrow> task_ipc \<Rightarrow> 'm \<Rightarrow> (c_int \<times> u64 option) \<times> task_ipc \<times> 'm" where
  "task_net_stats transport c m = luna_lkl_task_manager_request_value transport LUNA_ISOLATION_EVENT_NET_STATS 0 0 c m"

definition task_net_tx_stats :: "'m transport \<Rightarrow> task_ipc \<Rightarrow> 'm \<Rightarrow> (c_int \<times> u64 option) \<times> task_ipc \<times> 'm" where
  "task_net_tx_stats transport c m = luna_lkl_task_manager_request_value transport LUNA_ISOLATION_EVENT_NET_TX_STATS 0 0 c m"

definition task_net_poll_hup :: "'m transport \<Rightarrow> task_ipc \<Rightarrow> 'm \<Rightarrow> task_net_backend \<Rightarrow> task_ipc \<times> 'm \<times> task_net_backend" where
  "task_net_poll_hup transport c m b =
     (let (r, c, m) = luna_lkl_task_manager_request transport LUNA_ISOLATION_EVENT_NET_WAKE 0 0 c m
      in (c, m, b\<lparr>tn_hup := True\<rparr>))"

end
