(* ===== verification/Child_Boot.thy ===== *)
theory Child_Boot
  imports Manager_Memory Task_Sync Task_Disk Task_Net
begin

text \<open>
  The life of a child from both sides: the commands with which the manager hands over resources
  (\<open>boot_child\<close> of \<open>isolation_manager.c\<close>), the child's decoding of them and its sequence of
  self tests and events (\<open>main\<close> of \<open>isolation_child.c\<close>), and the manager's expectations for each
  mode (\<open>luna_isolation_smoke\<close>). Endpoints are synchronous, so the two programs meet message by
  message. What the child's tests and LKL itself do is not part of the model: each of those calls
  succeeds or fails, and a failing child spins forever.
\<close>

section \<open>The manager's commands\<close>

record luna_resource_slot =
  rs_child_tcb :: cptr
  rs_stack_top :: u64
  rs_stack_size :: u64
  rs_ipc_buffer_addr :: u64
  rs_child_join_ntfn :: cptr

record luna_child_resources =
  cr_slots :: "nat \<Rightarrow> luna_resource_slot"
  cr_sync :: "nat \<Rightarrow> cptr"
  cr_console_port :: cptr
  cr_rx_ntfn :: cptr
  cr_tx_ntfn :: cptr
  cr_tx_submit_ntfn :: cptr

definition send_resource_slot :: "luna_resource_slot \<Rightarrow> nat \<Rightarrow> ipc_message" where
  "send_resource_slot slot i = Message 0 0 [command_word LUNA_COMMAND_CONFIGURE_SLOT, of_nat i, of_nat LUNA_RESOURCE_SLOTS,
     rs_child_tcb slot, rs_stack_top slot, rs_stack_size slot, rs_ipc_buffer_addr slot, rs_child_join_ntfn slot]"

definition send_start :: "u64 \<Rightarrow> ipc_message" where
  "send_start tsc_frequency = Message 0 0 [command_word LUNA_COMMAND_START, tsc_frequency]"

definition send_sync_slot :: "cptr \<Rightarrow> nat \<Rightarrow> ipc_message" where
  "send_sync_slot ntfn i = Message 0 0 [command_word LUNA_COMMAND_CONFIGURE_SYNC, of_nat i, of_nat LUNA_SYNC_SLOTS, ntfn]"

definition send_console_resource :: "cptr \<Rightarrow> ipc_message" where
  "send_console_resource port = Message 0 0 [command_word LUNA_COMMAND_CONFIGURE_CONSOLE, port]"

definition send_disk_resource :: ipc_message where
  "send_disk_resource = Message 0 0 [command_word LUNA_COMMAND_CONFIGURE_DISK, of_nat LUNA_DISK_IO_BASE,
     of_nat LUNA_DISK_IO_SIZE, of_nat LUNA_PERSISTENT_DISK_SIZE]"

definition send_net_resource :: "luna_child_resources \<Rightarrow> ipc_message" where
  "send_net_resource r = Message 0 0 [command_word LUNA_COMMAND_CONFIGURE_NET, of_nat LUNA_NET_IO_BASE, of_nat LUNA_NET_IO_SIZE,
     LUNA_NET_MAC_WORD0, LUNA_NET_MAC_WORD1, cr_rx_ntfn r, cr_tx_ntfn r, cr_tx_submit_ntfn r]"

definition boot_commands :: "luna_child_resources \<Rightarrow> ipc_message list" where
  "boot_commands r =
     map (\<lambda>i. send_resource_slot (cr_slots r i) i) [0..<LUNA_RESOURCE_SLOTS] @
     map (\<lambda>i. send_sync_slot (cr_sync r i) i) [0..<LUNA_SYNC_SLOTS] @
     [send_console_resource (cr_console_port r), send_disk_resource, send_net_resource r]"

section \<open>The child's side of the configuration\<close>

text \<open>\<open>parse_word\<close>; \<open>None\<close> is a null pointer.\<close>

fun parse_digits :: "u64 \<Rightarrow> string \<Rightarrow> u64" where
  "parse_digits v [] = v"
| "parse_digits v (c # cs) =
     (if of_char c \<ge> (48 :: nat) \<and> of_char c \<le> (57 :: nat) then parse_digits (v * 10 + of_nat (of_char c - 48)) cs else v)"

definition parse_word :: "string option \<Rightarrow> u64" where
  "parse_word s = (case s of None \<Rightarrow> 0 | Some cs \<Rightarrow> parse_digits 0 cs)"

record child_boot_state =
  cb_control_ep :: cptr
  cb_command_ep :: cptr
  cb_mode :: u64
  cb_private_addr :: u64

definition child_arguments :: "string option list \<Rightarrow> child_boot_state option" where
  "child_arguments argv =
     (if length argv \<noteq> 4 then None
      else Some \<lparr>cb_control_ep = parse_word (argv ! 0), cb_command_ep = parse_word (argv ! 1),
                 cb_mode = parse_word (argv ! 2), cb_private_addr = parse_word (argv ! 3)\<rparr>)"

text \<open>The registers of an accepted command; \<open>None\<close>: the child spins.\<close>

definition receive_command :: "luna_manager_command \<Rightarrow> ipc_message \<Rightarrow> u64 list option" where
  "receive_command expected m =
     (if msg_badge m \<noteq> 0 \<or> msg_label m \<noteq> 0 \<or> length (msg_mrs m) < 1 \<or> msg_mrs m ! 0 \<noteq> command_word expected
      then None else Some (msg_mrs m))"

record luna_task_thread_resource =
  tr_tcb :: cptr
  tr_stack_top :: u64
  tr_stack_pages :: u64
  tr_ipc_buffer_addr :: u64
  tr_join_ntfn :: cptr

definition receive_slot :: "nat \<Rightarrow> ipc_message \<Rightarrow> luna_task_thread_resource option" where
  "receive_slot i m = do {
     mr \<leftarrow> receive_command LUNA_COMMAND_CONFIGURE_SLOT m;
     (if length mr \<noteq> 8 \<or> mr ! 1 \<noteq> of_nat i \<or> mr ! 2 \<noteq> of_nat LUNA_RESOURCE_SLOTS then None
      else Some \<lparr>tr_tcb = mr ! 3, tr_stack_top = mr ! 4, tr_stack_pages = mr ! 5, tr_ipc_buffer_addr = mr ! 6, tr_join_ntfn = mr ! 7\<rparr>)
   }"

definition receive_sync :: "nat \<Rightarrow> ipc_message \<Rightarrow> cptr option" where
  "receive_sync i m = do {
     mr \<leftarrow> receive_command LUNA_COMMAND_CONFIGURE_SYNC m;
     (if length mr \<noteq> 4 \<or> mr ! 1 \<noteq> of_nat i \<or> mr ! 2 \<noteq> of_nat LUNA_SYNC_SLOTS then None else Some (mr ! 3))
   }"

text \<open>A loop that receives one message per index; it yields the values and the messages not yet received.\<close>

fun receive_all :: "(nat \<Rightarrow> ipc_message \<Rightarrow> 'a option) \<Rightarrow> nat \<Rightarrow> nat \<Rightarrow> ipc_message list \<Rightarrow> ('a list \<times> ipc_message list) option" where
  "receive_all f i 0 ms = Some ([], ms)"
| "receive_all f i (Suc n) [] = None"
| "receive_all f i (Suc n) (m # ms) = do { x \<leftarrow> f i m; (xs, ms) \<leftarrow> receive_all f (Suc i) n ms; Some (x # xs, ms) }"

definition receive_console :: "ipc_message \<Rightarrow> cptr option" where
  "receive_console m = do {
     mr \<leftarrow> receive_command LUNA_COMMAND_CONFIGURE_CONSOLE m;
     (if length mr \<noteq> 2 \<or> mr ! 1 = 0 then None else Some (mr ! 1))
   }"

definition receive_disk :: "ipc_message \<Rightarrow> (u64 \<times> u64 \<times> u64) option" where
  "receive_disk m = do {
     mr \<leftarrow> receive_command LUNA_COMMAND_CONFIGURE_DISK m;
     (if length mr \<noteq> 4 \<or> mr ! 1 \<noteq> of_nat LUNA_DISK_IO_BASE \<or> mr ! 2 \<noteq> of_nat LUNA_DISK_IO_SIZE \<or>
         mr ! 3 \<noteq> of_nat LUNA_PERSISTENT_DISK_SIZE then None
      else Some (mr ! 1, mr ! 2, mr ! 3))
   }"

text \<open>Window address and size, and the three notifications.\<close>

definition receive_net :: "ipc_message \<Rightarrow> (u64 \<times> u64 \<times> cptr \<times> cptr \<times> cptr) option" where
  "receive_net m = do {
     mr \<leftarrow> receive_command LUNA_COMMAND_CONFIGURE_NET m;
     (if length mr \<noteq> 8 \<or> mr ! 1 \<noteq> of_nat LUNA_NET_IO_BASE \<or> mr ! 2 \<noteq> of_nat LUNA_NET_IO_SIZE \<or>
         mr ! 3 \<noteq> LUNA_NET_MAC_WORD0 \<or> mr ! 4 \<noteq> LUNA_NET_MAC_WORD1 \<or> mr ! 5 = 0 \<or> mr ! 6 = 0 \<or> mr ! 7 = 0 then None
      else Some (mr ! 1, mr ! 2, mr ! 5, mr ! 6, mr ! 7))
   }"

text \<open>
  The checks of \<open>luna_lkl_task_configure_resources\<close> on the thread slots, and the whole function:
  its result, the request channel and the pool of synchronisation objects.
\<close>

definition thread_resource_ok :: "luna_task_thread_resource \<Rightarrow> bool" where
  "thread_resource_ok x \<longleftrightarrow> tr_tcb x \<noteq> 0 \<and> tr_join_ntfn x \<noteq> 0 \<and> tr_stack_top x \<noteq> 0 \<and> tr_stack_pages x \<noteq> 0 \<and> tr_ipc_buffer_addr x \<noteq> 0"

definition luna_lkl_task_configure_resources ::
  "luna_task_thread_resource list \<Rightarrow> cptr list \<Rightarrow> cptr \<Rightarrow> cptr \<Rightarrow> cptr \<Rightarrow> task_sync_pool \<Rightarrow> c_int \<times> task_ipc \<times> task_sync_pool" where
  "luna_lkl_task_configure_resources resources sync console control_ep command_ep s =
     (let none = \<lparr>task_manager_control_ep = 0, task_manager_command_ep = 0, task_manager_ipc_count = 0\<rparr>
      in if \<not> list_all thread_resource_ok resources then (-1, none, s)
         else
           let (e, s) = configure_sync (\<lambda>i. sync ! i) s
           in if e \<noteq> 0 then (-1, none, s)
              else
                let c = \<lparr>task_manager_control_ep = control_ep, task_manager_command_ep = command_ep, task_manager_ipc_count = 0\<rparr>
                in (if console = 0 \<or> control_ep = 0 \<or> command_ep = 0 then -1 else 0, c, s))"

text \<open>What the child is left with after its configuration.\<close>

record child_setup =
  cs_slots :: "luna_task_thread_resource list"
  cs_sync :: "cptr list"
  cs_console :: cptr
  cs_channel :: task_ipc
  cs_pool :: task_sync_pool
  cs_disk :: task_disk
  cs_net :: task_net_backend

definition child_configure :: "child_boot_state \<Rightarrow> task_sync_pool \<Rightarrow> task_net_backend \<Rightarrow> ipc_message list \<Rightarrow>
    (child_setup \<times> ipc_message list) option" where
  "child_configure boot pool net ms = do {
     (slots, ms) \<leftarrow> receive_all receive_slot 0 LUNA_RESOURCE_SLOTS ms;
     (sync, ms) \<leftarrow> receive_all receive_sync 0 LUNA_SYNC_SLOTS ms;
     (console, ms) \<leftarrow> (case ms of [] \<Rightarrow> None | m # ms \<Rightarrow> map_option (\<lambda>x. (x, ms)) (receive_console m));
     ((disk_base, disk_size, disk_bytes), ms) \<leftarrow> (case ms of [] \<Rightarrow> None | m # ms \<Rightarrow> map_option (\<lambda>x. (x, ms)) (receive_disk m));
     ((net_base, net_size, rx, tx, submit), ms) \<leftarrow> (case ms of [] \<Rightarrow> None | m # ms \<Rightarrow> map_option (\<lambda>x. (x, ms)) (receive_net m));
     (let (e, channel, pool) = luna_lkl_task_configure_resources slots sync console (cb_control_ep boot) (cb_command_ep boot) pool
      in if e \<noteq> 0 then None
         else do {
           disk \<leftarrow> luna_lkl_task_configure_disk (unat disk_base) (unat disk_size) (unat disk_bytes) channel;
           (let (e, net) = luna_lkl_task_configure_net net_base net_size LUNA_NET_MAC_WORD0 LUNA_NET_MAC_WORD1 rx tx submit net
            in if e \<noteq> 0 then None
               else Some (\<lparr>cs_slots = slots, cs_sync = sync, cs_console = console, cs_channel = channel, cs_pool = pool,
                           cs_disk = disk, cs_net = net\<rparr>, ms))
         })
   }"

definition receive_start :: "ipc_message \<Rightarrow> u64 option" where
  "receive_start m = do {
     mr \<leftarrow> receive_command LUNA_COMMAND_START m;
     (if length mr \<noteq> 2 \<or> mr ! 1 = 0 then None else Some (mr ! 1))
   }"

section \<open>The child's main\<close>

text \<open>The calls of \<open>main\<close> whose failure makes the child spin.\<close>

datatype child_work =
    W_Prepare_Time | W_Thread_Test | W_Allocator_Test | W_Sync_Tls_Test | W_Thread_Timer_Test | W_Init | W_Net_Add | W_Disk_Add
  | W_Start_Kernel | W_Net_Prepare | W_Disk_Prepare | W_Net_Smoke | W_Net_Pressure | W_Net_Tx_Pressure | W_Shell_Prepare
  | W_User_Smoke | W_User_Shell | W_Disk_Finish | W_Net_Finish | W_Halt | W_Disk_Cleanup | W_Allocator_Idle | W_Sync_Tls_Runtime

datatype child_action = C_Event luna_isolation_event | C_Configure | C_Start | C_Work child_work | C_Touch_Private

definition finish_child :: "u64 \<Rightarrow> child_action list" where
  "finish_child mode =
     [C_Event LUNA_ISOLATION_EVENT_LKL_HALT_OK, C_Event LUNA_ISOLATION_EVENT_ALLOCATOR_RELEASED] @
     (if mode = mode_word LUNA_ISOLATION_MODE_FAULT then [C_Touch_Private] else [C_Event LUNA_ISOLATION_EVENT_DONE])"

definition child_shutdown :: "u64 \<Rightarrow> child_action list" where
  "child_shutdown mode =
     map C_Work [W_Disk_Finish, W_Net_Finish, W_Halt, W_Disk_Cleanup, W_Allocator_Idle, W_Sync_Tls_Runtime] @ finish_child mode"

text \<open>\<open>icmp\<close>: the positive result of \<open>luna_lkl_task_net_smoke\<close>, ICMP not available.\<close>

definition child_main :: "u64 \<Rightarrow> bool \<Rightarrow> child_action list" where
  "child_main mode icmp =
     (let clean = (mode = mode_word LUNA_ISOLATION_MODE_CLEAN)
      in [C_Event LUNA_ISOLATION_EVENT_READY, C_Event LUNA_ISOLATION_EVENT_LKL_LINKED, C_Configure,
          C_Event LUNA_ISOLATION_EVENT_RESOURCE_CONFIGURED, C_Start,
          C_Work W_Prepare_Time, C_Work W_Thread_Test, C_Event LUNA_ISOLATION_EVENT_RESOURCE_OK,
          C_Work W_Allocator_Test, C_Event LUNA_ISOLATION_EVENT_ALLOCATOR_OK,
          C_Work W_Sync_Tls_Test, C_Event LUNA_ISOLATION_EVENT_SYNC_TLS_OK,
          C_Work W_Thread_Timer_Test, C_Event LUNA_ISOLATION_EVENT_THREAD_TIMER_OK, C_Work W_Init] @
         (if mode \<noteq> mode_word LUNA_ISOLATION_MODE_STRESS then [C_Work W_Net_Add] else []) @
         [C_Work W_Disk_Add, C_Event LUNA_ISOLATION_EVENT_LKL_INIT_OK,
          C_Work W_Start_Kernel, C_Event LUNA_ISOLATION_EVENT_LKL_BOOT_OK] @
         (if clean then [C_Work W_Net_Prepare, C_Event LUNA_ISOLATION_EVENT_VIRTIO_NET_OK, C_Event LUNA_ISOLATION_EVENT_NETWORK_IPV4_OK]
          else []) @
         [C_Work W_Disk_Prepare, C_Event LUNA_ISOLATION_EVENT_VIRTIO_BLOCK_OK] @
         (if clean
          then [C_Work W_Net_Smoke,
                C_Event (if icmp then LUNA_ISOLATION_EVENT_NETWORK_ICMP_UNAVAILABLE else LUNA_ISOLATION_EVENT_NETWORK_ICMP_OK),
                C_Event LUNA_ISOLATION_EVENT_NETWORK_TCP_OK,
                C_Work W_Net_Pressure, C_Event LUNA_ISOLATION_EVENT_NETWORK_PRESSURE_OK,
                C_Work W_Net_Tx_Pressure, C_Event LUNA_ISOLATION_EVENT_NETWORK_TX_PRESSURE_OK,
                C_Work W_Shell_Prepare, C_Work W_User_Smoke, C_Event LUNA_ISOLATION_EVENT_USER_PROGRAM_OK,
                C_Event LUNA_ISOLATION_EVENT_LKL_SHELL_READY, C_Work W_User_Shell]
          else []) @
         child_shutdown mode)"

section \<open>The manager's expectations\<close>

text \<open>Requests that \<open>receive_event_variant\<close> serves without leaving its loop.\<close>

datatype route = Route_Memory | Route_Disk | Route_Disk_Batch | Route_Net | Route_Timer

definition manager_route :: "u64 \<Rightarrow> ipc_message \<Rightarrow> route option" where
  "manager_route badge m =
     (if msg_label m \<noteq> 0 \<or> length (msg_mrs m) \<noteq> 3 \<or> msg_badge m \<noteq> badge then None
      else
        let event = msg_mrs m ! 0; is = (\<lambda>es. event \<in> event_word ` es)
        in if is {LUNA_ISOLATION_EVENT_MEMORY_MAP, LUNA_ISOLATION_EVENT_MEMORY_UNMAP} then Some Route_Memory
           else if is {LUNA_ISOLATION_EVENT_DISK_READ, LUNA_ISOLATION_EVENT_DISK_WRITE, LUNA_ISOLATION_EVENT_DISK_FLUSH}
           then Some Route_Disk
           else if is {LUNA_ISOLATION_EVENT_DISK_SUBMIT_BATCH} \<and> msg_mrs m ! 2 = 0 then Some Route_Disk_Batch
           else if is {LUNA_ISOLATION_EVENT_NET_TX, LUNA_ISOLATION_EVENT_NET_RX, LUNA_ISOLATION_EVENT_NET_TX_BATCH,
                       LUNA_ISOLATION_EVENT_NET_RX_BATCH, LUNA_ISOLATION_EVENT_NET_WAKE, LUNA_ISOLATION_EVENT_NET_CONTROL,
                       LUNA_ISOLATION_EVENT_NET_STATS, LUNA_ISOLATION_EVENT_NET_TX_STATS, LUNA_ISOLATION_EVENT_NET_TX_STRESS,
                       LUNA_ISOLATION_EVENT_NET_DEBUG}
           then Some Route_Net
           else if is {LUNA_ISOLATION_EVENT_TIMER_ARM, LUNA_ISOLATION_EVENT_TIMER_CANCEL} then Some Route_Timer
           else None)"

text \<open>The checks on a message that is not such a request; \<open>alternative\<close> is 0 when there is none.\<close>

definition lifecycle_check :: "u64 \<Rightarrow> u64 \<Rightarrow> u64 \<Rightarrow> u64 \<Rightarrow> luna_heap_resource \<Rightarrow> ipc_message \<Rightarrow> bool" where
  "lifecycle_check badge expected_event alternative_event expected_detail heap m =
     (let len = length (msg_mrs m);
          event = (if len > 0 then msg_mrs m ! 0 else 0);
          detail = (if len > 1 then msg_mrs m ! 1 else 0);
          peak = hr_peak_pages heap
      in if msg_label m \<noteq> 0 \<or> len < 2 \<or> msg_badge m \<noteq> badge \<or> (event \<noteq> expected_event \<and> event \<noteq> alternative_event) \<or>
            detail \<noteq> expected_detail
         then False
         else if (event = event_word LUNA_ISOLATION_EVENT_ALLOCATOR_OK \<or> event = event_word LUNA_ISOLATION_EVENT_ALLOCATOR_RELEASED) \<and>
                 hr_mapped_pages heap \<noteq> 0
         then False
         else if event = event_word LUNA_ISOLATION_EVENT_ALLOCATOR_OK
         then (case luna_allocator_profile_for_mode detail of
                 LUNA_ALLOCATOR_PROFILE_FULL \<Rightarrow> peak = LUNA_CHILD_HEAP_PAGES
               | LUNA_ALLOCATOR_PROFILE_LIGHT \<Rightarrow> peak \<noteq> 0 \<and> peak \<le> LUNA_ALLOCATOR_LIGHT_MAX_PAGES)
         else True)"

datatype manager_action = M_Expect luna_isolation_event "luna_isolation_event option" | M_Configure | M_Start | M_Verify_Irq | M_Expect_Fault

definition expect :: "luna_isolation_event \<Rightarrow> manager_action" where
  "expect e = M_Expect e None"

definition boot_child :: "luna_isolation_mode \<Rightarrow> manager_action list" where
  "boot_child mode =
     [expect LUNA_ISOLATION_EVENT_READY, expect LUNA_ISOLATION_EVENT_LKL_LINKED, M_Configure,
      expect LUNA_ISOLATION_EVENT_RESOURCE_CONFIGURED, M_Start,
      expect LUNA_ISOLATION_EVENT_RESOURCE_OK, expect LUNA_ISOLATION_EVENT_ALLOCATOR_OK,
      expect LUNA_ISOLATION_EVENT_SYNC_TLS_OK, expect LUNA_ISOLATION_EVENT_THREAD_TIMER_OK,
      expect LUNA_ISOLATION_EVENT_LKL_INIT_OK, expect LUNA_ISOLATION_EVENT_LKL_BOOT_OK] @
     (if mode = LUNA_ISOLATION_MODE_CLEAN
      then [expect LUNA_ISOLATION_EVENT_VIRTIO_NET_OK, expect LUNA_ISOLATION_EVENT_NETWORK_IPV4_OK] else []) @
     [expect LUNA_ISOLATION_EVENT_VIRTIO_BLOCK_OK]"

definition wait_child_halt :: "manager_action list" where
  "wait_child_halt = [expect LUNA_ISOLATION_EVENT_LKL_HALT_OK, expect LUNA_ISOLATION_EVENT_ALLOCATOR_RELEASED]"

text \<open>The three kinds of life in \<open>luna_isolation_smoke\<close>, from the boot to the release of the child.\<close>

definition manager_life :: "luna_isolation_mode \<Rightarrow> manager_action list" where
  "manager_life mode = boot_child mode @
     (case mode of
        LUNA_ISOLATION_MODE_FAULT \<Rightarrow> wait_child_halt @ [M_Expect_Fault]
      | LUNA_ISOLATION_MODE_STRESS \<Rightarrow> wait_child_halt @ [expect LUNA_ISOLATION_EVENT_DONE]
      | LUNA_ISOLATION_MODE_CLEAN \<Rightarrow>
          [M_Expect LUNA_ISOLATION_EVENT_NETWORK_ICMP_OK (Some LUNA_ISOLATION_EVENT_NETWORK_ICMP_UNAVAILABLE),
           expect LUNA_ISOLATION_EVENT_NETWORK_TCP_OK, expect LUNA_ISOLATION_EVENT_NETWORK_PRESSURE_OK,
           expect LUNA_ISOLATION_EVENT_NETWORK_TX_PRESSURE_OK, M_Verify_Irq,
           expect LUNA_ISOLATION_EVENT_USER_PROGRAM_OK, expect LUNA_ISOLATION_EVENT_LKL_SHELL_READY] @
          wait_child_halt @ [expect LUNA_ISOLATION_EVENT_DONE])"

section \<open>Meeting\<close>

record life_env =
  le_work :: "child_work \<Rightarrow> bool"                          \<comment> \<open>which calls of the child succeed\<close>
  le_heap :: "luna_isolation_event \<Rightarrow> luna_heap_resource"  \<comment> \<open>the manager's view of the heap when an event arrives\<close>
  le_irq :: bool                                           \<comment> \<open>\<open>luna_network_verify_irq\<close> succeeds\<close>
  le_boot :: child_boot_state
  le_pool :: task_sync_pool
  le_net :: task_net_backend
  le_badge :: u64
  le_mode :: luna_isolation_mode
  le_private_addr :: u64
  le_resources :: luna_child_resources
  le_tsc_frequency :: u64

datatype outcome = Finished | Child_Spins | Manager_Fails | Out_Of_Step

definition send_event :: "life_env \<Rightarrow> luna_isolation_event \<Rightarrow> ipc_message" where
  "send_event v e = Message (le_badge v) 0 [event_word e, cb_mode (le_boot v)]"

text \<open>The event meets the expectation, and is not taken for a request.\<close>

definition event_accepted :: "life_env \<Rightarrow> luna_isolation_event \<Rightarrow> luna_isolation_event \<Rightarrow> luna_isolation_event option \<Rightarrow> bool" where
  "event_accepted v e a alt \<longleftrightarrow> manager_route (le_badge v) (send_event v e) = None \<and>
     lifecycle_check (le_badge v) (event_word a) (case alt of None \<Rightarrow> 0 | Some x \<Rightarrow> event_word x) (mode_word (le_mode v)) (le_heap v e)
       (send_event v e)"

definition configured_child :: "life_env \<Rightarrow> bool" where
  "configured_child v = (case child_configure (le_boot v) (le_pool v) (le_net v) (boot_commands (le_resources v)) of
     Some (setup, []) \<Rightarrow> True | _ \<Rightarrow> False)"

fun meet_event :: "life_env \<Rightarrow> child_action \<Rightarrow> manager_action \<Rightarrow> outcome" where
  "meet_event v (C_Event e) (M_Expect a alt) = (if event_accepted v e a alt then Finished else Manager_Fails)"
| "meet_event v C_Configure M_Configure = (if configured_child v then Finished else Child_Spins)"
| "meet_event v C_Start M_Start = (if receive_start (send_start (le_tsc_frequency v)) = None then Child_Spins else Finished)"
| "meet_event v C_Touch_Private M_Expect_Fault =
     (if cb_private_addr (le_boot v) = le_private_addr v then Finished else Manager_Fails)"
| "meet_event v c m = Out_Of_Step"

fun meet :: "life_env \<Rightarrow> child_action list \<Rightarrow> manager_action list \<Rightarrow> outcome" where
  "meet v (C_Work k # cs) ms = (if le_work v k then meet v cs ms else Child_Spins)"
| "meet v cs (M_Verify_Irq # ms) = (if le_irq v then meet v cs ms else Manager_Fails)"
| "meet v [] [] = Finished"
| "meet v (c # cs) (m # ms) = (case meet_event v c m of Finished \<Rightarrow> meet v cs ms | r \<Rightarrow> r)"
| "meet v cs ms = Out_Of_Step"

section \<open>Facts\<close>

text \<open>How the words of the argument vector are written.\<close>

fun decimal :: "nat \<Rightarrow> string" where
  "decimal n = (if n < 10 then [char_of (48 + n)] else decimal (n div 10) @ [char_of (48 + n mod 10)])"

declare decimal.simps [simp del]

lemma digit_code: "n < 10 \<Longrightarrow> of_char (char_of (48 + n) :: char) = 48 + (n :: nat)"
  by simp

lemma parse_digits_append:
  "\<forall>c \<in> set xs. of_char c \<ge> (48 :: nat) \<and> of_char c \<le> (57 :: nat) \<Longrightarrow> parse_digits v (xs @ ys) = parse_digits (parse_digits v xs) ys"
  by (induction xs arbitrary: v) simp_all

lemma decimal_digits: "c \<in> set (decimal n) \<Longrightarrow> of_char c \<ge> (48 :: nat) \<and> of_char c \<le> (57 :: nat)"
proof (induction n rule: decimal.induct)
  case (1 n)
  show ?case
  proof (cases "n < 10")
    case True
    then show ?thesis using "1.prems" digit_code [OF True] by (simp add: decimal.simps)
  next
    case False
    have "n mod 10 < 10" by simp
    then show ?thesis using "1.prems" "1.IH" [OF False] digit_code [of "n mod 10"] False by (auto simp: decimal.simps [of n])
  qed
qed

lemma parse_decimal: "parse_digits 0 (decimal n) = of_nat n"
proof (induction n rule: decimal.induct)
  case (1 n)
  show ?case
  proof (cases "n < 10")
    case True
    then show ?thesis using digit_code [OF True] by (simp add: decimal.simps)
  next
    case False
    have m: "n mod 10 < 10" by simp
    have "parse_digits 0 (decimal n) = parse_digits (of_nat (n div 10)) [char_of (48 + n mod 10)]"
      using parse_digits_append [of "decimal (n div 10)" 0] decimal_digits "1.IH" [OF False] False by (simp add: decimal.simps [of n])
    also have "\<dots> = of_nat (n div 10) * 10 + of_nat (n mod 10)" using digit_code [OF m] by simp
    also have "\<dots> = of_nat (n div 10 * 10 + n mod 10)" by (simp only: of_nat_add of_nat_mult) simp
    finally show ?thesis by simp
  qed
qed

lemma receive_all_ok:
  assumes "\<And>j. f j (g j) = Some (h j)"
  shows "receive_all f i n (map g [i..<i + n] @ rest) = Some (map h [i..<i + n], rest)"
proof (induction n arbitrary: i)
  case (Suc n)
  have "[i..<i + Suc n] = i # [Suc i..<Suc i + n]" by (simp add: upt_conv_Cons)
  then show ?case using Suc [of "Suc i"] assms by simp
qed simp

text \<open>What the child is to learn about a thread slot.\<close>

definition slot_resource :: "luna_resource_slot \<Rightarrow> luna_task_thread_resource" where
  "slot_resource x = \<lparr>tr_tcb = rs_child_tcb x, tr_stack_top = rs_stack_top x, tr_stack_pages = rs_stack_size x,
     tr_ipc_buffer_addr = rs_ipc_buffer_addr x, tr_join_ntfn = rs_child_join_ntfn x\<rparr>"

text \<open>What \<open>configure_resource_pool\<close> and \<open>luna_network_map_child\<close> leave when they succeed: no null capability or address.\<close>

definition resources_ok :: "luna_child_resources \<Rightarrow> bool" where
  "resources_ok r \<longleftrightarrow> (\<forall>i < LUNA_RESOURCE_SLOTS. thread_resource_ok (slot_resource (cr_slots r i))) \<and>
     (\<forall>i < LUNA_SYNC_SLOTS. cr_sync r i \<noteq> 0) \<and> cr_console_port r \<noteq> 0 \<and> cr_rx_ntfn r \<noteq> 0 \<and> cr_tx_ntfn r \<noteq> 0 \<and> cr_tx_submit_ntfn r \<noteq> 0"

lemma receive_slot_ok: "receive_slot j (send_resource_slot x j) = Some (slot_resource x)"
  by (simp add: receive_slot_def send_resource_slot_def receive_command_def slot_resource_def)

lemma receive_sync_ok: "receive_sync j (send_sync_slot x j) = Some x"
  by (simp add: receive_sync_def send_sync_slot_def receive_command_def)

lemma receive_rest_ok:
  "x \<noteq> 0 \<Longrightarrow> receive_console (send_console_resource x) = Some x"
  "receive_disk send_disk_resource = Some (of_nat LUNA_DISK_IO_BASE, of_nat LUNA_DISK_IO_SIZE, of_nat LUNA_PERSISTENT_DISK_SIZE)"
  "resources_ok r \<Longrightarrow> receive_net (send_net_resource r) =
     Some (of_nat LUNA_NET_IO_BASE, of_nat LUNA_NET_IO_SIZE, cr_rx_ntfn r, cr_tx_ntfn r, cr_tx_submit_ntfn r)"
  by (simp_all add: receive_console_def send_console_resource_def receive_disk_def send_disk_resource_def receive_net_def
      send_net_resource_def receive_command_def resources_ok_def)

lemma configure_resources_ok:
  assumes "resources_ok r" "control \<noteq> 0" "command \<noteq> 0"
  shows "\<exists>s'. luna_lkl_task_configure_resources (map (\<lambda>i. slot_resource (cr_slots r i)) [0..<LUNA_RESOURCE_SLOTS]) (map (cr_sync r) [0..<LUNA_SYNC_SLOTS])
      (cr_console_port r) control command s =
    (0, \<lparr>task_manager_control_ep = control, task_manager_command_ep = command, task_manager_ipc_count = 0\<rparr>, s') \<and>
    sync_pool_ok s' \<and> (\<forall>j < LUNA_SYNC_SLOTS. ss_ntfn (task_sync s' j) = cr_sync r j)"
proof -
  let ?sync = "\<lambda>i. map (cr_sync r) [0..<LUNA_SYNC_SLOTS] ! i"
  have t: "list_all thread_resource_ok (map (\<lambda>i. slot_resource (cr_slots r i)) [0..<LUNA_RESOURCE_SLOTS])"
    using assms(1) by (auto simp: list_all_iff resources_ok_def)
  have n: "\<forall>j < LUNA_SYNC_SLOTS. ?sync j \<noteq> 0" using assms(1) by (simp add: resources_ok_def)
  obtain e s' where c: "configure_sync ?sync s = (e, s')" by fastforce
  have "e = 0" "sync_pool_ok s'" "\<forall>j < LUNA_SYNC_SLOTS. ss_ntfn (task_sync s' j) = cr_sync r j"
    using configure_sync_ok [OF n, of s] c by simp_all
  then show ?thesis using t c assms by (simp add: luna_lkl_task_configure_resources_def Let_def resources_ok_def)
qed

lemma child_configure_ok:
  assumes "resources_ok r" "cb_control_ep boot \<noteq> 0" "cb_command_ep boot \<noteq> 0"
  shows "\<exists>setup. child_configure boot pool net (boot_commands r) = Some (setup, []) \<and>
    cs_slots setup = map (\<lambda>i. slot_resource (cr_slots r i)) [0..<LUNA_RESOURCE_SLOTS] \<and> cs_sync setup = map (cr_sync r) [0..<LUNA_SYNC_SLOTS] \<and>
    cs_console setup = cr_console_port r \<and> ipc_ready (cs_channel setup) \<and> sync_pool_ok (cs_pool setup) \<and>
    task_disk_get_capacity (cs_disk setup) = Some LUNA_PERSISTENT_DISK_SIZE \<and> tn_configured (cs_net setup)"
proof -
  let ?slots = "map (\<lambda>i. slot_resource (cr_slots r i)) [0..<LUNA_RESOURCE_SLOTS]" and ?sync = "map (cr_sync r) [0..<LUNA_SYNC_SLOTS]"
  let ?rest = "[send_console_resource (cr_console_port r), send_disk_resource, send_net_resource r]"
  let ?c = "\<lparr>task_manager_control_ep = cb_control_ep boot, task_manager_command_ep = cb_command_ep boot, task_manager_ipc_count = 0\<rparr>"
  have one: "receive_all receive_slot 0 LUNA_RESOURCE_SLOTS (boot_commands r) =
      Some (?slots, map (\<lambda>i. send_sync_slot (cr_sync r i) i) [0..<LUNA_SYNC_SLOTS] @ ?rest)"
    using receive_all_ok [of receive_slot "\<lambda>i. send_resource_slot (cr_slots r i) i" "\<lambda>i. slot_resource (cr_slots r i)" 0 LUNA_RESOURCE_SLOTS]
    by (simp add: receive_slot_ok boot_commands_def)
  have two: "receive_all receive_sync 0 LUNA_SYNC_SLOTS (map (\<lambda>i. send_sync_slot (cr_sync r i) i) [0..<LUNA_SYNC_SLOTS] @ ?rest) = Some (?sync, ?rest)"
    using receive_all_ok [of receive_sync "\<lambda>i. send_sync_slot (cr_sync r i) i" "cr_sync r" 0 LUNA_SYNC_SLOTS] by (simp add: receive_sync_ok)
  obtain s' where res: "luna_lkl_task_configure_resources ?slots ?sync (cr_console_port r) (cb_control_ep boot) (cb_command_ep boot) pool = (0, ?c, s')"
    "sync_pool_ok s'" using configure_resources_ok [OF assms(1-3)] by blast
  have u: "unat (of_nat LUNA_DISK_IO_BASE :: u64) = LUNA_DISK_IO_BASE" "unat (of_nat LUNA_DISK_IO_SIZE :: u64) = LUNA_DISK_IO_SIZE"
    "unat (of_nat LUNA_PERSISTENT_DISK_SIZE :: u64) = LUNA_PERSISTENT_DISK_SIZE" by (simp_all add: luna_consts)
  have al: "LUNA_DISK_IO_BASE mod 512 = 0" "LUNA_PERSISTENT_DISK_SIZE \<noteq> 0" by (simp_all add: luna_consts)
  obtain disk where disk: "luna_lkl_task_configure_disk LUNA_DISK_IO_BASE LUNA_DISK_IO_SIZE LUNA_PERSISTENT_DISK_SIZE ?c = Some disk"
    "task_disk_get_capacity disk = Some LUNA_PERSISTENT_DISK_SIZE"
    using al by (simp add: luna_lkl_task_configure_disk_def task_disk_get_capacity_def)
  have net: "luna_lkl_task_configure_net (of_nat LUNA_NET_IO_BASE) (of_nat LUNA_NET_IO_SIZE) LUNA_NET_MAC_WORD0 LUNA_NET_MAC_WORD1
      (cr_rx_ntfn r) (cr_tx_ntfn r) (cr_tx_submit_ntfn r) net = (0, zero_backend\<lparr>tn_configured := True\<rparr>)"
    using assms(1) by (simp add: luna_lkl_task_configure_net_def resources_ok_def)
  have nz: "cr_console_port r \<noteq> 0" using assms(1) by (simp add: resources_ok_def)
  show ?thesis
    unfolding child_configure_def one
    by (simp add: two receive_rest_ok(1) [OF nz] receive_rest_ok(2) receive_rest_ok(3) [OF assms(1)] res(1) u disk net)
      (simp add: res(2) ipc_ready_def assms(2,3) disk)
qed

text \<open>The heap as the manager wants to see it: empty at the two allocator events, and the peak of the test's profile.\<close>

definition heap_expected :: "life_env \<Rightarrow> bool" where
  "heap_expected v \<longleftrightarrow> hr_mapped_pages (le_heap v LUNA_ISOLATION_EVENT_ALLOCATOR_OK) = 0 \<and>
     hr_mapped_pages (le_heap v LUNA_ISOLATION_EVENT_ALLOCATOR_RELEASED) = 0 \<and>
     (if le_mode v = LUNA_ISOLATION_MODE_STRESS
      then hr_peak_pages (le_heap v LUNA_ISOLATION_EVENT_ALLOCATOR_OK) \<noteq> 0 \<and>
           hr_peak_pages (le_heap v LUNA_ISOLATION_EVENT_ALLOCATOR_OK) \<le> LUNA_ALLOCATOR_LIGHT_MAX_PAGES
      else hr_peak_pages (le_heap v LUNA_ISOLATION_EVENT_ALLOCATOR_OK) = LUNA_CHILD_HEAP_PAGES)"

lemma event_accepted_ok:
  assumes "cb_mode (le_boot v) = mode_word (le_mode v)" "e = a \<or> alt = Some e" "heap_expected v"
  shows "event_accepted v e a alt"
proof -
  have "manager_route (le_badge v) (send_event v e) = None" by (simp add: manager_route_def send_event_def)
  moreover have "luna_allocator_profile_for_mode (mode_word (le_mode v)) =
      (if le_mode v = LUNA_ISOLATION_MODE_STRESS then LUNA_ALLOCATOR_PROFILE_LIGHT else LUNA_ALLOCATOR_PROFILE_FULL)"
    by (cases "le_mode v") (simp_all add: luna_allocator_profile_for_mode_def)
  moreover have "event_word e = event_word LUNA_ISOLATION_EVENT_ALLOCATOR_OK \<longleftrightarrow> e = LUNA_ISOLATION_EVENT_ALLOCATOR_OK"
    "event_word e = event_word LUNA_ISOLATION_EVENT_ALLOCATOR_RELEASED \<longleftrightarrow> e = LUNA_ISOLATION_EVENT_ALLOCATOR_RELEASED"
    by (cases e; simp)+
  ultimately show ?thesis using assms unfolding event_accepted_def lifecycle_check_def Let_def send_event_def heap_expected_def
    by (cases "e = LUNA_ISOLATION_EVENT_ALLOCATOR_OK"; cases "e = LUNA_ISOLATION_EVENT_ALLOCATOR_RELEASED") auto
qed

lemma child_arguments_ok:
  "child_arguments (map (\<lambda>w. Some (decimal (unat w))) [control, command, mode, private]) =
     Some \<lparr>cb_control_ep = control, cb_command_ep = command, cb_mode = mode, cb_private_addr = private\<rparr>"
  by (simp add: child_arguments_def parse_word_def parse_decimal)

text \<open>
  When the actions of the child that are not tests meet, one by one, those of the manager that are
  not checks of its own, only a failing test or check can end the life early.
\<close>

fun is_work :: "child_action \<Rightarrow> bool" where
  "is_work (C_Work k) = True"
| "is_work c = False"

lemma meet_in_step:
  "list_all2 (\<lambda>c m. meet_event v c m = Finished) (filter (\<lambda>c. \<not> is_work c) cs) (filter (\<lambda>m. m \<noteq> M_Verify_Irq) ms) \<Longrightarrow>
   meet v cs ms \<noteq> Out_Of_Step \<and>
   (meet v cs ms = Finished) = ((\<forall>k. C_Work k \<in> set cs \<longrightarrow> le_work v k) \<and> (M_Verify_Irq \<in> set ms \<longrightarrow> le_irq v))"
  by (induction v cs ms rule: meet.induct) auto

lemma meet_lives:
  assumes "cb_mode (le_boot v) = mode_word (le_mode v)" "heap_expected v" "configured_child v" "le_tsc_frequency v \<noteq> 0"
    "cb_private_addr (le_boot v) = le_private_addr v"
  shows "meet v (child_main (mode_word (le_mode v)) icmp) (manager_life (le_mode v)) \<noteq> Out_Of_Step \<and>
    (meet v (child_main (mode_word (le_mode v)) icmp) (manager_life (le_mode v)) = Finished) =
      ((\<forall>k. C_Work k \<in> set (child_main (mode_word (le_mode v)) icmp) \<longrightarrow> le_work v k) \<and>
       (le_mode v = LUNA_ISOLATION_MODE_CLEAN \<longrightarrow> le_irq v))"
proof -
  have ev: "event_accepted v e e alt" "event_accepted v e a (Some e)" for e a alt
    using event_accepted_ok [OF assms(1) _ assms(2)] by simp_all
  have st: "receive_start (send_start (le_tsc_frequency v)) \<noteq> None"
    using assms(4) by (simp add: receive_start_def send_start_def receive_command_def)
  note defs = child_main_def child_shutdown_def manager_life_def boot_child_def wait_child_halt_def finish_child_def expect_def Let_def
  have "list_all2 (\<lambda>c m. meet_event v c m = Finished)
      (filter (\<lambda>c. \<not> is_work c) (child_main (mode_word (le_mode v)) icmp)) (filter (\<lambda>m. m \<noteq> M_Verify_Irq) (manager_life (le_mode v)))"
    using assms(3,5) st by (cases "le_mode v"; cases icmp) (simp_all add: defs ev)
  moreover have "M_Verify_Irq \<in> set (manager_life (le_mode v)) \<longleftrightarrow> le_mode v = LUNA_ISOLATION_MODE_CLEAN"
    by (cases "le_mode v") (simp_all add: manager_life_def boot_child_def wait_child_halt_def expect_def)
  ultimately show ?thesis using meet_in_step by metis
qed


definition sample_life :: life_env where
  "sample_life = \<lparr>le_work = (\<lambda>_. True), le_heap = (\<lambda>_. \<lparr>hr_mapped = (\<lambda>_. False), hr_mapped_pages = 0, hr_peak_pages = 64, hr_reserved = True\<rparr>),
     le_irq = False, le_boot = \<lparr>cb_control_ep = 7, cb_command_ep = 8, cb_mode = 3, cb_private_addr = 0x40000000\<rparr>, le_pool = sample_pool,
     le_net = zero_backend, le_badge = 0x43, le_mode = LUNA_ISOLATION_MODE_STRESS, le_private_addr = 0x40000000,
     le_resources = \<lparr>cr_slots = (\<lambda>i. \<lparr>rs_child_tcb = 1, rs_stack_top = 0x10000, rs_stack_size = 4, rs_ipc_buffer_addr = 0x20000, rs_child_join_ntfn = 2\<rparr>),
       cr_sync = (\<lambda>i. 3), cr_console_port = 4, cr_rx_ntfn = 5, cr_tx_ntfn = 6, cr_tx_submit_ntfn = 9\<rparr>, le_tsc_frequency = 1000\<rparr>"


end
