(* ===== verification/Child_Lifecycle.thy ===== *)
theory Child_Lifecycle
  imports Child_Boot
begin

text \<open>
  Creation and destruction of a child by the manager (\<open>start_child\<close>, \<open>configure_resource_pool\<close>,
  \<open>map_persistent_disk\<close>, the window part of \<open>luna_network_map_child\<close>, \<open>destroy_child\<close>, the
  injected roll-backs and their audit). seL4, \<open>vka\<close> and \<open>sel4utils\<close> are outside the program:
  each of their calls succeeds or fails as the environment says. A ledger records which kernel
  things exist; it goes bad when something is released that does not exist, released before a
  capability derived from it, or released after the address space it lives in.
\<close>

section \<open>Things and the ledger\<close>

datatype thing =
    T_Process | T_Thread nat | T_Child_Tcb nat | T_Join nat | T_Child_Join nat | T_Sync nat | T_Child_Sync nat
  | T_Console_Slot | T_Console_Cap | T_Child_Port | T_Child_Rx | T_Child_Tx | T_Child_Submit
  | T_Heap_Reservation | T_Heap_Page nat | T_Disk_Reservation | T_Disk_Slot nat | T_Disk_Cap nat
  | T_Net_Reservation | T_Net_Slot nat | T_Net_Cap nat | T_Child_Control | T_Child_Command

text \<open>
  \<open>lg_mapped\<close>: frame capabilities that the child's address space has mapped and therefore owns.
  \<open>lg_leaf\<close>: spans of the heap reservation that have a leaf table.
\<close>

record ledger =
  lg_live :: "thing \<Rightarrow> bool"
  lg_mapped :: "thing \<Rightarrow> bool"
  lg_leaf :: "nat \<Rightarrow> bool"
  lg_bad :: bool

fun derived :: "thing \<Rightarrow> thing option" where
  "derived (T_Thread i) = Some (T_Child_Tcb i)"
| "derived (T_Join i) = Some (T_Child_Join i)"
| "derived (T_Sync i) = Some (T_Child_Sync i)"
| "derived T_Console_Cap = Some T_Child_Port"
| "derived T_Console_Slot = Some T_Console_Cap"
| "derived (T_Disk_Slot i) = Some (T_Disk_Cap i)"
| "derived (T_Net_Slot i) = Some (T_Net_Cap i)"
| "derived t = None"

fun in_process :: "thing \<Rightarrow> bool" where
  "in_process (T_Thread i) = True"
| "in_process (T_Child_Tcb i) = True"
| "in_process (T_Child_Join i) = True"
| "in_process (T_Child_Sync i) = True"
| "in_process T_Child_Port = True"
| "in_process T_Child_Rx = True"
| "in_process T_Child_Tx = True"
| "in_process T_Child_Submit = True"
| "in_process T_Heap_Reservation = True"
| "in_process (T_Heap_Page i) = True"
| "in_process t = False"

definition acquire :: "thing \<Rightarrow> ledger \<Rightarrow> ledger" where
  "acquire t l = l\<lparr>lg_live := (lg_live l)(t := True), lg_bad := lg_bad l \<or> lg_live l t\<rparr>"

definition release_bad :: "thing \<Rightarrow> ledger \<Rightarrow> bool" where
  "release_bad t l \<longleftrightarrow> \<not> lg_live l t \<or> (case derived t of None \<Rightarrow> False | Some u \<Rightarrow> lg_live l u) \<or>
     (in_process t \<and> \<not> lg_live l T_Process)"

definition release :: "thing \<Rightarrow> ledger \<Rightarrow> ledger" where
  "release t l = l\<lparr>lg_live := (lg_live l)(t := False), lg_bad := lg_bad l \<or> release_bad t l\<rparr>"

text \<open>What goes with the child's capability and address space.\<close>

fun owned :: "ledger \<Rightarrow> thing \<Rightarrow> bool" where
  "owned l T_Process = True"
| "owned l T_Child_Control = True"
| "owned l T_Child_Command = True"
| "owned l T_Disk_Reservation = True"
| "owned l T_Net_Reservation = True"
| "owned l (T_Disk_Slot i) = lg_mapped l (T_Disk_Cap i)"
| "owned l (T_Disk_Cap i) = lg_mapped l (T_Disk_Cap i)"
| "owned l (T_Net_Slot i) = lg_mapped l (T_Net_Cap i)"
| "owned l (T_Net_Cap i) = lg_mapped l (T_Net_Cap i)"
| "owned l t = False"

definition destroy_process :: "ledger \<Rightarrow> ledger" where
  "destroy_process l = l\<lparr>lg_live := (\<lambda>t. lg_live l t \<and> \<not> owned l t), lg_mapped := (\<lambda>_. False), lg_leaf := (\<lambda>_. False),
     lg_bad := lg_bad l \<or> \<not> lg_live l T_Process\<rparr>"

definition SPAN_PAGES :: nat where
  "SPAN_PAGES = 512"

definition SPANS :: nat where
  "SPANS = 16"

text \<open>\<open>vspace_new_pages_at_vaddr\<close>, \<open>vspace_unmap_pages\<close> and \<open>vspace_free_reservation\<close> on pages of the heap.\<close>

definition map_heap_pages :: "nat \<Rightarrow> nat \<Rightarrow> ledger \<Rightarrow> ledger" where
  "map_heap_pages first n l = fold (\<lambda>i l. (acquire (T_Heap_Page i) l)\<lparr>lg_leaf := (lg_leaf l)(i div SPAN_PAGES := True)\<rparr>) [first..<first + n] l"

definition unmap_heap_pages :: "nat \<Rightarrow> nat \<Rightarrow> ledger \<Rightarrow> ledger" where
  "unmap_heap_pages first n l = fold (\<lambda>i. release (T_Heap_Page i)) [first..<first + n] l"

definition free_heap_reservation :: "ledger \<Rightarrow> ledger" where
  "free_heap_reservation l = (release T_Heap_Reservation l)
     \<lparr>lg_bad := lg_bad l \<or> release_bad T_Heap_Reservation l \<or> \<not> list_all (lg_leaf l) [0..<SPANS] \<or>
        list_ex (\<lambda>i. lg_live l (T_Heap_Page i)) [0..<LUNA_CHILD_HEAP_PAGES]\<rparr>"

section \<open>The manager's records\<close>

record frame_mapping =
  fm_reserved :: bool
  fm_cap_allocated :: "nat \<Rightarrow> bool"
  fm_mapped_pages :: nat

record child_holdings = luna_child_resources +
  ch_thread_configured :: "nat \<Rightarrow> bool"
  ch_join_allocated :: "nat \<Rightarrow> bool"
  ch_sync_allocated :: "nat \<Rightarrow> bool"
  ch_slot_allocated :: bool
  ch_cap_created :: bool
  ch_heap :: luna_heap_resource
  ch_disk :: frame_mapping
  ch_net :: frame_mapping

record sel4utils_process =
  sp_cspace :: cptr
  sp_pd :: cptr
  sp_own_cspace :: bool
  sp_own_vspace :: bool
  sp_own_ep :: bool

definition zero_mapping :: frame_mapping where
  "zero_mapping = \<lparr>fm_reserved = False, fm_cap_allocated = (\<lambda>_. False), fm_mapped_pages = 0\<rparr>"

definition zero_slot :: luna_resource_slot where
  "zero_slot = \<lparr>rs_child_tcb = 0, rs_stack_top = 0, rs_stack_size = 0, rs_ipc_buffer_addr = 0, rs_child_join_ntfn = 0\<rparr>"

definition zero_holdings :: child_holdings where
  "zero_holdings = \<lparr>cr_slots = (\<lambda>_. zero_slot), cr_sync = (\<lambda>_. 0), cr_console_port = 0, cr_rx_ntfn = 0, cr_tx_ntfn = 0, cr_tx_submit_ntfn = 0,
     ch_thread_configured = (\<lambda>_. False), ch_join_allocated = (\<lambda>_. False), ch_sync_allocated = (\<lambda>_. False), ch_slot_allocated = False,
     ch_cap_created = False, ch_heap = \<lparr>hr_mapped = (\<lambda>_. False), hr_mapped_pages = 0, hr_peak_pages = 0, hr_reserved = False\<rparr>,
     ch_disk = zero_mapping, ch_net = zero_mapping\<rparr>"

definition zero_process :: sel4utils_process where
  "zero_process = \<lparr>sp_cspace = 0, sp_pd = 0, sp_own_cspace = False, sp_own_vspace = False, sp_own_ep = False\<rparr>"

text \<open>
  The environment: what \<open>sel4utils_configure_process_custom\<close> yields, the manager's own spaces, which
  allocations, look-ups of source frames, mappings and deletions succeed, the slots in which copied
  capabilities land (0 for a failed copy), the stacks of the threads, and whether the devices are ready.
\<close>

record lifecycle_env =
  ve_process :: "sel4utils_process option"
  ve_manager_pd :: cptr
  ve_manager_cnode :: cptr
  ve_new :: "thing \<Rightarrow> bool"
  ve_source :: "thing \<Rightarrow> bool"
  ve_map :: "thing \<Rightarrow> bool"
  ve_cptr :: "thing \<Rightarrow> cptr"
  ve_stack :: "nat \<Rightarrow> u64 \<times> u64 \<times> u64"
  ve_delete :: "thing \<Rightarrow> bool"
  ve_leaf :: "nat \<Rightarrow> bool"
  ve_disk_ready :: bool
  ve_net_ready :: bool
  ve_spawn :: bool

definition LUNA_DISK_IO_PAGES :: nat where [luna_consts]: "LUNA_DISK_IO_PAGES = LUNA_DISK_IO_SIZE div 4096"
definition LUNA_NET_IO_PAGES :: nat where [luna_consts]: "LUNA_NET_IO_PAGES = LUNA_NET_IO_SIZE div 4096"

section \<open>Acquiring\<close>

text \<open>A loop over indexes that returns at the first error.\<close>

fun each :: "(nat \<Rightarrow> 's \<Rightarrow> c_int \<times> 's) \<Rightarrow> nat \<Rightarrow> nat \<Rightarrow> 's \<Rightarrow> c_int \<times> 's" where
  "each f i 0 s = (0, s)"
| "each f i (Suc n) s = (let (e, s) = f i s in if e \<noteq> 0 then (e, s) else each f (Suc i) n s)"

text \<open>One round of the two loops that copy and map the frames of a shared window.\<close>

definition map_frame :: "lifecycle_env \<Rightarrow> (nat \<Rightarrow> thing) \<Rightarrow> (nat \<Rightarrow> thing) \<Rightarrow> nat \<Rightarrow> frame_mapping \<times> ledger \<Rightarrow> c_int \<times> frame_mapping \<times> ledger" where
  "map_frame v slot cap i = (\<lambda>(m, l).
     if \<not> ve_source v (cap i) \<or> \<not> ve_new v (slot i) then (-1, m, l)
     else
       let l = acquire (slot i) l
       in if \<not> ve_new v (cap i) then (-1, m, release (slot i) l)
          else
            let l = acquire (cap i) l; m = m\<lparr>fm_cap_allocated := (fm_cap_allocated m)(i := True)\<rparr>
            in if \<not> ve_map v (cap i) then (-1, m, l)
               else (0, m\<lparr>fm_mapped_pages := fm_mapped_pages m + 1\<rparr>, l\<lparr>lg_mapped := (lg_mapped l)(cap i := True)\<rparr>))"

definition map_persistent_disk :: "lifecycle_env \<Rightarrow> child_holdings \<times> ledger \<Rightarrow> c_int \<times> child_holdings \<times> ledger" where
  "map_persistent_disk v = (\<lambda>(r, l).
     if \<not> ve_disk_ready v \<or> \<not> ve_new v T_Disk_Reservation then (-1, r, l)
     else
       let (e, m, l) = each (map_frame v T_Disk_Slot T_Disk_Cap) 0 LUNA_DISK_IO_PAGES
             ((ch_disk r)\<lparr>fm_reserved := True\<rparr>, acquire T_Disk_Reservation l)
       in (e, r\<lparr>ch_disk := m\<rparr>, l))"

text \<open>\<open>sel4utils_copy_cap_to_process\<close> and \<open>sel4utils_mint_cap_to_process\<close>.\<close>

definition copy_cap_to_process :: "lifecycle_env \<Rightarrow> thing \<Rightarrow> ledger \<Rightarrow> cptr \<times> ledger" where
  "copy_cap_to_process v t l = (if ve_cptr v t = 0 then (0, l) else (ve_cptr v t, acquire t l))"

definition network_map_child :: "lifecycle_env \<Rightarrow> child_holdings \<times> ledger \<Rightarrow> c_int \<times> child_holdings \<times> ledger" where
  "network_map_child v = (\<lambda>(r, l).
     if \<not> ve_net_ready v \<or> \<not> ve_new v T_Net_Reservation then (-1, r, l)
     else
       let (e, m, l) = each (map_frame v T_Net_Slot T_Net_Cap) 0 LUNA_NET_IO_PAGES
             ((ch_net r)\<lparr>fm_reserved := True\<rparr>, acquire T_Net_Reservation l);
           r = r\<lparr>ch_net := m\<rparr>
       in if e \<noteq> 0 then (e, r, l)
          else
            let (c, l) = copy_cap_to_process v T_Child_Rx l; r = r\<lparr>cr_rx_ntfn := c\<rparr>
            in if c = 0 then (-1, r, l)
               else
                 let (c, l) = copy_cap_to_process v T_Child_Tx l; r = r\<lparr>cr_tx_ntfn := c\<rparr>
                 in if c = 0 then (-1, r, l)
                    else
                      let (c, l) = copy_cap_to_process v T_Child_Submit l
                      in (if c = 0 then -1 else 0, r\<lparr>cr_tx_submit_ntfn := c\<rparr>, l))"

definition slot_update :: "nat \<Rightarrow> (luna_resource_slot \<Rightarrow> luna_resource_slot) \<Rightarrow> child_holdings \<Rightarrow> child_holdings" where
  "slot_update i f r = r\<lparr>cr_slots := (cr_slots r)(i := f (cr_slots r i))\<rparr>"

definition configure_join :: "lifecycle_env \<Rightarrow> nat \<Rightarrow> child_holdings \<times> ledger \<Rightarrow> c_int \<times> child_holdings \<times> ledger" where
  "configure_join v i = (\<lambda>(r, l).
     if \<not> ve_new v (T_Join i) then (-1, r, l)
     else
       let (c, l) = copy_cap_to_process v (T_Child_Join i) (acquire (T_Join i) l);
           r = r\<lparr>ch_join_allocated := (ch_join_allocated r)(i := True)\<rparr>
       in (if c = 0 then -1 else 0, slot_update i (\<lambda>s. s\<lparr>rs_child_join_ntfn := c\<rparr>) r, l))"

definition configure_slot :: "lifecycle_env \<Rightarrow> nat \<Rightarrow> child_holdings \<times> ledger \<Rightarrow> c_int \<times> child_holdings \<times> ledger" where
  "configure_slot v i = (\<lambda>(r, l).
     if \<not> ve_new v (T_Thread i) then (-1, r, l)
     else
       let (stack, pages, buffer) = ve_stack v i;
           r = (slot_update i (\<lambda>s. s\<lparr>rs_stack_top := stack, rs_stack_size := pages, rs_ipc_buffer_addr := buffer\<rparr>) r)
                 \<lparr>ch_thread_configured := (ch_thread_configured r)(i := True)\<rparr>;
           (c, l) = copy_cap_to_process v (T_Child_Tcb i) (acquire (T_Thread i) l);
           r = slot_update i (\<lambda>s. s\<lparr>rs_child_tcb := c\<rparr>) r
       in if c = 0 then (-1, r, l) else configure_join v i (r, l))"

definition configure_sync_slot :: "lifecycle_env \<Rightarrow> nat \<Rightarrow> child_holdings \<times> ledger \<Rightarrow> c_int \<times> child_holdings \<times> ledger" where
  "configure_sync_slot v i = (\<lambda>(r, l).
     if \<not> ve_new v (T_Sync i) then (-1, r, l)
     else
       let l = acquire (T_Sync i) l;
           (c, l) = copy_cap_to_process v (T_Child_Sync i) l
       in (if c = 0 then -1 else 0, r\<lparr>ch_sync_allocated := (ch_sync_allocated r)(i := True), cr_sync := (cr_sync r)(i := c)\<rparr>, l))"

definition configure_console :: "lifecycle_env \<Rightarrow> child_holdings \<times> ledger \<Rightarrow> c_int \<times> child_holdings \<times> ledger" where
  "configure_console v = (\<lambda>(r, l).
     if \<not> ve_new v T_Console_Slot then (-1, r, l)
     else
       let l = acquire T_Console_Slot l; r = r\<lparr>ch_slot_allocated := True\<rparr>
       in if \<not> ve_new v T_Console_Cap then (-1, r, l)
          else
            let (c, l) = copy_cap_to_process v T_Child_Port (acquire T_Console_Cap l)
            in (if c = 0 then -1 else 0, r\<lparr>ch_cap_created := True, cr_console_port := c\<rparr>, l))"

definition configure_resource_pool :: "lifecycle_env \<Rightarrow> child_holdings \<times> ledger \<Rightarrow> c_int \<times> child_holdings \<times> ledger" where
  "configure_resource_pool v s =
     (let (e, s) = each (configure_slot v) 0 LUNA_RESOURCE_SLOTS s
      in if e \<noteq> 0 then (e, s)
         else
           let (e, s) = each (configure_sync_slot v) 0 LUNA_SYNC_SLOTS s
           in if e \<noteq> 0 then (e, s) else configure_console v s)"

section \<open>Releasing\<close>

definition delete_child_cap :: "lifecycle_env \<Rightarrow> sel4utils_process \<Rightarrow> thing \<Rightarrow> cptr \<Rightarrow> c_int \<times> ledger \<Rightarrow> c_int \<times> ledger" where
  "delete_child_cap v p t cap = (\<lambda>(res, l).
     if cap = 0 \<or> sp_cspace p = 0 then (res, l) else if ve_delete v t then (res, release t l) else (-1, l))"

definition destroy_slot :: "lifecycle_env \<Rightarrow> sel4utils_process \<Rightarrow> child_holdings \<Rightarrow> nat \<Rightarrow> c_int \<times> ledger \<Rightarrow> c_int \<times> ledger" where
  "destroy_slot v p r i s =
     (let s = delete_child_cap v p (T_Child_Tcb i) (rs_child_tcb (cr_slots r i)) s;
          (res, l) = delete_child_cap v p (T_Child_Join i) (rs_child_join_ntfn (cr_slots r i)) s;
          l = (if ch_thread_configured r i then release (T_Thread i) l else l);
          l = (if ch_join_allocated r i then release (T_Join i) l else l)
      in (res, l))"

definition destroy_sync_slot :: "lifecycle_env \<Rightarrow> sel4utils_process \<Rightarrow> child_holdings \<Rightarrow> nat \<Rightarrow> c_int \<times> ledger \<Rightarrow> c_int \<times> ledger" where
  "destroy_sync_slot v p r i s =
     (let (res, l) = delete_child_cap v p (T_Child_Sync i) (cr_sync r i) s
      in (res, if ch_sync_allocated r i then release (T_Sync i) l else l))"

definition destroy_ports :: "lifecycle_env \<Rightarrow> sel4utils_process \<Rightarrow> child_holdings \<Rightarrow> c_int \<times> ledger \<Rightarrow> c_int \<times> ledger" where
  "destroy_ports v p r s =
     (let s = delete_child_cap v p T_Child_Port (cr_console_port r) s;
          s = delete_child_cap v p T_Child_Rx (cr_rx_ntfn r) s;
          s = delete_child_cap v p T_Child_Tx (cr_tx_ntfn r) s;
          (res, l) = delete_child_cap v p T_Child_Submit (cr_tx_submit_ntfn r) s;
          (res, l) = (if ch_cap_created r then if ve_delete v T_Console_Cap then (res, release T_Console_Cap l) else (-1, l) else (res, l));
          l = (if ch_slot_allocated r then release T_Console_Slot l else l)
      in (res, l))"

definition materialize_span :: "lifecycle_env \<Rightarrow> luna_heap_resource \<Rightarrow> nat \<Rightarrow> ledger \<Rightarrow> c_int \<times> ledger" where
  "materialize_span v heap k l =
     (let start = k * SPAN_PAGES; stop = min (start + SPAN_PAGES) LUNA_CHILD_HEAP_PAGES
      in if first_from (hr_mapped heap) start (stop - start) \<noteq> None then (0, l)
         else if \<not> ve_leaf v k then (-1, l)
         else (0, unmap_heap_pages start 1 (map_heap_pages start 1 l)))"

definition materialize_heap_reservation_metadata :: "lifecycle_env \<Rightarrow> luna_heap_resource \<Rightarrow> ledger \<Rightarrow> c_int \<times> ledger" where
  "materialize_heap_reservation_metadata v heap l =
     (if hr_peak_pages heap = LUNA_CHILD_HEAP_PAGES then (0, l) else each (materialize_span v heap) 0 SPANS l)"

text \<open>The loop that unmaps the heap run by run; \<open>run_end\<close> is its inner loop.\<close>

definition run_end :: "(nat \<Rightarrow> bool) \<Rightarrow> nat \<Rightarrow> nat" where
  "run_end mapped i = (case first_from (\<lambda>k. \<not> mapped k) i (LUNA_CHILD_HEAP_PAGES - i) of None \<Rightarrow> LUNA_CHILD_HEAP_PAGES | Some k \<Rightarrow> k)"

lemma run_end_grows: "i < LUNA_CHILD_HEAP_PAGES \<Longrightarrow> mapped i \<Longrightarrow> i < run_end mapped i \<and> run_end mapped i \<le> LUNA_CHILD_HEAP_PAGES"
proof -
  assume a: "i < LUNA_CHILD_HEAP_PAGES" "mapped i"
  show ?thesis
  proof (cases "first_from (\<lambda>k. \<not> mapped k) i (LUNA_CHILD_HEAP_PAGES - i)")
    case (Some k)
    then have "\<not> mapped k" "i \<le> k" "k < LUNA_CHILD_HEAP_PAGES" using first_from_Some [OF Some] a by auto
    then show ?thesis using Some a by (cases "k = i") (auto simp: run_end_def)
  qed (simp add: run_end_def a)
qed

function unmap_runs :: "(nat \<Rightarrow> bool) \<Rightarrow> nat \<Rightarrow> ledger \<Rightarrow> ledger" where
  "unmap_runs mapped i l =
     (if \<not> i < LUNA_CHILD_HEAP_PAGES then l
      else if \<not> mapped i then unmap_runs mapped (Suc i) l
      else unmap_runs mapped (run_end mapped i) (unmap_heap_pages i (run_end mapped i - i) l))"
  by pat_completeness auto
termination
  by (relation "measure (\<lambda>(m, i, l). LUNA_CHILD_HEAP_PAGES - i)") (auto dest: run_end_grows)

declare unmap_runs.simps [simp del]

definition destroy_heap :: "lifecycle_env \<Rightarrow> luna_heap_resource \<Rightarrow> c_int \<times> ledger \<Rightarrow> c_int \<times> ledger" where
  "destroy_heap v heap = (\<lambda>(res, l).
     if \<not> hr_reserved heap then (res, l)
     else
       let (e, l) = materialize_heap_reservation_metadata v heap l
       in (if e \<noteq> 0 then -1 else res, free_heap_reservation (unmap_runs (hr_mapped heap) 0 l)))"

definition destroy_frame :: "lifecycle_env \<Rightarrow> (nat \<Rightarrow> thing) \<Rightarrow> (nat \<Rightarrow> thing) \<Rightarrow> frame_mapping \<Rightarrow> nat \<Rightarrow> c_int \<times> ledger \<Rightarrow> c_int \<times> ledger" where
  "destroy_frame v slot cap m i = (\<lambda>(res, l).
     if \<not> fm_cap_allocated m i then (res, l)
     else if ve_delete v (cap i) then (res, release (slot i) (release (cap i) l)) else (-1, release (slot i) l))"

definition destroy_child :: "lifecycle_env \<Rightarrow> sel4utils_process \<times> child_holdings \<times> ledger \<Rightarrow> c_int \<times> sel4utils_process \<times> child_holdings \<times> ledger" where
  "destroy_child v = (\<lambda>(p, r, l).
     let s = fold (destroy_slot v p r) [0..<LUNA_RESOURCE_SLOTS] (0, l);
         s = fold (destroy_sync_slot v p r) [0..<LUNA_SYNC_SLOTS] s;
         s = destroy_ports v p r s;
         (res, l) = destroy_heap v (ch_heap r) s;
         l = (if sp_cspace p \<noteq> 0 then destroy_process l else l);
         s = fold (destroy_frame v T_Disk_Slot T_Disk_Cap (ch_disk r)) [fm_mapped_pages (ch_disk r)..<LUNA_DISK_IO_PAGES] (res, l);
         (res, l) = fold (destroy_frame v T_Net_Slot T_Net_Cap (ch_net r)) [fm_mapped_pages (ch_net r)..<LUNA_NET_IO_PAGES] s
     in (res, zero_process, zero_holdings, l))"

section \<open>Starting a child\<close>

datatype luna_start_failpoint =
    LUNA_START_FAIL_NONE | LUNA_START_FAIL_PROCESS | LUNA_START_FAIL_HEAP | LUNA_START_FAIL_DISK | LUNA_START_FAIL_NETWORK
  | LUNA_START_FAIL_RESOURCE_POOL | LUNA_START_FAIL_CONTROL_CAP | LUNA_START_FAIL_COMMAND_CAP

type_synonym child_state = "sel4utils_process \<times> child_holdings \<times> ledger"

definition fail_start :: "lifecycle_env \<Rightarrow> child_state \<Rightarrow> c_int \<times> child_state" where
  "fail_start v s = (-1, snd (destroy_child v s))"

definition inject_start_rollback :: "lifecycle_env \<Rightarrow> luna_start_failpoint \<Rightarrow> luna_start_failpoint \<Rightarrow> child_state \<Rightarrow> c_int \<times> child_state" where
  "inject_start_rollback v configured current s =
     (if configured \<noteq> current then (0, s)
      else let (e, s) = destroy_child v s in (if e \<noteq> 0 then -1 else 1, s))"

text \<open>
  The stages of \<open>start_child\<close>: each one may fail, which destroys the child; then the roll-back
  of that stage may be injected.
\<close>

definition stage :: "lifecycle_env \<Rightarrow> luna_start_failpoint \<Rightarrow> luna_start_failpoint \<Rightarrow> (child_state \<Rightarrow> c_int \<times> child_state) \<Rightarrow>
    (child_state \<Rightarrow> c_int \<times> child_state) \<Rightarrow> child_state \<Rightarrow> c_int \<times> child_state" where
  "stage v failpoint current f k s =
     (let (e, s) = f s
      in if e \<noteq> 0 then fail_start v s
         else let (injected, s) = inject_start_rollback v failpoint current s in if injected \<noteq> 0 then (injected, s) else k s)"

definition on_holdings :: "(child_holdings \<times> ledger \<Rightarrow> c_int \<times> child_holdings \<times> ledger) \<Rightarrow> child_state \<Rightarrow> c_int \<times> child_state" where
  "on_holdings f = (\<lambda>(p, r, l). let (e, r, l) = f (r, l) in (e, p, r, l))"

definition check_process :: "lifecycle_env \<Rightarrow> child_state \<Rightarrow> c_int \<times> child_state" where
  "check_process v = (\<lambda>(p, r, l).
     (if \<not> sp_own_cspace p \<or> \<not> sp_own_vspace p \<or> \<not> sp_own_ep p \<or> sp_pd p = ve_manager_pd v \<or> sp_cspace p = ve_manager_cnode v
      then -1 else 0, p, r, l))"

definition reserve_heap :: "lifecycle_env \<Rightarrow> child_holdings \<times> ledger \<Rightarrow> c_int \<times> child_holdings \<times> ledger" where
  "reserve_heap v = (\<lambda>(r, l).
     if \<not> ve_new v T_Heap_Reservation then (-1, r, l)
     else (0, r\<lparr>ch_heap := (ch_heap r)\<lparr>hr_reserved := True\<rparr>\<rparr>, acquire T_Heap_Reservation l))"

definition mint_endpoint :: "lifecycle_env \<Rightarrow> thing \<Rightarrow> child_holdings \<times> ledger \<Rightarrow> c_int \<times> child_holdings \<times> ledger" where
  "mint_endpoint v t = (\<lambda>(r, l). let (c, l) = copy_cap_to_process v t l in (if c = 0 then -1 else 0, r, l))"

definition start_child :: "lifecycle_env \<Rightarrow> luna_start_failpoint \<Rightarrow> child_state \<Rightarrow> c_int \<times> child_state" where
  "start_child v failpoint = (\<lambda>(p, r, l).
     case ve_process v of
       None \<Rightarrow> (-1, p, r, l)
     | Some p \<Rightarrow>
         stage v failpoint LUNA_START_FAIL_PROCESS (check_process v)
        (stage v failpoint LUNA_START_FAIL_HEAP (on_holdings (reserve_heap v))
        (stage v failpoint LUNA_START_FAIL_DISK (on_holdings (map_persistent_disk v))
        (stage v failpoint LUNA_START_FAIL_NETWORK (on_holdings (network_map_child v))
        (stage v failpoint LUNA_START_FAIL_RESOURCE_POOL (on_holdings (configure_resource_pool v))
        (stage v failpoint LUNA_START_FAIL_CONTROL_CAP (on_holdings (mint_endpoint v T_Child_Control))
        (stage v failpoint LUNA_START_FAIL_COMMAND_CAP (on_holdings (mint_endpoint v T_Child_Command))
        (\<lambda>s. if \<not> ve_spawn v then fail_start v s else (0, s)))))))) (p, r, acquire T_Process l))"

definition release_child :: "lifecycle_env \<Rightarrow> child_state \<Rightarrow> c_int \<times> child_state" where
  "release_child v s = destroy_child v s"

text \<open>\<open>memcmp\<close> with a zeroed structure is equality with it.\<close>

definition audit_round :: "lifecycle_env \<Rightarrow> luna_start_failpoint \<Rightarrow> child_state \<Rightarrow> c_int \<times> child_state" where
  "audit_round v failpoint s =
     (let (result, s) = start_child v failpoint s
      in if result \<noteq> 1 \<or> fst s \<noteq> zero_process \<or> fst (snd s) \<noteq> zero_holdings
         then (-1, if result = 0 then snd (destroy_child v s) else s)
         else (0, s))"

fun audit_child_start_rollbacks :: "lifecycle_env \<Rightarrow> luna_start_failpoint list \<Rightarrow> child_state \<Rightarrow> c_int \<times> child_state" where
  "audit_child_start_rollbacks v [] s = (0, s)"
| "audit_child_start_rollbacks v (f # fs) s =
     (let (e, s) = audit_round v f s in if e \<noteq> 0 then (e, s) else audit_child_start_rollbacks v fs s)"

section \<open>What the records say\<close>

fun held :: "sel4utils_process \<Rightarrow> child_holdings \<Rightarrow> thing \<Rightarrow> bool" where
  "held p r T_Process = (sp_cspace p \<noteq> 0)"
| "held p r (T_Thread i) = ch_thread_configured r i"
| "held p r (T_Child_Tcb i) = (rs_child_tcb (cr_slots r i) \<noteq> 0)"
| "held p r (T_Join i) = ch_join_allocated r i"
| "held p r (T_Child_Join i) = (rs_child_join_ntfn (cr_slots r i) \<noteq> 0)"
| "held p r (T_Sync i) = ch_sync_allocated r i"
| "held p r (T_Child_Sync i) = (cr_sync r i \<noteq> 0)"
| "held p r T_Console_Slot = ch_slot_allocated r"
| "held p r T_Console_Cap = ch_cap_created r"
| "held p r T_Child_Port = (cr_console_port r \<noteq> 0)"
| "held p r T_Child_Rx = (cr_rx_ntfn r \<noteq> 0)"
| "held p r T_Child_Tx = (cr_tx_ntfn r \<noteq> 0)"
| "held p r T_Child_Submit = (cr_tx_submit_ntfn r \<noteq> 0)"
| "held p r T_Heap_Reservation = hr_reserved (ch_heap r)"
| "held p r (T_Heap_Page i) = hr_mapped (ch_heap r) i"
| "held p r T_Disk_Reservation = fm_reserved (ch_disk r)"
| "held p r (T_Disk_Slot i) = fm_cap_allocated (ch_disk r) i"
| "held p r (T_Disk_Cap i) = fm_cap_allocated (ch_disk r) i"
| "held p r T_Net_Reservation = fm_reserved (ch_net r)"
| "held p r (T_Net_Slot i) = fm_cap_allocated (ch_net r) i"
| "held p r (T_Net_Cap i) = fm_cap_allocated (ch_net r) i"
| "held p r T_Child_Control = False"
| "held p r T_Child_Command = False"

definition endpoint_copy :: "thing \<Rightarrow> bool" where
  "endpoint_copy t \<longleftrightarrow> t = T_Child_Control \<or> t = T_Child_Command"

definition frames_ok :: "(nat \<Rightarrow> thing) \<Rightarrow> nat \<Rightarrow> frame_mapping \<Rightarrow> ledger \<Rightarrow> bool" where
  "frames_ok cap n m l \<longleftrightarrow> (\<forall>i. lg_mapped l (cap i) = (i < fm_mapped_pages m)) \<and>
     (\<forall>i < fm_mapped_pages m. fm_cap_allocated m i) \<and> (\<forall>i. fm_cap_allocated m i \<longrightarrow> i < n)"

definition heap_ok :: "luna_heap_resource \<Rightarrow> ledger \<Rightarrow> bool" where
  "heap_ok h l \<longleftrightarrow> heap_resource_inv h \<and>
     (\<forall>i. hr_mapped h i \<longrightarrow> hr_reserved h \<and> i < LUNA_CHILD_HEAP_PAGES \<and> lg_leaf l (i div SPAN_PAGES)) \<and>
     (hr_peak_pages h = LUNA_CHILD_HEAP_PAGES \<longrightarrow> (\<forall>k < SPANS. lg_leaf l k))"

definition slots_bounded :: "child_holdings \<Rightarrow> bool" where
  "slots_bounded r \<longleftrightarrow>
     (\<forall>i \<ge> LUNA_RESOURCE_SLOTS. \<not> ch_thread_configured r i \<and> \<not> ch_join_allocated r i \<and>
        rs_child_tcb (cr_slots r i) = 0 \<and> rs_child_join_ntfn (cr_slots r i) = 0) \<and>
     (\<forall>i \<ge> LUNA_SYNC_SLOTS. \<not> ch_sync_allocated r i \<and> cr_sync r i = 0)"

text \<open>The records describe a child's things exactly.\<close>

definition child_inv :: "child_state \<Rightarrow> bool" where
  "child_inv = (\<lambda>(p, r, l). \<not> lg_bad l \<and> sp_cspace p \<noteq> 0 \<and> (\<forall>t. \<not> endpoint_copy t \<longrightarrow> lg_live l t = held p r t) \<and>
     slots_bounded r \<and> frames_ok T_Disk_Cap LUNA_DISK_IO_PAGES (ch_disk r) l \<and>
     frames_ok T_Net_Cap LUNA_NET_IO_PAGES (ch_net r) l \<and> heap_ok (ch_heap r) l)"

definition no_child :: "child_state \<Rightarrow> bool" where
  "no_child = (\<lambda>(p, r, l). r = zero_holdings \<and> \<not> lg_bad l \<and> (\<forall>t. \<not> lg_live l t) \<and> (\<forall>t. \<not> lg_mapped l t) \<and> (\<forall>k. \<not> lg_leaf l k))"

section \<open>Destroying\<close>

definition drop_things :: "thing set \<Rightarrow> ledger \<Rightarrow> ledger" where
  "drop_things S l = l\<lparr>lg_live := (\<lambda>t. lg_live l t \<and> t \<notin> S)\<rparr>"

lemma drop_things_simps [simp]:
  "lg_live (drop_things S l) t \<longleftrightarrow> lg_live l t \<and> t \<notin> S" "lg_mapped (drop_things S l) = lg_mapped l"
  "lg_leaf (drop_things S l) = lg_leaf l" "lg_bad (drop_things S l) = lg_bad l"
  "drop_things S (drop_things T l) = drop_things (T \<union> S) l" "drop_things {} l = l"
  by (auto simp: drop_things_def)

lemma drop_things_cong: "(\<And>t. lg_live l t \<Longrightarrow> (t \<in> S) = (t \<in> T)) \<Longrightarrow> drop_things S l = drop_things T l"
  by (auto simp: drop_things_def fun_eq_iff intro!: ledger.equality)

lemma release_drop: "\<not> release_bad t l \<Longrightarrow> release t l = drop_things {t} l"
  by (auto simp: release_def drop_things_def fun_eq_iff intro!: ledger.equality)

lemma drop_none: "(\<And>t. t \<in> S \<Longrightarrow> \<not> lg_live l t) \<Longrightarrow> drop_things S l = l"
  by (auto simp: drop_things_def fun_eq_iff intro!: ledger.equality)

lemma drop_absent: "\<not> lg_live l t \<Longrightarrow> drop_things (insert t S) l = drop_things S l"
  by (rule drop_things_cong) auto

lemma delete_child_cap_drop:
  assumes "ve_delete v t" "sp_cspace p \<noteq> 0" "lg_live l t = (cap \<noteq> 0)" "derived t = None" "lg_live l T_Process"
  shows "delete_child_cap v p t cap (res, l) = (res, drop_things {t} l)"
  using assms release_drop [of t l] drop_absent [of l t "{}"] by (auto simp: delete_child_cap_def release_bad_def)

lemma fold_drop:
  assumes step: "\<And>i l. i \<in> set xs \<Longrightarrow> K l \<Longrightarrow> (\<forall>t \<in> S i. lg_live l t = h t) \<Longrightarrow> f i (res, l) = (res, drop_things (S i) l)"
    and "distinct xs" "\<And>i j. i \<noteq> j \<Longrightarrow> S i \<inter> S j = {}" "\<And>i l. K l \<Longrightarrow> K (drop_things (S i) l)" "K l"
    and "\<forall>i \<in> set xs. \<forall>t \<in> S i. lg_live l t = h t"
  shows "fold f xs (res, l) = (res, drop_things (\<Union>i \<in> set xs. S i) l)"
  using assms
proof (induction xs arbitrary: l)
  case (Cons i xs)
  have s: "f i (res, l) = (res, drop_things (S i) l)" using Cons.prems by simp
  have "\<forall>j \<in> set xs. \<forall>t \<in> S j. lg_live (drop_things (S i) l) t = h t"
  proof (intro ballI)
    fix j t assume j: "j \<in> set xs" "t \<in> S j"
    then have "i \<noteq> j" using Cons.prems(2) by auto
    then have "t \<notin> S i" using Cons.prems(3) [of i j] j by auto
    then show "lg_live (drop_things (S i) l) t = h t" using Cons.prems(6) j by simp
  qed
  then have "fold f xs (res, drop_things (S i) l) = (res, drop_things (\<Union>j \<in> set xs. S j) (drop_things (S i) l))"
    using Cons.prems by (intro Cons.IH) auto
  then show ?case using s by simp
qed simp

definition slot_things :: "nat \<Rightarrow> thing set" where
  "slot_things i = {T_Child_Tcb i, T_Child_Join i, T_Thread i, T_Join i}"

definition sync_things :: "nat \<Rightarrow> thing set" where
  "sync_things i = {T_Child_Sync i, T_Sync i}"

lemma destroy_slot_drop:
  assumes "\<And>t. ve_delete v t" "sp_cspace p \<noteq> 0" "lg_live l T_Process" "\<forall>t \<in> slot_things i. lg_live l t = held p r t"
  shows "destroy_slot v p r i (res, l) = (res, drop_things (slot_things i) l)"
proof -
  let ?l1 = "drop_things {T_Child_Tcb i} l" and ?l2 = "drop_things {T_Child_Tcb i, T_Child_Join i} l"
  let ?l3 = "drop_things {T_Child_Tcb i, T_Child_Join i, T_Thread i} l"
  have one: "delete_child_cap v p (T_Child_Tcb i) (rs_child_tcb (cr_slots r i)) (res, l) = (res, ?l1)"
    using assms by (intro delete_child_cap_drop) (auto simp: slot_things_def)
  have two: "delete_child_cap v p (T_Child_Join i) (rs_child_join_ntfn (cr_slots r i)) (res, ?l1) = (res, ?l2)"
    using delete_child_cap_drop [of v "T_Child_Join i" p ?l1] assms by (auto simp: slot_things_def insert_commute)
  have three: "(if ch_thread_configured r i then release (T_Thread i) ?l2 else ?l2) = ?l3"
    using release_drop [of "T_Thread i" ?l2] drop_absent [of ?l2 "T_Thread i" "{}"] assms
    by (auto simp: slot_things_def release_bad_def insert_commute)
  have four: "(if ch_join_allocated r i then release (T_Join i) ?l3 else ?l3) = drop_things (slot_things i) l"
    using release_drop [of "T_Join i" ?l3] drop_absent [of ?l3 "T_Join i" "{}"] assms
    by (auto simp: slot_things_def release_bad_def insert_commute)
  show ?thesis unfolding destroy_slot_def one two Let_def prod.case three four ..
qed

lemma destroy_sync_slot_drop:
  assumes "\<And>t. ve_delete v t" "sp_cspace p \<noteq> 0" "lg_live l T_Process" "\<forall>t \<in> sync_things i. lg_live l t = held p r t"
  shows "destroy_sync_slot v p r i (res, l) = (res, drop_things (sync_things i) l)"
proof -
  let ?l1 = "drop_things {T_Child_Sync i} l"
  have one: "delete_child_cap v p (T_Child_Sync i) (cr_sync r i) (res, l) = (res, ?l1)"
    using assms by (intro delete_child_cap_drop) (auto simp: sync_things_def)
  have two: "(if ch_sync_allocated r i then release (T_Sync i) ?l1 else ?l1) = drop_things (sync_things i) l"
    using release_drop [of "T_Sync i" ?l1] drop_absent [of ?l1 "T_Sync i" "{}"] assms
    by (auto simp: sync_things_def release_bad_def insert_commute)
  show ?thesis unfolding destroy_sync_slot_def one Let_def prod.case two ..
qed

definition port_things :: "thing set" where
  "port_things = {T_Child_Port, T_Child_Rx, T_Child_Tx, T_Child_Submit, T_Console_Cap, T_Console_Slot}"

lemma destroy_ports_drop:
  assumes d: "\<And>t. ve_delete v t" and p: "sp_cspace p \<noteq> 0" "lg_live l T_Process" and h: "\<forall>t \<in> port_things. lg_live l t = held p r t"
  shows "destroy_ports v p r (res, l) = (res, drop_things port_things l)"
proof -
  let ?a = "drop_things {T_Child_Port} l" and ?b = "drop_things {T_Child_Port, T_Child_Rx} l"
  let ?c = "drop_things {T_Child_Port, T_Child_Rx, T_Child_Tx} l" and ?d = "drop_things {T_Child_Port, T_Child_Rx, T_Child_Tx, T_Child_Submit} l"
  let ?e = "drop_things {T_Child_Port, T_Child_Rx, T_Child_Tx, T_Child_Submit, T_Console_Cap} l"
  note [simp] = d p
  have a: "delete_child_cap v p T_Child_Port (cr_console_port r) (res, l) = (res, ?a)"
    using h by (intro delete_child_cap_drop) (auto simp: port_things_def)
  have b: "delete_child_cap v p T_Child_Rx (cr_rx_ntfn r) (res, ?a) = (res, ?b)"
    using delete_child_cap_drop [of v T_Child_Rx p ?a] h by (auto simp: port_things_def insert_commute)
  have c: "delete_child_cap v p T_Child_Tx (cr_tx_ntfn r) (res, ?b) = (res, ?c)"
    using delete_child_cap_drop [of v T_Child_Tx p ?b] h by (auto simp: port_things_def insert_commute)
  have dd: "delete_child_cap v p T_Child_Submit (cr_tx_submit_ntfn r) (res, ?c) = (res, ?d)"
    using delete_child_cap_drop [of v T_Child_Submit p ?c] h by (auto simp: port_things_def insert_commute)
  have e: "(if ch_cap_created r then if ve_delete v T_Console_Cap then (res, release T_Console_Cap ?d) else (-1, ?d) else (res, ?d)) = (res, ?e)"
    using release_drop [of T_Console_Cap ?d] drop_absent [of ?d T_Console_Cap "{}"] h
    by (auto simp: port_things_def release_bad_def insert_commute)
  have f: "(if ch_slot_allocated r then release T_Console_Slot ?e else ?e) = drop_things port_things l"
    using release_drop [of T_Console_Slot ?e] drop_absent [of ?e T_Console_Slot "{}"] h
    by (auto simp: port_things_def release_bad_def insert_commute)
  show ?thesis unfolding destroy_ports_def a b c dd Let_def prod.case e f ..
qed

text \<open>The heap: filling in the leaf tables changes nothing else, and the runs cover exactly the mapped pages.\<close>

lemma unmap_heap_pages_drop:
  assumes "\<forall>i. f \<le> i \<and> i < f + n \<longrightarrow> lg_live l (T_Heap_Page i)" "lg_live l T_Process"
  shows "unmap_heap_pages f n l = drop_things (T_Heap_Page ` {f..<f + n}) l"
proof -
  have "fold (\<lambda>i l. release (T_Heap_Page i) l) xs l = drop_things (T_Heap_Page ` set xs) l"
    if "distinct xs" "\<forall>i \<in> set xs. lg_live l (T_Heap_Page i)" "lg_live l T_Process" for xs l
    using that
  proof (induction xs arbitrary: l)
    case (Cons i xs)
    have "release (T_Heap_Page i) l = drop_things {T_Heap_Page i} l"
      using Cons.prems by (intro release_drop) (simp add: release_bad_def)
    moreover have "\<forall>j \<in> set xs. lg_live (drop_things {T_Heap_Page i} l) (T_Heap_Page j)" "lg_live (drop_things {T_Heap_Page i} l) T_Process"
      using Cons.prems by auto
    ultimately show ?case using Cons.IH [of "drop_things {T_Heap_Page i} l"] Cons.prems by simp
  qed simp
  from this [of "[f..<f + n]" l] show ?thesis using assms by (simp add: unmap_heap_pages_def)
qed

lemma run_end_mapped: "i \<le> k \<Longrightarrow> k < run_end mapped i \<Longrightarrow> i < LUNA_CHILD_HEAP_PAGES \<Longrightarrow> mapped k"
proof (cases "first_from (\<lambda>k. \<not> mapped k) i (LUNA_CHILD_HEAP_PAGES - i)")
  case (Some j)
  assume "i \<le> k" "k < run_end mapped i"
  then show ?thesis using first_from_Some [OF Some] Some by (auto simp: run_end_def)
next
  case None
  assume "i \<le> k" "k < run_end mapped i" "i < LUNA_CHILD_HEAP_PAGES"
  then show ?thesis using None by (auto simp: run_end_def first_from_None)
qed

lemma unmap_runs_drop:
  "lg_live l T_Process \<Longrightarrow> (\<forall>k \<ge> i. k < LUNA_CHILD_HEAP_PAGES \<longrightarrow> lg_live l (T_Heap_Page k) = mapped k) \<Longrightarrow>
   unmap_runs mapped i l = drop_things (T_Heap_Page ` {i..<LUNA_CHILD_HEAP_PAGES}) l"
proof (induction mapped i l rule: unmap_runs.induct)
  case (1 mapped i l)
  consider (stop) "\<not> i < LUNA_CHILD_HEAP_PAGES" | (hole) "i < LUNA_CHILD_HEAP_PAGES" "\<not> mapped i" | (run) "i < LUNA_CHILD_HEAP_PAGES" "mapped i"
    by blast
  then show ?case
  proof cases
    case stop
    then show ?thesis by (subst unmap_runs.simps) simp
  next
    case hole
    have "unmap_runs mapped (Suc i) l = drop_things (T_Heap_Page ` {Suc i..<LUNA_CHILD_HEAP_PAGES}) l"
      using hole "1.prems" by (intro "1.IH"(1)) auto
    also have "\<dots> = drop_things (T_Heap_Page ` {i..<LUNA_CHILD_HEAP_PAGES}) l"
    proof (rule drop_things_cong)
      fix t assume "lg_live l t"
      then have "t \<noteq> T_Heap_Page i" using hole "1.prems"(2) by auto
      moreover have "{i..<LUNA_CHILD_HEAP_PAGES} = insert i {Suc i..<LUNA_CHILD_HEAP_PAGES}" using hole by auto
      ultimately show "(t \<in> T_Heap_Page ` {Suc i..<LUNA_CHILD_HEAP_PAGES}) = (t \<in> T_Heap_Page ` {i..<LUNA_CHILD_HEAP_PAGES})" by auto
    qed
    finally show ?thesis using hole by (subst unmap_runs.simps) simp
  next
    case run
    let ?e = "run_end mapped i"
    have e: "i < ?e" "?e \<le> LUNA_CHILD_HEAP_PAGES" using run_end_grows [of i mapped] run by auto
    have u: "unmap_heap_pages i (?e - i) l = drop_things (T_Heap_Page ` {i..<?e}) l"
    proof -
      have "\<forall>k. i \<le> k \<and> k < i + (?e - i) \<longrightarrow> lg_live l (T_Heap_Page k)"
        using e "1.prems"(2) run_end_mapped [of i _ mapped] run by auto
      then show ?thesis using unmap_heap_pages_drop [of i "?e - i" l] "1.prems"(1) e by simp
    qed
    have "unmap_runs mapped ?e (drop_things (T_Heap_Page ` {i..<?e}) l) =
        drop_things (T_Heap_Page ` {?e..<LUNA_CHILD_HEAP_PAGES}) (drop_things (T_Heap_Page ` {i..<?e}) l)"
      unfolding u [symmetric] by (rule "1.IH"(2)) (use run "1.prems" e in \<open>auto simp: u\<close>)
    moreover have "T_Heap_Page ` {i..<?e} \<union> T_Heap_Page ` {?e..<LUNA_CHILD_HEAP_PAGES} = T_Heap_Page ` {i..<LUNA_CHILD_HEAP_PAGES}"
      using e by (auto simp: image_Un [symmetric] ivl_disj_un_two(3))
    ultimately show ?thesis using run u by (subst unmap_runs.simps) simp
  qed
qed

definition grow_leaf :: "ledger \<Rightarrow> ledger \<Rightarrow> bool" where
  "grow_leaf l l' \<longleftrightarrow> lg_live l' = lg_live l \<and> lg_mapped l' = lg_mapped l \<and> lg_bad l' = lg_bad l \<and> (\<forall>k. lg_leaf l k \<longrightarrow> lg_leaf l' k)"

lemma grow_leaf_simps:
  "grow_leaf l l' \<Longrightarrow> lg_live l' = lg_live l" "grow_leaf l l' \<Longrightarrow> lg_mapped l' = lg_mapped l" "grow_leaf l l' \<Longrightarrow> lg_bad l' = lg_bad l"
  by (simp_all add: grow_leaf_def)

lemma grow_leaf_trans: "grow_leaf l l' \<Longrightarrow> grow_leaf l' l'' \<Longrightarrow> grow_leaf l l''"
  by (auto simp: grow_leaf_def)

definition pages_match :: "luna_heap_resource \<Rightarrow> ledger \<Rightarrow> bool" where
  "pages_match h l \<longleftrightarrow> (\<forall>i. lg_live l (T_Heap_Page i) = hr_mapped h i) \<and> lg_live l T_Process \<and>
     (\<forall>i. hr_mapped h i \<longrightarrow> i < LUNA_CHILD_HEAP_PAGES \<and> lg_leaf l (i div SPAN_PAGES))"

lemma touch_page: "\<not> lg_live l (T_Heap_Page i) \<Longrightarrow> lg_live l T_Process \<Longrightarrow>
  unmap_heap_pages i 1 (map_heap_pages i 1 l) = l\<lparr>lg_leaf := (lg_leaf l)(i div SPAN_PAGES := True)\<rparr>"
  by (auto simp: unmap_heap_pages_def map_heap_pages_def acquire_def release_def release_bad_def fun_eq_iff intro!: ledger.equality)

lemma materialize_span_ok:
  assumes "ve_leaf v k" "pages_match h l" "k < SPANS"
  shows "\<exists>l'. materialize_span v h k l = (0, l') \<and> grow_leaf l l' \<and> lg_leaf l' k"
proof (cases "first_from (hr_mapped h) (k * SPAN_PAGES) (min (k * SPAN_PAGES + SPAN_PAGES) LUNA_CHILD_HEAP_PAGES - k * SPAN_PAGES)")
  case (Some i)
  then have i: "hr_mapped h i" "k * SPAN_PAGES \<le> i" "i < k * SPAN_PAGES + SPAN_PAGES" using first_from_Some [OF Some] by auto
  then have "i div SPAN_PAGES = k" by (simp add: SPAN_PAGES_def)
  then have "lg_leaf l k" using assms(2) i(1) by (auto simp: pages_match_def)
  then show ?thesis using Some by (auto simp: materialize_span_def Let_def grow_leaf_def)
next
  case None
  let ?p = "k * SPAN_PAGES"
  have "?p < min (?p + SPAN_PAGES) LUNA_CHILD_HEAP_PAGES" using assms(3) by (simp add: SPANS_def SPAN_PAGES_def luna_consts)
  then have "\<not> hr_mapped h ?p" using None by (auto simp: first_from_None)
  then have "unmap_heap_pages ?p 1 (map_heap_pages ?p 1 l) = l\<lparr>lg_leaf := (lg_leaf l)(?p div SPAN_PAGES := True)\<rparr>"
    using assms(2) by (intro touch_page) (simp_all add: pages_match_def)
  then show ?thesis using None assms(1) by (auto simp: materialize_span_def Let_def grow_leaf_def SPAN_PAGES_def)
qed

lemma pages_match_grow: "pages_match h l \<Longrightarrow> grow_leaf l l' \<Longrightarrow> pages_match h l'"
  by (auto simp: pages_match_def grow_leaf_simps) (simp add: grow_leaf_def)

lemma materialize_each:
  assumes "\<And>k. ve_leaf v k" "pages_match h l" "i + n \<le> SPANS"
  shows "\<exists>l'. each (materialize_span v h) i n l = (0, l') \<and> grow_leaf l l' \<and> (\<forall>k. i \<le> k \<and> k < i + n \<longrightarrow> lg_leaf l' k)"
  using assms(2,3)
proof (induction n arbitrary: i l)
  case (Suc n)
  obtain l1 where l1: "materialize_span v h i l = (0, l1)" "grow_leaf l l1" "lg_leaf l1 i"
    using materialize_span_ok [OF assms(1) Suc.prems(1), of i] Suc.prems by auto
  obtain l2 where l2: "each (materialize_span v h) (Suc i) n l1 = (0, l2)" "grow_leaf l1 l2" "\<forall>k. Suc i \<le> k \<and> k < Suc i + n \<longrightarrow> lg_leaf l2 k"
    using Suc.IH [OF pages_match_grow [OF Suc.prems(1) l1(2)], of "Suc i"] Suc.prems by auto
  have "lg_leaf l2 k" if "i \<le> k" "k < i + Suc n" for k
    using that l1(3) l2(2,3) by (cases "k = i") (auto simp: grow_leaf_def)
  then show ?case using l1 l2 grow_leaf_trans [OF l1(2) l2(2)] by (intro exI [of _ l2]) simp
qed (auto simp: grow_leaf_def)

lemma materialize_ok:
  assumes "\<And>k. ve_leaf v k" "pages_match h l" "hr_peak_pages h = LUNA_CHILD_HEAP_PAGES \<longrightarrow> (\<forall>k < SPANS. lg_leaf l k)"
  shows "\<exists>l'. materialize_heap_reservation_metadata v h l = (0, l') \<and> grow_leaf l l' \<and> (\<forall>k < SPANS. lg_leaf l' k)"
  using assms(3) materialize_each [of v h l 0 SPANS, OF assms(1,2)]
  by (auto simp: materialize_heap_reservation_metadata_def grow_leaf_def)

definition heap_things :: "thing set" where
  "heap_things = insert T_Heap_Reservation (range T_Heap_Page)"

lemma destroy_heap_drop:
  assumes v: "\<And>k. ve_leaf v k" and ok: "heap_ok h l"
    and live: "\<forall>i. lg_live l (T_Heap_Page i) = hr_mapped h i" "lg_live l T_Heap_Reservation = hr_reserved h" "lg_live l T_Process"
  shows "\<exists>l'. destroy_heap v h (res, l) = (res, drop_things heap_things l') \<and> grow_leaf l l'"
proof (cases "hr_reserved h")
  case False
  then have "drop_things heap_things l = l" using live ok
    by (intro drop_none) (auto simp: heap_things_def heap_ok_def)
  then show ?thesis using False by (intro exI [of _ l]) (simp add: destroy_heap_def grow_leaf_def)
next
  case True
  have m: "pages_match h l" using ok live by (auto simp: pages_match_def heap_ok_def)
  obtain l1 where l1: "materialize_heap_reservation_metadata v h l = (0, l1)" "grow_leaf l l1" "\<forall>k < SPANS. lg_leaf l1 k"
    using materialize_ok [OF v m] ok by (auto simp: heap_ok_def)
  note g = grow_leaf_simps [OF l1(2)]
  let ?l2 = "drop_things (T_Heap_Page ` {0..<LUNA_CHILD_HEAP_PAGES}) l1"
  have r: "unmap_runs (hr_mapped h) 0 l1 = ?l2" using live g by (intro unmap_runs_drop) auto
  have "\<not> release_bad T_Heap_Reservation ?l2" using live True g by (auto simp: release_bad_def)
  moreover have "list_all (lg_leaf ?l2) [0..<SPANS]" "\<not> list_ex (\<lambda>i. lg_live ?l2 (T_Heap_Page i)) [0..<LUNA_CHILD_HEAP_PAGES]"
    using l1(3) by (auto simp: list_all_iff list_ex_iff)
  ultimately have "free_heap_reservation ?l2 = drop_things {T_Heap_Reservation} ?l2"
    using release_drop [of T_Heap_Reservation ?l2] by (auto simp: free_heap_reservation_def)
  also have "\<dots> = drop_things heap_things l1"
    unfolding drop_things_simps using live ok g by (intro drop_things_cong) (auto simp: heap_things_def heap_ok_def)
  finally show ?thesis using True l1 r by (auto simp: destroy_heap_def Let_def)
qed

lemma destroy_frame_drop:
  assumes "ve_delete v (cap i)" "\<forall>t \<in> {slot i, cap i}. lg_live l t = fm_cap_allocated m i"
    and "derived (slot i) = Some (cap i)" "derived (cap i) = None" "\<not> in_process (slot i)" "\<not> in_process (cap i)" "slot i \<noteq> cap i"
  shows "destroy_frame v slot cap m i (res, l) = (res, drop_things {slot i, cap i} l)"
proof (cases "fm_cap_allocated m i")
  case True
  have one: "release (cap i) l = drop_things {cap i} l" using assms True by (intro release_drop) (auto simp: release_bad_def)
  have two: "release (slot i) (drop_things {cap i} l) = drop_things {slot i} (drop_things {cap i} l)"
    using assms True by (intro release_drop) (auto simp: release_bad_def)
  show ?thesis using True assms(1) one two by (simp add: destroy_frame_def insert_commute)
next
  case False
  then have "drop_things {slot i, cap i} l = l" using assms(2)
    by (intro drop_none) auto
  then show ?thesis using False by (simp add: destroy_frame_def)
qed

definition deletes_ok :: "lifecycle_env \<Rightarrow> bool" where
  "deletes_ok v \<longleftrightarrow> (\<forall>t. ve_delete v t) \<and> (\<forall>k. ve_leaf v k)"

lemma destroy_slots_drop:
  assumes "deletes_ok v" "sp_cspace p \<noteq> 0" "lg_live l T_Process" "\<forall>t. \<not> endpoint_copy t \<longrightarrow> lg_live l t = held p r t"
  shows "fold (destroy_slot v p r) [0..<LUNA_RESOURCE_SLOTS] (res, l) = (res, drop_things (\<Union>i < LUNA_RESOURCE_SLOTS. slot_things i) l)"
proof -
  have "fold (destroy_slot v p r) [0..<LUNA_RESOURCE_SLOTS] (res, l) = (res, drop_things (\<Union>i \<in> set [0..<LUNA_RESOURCE_SLOTS]. slot_things i) l)"
    by (rule fold_drop [where K = "\<lambda>l. lg_live l T_Process" and h = "held p r"])
      (use assms destroy_slot_drop in \<open>auto simp: deletes_ok_def slot_things_def endpoint_copy_def\<close>)
  then show ?thesis by (simp add: atLeast0LessThan)
qed

lemma destroy_syncs_drop:
  assumes "deletes_ok v" "sp_cspace p \<noteq> 0" "lg_live l T_Process" "\<forall>i. \<forall>t \<in> sync_things i. lg_live l t = held p r t"
  shows "fold (destroy_sync_slot v p r) [0..<LUNA_SYNC_SLOTS] (res, l) = (res, drop_things (\<Union>i < LUNA_SYNC_SLOTS. sync_things i) l)"
proof -
  have "fold (destroy_sync_slot v p r) [0..<LUNA_SYNC_SLOTS] (res, l) = (res, drop_things (\<Union>i \<in> set [0..<LUNA_SYNC_SLOTS]. sync_things i) l)"
    by (rule fold_drop [where K = "\<lambda>l. lg_live l T_Process" and h = "held p r"])
      (use assms destroy_sync_slot_drop in \<open>auto simp: deletes_ok_def sync_things_def\<close>)
  then show ?thesis by (simp add: atLeast0LessThan)
qed

lemma each_rule:
  assumes "\<And>j s e s'. i \<le> j \<Longrightarrow> j < i + n \<Longrightarrow> P j s \<Longrightarrow> f j s = (e, s') \<Longrightarrow> (if e = 0 then P (Suc j) s' else Q s')"
    and "P i s" "each f i n s = (e, s')"
  shows "if e = 0 then P (i + n) s' else Q s'"
  using assms
proof (induction n arbitrary: i s)
  case (Suc n)
  obtain e1 s1 where f: "f i s = (e1, s1)" by force
  have one: "if e1 = 0 then P (Suc i) s1 else Q s1" using Suc.prems(1) [of i s e1 s1] Suc.prems(2) f by simp
  show ?case
  proof (cases "e1 = 0")
    case True
    have "if e = 0 then P (Suc i + n) s' else Q s'"
    proof (rule Suc.IH [of "Suc i" s1])
      show "if e = 0 then P (Suc j) s' else Q s'" if "Suc i \<le> j" "j < Suc i + n" "P j s" "f j s = (e, s')" for j s e s'
        using Suc.prems(1) [of j s e s'] that by simp
    qed (use Suc.prems(3) f one True in \<open>auto\<close>)
    then show ?thesis by (auto split: if_splits)
  next
    case False
    then show ?thesis using Suc.prems(3) f one by auto
  qed
qed simp

text \<open>Acquiring the things of \<open>S\<close> while the records are updated accordingly.\<close>

lemma child_inv_grow:
  assumes "child_inv (p, r, l)" "\<And>u. lg_live l' u = (lg_live l u \<or> u \<in> S)" "lg_bad l' = lg_bad l" "lg_leaf l' = lg_leaf l"
    and "\<And>u. \<not> endpoint_copy u \<Longrightarrow> held p r' u = (held p r u \<or> u \<in> S)" "slots_bounded r'"
    and "frames_ok T_Disk_Cap LUNA_DISK_IO_PAGES (ch_disk r') l'" "frames_ok T_Net_Cap LUNA_NET_IO_PAGES (ch_net r') l'"
    and "heap_ok (ch_heap r') l'"
  shows "child_inv (p, r', l')"
  using assms by (simp add: child_inv_def)

lemma acquire_simps [simp]:
  "lg_live (acquire t l) u \<longleftrightarrow> lg_live l u \<or> u = t" "lg_mapped (acquire t l) = lg_mapped l" "lg_leaf (acquire t l) = lg_leaf l"
  "lg_bad (acquire t l) \<longleftrightarrow> lg_bad l \<or> lg_live l t"
  by (auto simp: acquire_def)

lemma acquire_release:
  "\<not> lg_live l t \<Longrightarrow> derived t = Some u \<Longrightarrow> \<not> lg_live l u \<Longrightarrow> u \<noteq> t \<Longrightarrow> \<not> in_process t \<Longrightarrow> release t (acquire t l) = l"
  by (auto simp: acquire_def release_def release_bad_def fun_eq_iff intro!: ledger.equality)

definition frame_progress :: "nat \<Rightarrow> frame_mapping \<Rightarrow> bool" where
  "frame_progress j m \<longleftrightarrow> fm_mapped_pages m = j \<and> (\<forall>k \<ge> j. \<not> fm_cap_allocated m k)"

definition endpoints_of :: "ledger \<Rightarrow> bool \<times> bool" where
  "endpoints_of l = (lg_live l T_Child_Control, lg_live l T_Child_Command)"

lemma map_frame_cases:
  assumes "map_frame v slot cap j (m, l) = (e, m', l')" "frame_progress j m" "\<not> lg_live l (slot j)" "\<not> lg_live l (cap j)"
    and "derived (slot j) = Some (cap j)" "cap j \<noteq> slot j" "\<not> in_process (slot j)"
  obtains (fail) "e \<noteq> 0" "m' = m" "l' = l"
  | (copied) "e \<noteq> 0" "m' = m\<lparr>fm_cap_allocated := (fm_cap_allocated m)(j := True)\<rparr>" "l' = acquire (cap j) (acquire (slot j) l)"
  | (mapped) "e = 0" "m' = m\<lparr>fm_cap_allocated := (fm_cap_allocated m)(j := True), fm_mapped_pages := Suc j\<rparr>"
      "l' = (acquire (cap j) (acquire (slot j) l))\<lparr>lg_mapped := (lg_mapped l)(cap j := True)\<rparr>"
  using assms acquire_release [of l "slot j" "cap j"] by (auto simp: map_frame_def Let_def frame_progress_def split: if_splits)

section \<open>Shared windows\<close>

text \<open>
  What the loops over the frames of a window rely on; the disk window and the network window
  both provide it.
\<close>

locale shared_window =
  fixes slot cap :: "nat \<Rightarrow> thing" and n :: nat and put :: "frame_mapping \<Rightarrow> child_holdings \<Rightarrow> child_holdings"
  assumes slot_derived: "derived (slot j) = Some (cap j)" and cap_derived: "derived (cap j) = None"
    and slot_outside: "\<not> in_process (slot j)" and cap_outside: "\<not> in_process (cap j)"
    and slot_cap: "slot i \<noteq> cap j" and slot_inj: "(slot i = slot j) = (i = j)" and cap_inj: "(cap i = cap j) = (i = j)"
    and not_endpoint: "\<not> endpoint_copy (slot j)" "\<not> endpoint_copy (cap j)"
    and window_frames: "child_inv (p, put m r, l) \<Longrightarrow> frames_ok cap n m l"
    and window_held: "child_inv (p, put m r, l) \<Longrightarrow> lg_live l (slot j) = fm_cap_allocated m j \<and> lg_live l (cap j) = fm_cap_allocated m j"
    and window_grow: "child_inv (p, put m r, l) \<Longrightarrow> (\<And>u. lg_live l' u = (lg_live l u \<or> u = slot j \<or> u = cap j)) \<Longrightarrow>
      lg_bad l' = lg_bad l \<Longrightarrow> lg_leaf l' = lg_leaf l \<Longrightarrow> (\<And>u. u \<noteq> cap j \<Longrightarrow> lg_mapped l' u = lg_mapped l u) \<Longrightarrow>
      fm_reserved m' = fm_reserved m \<Longrightarrow> fm_cap_allocated m' = (fm_cap_allocated m)(j := True) \<Longrightarrow> frames_ok cap n m' l' \<Longrightarrow>
      child_inv (p, put m' r, l')"
begin

lemma destroy_drop:
  assumes "deletes_ok v" "\<forall>i \<ge> fm_mapped_pages m. \<forall>t \<in> {slot i, cap i}. lg_live l t = fm_cap_allocated m i"
  shows "fold (destroy_frame v slot cap m) [fm_mapped_pages m..<k] (res, l) = (res, drop_things (\<Union>i \<in> {fm_mapped_pages m..<k}. {slot i, cap i}) l)"
proof -
  have "fold (destroy_frame v slot cap m) [fm_mapped_pages m..<k] (res, l) =
      (res, drop_things (\<Union>i \<in> set [fm_mapped_pages m..<k]. {slot i, cap i}) l)"
  proof (rule fold_drop [where K = "\<lambda>_. True" and h = "lg_live l"])
    fix i and l' :: ledger assume i: "i \<in> set [fm_mapped_pages m..<k]" "\<forall>t \<in> {slot i, cap i}. lg_live l' t = lg_live l t"
    then show "destroy_frame v slot cap m i (res, l') = (res, drop_things {slot i, cap i} l')"
      using assms by (intro destroy_frame_drop) (simp_all add: deletes_ok_def slot_derived cap_derived slot_outside cap_outside slot_cap)
  next
    show "{slot i, cap i} \<inter> {slot j, cap j} = {}" if "i \<noteq> j" for i j
      using that slot_cap slot_cap [symmetric] by (auto simp: slot_inj cap_inj)
  qed simp_all
  then show ?thesis by simp
qed

lemma map_frame_step:
  assumes inv: "child_inv (p, put m r, l)" and pr: "frame_progress j m" and j: "j < n"
    and run: "map_frame v slot cap j (m, l) = (e, m', l')"
  shows "child_inv (p, put m' r, l') \<and> endpoints_of l' = endpoints_of l \<and> (e = 0 \<longrightarrow> frame_progress (Suc j) m')"
proof -
  have fresh: "\<not> lg_live l (slot j)" "\<not> lg_live l (cap j)" using window_held [OF inv, of j] pr by (auto simp: frame_progress_def)
  note fr = window_frames [OF inv]
  have ne: "slot j \<noteq> T_Child_Control" "slot j \<noteq> T_Child_Command" "cap j \<noteq> T_Child_Control" "cap j \<noteq> T_Child_Command"
    using not_endpoint [of j] by (simp_all add: endpoint_copy_def)
  have th: "derived (slot j) = Some (cap j)" "cap j \<noteq> slot j" "\<not> in_process (slot j)"
    using slot_derived slot_outside slot_cap [symmetric] by simp_all
  from run pr fresh th show ?thesis
  proof (cases rule: map_frame_cases)
    case copied
    have "frames_ok cap n m' l'" using fr j pr by (auto simp: frames_ok_def frame_progress_def copied)
    then have "child_inv (p, put m' r, l')"
      using fresh th by (intro window_grow [OF inv, of l' j m']) (auto simp: copied)
    then show ?thesis using copied ne ne [symmetric] by (simp add: endpoints_of_def)
  next
    case mapped
    have "frames_ok cap n m' l'" using fr j pr by (auto simp: frames_ok_def frame_progress_def mapped cap_inj)
    then have "child_inv (p, put m' r, l')"
      using fresh th by (intro window_grow [OF inv, of l' j m']) (auto simp: mapped)
    then show ?thesis using mapped pr ne [symmetric] by (auto simp: endpoints_of_def frame_progress_def)
  qed (use inv in simp_all)
qed

lemma map_frames_inv:
  assumes "child_inv (p, put m r, l)" "frame_progress 0 m" "each (map_frame v slot cap) 0 n (m, l) = (e, m', l')"
  shows "child_inv (p, put m' r, l') \<and> endpoints_of l' = endpoints_of l"
proof -
  let ?Q = "\<lambda>(m', l'). child_inv (p, put m' r, l') \<and> endpoints_of l' = endpoints_of l"
  let ?P = "\<lambda>j (m', l'). ?Q (m', l') \<and> frame_progress j m'"
  have "if e = 0 then ?P (0 + n) (m', l') else ?Q (m', l')"
  proof (rule each_rule [where P = ?P and Q = ?Q])
    fix j s e s' assume j: "j < 0 + n" "?P j s" "map_frame v slot cap j s = (e, s')"
    obtain m1 l1 m2 l2 where [simp]: "s = (m1, l1)" "s' = (m2, l2)" by (cases s, cases s')
    show "if e = 0 then ?P (Suc j) s' else ?Q s'" using map_frame_step [of p m1 r l1 j v e m2 l2] j by simp
  qed (use assms in auto)
  then show ?thesis by (auto split: if_splits)
qed

end

interpretation disk_window: shared_window T_Disk_Slot T_Disk_Cap LUNA_DISK_IO_PAGES "\<lambda>m r. r\<lparr>ch_disk := m\<rparr>"
proof
  fix p m r l l' j m'
  assume inv: "child_inv (p, r\<lparr>ch_disk := m\<rparr>, l)" and a: "\<And>u. lg_live l' u = (lg_live l u \<or> u = T_Disk_Slot j \<or> u = T_Disk_Cap j)"
    "lg_bad l' = lg_bad l" "lg_leaf l' = lg_leaf l" "\<And>u. u \<noteq> T_Disk_Cap j \<Longrightarrow> lg_mapped l' u = lg_mapped l u"
    "fm_reserved m' = fm_reserved m" "fm_cap_allocated m' = (fm_cap_allocated m)(j := True)" "frames_ok T_Disk_Cap LUNA_DISK_IO_PAGES m' l'"
  have "held p (r\<lparr>ch_disk := m'\<rparr>) u = (held p (r\<lparr>ch_disk := m\<rparr>) u \<or> u \<in> {T_Disk_Slot j, T_Disk_Cap j})" for u
    using a(5,6) by (cases u) auto
  then show "child_inv (p, r\<lparr>ch_disk := m'\<rparr>, l')"
    by (intro child_inv_grow [OF inv, where S = "{T_Disk_Slot j, T_Disk_Cap j}"])
      (use a inv in \<open>simp_all add: child_inv_def frames_ok_def slots_bounded_def heap_ok_def\<close>)
qed (simp_all add: child_inv_def endpoint_copy_def)

interpretation net_window: shared_window T_Net_Slot T_Net_Cap LUNA_NET_IO_PAGES "\<lambda>m r. r\<lparr>ch_net := m\<rparr>"
proof
  fix p m r l l' j m'
  assume inv: "child_inv (p, r\<lparr>ch_net := m\<rparr>, l)" and a: "\<And>u. lg_live l' u = (lg_live l u \<or> u = T_Net_Slot j \<or> u = T_Net_Cap j)"
    "lg_bad l' = lg_bad l" "lg_leaf l' = lg_leaf l" "\<And>u. u \<noteq> T_Net_Cap j \<Longrightarrow> lg_mapped l' u = lg_mapped l u"
    "fm_reserved m' = fm_reserved m" "fm_cap_allocated m' = (fm_cap_allocated m)(j := True)" "frames_ok T_Net_Cap LUNA_NET_IO_PAGES m' l'"
  have "held p (r\<lparr>ch_net := m'\<rparr>) u = (held p (r\<lparr>ch_net := m\<rparr>) u \<or> u \<in> {T_Net_Slot j, T_Net_Cap j})" for u
    using a(5,6) by (cases u) auto
  then show "child_inv (p, r\<lparr>ch_net := m'\<rparr>, l')"
    by (intro child_inv_grow [OF inv, where S = "{T_Net_Slot j, T_Net_Cap j}"])
      (use a inv in \<open>simp_all add: child_inv_def frames_ok_def slots_bounded_def heap_ok_def\<close>)
qed (simp_all add: child_inv_def endpoint_copy_def)

lemma destroy_child_ok:
  assumes v: "deletes_ok v" and inv: "child_inv (p, r, l)"
  shows "\<exists>l'. destroy_child v (p, r, l) = (0, zero_process, zero_holdings, l') \<and> no_child (zero_process, zero_holdings, l')"
proof -
  have p: "sp_cspace p \<noteq> 0" and live: "\<forall>t. \<not> endpoint_copy t \<longrightarrow> lg_live l t = held p r t" and b: "slots_bounded r"
    and df: "frames_ok T_Disk_Cap LUNA_DISK_IO_PAGES (ch_disk r) l" and nf: "frames_ok T_Net_Cap LUNA_NET_IO_PAGES (ch_net r) l"
    and h: "heap_ok (ch_heap r) l" and nb: "\<not> lg_bad l"
    using inv by (simp_all add: child_inv_def)
  have lv: "lg_live l t = held p r t" if "\<not> endpoint_copy t" for t using live that by blast
  have pl: "lg_live l T_Process" using lv [of T_Process] p by (simp add: endpoint_copy_def)
  define A where "A = (\<Union>i < LUNA_RESOURCE_SLOTS. slot_things i)"
  define B where "B = A \<union> (\<Union>i < LUNA_SYNC_SLOTS. sync_things i)"
  define C where "C = B \<union> port_things"
  note sets = A_def B_def C_def slot_things_def sync_things_def port_things_def
  have one: "fold (destroy_slot v p r) [0..<LUNA_RESOURCE_SLOTS] (0, l) = (0, drop_things A l)"
    unfolding A_def by (rule destroy_slots_drop [OF v p pl live])
  have two: "fold (destroy_sync_slot v p r) [0..<LUNA_SYNC_SLOTS] (0, drop_things A l) = (0, drop_things B l)"
    unfolding B_def drop_things_simps(5) [symmetric]
    by (rule destroy_syncs_drop [OF v p]) (use pl lv in \<open>auto simp: A_def slot_things_def sync_things_def endpoint_copy_def\<close>)
  have three: "destroy_ports v p r (0, drop_things B l) = (0, drop_things C l)"
    unfolding C_def drop_things_simps(5) [symmetric]
    by (rule destroy_ports_drop) (use v p pl lv in \<open>auto simp: deletes_ok_def sets endpoint_copy_def\<close>)
  have "heap_ok (ch_heap r) (drop_things C l)" using h by (simp add: heap_ok_def)
  then obtain l4 where four: "destroy_heap v (ch_heap r) (0, drop_things C l) = (0, drop_things heap_things l4)" "grow_leaf (drop_things C l) l4"
    using destroy_heap_drop [of v "ch_heap r" "drop_things C l" 0] v lv pl
    by (auto simp: deletes_ok_def sets endpoint_copy_def)
  note g = grow_leaf_simps [OF four(2)]
  define l5 where "l5 = destroy_process (drop_things heap_things l4)"
  have l5: "lg_live l5 t \<longleftrightarrow> lg_live l t \<and> t \<notin> C \<and> t \<notin> heap_things \<and> \<not> owned l t" "lg_bad l5 = lg_bad l"
    "lg_mapped l5 = (\<lambda>_. False)" "lg_leaf l5 = (\<lambda>_. False)" for t
  proof -
    have "owned (drop_things heap_things l4) t = owned l t" using g by (cases t) simp_all
    then show "lg_live l5 t \<longleftrightarrow> lg_live l t \<and> t \<notin> C \<and> t \<notin> heap_things \<and> \<not> owned l t"
      using g by (auto simp: l5_def destroy_process_def)
    show "lg_bad l5 = lg_bad l" using g pl by (auto simp: l5_def destroy_process_def heap_things_def sets)
  qed (simp_all add: l5_def destroy_process_def)
  let ?D = "\<Union>i \<in> {fm_mapped_pages (ch_disk r)..<LUNA_DISK_IO_PAGES}. {T_Disk_Slot i, T_Disk_Cap i}"
  let ?N = "\<Union>i \<in> {fm_mapped_pages (ch_net r)..<LUNA_NET_IO_PAGES}. {T_Net_Slot i, T_Net_Cap i}"
  have five: "fold (destroy_frame v T_Disk_Slot T_Disk_Cap (ch_disk r)) [fm_mapped_pages (ch_disk r)..<LUNA_DISK_IO_PAGES] (0, l5) = (0, drop_things ?D l5)"
    by (rule disk_window.destroy_drop [OF v]) (use df lv in \<open>auto simp: l5 frames_ok_def sets heap_things_def endpoint_copy_def\<close>)
  have six: "fold (destroy_frame v T_Net_Slot T_Net_Cap (ch_net r)) [fm_mapped_pages (ch_net r)..<LUNA_NET_IO_PAGES] (0, drop_things ?D l5) = (0, drop_things ?N (drop_things ?D l5))"
    by (rule net_window.destroy_drop [OF v]) (use nf lv in \<open>auto simp: l5 frames_ok_def sets heap_things_def endpoint_copy_def\<close>)
  let ?l = "drop_things ?N (drop_things ?D l5)"
  have dead: "\<not> lg_live ?l t" for t
  proof (cases "endpoint_copy t")
    case True
    then show ?thesis by (auto simp: endpoint_copy_def l5)
  next
    case False
    have f: "fm_cap_allocated (ch_disk r) i \<Longrightarrow> i < LUNA_DISK_IO_PAGES" "fm_cap_allocated (ch_net r) i \<Longrightarrow> i < LUNA_NET_IO_PAGES"
      "lg_mapped l (T_Disk_Cap i) = (i < fm_mapped_pages (ch_disk r))" "lg_mapped l (T_Net_Cap i) = (i < fm_mapped_pages (ch_net r))" for i
      using df nf by (auto simp: frames_ok_def)
    have s: "ch_thread_configured r i \<or> ch_join_allocated r i \<or> rs_child_tcb (cr_slots r i) \<noteq> 0 \<or> rs_child_join_ntfn (cr_slots r i) \<noteq> 0 \<Longrightarrow> i < LUNA_RESOURCE_SLOTS"
      "ch_sync_allocated r i \<or> cr_sync r i \<noteq> 0 \<Longrightarrow> i < LUNA_SYNC_SLOTS" for i
      using b by (auto simp: slots_bounded_def not_less [symmetric])
    show ?thesis
      by (cases t) (use lv [OF False] f s in \<open>auto simp: l5 sets heap_things_def not_less [symmetric]\<close>)
  qed
  have "destroy_child v (p, r, l) = (0, zero_process, zero_holdings, ?l)"
    using p by (simp only: destroy_child_def prod.case Let_def one two three four(1) l5_def [symmetric] five six if_True simp_thms)
  then show ?thesis using dead nb l5 by (auto simp: no_child_def)
qed


section \<open>Acquiring keeps the records exact\<close>

lemma child_inv_acquire:
  assumes "child_inv (p, r, l)" "\<not> endpoint_copy t" "\<not> held p r t" "\<And>u. held p r' u = (held p r u \<or> u = t)" "slots_bounded r'"
    and "ch_disk r' = ch_disk r" "ch_net r' = ch_net r" "ch_heap r' = ch_heap r"
  shows "child_inv (p, r', acquire t l)"
  by (rule child_inv_grow [OF assms(1), where S = "{t}"]) (use assms in \<open>auto simp: child_inv_def frames_ok_def heap_ok_def\<close>)

lemma child_inv_copy:
  assumes "child_inv (p, r, l)" "copy_cap_to_process v t l = (c, l')" "\<not> endpoint_copy t" "\<not> held p r t"
    and "\<And>u. held p r' u = (held p r u \<or> u = t \<and> c \<noteq> 0)" "slots_bounded r'"
    and "ch_disk r' = ch_disk r" "ch_net r' = ch_net r" "ch_heap r' = ch_heap r"
  shows "child_inv (p, r', l') \<and> endpoints_of l' = endpoints_of l"
proof (cases "c = 0")
  case True
  then have "l' = l" "\<And>u. held p r' u = held p r u" using assms(2,5) by (simp_all add: copy_cap_to_process_def split: if_splits)
  then show ?thesis using assms by (simp add: child_inv_def)
next
  case False
  then have l': "l' = acquire t l" using assms(2) by (auto simp: copy_cap_to_process_def split: if_splits)
  have "child_inv (p, r', acquire t l)" using assms False by (intro child_inv_acquire [OF assms(1)]) auto
  then show ?thesis using l' assms(3) by (auto simp: endpoints_of_def endpoint_copy_def)
qed

lemma endpoints_acquire: "\<not> endpoint_copy t \<Longrightarrow> endpoints_of (acquire t l) = endpoints_of l"
  by (auto simp: endpoints_of_def endpoint_copy_def)

lemma child_inv_bounded: "child_inv (p, r, l) \<Longrightarrow> slots_bounded r"
  by (simp add: child_inv_def)

text \<open>How far the loops over the slots have come.\<close>

definition slots_upto :: "nat \<Rightarrow> child_holdings \<Rightarrow> bool" where
  "slots_upto j r \<longleftrightarrow> (\<forall>k < j. thread_resource_ok (slot_resource (cr_slots r k))) \<and>
     (\<forall>k \<ge> j. \<not> ch_thread_configured r k \<and> \<not> ch_join_allocated r k \<and> rs_child_tcb (cr_slots r k) = 0 \<and> rs_child_join_ntfn (cr_slots r k) = 0)"

definition sync_upto :: "nat \<Rightarrow> child_holdings \<Rightarrow> bool" where
  "sync_upto j r \<longleftrightarrow> (\<forall>k < j. cr_sync r k \<noteq> 0) \<and> (\<forall>k \<ge> j. \<not> ch_sync_allocated r k \<and> cr_sync r k = 0)"

definition beside_slots :: "child_holdings \<Rightarrow> child_holdings" where
  "beside_slots r = r\<lparr>cr_slots := (\<lambda>_. zero_slot), ch_thread_configured := (\<lambda>_. False), ch_join_allocated := (\<lambda>_. False)\<rparr>"

definition stacks_ok :: "lifecycle_env \<Rightarrow> bool" where
  "stacks_ok v \<longleftrightarrow> (\<forall>i < LUNA_RESOURCE_SLOTS. case ve_stack v i of (stack, pages, buffer) \<Rightarrow> stack \<noteq> 0 \<and> pages \<noteq> 0 \<and> buffer \<noteq> 0)"

lemma configure_join_step:
  assumes inv: "child_inv (p, r, l)" and j: "j < LUNA_RESOURCE_SLOTS" and f: "\<not> ch_join_allocated r j" "rs_child_join_ntfn (cr_slots r j) = 0"
    and run: "configure_join v j (r, l) = (e, r', l')"
  shows "child_inv (p, r', l') \<and> endpoints_of l' = endpoints_of l \<and>
    (e = 0 \<longrightarrow> (\<exists>d. d \<noteq> 0 \<and> r' = slot_update j (\<lambda>s. s\<lparr>rs_child_join_ntfn := d\<rparr>) (r\<lparr>ch_join_allocated := (ch_join_allocated r)(j := True)\<rparr>))) \<and>
    beside_slots r' = beside_slots r"
proof (cases "ve_new v (T_Join j)")
  case True
  define r1 where "r1 = r\<lparr>ch_join_allocated := (ch_join_allocated r)(j := True)\<rparr>"
  define l1 where "l1 = acquire (T_Join j) l"
  have h1: "held p r1 u = (held p r u \<or> u = T_Join j)" for u by (cases u) (auto simp: r1_def)
  have b1: "slots_bounded r1" using child_inv_bounded [OF inv] j by (auto simp: slots_bounded_def r1_def)
  have i1: "child_inv (p, r1, l1)" unfolding l1_def
    by (rule child_inv_acquire [OF inv _ _ h1 b1]) (use f in \<open>auto simp: endpoint_copy_def r1_def\<close>)
  obtain d l2 where d: "copy_cap_to_process v (T_Child_Join j) l1 = (d, l2)" by force
  define r2 where "r2 = slot_update j (\<lambda>s. s\<lparr>rs_child_join_ntfn := d\<rparr>) r1"
  have h2: "held p r2 u = (held p r1 u \<or> u = T_Child_Join j \<and> d \<noteq> 0)" for u
    using f by (cases u) (auto simp: r2_def r1_def slot_update_def)
  have b2: "slots_bounded r2" using b1 j by (auto simp: slots_bounded_def r2_def slot_update_def)
  have i2: "child_inv (p, r2, l2) \<and> endpoints_of l2 = endpoints_of l1"
    by (rule child_inv_copy [OF i1 d _ _ h2 b2]) (use f in \<open>auto simp: endpoint_copy_def r2_def r1_def slot_update_def\<close>)
  have e1: "endpoints_of l1 = endpoints_of l" unfolding l1_def by (rule endpoints_acquire) (simp add: endpoint_copy_def)
  have res: "e = (if d = 0 then -1 else 0)" "r' = r2" "l' = l2"
    using run True by (simp_all add: configure_join_def Let_def d [unfolded l1_def] r2_def r1_def)
  then show ?thesis using i2 e1 by (auto simp: r2_def r1_def beside_slots_def slot_update_def)
qed (use run inv in \<open>auto simp: configure_join_def\<close>)

lemma configure_slot_step:
  assumes inv: "child_inv (p, r, l)" and up: "slots_upto j r" and j: "j < LUNA_RESOURCE_SLOTS" and st: "stacks_ok v"
    and run: "configure_slot v j (r, l) = (e, r', l')"
  shows "child_inv (p, r', l') \<and> endpoints_of l' = endpoints_of l \<and> beside_slots r' = beside_slots r \<and> (e = 0 \<longrightarrow> slots_upto (Suc j) r')"
proof (cases "ve_new v (T_Thread j)")
  case True
  obtain stack pages buffer where stk: "ve_stack v j = (stack, pages, buffer)" by (metis prod.exhaust)
  have stack_ok: "stack \<noteq> 0" "pages \<noteq> 0" "buffer \<noteq> 0" using st j stk by (force simp: stacks_ok_def)+
  define r1 where "r1 = (slot_update j (\<lambda>s. s\<lparr>rs_stack_top := stack, rs_stack_size := pages, rs_ipc_buffer_addr := buffer\<rparr>) r)
    \<lparr>ch_thread_configured := (ch_thread_configured r)(j := True)\<rparr>"
  define l1 where "l1 = acquire (T_Thread j) l"
  have h1: "held p r1 u = (held p r u \<or> u = T_Thread j)" for u by (cases u) (auto simp: r1_def slot_update_def)
  have b1: "slots_bounded r1" using child_inv_bounded [OF inv] j by (auto simp: slots_bounded_def r1_def slot_update_def)
  have i1: "child_inv (p, r1, l1)" unfolding l1_def
    by (rule child_inv_acquire [OF inv _ _ h1 b1]) (use up in \<open>auto simp: slots_upto_def endpoint_copy_def r1_def slot_update_def\<close>)
  obtain c l2 where c: "copy_cap_to_process v (T_Child_Tcb j) l1 = (c, l2)" by force
  define r2 where "r2 = slot_update j (\<lambda>s. s\<lparr>rs_child_tcb := c\<rparr>) r1"
  have h2: "held p r2 u = (held p r1 u \<or> u = T_Child_Tcb j \<and> c \<noteq> 0)" for u
    using up by (cases u) (auto simp: r2_def r1_def slot_update_def slots_upto_def)
  have b2: "slots_bounded r2" using b1 j by (auto simp: slots_bounded_def r2_def slot_update_def)
  have i2: "child_inv (p, r2, l2) \<and> endpoints_of l2 = endpoints_of l1"
    by (rule child_inv_copy [OF i1 c _ _ h2 b2]) (use up in \<open>auto simp: slots_upto_def endpoint_copy_def r2_def r1_def slot_update_def\<close>)
  have e1: "endpoints_of l1 = endpoints_of l" unfolding l1_def by (rule endpoints_acquire) (simp add: endpoint_copy_def)
  have s2: "beside_slots r2 = beside_slots r" by (simp add: beside_slots_def r2_def r1_def slot_update_def)
  have run2: "(if c = 0 then (-1, r2, l2) else configure_join v j (r2, l2)) = (e, r', l')"
    using run True by (auto simp: configure_slot_def Let_def stk c [unfolded l1_def] r2_def r1_def split: if_splits)
  show ?thesis
  proof (cases "c = 0")
    case True
    then show ?thesis using run2 i2 e1 s2 by auto
  next
    case False
    have f: "\<not> ch_join_allocated r2 j" "rs_child_join_ntfn (cr_slots r2 j) = 0"
      using up by (auto simp: slots_upto_def r2_def r1_def slot_update_def)
    have "configure_join v j (r2, l2) = (e, r', l')" using run2 False by simp
    note step = configure_join_step [OF conjunct1 [OF i2] j f this]
    have "slots_upto (Suc j) r'" if "e = 0"
    proof -
      obtain d where "d \<noteq> 0" "r' = slot_update j (\<lambda>s. s\<lparr>rs_child_join_ntfn := d\<rparr>) (r2\<lparr>ch_join_allocated := (ch_join_allocated r2)(j := True)\<rparr>)"
        using step \<open>e = 0\<close> by blast
      then show ?thesis using up False stack_ok
        by (auto simp: slots_upto_def less_Suc_eq r2_def r1_def slot_update_def slot_resource_def thread_resource_ok_def)
    qed
    then show ?thesis using step i2 e1 s2 by auto
  qed
qed (use run inv in \<open>auto simp: configure_slot_def\<close>)

lemma configure_slots_inv:
  assumes "child_inv (p, r, l)" "slots_upto 0 r" "stacks_ok v" "each (configure_slot v) 0 LUNA_RESOURCE_SLOTS (r, l) = (e, r', l')"
  shows "child_inv (p, r', l') \<and> endpoints_of l' = endpoints_of l \<and> beside_slots r' = beside_slots r \<and> (e = 0 \<longrightarrow> slots_upto LUNA_RESOURCE_SLOTS r')"
proof -
  let ?Q = "\<lambda>(r', l'). child_inv (p, r', l') \<and> endpoints_of l' = endpoints_of l \<and> beside_slots r' = beside_slots r"
  let ?P = "\<lambda>j (r', l'). ?Q (r', l') \<and> slots_upto j r'"
  have "if e = 0 then ?P (0 + LUNA_RESOURCE_SLOTS) (r', l') else ?Q (r', l')"
  proof (rule each_rule [where P = ?P and Q = ?Q])
    fix j s e s' assume j: "j < 0 + LUNA_RESOURCE_SLOTS" "?P j s" "configure_slot v j s = (e, s')"
    obtain r1 l1 r2 l2 where [simp]: "s = (r1, l1)" "s' = (r2, l2)" by (cases s, cases s')
    show "if e = 0 then ?P (Suc j) s' else ?Q s'" using configure_slot_step [of p r1 l1 j v e r2 l2] j assms(3) by simp
  qed (use assms in auto)
  then show ?thesis by (auto split: if_splits)
qed

definition beside_sync :: "child_holdings \<Rightarrow> child_holdings" where
  "beside_sync r = r\<lparr>cr_sync := (\<lambda>_. 0), ch_sync_allocated := (\<lambda>_. False)\<rparr>"

lemma configure_sync_step:
  assumes inv: "child_inv (p, r, l)" and up: "sync_upto j r" and j: "j < LUNA_SYNC_SLOTS" and run: "configure_sync_slot v j (r, l) = (e, r', l')"
  shows "child_inv (p, r', l') \<and> endpoints_of l' = endpoints_of l \<and>
    beside_sync r' = beside_sync r \<and> (e = 0 \<longrightarrow> sync_upto (Suc j) r')"
proof (cases "ve_new v (T_Sync j)")
  case True
  define r1 where "r1 = r\<lparr>ch_sync_allocated := (ch_sync_allocated r)(j := True)\<rparr>"
  define l1 where "l1 = acquire (T_Sync j) l"
  have h1: "held p r1 u = (held p r u \<or> u = T_Sync j)" for u by (cases u) (auto simp: r1_def)
  have b1: "slots_bounded r1" using child_inv_bounded [OF inv] j by (auto simp: slots_bounded_def r1_def)
  have i1: "child_inv (p, r1, l1)" unfolding l1_def
    by (rule child_inv_acquire [OF inv _ _ h1 b1]) (use up in \<open>auto simp: endpoint_copy_def r1_def sync_upto_def\<close>)
  obtain c l2 where c: "copy_cap_to_process v (T_Child_Sync j) l1 = (c, l2)" by force
  define r2 where "r2 = r1\<lparr>cr_sync := (cr_sync r)(j := c)\<rparr>"
  have h2: "held p r2 u = (held p r1 u \<or> u = T_Child_Sync j \<and> c \<noteq> 0)" for u
    using up by (cases u) (auto simp: r2_def r1_def sync_upto_def)
  have b2: "slots_bounded r2" using b1 j by (auto simp: slots_bounded_def r2_def r1_def)
  have i2: "child_inv (p, r2, l2) \<and> endpoints_of l2 = endpoints_of l1"
    by (rule child_inv_copy [OF i1 c _ _ h2 b2]) (use up in \<open>auto simp: endpoint_copy_def r2_def r1_def sync_upto_def\<close>)
  have e1: "endpoints_of l1 = endpoints_of l" unfolding l1_def by (rule endpoints_acquire) (simp add: endpoint_copy_def)
  have res: "e = (if c = 0 then -1 else 0)" "r' = r2" "l' = l2"
    using run True by (simp_all add: configure_sync_slot_def Let_def c [unfolded l1_def] r2_def r1_def)
  then show ?thesis using i2 e1 up by (auto simp: r2_def r1_def sync_upto_def less_Suc_eq beside_sync_def)
qed (use run inv in \<open>auto simp: configure_sync_slot_def\<close>)

lemma configure_syncs_inv:
  assumes "child_inv (p, r, l)" "sync_upto 0 r" "each (configure_sync_slot v) 0 LUNA_SYNC_SLOTS (r, l) = (e, r', l')"
  shows "child_inv (p, r', l') \<and> endpoints_of l' = endpoints_of l \<and> beside_sync r' = beside_sync r \<and> (e = 0 \<longrightarrow> sync_upto LUNA_SYNC_SLOTS r')"
proof -
  let ?Q = "\<lambda>(r', l'). child_inv (p, r', l') \<and> endpoints_of l' = endpoints_of l \<and> beside_sync r' = beside_sync r"
  let ?P = "\<lambda>j (r', l'). ?Q (r', l') \<and> sync_upto j r'"
  have "if e = 0 then ?P (0 + LUNA_SYNC_SLOTS) (r', l') else ?Q (r', l')"
  proof (rule each_rule [where P = ?P and Q = ?Q])
    fix j s e s' assume j: "j < 0 + LUNA_SYNC_SLOTS" "?P j s" "configure_sync_slot v j s = (e, s')"
    obtain r1 l1 r2 l2 where [simp]: "s = (r1, l1)" "s' = (r2, l2)" by (cases s, cases s')
    show "if e = 0 then ?P (Suc j) s' else ?Q s'" using configure_sync_step [of p r1 l1 j v e r2 l2] j by simp
  qed (use assms in auto)
  then show ?thesis by (auto split: if_splits)
qed

lemma configure_console_inv:
  assumes inv: "child_inv (p, r, l)" and f: "\<not> ch_slot_allocated r" "\<not> ch_cap_created r" "cr_console_port r = 0"
    and run: "configure_console v (r, l) = (e, r', l')"
  shows "child_inv (p, r', l') \<and> endpoints_of l' = endpoints_of l \<and>
    (e = 0 \<longrightarrow> (\<exists>c. c \<noteq> 0 \<and> r' = r\<lparr>ch_slot_allocated := True, ch_cap_created := True, cr_console_port := c\<rparr>))"
proof (cases "ve_new v T_Console_Slot")
  case True
  define r1 where "r1 = r\<lparr>ch_slot_allocated := True\<rparr>"
  define l1 where "l1 = acquire T_Console_Slot l"
  have h1: "held p r1 u = (held p r u \<or> u = T_Console_Slot)" for u by (cases u) (auto simp: r1_def)
  have b1: "slots_bounded r1" using child_inv_bounded [OF inv] by (auto simp: slots_bounded_def r1_def)
  have i1: "child_inv (p, r1, l1)" unfolding l1_def
    by (rule child_inv_acquire [OF inv _ _ h1 b1]) (use f in \<open>auto simp: endpoint_copy_def r1_def\<close>)
  have e1: "endpoints_of l1 = endpoints_of l" unfolding l1_def by (rule endpoints_acquire) (simp add: endpoint_copy_def)
  show ?thesis
  proof (cases "ve_new v T_Console_Cap")
    case False
    then show ?thesis using run True i1 e1 by (auto simp: configure_console_def Let_def r1_def l1_def)
  next
    case cap: True
    define r2 where "r2 = r1\<lparr>ch_cap_created := True\<rparr>"
    define l2 where "l2 = acquire T_Console_Cap l1"
    have h2: "held p r2 u = (held p r1 u \<or> u = T_Console_Cap)" for u by (cases u) (auto simp: r2_def)
    have b2: "slots_bounded r2" using b1 by (auto simp: slots_bounded_def r2_def)
    have i2: "child_inv (p, r2, l2)" unfolding l2_def
      by (rule child_inv_acquire [OF i1 _ _ h2 b2]) (use f in \<open>auto simp: endpoint_copy_def r2_def r1_def\<close>)
    have e2: "endpoints_of l2 = endpoints_of l1" unfolding l2_def by (rule endpoints_acquire) (simp add: endpoint_copy_def)
    obtain c l3 where c: "copy_cap_to_process v T_Child_Port l2 = (c, l3)" by force
    define r3 where "r3 = r2\<lparr>cr_console_port := c\<rparr>"
    have h3: "held p r3 u = (held p r2 u \<or> u = T_Child_Port \<and> c \<noteq> 0)" for u using f by (cases u) (auto simp: r3_def r2_def r1_def)
    have b3: "slots_bounded r3" using b2 by (auto simp: slots_bounded_def r3_def)
    have i3: "child_inv (p, r3, l3) \<and> endpoints_of l3 = endpoints_of l2"
      by (rule child_inv_copy [OF i2 c _ _ h3 b3]) (use f in \<open>auto simp: endpoint_copy_def r3_def r2_def r1_def\<close>)
    have res: "e = (if c = 0 then -1 else 0)" "r' = r3" "l' = l3"
      using run True cap by (simp_all add: configure_console_def Let_def c [unfolded l2_def l1_def] r3_def r2_def r1_def)
    then show ?thesis using i3 e2 e1 by (auto simp: r3_def r2_def r1_def)
  qed
qed (use run inv in \<open>auto simp: configure_console_def\<close>)

definition pool_fresh :: "child_holdings \<Rightarrow> bool" where
  "pool_fresh r \<longleftrightarrow> slots_upto 0 r \<and> sync_upto 0 r \<and> \<not> ch_slot_allocated r \<and> \<not> ch_cap_created r \<and> cr_console_port r = 0"

definition net_caps :: "child_holdings \<Rightarrow> cptr \<times> cptr \<times> cptr" where
  "net_caps r = (cr_rx_ntfn r, cr_tx_ntfn r, cr_tx_submit_ntfn r)"

definition pool_done :: "child_holdings \<Rightarrow> bool" where
  "pool_done r \<longleftrightarrow> (\<forall>i < LUNA_RESOURCE_SLOTS. thread_resource_ok (slot_resource (cr_slots r i))) \<and>
     (\<forall>i < LUNA_SYNC_SLOTS. cr_sync r i \<noteq> 0) \<and> cr_console_port r \<noteq> 0"

lemma beside_slots_fields:
  "beside_slots r' = beside_slots r \<Longrightarrow> cr_sync r' = cr_sync r \<and> ch_sync_allocated r' = ch_sync_allocated r \<and> ch_slot_allocated r' = ch_slot_allocated r \<and>
     ch_cap_created r' = ch_cap_created r \<and> cr_console_port r' = cr_console_port r \<and> net_caps r' = net_caps r"
  by (cases r; cases r') (simp add: beside_slots_def net_caps_def)

lemma beside_sync_fields:
  "beside_sync r' = beside_sync r \<Longrightarrow> cr_slots r' = cr_slots r \<and> ch_slot_allocated r' = ch_slot_allocated r \<and>
     ch_cap_created r' = ch_cap_created r \<and> cr_console_port r' = cr_console_port r \<and> net_caps r' = net_caps r"
  by (cases r; cases r') (simp add: beside_sync_def net_caps_def)

lemma configure_resource_pool_inv:
  assumes inv: "child_inv (p, r, l)" and f: "pool_fresh r" and st: "stacks_ok v" and run: "configure_resource_pool v (r, l) = (e, r', l')"
  shows "child_inv (p, r', l') \<and> endpoints_of l' = endpoints_of l \<and> (e = 0 \<longrightarrow> pool_done r' \<and> net_caps r' = net_caps r)"
proof -
  obtain e1 r1 l1 where one: "each (configure_slot v) 0 LUNA_RESOURCE_SLOTS (r, l) = (e1, r1, l1)" by (metis prod.exhaust)
  note s1 = configure_slots_inv [OF inv _ st one]
  show ?thesis
  proof (cases "e1 = 0")
    case False
    then show ?thesis using run one s1 f by (auto simp: configure_resource_pool_def pool_fresh_def)
  next
    case ok1: True
    obtain e2 r2 l2 where two: "each (configure_sync_slot v) 0 LUNA_SYNC_SLOTS (r1, l1) = (e2, r2, l2)" by (metis prod.exhaust)
    have i1: "child_inv (p, r1, l1)" "endpoints_of l1 = endpoints_of l" "beside_slots r1 = beside_slots r" "slots_upto LUNA_RESOURCE_SLOTS r1"
      using s1 f ok1 by (auto simp: pool_fresh_def)
    note k1 = beside_slots_fields [OF i1(3)]
    have "sync_upto 0 r1" using f k1 by (simp add: pool_fresh_def sync_upto_def)
    note s2 = configure_syncs_inv [OF i1(1) this two]
    show ?thesis
    proof (cases "e2 = 0")
      case False
      then show ?thesis using run one two ok1 s2 i1 by (auto simp: configure_resource_pool_def)
    next
      case ok2: True
      have i2: "child_inv (p, r2, l2)" "endpoints_of l2 = endpoints_of l1" "beside_sync r2 = beside_sync r1" "sync_upto LUNA_SYNC_SLOTS r2"
        using s2 ok2 by auto
      note k2 = beside_sync_fields [OF i2(3)]
      have "configure_console v (r2, l2) = (e, r', l')" using run one two ok1 ok2 by (simp add: configure_resource_pool_def)
      note s3 = configure_console_inv [OF i2(1) _ _ _ this]
      have s: "child_inv (p, r', l')" "endpoints_of l' = endpoints_of l2"
        "e = 0 \<Longrightarrow> \<exists>c. c \<noteq> 0 \<and> r' = r2\<lparr>ch_slot_allocated := True, ch_cap_created := True, cr_console_port := c\<rparr>"
        using s3 f k1 k2 by (simp_all add: pool_fresh_def)
      then show ?thesis using i1 i2 k1 k2 by (auto simp: pool_done_def slots_upto_def sync_upto_def net_caps_def)
    qed
  qed
qed

lemma map_persistent_disk_inv:
  assumes inv: "child_inv (p, r, l)" and f: "ch_disk r = zero_mapping" and run: "map_persistent_disk v (r, l) = (e, r', l')"
  shows "child_inv (p, r', l') \<and> endpoints_of l' = endpoints_of l \<and> (\<exists>m. r' = r\<lparr>ch_disk := m\<rparr>)"
proof (cases "ve_disk_ready v \<and> ve_new v T_Disk_Reservation")
  case True
  let ?m = "(ch_disk r)\<lparr>fm_reserved := True\<rparr>"
  have "held p (r\<lparr>ch_disk := ?m\<rparr>) u = (held p r u \<or> u \<in> {T_Disk_Reservation})" for u by (cases u) auto
  then have i1: "child_inv (p, r\<lparr>ch_disk := ?m\<rparr>, acquire T_Disk_Reservation l)"
    using inv f by (intro child_inv_grow [OF inv, where S = "{T_Disk_Reservation}"])
      (auto simp: child_inv_def endpoint_copy_def frames_ok_def heap_ok_def slots_bounded_def zero_mapping_def)
  obtain e1 m1 l1 where loop: "each (map_frame v T_Disk_Slot T_Disk_Cap) 0 LUNA_DISK_IO_PAGES (?m, acquire T_Disk_Reservation l) = (e1, m1, l1)"
    by (metis prod.exhaust)
  have "frame_progress 0 ?m" using f by (simp add: frame_progress_def zero_mapping_def)
  note s = disk_window.map_frames_inv [OF i1 this loop]
  moreover have "endpoints_of (acquire T_Disk_Reservation l) = endpoints_of l" by (rule endpoints_acquire) (simp add: endpoint_copy_def)
  moreover have "r' = r\<lparr>ch_disk := m1\<rparr>" "l' = l1" using run True loop by (auto simp: map_persistent_disk_def)
  ultimately show ?thesis by auto
next
  case False
  then have "r' = r" "l' = l" using run by (auto simp: map_persistent_disk_def)
  then show ?thesis using inv by (auto intro!: exI [of _ "ch_disk r"])
qed

text \<open>The three notification capabilities of the network window.\<close>

lemma net_cap_step:
  assumes inv: "child_inv (p, r, l)" and c: "copy_cap_to_process v t l = (c, l')"
  shows "t = T_Child_Rx \<Longrightarrow> cr_rx_ntfn r = 0 \<Longrightarrow> child_inv (p, r\<lparr>cr_rx_ntfn := c\<rparr>, l') \<and> endpoints_of l' = endpoints_of l"
    "t = T_Child_Tx \<Longrightarrow> cr_tx_ntfn r = 0 \<Longrightarrow> child_inv (p, r\<lparr>cr_tx_ntfn := c\<rparr>, l') \<and> endpoints_of l' = endpoints_of l"
    "t = T_Child_Submit \<Longrightarrow> cr_tx_submit_ntfn r = 0 \<Longrightarrow> child_inv (p, r\<lparr>cr_tx_submit_ntfn := c\<rparr>, l') \<and> endpoints_of l' = endpoints_of l"
proof -
  have b: "slots_bounded (r\<lparr>cr_rx_ntfn := c\<rparr>)" "slots_bounded (r\<lparr>cr_tx_ntfn := c\<rparr>)" "slots_bounded (r\<lparr>cr_tx_submit_ntfn := c\<rparr>)"
    using child_inv_bounded [OF inv] by (simp_all add: slots_bounded_def)
  show "child_inv (p, r\<lparr>cr_rx_ntfn := c\<rparr>, l') \<and> endpoints_of l' = endpoints_of l" if "t = T_Child_Rx" "cr_rx_ntfn r = 0"
  proof (rule child_inv_copy [OF inv c])
    show "held p (r\<lparr>cr_rx_ntfn := c\<rparr>) u = (held p r u \<or> u = t \<and> c \<noteq> 0)" for u using that by (cases u) auto
  qed (use that b in \<open>simp_all add: endpoint_copy_def\<close>)
  show "child_inv (p, r\<lparr>cr_tx_ntfn := c\<rparr>, l') \<and> endpoints_of l' = endpoints_of l" if "t = T_Child_Tx" "cr_tx_ntfn r = 0"
  proof (rule child_inv_copy [OF inv c])
    show "held p (r\<lparr>cr_tx_ntfn := c\<rparr>) u = (held p r u \<or> u = t \<and> c \<noteq> 0)" for u using that by (cases u) auto
  qed (use that b in \<open>simp_all add: endpoint_copy_def\<close>)
  show "child_inv (p, r\<lparr>cr_tx_submit_ntfn := c\<rparr>, l') \<and> endpoints_of l' = endpoints_of l" if "t = T_Child_Submit" "cr_tx_submit_ntfn r = 0"
  proof (rule child_inv_copy [OF inv c])
    show "held p (r\<lparr>cr_tx_submit_ntfn := c\<rparr>) u = (held p r u \<or> u = t \<and> c \<noteq> 0)" for u using that by (cases u) auto
  qed (use that b in \<open>simp_all add: endpoint_copy_def\<close>)
qed

lemma network_map_child_inv:
  assumes inv: "child_inv (p, r, l)" and f: "ch_net r = zero_mapping" "net_caps r = (0, 0, 0)" and run: "network_map_child v (r, l) = (e, r', l')"
  shows "child_inv (p, r', l') \<and> endpoints_of l' = endpoints_of l \<and> pool_fresh r' = pool_fresh r \<and>
    (e = 0 \<longrightarrow> cr_rx_ntfn r' \<noteq> 0 \<and> cr_tx_ntfn r' \<noteq> 0 \<and> cr_tx_submit_ntfn r' \<noteq> 0)"
proof (cases "ve_net_ready v \<and> ve_new v T_Net_Reservation")
  case True
  let ?m = "(ch_net r)\<lparr>fm_reserved := True\<rparr>"
  have "held p (r\<lparr>ch_net := ?m\<rparr>) u = (held p r u \<or> u \<in> {T_Net_Reservation})" for u by (cases u) auto
  then have i1: "child_inv (p, r\<lparr>ch_net := ?m\<rparr>, acquire T_Net_Reservation l)"
    using inv f by (intro child_inv_grow [OF inv, where S = "{T_Net_Reservation}"])
      (auto simp: child_inv_def endpoint_copy_def frames_ok_def heap_ok_def slots_bounded_def zero_mapping_def)
  obtain e1 m1 l1 where loop: "each (map_frame v T_Net_Slot T_Net_Cap) 0 LUNA_NET_IO_PAGES (?m, acquire T_Net_Reservation l) = (e1, m1, l1)"
    by (metis prod.exhaust)
  have "frame_progress 0 ?m" using f by (simp add: frame_progress_def zero_mapping_def)
  note s1 = net_window.map_frames_inv [OF i1 this loop]
  have e0: "endpoints_of (acquire T_Net_Reservation l) = endpoints_of l" by (rule endpoints_acquire) (simp add: endpoint_copy_def)
  define r1 where "r1 = r\<lparr>ch_net := m1\<rparr>"
  have i1: "child_inv (p, r1, l1)" "endpoints_of l1 = endpoints_of l" using s1 e0 by (simp_all add: r1_def)
  have z: "cr_rx_ntfn r1 = 0" "cr_tx_ntfn r1 = 0" "cr_tx_submit_ntfn r1 = 0" using f(2) by (simp_all add: net_caps_def r1_def)
  obtain a l2 where a: "copy_cap_to_process v T_Child_Rx l1 = (a, l2)" by force
  define r2 where "r2 = r1\<lparr>cr_rx_ntfn := a\<rparr>"
  have i2: "child_inv (p, r2, l2)" "endpoints_of l2 = endpoints_of l1" using net_cap_step(1) [OF i1(1) a] z by (simp_all add: r2_def)
  obtain b l3 where b: "copy_cap_to_process v T_Child_Tx l2 = (b, l3)" by force
  define r3 where "r3 = r2\<lparr>cr_tx_ntfn := b\<rparr>"
  have i3: "child_inv (p, r3, l3)" "endpoints_of l3 = endpoints_of l2" using net_cap_step(2) [OF i2(1) b] z by (simp_all add: r3_def r2_def)
  obtain c l4 where c: "copy_cap_to_process v T_Child_Submit l3 = (c, l4)" by force
  define r4 where "r4 = r3\<lparr>cr_tx_submit_ntfn := c\<rparr>"
  have i4: "child_inv (p, r4, l4)" "endpoints_of l4 = endpoints_of l3" using net_cap_step(3) [OF i3(1) c] z by (simp_all add: r4_def r3_def r2_def)
  note rs = r4_def r3_def r2_def r1_def
  have pf: "pool_fresh r1 = pool_fresh r" "pool_fresh r2 = pool_fresh r" "pool_fresh r3 = pool_fresh r" "pool_fresh r4 = pool_fresh r"
    by (simp_all add: pool_fresh_def slots_upto_def sync_upto_def rs)
  consider "e1 \<noteq> 0" "(e, r', l') = (e1, r1, l1)" | "e1 = 0" "a = 0" "(e, r', l') = (-1, r2, l2)" | "e1 = 0" "a \<noteq> 0" "b = 0" "(e, r', l') = (-1, r3, l3)"
    | "e1 = 0" "a \<noteq> 0" "b \<noteq> 0" "(e, r', l') = (if c = 0 then -1 else 0, r4, l4)"
    using run True by (auto simp: network_map_child_def Let_def loop a b c rs split: if_splits)
  then show ?thesis using i1 i2 i3 i4 pf by cases (auto simp: rs)
next
  case False
  then have "r' = r" "l' = l" "e \<noteq> 0" using run by (auto simp: network_map_child_def)
  then show ?thesis using inv by auto
qed

lemma reserve_heap_inv:
  assumes inv: "child_inv (p, r, l)" and f: "ch_heap r = ch_heap zero_holdings" and run: "reserve_heap v (r, l) = (e, r', l')"
  shows "child_inv (p, r', l') \<and> endpoints_of l' = endpoints_of l \<and> (\<exists>h. r' = r\<lparr>ch_heap := h\<rparr>)"
proof (cases "ve_new v T_Heap_Reservation")
  case True
  then have r': "r' = r\<lparr>ch_heap := (ch_heap r)\<lparr>hr_reserved := True\<rparr>\<rparr>" "l' = acquire T_Heap_Reservation l"
    using run by (auto simp: reserve_heap_def)
  have "held p r' u = (held p r u \<or> u \<in> {T_Heap_Reservation})" for u unfolding r' by (cases u) auto
  then have "child_inv (p, r', l')"
    using inv f by (intro child_inv_grow [OF inv, where S = "{T_Heap_Reservation}"])
      (auto simp: r' child_inv_def endpoint_copy_def frames_ok_def heap_ok_def heap_resource_inv_def slots_bounded_def zero_holdings_def)
  then show ?thesis using r' by (auto simp: endpoints_of_def)
next
  case False
  then have "r' = r" "l' = l" using run by (auto simp: reserve_heap_def)
  then show ?thesis using inv by (auto intro!: exI [of _ "ch_heap r"])
qed

lemma mint_endpoint_inv:
  assumes "child_inv (p, r, l)" "endpoint_copy t" "\<not> lg_live l t" "mint_endpoint v t (r, l) = (e, r', l')"
  shows "child_inv (p, r', l') \<and> r' = r \<and> (\<forall>u. u \<noteq> t \<longrightarrow> lg_live l' u = lg_live l u)"
  using assms by (auto simp: mint_endpoint_def copy_cap_to_process_def child_inv_def frames_ok_def heap_ok_def split: if_splits)

section \<open>Starting\<close>

definition all_calls_ok :: "lifecycle_env \<Rightarrow> bool" where
  "all_calls_ok v \<longleftrightarrow> (\<forall>t. ve_new v t \<and> ve_source v t \<and> ve_map v t \<and> ve_cptr v t \<noteq> 0) \<and> ve_disk_ready v \<and> ve_net_ready v \<and> ve_spawn v \<and>
     (case ve_process v of None \<Rightarrow> False
      | Some p \<Rightarrow> sp_own_cspace p \<and> sp_own_vspace p \<and> sp_own_ep p \<and> sp_pd p \<noteq> ve_manager_pd v \<and> sp_cspace p \<noteq> ve_manager_cnode v)"

lemma each_zero: "(\<And>j s. fst (f j s) = 0) \<Longrightarrow> fst (each f i n s) = 0"
proof (induction n arbitrary: i s)
  case (Suc n)
  obtain e s' where f: "f i s = (e, s')" by force
  then have "e = 0" using Suc.prems [of i s] by simp
  then show ?case using Suc f by simp
qed simp

lemma calls_succeed:
  assumes "all_calls_ok v"
  shows "fst (reserve_heap v s) = 0" "fst (map_persistent_disk v s) = 0" "fst (network_map_child v s) = 0"
    "fst (configure_resource_pool v s) = 0" "fst (mint_endpoint v t s) = 0"
proof -
  have n: "ve_new v t" "ve_source v t" "ve_map v t" "ve_cptr v t \<noteq> 0" "ve_disk_ready v" "ve_net_ready v" for t
    using assms by (simp_all add: all_calls_ok_def)
  have f: "fst (map_frame v slot cap j s) = 0" for slot cap j s using n by (auto simp: map_frame_def Let_def split: prod.splits)
  have g: "fst (each (map_frame v slot cap) i k s) = 0" for slot cap i k s by (rule each_zero) (rule f)
  have c: "fst (copy_cap_to_process v t l) \<noteq> 0" for t l using n by (simp add: copy_cap_to_process_def)
  show "fst (reserve_heap v s) = 0" using n by (auto simp: reserve_heap_def split: prod.splits)
  show "fst (map_persistent_disk v s) = 0"
    using n g by (auto simp: map_persistent_disk_def Let_def split: prod.splits) (metis fst_conv)
  show "fst (network_map_child v s) = 0"
    using n g c by (auto simp: network_map_child_def Let_def split: prod.splits) (metis fst_conv)+
  have "fst (configure_slot v j s) = 0" for j s
    using n c by (auto simp: configure_slot_def configure_join_def Let_def split: prod.splits) (metis fst_conv)+
  then have s1: "fst (each (configure_slot v) i k s) = 0" for i k s by (rule each_zero)
  have "fst (configure_sync_slot v j s) = 0" for j s
    using n c by (auto simp: configure_sync_slot_def Let_def split: prod.splits) (metis fst_conv)+
  then have s2: "fst (each (configure_sync_slot v) i k s) = 0" for i k s by (rule each_zero)
  have s3: "fst (configure_console v s) = 0" for s
    using n c by (auto simp: configure_console_def Let_def split: prod.splits) (metis fst_conv)+
  show "fst (configure_resource_pool v s) = 0"
    using s1 [of 0 LUNA_RESOURCE_SLOTS s] s2 s3 by (cases s) (auto simp: configure_resource_pool_def Let_def split: prod.splits, (metis fst_conv)+)
  show "fst (mint_endpoint v t s) = 0"
    using c by (auto simp: mint_endpoint_def split: prod.splits) (metis fst_conv)
qed

definition start_outcome :: "lifecycle_env \<Rightarrow> luna_start_failpoint \<Rightarrow> (child_state \<Rightarrow> bool) \<Rightarrow> c_int \<times> child_state \<Rightarrow> bool" where
  "start_outcome v failpoint good = (\<lambda>(res, s). (res = 0 \<longrightarrow> good s) \<and> (res \<noteq> 0 \<longrightarrow> fst s = zero_process \<and> no_child s) \<and>
     (all_calls_ok v \<longrightarrow> res = (if failpoint = LUNA_START_FAIL_NONE then 0 else 1)))"

lemma stage_rule:
  assumes v: "deletes_ok v" and f: "f s = (e, s1)" and inv: "child_inv s1" and ok: "all_calls_ok v \<Longrightarrow> e = 0" and cur: "current \<noteq> LUNA_START_FAIL_NONE"
    and k: "e = 0 \<Longrightarrow> failpoint \<noteq> current \<Longrightarrow> start_outcome v failpoint good (k s1)"
  shows "start_outcome v failpoint good (stage v failpoint current f k s)"
proof -
  obtain p r l where s1: "s1 = (p, r, l)" by (cases s1)
  obtain l' where d: "destroy_child v s1 = (0, zero_process, zero_holdings, l')" "no_child (zero_process, zero_holdings, l')"
    using destroy_child_ok [OF v] inv unfolding s1 by blast
  consider "e \<noteq> 0" | "e = 0" "failpoint = current" | "e = 0" "failpoint \<noteq> current" by blast
  then show ?thesis
  proof cases
    case 1
    then show ?thesis using f d ok by (auto simp: stage_def fail_start_def start_outcome_def)
  next
    case 2
    then show ?thesis using f d cur by (auto simp: stage_def inject_start_rollback_def start_outcome_def)
  next
    case 3
    then show ?thesis using f k by (simp add: stage_def inject_start_rollback_def)
  qed
qed

lemma on_holdings_eq: "f (r, l) = (e, r', l') \<Longrightarrow> on_holdings f (p, r, l) = (e, p, r', l')"
  by (simp add: on_holdings_def)

definition started :: "lifecycle_env \<Rightarrow> child_state \<Rightarrow> bool" where
  "started v = (\<lambda>(p, r, l). child_inv (p, r, l) \<and> resources_ok (luna_child_resources.truncate r) \<and> ve_process v = Some p \<and>
     lg_live l T_Child_Control \<and> lg_live l T_Child_Command \<and>
     sp_own_cspace p \<and> sp_own_vspace p \<and> sp_own_ep p \<and> sp_pd p \<noteq> ve_manager_pd v \<and> sp_cspace p \<noteq> ve_manager_cnode v)"

definition process_ok :: "lifecycle_env \<Rightarrow> bool" where
  "process_ok v \<longleftrightarrow> (case ve_process v of None \<Rightarrow> True | Some p \<Rightarrow> sp_cspace p \<noteq> 0)"

lemma no_child_process:
  assumes "no_child (p0, r, l)" "sp_cspace p \<noteq> 0"
  shows "child_inv (p, r, acquire T_Process l)"
proof -
  have "lg_live (acquire T_Process l) t = held p r t" for t
    using assms by (cases t) (auto simp: no_child_def zero_holdings_def zero_slot_def zero_mapping_def)
  then show ?thesis using assms
    by (simp add: no_child_def child_inv_def zero_holdings_def zero_slot_def zero_mapping_def slots_bounded_def frames_ok_def heap_ok_def
        heap_resource_inv_def luna_consts)
qed

lemma start_outcome_pool:
  assumes v: "deletes_ok v" "stacks_ok v" and p: "ve_process v = Some p" "check_process v (p, r, l) = (0, p, r, l)"
    and inv: "child_inv (p, r, l)" and f: "pool_fresh r" "endpoints_of l = (False, False)"
    and net: "cr_rx_ntfn r \<noteq> 0" "cr_tx_ntfn r \<noteq> 0" "cr_tx_submit_ntfn r \<noteq> 0"
    and fp: "failpoint \<notin> {LUNA_START_FAIL_PROCESS, LUNA_START_FAIL_HEAP, LUNA_START_FAIL_DISK, LUNA_START_FAIL_NETWORK}"
  shows "start_outcome v failpoint (started v)
    (stage v failpoint LUNA_START_FAIL_RESOURCE_POOL (on_holdings (configure_resource_pool v))
    (stage v failpoint LUNA_START_FAIL_CONTROL_CAP (on_holdings (mint_endpoint v T_Child_Control))
    (stage v failpoint LUNA_START_FAIL_COMMAND_CAP (on_holdings (mint_endpoint v T_Child_Command))
    (\<lambda>s. if \<not> ve_spawn v then fail_start v s else (0, s)))) (p, r, l))"
proof -
  obtain e1 r1 l1 where one: "configure_resource_pool v (r, l) = (e1, r1, l1)" by (metis prod.exhaust)
  note s1 = configure_resource_pool_inv [OF inv f(1) v(2) one]
  obtain e2 r2 l2 where two: "mint_endpoint v T_Child_Control (r1, l1) = (e2, r2, l2)" by (metis prod.exhaust)
  have c1: "\<not> lg_live l1 T_Child_Control" "\<not> lg_live l1 T_Child_Command" using s1 f(2) by (auto simp: endpoints_of_def)
  note s2 = mint_endpoint_inv [OF conjunct1 [OF s1] _ c1(1) two]
  have s2': "child_inv (p, r2, l2)" "r2 = r1" "\<not> lg_live l2 T_Child_Command" using s2 c1 by (auto simp: endpoint_copy_def)
  obtain e3 r3 l3 where three: "mint_endpoint v T_Child_Command (r2, l2) = (e3, r3, l3)" by (metis prod.exhaust)
  have s3: "child_inv (p, r3, l3)" "r3 = r2" "\<forall>u. u \<noteq> T_Child_Command \<longrightarrow> lg_live l3 u = lg_live l2 u"
    using mint_endpoint_inv [OF s2'(1) _ s2'(3) three] by (auto simp: endpoint_copy_def)
  have z: "e1 = 0" "e2 = 0" "e3 = 0" if "all_calls_ok v"
    using calls_succeed(4) [OF that, of "(r, l)"] calls_succeed(5) [OF that] one two three by (metis fst_conv)+
  have last: "start_outcome v failpoint (started v) (if \<not> ve_spawn v then fail_start v (p, r3, l3) else (0, p, r3, l3))"
    if "e1 = 0" "e2 = 0" "e3 = 0" "failpoint \<noteq> LUNA_START_FAIL_RESOURCE_POOL" "failpoint \<noteq> LUNA_START_FAIL_CONTROL_CAP" "failpoint \<noteq> LUNA_START_FAIL_COMMAND_CAP"
  proof -
    have none: "failpoint = LUNA_START_FAIL_NONE" using that fp by (cases failpoint) auto
    have live: "lg_live l3 T_Child_Control" "lg_live l3 T_Child_Command"
      using two three that s3(3) by (auto simp: mint_endpoint_def copy_cap_to_process_def split: if_splits)
    have "resources_ok (luna_child_resources.truncate r3)"
      using s1 that net s2'(2) s3(2) by (auto simp: resources_ok_def luna_child_resources.truncate_def pool_done_def net_caps_def)
    then have good: "started v (p, r3, l3)" using s3(1) p live by (auto simp: started_def check_process_def split: if_splits)
    obtain l' where "destroy_child v (p, r3, l3) = (0, zero_process, zero_holdings, l')" "no_child (zero_process, zero_holdings, l')"
      using destroy_child_ok [OF v(1) s3(1)] by blast
    then show ?thesis using good none by (auto simp: start_outcome_def fail_start_def all_calls_ok_def)
  qed
  let ?k = "\<lambda>s. if \<not> ve_spawn v then fail_start v s else (0, s)"
  let ?c = "stage v failpoint LUNA_START_FAIL_COMMAND_CAP (on_holdings (mint_endpoint v T_Child_Command)) ?k"
  let ?b = "stage v failpoint LUNA_START_FAIL_CONTROL_CAP (on_holdings (mint_endpoint v T_Child_Control)) ?c"
  have o1: "on_holdings (configure_resource_pool v) (p, r, l) = (e1, p, r1, l1)" by (simp add: on_holdings_def one)
  have o2: "on_holdings (mint_endpoint v T_Child_Control) (p, r1, l1) = (e2, p, r2, l2)" by (simp add: on_holdings_def two)
  have o3: "on_holdings (mint_endpoint v T_Child_Command) (p, r2, l2) = (e3, p, r3, l3)" by (simp add: on_holdings_def three)
  have c: "start_outcome v failpoint (started v) (?c (p, r2, l2))"
    if "e1 = 0" "e2 = 0" "failpoint \<noteq> LUNA_START_FAIL_RESOURCE_POOL" "failpoint \<noteq> LUNA_START_FAIL_CONTROL_CAP"
    by (rule stage_rule [OF v(1)], rule o3, rule s3(1)) (use that last z(3) in simp_all)
  have b: "start_outcome v failpoint (started v) (?b (p, r1, l1))" if "e1 = 0" "failpoint \<noteq> LUNA_START_FAIL_RESOURCE_POOL"
    by (rule stage_rule [OF v(1)], rule o2, rule s2'(1)) (use that c z(2) in simp_all)
  show ?thesis by (rule stage_rule [OF v(1)], rule o1, rule conjunct1 [OF s1]) (use b z(1) in simp_all)
qed

lemma start_child_outcome:
  assumes v: "deletes_ok v" "stacks_ok v" "process_ok v" and n: "no_child (zero_process, r, l)"
  shows "start_outcome v failpoint (started v) (start_child v failpoint (zero_process, r, l))"
proof (cases "ve_process v")
  case None
  then show ?thesis using n by (auto simp: start_child_def start_outcome_def all_calls_ok_def)
next
  case (Some p)
  have p: "sp_cspace p \<noteq> 0" using v(3) Some by (simp add: process_ok_def)
  let ?l = "acquire T_Process l"
  have inv: "child_inv (p, r, ?l)" by (rule no_child_process [OF n p])
  have r: "r = zero_holdings" and ep: "endpoints_of ?l = (False, False)" using n by (auto simp: no_child_def endpoints_of_def)
  obtain e0 where zero: "check_process v (p, r, ?l) = (e0, p, r, ?l)" by (simp add: check_process_def)
  obtain e1 r1 l1 where one: "reserve_heap v (r, ?l) = (e1, r1, l1)" by (metis prod.exhaust)
  have s1: "child_inv (p, r1, l1)" "endpoints_of l1 = (False, False)" "\<exists>h. r1 = r\<lparr>ch_heap := h\<rparr>"
    using reserve_heap_inv [OF inv _ one] r ep by auto
  obtain e2 r2 l2 where two: "map_persistent_disk v (r1, l1) = (e2, r2, l2)" by (metis prod.exhaust)
  have d1: "ch_disk r1 = zero_mapping" using s1(3) r by (auto simp: zero_holdings_def)
  have s2: "child_inv (p, r2, l2)" "endpoints_of l2 = (False, False)" "\<exists>m. r2 = r1\<lparr>ch_disk := m\<rparr>"
    using map_persistent_disk_inv [OF s1(1) d1 two] s1(2) by auto
  obtain e3 r3 l3 where three: "network_map_child v (r2, l2) = (e3, r3, l3)" by (metis prod.exhaust)
  have n2: "ch_net r2 = zero_mapping" "net_caps r2 = (0, 0, 0)" "pool_fresh r2"
    using s2(3) s1(3) r by (auto simp: zero_holdings_def zero_slot_def net_caps_def pool_fresh_def slots_upto_def sync_upto_def)
  have s3: "child_inv (p, r3, l3)" "endpoints_of l3 = (False, False)" "pool_fresh r3"
    "e3 = 0 \<Longrightarrow> cr_rx_ntfn r3 \<noteq> 0" "e3 = 0 \<Longrightarrow> cr_tx_ntfn r3 \<noteq> 0" "e3 = 0 \<Longrightarrow> cr_tx_submit_ntfn r3 \<noteq> 0"
    using network_map_child_inv [OF s2(1) n2(1,2) three] s2(2) n2(3) by auto
  have z: "e0 = 0" "e1 = 0" "e2 = 0" "e3 = 0" if "all_calls_ok v"
    using calls_succeed(1) [OF that, of "(r, ?l)"] calls_succeed(2) [OF that, of "(r1, l1)"] calls_succeed(3) [OF that, of "(r2, l2)"]
      that one two three zero Some by (auto simp: all_calls_ok_def check_process_def)
  let ?D = "stage v failpoint LUNA_START_FAIL_RESOURCE_POOL (on_holdings (configure_resource_pool v))
    (stage v failpoint LUNA_START_FAIL_CONTROL_CAP (on_holdings (mint_endpoint v T_Child_Control))
    (stage v failpoint LUNA_START_FAIL_COMMAND_CAP (on_holdings (mint_endpoint v T_Child_Command))
    (\<lambda>s. if \<not> ve_spawn v then fail_start v s else (0, s))))"
  let ?C = "stage v failpoint LUNA_START_FAIL_NETWORK (on_holdings (network_map_child v)) ?D"
  let ?B = "stage v failpoint LUNA_START_FAIL_DISK (on_holdings (map_persistent_disk v)) ?C"
  let ?A = "stage v failpoint LUNA_START_FAIL_HEAP (on_holdings (reserve_heap v)) ?B"
  have o: "on_holdings (reserve_heap v) (p, r, ?l) = (e1, p, r1, l1)" "on_holdings (map_persistent_disk v) (p, r1, l1) = (e2, p, r2, l2)"
    "on_holdings (network_map_child v) (p, r2, l2) = (e3, p, r3, l3)" by (simp_all add: on_holdings_def one two three)
  have D: "start_outcome v failpoint (started v) (?D (p, r3, l3))"
    if "e0 = 0" "e3 = 0" "failpoint \<noteq> LUNA_START_FAIL_PROCESS" "failpoint \<noteq> LUNA_START_FAIL_HEAP" "failpoint \<noteq> LUNA_START_FAIL_DISK" "failpoint \<noteq> LUNA_START_FAIL_NETWORK"
    using that s3 zero by (intro start_outcome_pool [OF v(1,2) Some]) (auto simp: check_process_def)
  have C: "start_outcome v failpoint (started v) (?C (p, r2, l2))"
    if "e0 = 0" "failpoint \<noteq> LUNA_START_FAIL_PROCESS" "failpoint \<noteq> LUNA_START_FAIL_HEAP" "failpoint \<noteq> LUNA_START_FAIL_DISK"
    by (rule stage_rule [OF v(1)], rule o(3), rule s3(1)) (use that D z(4) in simp_all)
  have B: "start_outcome v failpoint (started v) (?B (p, r1, l1))"
    if "e0 = 0" "failpoint \<noteq> LUNA_START_FAIL_PROCESS" "failpoint \<noteq> LUNA_START_FAIL_HEAP"
    by (rule stage_rule [OF v(1)], rule o(2), rule s2(1)) (use that C z(3) in simp_all)
  have A: "start_outcome v failpoint (started v) (?A (p, r, ?l))" if "e0 = 0" "failpoint \<noteq> LUNA_START_FAIL_PROCESS"
    by (rule stage_rule [OF v(1)], rule o(1), rule s1(1)) (use that B z(2) in simp_all)
  have "start_outcome v failpoint (started v) (stage v failpoint LUNA_START_FAIL_PROCESS (check_process v) ?A (p, r, ?l))"
    by (rule stage_rule [OF v(1)], rule zero, rule inv) (use A z(1) in simp_all)
  then show ?thesis using Some by (simp add: start_child_def)
qed

section \<open>Memory requests while the child lives\<close>

definition heap_page :: "nat \<Rightarrow> nat" where
  "heap_page vaddr = (vaddr - LUNA_CHILD_HEAP_BASE) div 4096"

definition ledger_new_pages :: "bool \<Rightarrow> ledger new_pages" where
  "ledger_new_pages ok l vaddr n = (if ok then (0, map_heap_pages (heap_page vaddr) n l) else (-1, l))"

definition ledger_unmap_pages :: "ledger unmap_pages" where
  "ledger_unmap_pages l vaddr n = unmap_heap_pages (heap_page vaddr) n l"

inductive child_lives :: "lifecycle_env \<Rightarrow> child_state \<Rightarrow> bool" for v where
  lives_start: "no_child (zero_process, r, l) \<Longrightarrow> start_child v LUNA_START_FAIL_NONE (zero_process, r, l) = (0, s) \<Longrightarrow> child_lives v s"
| lives_memory: "child_lives v (p, r, l) \<Longrightarrow>
    service_memory_request (ledger_new_pages ok) ledger_unmap_pages event address pages \<lparr>mc_heap = ch_heap r, mc_vspace = l\<rparr> = (e, c) \<Longrightarrow>
    child_lives v (p, r\<lparr>ch_heap := mc_heap c\<rparr>, mc_vspace c)"

lemma map_heap_pages_effect:
  "\<forall>i. f \<le> i \<and> i < f + n \<longrightarrow> \<not> lg_live l (T_Heap_Page i) \<Longrightarrow>
   (\<forall>u. lg_live (map_heap_pages f n l) u = (lg_live l u \<or> u \<in> T_Heap_Page ` {f..<f + n})) \<and> lg_mapped (map_heap_pages f n l) = lg_mapped l \<and>
   (\<forall>k. lg_leaf (map_heap_pages f n l) k = (lg_leaf l k \<or> k \<in> (\<lambda>i. i div SPAN_PAGES) ` {f..<f + n})) \<and> lg_bad (map_heap_pages f n l) = lg_bad l"
proof (induction n arbitrary: f l)
  case 0
  then show ?case by (simp add: map_heap_pages_def)
next
  case (Suc n)
  let ?l = "(acquire (T_Heap_Page f) l)\<lparr>lg_leaf := (lg_leaf l)(f div SPAN_PAGES := True)\<rparr>"
  have split: "[f..<f + Suc n] = f # [Suc f..<Suc f + n]" "{f..<f + Suc n} = insert f {Suc f..<Suc f + n}" by (simp add: upt_conv_Cons) auto
  have m: "map_heap_pages f (Suc n) l = map_heap_pages (Suc f) n ?l" by (simp only: map_heap_pages_def split fold_simps)
  have "\<forall>i. Suc f \<le> i \<and> i < Suc f + n \<longrightarrow> \<not> lg_live ?l (T_Heap_Page i)" using Suc.prems by auto
  note ih = Suc.IH [OF this]
  have "\<not> lg_live l (T_Heap_Page f)" using Suc.prems by auto
  then show ?case using ih unfolding m split(2) by auto
qed

lemma memory_request_cases:
  assumes "service_memory_request (ledger_new_pages ok) ledger_unmap_pages event address pages \<lparr>mc_heap = h, mc_vspace = l\<rparr> = (e, c)"
  obtains (nothing) "mc_heap c = h" "mc_vspace c = l"
  | (map) f n where "f + n \<le> LUNA_CHILD_HEAP_PAGES" "hr_reserved h" "\<forall>i. f \<le> i \<and> i < f + n \<longrightarrow> \<not> hr_mapped h i" "mc_vspace c = map_heap_pages f n l"
      "mc_heap c = h\<lparr>hr_mapped := memset_at (hr_mapped h) f n True, hr_mapped_pages := hr_mapped_pages h + n,
         hr_peak_pages := max (hr_mapped_pages h + n) (hr_peak_pages h)\<rparr>"
  | (unmap) f n where "f + n \<le> LUNA_CHILD_HEAP_PAGES" "hr_reserved h" "\<forall>i. f \<le> i \<and> i < f + n \<longrightarrow> hr_mapped h i" "mc_vspace c = unmap_heap_pages f n l"
      "mc_heap c = h\<lparr>hr_mapped := memset_at (hr_mapped h) f n False, hr_mapped_pages := hr_mapped_pages h - n\<rparr>"
proof (cases "memory_range_bad h (unat address) (unat pages)")
  case True
  then show ?thesis using assms by (intro that(1)) (auto simp: service_memory_request_def Let_def)
next
  case False
  let ?n = "unat pages"
  obtain f where f: "hr_reserved h" "f + ?n \<le> LUNA_CHILD_HEAP_PAGES" "(unat address - LUNA_CHILD_HEAP_BASE) div 4096 = f"
    using memory_range_bad_cases [OF False] by metis
  have pg: "heap_page (unat address) = f" using f(3) by (simp add: heap_page_def)
  consider "first_from (memory_page_conflict h event) f ?n \<noteq> None" | "first_from (memory_page_conflict h event) f ?n = None" "event = event_word LUNA_ISOLATION_EVENT_MEMORY_MAP" "ok"
    | "first_from (memory_page_conflict h event) f ?n = None" "event = event_word LUNA_ISOLATION_EVENT_MEMORY_MAP" "\<not> ok"
    | "first_from (memory_page_conflict h event) f ?n = None" "event = event_word LUNA_ISOLATION_EVENT_MEMORY_UNMAP"
    | "event \<noteq> event_word LUNA_ISOLATION_EVENT_MEMORY_MAP" "event \<noteq> event_word LUNA_ISOLATION_EVENT_MEMORY_UNMAP" by blast
  then show ?thesis
  proof cases
    case 2
    then have "\<forall>i. f \<le> i \<and> i < f + ?n \<longrightarrow> \<not> hr_mapped h i" by (auto simp: first_from_None memory_page_conflict_def)
    then show ?thesis using assms False 2 f pg
      by (intro that(2) [of f ?n]) (auto simp: service_memory_request_def Let_def ledger_new_pages_def max_def)
  next
    case 4
    then have "\<forall>i. f \<le> i \<and> i < f + ?n \<longrightarrow> hr_mapped h i" by (auto simp: first_from_None memory_page_conflict_def)
    then show ?thesis using assms False 4 f pg
      by (intro that(3) [of f ?n]) (auto simp: service_memory_request_def Let_def ledger_unmap_pages_def)
  qed (use assms False f in \<open>auto intro!: that(1) simp: service_memory_request_def Let_def ledger_new_pages_def split: if_splits\<close>)
qed

lemma held_heap:
  "hr_reserved h = hr_reserved (ch_heap r) \<Longrightarrow> held p (r\<lparr>ch_heap := h\<rparr>) u = (case u of T_Heap_Page i \<Rightarrow> hr_mapped h i | _ \<Rightarrow> held p r u)"
  by (cases u) simp_all

lemma memory_request_inv:
  assumes inv: "child_inv (p, r, l)"
    and run: "service_memory_request (ledger_new_pages ok) ledger_unmap_pages event address pages \<lparr>mc_heap = ch_heap r, mc_vspace = l\<rparr> = (e, c)"
  shows "child_inv (p, r\<lparr>ch_heap := mc_heap c\<rparr>, mc_vspace c)"
proof -
  let ?h = "ch_heap r" and ?r = "r\<lparr>ch_heap := mc_heap c\<rparr>"
  have pm: "\<forall>i. lg_live l (T_Heap_Page i) = hr_mapped ?h i" "lg_live l T_Process" and sb: "slots_bounded ?r" and ho: "heap_ok ?h l"
    and rest: "\<not> lg_bad l" "sp_cspace p \<noteq> 0" "\<forall>t. \<not> endpoint_copy t \<longrightarrow> lg_live l t = held p r t"
      "frames_ok T_Disk_Cap LUNA_DISK_IO_PAGES (ch_disk r) l" "frames_ok T_Net_Cap LUNA_NET_IO_PAGES (ch_net r) l"
    using inv by (auto simp: child_inv_def endpoint_copy_def slots_bounded_def)
  have hi: "heap_resource_inv (mc_heap c)" using service_memory_inv [OF _ run] ho by (simp add: heap_ok_def)
  from run show ?thesis
  proof (cases rule: memory_request_cases)
    case nothing
    then show ?thesis using inv by simp
  next
    case (map f n)
    have eff: "\<forall>u. lg_live (mc_vspace c) u = (lg_live l u \<or> u \<in> T_Heap_Page ` {f..<f + n})" "lg_mapped (mc_vspace c) = lg_mapped l"
      "\<forall>k. lg_leaf (mc_vspace c) k = (lg_leaf l k \<or> k \<in> (\<lambda>i. i div SPAN_PAGES) ` {f..<f + n})" "lg_bad (mc_vspace c) = lg_bad l"
      using map_heap_pages_effect [of f n l] pm map(3) unfolding map(4) by simp_all
    have mp: "hr_mapped (mc_heap c) i = (hr_mapped ?h i \<or> f \<le> i \<and> i < f + n)" for i using map(5) by (auto simp: memset_at_def)
    have hd: "held p ?r u = (held p r u \<or> u \<in> T_Heap_Page ` {f..<f + n})" for u
    proof -
      have "hr_reserved (mc_heap c) = hr_reserved ?h" using map(5) by simp
      then show ?thesis using mp by (cases u) (simp_all add: held_heap image_iff)
    qed
    have leaf: "lg_leaf (mc_vspace c) (i div SPAN_PAGES)" if "hr_mapped (mc_heap c) i" for i
      using that mp ho eff(3) by (auto simp: heap_ok_def)
    have "lg_leaf (mc_vspace c) k" if full: "hr_peak_pages (mc_heap c) = LUNA_CHILD_HEAP_PAGES" and k: "k < SPANS" for k
    proof (cases "hr_peak_pages ?h = LUNA_CHILD_HEAP_PAGES")
      case True
      then show ?thesis using ho k eff(3) by (simp add: heap_ok_def)
    next
      case False
      then have "hr_mapped_pages (mc_heap c) = LUNA_CHILD_HEAP_PAGES" using full map(5) by (auto simp: max_def split: if_splits)
      then have "\<forall>i < LUNA_CHILD_HEAP_PAGES. hr_mapped (mc_heap c) i" using hi count_below_full [of "hr_mapped (mc_heap c)" LUNA_CHILD_HEAP_PAGES] by (simp add: heap_resource_inv_def)
      moreover have "k * SPAN_PAGES < LUNA_CHILD_HEAP_PAGES" using k by (simp add: SPANS_def SPAN_PAGES_def luna_consts)
      ultimately show ?thesis using leaf [of "k * SPAN_PAGES"] by (simp add: SPAN_PAGES_def)
    qed
    moreover have "hr_reserved (mc_heap c) \<and> i < LUNA_CHILD_HEAP_PAGES" if "hr_mapped (mc_heap c) i" for i
      using that mp ho map(1,2,5) by (auto simp: heap_ok_def)
    ultimately have "heap_ok (mc_heap c) (mc_vspace c)" using hi leaf by (simp add: heap_ok_def)
    then show ?thesis using rest eff hd sb by (auto simp: child_inv_def frames_ok_def)
  next
    case (unmap f n)
    have eff: "mc_vspace c = drop_things (T_Heap_Page ` {f..<f + n}) l"
      unfolding unmap(4) using unmap(3) pm by (intro unmap_heap_pages_drop) auto
    have mp: "hr_mapped (mc_heap c) i = (hr_mapped ?h i \<and> \<not> (f \<le> i \<and> i < f + n))" for i using unmap(5) by (auto simp: memset_at_def)
    have hd: "held p ?r u = (held p r u \<and> u \<notin> T_Heap_Page ` {f..<f + n})" for u
    proof -
      have "hr_reserved (mc_heap c) = hr_reserved ?h" using unmap(5) by simp
      then show ?thesis using mp by (cases u) (simp_all add: held_heap image_iff)
    qed
    have "heap_ok (mc_heap c) (mc_vspace c)" using hi ho mp unmap(5) unfolding eff by (auto simp: heap_ok_def)
    then show ?thesis using rest hd sb unfolding eff by (auto simp: child_inv_def frames_ok_def)
  qed
qed

lemma child_lives_inv:
  "child_lives v s \<Longrightarrow> deletes_ok v \<Longrightarrow> stacks_ok v \<Longrightarrow> process_ok v \<Longrightarrow> child_inv s"
proof (induction rule: child_lives.induct)
  case (lives_start r l s)
  then show ?case using start_child_outcome [of v r l LUNA_START_FAIL_NONE] by (cases s) (simp add: start_outcome_def started_def)
next
  case (lives_memory p r l ok event address pages e c)
  then show ?case by (intro memory_request_inv) simp_all
qed

lemma audit_ok:
  assumes "deletes_ok v" "stacks_ok v" "process_ok v" "all_calls_ok v" "LUNA_START_FAIL_NONE \<notin> set fs" "no_child (zero_process, zero_holdings, l)"
  shows "\<exists>l'. audit_child_start_rollbacks v fs (zero_process, zero_holdings, l) = (0, zero_process, zero_holdings, l') \<and> no_child (zero_process, zero_holdings, l')"
  using assms(5,6)
proof (induction fs arbitrary: l)
  case (Cons f fs)
  obtain res p r l1 where run: "start_child v f (zero_process, zero_holdings, l) = (res, p, r, l1)" by (metis prod.exhaust)
  then have "res = 1" "p = zero_process" "no_child (p, r, l1)"
    using start_child_outcome [OF assms(1-3) Cons.prems(2), of f] assms(4) Cons.prems(1) by (auto simp: start_outcome_def)
  moreover then have "r = zero_holdings" by (simp add: no_child_def)
  ultimately show ?case using Cons run by (auto simp: audit_round_def)
qed simp

section \<open>Properties\<close>

definition empty_ledger :: ledger where
  "empty_ledger = \<lparr>lg_live = (\<lambda>_. False), lg_mapped = (\<lambda>_. False), lg_leaf = (\<lambda>_. False), lg_bad = False\<rparr>"

definition failpoints :: "luna_start_failpoint list" where
  "failpoints = [LUNA_START_FAIL_PROCESS, LUNA_START_FAIL_HEAP, LUNA_START_FAIL_DISK, LUNA_START_FAIL_NETWORK,
     LUNA_START_FAIL_RESOURCE_POOL, LUNA_START_FAIL_CONTROL_CAP, LUNA_START_FAIL_COMMAND_CAP]"



definition good_env :: lifecycle_env where
  "good_env = \<lparr>ve_process = Some \<lparr>sp_cspace = 5, sp_pd = 6, sp_own_cspace = True, sp_own_vspace = True, sp_own_ep = True\<rparr>, ve_manager_pd = 3,
     ve_manager_cnode = 2, ve_new = (\<lambda>_. True), ve_source = (\<lambda>_. True), ve_map = (\<lambda>_. True), ve_cptr = (\<lambda>_. 9),
     ve_stack = (\<lambda>_. (0x10000, 4, 0x20000)), ve_delete = (\<lambda>_. True), ve_leaf = (\<lambda>_. True), ve_disk_ready = True, ve_net_ready = True, ve_spawn = True\<rparr>"

lemma good_env_ok: "deletes_ok good_env" "stacks_ok good_env" "process_ok good_env" "all_calls_ok good_env"
  by (simp_all add: deletes_ok_def stacks_ok_def process_ok_def all_calls_ok_def good_env_def)



end
