(* ===== verification/User_Heap.thy ===== *)
theory User_Heap
  imports Allocator_Spec "HOL-Library.Monad_Syntax"
begin

text \<open>
  The malloc of the BusyBox personality (\<open>luna_bb_malloc\<close>, \<open>luna_bb_free\<close>, \<open>luna_bb_realloc\<close>,
  \<open>task_user_heap_reset\<close> and the self test of \<open>lkl_task_user.c\<close>): a singly linked list of block
  headers inside one static array, first fit with splitting, and coalescing with both neighbours.
  Headers are a store from addresses to header values with explicit \<open>next\<close> pointers (0 is NULL),
  the bytes of the array are a second map. The pointer-chasing loops are partial functions in the
  option monad, so a loop over a cyclic list has the value \<open>None\<close>; the theorems show that every
  operation returns. Critical sections under \<open>task_user_heap_lock\<close> are atomic.
\<close>

unbundle bit_operations_syntax

definition LUNA_USER_HEAP_SIZE :: nat where [luna_consts]: "LUNA_USER_HEAP_SIZE = 1048576"
definition LUNA_USER_ALIGNMENT :: nat where [luna_consts]: "LUNA_USER_ALIGNMENT = 16"
definition LUNA_USER_MIN_SPLIT :: nat where [luna_consts]: "LUNA_USER_MIN_SPLIT = 16"

text \<open>\<open>sizeof(struct task_user_block)\<close>: two words, a pointer and a padded \<open>int\<close>.\<close>

definition HEADER :: nat where [luna_consts]: "HEADER = 32"

definition BB_ENOMEM :: int where "BB_ENOMEM = 12"
definition BB_EINVAL :: int where "BB_EINVAL = 22"

record task_user_block =
  ub_size :: nat
  ub_next :: nat
  ub_free :: bool

record user_heap =
  uh_base :: nat \<comment> \<open>address of the array \<open>task_user_heap\<close>\<close>
  uh_block :: "nat \<Rightarrow> task_user_block"
  uh_memory :: bytes
  task_user_heap_head :: nat
  task_user_heap_current :: nat
  task_user_heap_peak :: nat
  task_user_errno :: int

definition task_user_heap_reset :: "user_heap \<Rightarrow> user_heap" where
  "task_user_heap_reset s = s\<lparr>
     task_user_heap_current := 0,
     task_user_heap_peak := 0,
     uh_memory := memset_at (uh_memory s) (uh_base s) LUNA_USER_HEAP_SIZE 0,
     task_user_heap_head := uh_base s,
     uh_block := (uh_block s)(uh_base s :=
       \<lparr>ub_size = LUNA_USER_HEAP_SIZE - HEADER, ub_next = 0, ub_free = True\<rparr>)\<rparr>"

definition task_peak_size :: "nat \<Rightarrow> nat \<Rightarrow> nat" where
  "task_peak_size peak current = (if current > peak then current else peak)"

text \<open>The search loop of \<open>luna_bb_malloc\<close>; the result 0 is a loop that ran off the list.\<close>

partial_function (option) find_fit :: "(nat \<Rightarrow> task_user_block) \<Rightarrow> nat \<Rightarrow> nat \<Rightarrow> nat option" where
  "find_fit blk aligned block =
     (if block = 0 then Some 0
      else if \<not> ub_free (blk block) \<or> ub_size (blk block) < aligned
      then find_fit blk aligned (ub_next (blk block))
      else Some block)"

definition aligned_size :: "u64 \<Rightarrow> nat" where
  "aligned_size bytes = unat ((bytes + 16 - 1) AND NOT (16 - 1))"

definition take_block :: "nat \<Rightarrow> nat \<Rightarrow> user_heap \<Rightarrow> user_heap" where
  "take_block aligned block s =
     (let blk = uh_block s;
          remaining = ub_size (blk block) - aligned;
          split = block + HEADER + aligned;
          blk' = (if remaining \<ge> HEADER + LUNA_USER_MIN_SPLIT
                  then blk(split := \<lparr>ub_size = remaining - HEADER, ub_next = ub_next (blk block), ub_free = True\<rparr>,
                           block := \<lparr>ub_size = aligned, ub_next = split, ub_free = False\<rparr>)
                  else blk(block := (blk block)\<lparr>ub_free := False\<rparr>));
          current = task_user_heap_current s + ub_size (blk' block)
      in s\<lparr>uh_block := blk', task_user_heap_current := current,
           task_user_heap_peak := task_peak_size (task_user_heap_peak s) current\<rparr>)"

definition luna_bb_malloc :: "u64 \<Rightarrow> user_heap \<Rightarrow> (nat \<times> user_heap) option" where
  "luna_bb_malloc bytes s =
     (if bytes = 0 \<or> bytes > - 1 - (16 - 1) then Some (0, s\<lparr>task_user_errno := BB_ENOMEM\<rparr>)
      else do {
        let aligned = aligned_size bytes;
        block \<leftarrow> find_fit (uh_block s) aligned (task_user_heap_head s);
        if block = 0 then Some (0, s\<lparr>task_user_errno := BB_ENOMEM\<rparr>)
        else Some (block + HEADER, take_block aligned block s)
      })"

text \<open>The search loop of \<open>luna_bb_free\<close>: the pair \<open>(previous, block)\<close> when it stops.\<close>

partial_function (option) find_block ::
  "(nat \<Rightarrow> task_user_block) \<Rightarrow> nat \<Rightarrow> nat \<Rightarrow> nat \<Rightarrow> (nat \<times> nat) option" where
  "find_block blk pointer previous block =
     (if block \<noteq> 0 \<and> block + HEADER \<noteq> pointer
      then find_block blk pointer block (ub_next (blk block))
      else Some (previous, block))"

definition merge_next :: "(nat \<Rightarrow> task_user_block) \<Rightarrow> nat \<Rightarrow> (nat \<Rightarrow> task_user_block)" where
  "merge_next blk block =
     (let n = ub_next (blk block) in
      if n \<noteq> 0 \<and> ub_free (blk n)
      then blk(block := (blk block)\<lparr>ub_size := ub_size (blk block) + (HEADER + ub_size (blk n)),
                                   ub_next := ub_next (blk n)\<rparr>)
      else blk)"

definition merge_previous :: "(nat \<Rightarrow> task_user_block) \<Rightarrow> nat \<Rightarrow> nat \<Rightarrow> (nat \<Rightarrow> task_user_block)" where
  "merge_previous blk previous block =
     (if previous \<noteq> 0 \<and> ub_free (blk previous)
      then blk(previous := (blk previous)\<lparr>ub_size := ub_size (blk previous) + (HEADER + ub_size (blk block)),
                                         ub_next := ub_next (blk block)\<rparr>)
      else blk)"

definition luna_bb_free :: "nat \<Rightarrow> user_heap \<Rightarrow> user_heap option" where
  "luna_bb_free pointer s =
     (if pointer = 0 then Some s
      else do {
        (previous, block) \<leftarrow> find_block (uh_block s) pointer 0 (task_user_heap_head s);
        if block = 0 \<or> ub_free (uh_block s block) then Some s
        else
          let released = ub_size (uh_block s block);
              blk1 = (uh_block s)(block := (uh_block s block)\<lparr>ub_free := True\<rparr>)
          in Some (s\<lparr>uh_block := merge_previous (merge_next blk1 block) previous block,
                     task_user_heap_current := task_user_heap_current s - released\<rparr>)
      })"

definition luna_bb_realloc :: "nat \<Rightarrow> u64 \<Rightarrow> user_heap \<Rightarrow> (nat \<times> user_heap) option" where
  "luna_bb_realloc pointer bytes s =
     (if pointer = 0 then luna_bb_malloc bytes s
      else if bytes = 0 then map_option (\<lambda>s'. (0, s')) (luna_bb_free pointer s)
      else do {
        (previous, block) \<leftarrow> find_block (uh_block s) pointer 0 (task_user_heap_head s);
        if block = 0 \<or> ub_free (uh_block s block) then Some (0, s\<lparr>task_user_errno := BB_EINVAL\<rparr>)
        else if unat bytes \<le> ub_size (uh_block s block) then Some (pointer, s)
        else do {
          let old_size = ub_size (uh_block s block);
          (replacement, s1) \<leftarrow> luna_bb_malloc bytes s;
          if replacement = 0 then Some (0, s1)
          else do {
            s2 \<leftarrow> luna_bb_free pointer
                    (s1\<lparr>uh_memory := memcpy_at (uh_memory s1) replacement (uh_memory s1) pointer old_size\<rparr>);
            Some (replacement, s2)
          }
        }
      })"

text \<open>The boot-time self test, including its final reset.\<close>

definition task_user_heap_self_test :: "user_heap \<Rightarrow> (c_int \<times> user_heap) option" where
  "task_user_heap_self_test s0 = do {
     let s = task_user_heap_reset s0;
     (first, s) \<leftarrow> luna_bb_malloc 128 s;
     (second, s) \<leftarrow> luna_bb_malloc 256 s;
     (third, s) \<leftarrow> luna_bb_malloc 64 s;
     if first = 0 \<or> second = 0 \<or> third = 0 \<or> first mod LUNA_USER_ALIGNMENT \<noteq> 0 \<or>
        second mod LUNA_USER_ALIGNMENT \<noteq> 0 \<or> third mod LUNA_USER_ALIGNMENT \<noteq> 0
     then Some (-1, s)
     else do {
       let s = s\<lparr>uh_memory := memset_at (uh_memory s) first 128 0xa5\<rparr>;
       s \<leftarrow> luna_bb_free second s;
       (reuse, s) \<leftarrow> luna_bb_malloc 128 s;
       if reuse \<noteq> second then Some (-1, s)
       else do {
         s \<leftarrow> luna_bb_free reuse s;
         (grown, s) \<leftarrow> luna_bb_realloc first 320 s;
         if grown = 0 then Some (-1, s)
         else if first_index (\<lambda>i. uh_memory s (grown + i) \<noteq> 0xa5) 128 \<noteq> None then Some (-1, s)
         else do {
           s \<leftarrow> luna_bb_free third s;
           s \<leftarrow> luna_bb_free grown s;
           let head = uh_block s (task_user_heap_head s);
           if task_user_heap_head s \<noteq> uh_base s \<or> \<not> ub_free head \<or> ub_next head \<noteq> 0 \<or>
              ub_size head \<noteq> LUNA_USER_HEAP_SIZE - HEADER
           then Some (-1, s)
           else Some (0, task_user_heap_reset s)
         }
       }
     }
   }"

section \<open>Layout of the block list\<close>

text \<open>
  \<open>seg\<close>: the blocks tile the addresses from \<open>p\<close> to \<open>q\<close> without a gap. \<open>linked\<close>: the \<open>next\<close>
  pointers follow the list and end in \<open>t\<close>. \<open>coalesced\<close>: no two neighbours are free.
\<close>

definition block_end :: "(nat \<Rightarrow> task_user_block) \<Rightarrow> nat \<Rightarrow> nat" where
  "block_end blk b = b + HEADER + ub_size (blk b)"

fun seg :: "(nat \<Rightarrow> task_user_block) \<Rightarrow> nat \<Rightarrow> nat list \<Rightarrow> nat \<Rightarrow> bool" where
  "seg blk p [] q \<longleftrightarrow> p = q"
| "seg blk p (b # bs) q \<longleftrightarrow>
     b = p \<and> 0 < p \<and> ub_size (blk b) mod 16 = 0 \<and> seg blk (block_end blk b) bs q"

definition first_or :: "nat \<Rightarrow> nat list \<Rightarrow> nat" where
  "first_or t bs = (case bs of [] \<Rightarrow> t | b # _ \<Rightarrow> b)"

fun linked :: "(nat \<Rightarrow> task_user_block) \<Rightarrow> nat list \<Rightarrow> nat \<Rightarrow> bool" where
  "linked blk [] t \<longleftrightarrow> True"
| "linked blk (b # bs) t \<longleftrightarrow> ub_next (blk b) = first_or t bs \<and> linked blk bs t"

definition last_or :: "nat \<Rightarrow> nat list \<Rightarrow> nat" where
  "last_or t bs = (if bs = [] then t else last bs)"

fun coalesced :: "(nat \<Rightarrow> task_user_block) \<Rightarrow> nat list \<Rightarrow> bool" where
  "coalesced blk (b # c # bs) \<longleftrightarrow> \<not> (ub_free (blk b) \<and> ub_free (blk c)) \<and> coalesced blk (c # bs)"
| "coalesced blk bs \<longleftrightarrow> True"

lemma first_or_simps [simp]: "first_or t [] = t" "first_or t (b # bs) = b"
  by (simp_all add: first_or_def)

lemma last_or_simps [simp]: "last_or t [] = t" "last_or t (b # bs) = last_or b bs"
  "last_or t (bs @ [b]) = b"
  by (simp_all add: last_or_def)

lemma first_or_append [simp]: "first_or t (xs @ ys) = first_or (first_or t ys) xs"
  by (cases xs) simp_all

lemma seg_append: "seg blk p (xs @ ys) q \<longleftrightarrow> (\<exists>m. seg blk p xs m \<and> seg blk m ys q)"
  by (induction xs arbitrary: p) auto

lemma linked_append: "linked blk (xs @ ys) t \<longleftrightarrow> linked blk xs (first_or t ys) \<and> linked blk ys t"
  by (induction xs) (auto simp: first_or_def split: list.splits)

lemma coalesced_append:
  "coalesced blk (xs @ b # ys) \<longleftrightarrow>
     coalesced blk xs \<and> coalesced blk (b # ys) \<and> (xs \<noteq> [] \<longrightarrow> \<not> (ub_free (blk (last xs)) \<and> ub_free (blk b)))"
proof (induction xs)
  case (Cons x xs)
  then show ?case by (cases xs) auto
qed simp

lemma coalesced_Cons:
  "coalesced blk (b # ys) \<longleftrightarrow>
     coalesced blk ys \<and> (ys \<noteq> [] \<longrightarrow> \<not> (ub_free (blk b) \<and> ub_free (blk (hd ys))))"
  by (cases ys) auto

lemma seg_cong: "(\<And>b. b \<in> set bs \<Longrightarrow> ub_size (blk b) = ub_size (blk' b)) \<Longrightarrow> seg blk p bs q = seg blk' p bs q"
  by (induction bs arbitrary: p) (auto simp: block_end_def)

lemma linked_cong: "(\<And>b. b \<in> set bs \<Longrightarrow> ub_next (blk b) = ub_next (blk' b)) \<Longrightarrow> linked blk bs t = linked blk' bs t"
  by (induction bs) auto

lemma coalesced_cong: "(\<And>b. b \<in> set bs \<Longrightarrow> ub_free (blk b) = ub_free (blk' b)) \<Longrightarrow> coalesced blk bs = coalesced blk' bs"
  by (induction blk bs rule: coalesced.induct) auto

lemma seg_le: "seg blk p bs q \<Longrightarrow> p \<le> q"
proof (induction bs arbitrary: p)
  case (Cons c bs)
  then have "block_end blk c \<le> q" by auto
  with Cons.prems show ?case by (simp add: block_end_def)
qed simp

lemma block_end_gt: "b < block_end blk b"
  by (simp add: block_end_def HEADER_def)

lemma seg_bounds: "seg blk p bs q \<Longrightarrow> b \<in> set bs \<Longrightarrow> p \<le> b \<and> 0 < b \<and> block_end blk b \<le> q"
proof (induction bs arbitrary: p)
  case (Cons c bs)
  then have c: "c = p" "0 < p" and rest: "seg blk (block_end blk c) bs q" by auto
  show ?case
  proof (cases "b = c")
    case True
    with c seg_le [OF rest] show ?thesis by simp
  next
    case False
    with Cons.prems(2) have "b \<in> set bs" by simp
    from Cons.IH [OF rest this] c block_end_gt [of c blk] show ?thesis by linarith
  qed
qed simp

lemma seg_positive: "seg blk p bs q \<Longrightarrow> 0 \<notin> set bs"
  using seg_bounds by blast

lemma HEADER_pos [simp]: "0 < HEADER" "HEADER mod 16 = 0" by (simp_all add: HEADER_def)

lemma seg_distinct: "seg blk p bs q \<Longrightarrow> distinct bs"
proof (induction bs arbitrary: p)
  case (Cons c bs)
  then have "c \<notin> set bs"
    using seg_bounds [of blk "block_end blk c" bs q c] block_end_gt [of c blk] not_le
    by (metis seg.simps(2))
  with Cons show ?case by auto
qed simp

text \<open>Two different blocks of a tiling do not overlap.\<close>

lemma seg_disjoint:
  "seg blk p bs q \<Longrightarrow> b \<in> set bs \<Longrightarrow> c \<in> set bs \<Longrightarrow> b \<noteq> c \<Longrightarrow>
     block_end blk b \<le> c \<or> block_end blk c \<le> b"
proof (induction bs arbitrary: p)
  case (Cons d bs)
  then show ?case using seg_bounds [of blk "block_end blk d" bs q]
    by (metis seg.simps(2) set_ConsD)
qed simp

lemma seg_aligned: "seg blk p bs q \<Longrightarrow> p mod 16 = 0 \<Longrightarrow> b \<in> set bs \<Longrightarrow> b mod 16 = 0 \<and> ub_size (blk b) mod 16 = 0"
proof (induction bs arbitrary: p)
  case (Cons c bs)
  then have "block_end blk c mod 16 = 0" by (auto simp: block_end_def HEADER_def mod_eq_0_iff_dvd)
  with Cons show ?case by auto
qed simp

section \<open>The search loops return\<close>

definition fits :: "(nat \<Rightarrow> task_user_block) \<Rightarrow> nat \<Rightarrow> nat \<Rightarrow> bool" where
  "fits blk aligned b \<longleftrightarrow> ub_free (blk b) \<and> aligned \<le> ub_size (blk b)"

lemma find_fit_list:
  "linked blk bs 0 \<Longrightarrow> 0 \<notin> set bs \<Longrightarrow>
   find_fit blk aligned (first_or 0 bs) = Some (first_or 0 (dropWhile (\<lambda>b. \<not> fits blk aligned b) bs))"
proof (induction bs)
  case Nil
  show ?case by (simp add: find_fit.simps)
next
  case (Cons b bs)
  then show ?case by (auto simp: find_fit.simps [of blk aligned b] fits_def)
qed

lemma find_block_list:
  "linked blk bs 0 \<Longrightarrow> 0 \<notin> set bs \<Longrightarrow>
   find_block blk pointer previous (first_or 0 bs) =
     Some (last_or previous (takeWhile (\<lambda>b. b + HEADER \<noteq> pointer) bs),
           first_or 0 (dropWhile (\<lambda>b. b + HEADER \<noteq> pointer) bs))"
proof (induction bs arbitrary: previous)
  case Nil
  show ?case by (simp add: find_block.simps)
next
  case (Cons b bs)
  then show ?case by (auto simp: find_block.simps [of blk pointer previous b])
qed

lemma aligned_size_eq:
  assumes "\<not> bytes > - 1 - (16 - 1 :: u64)"
  shows "aligned_size bytes = (unat bytes + 15) div 16 * 16"
proof -
  have le: "unat bytes \<le> 2 ^ 64 - 16"
    using assms by (simp add: not_less word_le_nat_alt)
  have sum: "unat (bytes + 16 - 1) = unat bytes + 15"
    using le by (simp add: unat_word_ariths flip: add_diff_eq)
  have "(16 - 1 :: u64) = mask 4" by (simp add: mask_eq_exp_minus_1)
  then have "(bytes + 16 - 1) AND NOT (16 - 1) = push_bit 4 (drop_bit 4 (bytes + 16 - 1))"
    by (auto simp: bit_eq_iff bit_simps)
  moreover have "unat (push_bit 4 (drop_bit 4 (bytes + 16 - 1))) = (unat bytes + 15) div 16 * 16"
    using le by (simp add: push_bit_eq_mult drop_bit_eq_div unat_word_ariths unat_div sum)
  ultimately show ?thesis by (simp add: aligned_size_def)
qed

section \<open>Invariant\<close>

definition used_sum :: "(nat \<Rightarrow> task_user_block) \<Rightarrow> nat list \<Rightarrow> nat" where
  "used_sum blk bs = (\<Sum>b\<leftarrow>bs. if ub_free (blk b) then 0 else ub_size (blk b))"

definition user_layout :: "user_heap \<Rightarrow> nat list \<Rightarrow> bool" where
  "user_layout s bs \<longleftrightarrow>
     0 < uh_base s \<and> uh_base s mod 16 = 0 \<and> task_user_heap_head s = uh_base s \<and>
     seg (uh_block s) (uh_base s) bs (uh_base s + LUNA_USER_HEAP_SIZE) \<and>
     linked (uh_block s) bs 0 \<and> coalesced (uh_block s) bs \<and>
     task_user_heap_current s = used_sum (uh_block s) bs \<and>
     task_user_heap_current s \<le> task_user_heap_peak s"

lemma used_sum_simps [simp]:
  "used_sum blk [] = 0"
  "used_sum blk (b # bs) = (if ub_free (blk b) then 0 else ub_size (blk b)) + used_sum blk bs"
  "used_sum blk (xs @ ys) = used_sum blk xs + used_sum blk ys"
  by (simp_all add: used_sum_def)

lemma used_sum_cong: "(\<And>b. b \<in> set bs \<Longrightarrow> blk b = blk' b) \<Longrightarrow> used_sum blk bs = used_sum blk' bs"
  by (induction bs) auto

lemma frame_cong:
  assumes "\<And>b. b \<in> set bs \<Longrightarrow> blk' b = blk b"
  shows "seg blk' p bs q = seg blk p bs q" "linked blk' bs t = linked blk bs t"
    "coalesced blk' bs = coalesced blk bs" "used_sum blk' bs = used_sum blk bs"
  using assms by (auto intro!: seg_cong linked_cong coalesced_cong used_sum_cong)

lemma user_layout_head: "user_layout s bs \<Longrightarrow> task_user_heap_head s = first_or 0 bs"
  by (cases bs) (auto simp: user_layout_def luna_consts)

lemma user_layout_reset:
  assumes "0 < uh_base s" "uh_base s mod 16 = 0"
  shows "user_layout (task_user_heap_reset s) [uh_base s]"
  using assms by (simp add: user_layout_def task_user_heap_reset_def luna_consts block_end_def)

text \<open>What a block in the middle of the list contributes to each part of the invariant.\<close>

lemma seg_middle:
  "seg blk p (xs @ b # ys) q \<longleftrightarrow>
     seg blk p xs b \<and> 0 < b \<and> ub_size (blk b) mod 16 = 0 \<and> seg blk (block_end blk b) ys q"
  by (auto simp: seg_append)

lemma linked_middle:
  "linked blk (xs @ b # ys) t \<longleftrightarrow> linked blk xs b \<and> ub_next (blk b) = first_or t ys \<and> linked blk ys t"
  by (simp add: linked_append)

lemma middle_fresh:
  assumes "seg blk p (xs @ b # ys) q" "b \<le> z" "z < block_end blk b"
  shows "z \<notin> set xs" "z \<notin> set ys"
proof -
  have "seg blk p xs b" "seg blk (block_end blk b) ys q" using assms(1) by (auto simp: seg_middle)
  then show "z \<notin> set xs" "z \<notin> set ys"
    using seg_bounds [of blk p xs b z] seg_bounds [of blk "block_end blk b" ys q z]
      block_end_gt [of z blk] assms(2,3) by (auto simp: not_le)
qed

lemma take_block_layout:
  assumes lay: "user_layout s (xs @ b # ys)" and fit: "fits (uh_block s) a b" and a: "a mod 16 = 0"
  defines "s' \<equiv> take_block a b s"
  defines "sp \<equiv> HEADER + LUNA_USER_MIN_SPLIT \<le> ub_size (uh_block s b) - a"
  shows "user_layout s' (xs @ b # (if sp then [b + HEADER + a] else []) @ ys)"
    and "\<not> ub_free (uh_block s' b)" "a \<le> ub_size (uh_block s' b)"
    and "ub_size (uh_block s' b) \<le> ub_size (uh_block s b)"
    and "\<And>c. c \<in> set xs \<union> set ys \<Longrightarrow> uh_block s' c = uh_block s c"
    and "sp \<Longrightarrow> ub_free (uh_block s' (b + HEADER + a))"
    and "uh_memory s' = uh_memory s" "uh_base s' = uh_base s"
proof -
  let ?blk = "uh_block s" and ?sp = "b + HEADER + a"
  have seg: "seg ?blk (uh_base s) (xs @ b # ys) (uh_base s + LUNA_USER_HEAP_SIZE)"
    and lnk: "linked ?blk (xs @ b # ys) 0" and coal: "coalesced ?blk (xs @ b # ys)"
    using lay by (auto simp: user_layout_def)
  have free: "ub_free (?blk b)" and size: "a \<le> ub_size (?blk b)" using fit by (auto simp: fits_def)
  have b: "b \<notin> set xs" "b \<notin> set ys" using middle_fresh [OF seg le_refl block_end_gt] by auto
  have split: "?sp \<notin> set xs" "?sp \<notin> set ys" if sp
    using middle_fresh [OF seg, of ?sp] that by (auto simp: sp_def block_end_def luna_consts)
  have ne: "?sp \<noteq> b" by (simp add: HEADER_def)
  show frame: "uh_block s' c = uh_block s c" if "c \<in> set xs \<union> set ys" for c
    using that b split ne by (auto simp: s'_def take_block_def Let_def sp_def)
  show "\<not> ub_free (uh_block s' b)" "a \<le> ub_size (uh_block s' b)"
    "ub_size (uh_block s' b) \<le> ub_size (uh_block s b)" "uh_memory s' = uh_memory s" "uh_base s' = uh_base s"
    using ne size by (simp_all add: s'_def take_block_def Let_def)
  show "ub_free (uh_block s' ?sp)" if sp
    using that ne by (simp add: s'_def take_block_def Let_def sp_def)
  have others: "seg (uh_block s') p xs q = seg ?blk p xs q" "seg (uh_block s') p ys q = seg ?blk p ys q"
    "linked (uh_block s') xs t = linked ?blk xs t" "linked (uh_block s') ys t = linked ?blk ys t"
    "coalesced (uh_block s') xs = coalesced ?blk xs" "coalesced (uh_block s') ys = coalesced ?blk ys"
    "used_sum (uh_block s') xs = used_sum ?blk xs" "used_sum (uh_block s') ys = used_sum ?blk ys" for p q t
    using frame by (auto intro!: frame_cong)
  have last: "xs \<noteq> [] \<Longrightarrow> uh_block s' (last xs) = ?blk (last xs)"
    and hd: "ys \<noteq> [] \<Longrightarrow> uh_block s' (hd ys) = ?blk (hd ys)" using frame by auto
  have remain: "(ub_size (?blk b) - a - HEADER) mod 16 = 0" if sp
    using seg a that by (auto simp: seg_middle sp_def luna_consts mod_eq_0_iff_dvd intro!: dvd_diff_nat)
  have size': "ub_size (uh_block s' b) = (if sp then a else ub_size (?blk b))"
    "ub_next (uh_block s' b) = (if sp then ?sp else first_or 0 ys)"
    "sp \<Longrightarrow> uh_block s' ?sp = \<lparr>ub_size = ub_size (?blk b) - a - HEADER, ub_next = first_or 0 ys, ub_free = True\<rparr>"
    using ne lnk by (auto simp: s'_def take_block_def Let_def sp_def linked_middle)
  have ends: "block_end (uh_block s') b = (if sp then ?sp else block_end ?blk b)"
    "sp \<Longrightarrow> block_end (uh_block s') ?sp = block_end ?blk b"
    using size size' by (auto simp: block_end_def sp_def luna_consts)
  have nf: "\<not> ub_free (uh_block s' b)" by fact
  have cur: "task_user_heap_current s' = task_user_heap_current s + ub_size (uh_block s' b)"
    "task_user_heap_current s' \<le> task_user_heap_peak s'"
    by (simp_all add: s'_def take_block_def Let_def task_peak_size_def)
  have head: "task_user_heap_head s' = task_user_heap_head s" "uh_base s' = uh_base s"
    by (simp_all add: s'_def take_block_def Let_def)
  show "user_layout s' (xs @ b # (if sp then [?sp] else []) @ ys)"
    using lay seg lnk coal cur head others last hd remain size' ends nf a free
    unfolding user_layout_def
    by (cases sp) (auto simp: seg_middle linked_middle coalesced_append coalesced_Cons)
qed

text \<open>Absorbing the successor \<open>c\<close> of \<open>b\<close>, the common step of the two merges of \<open>luna_bb_free\<close>.\<close>

definition absorb :: "(nat \<Rightarrow> task_user_block) \<Rightarrow> nat \<Rightarrow> nat \<Rightarrow> (nat \<Rightarrow> task_user_block)" where
  "absorb blk b c = blk(b := (blk b)\<lparr>ub_size := ub_size (blk b) + (HEADER + ub_size (blk c)),
                                      ub_next := ub_next (blk c)\<rparr>)"

lemma absorb_simps [simp]:
  "d \<noteq> b \<Longrightarrow> absorb blk b c d = blk d"
  "ub_free (absorb blk b c d) = ub_free (blk d)"
  by (auto simp: absorb_def)

lemma absorb_layout:
  assumes seg: "seg blk p (xs @ b # c # ys) q" and lnk: "linked blk (xs @ b # c # ys) t"
  shows "seg (absorb blk b c) p (xs @ b # ys) q" "linked (absorb blk b c) (xs @ b # ys) t"
    and "ub_free (blk b) \<Longrightarrow> ub_free (blk c) \<Longrightarrow>
      used_sum (absorb blk b c) (xs @ b # ys) = used_sum blk (xs @ b # c # ys)"
proof -
  have "distinct (xs @ b # c # ys)" by (rule seg_distinct [OF seg])
  then have frame: "d \<in> set xs \<union> set ys \<Longrightarrow> absorb blk b c d = blk d" for d by (auto simp: absorb_def)
  have same: "seg (absorb blk b c) p xs q = seg blk p xs q" "seg (absorb blk b c) p ys q = seg blk p ys q"
    "linked (absorb blk b c) xs t = linked blk xs t" "linked (absorb blk b c) ys t = linked blk ys t"
    "used_sum (absorb blk b c) xs = used_sum blk xs" "used_sum (absorb blk b c) ys = used_sum blk ys" for p q t
    using frame by (auto intro!: frame_cong)
  have "block_end blk b = c" using seg by (auto simp: seg_middle)
  then have e: "block_end (absorb blk b c) b = block_end blk c"
    by (simp add: block_end_def absorb_def)
  have m: "ub_size (absorb blk b c b) mod 16 = 0"
    using seg by (auto simp: seg_middle absorb_def luna_consts mod_eq_0_iff_dvd)
  show "seg (absorb blk b c) p (xs @ b # ys) q"
    using seg same e m by (auto simp: seg_middle)
  show "linked (absorb blk b c) (xs @ b # ys) t"
    using lnk same by (auto simp: linked_middle absorb_def)
  show "used_sum (absorb blk b c) (xs @ b # ys) = used_sum blk (xs @ b # c # ys)"
    if "ub_free (blk b)" "ub_free (blk c)" using that same by simp
qed

lemma merge_next_eq:
  "linked blk (xs @ b # ys) 0 \<Longrightarrow> 0 \<notin> set ys \<Longrightarrow>
   merge_next blk b = (if ys \<noteq> [] \<and> ub_free (blk (hd ys)) then absorb blk b (hd ys) else blk)"
  by (cases ys) (auto simp: merge_next_def absorb_def linked_middle Let_def)

lemma merge_previous_eq:
  "0 \<notin> set xs \<Longrightarrow> merge_previous blk (last_or 0 xs) b =
     (if xs \<noteq> [] \<and> ub_free (blk (last xs)) then absorb blk (last xs) b else blk)"
  by (cases xs rule: rev_cases) (auto simp: merge_previous_def absorb_def)

definition drop_free :: "(nat \<Rightarrow> task_user_block) \<Rightarrow> nat list \<Rightarrow> nat list" where
  "drop_free blk ys = (if ys \<noteq> [] \<and> ub_free (blk (hd ys)) then tl ys else ys)"

definition freed_list :: "(nat \<Rightarrow> task_user_block) \<Rightarrow> nat list \<Rightarrow> nat \<Rightarrow> nat list \<Rightarrow> nat list" where
  "freed_list blk xs b ys =
     (if xs \<noteq> [] \<and> ub_free (blk (last xs)) then xs else xs @ [b]) @ drop_free blk ys"

definition freed_blocks :: "(nat \<Rightarrow> task_user_block) \<Rightarrow> nat list \<Rightarrow> nat \<Rightarrow> (nat \<Rightarrow> task_user_block)" where
  "freed_blocks blk xs b =
     merge_previous (merge_next (blk(b := (blk b)\<lparr>ub_free := True\<rparr>)) b) (last_or 0 xs) b"

lemma freed_blocks_layout:
  assumes seg: "seg blk p (xs @ b # ys) q" and lnk: "linked blk (xs @ b # ys) 0"
    and coal: "coalesced blk (xs @ b # ys)" and used: "\<not> ub_free (blk b)"
  shows "seg (freed_blocks blk xs b) p (freed_list blk xs b ys) q"
    "linked (freed_blocks blk xs b) (freed_list blk xs b ys) 0"
    "coalesced (freed_blocks blk xs b) (freed_list blk xs b ys)"
    "used_sum (freed_blocks blk xs b) (freed_list blk xs b ys) + ub_size (blk b) = used_sum blk (xs @ b # ys)"
    "\<And>c. c \<noteq> b \<Longrightarrow> ub_free (freed_blocks blk xs b c) = ub_free (blk c)"
    "\<And>c. c \<noteq> b \<Longrightarrow> \<not> ub_free (blk c) \<Longrightarrow> ub_size (freed_blocks blk xs b c) = ub_size (blk c)"
    "ub_free (freed_blocks blk xs b b)"
proof -
  define blk1 where "blk1 = blk(b := (blk b)\<lparr>ub_free := True\<rparr>)"
  define blk2 where "blk2 = merge_next blk1 b"
  have d: "distinct (xs @ b # ys)" by (rule seg_distinct [OF seg])
  have pos: "0 \<notin> set xs" "0 \<notin> set ys" "0 < b" using seg_positive [OF seg] by auto
  have seg1: "seg blk1 p (xs @ b # ys) q" and lnk1: "linked blk1 (xs @ b # ys) 0"
    using seg lnk seg_cong [of "xs @ b # ys" blk blk1] linked_cong [of "xs @ b # ys" blk blk1]
    by (auto simp: blk1_def)
  have sum1: "used_sum blk1 (xs @ b # ys) + ub_size (blk b) = used_sum blk (xs @ b # ys)"
  proof -
    have "used_sum blk1 xs = used_sum blk xs" "used_sum blk1 ys = used_sum blk ys"
      using d by (auto intro!: used_sum_cong simp: blk1_def)
    with used show ?thesis by (simp add: blk1_def)
  qed
  have blk1_free: "ub_free (blk1 c) = (ub_free (blk c) \<or> c = b)" for c by (auto simp: blk1_def)
  let ?ys = "drop_free blk ys"
  have hd_ne: "ys \<noteq> [] \<Longrightarrow> hd ys \<noteq> b" using d by (cases ys) auto
  have blk2_eq: "blk2 = (if ys \<noteq> [] \<and> ub_free (blk (hd ys)) then absorb blk1 b (hd ys) else blk1)"
    unfolding blk2_def merge_next_eq [OF lnk1 pos(2)] using hd_ne by (auto simp: blk1_free)
  have blk2_free: "ub_free (blk2 c) = (ub_free (blk c) \<or> c = b)" for c
    by (simp add: blk2_eq blk1_free)
  have two: "seg blk2 p (xs @ b # ?ys) q \<and> linked blk2 (xs @ b # ?ys) 0 \<and>
      used_sum blk2 (xs @ b # ?ys) = used_sum blk1 (xs @ b # ys)"
    using seg1 lnk1 absorb_layout [of blk1 p xs b "hd ys" "tl ys" q 0]
    by (cases ys) (auto simp: blk2_eq drop_free_def blk1_free)
  have three: "freed_blocks blk xs b =
      (if xs \<noteq> [] \<and> ub_free (blk (last xs)) then absorb blk2 (last xs) b else blk2)"
    unfolding freed_blocks_def blk1_def [symmetric] blk2_def [symmetric] merge_previous_eq [OF pos(1)]
    using d by (auto simp: blk2_free dest: last_in_set)
  show f: "ub_free (freed_blocks blk xs b c) = ub_free (blk c)" if "c \<noteq> b" for c
    using that by (simp add: three blk2_free)
  show fb: "ub_free (freed_blocks blk xs b b)" by (simp add: three blk2_free)
  show "ub_size (freed_blocks blk xs b c) = ub_size (blk c)" if "c \<noteq> b" "\<not> ub_free (blk c)" for c
    using that by (auto simp: three blk2_eq blk1_def absorb_def)
  have "seg (freed_blocks blk xs b) p (freed_list blk xs b ys) q \<and>
    linked (freed_blocks blk xs b) (freed_list blk xs b ys) 0 \<and>
    used_sum (freed_blocks blk xs b) (freed_list blk xs b ys) = used_sum blk2 (xs @ b # ?ys)"
  proof (cases "xs \<noteq> [] \<and> ub_free (blk (last xs))")
    case True
    then obtain zs l where xs: "xs = zs @ [l]" by (metis rev_exhaust)
    from True xs have l: "ub_free (blk2 l)" "ub_free (blk2 b)"
      and eql: "freed_list blk xs b ys = zs @ l # ?ys"
      by (simp_all add: freed_list_def blk2_free)
    have eqf: "freed_blocks blk xs b = absorb blk2 l b" unfolding three using True by (simp add: xs)
    have list: "xs @ b # ?ys = zs @ l # b # ?ys" by (simp add: xs)
    from two l absorb_layout [of blk2 p zs l b ?ys q 0] show ?thesis unfolding eqf eql list by blast
  next
    case False
    with two show ?thesis by (auto simp: three freed_list_def)
  qed
  with two sum1 show "seg (freed_blocks blk xs b) p (freed_list blk xs b ys) q"
    "linked (freed_blocks blk xs b) (freed_list blk xs b ys) 0"
    "used_sum (freed_blocks blk xs b) (freed_list blk xs b ys) + ub_size (blk b) = used_sum blk (xs @ b # ys)"
    by simp_all
  have sub: "set ?ys \<subseteq> set ys" by (cases ys) (auto simp: drop_free_def)
  have "coalesced blk xs" "coalesced blk ?ys"
    using coal by (cases ys; auto simp: coalesced_append coalesced_Cons drop_free_def)+
  then have cxs: "coalesced (freed_blocks blk xs b) xs" and cys: "coalesced (freed_blocks blk xs b) ?ys"
    using coalesced_cong [of xs blk "freed_blocks blk xs b"]
      coalesced_cong [of ?ys blk "freed_blocks blk xs b"] f d sub
    by (metis Un_iff distinct.simps(2) distinct_append disjoint_iff list.set_intros(1) subsetD)+
  have hd: "?ys \<noteq> [] \<Longrightarrow> \<not> ub_free (freed_blocks blk xs b (hd ?ys))"
    using coal d f by (cases ys; cases "tl ys") (auto simp: drop_free_def coalesced_append coalesced_Cons)
  show "coalesced (freed_blocks blk xs b) (freed_list blk xs b ys)"
  proof (cases "xs \<noteq> [] \<and> ub_free (blk (last xs))")
    case True
    then show ?thesis using cxs cys hd
      by (cases ?ys) (auto simp: freed_list_def coalesced_append)
  next
    case False
    then have "xs \<noteq> [] \<Longrightarrow> \<not> ub_free (freed_blocks blk xs b (last xs))" using f d by (metis distinct_append last_in_set disjoint_iff list.set_intros(1))
    with False show ?thesis using cxs cys hd
      by (auto simp: freed_list_def coalesced_append coalesced_Cons)
  qed
qed

section \<open>The operations on a well-formed heap\<close>

lemma dropWhile_split:
  "dropWhile P bs = b # ys \<Longrightarrow> bs = takeWhile P bs @ b # ys \<and> \<not> P b"
  using takeWhile_dropWhile_id [of P bs] hd_dropWhile [of P bs]
  by (metis list.distinct(1) list.sel(1))

lemma malloc_cases:
  assumes "user_layout s bs"
  obtains (bad) "bytes = 0 \<or> bytes > - 1 - (16 - 1)"
      "luna_bb_malloc bytes s = Some (0, s\<lparr>task_user_errno := BB_ENOMEM\<rparr>)"
  | (full) "\<not> (bytes = 0 \<or> bytes > - 1 - (16 - 1))" "\<forall>b \<in> set bs. \<not> fits (uh_block s) (aligned_size bytes) b"
      "luna_bb_malloc bytes s = Some (0, s\<lparr>task_user_errno := BB_ENOMEM\<rparr>)"
  | (found) xs b ys where "\<not> (bytes = 0 \<or> bytes > - 1 - (16 - 1))" "bs = xs @ b # ys"
      "\<forall>x \<in> set xs. \<not> fits (uh_block s) (aligned_size bytes) x" "fits (uh_block s) (aligned_size bytes) b"
      "aligned_size bytes mod 16 = 0" "unat bytes \<le> aligned_size bytes"
      "luna_bb_malloc bytes s = Some (b + HEADER, take_block (aligned_size bytes) b s)"
proof -
  let ?P = "\<lambda>b. \<not> fits (uh_block s) (aligned_size bytes) b"
  have pos: "0 \<notin> set bs" and lnk: "linked (uh_block s) bs 0"
    using assms seg_positive by (auto simp: user_layout_def)
  have run: "find_fit (uh_block s) (aligned_size bytes) (task_user_heap_head s) = Some (first_or 0 (dropWhile ?P bs))"
    unfolding user_layout_head [OF assms] by (rule find_fit_list [OF lnk pos])
  show ?thesis
  proof (cases "bytes = 0 \<or> bytes > - 1 - (16 - 1)")
    case True
    then show ?thesis by (intro bad) (simp_all add: luna_bb_malloc_def)
  next
    case False
    show ?thesis
    proof (cases "dropWhile ?P bs")
      case Nil
      with False run show ?thesis
        by (intro full) (simp_all add: luna_bb_malloc_def dropWhile_eq_Nil_conv)
    next
      case (Cons b ys)
      from dropWhile_split [OF Cons] have split: "bs = takeWhile ?P bs @ b # ys" "\<not> ?P b" by auto
      have "b \<noteq> 0" using pos split(1) by (metis in_set_conv_decomp)
      with False run Cons have "luna_bb_malloc bytes s = Some (b + HEADER, take_block (aligned_size bytes) b s)"
        by (simp add: luna_bb_malloc_def)
      moreover have "aligned_size bytes mod 16 = 0" "unat bytes \<le> aligned_size bytes"
        using aligned_size_eq [of bytes] False by simp_all
      ultimately show ?thesis using False split
        by (intro found [of "takeWhile ?P bs" b ys]) (auto dest: set_takeWhileD)
    qed
  qed
qed

lemma free_cases:
  assumes "user_layout s bs"
  obtains (ignored) "luna_bb_free pointer s = Some s"
      "\<nexists>b. b \<in> set bs \<and> \<not> ub_free (uh_block s b) \<and> pointer = b + HEADER"
  | (freed) xs b ys where "bs = xs @ b # ys" "pointer = b + HEADER" "\<not> ub_free (uh_block s b)"
      "find_block (uh_block s) pointer 0 (task_user_heap_head s) = Some (last_or 0 xs, b)"
      "luna_bb_free pointer s = Some (s\<lparr>uh_block := freed_blocks (uh_block s) xs b,
         task_user_heap_current := task_user_heap_current s - ub_size (uh_block s b)\<rparr>)"
proof -
  let ?P = "\<lambda>b. b + HEADER \<noteq> pointer"
  have seg: "seg (uh_block s) (uh_base s) bs (uh_base s + LUNA_USER_HEAP_SIZE)"
    and pos: "0 \<notin> set bs" and lnk: "linked (uh_block s) bs 0"
    using assms seg_positive by (auto simp: user_layout_def)
  have run: "find_block (uh_block s) pointer 0 (task_user_heap_head s) =
      Some (last_or 0 (takeWhile ?P bs), first_or 0 (dropWhile ?P bs))"
    unfolding user_layout_head [OF assms] by (rule find_block_list [OF lnk pos])
  show ?thesis
  proof (cases "dropWhile ?P bs")
    case Nil
    then have "\<forall>b \<in> set bs. b + HEADER \<noteq> pointer" by (simp add: dropWhile_eq_Nil_conv)
    with run [unfolded Nil] show ?thesis by (intro ignored) (auto simp: luna_bb_free_def)
  next
    case (Cons b ys)
    from dropWhile_split [OF Cons] have split: "bs = takeWhile ?P bs @ b # ys" "b + HEADER = pointer" by auto
    have b: "b \<noteq> 0" using pos split(1) by (metis in_set_conv_decomp)
    then have ptr: "pointer \<noteq> 0" using split(2) by simp
    show ?thesis
    proof (cases "ub_free (uh_block s b)")
      case True
      with run [unfolded Cons] split(2) show ?thesis by (intro ignored) (auto simp: luna_bb_free_def)
    next
      case False
      show ?thesis
        by (rule freed [of "takeWhile ?P bs" b ys])
          (use False run Cons split b ptr in \<open>auto simp: luna_bb_free_def freed_blocks_def Let_def\<close>)
    qed
  qed
qed

lemma user_layout_freed:
  assumes lay: "user_layout s (xs @ b # ys)" and used: "\<not> ub_free (uh_block s b)"
  shows "user_layout (s\<lparr>uh_block := freed_blocks (uh_block s) xs b,
         task_user_heap_current := task_user_heap_current s - ub_size (uh_block s b)\<rparr>)
      (freed_list (uh_block s) xs b ys)"
  using lay freed_blocks_layout [of "uh_block s" "uh_base s" xs b ys "uh_base s + LUNA_USER_HEAP_SIZE",
    OF _ _ _ used]
  unfolding user_layout_def by auto

lemma user_layout_memory [simp]: "user_layout (s\<lparr>uh_memory := m\<rparr>) bs = user_layout s bs"
  by (simp add: user_layout_def)

lemma user_layout_errno [simp]: "user_layout (s\<lparr>task_user_errno := e\<rparr>) bs = user_layout s bs"
  by (simp add: user_layout_def)

section \<open>The heap as an allocator\<close>

definition user_heap_ok :: "user_heap \<Rightarrow> bool" where
  "user_heap_ok s \<longleftrightarrow> (\<exists>bs. user_layout s bs)"

definition user_live :: "user_heap \<Rightarrow> nat \<Rightarrow> nat option" where
  "user_live s p =
     (if \<exists>bs b. user_layout s bs \<and> b \<in> set bs \<and> \<not> ub_free (uh_block s b) \<and> p = b + HEADER
      then Some (ub_size (uh_block s (p - HEADER))) else None)"

lemma layout_unique: "seg blk p bs q \<Longrightarrow> seg blk p cs q \<Longrightarrow> bs = cs"
proof (induction bs arbitrary: p cs)
  case Nil
  then show ?case
  proof (cases cs)
    case (Cons c cs')
    with Nil show ?thesis using block_end_gt [of c blk] seg_le [of blk "block_end blk c" cs' q] by auto
  qed simp
next
  case (Cons b bs)
  then obtain c cs' where cs: "cs = c # cs'"
    using block_end_gt [of b blk] seg_le [of blk "block_end blk b" bs q] by (cases cs) auto
  with Cons show ?case by auto
qed

lemma user_layout_unique: "user_layout s bs \<Longrightarrow> user_layout s cs \<Longrightarrow> bs = cs"
  unfolding user_layout_def using layout_unique by blast

lemma user_live_layout:
  assumes "user_layout s bs"
  shows "user_live s p = (if \<exists>b \<in> set bs. \<not> ub_free (uh_block s b) \<and> p = b + HEADER
    then Some (ub_size (uh_block s (p - HEADER))) else None)"
proof -
  have "(\<exists>cs b. user_layout s cs \<and> b \<in> set cs \<and> \<not> ub_free (uh_block s b) \<and> p = b + HEADER) \<longleftrightarrow>
      (\<exists>b \<in> set bs. \<not> ub_free (uh_block s b) \<and> p = b + HEADER)"
    using assms user_layout_unique [OF assms] by blast
  then show ?thesis by (simp add: user_live_def)
qed

lemma user_live_Some:
  "user_layout s bs \<Longrightarrow> user_live s p = Some n \<longleftrightarrow>
     (\<exists>b \<in> set bs. \<not> ub_free (uh_block s b) \<and> p = b + HEADER \<and> n = ub_size (uh_block s b))"
  by (auto simp: user_live_layout)

definition live_set :: "(nat \<Rightarrow> task_user_block) \<Rightarrow> nat list \<Rightarrow> nat set" where
  "live_set blk bs = {b \<in> set bs. \<not> ub_free (blk b)}"

lemma user_live_set:
  "user_layout s bs \<Longrightarrow> user_live s p =
     (if HEADER \<le> p \<and> p - HEADER \<in> live_set (uh_block s) bs then Some (ub_size (uh_block s (p - HEADER))) else None)"
  by (auto simp: user_live_layout live_set_def)

lemma user_live_take:
  assumes lay: "user_layout s (xs @ b # ys)" and fit: "fits (uh_block s) a b" and a: "a mod 16 = 0"
  shows "user_live (take_block a b s) =
    (user_live s)(b + HEADER \<mapsto> ub_size (uh_block (take_block a b s) b))"
    and "user_live s (b + HEADER) = None"
proof -
  let ?s = "take_block a b s"
  note t = take_block_layout [OF lay fit a]
  let ?bs = "xs @ b # (if HEADER + LUNA_USER_MIN_SPLIT \<le> ub_size (uh_block s b) - a
    then [b + HEADER + a] else []) @ ys"
  have d: "b \<notin> set xs" "b \<notin> set ys"
    using lay seg_distinct [of "uh_block s" "uh_base s" "xs @ b # ys"] by (auto simp: user_layout_def)
  have old: "ub_free (uh_block s b)" using fit by (simp add: fits_def)
  then show none: "user_live s (b + HEADER) = None"
    by (auto simp: user_live_layout [OF lay])
  have ls: "live_set (uh_block ?s) ?bs = insert b (live_set (uh_block s) (xs @ b # ys))"
    using t(2,5,6) old d by (auto simp: live_set_def)
  have sz: "ub_size (uh_block ?s c) = ub_size (uh_block s c)" if "c \<in> live_set (uh_block s) (xs @ b # ys)" for c
    using that t(5) [of c] old by (auto simp: live_set_def)
  show "user_live ?s = (user_live s)(b + HEADER \<mapsto> ub_size (uh_block ?s b))"
    unfolding user_live_set [OF t(1)] user_live_set [OF lay] ls fun_eq_iff using sz by auto
qed

lemma user_live_freed:
  assumes lay: "user_layout s (xs @ b # ys)" and used: "\<not> ub_free (uh_block s b)"
  shows "user_live (s\<lparr>uh_block := freed_blocks (uh_block s) xs b,
         task_user_heap_current := task_user_heap_current s - ub_size (uh_block s b)\<rparr>) =
      (user_live s)(b + HEADER := None)" (is "user_live ?s = _")
proof -
  note lay' = user_layout_freed [OF lay used]
  have "seg (uh_block s) (uh_base s) (xs @ b # ys) (uh_base s + LUNA_USER_HEAP_SIZE)"
    "linked (uh_block s) (xs @ b # ys) 0" "coalesced (uh_block s) (xs @ b # ys)"
    using lay by (auto simp: user_layout_def)
  note f = freed_blocks_layout [OF this used]
  have mem: "c \<in> set (freed_list (uh_block s) xs b ys) \<longleftrightarrow> c \<in> set (xs @ b # ys)"
    if "\<not> ub_free (uh_block s c)" "c \<noteq> b" for c
    using that by (cases ys) (auto simp: freed_list_def drop_free_def)
  have ls: "live_set (uh_block ?s) (freed_list (uh_block s) xs b ys) = live_set (uh_block s) (xs @ b # ys) - {b}"
  proof (rule set_eqI)
    fix c
    show "c \<in> live_set (uh_block ?s) (freed_list (uh_block s) xs b ys) \<longleftrightarrow>
        c \<in> live_set (uh_block s) (xs @ b # ys) - {b}"
      using f(5) [of c] f(7) mem [of c] by (cases "c = b") (auto simp: live_set_def)
  qed
  have sz: "ub_size (uh_block ?s c) = ub_size (uh_block s c)"
    if "c \<in> live_set (uh_block s) (xs @ b # ys) - {b}" for c
    using that f(6) [of c] by (auto simp: live_set_def)
  show ?thesis
    unfolding user_live_set [OF lay'] user_live_set [OF lay] ls fun_eq_iff using sz by auto
qed

lemma user_malloc_spec:
  assumes lay: "user_layout s bs"
  obtains a s' where "luna_bb_malloc bytes s = Some (a, s')" "user_heap_ok s'" "uh_memory s' = uh_memory s"
    "uh_base s' = uh_base s"
    "if a = 0 then user_live s' = user_live s
     else user_live s a = None \<and> (\<exists>k \<ge> unat bytes. 0 < k \<and> user_live s' = (user_live s)(a \<mapsto> k))"
  using lay
proof (cases rule: malloc_cases [of s bs bytes])
  case bad
  with lay show ?thesis
    by (intro that [OF bad(2)]) (auto simp: user_heap_ok_def user_live_def)
next
  case full
  with lay show ?thesis
    by (intro that [OF full(3)]) (auto simp: user_heap_ok_def user_live_def)
next
  case (found xs b ys)
  note lay' = lay [unfolded found(2)]
  note t = take_block_layout [OF lay' found(4,5)]
  have pos: "0 < unat bytes" using found(1) by (simp add: unat_gt_0)
  then have "unat bytes \<le> ub_size (uh_block (take_block (aligned_size bytes) b s) b)"
    "0 < ub_size (uh_block (take_block (aligned_size bytes) b s) b)"
    using t(3) found(6) by linarith+
  with user_live_take [OF lay' found(4,5)] t(1) show ?thesis
    by (intro that [OF found(7)]) (auto simp: user_heap_ok_def t HEADER_def)
qed

lemma user_free_spec:
  assumes lay: "user_layout s bs"
  obtains s' where "luna_bb_free p s = Some s'" "user_heap_ok s'" "uh_memory s' = uh_memory s"
    "uh_base s' = uh_base s" "user_live s' = (user_live s)(p := None)"
  using lay
proof (cases rule: free_cases [of s bs p])
  case ignored
  with lay have "user_live s p = None" by (auto simp: user_live_layout [OF lay])
  then show ?thesis using ignored lay by (intro that [OF ignored(1)]) (auto simp: user_heap_ok_def)
next
  case (freed xs b ys)
  note lay' = lay [unfolded freed(1)]
  show ?thesis
    using user_layout_freed [OF lay' freed(3)] user_live_freed [OF lay' freed(3)] freed(2)
    by (intro that [OF freed(5)]) (auto simp: user_heap_ok_def)
qed

lemma user_live_region:
  assumes "user_layout s bs" "user_live s p = Some n"
  shows "uh_base s + HEADER \<le> p" "p + n \<le> uh_base s + LUNA_USER_HEAP_SIZE" "p mod 16 = 0" "n mod 16 = 0"
proof -
  from assms obtain b where b: "b \<in> set bs" "p = b + HEADER" "n = ub_size (uh_block s b)"
    by (auto simp: user_live_Some)
  have seg: "seg (uh_block s) (uh_base s) bs (uh_base s + LUNA_USER_HEAP_SIZE)" "uh_base s mod 16 = 0"
    using assms(1) by (auto simp: user_layout_def)
  from seg_bounds [OF seg(1) b(1)] seg_aligned [OF seg b(1)] b(2,3)
  show "uh_base s + HEADER \<le> p" "p + n \<le> uh_base s + LUNA_USER_HEAP_SIZE" "p mod 16 = 0" "n mod 16 = 0"
    by (auto simp: block_end_def luna_consts mod_eq_0_iff_dvd)
qed

interpretation user_alloc: allocator user_heap_ok user_live luna_bb_malloc luna_bb_free
proof
  fix s b
  assume "user_heap_ok s"
  then obtain bs where "user_layout s bs" by (auto simp: user_heap_ok_def)
  then show "\<exists>a s'. luna_bb_malloc b s = Some (a, s') \<and> user_heap_ok s' \<and>
      (if a = 0 then user_live s' = user_live s
       else user_live s a = None \<and> (\<exists>k \<ge> unat b. 0 < k \<and> user_live s' = (user_live s)(a \<mapsto> k)))"
    by (elim user_malloc_spec [of s bs b]) blast
next
  fix s p
  assume "user_heap_ok s"
  then obtain bs where "user_layout s bs" by (auto simp: user_heap_ok_def)
  then show "\<exists>s'. luna_bb_free p s = Some s' \<and> user_heap_ok s' \<and> user_live s' = (user_live s)(p := None)"
    by (elim user_free_spec [of s bs p]) blast
next
  fix s p n q k
  assume "user_heap_ok s" and live: "user_live s p = Some n" "user_live s q = Some k" "p \<noteq> q"
  then obtain bs where lay: "user_layout s bs" by (auto simp: user_heap_ok_def)
  with live obtain b c where "b \<in> set bs" "p = b + HEADER" "n = ub_size (uh_block s b)"
    "c \<in> set bs" "q = c + HEADER" "k = ub_size (uh_block s c)" by (auto simp: user_live_Some)
  with live(3) lay seg_disjoint [of "uh_block s" "uh_base s" bs "uh_base s + LUNA_USER_HEAP_SIZE" b c]
  show "{p..<p + n} \<inter> {q..<q + k} = {}" by (auto simp: user_layout_def block_end_def)
next
  fix s
  assume "user_heap_ok s"
  then show "user_live s 0 = None" by (auto simp: user_heap_ok_def user_live_layout HEADER_def)
qed

section \<open>Reallocation\<close>

lemma find_block_live:
  assumes lay: "user_layout s bs" and live: "user_live s p = Some n"
  obtains previous where
    "find_block (uh_block s) p 0 (task_user_heap_head s) = Some (previous, p - HEADER)"
    "p \<noteq> 0" "p - HEADER \<noteq> 0" "\<not> ub_free (uh_block s (p - HEADER))" "ub_size (uh_block s (p - HEADER)) = n"
  using lay
proof (cases rule: free_cases [of s bs p])
  case ignored
  with live show ?thesis by (auto simp: user_live_layout [OF lay] split: if_splits)
next
  case (freed xs b ys)
  have "0 \<notin> set bs" using lay seg_positive by (auto simp: user_layout_def)
  then have "b \<noteq> 0" using freed(1) by (metis in_set_conv_decomp)
  with freed live show ?thesis
    by (intro that [of "last_or 0 xs"]) (auto simp: user_live_layout [OF lay] split: if_splits)
qed

lemma user_find_dead:
  assumes lay: "user_layout s bs" and dead: "user_live s p = None"
  shows "\<exists>previous b. find_block (uh_block s) p 0 (task_user_heap_head s) = Some (previous, b) \<and>
    (b = 0 \<or> ub_free (uh_block s b))"
proof -
  let ?P = "\<lambda>b. b + HEADER \<noteq> p"
  have "0 \<notin> set bs" "linked (uh_block s) bs 0" using lay seg_positive by (auto simp: user_layout_def)
  note run = find_block_list [OF this(2,1), of p 0, folded user_layout_head [OF lay]]
  show ?thesis
  proof (cases "dropWhile ?P bs")
    case (Cons b ys)
    from dropWhile_split [OF Cons] have "b \<in> set bs" "p = b + HEADER"
      by (metis in_set_conv_decomp, simp)
    with dead have "ub_free (uh_block s b)" by (auto simp: user_live_layout [OF lay] split: if_splits)
    with run [unfolded Cons] show ?thesis by simp
  next
    case Nil
    show ?thesis using run [unfolded Nil] by simp
  qed
qed

lemma user_realloc_spec:
  assumes lay: "user_layout s bs" and live: "user_live s p = Some n" and bytes: "bytes \<noteq> 0"
  obtains a s' where "luna_bb_realloc p bytes s = Some (a, s')" "user_heap_ok s'" "uh_base s' = uh_base s"
    and "a = 0 \<Longrightarrow> user_live s' = user_live s \<and> uh_memory s' = uh_memory s"
    and "a \<noteq> 0 \<Longrightarrow>
      (user_live s a = None \<and> (\<exists>k \<ge> unat bytes. user_live s' = ((user_live s)(p := None))(a \<mapsto> k)) \<and>
        uh_memory s' = memcpy_at (uh_memory s) a (uh_memory s) p n \<and> n < unat bytes) \<or>
      (a = p \<and> s' = s \<and> unat bytes \<le> n)"
proof -
  obtain previous where fb: "find_block (uh_block s) p 0 (task_user_heap_head s) = Some (previous, p - HEADER)"
    "p \<noteq> 0" "p - HEADER \<noteq> 0" "\<not> ub_free (uh_block s (p - HEADER))" "ub_size (uh_block s (p - HEADER)) = n"
    using find_block_live [OF lay live] by blast
  show ?thesis
  proof (cases "unat bytes \<le> n")
    case True
    with fb bytes have "luna_bb_realloc p bytes s = Some (p, s)"
      by (simp add: luna_bb_realloc_def)
    then show ?thesis using lay fb(2) True by (intro that [of p s]) (auto simp: user_heap_ok_def)
  next
    case False
    obtain a s1 where m: "luna_bb_malloc bytes s = Some (a, s1)" "user_heap_ok s1" "uh_memory s1 = uh_memory s"
      "uh_base s1 = uh_base s"
      "if a = 0 then user_live s1 = user_live s
       else user_live s a = None \<and> (\<exists>k \<ge> unat bytes. 0 < k \<and> user_live s1 = (user_live s)(a \<mapsto> k))"
      using user_malloc_spec [OF lay, of bytes] by metis
    show ?thesis
    proof (cases "a = 0")
      case True
      with fb bytes False m have "luna_bb_realloc p bytes s = Some (0, s1)"
        by (simp add: luna_bb_realloc_def)
      with m True show ?thesis by (intro that [of 0 s1]) auto
    next
      case a: False
      let ?s = "s1\<lparr>uh_memory := memcpy_at (uh_memory s1) a (uh_memory s1) p n\<rparr>"
      obtain bs1 where "user_layout s1 bs1" using m(2) by (auto simp: user_heap_ok_def)
      then have lay1: "user_layout ?s bs1" by simp
      obtain s2 where f: "luna_bb_free p ?s = Some s2" "user_heap_ok s2" "uh_memory s2 = uh_memory ?s"
        "uh_base s2 = uh_base ?s" "user_live s2 = (user_live ?s)(p := None)"
        using user_free_spec [OF lay1, of p] by metis
      have "user_live ?s = user_live s1" by (simp add: user_live_def fun_eq_iff)
      moreover obtain k where k: "unat bytes \<le> k" "user_live s a = None" "user_live s1 = (user_live s)(a \<mapsto> k)"
        using m(5) a by auto
      moreover have "a \<noteq> p" using k(2) live by auto
      ultimately have "user_live s2 = ((user_live s)(p := None))(a \<mapsto> k)"
        using f(5) by (simp add: fun_upd_twist)
      moreover have "luna_bb_realloc p bytes s = Some (a, s2)"
        using fb bytes False m(1) a f(1) by (simp add: luna_bb_realloc_def)
      ultimately show ?thesis using a f m k False by (intro that [of a s2]) auto
    qed
  qed
qed

section \<open>Properties\<close>

text \<open>Any interleaving of the heap calls and of stores to the heap's bytes.\<close>

inductive user_step :: "user_heap \<Rightarrow> user_heap \<Rightarrow> bool" where
  "luna_bb_malloc bytes s = Some (a, s') \<Longrightarrow> user_step s s'"
| "luna_bb_free p s = Some s' \<Longrightarrow> user_step s s'"
| "luna_bb_realloc p bytes s = Some (a, s') \<Longrightarrow> user_step s s'"
| "user_step s (s\<lparr>uh_memory := m\<rparr>)"

inductive user_reachable :: "user_heap \<Rightarrow> bool" where
  user_reachable_start: "0 < uh_base s \<Longrightarrow> uh_base s mod 16 = 0 \<Longrightarrow> user_reachable (task_user_heap_reset s)"
| user_reachable_step: "user_reachable s \<Longrightarrow> user_step s s' \<Longrightarrow> user_reachable s'"

lemma user_realloc_ok:
  assumes ok: "user_heap_ok s"
  shows "\<exists>a s'. luna_bb_realloc p bytes s = Some (a, s') \<and> user_heap_ok s'"
proof -
  obtain bs where lay: "user_layout s bs" using ok by (auto simp: user_heap_ok_def)
  consider "p = 0" | "p \<noteq> 0" "bytes = 0" | n where "p \<noteq> 0" "bytes \<noteq> 0" "user_live s p = Some n"
    | "p \<noteq> 0" "bytes \<noteq> 0" "user_live s p = None" by fastforce
  then show ?thesis
  proof cases
    case 1
    with user_alloc.alloc_returns [OF ok, of bytes] show ?thesis by (auto simp: luna_bb_realloc_def)
  next
    case 2
    with user_alloc.free_returns [OF ok, of p] show ?thesis by (auto simp: luna_bb_realloc_def)
  next
    case (3 n)
    with user_realloc_spec [OF lay 3(3,2)] show ?thesis by metis
  next
    case 4
    have "user_heap_ok (s\<lparr>task_user_errno := BB_EINVAL\<rparr>)"
      using lay unfolding user_heap_ok_def user_layout_errno by blast
    with user_find_dead [OF lay 4(3)] 4 show ?thesis by (auto simp: luna_bb_realloc_def)
  qed
qed

lemma user_step_ok: "user_step s s' \<Longrightarrow> user_heap_ok s \<Longrightarrow> user_heap_ok s'"
proof (induction rule: user_step.induct)
  case (1 bytes s a s')
  then show ?case using user_alloc.alloc_returns [of s bytes] by auto
next
  case (2 p s s')
  then show ?case using user_alloc.free_returns [of s p] by auto
next
  case (3 p bytes s a s')
  then show ?case using user_realloc_ok [of s p bytes] by auto
qed (auto simp: user_heap_ok_def)

lemma user_reachable_ok: "user_reachable s \<Longrightarrow> user_heap_ok s"
proof (induction rule: user_reachable.induct)
  case (user_reachable_start s)
  from user_layout_reset [OF this] show ?case by (auto simp: user_heap_ok_def)
qed (rule user_step_ok)

text \<open>
  C4: In every state the BusyBox heap can reach from its reset by any sequence of malloc, free,
  realloc and stores, with arbitrary arguments, the header list tiles the array exactly, its links
  end, no two neighbouring blocks are free and the byte counter is the sum of the blocks in use;
  the list loops of all three operations terminate; and when nothing is in use, the list is one
  free block over the whole array again (no memory is lost to fragmentation or headers).
\<close>

theorem user_heap_invariant:
  assumes "user_reachable s"
  shows "\<exists>bs. user_layout s bs \<and>
    luna_bb_malloc bytes s \<noteq> None \<and> luna_bb_free p s \<noteq> None \<and> luna_bb_realloc p bytes s \<noteq> None \<and>
    (user_live s = Map.empty \<longrightarrow>
       bs = [uh_base s] \<and> uh_block s (uh_base s) =
         \<lparr>ub_size = LUNA_USER_HEAP_SIZE - HEADER, ub_next = 0, ub_free = True\<rparr>)"
proof -
  have ok: "user_heap_ok s" by (rule user_reachable_ok [OF assms])
  then obtain bs where lay: "user_layout s bs" by (auto simp: user_heap_ok_def)
  have "bs = [uh_base s] \<and> uh_block s (uh_base s) =
         \<lparr>ub_size = LUNA_USER_HEAP_SIZE - HEADER, ub_next = 0, ub_free = True\<rparr>"
    if empty: "user_live s = Map.empty"
  proof -
    have free: "\<forall>b \<in> set bs. ub_free (uh_block s b)"
    proof
      fix b assume b: "b \<in> set bs"
      have "user_live s (b + HEADER) = None" using empty by simp
      with b show "ub_free (uh_block s b)" by (auto simp: user_live_layout [OF lay] split: if_splits)
    qed
    obtain b ys where bs: "bs = b # ys"
      using lay by (cases bs) (auto simp: user_layout_def luna_consts)
    with lay free have "ys = []" by (cases ys) (auto simp: user_layout_def)
    with bs lay free show ?thesis
      by (cases "uh_block s b") (auto simp: user_layout_def block_end_def)
  qed
  then show ?thesis
    using lay user_alloc.alloc_returns [OF ok, of bytes] user_alloc.free_returns [OF ok, of p]
      user_realloc_ok [OF ok, of p bytes] by auto
qed

text \<open>
  C22: In a reachable state malloc returns NULL (with ENOMEM) exactly when the size is zero or would
  overflow the rounding, or no free block is large enough; otherwise it returns the payload of the
  first block that is, 16-byte aligned, inside the array, at least as large as asked for, not
  overlapping any live block, and no live block nor any byte of memory changes.
\<close>

theorem user_malloc_correct:
  assumes "user_reachable s" and "user_layout s bs" and "luna_bb_malloc bytes s = Some (a, s')"
  shows "if a = 0
    then (bytes = 0 \<or> unat bytes > 2 ^ 64 - 16 \<or>
          (\<forall>b \<in> set bs. \<not> fits (uh_block s) ((unat bytes + 15) div 16 * 16) b)) \<and>
         user_live s' = user_live s \<and> task_user_errno s' = BB_ENOMEM
    else (\<exists>xs b ys. bs = xs @ b # ys \<and> a = b + HEADER \<and>
            fits (uh_block s) ((unat bytes + 15) div 16 * 16) b \<and>
            (\<forall>x \<in> set xs. \<not> fits (uh_block s) ((unat bytes + 15) div 16 * 16) x)) \<and>
         user_live s a = None \<and>
         (\<exists>k \<ge> unat bytes. user_live s' = (user_live s)(a \<mapsto> k) \<and> a mod 16 = 0 \<and>
            uh_base s < a \<and> a + k \<le> uh_base s + LUNA_USER_HEAP_SIZE \<and>
            (\<forall>p n. user_live s p = Some n \<longrightarrow> {p..<p + n} \<inter> {a..<a + k} = {})) \<and>
         uh_memory s' = uh_memory s"
  using assms(2)
proof (cases rule: malloc_cases [of s bs bytes])
  case bad
  then have "bytes = 0 \<or> unat bytes > 2 ^ 64 - 16" by (auto simp: word_less_nat_alt)
  with bad assms(3) show ?thesis by (auto simp: user_live_def)
next
  case full
  then show ?thesis using assms(3) aligned_size_eq [of bytes] by (auto simp: user_live_def)
next
  case (found xs b ys)
  have ok: "user_heap_ok s" by (rule user_reachable_ok [OF assms(1)])
  have a: "a = b + HEADER" "a \<noteq> 0" using found(7) assms(3) by (auto simp: HEADER_def)
  obtain k where k: "unat bytes \<le> k" "user_live s a = None" "user_live s' = (user_live s)(a \<mapsto> k)"
    and mem: "uh_memory s' = uh_memory s" "uh_base s' = uh_base s" and ok': "user_heap_ok s'"
    using user_malloc_spec [OF assms(2), of bytes] assms(3) a(2) by (metis option.inject prod.inject)
  from ok' obtain bs' where lay': "user_layout s' bs'" by (auto simp: user_heap_ok_def)
  have "a mod 16 = 0" "uh_base s < a" "a + k \<le> uh_base s + LUNA_USER_HEAP_SIZE"
    using user_live_region [OF lay', of a k] k(3) mem(2) by (simp_all add: HEADER_def)
  moreover have "{p..<p + n} \<inter> {a..<a + k} = {}" if "user_live s p = Some n" for p n
  proof -
    have "p \<noteq> a" using that k(2) by auto
    with that user_alloc.live_disjoint [OF ok', of p n a k] k(3) show ?thesis by simp
  qed
  moreover have "aligned_size bytes = (unat bytes + 15) div 16 * 16"
    using aligned_size_eq found(1) by blast
  ultimately show ?thesis using found(2-4) a k mem by auto
qed

text \<open>
  C23: realloc of a live block to a non-zero size either returns NULL and leaves every block and
  byte as it was, or returns a block of at least the new size whose first bytes are the old
  contents, with every other live block and its bytes unchanged and the old block released.
\<close>

theorem user_realloc_correct:
  assumes "user_reachable s" and "user_live s p = Some n" and "bytes \<noteq> 0"
    and "luna_bb_realloc p bytes s = Some (a, s')"
  shows "if a = 0 then user_live s' = user_live s \<and> uh_memory s' = uh_memory s
    else (\<exists>k \<ge> unat bytes. user_live s' = ((user_live s)(p := None))(a \<mapsto> k)) \<and>
      (\<forall>i < min n (unat bytes). uh_memory s' (a + i) = uh_memory s (p + i)) \<and>
      (\<forall>q k x. q \<noteq> p \<and> user_live s q = Some k \<and> q \<le> x \<and> x < q + k \<longrightarrow> uh_memory s' x = uh_memory s x)"
proof -
  obtain bs where lay: "user_layout s bs"
    using user_reachable_ok [OF assms(1)] by (auto simp: user_heap_ok_def)
  have spec: "user_heap_ok s'" "a = 0 \<Longrightarrow> user_live s' = user_live s \<and> uh_memory s' = uh_memory s"
    "a \<noteq> 0 \<Longrightarrow> (user_live s a = None \<and> (\<exists>k \<ge> unat bytes. user_live s' = ((user_live s)(p := None))(a \<mapsto> k)) \<and>
        uh_memory s' = memcpy_at (uh_memory s) a (uh_memory s) p n \<and> n < unat bytes) \<or>
      (a = p \<and> s' = s \<and> unat bytes \<le> n)"
  proof -
    obtain a0 s0 where r: "luna_bb_realloc p bytes s = Some (a0, s0)" "user_heap_ok s0"
      "a0 = 0 \<Longrightarrow> user_live s0 = user_live s \<and> uh_memory s0 = uh_memory s"
      "a0 \<noteq> 0 \<Longrightarrow> (user_live s a0 = None \<and>
         (\<exists>k \<ge> unat bytes. user_live s0 = ((user_live s)(p := None))(a0 \<mapsto> k)) \<and>
         uh_memory s0 = memcpy_at (uh_memory s) a0 (uh_memory s) p n \<and> n < unat bytes) \<or>
        (a0 = p \<and> s0 = s \<and> unat bytes \<le> n)"
      by (rule user_realloc_spec [OF lay assms(2,3)]) blast
    moreover have "a0 = a" "s0 = s'" using r(1) assms(4) by simp_all
    ultimately show "user_heap_ok s'" "a = 0 \<Longrightarrow> user_live s' = user_live s \<and> uh_memory s' = uh_memory s"
      "a \<noteq> 0 \<Longrightarrow> (user_live s a = None \<and> (\<exists>k \<ge> unat bytes. user_live s' = ((user_live s)(p := None))(a \<mapsto> k)) \<and>
          uh_memory s' = memcpy_at (uh_memory s) a (uh_memory s) p n \<and> n < unat bytes) \<or>
        (a = p \<and> s' = s \<and> unat bytes \<le> n)" by simp_all
  qed
  show ?thesis
  proof (cases "a = 0")
    case False
    from spec(3) [OF False] show ?thesis
    proof
      assume moved: "user_live s a = None \<and> (\<exists>k \<ge> unat bytes. user_live s' = ((user_live s)(p := None))(a \<mapsto> k)) \<and>
        uh_memory s' = memcpy_at (uh_memory s) a (uh_memory s) p n \<and> n < unat bytes"
      then obtain k where k: "unat bytes \<le> k" "user_live s' = ((user_live s)(p := None))(a \<mapsto> k)" by blast
      have keep: "uh_memory s' x = uh_memory s x"
        if q: "q \<noteq> p" "user_live s q = Some j" "q \<le> x" "x < q + j" for q j x
      proof -
        have "q \<noteq> a" using q(2) moved by auto
        then have "{q..<q + j} \<inter> {a..<a + k} = {}"
          using user_alloc.live_disjoint [OF spec(1), of q j a k] q k(2) by simp
        moreover have "x \<in> {q..<q + j}" using q by simp
        ultimately have "x \<notin> {a..<a + k}" by blast
        with k(1) moved show ?thesis by (auto simp: memcpy_at_def)
      qed
      have copy: "uh_memory s' (a + i) = uh_memory s (p + i)" if "i < min n (unat bytes)" for i
        using that moved by (simp add: mem_simps)
      show ?thesis unfolding if_not_P [OF False]
        by (intro conjI exI [of _ k] allI impI) (use k copy keep in blast)+
    next
      assume "a = p \<and> s' = s \<and> unat bytes \<le> n"
      with assms(2) False show ?thesis by (auto simp: fun_upd_idem)
    qed
  qed (use spec(2) in auto)
qed

text \<open>
  The boot-time self test of the heap succeeds wherever the array lies, and leaves the heap
  freshly reset.
\<close>

theorem user_heap_self_test_passes:
  assumes "0 < uh_base s" "uh_base s mod 16 = 0"
  shows "\<exists>s'. task_user_heap_self_test s = Some (0, s') \<and> user_layout s' [uh_base s] \<and>
    task_user_heap_current s' = 0"
proof -
  obtain b where b: "uh_base s = b" by simp
  have al: "aligned_size 128 = 128" "aligned_size 256 = 256" "aligned_size 64 = 64" "aligned_size 320 = 320"
    by (simp_all add: aligned_size_def)
  have "(b + 32) mod 16 = 0" "(192 + b) mod 16 = 0" "(480 + b) mod 16 = 0"
    using assms(2) b by presburger+
  then show ?thesis
    using assms
    by (simp add: task_user_heap_self_test_def task_user_heap_reset_def luna_bb_malloc_def al b
      find_fit.simps take_block_def Let_def luna_consts luna_bb_free_def find_block.simps merge_next_def
      merge_previous_def luna_bb_realloc_def memset_at_def memcpy_at_def first_index_None
      user_layout_def block_end_def)
qed

section \<open>Instances\<close>

definition sample_user_heap :: user_heap where
  "sample_user_heap = task_user_heap_reset \<lparr>uh_base = 0x1000,
     uh_block = (\<lambda>_. \<lparr>ub_size = 0, ub_next = 0, ub_free = False\<rparr>), uh_memory = (\<lambda>a. of_nat a),
     task_user_heap_head = 0, task_user_heap_current = 1, task_user_heap_peak = 1, task_user_errno = 0\<rparr>"

lemma sample_user_reachable: "user_reachable sample_user_heap"
  unfolding sample_user_heap_def by (rule user_reachable_start) simp_all

lemma sample_user_layout: "user_layout sample_user_heap [0x1000]"
  using user_layout_reset [of "\<lparr>uh_base = 0x1000,
     uh_block = (\<lambda>_. \<lparr>ub_size = 0, ub_next = 0, ub_free = False\<rparr>), uh_memory = (\<lambda>a. of_nat a),
     task_user_heap_head = 0, task_user_heap_current = 1, task_user_heap_peak = 1, task_user_errno = 0\<rparr>"]
  by (simp add: sample_user_heap_def)

definition sample_user_malloc :: "nat \<times> user_heap" where
  "sample_user_malloc = the (luna_bb_malloc 100 sample_user_heap)"

lemma sample_user_malloc_eq: "luna_bb_malloc 100 sample_user_heap = Some (0x1020, snd sample_user_malloc)"
proof -
  have "aligned_size 100 = 112" by (simp add: aligned_size_def)
  then have "luna_bb_malloc 100 sample_user_heap = Some (0x1020, take_block 112 0x1000 sample_user_heap)"
    by (simp add: luna_bb_malloc_def find_fit.simps sample_user_heap_def task_user_heap_reset_def luna_consts)
  then show ?thesis by (simp add: sample_user_malloc_def)
qed

lemma sample_user_malloc_reachable: "user_reachable (snd sample_user_malloc)"
  by (rule user_reachable_step [OF sample_user_reachable user_step.intros(1) [OF sample_user_malloc_eq]])

theorem user_heap_invariant_witness:
  "\<exists>bs. user_layout (snd sample_user_malloc) bs \<and> luna_bb_free 0x1020 (snd sample_user_malloc) \<noteq> None"
  using user_heap_invariant [OF sample_user_malloc_reachable, of 0 "0x1020"] by blast

theorem user_malloc_correct_witness:
  "user_live sample_user_heap 0x1020 = None \<and> user_live (snd sample_user_malloc) 0x1020 \<noteq> None"
  using user_malloc_correct [OF sample_user_reachable sample_user_layout sample_user_malloc_eq] by auto

theorem user_realloc_correct_witness:
  "\<exists>a s'. luna_bb_realloc 0x1020 200 (snd sample_user_malloc) = Some (a, s') \<and>
     (a = 0 \<or> uh_memory s' (a + 99) = uh_memory (snd sample_user_malloc) (0x1020 + 99))"
proof -
  obtain a s' where r: "luna_bb_realloc 0x1020 200 (snd sample_user_malloc) = Some (a, s')"
    using user_realloc_ok [OF user_reachable_ok [OF sample_user_malloc_reachable], of "0x1020" 200] by blast
  obtain n where n: "user_live (snd sample_user_malloc) 0x1020 = Some n" "100 \<le> n"
    using user_alloc.alloc_returns [OF user_reachable_ok [OF sample_user_reachable], of 100]
      sample_user_malloc_eq by (auto split: if_splits)
  from user_realloc_correct [OF sample_user_malloc_reachable n(1) _ r] n(2) r show ?thesis
    by (auto split: if_splits)
qed

theorem user_heap_self_test_witness:
  "\<exists>s'. task_user_heap_self_test sample_user_heap = Some (0, s') \<and> task_user_heap_current s' = 0"
proof -
  have "uh_base sample_user_heap = 0x1000" by (simp add: sample_user_heap_def task_user_heap_reset_def)
  with user_heap_self_test_passes [of sample_user_heap] show ?thesis by auto
qed

end
