(* ===== verification/Task_Disk_Queue.thy ===== *)
theory Task_Disk_Queue
  imports Task_Disk
begin

text \<open>
  Correctness of the asynchronous disk queue. The ghost list \<open>q\<close> holds the published batches in
  publication order, \<open>B\<close> the batches being built, and \<open>p\<close> the completions still to be collected.
  The abstract disk (\<open>disk_view\<close>) is the manager's disk with all queued writes applied. The worker
  never changes the abstract disk, writes change it exactly as a synchronous disk would, and a
  flush or a read waits until the manager's disk equals it.
\<close>

abbreviation QUEUE :: nat where "QUEUE \<equiv> LUNA_DISK_LOCAL_QUEUE_COUNT"

abbreviation batch_state :: "task_disk \<Rightarrow> nat \<Rightarrow> task_disk_batch_state" where
  "batch_state t i \<equiv> tb_state (task_disk_batches t i)"

definition sequences :: "task_disk \<Rightarrow> nat list \<Rightarrow> nat list" where
  "sequences t q = map (\<lambda>i. tb_sequence (task_disk_batches t i)) q"

lemma sequences_simps [simp]:
  "sequences t [] = []" "sequences t (i # q) = tb_sequence (task_disk_batches t i) # sequences t q"
  "sequences t (q @ r) = sequences t q @ sequences t r"
  "set (sequences t q) = (\<lambda>i. tb_sequence (task_disk_batches t i)) ` set q"
  by (simp_all add: sequences_def)

lemma sequences_cong:
  "(\<And>i. i \<in> set q \<Longrightarrow> task_disk_batches t i = task_disk_batches t' i) \<Longrightarrow> sequences t q = sequences t' q"
  by (simp add: sequences_def)

definition queue_inv :: "task_disk \<Rightarrow> nat list \<Rightarrow> nat set \<Rightarrow> nat \<Rightarrow> bool" where
  "queue_inv t q B p \<longleftrightarrow>
     distinct q \<and> set q \<subseteq> {..<QUEUE} \<and> B \<subseteq> {..<QUEUE} \<and> set q \<inter> B = {} \<and>
     (\<forall>i < QUEUE. batch_state t i =
        (if i \<in> set q then TASK_DISK_BATCH_READY
         else if i \<in> B then TASK_DISK_BATCH_BUILDING else TASK_DISK_BATCH_FREE)) \<and>
     sorted_wrt (<) (sequences t q) \<and>
     (\<forall>i \<in> set q. tb_sequence (task_disk_batches t i) < task_disk_sequence t \<and>
        tb_auto_release (task_disk_batches t i) \<and> 0 < tb_count (task_disk_batches t i) \<and>
        batch_ok (task_disk_size t) (task_disk_batches t i)) \<and>
     (\<forall>i < QUEUE. tb_completion_sem (task_disk_batches t i) = 0) \<and>
     task_disk_worker_sem t = length q \<and>
     task_disk_queue_free_sem t = card ({..<QUEUE} - set q - B) \<and>
     task_disk_async_completion_sem t + length q = p \<and>
     \<not> task_disk_async_error t \<and> task_disk_io t"

definition sys_inv :: "disk_sys \<Rightarrow> nat list \<Rightarrow> nat set \<Rightarrow> nat \<Rightarrow> bool" where
  "sys_inv s q B p \<longleftrightarrow>
     queue_inv (fst s) q B p \<and> ipc_ready (task_disk_channel (fst s)) \<and>
     manager_ready (task_disk_size (fst s)) (snd s)"

definition drain :: "task_disk \<Rightarrow> nat list \<Rightarrow> bytes \<Rightarrow> bytes" where
  "drain t q m = fold (\<lambda>i. apply_batch (task_disk_batches t i)) q m"

definition disk_view :: "disk_sys \<Rightarrow> nat list \<Rightarrow> bytes" where
  "disk_view s q =
     (case task_disk_pending_write (fst s) of
        None \<Rightarrow> drain (fst s) q (dk_mapping (snd s))
      | Some i \<Rightarrow> apply_batch (task_disk_batches (fst s) i) (drain (fst s) q (dk_mapping (snd s))))"

section \<open>The worker\<close>

lemma select_fold:
  fixes t :: task_disk
  defines "f \<equiv> \<lambda>i selected.
     if batch_state t i = TASK_DISK_BATCH_READY \<and>
        (case selected of None \<Rightarrow> True
         | Some j \<Rightarrow> tb_sequence (task_disk_batches t i) < tb_sequence (task_disk_batches t j))
     then Some i else selected"
  shows "(fold f xs sel = None \<longleftrightarrow> sel = None \<and> (\<forall>k \<in> set xs. batch_state t k \<noteq> TASK_DISK_BATCH_READY)) \<and>
    (\<forall>j. fold f xs sel = Some j \<longrightarrow>
       (j \<in> set xs \<and> batch_state t j = TASK_DISK_BATCH_READY \<or> sel = Some j) \<and>
       (\<forall>k \<in> set xs. batch_state t k = TASK_DISK_BATCH_READY \<longrightarrow>
          tb_sequence (task_disk_batches t j) \<le> tb_sequence (task_disk_batches t k)) \<and>
       (\<forall>k. sel = Some k \<longrightarrow> tb_sequence (task_disk_batches t j) \<le> tb_sequence (task_disk_batches t k)))"
proof (induction xs arbitrary: sel)
  case (Cons x xs)
  show ?case
    using Cons.IH [of "f x sel"]
    by (cases sel) (auto simp: f_def split: if_splits; fastforce)+
qed auto

lemma select_first:
  assumes "queue_inv t (i # q) B p"
  shows "select_batch t = Some i"
proof -
  let ?r = "select_batch t"
  note f = select_fold [of t "[0..<QUEUE]" None, folded select_batch_def]
  have i: "i < QUEUE" "batch_state t i = TASK_DISK_BATCH_READY" using assms by (auto simp: queue_inv_def)
  then have "?r \<noteq> None" using f by auto
  then obtain j where j: "?r = Some j" by blast
  with f have "j < QUEUE" "batch_state t j = TASK_DISK_BATCH_READY"
    "tb_sequence (task_disk_batches t j) \<le> tb_sequence (task_disk_batches t i)" using i by auto
  then have "j \<in> set (i # q)" using assms by (auto simp: queue_inv_def split: if_splits)
  moreover have "tb_sequence (task_disk_batches t i) < tb_sequence (task_disk_batches t k)" if "k \<in> set q" for k
    using assms that by (auto simp: queue_inv_def)
  ultimately have "j = i" using \<open>tb_sequence (task_disk_batches t j) \<le> _\<close> by (auto simp: not_less [symmetric])
  with j show ?thesis by simp
qed

lemma apply_batch_cong:
  "tb_count b = tb_count b' \<Longrightarrow> tb_event b = tb_event b' \<Longrightarrow> tb_offset b = tb_offset b' \<Longrightarrow>
   tb_length b = tb_length b' \<Longrightarrow> tb_data b = tb_data b' \<Longrightarrow> apply_batch b = apply_batch b'"
proof -
  assume eq: "tb_count b = tb_count b'" "tb_event b = tb_event b'" "tb_offset b = tb_offset b'"
    "tb_length b = tb_length b'" "tb_data b = tb_data b'"
  have "apply_slot b = apply_slot b'" by (intro ext) (simp add: apply_slot_def eq)
  then show ?thesis by (intro ext) (simp add: apply_batch_def eq)
qed

lemma select_batch_cong: "task_disk_batches t = task_disk_batches t' \<Longrightarrow> select_batch t = select_batch t'"
  by (simp only: select_batch_def)

lemma drain_cong: "(\<And>i. i \<in> set q \<Longrightarrow> task_disk_batches t i = task_disk_batches t' i) \<Longrightarrow> drain t q m = drain t' q m"
  unfolding drain_def by (rule fold_cong) auto

text \<open>The fields that neither the worker nor a transfer changes.\<close>

definition same_requester :: "task_disk \<Rightarrow> task_disk \<Rightarrow> bool" where
  "same_requester t t' \<longleftrightarrow>
     task_disk_pending_write t' = task_disk_pending_write t \<and>
     task_disk_async_pending t' = task_disk_async_pending t \<and>
     task_disk_flush_gate_sem t' = task_disk_flush_gate_sem t \<and>
     task_disk_size t' = task_disk_size t"

lemma free_after_pop:
  "i \<notin> set q \<Longrightarrow> i \<notin> B \<Longrightarrow> i < (n::nat) \<Longrightarrow>
   card ({..<n} - set q - B) = Suc (card ({..<n} - set (i # q) - B))"
proof -
  assume "i \<notin> set q" "i \<notin> B" "i < n"
  then have "{..<n} - set q - B = insert i ({..<n} - set (i # q) - B)" by auto
  moreover have "i \<notin> {..<n} - set (i # q) - B" by simp
  ultimately show ?thesis by (simp only:) (subst card_insert_disjoint, auto)
qed

lemma worker_step:
  assumes inv: "sys_inv (t, d) (i # q) B p"
  shows "\<exists>t' d'. task_disk_worker (t, d) = Some (t', d') \<and> sys_inv (t', d') q B p \<and>
    same_requester t t' \<and>
    task_disk_queue_free_sem t' = Suc (task_disk_queue_free_sem t) \<and>
    task_disk_async_completion_sem t' = Suc (task_disk_async_completion_sem t) \<and>
    dk_mapping d' = apply_batch (task_disk_batches t i) (dk_mapping d) \<and>
    (\<forall>j. j \<noteq> i \<longrightarrow> task_disk_batches t' j = task_disk_batches t j)"
proof -
  have qi: "queue_inv t (i # q) B p" and ch: "ipc_ready (task_disk_channel t)"
    and mr: "manager_ready (task_disk_size t) d" using inv by (auto simp: sys_inv_def)
  let ?b = "(task_disk_batches t i)\<lparr>tb_state := TASK_DISK_BATCH_PROCESSING\<rparr>"
  let ?t0 = "t\<lparr>task_disk_worker_sem := task_disk_worker_sem t - 1\<rparr>"
  let ?t1 = "put_batch i ?b ?t0"
  have sel: "select_batch ?t0 = Some i"
    using select_first [OF qi] select_batch_cong [of ?t0 t] by simp
  have i: "i < QUEUE" "i \<notin> set q" "i \<notin> B" "tb_auto_release (task_disk_batches t i)"
    "0 < tb_count (task_disk_batches t i)" "batch_ok (task_disk_size t) (task_disk_batches t i)"
    using qi by (auto simp: queue_inv_def)
  have b: "batch_ok (dk_bytes d) ?b" "0 < tb_count ?b"
    using i mr by (simp_all add: batch_ok_def slot_ok_def manager_ready_def)
  obtain t2 d2 where run: "task_disk_process_batch ?b (?t1, d) = (0, ?b, t2, d2)" "strip t2 = strip ?t1"
    "ipc_ready (task_disk_channel t2)" "manager_ready (task_disk_size t) d2"
    "dk_mapping d2 = apply_batch ?b (dk_mapping d)"
    using process_batch_ok [OF b mr, of ?t1] ch by auto
  note f = strip_eqD [OF run(2)]
  let ?b' = "?b\<lparr>tb_result := 0, tb_count := 0, tb_auto_release := False, tb_state := TASK_DISK_BATCH_FREE\<rparr>"
  let ?t' = "(put_batch i ?b' t2)\<lparr>task_disk_async_error := False,
     task_disk_queue_free_sem := task_disk_queue_free_sem t2 + 1,
     task_disk_async_completion_sem := task_disk_async_completion_sem t2 + 1,
     task_disk_completion_signals := task_disk_completion_signals t2 + 1\<rparr>"
  have ws: "task_disk_worker_sem t = Suc (length q)" "\<not> task_disk_async_error t"
    using qi by (auto simp: queue_inv_def)
  have worker: "task_disk_worker (t, d) = Some (?t', d2)"
    unfolding task_disk_worker_def Let_def prod.case
    using sel run(1) i(4) ws f(11) by simp
  have bs: "task_disk_batches ?t' = (task_disk_batches t)(i := ?b')" using f(3) by simp
  have map: "apply_batch ?b = apply_batch (task_disk_batches t i)" by (rule apply_batch_cong) simp_all
  have sq: "sequences ?t' q = sequences t q" by (rule sequences_cong) (use bs i(2) in auto)
  have "queue_inv ?t' q B p"
    unfolding queue_inv_def bs sq
    using qi i f ws free_after_pop [OF i(2,3,1)] by (auto simp: queue_inv_def)
  moreover have "same_requester t ?t'" using f by (simp add: same_requester_def)
  ultimately show ?thesis
    using worker run(3,4,5) f bs map by (intro exI [of _ ?t'] exI [of _ d2]) (auto simp: sys_inv_def)
qed

lemma worker_view:
  assumes inv: "sys_inv (t, d) (i # q) B p" and pend: "set_option (task_disk_pending_write t) \<subseteq> B"
    and step: "same_requester t t'" "dk_mapping d' = apply_batch (task_disk_batches t i) (dk_mapping d)"
    "\<forall>j. j \<noteq> i \<longrightarrow> task_disk_batches t' j = task_disk_batches t j"
  shows "disk_view (t', d') q = disk_view (t, d) (i # q)"
proof -
  have i: "i \<notin> set q" "i \<notin> B" using inv by (auto simp: sys_inv_def queue_inv_def)
  have "drain t' q m = drain t q m" for m by (rule drain_cong) (use step(3) i in auto)
  then have "drain t' q (dk_mapping d') = drain t (i # q) (dk_mapping d)"
    using step(2) by (simp add: drain_def)
  with step i pend show ?thesis
    by (auto simp: disk_view_def same_requester_def split: option.split)
qed

lemma same_requester_refl [simp]: "same_requester t t"
  by (simp add: same_requester_def)

text \<open>Waiting for a free batch or for a completion takes at most one pass of the worker.\<close>

lemma wait_step:
  assumes inv: "sys_inv (t, d) q B p" and pend: "set_option (task_disk_pending_write t) \<subseteq> B"
    and blocked: "get t = 0 \<Longrightarrow> q \<noteq> []"
    and counted: "\<And>t'. get t = 0 \<Longrightarrow> task_disk_queue_free_sem t' = Suc (task_disk_queue_free_sem t) \<Longrightarrow>
      task_disk_async_completion_sem t' = Suc (task_disk_async_completion_sem t) \<Longrightarrow> 0 < get t'"
  shows "\<exists>t' d' q'. sem_wait get put (t, d) = Some (put (get t' - 1) t', d') \<and> 0 < get t' \<and>
    sys_inv (t', d') q' B p \<and> same_requester t t' \<and>
    (\<forall>j \<in> B. task_disk_batches t' j = task_disk_batches t j) \<and>
    disk_view (t', d') q' = disk_view (t, d) q \<and> length q' \<le> length q"
proof (cases "get t = 0")
  case False
  with inv show ?thesis
    by (intro exI [of _ t] exI [of _ d] exI [of _ q]) (simp add: sem_wait.simps [of get put "(t, d)"])
next
  case True
  then obtain i q2 where q: "q = i # q2" using blocked by (cases q) auto
  from worker_step [OF inv [unfolded q]] obtain t' d' where w: "task_disk_worker (t, d) = Some (t', d')"
    "sys_inv (t', d') q2 B p" "same_requester t t'"
    "task_disk_queue_free_sem t' = Suc (task_disk_queue_free_sem t)"
    "task_disk_async_completion_sem t' = Suc (task_disk_async_completion_sem t)"
    "dk_mapping d' = apply_batch (task_disk_batches t i) (dk_mapping d)"
    "\<forall>j. j \<noteq> i \<longrightarrow> task_disk_batches t' j = task_disk_batches t j" by blast
  have i: "i \<notin> B" using inv q by (auto simp: sys_inv_def queue_inv_def)
  have pos: "0 < get t'" by (rule counted [OF True w(4,5)])
  have run: "sem_wait get put (t, d) = Some (put (get t' - 1) t', d')"
    using True w(1) pos by (simp add: sem_wait.simps [of get put "(t, d)"] sem_wait.simps [of get put "(t', d')"])
  have view: "disk_view (t', d') q2 = disk_view (t, d) q"
    unfolding q by (rule worker_view [OF inv [unfolded q] pend w(3,6,7)])
  show ?thesis
    using run pos w view i q by (intro exI [of _ t'] exI [of _ d'] exI [of _ q2]) auto
qed

lemma record_high_water_simps [simp]:
  "task_disk_batches (task_disk_record_high_water t) = task_disk_batches t"
  "task_disk_size (task_disk_record_high_water t) = task_disk_size t"
  "task_disk_sequence (task_disk_record_high_water t) = task_disk_sequence t"
  "task_disk_worker_sem (task_disk_record_high_water t) = task_disk_worker_sem t"
  "task_disk_queue_free_sem (task_disk_record_high_water t) = task_disk_queue_free_sem t"
  "task_disk_async_completion_sem (task_disk_record_high_water t) = task_disk_async_completion_sem t"
  "task_disk_async_error (task_disk_record_high_water t) = task_disk_async_error t"
  "task_disk_io (task_disk_record_high_water t) = task_disk_io t"
  "task_disk_channel (task_disk_record_high_water t) = task_disk_channel t"
  "task_disk_pending_write (task_disk_record_high_water t) = task_disk_pending_write t"
  "task_disk_async_pending (task_disk_record_high_water t) = task_disk_async_pending t"
  "task_disk_flush_gate_sem (task_disk_record_high_water t) = task_disk_flush_gate_sem t"
  by (simp_all add: task_disk_record_high_water_def Let_def)

lemma free_when_idle: "sys_inv (t, d) [] {} p \<Longrightarrow> task_disk_queue_free_sem t = QUEUE"
  by (simp add: sys_inv_def queue_inv_def)

lemma claim_ok:
  assumes inv: "sys_inv (t, d) q {} p" and pend: "task_disk_pending_write t = None"
  shows "\<exists>i t' d' q'. task_disk_claim_batch (t, d) = Some (Some i, t', d') \<and> sys_inv (t', d') q' {i} p \<and>
    same_requester t t' \<and> i < QUEUE \<and> disk_view (t', d') q' = disk_view (t, d) q"
proof -
  define t0 where "t0 = (if first_index (batch_free t) QUEUE \<noteq> None then t
     else t\<lparr>task_disk_backpressure := task_disk_backpressure t + 1, task_disk_queue_waits := task_disk_queue_waits t + 1\<rparr>)"
  have inv0: "sys_inv (t0, d) q {} p" using inv by (simp add: t0_def sys_inv_def queue_inv_def sequences_def)
  have t0: "same_requester t t0" "task_disk_pending_write t0 = None" "disk_view (t0, d) q = disk_view (t, d) q"
    using pend by (simp_all add: t0_def same_requester_def disk_view_def drain_def)
  have blocked: "q \<noteq> []" if "task_disk_queue_free_sem t0 = 0"
    using inv0 that free_when_idle [of t0 d p] by (cases q) (auto simp: luna_consts)
  obtain t1 d1 q1 where w: "wait_queue_free (t0, d) =
      Some (t1\<lparr>task_disk_queue_free_sem := task_disk_queue_free_sem t1 - 1\<rparr>, d1)"
    "0 < task_disk_queue_free_sem t1" "sys_inv (t1, d1) q1 {} p" "same_requester t0 t1"
    "disk_view (t1, d1) q1 = disk_view (t0, d) q"
    using wait_step [OF inv0 _ blocked, of task_disk_queue_free_sem "\<lambda>n t. t\<lparr>task_disk_queue_free_sem := n\<rparr>"] t0(2) by auto
  have "{..<QUEUE} - set q1 \<noteq> {}"
    using w(2,3) by (auto simp: sys_inv_def queue_inv_def)
  then obtain k where "k < QUEUE" "k \<notin> set q1" by auto
  then have k: "k < QUEUE" "batch_free t1 k"
    using w(3) by (auto simp: sys_inv_def queue_inv_def batch_free_def)
  then obtain i where i: "first_index (batch_free t1) QUEUE = Some i" using first_index_ex by blast
  from first_index_Some [OF i] have i': "batch_free t1 i" "i < QUEUE" by auto
  then have fresh: "i \<notin> set q1" using w(3) by (auto simp: sys_inv_def queue_inv_def batch_free_def)
  let ?t2 = "t1\<lparr>task_disk_queue_free_sem := task_disk_queue_free_sem t1 - 1\<rparr>"
  let ?t3 = "put_batch i ((task_disk_batches t1 i)\<lparr>tb_state := TASK_DISK_BATCH_BUILDING\<rparr>) ?t2"
  have bf: "batch_free ?t2 = batch_free t1" by (simp add: batch_free_def fun_eq_iff)
  have run: "task_disk_claim_batch (t, d) = Some (Some i, task_disk_record_high_water ?t3, d1)"
    unfolding task_disk_claim_batch_def Let_def prod.case t0_def [symmetric] w(1) using bf i by simp
  have sq: "sequences (task_disk_record_high_water ?t3) q1 = sequences t1 q1"
    by (rule sequences_cong) (use fresh in auto)
  have card: "card ({..<QUEUE} - set q1 - {}) = Suc (card ({..<QUEUE} - set q1 - {i}))"
    using i' fresh card_Suc_Diff1 [of "{..<QUEUE} - set q1" i] by simp
  have "sys_inv (task_disk_record_high_water ?t3, d1) q1 {i} p"
    using w(3) i' fresh card unfolding sys_inv_def queue_inv_def fst_conv snd_conv sq by auto
  moreover have "drain (task_disk_record_high_water ?t3) q1 m = drain t1 q1 m" for m
    by (rule drain_cong) (use fresh in auto)
  then have "disk_view (task_disk_record_high_water ?t3, d1) q1 = disk_view (t, d) q"
    using w(4,5) t0 by (simp add: disk_view_def same_requester_def)
  ultimately show ?thesis
    using run i' w(4) t0(1) by (intro exI [of _ i] exI [of _ "task_disk_record_high_water ?t3"] exI [of _ d1] exI [of _ q1])
      (auto simp: same_requester_def)
qed

section \<open>Publishing and writing\<close>

definition published :: "nat \<Rightarrow> bool \<Rightarrow> task_disk \<Rightarrow> task_disk_local_batch" where
  "published i auto_release t = (task_disk_batches t i)\<lparr>tb_sequence := task_disk_sequence t, tb_result := - 1,
     tb_auto_release := auto_release, tb_state := TASK_DISK_BATCH_READY\<rparr>"

lemma publish_simps [simp]:
  "task_disk_batches (task_disk_publish_batch i a t) = (task_disk_batches t)(i := published i a t)"
  "task_disk_size (task_disk_publish_batch i a t) = task_disk_size t"
  "task_disk_sequence (task_disk_publish_batch i a t) = Suc (task_disk_sequence t)"
  "task_disk_worker_sem (task_disk_publish_batch i a t) = Suc (task_disk_worker_sem t)"
  "task_disk_queue_free_sem (task_disk_publish_batch i a t) = task_disk_queue_free_sem t"
  "task_disk_async_completion_sem (task_disk_publish_batch i a t) = task_disk_async_completion_sem t"
  "task_disk_async_error (task_disk_publish_batch i a t) = task_disk_async_error t"
  "task_disk_io (task_disk_publish_batch i a t) = task_disk_io t"
  "task_disk_channel (task_disk_publish_batch i a t) = task_disk_channel t"
  "task_disk_pending_write (task_disk_publish_batch i a t) = task_disk_pending_write t"
  "task_disk_async_pending (task_disk_publish_batch i a t) = (if a then Suc (task_disk_async_pending t) else task_disk_async_pending t)"
  "task_disk_flush_gate_sem (task_disk_publish_batch i a t) = task_disk_flush_gate_sem t"
  by (simp_all add: task_disk_publish_batch_def published_def)

lemma published_simps [simp]:
  "tb_sequence (published i a t) = task_disk_sequence t" "tb_auto_release (published i a t) = a"
  "tb_state (published i a t) = TASK_DISK_BATCH_READY" "tb_count (published i a t) = tb_count (task_disk_batches t i)"
  "tb_completion_sem (published i a t) = tb_completion_sem (task_disk_batches t i)"
  "batch_ok n (published i a t) = batch_ok n (task_disk_batches t i)"
  "apply_batch (published i a t) = apply_batch (task_disk_batches t i)"
  by (simp_all add: published_def batch_ok_def slot_ok_def cong: apply_batch_cong)

lemma publish_ok:
  assumes inv: "queue_inv t q B p" and i: "i \<in> B" "0 < tb_count (task_disk_batches t i)"
    "batch_ok (task_disk_size t) (task_disk_batches t i)"
  shows "queue_inv (task_disk_publish_batch i True t) (q @ [i]) (B - {i}) (Suc p)"
    and "drain (task_disk_publish_batch i True t) (q @ [i]) m = apply_batch (task_disk_batches t i) (drain t q m)"
proof -
  let ?t = "task_disk_publish_batch i True t"
  have fresh: "i \<notin> set q" "i < QUEUE" using inv i by (auto simp: queue_inv_def)
  have sq: "sequences ?t q = sequences t q" by (rule sequences_cong) (use fresh in auto)
  have sets: "{..<QUEUE} - set (q @ [i]) - (B - {i}) = {..<QUEUE} - set q - B" using i by auto
  show "queue_inv ?t (q @ [i]) (B - {i}) (Suc p)"
    unfolding queue_inv_def sets sequences_simps(3) sq
    using inv i fresh by (auto simp: queue_inv_def sorted_wrt_append)
  have "drain ?t q m = drain t q m" for m by (rule drain_cong) (use fresh in auto)
  then show "drain ?t (q @ [i]) m = apply_batch (task_disk_batches t i) (drain t q m)"
    by (simp add: drain_def)
qed

definition write_inv :: "disk_sys \<Rightarrow> nat list \<Rightarrow> bool" where
  "write_inv s q \<longleftrightarrow>
     sys_inv s q (set_option (task_disk_pending_write (fst s))) (task_disk_async_pending (fst s)) \<and>
     task_disk_flush_gate_sem (fst s) = 1 \<and>
     (\<forall>i. task_disk_pending_write (fst s) = Some i \<longrightarrow>
        tb_count (task_disk_batches (fst s) i) < LUNA_DISK_BATCH_SLOTS \<and>
        batch_ok (task_disk_size (fst s)) (task_disk_batches (fst s) i))"

lemma ensure_pending_ok:
  assumes inv: "write_inv (t, d) q"
  shows "\<exists>i t' d' q'. ensure_pending (t, d) = Some (Some i, t', d') \<and> write_inv (t', d') q' \<and>
    task_disk_pending_write t' = Some i \<and> task_disk_size t' = task_disk_size t \<and>
    disk_view (t', d') q' = disk_view (t, d) q"
proof (cases "task_disk_pending_write t")
  case (Some i)
  with inv show ?thesis
    by (intro exI [of _ i] exI [of _ t] exI [of _ d] exI [of _ q]) (simp add: ensure_pending_def)
next
  case None
  then have "sys_inv (t, d) q {} (task_disk_async_pending t)" using inv by (simp add: write_inv_def)
  from claim_ok [OF this None] obtain i t1 d1 q1 where c: "task_disk_claim_batch (t, d) = Some (Some i, t1, d1)"
    "sys_inv (t1, d1) q1 {i} (task_disk_async_pending t)" "same_requester t t1" "i < QUEUE"
    "disk_view (t1, d1) q1 = disk_view (t, d) q" by blast
  let ?t = "(put_batch i ((task_disk_batches t1 i)\<lparr>tb_count := 0\<rparr>) t1)\<lparr>task_disk_pending_write := Some i\<rparr>"
  have fresh: "i \<notin> set q1" using c(2) by (auto simp: sys_inv_def queue_inv_def)
  have sq: "sequences ?t q1 = sequences t1 q1" by (rule sequences_cong) (use fresh in auto)
  have dr: "drain ?t q1 m = drain t1 q1 m" for m by (rule drain_cong) (use fresh in auto)
  have "sys_inv (?t, d1) q1 {i} (task_disk_async_pending t)"
    using c(2) fresh unfolding sys_inv_def queue_inv_def fst_conv snd_conv sq by auto
  then have "write_inv (?t, d1) q1"
    using inv c(3) by (simp add: write_inv_def same_requester_def batch_ok_def luna_consts)
  moreover have "disk_view (?t, d1) q1 = disk_view (t, d) q"
    using c(3,5) None dr by (simp add: disk_view_def same_requester_def apply_batch_def)
  moreover have "ensure_pending (t, d) = Some (Some i, ?t, d1)" using None c(1) by (simp add: ensure_pending_def)
  ultimately show ?thesis using c(3)
    by (intro exI [of _ i] exI [of _ ?t] exI [of _ d1] exI [of _ q1]) (simp add: same_requester_def)
qed

lemma put_chunk_ok:
  assumes inv: "write_inv (t, d) q" and pend: "task_disk_pending_write t = Some i"
    and chunk: "0 < chunk" "chunk \<le> LUNA_DISK_BATCH_SLOT_SIZE" "offset + chunk \<le> task_disk_size t"
    and t'_def: "t' = put_chunk i offset source iov_offset chunk t"
  shows "\<exists>q'. write_inv (t', d) q' \<and> task_disk_size t' = task_disk_size t \<and>
    (\<forall>j. task_disk_pending_write t' = Some j \<longrightarrow> 0 < tb_count (task_disk_batches t' j)) \<and>
    disk_view (t', d) q' = memcpy_at (disk_view (t, d) q) offset source iov_offset chunk"
proof -
  let ?b = "task_disk_batches t i" and ?n = "tb_count (task_disk_batches t i)"
  let ?b' = "?b\<lparr>tb_count := ?n + 1, tb_event := (tb_event ?b)(?n := LUNA_ISOLATION_EVENT_DISK_WRITE),
      tb_offset := (tb_offset ?b)(?n := offset), tb_length := (tb_length ?b)(?n := chunk),
      tb_data := (tb_data ?b)(?n := memcpy_at (tb_data ?b ?n) 0 source iov_offset chunk)\<rparr>"
  let ?t1 = "(put_batch i ?b' t)\<lparr>task_disk_copies := task_disk_copies t + 1\<rparr>"
  have si: "sys_inv (t, d) q {i} (task_disk_async_pending t)" and cnt: "?n < LUNA_DISK_BATCH_SLOTS"
    and bok: "batch_ok (task_disk_size t) ?b" and gate: "task_disk_flush_gate_sem t = 1"
    using inv pend by (auto simp: write_inv_def)
  have fresh: "i \<notin> set q" using si by (auto simp: sys_inv_def queue_inv_def)
  have bok': "batch_ok (task_disk_size t) ?b'"
    using bok cnt chunk by (auto simp: batch_ok_def slot_ok_def less_Suc_eq)
  have slot: "apply_slot ?b' ?n m = memcpy_at m offset source iov_offset chunk" for m
  proof -
    have "apply_slot ?b' ?n m = memcpy_at m offset (memcpy_at (tb_data ?b ?n) 0 source iov_offset chunk) 0 chunk"
      by (simp add: apply_slot_def)
    also have "\<dots> = memcpy_at m offset source iov_offset chunk"
      by (rule memcpy_at_cong) (simp add: memcpy_at_def)
    finally show ?thesis .
  qed
  have old: "fold (apply_slot ?b') [0..<?n] m = fold (apply_slot ?b) [0..<?n] m" for m
    by (rule fold_cong) (auto simp: apply_slot_def fun_eq_iff)
  have app: "apply_batch ?b' m = memcpy_at (apply_batch ?b m) offset source iov_offset chunk" for m
    using slot old by (simp add: apply_batch_def)
  have sq: "sequences ?t1 q = sequences t q" by (rule sequences_cong) (use fresh in auto)
  have dr: "drain ?t1 q m = drain t q m" for m by (rule drain_cong) (use fresh in auto)
  have si1: "sys_inv (?t1, d) q {i} (task_disk_async_pending t)"
    using si fresh unfolding sys_inv_def queue_inv_def fst_conv snd_conv sq by auto
  show ?thesis
  proof (cases "?n + 1 = LUNA_DISK_BATCH_SLOTS")
    case False
    then have t': "t' = ?t1" by (simp add: t'_def put_chunk_def Let_def)
    have "write_inv (?t1, d) q" using si1 gate pend cnt bok' False by (simp add: write_inv_def)
    moreover have "disk_view (?t1, d) q = memcpy_at (disk_view (t, d) q) offset source iov_offset chunk"
      using pend dr app by (simp add: disk_view_def)
    ultimately show ?thesis using pend unfolding t' by (intro exI [of _ q]) simp
  next
    case True
    let ?t2 = "?t1\<lparr>task_disk_pending_write := None\<rparr>"
    have t': "t' = task_disk_publish_batch i True ?t2" using True by (simp add: t'_def put_chunk_def Let_def)
    have q2: "queue_inv ?t2 q {i} (task_disk_async_pending t)"
      using si1 by (simp add: sys_inv_def queue_inv_def sequences_def)
    have b2: "i \<in> {i}" "0 < tb_count (task_disk_batches ?t2 i)" "batch_ok (task_disk_size ?t2) (task_disk_batches ?t2 i)"
      using bok' by simp_all
    note pub = publish_ok [OF q2 b2]
    have "write_inv (t', d) (q @ [i])"
      using pub(1) si gate unfolding t' by (simp add: write_inv_def sys_inv_def)
    moreover have "drain ?t2 q m = drain ?t1 q m" for m by (simp add: drain_def)
    then have "disk_view (t', d) (q @ [i]) = memcpy_at (disk_view (t, d) q) offset source iov_offset chunk"
      unfolding t' using pend dr app pub(2) by (simp add: disk_view_def)
    ultimately show ?thesis unfolding t' by (intro exI [of _ "q @ [i]"]) simp
  qed
qed

lemma memcpy_at_append:
  "memcpy_at (memcpy_at m o1 src k c) (o1 + c) src (k + c) r = memcpy_at m o1 src k (c + r)"
  by (auto simp: memcpy_at_def fun_eq_iff)

lemma memcpy_at_0 [simp]: "memcpy_at m o1 src k 0 = m"
  by (auto simp: memcpy_at_def fun_eq_iff)

definition pending_nonempty :: "task_disk \<Rightarrow> bool" where
  "pending_nonempty t \<longleftrightarrow> (\<forall>j. task_disk_pending_write t = Some j \<longrightarrow> 0 < tb_count (task_disk_batches t j))"

text \<open>Between requests: the write invariant, and a pending batch is never empty.\<close>

definition idle_inv :: "disk_sys \<Rightarrow> nat list \<Rightarrow> bool" where
  "idle_inv s q \<longleftrightarrow> write_inv s q \<and> pending_nonempty (fst s)"

lemma queue_iov_ok:
  "idle_inv (t, d) q \<Longrightarrow> iov_offset \<le> len \<Longrightarrow> offset + (len - iov_offset) \<le> task_disk_size t \<Longrightarrow>
   \<exists>t' d' q'. queue_iov source len iov_offset offset (t, d) = Some (Some (offset + (len - iov_offset)), t', d') \<and>
     idle_inv (t', d') q' \<and> task_disk_size t' = task_disk_size t \<and>
     disk_view (t', d') q' = memcpy_at (disk_view (t, d) q) offset source iov_offset (len - iov_offset)"
proof (induction "len - iov_offset" arbitrary: iov_offset offset t d q rule: less_induct)
  case less
  show ?case
  proof (cases "iov_offset < len")
    case False
    then have "len - iov_offset = 0" by simp
    with less.prems(1) show ?thesis
      by (intro exI [of _ t] exI [of _ d] exI [of _ q]) (simp add: queue_iov.simps [of source len])
  next
    case True
    define chunk where "chunk = (if len - iov_offset < LUNA_DISK_BATCH_SLOT_SIZE then len - iov_offset
        else LUNA_DISK_BATCH_SLOT_SIZE)"
    have c: "0 < chunk" "chunk \<le> LUNA_DISK_BATCH_SLOT_SIZE" "chunk \<le> len - iov_offset"
      using True by (auto simp: chunk_def luna_consts)
    from ensure_pending_ok [of t d q] less.prems(1) obtain i t1 d1 q1 where
      e: "ensure_pending (t, d) = Some (Some i, t1, d1)" "write_inv (t1, d1) q1"
      "task_disk_pending_write t1 = Some i" "task_disk_size t1 = task_disk_size t"
      "disk_view (t1, d1) q1 = disk_view (t, d) q" by (auto simp: idle_inv_def)
    let ?t2 = "put_chunk i offset source iov_offset chunk t1"
    have fit: "offset + chunk \<le> task_disk_size t1" using c less.prems(3) e(4) by simp
    from put_chunk_ok [OF e(2,3) c(1,2) fit refl, of source iov_offset] obtain q2 where
      p: "write_inv (?t2, d1) q2" "task_disk_size ?t2 = task_disk_size t1" "pending_nonempty ?t2"
      "disk_view (?t2, d1) q2 = memcpy_at (disk_view (t1, d1) q1) offset source iov_offset chunk"
      by (auto simp: pending_nonempty_def)
    have "len - (iov_offset + chunk) < len - iov_offset" "iov_offset + chunk \<le> len"
      "offset + chunk + (len - (iov_offset + chunk)) \<le> task_disk_size ?t2" "idle_inv (?t2, d1) q2"
      using c True less.prems(3) e(4) p by (auto simp: idle_inv_def)
    from less.hyps [OF this(1,4,2,3)] obtain t3 d3 q3 where
      r: "queue_iov source len (iov_offset + chunk) (offset + chunk) (?t2, d1) =
          Some (Some (offset + chunk + (len - (iov_offset + chunk))), t3, d3)"
      "idle_inv (t3, d3) q3" "task_disk_size t3 = task_disk_size ?t2"
      "disk_view (t3, d3) q3 = memcpy_at (disk_view (?t2, d1) q2) (offset + chunk) source (iov_offset + chunk)
          (len - (iov_offset + chunk))" by blast
    have sum: "offset + chunk + (len - (iov_offset + chunk)) = offset + (len - iov_offset)"
      "chunk + (len - (iov_offset + chunk)) = len - iov_offset" using c by auto
    have "queue_iov source len iov_offset offset (t, d) = Some (Some (offset + (len - iov_offset)), t3, d3)"
      using True e(1) r(1) sum by (simp add: queue_iov.simps [of source len iov_offset] Let_def flip: chunk_def)
    then show ?thesis using r p e(4,5) sum
      by (intro exI [of _ t3] exI [of _ d3] exI [of _ q3]) (simp add: memcpy_at_append)
  qed
qed

text \<open>The reference semantics of a vectored write.\<close>

fun write_vector :: "iov list \<Rightarrow> nat \<Rightarrow> bytes \<Rightarrow> bytes" where
  "write_vector [] offset m = m"
| "write_vector (v # vs) offset m =
     write_vector vs (offset + iov_len v) (memcpy_at m offset (iov_bytes v) 0 (iov_len v))"

lemma queue_iovs_ok:
  "idle_inv (t, d) q \<Longrightarrow> offset + sum_list (map iov_len vs) \<le> task_disk_size t \<Longrightarrow>
   \<exists>t' d' q'. queue_iovs vs offset (t, d) = Some (True, t', d') \<and> idle_inv (t', d') q' \<and>
     task_disk_size t' = task_disk_size t \<and> disk_view (t', d') q' = write_vector vs offset (disk_view (t, d) q)"
proof (induction vs arbitrary: offset t d q)
  case Nil
  then show ?case by (intro exI [of _ t] exI [of _ d] exI [of _ q]) simp
next
  case (Cons v vs)
  from queue_iov_ok [OF Cons.prems(1), of 0 "iov_len v" offset "iov_bytes v"] Cons.prems(2) obtain t1 d1 q1 where
    one: "queue_iov (iov_bytes v) (iov_len v) 0 offset (t, d) = Some (Some (offset + iov_len v), t1, d1)"
    "idle_inv (t1, d1) q1" "task_disk_size t1 = task_disk_size t"
    "disk_view (t1, d1) q1 = memcpy_at (disk_view (t, d) q) offset (iov_bytes v) 0 (iov_len v)" by auto
  from Cons.IH [OF one(2), of "offset + iov_len v"] one(3) Cons.prems(2) obtain t2 d2 q2 where
    "queue_iovs vs (offset + iov_len v) (t1, d1) = Some (True, t2, d2)" "idle_inv (t2, d2) q2"
    "task_disk_size t2 = task_disk_size t1"
    "disk_view (t2, d2) q2 = write_vector vs (offset + iov_len v) (disk_view (t1, d1) q1)" by (auto simp: add.assoc)
  with one show ?case by (intro exI [of _ t2] exI [of _ d2] exI [of _ q2]) simp
qed

section \<open>Flushing\<close>

lemma wait_async_times_ok:
  "sys_inv (t, d) q {} n \<Longrightarrow> task_disk_pending_write t = None \<Longrightarrow>
   \<exists>t' d' q'. wait_async_times n (t, d) = Some (t', d') \<and> sys_inv (t', d') q' {} 0 \<and> same_requester t t' \<and>
     disk_view (t', d') q' = disk_view (t, d) q"
proof (induction n arbitrary: t d q)
  case 0
  then show ?case by (intro exI [of _ t] exI [of _ d] exI [of _ q]) simp
next
  case (Suc n)
  have "task_disk_async_completion_sem t = 0 \<Longrightarrow> q \<noteq> []"
    using Suc.prems(1) by (auto simp: sys_inv_def queue_inv_def)
  from wait_step [OF Suc.prems(1) _ this, of task_disk_async_completion_sem "\<lambda>n t. t\<lparr>task_disk_async_completion_sem := n\<rparr>"] Suc.prems(2)
  obtain t1 d1 q1 where w: "wait_async (t, d) =
      Some (t1\<lparr>task_disk_async_completion_sem := task_disk_async_completion_sem t1 - 1\<rparr>, d1)"
    "0 < task_disk_async_completion_sem t1" "sys_inv (t1, d1) q1 {} (Suc n)" "same_requester t t1"
    "disk_view (t1, d1) q1 = disk_view (t, d) q" by auto
  let ?t = "t1\<lparr>task_disk_async_completion_sem := task_disk_async_completion_sem t1 - 1\<rparr>"
  have "sys_inv (?t, d1) q1 {} n" using w(2,3) by (auto simp: sys_inv_def queue_inv_def sequences_def)
  moreover have "task_disk_pending_write ?t = None" using w(4) Suc.prems(2) by (simp add: same_requester_def)
  ultimately obtain t2 d2 q2 where r: "wait_async_times n (?t, d1) = Some (t2, d2)" "sys_inv (t2, d2) q2 {} 0"
    "same_requester ?t t2" "disk_view (t2, d2) q2 = disk_view (?t, d1) q1" using Suc.IH by blast
  have "disk_view (?t, d1) q1 = disk_view (t1, d1) q1"
    by (simp add: disk_view_def drain_def split: option.split)
  with r w show ?case
    by (intro exI [of _ t2] exI [of _ d2] exI [of _ q2]) (simp add: same_requester_def)
qed

definition drained :: "disk_sys \<Rightarrow> bool" where
  "drained s \<longleftrightarrow> idle_inv s [] \<and> task_disk_pending_write (fst s) = None"

lemma drained_view: "drained s \<Longrightarrow> disk_view s [] = dk_mapping (snd s)"
  by (simp add: drained_def disk_view_def drain_def)

lemma flush_ok:
  assumes inv: "idle_inv (t, d) q"
  shows "\<exists>t' d'. task_disk_flush_writes (t, d) = Some (0, t', d') \<and> drained (t', d') \<and>
    task_disk_size t' = task_disk_size t \<and> dk_mapping d' = disk_view (t, d) q \<and> task_disk_async_pending t' = 0"
proof -
  let ?t0 = "t\<lparr>task_disk_flush_gate_sem := 0\<rparr>"
  let ?t1 = "?t0\<lparr>task_disk_pending_write := None\<rparr>"
  define t2 where "t2 = (case task_disk_pending_write t of
      Some i \<Rightarrow> if tb_count (task_disk_batches ?t1 i) \<noteq> 0 then task_disk_publish_batch i True ?t1 else ?t1
    | None \<Rightarrow> ?t1)"
  have gate: "task_disk_flush_gate_sem t = 1" using inv by (simp add: idle_inv_def write_inv_def)
  then have wait: "wait_gate (t, d) = Some (?t0, d)" by (simp add: sem_wait.simps)
  have si: "sys_inv (t, d) q (set_option (task_disk_pending_write t)) (task_disk_async_pending t)"
    using inv by (simp add: idle_inv_def write_inv_def)
  then have si1: "sys_inv (?t1, d) q (set_option (task_disk_pending_write t)) (task_disk_async_pending t)"
    by (simp add: sys_inv_def queue_inv_def sequences_def)
  have "\<exists>q2. sys_inv (t2, d) q2 {} (task_disk_async_pending t2) \<and> disk_view (t2, d) q2 = disk_view (t, d) q"
  proof (cases "task_disk_pending_write t")
    case None
    then show ?thesis using si1 by (intro exI [of _ q]) (simp add: t2_def disk_view_def drain_def)
  next
    case (Some i)
    have b: "0 < tb_count (task_disk_batches ?t1 i)" "batch_ok (task_disk_size ?t1) (task_disk_batches ?t1 i)"
      "i \<in> set_option (task_disk_pending_write t)"
      using inv Some by (auto simp: idle_inv_def write_inv_def pending_nonempty_def)
    have t2: "t2 = task_disk_publish_batch i True ?t1" using b Some by (simp add: t2_def)
    have "queue_inv ?t1 q (set_option (task_disk_pending_write t)) (task_disk_async_pending t)"
      using si1 by (simp add: sys_inv_def)
    note pub = publish_ok [OF this b(3,1,2)]
    have "sys_inv (t2, d) (q @ [i]) {} (task_disk_async_pending t2)"
      using pub(1) si1 Some unfolding t2 by (simp add: sys_inv_def)
    moreover have "disk_view (t2, d) (q @ [i]) = disk_view (t, d) q"
      unfolding t2 using pub(2) Some by (simp add: disk_view_def) (simp add: drain_def)
    ultimately show ?thesis by blast
  qed
  then obtain q2 where q2: "sys_inv (t2, d) q2 {} (task_disk_async_pending t2)"
    "disk_view (t2, d) q2 = disk_view (t, d) q" by blast
  have t2f: "task_disk_pending_write t2 = None" "task_disk_size t2 = task_disk_size t" "task_disk_flush_gate_sem t2 = 0"
    by (simp_all add: t2_def split: option.split)
  let ?t3 = "t2\<lparr>task_disk_async_pending := 0\<rparr>"
  have "sys_inv (?t3, d) q2 {} (task_disk_async_pending t2)" "task_disk_pending_write ?t3 = None"
    using q2(1) t2f by (simp_all add: sys_inv_def queue_inv_def sequences_def)
  from wait_async_times_ok [OF this] obtain t4 d4 q4 where
    w: "wait_async_times (task_disk_async_pending t2) (?t3, d) = Some (t4, d4)" "sys_inv (t4, d4) q4 {} 0"
    "same_requester ?t3 t4" "disk_view (t4, d4) q4 = disk_view (?t3, d) q2" by blast
  have q4: "q4 = []" using w(2) by (simp add: sys_inv_def queue_inv_def)
  have err: "\<not> task_disk_async_error t4" using w(2) by (simp add: sys_inv_def queue_inv_def)
  let ?t5 = "t4\<lparr>task_disk_flush_gate_sem := task_disk_flush_gate_sem t4 + 1\<rparr>"
  have run: "task_disk_flush_writes (t, d) = Some (0, ?t5, d4)"
    unfolding task_disk_flush_writes_def wait using w(1) err by (simp add: t2_def [symmetric])
  have "drained (?t5, d4)"
    using w(2,3) q4 t2f unfolding drained_def idle_inv_def write_inv_def pending_nonempty_def same_requester_def
    by (simp add: sys_inv_def queue_inv_def)
  moreover have "dk_mapping d4 = disk_view (t, d) q"
    using w(3,4) q2(2) q4 t2f by (simp add: disk_view_def drain_def same_requester_def)
  ultimately show ?thesis using run w(3) t2f
    by (intro exI [of _ ?t5] exI [of _ d4]) (simp add: same_requester_def)
qed

section \<open>Reading\<close>

lemma disk_read_call:
  assumes d: "drained (t, d)" and r: "0 < n" "n \<le> DISK_WINDOW" "offset + n \<le> task_disk_size t"
  shows "\<exists>c d'. disk_call LUNA_ISOLATION_EVENT_DISK_READ (of_nat offset) (of_nat n) (t, d) =
      (0, t\<lparr>task_disk_channel := c\<rparr>, d') \<and> drained (t\<lparr>task_disk_channel := c\<rparr>, d') \<and>
    dk_mapping d' = dk_mapping d \<and> (\<forall>k < n. dk_io_data d' k = dk_mapping d (offset + k))"
proof -
  have ready: "ipc_ready (task_disk_channel t)" and mr: "manager_ready (task_disk_size t) d"
    using d by (auto simp: drained_def idle_inv_def write_inv_def sys_inv_def)
  have u: "unat (of_nat offset :: u64) = offset" "unat (of_nat n :: u64) = n"
    using r mr by (auto simp: manager_ready_def unat_u64)
  define d' where "d' = d\<lparr>dk_io_data := memcpy_at (dk_io_data d) 0 (dk_mapping d) offset n,
       dk_ipc_count := dk_ipc_count d + 1, dk_request_count := dk_request_count d + 1,
       dk_copy_count := dk_copy_count d + 1\<rparr>"
  have good: "\<not> disk_request_bad d offset n"
    using r mr by (auto simp: disk_request_bad_def manager_ready_def)
  have "service_disk_request (event_word LUNA_ISOLATION_EVENT_DISK_READ) (of_nat offset) (of_nat n) (Some d) = (0, Some d')"
    unfolding service_disk_request_def option.case Let_def u if_not_P [OF good] using r(1) by (simp add: d'_def)
  then have tr: "disk_transport [event_word LUNA_ISOLATION_EVENT_DISK_READ, of_nat offset, of_nat n] (Some d) =
      (Message 0 0 [command_word LUNA_COMMAND_DISK_RESULT, word_of_cint 0], Some d')"
    by (simp add: disk_transport_def disk_reply_def)
  have "luna_lkl_task_manager_request disk_transport LUNA_ISOLATION_EVENT_DISK_READ (of_nat offset) (of_nat n)
      (task_disk_channel t) (Some d) = (0, ipc_counted (task_disk_channel t), Some d')"
    by (rule manager_request_reply [where transport = disk_transport, OF ready tr]) (simp add: expected_reply_def)
  then have "disk_call LUNA_ISOLATION_EVENT_DISK_READ (of_nat offset) (of_nat n) (t, d) =
      (0, t\<lparr>task_disk_channel := ipc_counted (task_disk_channel t)\<rparr>, d')" by (simp add: disk_call_def)
  moreover have "drained (t\<lparr>task_disk_channel := ipc_counted (task_disk_channel t)\<rparr>, d')"
    using d by (auto simp: drained_def idle_inv_def write_inv_def sys_inv_def queue_inv_def pending_nonempty_def
        manager_ready_def d'_def)
  moreover have "dk_mapping d' = dk_mapping d" "\<forall>k < n. dk_io_data d' k = dk_mapping d (offset + k)"
    by (simp_all add: d'_def memcpy_at_def)
  ultimately show ?thesis by blast
qed

lemma drained_stats: "drained (t\<lparr>task_disk_ipc := a, task_disk_requests := b, task_disk_copies := c\<rparr>, d) = drained (t, d)"
  by (auto simp: drained_def idle_inv_def write_inv_def sys_inv_def queue_inv_def pending_nonempty_def sequences_def)

lemma read_direct_ok:
  "drained (t, d) \<Longrightarrow> offset + len \<le> task_disk_size t \<Longrightarrow>
   \<exists>t' d'. task_disk_read_direct offset buffer pos len (t, d) =
      (0, memcpy_at buffer pos (dk_mapping d) offset len, t', d') \<and>
     drained (t', d') \<and> task_disk_size t' = task_disk_size t \<and> dk_mapping d' = dk_mapping d"
proof (induction len arbitrary: offset buffer pos t d rule: less_induct)
  case (less len)
  show ?case
  proof (cases "len = 0")
    case True
    then show ?thesis using less.prems by (simp add: task_disk_read_direct.simps)
  next
    case False
    define chunk where "chunk = (if len < DISK_WINDOW then len else DISK_WINDOW)"
    have c: "0 < chunk" "chunk \<le> DISK_WINDOW" "chunk \<le> len" using False by (auto simp: chunk_def luna_consts)
    from disk_read_call [OF less.prems(1) c(1,2), of offset] less.prems(2) c obtain ch d1 where
      r: "disk_call LUNA_ISOLATION_EVENT_DISK_READ (of_nat offset) (of_nat chunk) (t, d) =
        (0, t\<lparr>task_disk_channel := ch\<rparr>, d1)" "drained (t\<lparr>task_disk_channel := ch\<rparr>, d1)"
      "dk_mapping d1 = dk_mapping d" "\<forall>k < chunk. dk_io_data d1 k = dk_mapping d (offset + k)" by auto
    let ?t1 = "t\<lparr>task_disk_channel := ch\<rparr>"
    let ?t2 = "?t1\<lparr>task_disk_ipc := task_disk_ipc t + 1, task_disk_requests := task_disk_requests t + 1,
       task_disk_copies := task_disk_copies t + 1\<rparr>"
    have dr: "drained (?t2, d1)" using r(2) by (simp add: drained_stats)
    have buf: "memcpy_at buffer pos (dk_io_data d1) 0 chunk = memcpy_at buffer pos (dk_mapping d) offset chunk"
      by (rule memcpy_at_cong) (use r(4) in simp)
    have "len - chunk < len" "offset + chunk + (len - chunk) \<le> task_disk_size ?t2" using c less.prems(2) by auto
    from less.IH [OF this(1) dr this(2)] obtain t3 d3 where
      n: "task_disk_read_direct (offset + chunk) (memcpy_at buffer pos (dk_mapping d) offset chunk) (pos + chunk)
        (len - chunk) (?t2, d1) = (0, memcpy_at (memcpy_at buffer pos (dk_mapping d) offset chunk) (pos + chunk)
          (dk_mapping d1) (offset + chunk) (len - chunk), t3, d3)"
      "drained (t3, d3)" "task_disk_size t3 = task_disk_size ?t2" "dk_mapping d3 = dk_mapping d1" by blast
    have "memcpy_at (memcpy_at buffer pos (dk_mapping d) offset chunk) (pos + chunk)
          (dk_mapping d1) (offset + chunk) (len - chunk) = memcpy_at buffer pos (dk_mapping d) offset len"
      using memcpy_at_append [of buffer pos "dk_mapping d" offset chunk "len - chunk"] r(3) c by simp
    with n r(1,3) buf False show ?thesis
      by (simp add: task_disk_read_direct.simps [of offset buffer pos len] Let_def flip: chunk_def)
  qed
qed

section \<open>Synchronous submission\<close>

lemma select_only:
  assumes "i < QUEUE" "batch_state t i = TASK_DISK_BATCH_READY"
    and "\<And>j. j < QUEUE \<Longrightarrow> j \<noteq> i \<Longrightarrow> batch_state t j \<noteq> TASK_DISK_BATCH_READY"
  shows "select_batch t = Some i"
proof -
  note f = select_fold [of t "[0..<QUEUE]" None, folded select_batch_def]
  have "select_batch t \<noteq> None" using f assms(1,2) by auto
  then obtain j where j: "select_batch t = Some j" by blast
  with f have "j < QUEUE" "batch_state t j = TASK_DISK_BATCH_READY" by auto
  with assms(3) j show ?thesis by auto
qed

lemma submit_ok:
  assumes inv: "sys_inv (t, d) [] {i} 0" and gate: "task_disk_flush_gate_sem t = 1"
    and pend: "task_disk_pending_write t = None" "task_disk_async_pending t = 0"
    and b: "0 < tb_count (task_disk_batches t i)" "batch_ok (task_disk_size t) (task_disk_batches t i)"
  shows "\<exists>t' d'. task_disk_submit_batch i (t, d) = Some (0, t', d') \<and> drained (t', d') \<and>
    task_disk_size t' = task_disk_size t \<and> dk_mapping d' = apply_batch (task_disk_batches t i) (dk_mapping d)"
proof -
  have qi: "queue_inv t [] {i} 0" and ch: "ipc_ready (task_disk_channel t)"
    and mr: "manager_ready (task_disk_size t) d" using inv by (auto simp: sys_inv_def)
  have i: "i < QUEUE" using qi by (simp add: queue_inv_def)
  let ?t1 = "task_disk_publish_batch i False t"
  let ?t2 = "?t1\<lparr>task_disk_worker_sem := 0\<rparr>"
  let ?b = "(published i False t)\<lparr>tb_state := TASK_DISK_BATCH_PROCESSING\<rparr>"
  let ?t3 = "put_batch i ?b ?t2"
  have ws: "task_disk_worker_sem ?t1 = 1" using qi by (simp add: queue_inv_def)
  have sel: "select_batch ?t2 = Some i"
    by (rule select_only) (use i qi in \<open>auto simp: queue_inv_def\<close>)
  have bk: "batch_ok (dk_bytes d) ?b" "0 < tb_count ?b"
    using b mr by (simp_all add: batch_ok_def slot_ok_def manager_ready_def published_def)
  obtain t4 d4 where run: "task_disk_process_batch ?b (?t3, d) = (0, ?b, t4, d4)" "strip t4 = strip ?t3"
    "ipc_ready (task_disk_channel t4)" "manager_ready (task_disk_size t) d4"
    "dk_mapping d4 = apply_batch ?b (dk_mapping d)"
    using process_batch_ok [OF bk mr, of ?t3] ch by auto
  note f = strip_eqD [OF run(2)]
  let ?b5 = "?b\<lparr>tb_result := 0, tb_state := TASK_DISK_BATCH_DONE, tb_completion_sem := Suc (tb_completion_sem ?b)\<rparr>"
  let ?t5 = "(put_batch i ?b5 t4)\<lparr>task_disk_completion_signals := task_disk_completion_signals t4 + 1\<rparr>"
  have "task_disk_worker (?t1, d) = Some (?t5, d4)"
    unfolding task_disk_worker_def Let_def prod.case using ws sel run(1) by simp
  moreover have c0: "tb_completion_sem (task_disk_batches t i) = 0" using qi i by (simp add: queue_inv_def)
  ultimately have wait: "wait_completion i (?t1, d) =
      Some (put_batch i (?b5\<lparr>tb_completion_sem := 0\<rparr>) ?t5, d4)"
    by (simp add: sem_wait.simps [of _ _ "(?t1, d)"]) (simp add: sem_wait.simps)
  let ?t6 = "put_batch i (?b5\<lparr>tb_completion_sem := 0\<rparr>) ?t5"
  let ?b7 = "?b5\<lparr>tb_completion_sem := 0, tb_count := 0, tb_state := TASK_DISK_BATCH_FREE\<rparr>"
  let ?t7 = "(put_batch i ?b7 ?t6)\<lparr>task_disk_queue_free_sem := task_disk_queue_free_sem t4 + 1\<rparr>"
  have sub: "task_disk_submit_batch i (t, d) = Some (0, ?t7, d4)"
    unfolding task_disk_submit_batch_def fst_conv snd_conv wait by simp
  have bs: "task_disk_batches ?t7 = (task_disk_batches t)(i := ?b7)" using f(3) by auto
  have card: "Suc (card ({..<QUEUE} - {i})) = card {..<QUEUE}" using i card_Suc_Diff1 [of "{..<QUEUE}" i] by simp
  have "queue_inv ?t7 [] {} 0"
    unfolding queue_inv_def bs using qi i f card c0 by (auto simp: queue_inv_def)
  then have "drained (?t7, d4)"
    using run(3,4) f gate pend by (simp add: drained_def idle_inv_def write_inv_def sys_inv_def pending_nonempty_def)
  moreover have "apply_batch ?b = apply_batch (task_disk_batches t i)"
    by (rule apply_batch_cong) (simp_all add: published_def)
  ultimately show ?thesis using sub run(5) f by (intro exI [of _ ?t7] exI [of _ d4]) auto
qed

section \<open>Requests\<close>

text \<open>A synchronous disk: what a request returns and does to the disk's bytes.\<close>

fun read_vector :: "iov list \<Rightarrow> nat \<Rightarrow> bytes \<Rightarrow> iov list" where
  "read_vector [] offset m = []"
| "read_vector (v # vs) offset m =
     v\<lparr>iov_bytes := memcpy_at (iov_bytes v) 0 m offset (iov_len v)\<rparr> # read_vector vs (offset + iov_len v) m"

definition request_in_range :: "nat \<Rightarrow> lkl_blk_req \<Rightarrow> bool" where
  "request_in_range n r \<longleftrightarrow>
     (\<forall>v \<in> set (rq_iovs r). iov_base v \<noteq> 0) \<and> rq_sector r * 512 + sum_list (map iov_len (rq_iovs r)) \<le> n"

definition disk_spec :: "nat \<Rightarrow> lkl_blk_req \<Rightarrow> bytes \<Rightarrow> blk_status \<times> iov list \<times> bytes" where
  "disk_spec n r m =
     (if rq_count r < 0 then (LKL_DEV_BLK_STATUS_IOERR, rq_iovs r, m)
      else case rq_type r of
        LKL_DEV_BLK_TYPE_FLUSH \<Rightarrow> (LKL_DEV_BLK_STATUS_OK, rq_iovs r, m)
      | LKL_DEV_BLK_TYPE_FLUSH_OUT \<Rightarrow> (LKL_DEV_BLK_STATUS_OK, rq_iovs r, m)
      | LKL_DEV_BLK_TYPE_OTHER k \<Rightarrow> (LKL_DEV_BLK_STATUS_UNSUP, rq_iovs r, m)
      | LKL_DEV_BLK_TYPE_WRITE \<Rightarrow>
          if request_in_range n r
          then (LKL_DEV_BLK_STATUS_OK, rq_iovs r, write_vector (rq_iovs r) (rq_sector r * 512) m)
          else (LKL_DEV_BLK_STATUS_IOERR, rq_iovs r, m)
      | LKL_DEV_BLK_TYPE_READ \<Rightarrow>
          if request_in_range n r
          then (LKL_DEV_BLK_STATUS_OK, read_vector (rq_iovs r) (rq_sector r * 512) m, m)
          else (LKL_DEV_BLK_STATUS_IOERR, rq_iovs r, m))"

lemma iov_total_eq:
  "a \<le> n \<Longrightarrow> iov_total n a vs =
     (if (\<forall>v \<in> set vs. iov_base v \<noteq> 0) \<and> a + sum_list (map iov_len vs) \<le> n
      then Some (a + sum_list (map iov_len vs)) else None)"
proof (induction vs arbitrary: a)
  case (Cons v vs)
  then show ?case by (cases "iov_len v > n - a") (auto simp: add.assoc)
qed simp

lemma read_iovs_ok:
  "drained (t, d) \<Longrightarrow> offset + sum_list (map iov_len vs) \<le> task_disk_size t \<Longrightarrow>
   \<exists>t' d'. read_iovs vs offset (t, d) = (True, read_vector vs offset (dk_mapping d), t', d') \<and>
     drained (t', d') \<and> task_disk_size t' = task_disk_size t \<and> dk_mapping d' = dk_mapping d"
proof (induction vs arbitrary: offset t d)
  case (Cons v vs)
  from read_direct_ok [OF Cons.prems(1), of offset "iov_len v" "iov_bytes v" 0] Cons.prems(2) obtain t1 d1 where
    one: "task_disk_read_direct offset (iov_bytes v) 0 (iov_len v) (t, d) =
      (0, memcpy_at (iov_bytes v) 0 (dk_mapping d) offset (iov_len v), t1, d1)"
    "drained (t1, d1)" "task_disk_size t1 = task_disk_size t" "dk_mapping d1 = dk_mapping d" by auto
  from Cons.IH [OF one(2), of "offset + iov_len v"] Cons.prems(2) one(3) obtain t2 d2 where
    "read_iovs vs (offset + iov_len v) (t1, d1) =
      (True, read_vector vs (offset + iov_len v) (dk_mapping d1), t2, d2)" "drained (t2, d2)"
    "task_disk_size t2 = task_disk_size t1" "dk_mapping d2 = dk_mapping d1" by (auto simp: add.assoc)
  with one show ?case by simp
qed simp

lemma drained_idle: "drained s \<Longrightarrow> idle_inv s [] \<and> disk_view s [] = dk_mapping (snd s)"
  using drained_view by (auto simp: drained_def)

lemma flush_request_ok:
  assumes "idle_inv (t, d) q" "rq_type r = LKL_DEV_BLK_TYPE_FLUSH \<or> rq_type r = LKL_DEV_BLK_TYPE_FLUSH_OUT" "0 \<le> rq_count r"
  shows "\<exists>t' d'. task_disk_request (Some r) (t, d) = Some (LKL_DEV_BLK_STATUS_OK, rq_iovs r, t', d') \<and>
    drained (t', d') \<and> task_disk_size t' = task_disk_size t \<and> dk_mapping d' = disk_view (t, d) q"
proof -
  have io: "task_disk_io t" using assms(1) by (simp add: idle_inv_def write_inv_def sys_inv_def queue_inv_def)
  from flush_ok [OF assms(1)] obtain t1 d1 where f: "task_disk_flush_writes (t, d) = Some (0, t1, d1)"
    "drained (t1, d1)" "task_disk_size t1 = task_disk_size t" "dk_mapping d1 = disk_view (t, d) q"
    and zero: "task_disk_async_pending t1 = 0" by blast
  have p1: "task_disk_pending_write t1 = None" "sys_inv (t1, d1) [] {} (task_disk_async_pending t1)"
    "task_disk_async_completion_sem t1 = task_disk_async_pending t1" "task_disk_flush_gate_sem t1 = 1"
    using f(2) by (auto simp: drained_def idle_inv_def write_inv_def sys_inv_def queue_inv_def)
  from claim_ok [OF p1(2,1)] zero obtain i t2 d2 q2 where c: "task_disk_claim_batch (t1, d1) = Some (Some i, t2, d2)"
    "sys_inv (t2, d2) q2 {i} 0" "same_requester t1 t2" "i < QUEUE" "disk_view (t2, d2) q2 = disk_view (t1, d1) []" by auto
  have q2: "q2 = []" using c(2) by (simp add: sys_inv_def queue_inv_def)
  let ?b = "(task_disk_batches t2 i)\<lparr>tb_count := 1,
      tb_event := (tb_event (task_disk_batches t2 i))(0 := LUNA_ISOLATION_EVENT_DISK_FLUSH),
      tb_offset := (tb_offset (task_disk_batches t2 i))(0 := 0),
      tb_length := (tb_length (task_disk_batches t2 i))(0 := 0)\<rparr>"
  let ?t3 = "put_batch i ?b t2"
  have si: "sys_inv (?t3, d2) [] {i} 0" using c(2) q2 by (auto simp: sys_inv_def queue_inv_def)
  have flds: "task_disk_flush_gate_sem ?t3 = 1" "task_disk_pending_write ?t3 = None" "task_disk_async_pending ?t3 = 0"
    using c(3) p1 zero by (simp_all add: same_requester_def)
  have bk: "0 < tb_count (task_disk_batches ?t3 i)" "batch_ok (task_disk_size ?t3) (task_disk_batches ?t3 i)"
    by (simp_all add: batch_ok_def slot_ok_def luna_consts)
  from submit_ok [OF si flds bk] obtain t4 d4 where s: "task_disk_submit_batch i (?t3, d2) = Some (0, t4, d4)"
    "drained (t4, d4)" "task_disk_size t4 = task_disk_size ?t3"
    "dk_mapping d4 = apply_batch (task_disk_batches ?t3 i) (dk_mapping d2)" by blast
  have "dk_mapping d4 = dk_mapping d2" using s(4) by (simp add: apply_batch_def apply_slot_def)
  also have "\<dots> = disk_view (t, d) q"
    using c(3,5) q2 p1(1) f(4) by (simp add: disk_view_def drain_def same_requester_def)
  finally have map: "dk_mapping d4 = disk_view (t, d) q" .
  have run: "task_disk_request (Some r) (t, d) = Some (LKL_DEV_BLK_STATUS_OK, rq_iovs r, t4, d4)"
    using assms(2,3) io f(1) c(1) s(1) by (auto simp: task_disk_request_def)
  show ?thesis using run s map c(3) f(3) by (intro exI [of _ t4] exI [of _ d4]) (simp add: same_requester_def)
qed

lemma request_guards:
  assumes io: "task_disk_io t" and r: "0 \<le> rq_count r"
    "rq_type r = LKL_DEV_BLK_TYPE_READ \<or> rq_type r = LKL_DEV_BLK_TYPE_WRITE"
  shows "\<not> request_in_range (task_disk_size t) r \<Longrightarrow>
      task_disk_request (Some r) (t, d) = Some (LKL_DEV_BLK_STATUS_IOERR, rq_iovs r, t, d)"
    and "request_in_range (task_disk_size t) r \<Longrightarrow> rq_type r = LKL_DEV_BLK_TYPE_WRITE \<Longrightarrow>
      task_disk_request (Some r) (t, d) = do {
        (e, s) \<leftarrow> task_disk_queue_write (rq_iovs r) (rq_sector r * 512) (t, d);
        Some (if e \<noteq> 0 then LKL_DEV_BLK_STATUS_IOERR else LKL_DEV_BLK_STATUS_OK, rq_iovs r, s) }"
    and "request_in_range (task_disk_size t) r \<Longrightarrow> rq_type r = LKL_DEV_BLK_TYPE_READ \<Longrightarrow>
      task_disk_request (Some r) (t, d) = do {
        (e, s) \<leftarrow> task_disk_flush_writes (t, d);
        if e \<noteq> 0 then Some (LKL_DEV_BLK_STATUS_IOERR, rq_iovs r, s)
        else let (ok, vs, s) = read_iovs (rq_iovs r) (rq_sector r * 512) s
             in Some (if ok then LKL_DEV_BLK_STATUS_OK else LKL_DEV_BLK_STATUS_IOERR, vs, s) }"
proof -
  let ?n = "task_disk_size t" and ?T = "sum_list (map iov_len (rq_iovs r))"
  have sec: "rq_sector r \<le> ?n div 512 \<longleftrightarrow> rq_sector r * 512 \<le> ?n"
    by (simp add: less_eq_div_iff_mult_less_eq)
  show "task_disk_request (Some r) (t, d) = Some (LKL_DEV_BLK_STATUS_IOERR, rq_iovs r, t, d)"
    if "\<not> request_in_range ?n r"
    using that io r sec unfolding task_disk_request_def option.case fst_conv Let_def iov_total_eq [OF le0] request_in_range_def
    by (auto simp: not_less)
  have in_range: "rq_sector r \<le> ?n div 512" "rq_sector r * 512 \<le> ?n" "?T \<le> ?n - rq_sector r * 512"
    "iov_total ?n 0 (rq_iovs r) = Some ?T" if "request_in_range ?n r"
    using that sec unfolding request_in_range_def iov_total_eq [OF le0] by auto
  show "task_disk_request (Some r) (t, d) = do {
        (e, s) \<leftarrow> task_disk_queue_write (rq_iovs r) (rq_sector r * 512) (t, d);
        Some (if e \<noteq> 0 then LKL_DEV_BLK_STATUS_IOERR else LKL_DEV_BLK_STATUS_OK, rq_iovs r, s) }"
    if "request_in_range ?n r" "rq_type r = LKL_DEV_BLK_TYPE_WRITE"
    using that(2) io r in_range [OF that(1)] by (simp add: task_disk_request_def)
  show "task_disk_request (Some r) (t, d) = do {
        (e, s) \<leftarrow> task_disk_flush_writes (t, d);
        if e \<noteq> 0 then Some (LKL_DEV_BLK_STATUS_IOERR, rq_iovs r, s)
        else let (ok, vs, s) = read_iovs (rq_iovs r) (rq_sector r * 512) s
             in Some (if ok then LKL_DEV_BLK_STATUS_OK else LKL_DEV_BLK_STATUS_IOERR, vs, s) }"
    if "request_in_range ?n r" "rq_type r = LKL_DEV_BLK_TYPE_READ"
    using that(2) io r in_range [OF that(1)] by (simp add: task_disk_request_def)
qed

lemma request_refines:
  assumes inv: "idle_inv (t, d) q"
  shows "\<exists>status vs s' q'. task_disk_request (Some r) (t, d) = Some (status, vs, s') \<and> idle_inv s' q' \<and>
    task_disk_size (fst s') = task_disk_size t \<and>
    disk_spec (task_disk_size t) r (disk_view (t, d) q) = (status, vs, disk_view s' q') \<and>
    (status = LKL_DEV_BLK_STATUS_OK \<and> rq_type r \<noteq> LKL_DEV_BLK_TYPE_WRITE \<longrightarrow>
       dk_mapping (snd s') = disk_view s' q')"
proof -
  have io: "task_disk_io t" and err: "\<not> task_disk_async_error t"
    using inv by (auto simp: idle_inv_def write_inv_def sys_inv_def queue_inv_def)
  have same: ?thesis if "task_disk_request (Some r) (t, d) = Some (st, rq_iovs r, t, d)"
    "disk_spec (task_disk_size t) r (disk_view (t, d) q) = (st, rq_iovs r, disk_view (t, d) q)"
    "st \<noteq> LKL_DEV_BLK_STATUS_OK" for st
    using that inv by (intro exI [of _ st] exI [of _ "rq_iovs r"] exI [of _ "(t, d)"] exI [of _ q]) simp
  consider (neg) "rq_count r < 0" | (flush) "0 \<le> rq_count r" "rq_type r = LKL_DEV_BLK_TYPE_FLUSH \<or> rq_type r = LKL_DEV_BLK_TYPE_FLUSH_OUT"
    | (unknown) k where "0 \<le> rq_count r" "rq_type r = LKL_DEV_BLK_TYPE_OTHER k"
    | (bad) "0 \<le> rq_count r" "rq_type r = LKL_DEV_BLK_TYPE_READ \<or> rq_type r = LKL_DEV_BLK_TYPE_WRITE"
        "\<not> request_in_range (task_disk_size t) r"
    | (writing) "0 \<le> rq_count r" "rq_type r = LKL_DEV_BLK_TYPE_WRITE" "request_in_range (task_disk_size t) r"
    | (reading) "0 \<le> rq_count r" "rq_type r = LKL_DEV_BLK_TYPE_READ" "request_in_range (task_disk_size t) r"
    by (cases "rq_type r") (auto simp: not_less [symmetric])
  then show ?thesis
  proof cases
    case neg
    then show ?thesis by (intro same [of LKL_DEV_BLK_STATUS_IOERR]) (simp_all add: task_disk_request_def disk_spec_def)
  next
    case flush
    from flush_request_ok [OF inv flush(2,1)] obtain t' d' where
      f: "task_disk_request (Some r) (t, d) = Some (LKL_DEV_BLK_STATUS_OK, rq_iovs r, t', d')"
      "drained (t', d')" "task_disk_size t' = task_disk_size t" "dk_mapping d' = disk_view (t, d) q" by blast
    with flush drained_idle [OF f(2)] show ?thesis
      by (intro exI [of _ LKL_DEV_BLK_STATUS_OK] exI [of _ "rq_iovs r"] exI [of _ "(t', d')"] exI [of _ "[]"])
        (auto simp: disk_spec_def)
  next
    case unknown
    then show ?thesis
      using io by (intro same [of LKL_DEV_BLK_STATUS_UNSUP]) (simp_all add: task_disk_request_def disk_spec_def)
  next
    case bad
    then show ?thesis
      using request_guards(1) [OF io bad(1,2,3)]
      by (intro same [of LKL_DEV_BLK_STATUS_IOERR]) (auto simp: disk_spec_def)
  next
    case writing
    have fit: "rq_sector r * 512 + sum_list (map iov_len (rq_iovs r)) \<le> task_disk_size t"
      using writing(3) by (simp add: request_in_range_def)
    from queue_iovs_ok [OF inv fit] obtain t' d' q' where
      w: "queue_iovs (rq_iovs r) (rq_sector r * 512) (t, d) = Some (True, t', d')" "idle_inv (t', d') q'"
      "task_disk_size t' = task_disk_size t"
      "disk_view (t', d') q' = write_vector (rq_iovs r) (rq_sector r * 512) (disk_view (t, d) q)" by blast
    have "\<not> task_disk_async_error t'" using w(2) by (simp add: idle_inv_def write_inv_def sys_inv_def queue_inv_def)
    then have "task_disk_request (Some r) (t, d) = Some (LKL_DEV_BLK_STATUS_OK, rq_iovs r, t', d')"
      using request_guards(2) [OF io writing(1) disjI2 [OF writing(2)] writing(3,2), of d] w(1)
      by (simp add: task_disk_queue_write_def)
    with w writing show ?thesis
      by (intro exI [of _ LKL_DEV_BLK_STATUS_OK] exI [of _ "rq_iovs r"] exI [of _ "(t', d')"] exI [of _ q'])
        (simp add: disk_spec_def)
  next
    case reading
    have fit: "rq_sector r * 512 + sum_list (map iov_len (rq_iovs r)) \<le> task_disk_size t"
      using reading(3) by (simp add: request_in_range_def)
    from flush_ok [OF inv] obtain t1 d1 where f: "task_disk_flush_writes (t, d) = Some (0, t1, d1)"
      "drained (t1, d1)" "task_disk_size t1 = task_disk_size t" "dk_mapping d1 = disk_view (t, d) q" by blast
    from read_iovs_ok [OF f(2), of "rq_sector r * 512" "rq_iovs r"] fit f(3) obtain t2 d2 where
      r: "read_iovs (rq_iovs r) (rq_sector r * 512) (t1, d1) =
        (True, read_vector (rq_iovs r) (rq_sector r * 512) (dk_mapping d1), t2, d2)"
      "drained (t2, d2)" "task_disk_size t2 = task_disk_size t1" "dk_mapping d2 = dk_mapping d1" by auto
    have "task_disk_request (Some r) (t, d) =
        Some (LKL_DEV_BLK_STATUS_OK, read_vector (rq_iovs r) (rq_sector r * 512) (dk_mapping d1), t2, d2)"
      using request_guards(3) [OF io reading(1) disjI1 [OF reading(2)] reading(3,2), of d] f(1) r(1) by simp
    with r f reading drained_idle [OF r(2)] show ?thesis
      by (intro exI [of _ LKL_DEV_BLK_STATUS_OK] exI [of _ "read_vector (rq_iovs r) (rq_sector r * 512) (dk_mapping d1)"]
          exI [of _ "(t2, d2)"] exI [of _ "[]"]) (simp add: disk_spec_def)
  qed
qed

section \<open>Properties\<close>

text \<open>The states of the configured disk: any requests, and any passes of the worker in between.\<close>

inductive disk_reachable :: "disk_sys \<Rightarrow> bool" where
  disk_start: "luna_lkl_task_configure_disk io_base io_size disk_size c = Some t \<Longrightarrow> ipc_ready c \<Longrightarrow>
    manager_ready disk_size d \<Longrightarrow> disk_reachable (task_disk_sems t, d)"
| disk_request: "disk_reachable s \<Longrightarrow> task_disk_request r s = Some (status, vs, s') \<Longrightarrow> disk_reachable s'"
| disk_worker: "disk_reachable s \<Longrightarrow> task_disk_worker s = Some s' \<Longrightarrow> disk_reachable s'"

lemma worker_idle:
  assumes inv: "idle_inv s q" and step: "task_disk_worker s = Some s'"
  shows "\<exists>q'. idle_inv s' q' \<and> disk_view s' q' = disk_view s q \<and> task_disk_size (fst s') = task_disk_size (fst s)"
proof -
  obtain t d where s: "s = (t, d)" by force
  have si: "sys_inv (t, d) q (set_option (task_disk_pending_write t)) (task_disk_async_pending t)"
    using inv s by (simp add: idle_inv_def write_inv_def)
  have "task_disk_worker_sem t = 0 \<Longrightarrow> task_disk_worker (t, d) = None" by (simp add: task_disk_worker_def)
  with step s have "task_disk_worker_sem t \<noteq> 0" by auto
  then obtain i q' where q: "q = i # q'" using si by (cases q) (auto simp: sys_inv_def queue_inv_def)
  from worker_step [OF si [unfolded q]] step s obtain t' d' where w: "s' = (t', d')"
    "sys_inv (t', d') q' (set_option (task_disk_pending_write t)) (task_disk_async_pending t)"
    "same_requester t t'" "dk_mapping d' = apply_batch (task_disk_batches t i) (dk_mapping d)"
    "\<forall>j. j \<noteq> i \<longrightarrow> task_disk_batches t' j = task_disk_batches t j" by auto
  have ne: "j \<noteq> i" if "task_disk_pending_write t = Some j" for j
    using si q that by (auto simp: sys_inv_def queue_inv_def)
  have "idle_inv s' q'"
    using inv w ne unfolding s idle_inv_def write_inv_def pending_nonempty_def same_requester_def by auto
  moreover have "disk_view (t', d') q' = disk_view (t, d) q"
    unfolding q by (rule worker_view [OF si [unfolded q] order_refl w(3,4,5)])
  ultimately show ?thesis using w s by (auto simp: same_requester_def)
qed

lemma disk_reachable_idle: "disk_reachable s \<Longrightarrow> \<exists>q. idle_inv s q"
proof (induction rule: disk_reachable.induct)
  case (disk_start io_base io_size disk_size c t d)
  then have "idle_inv (task_disk_sems t, d) []"
    by (auto simp: luna_lkl_task_configure_disk_def task_disk_sems_def idle_inv_def write_inv_def sys_inv_def
        queue_inv_def pending_nonempty_def free_batch_def split: if_splits)
  then show ?case by blast
next
  case (disk_request s r status vs s')
  then show ?case
  proof (cases r)
    case None
    with disk_request show ?thesis by (auto simp: task_disk_request_def)
  next
    case (Some a)
    from disk_request obtain q where "idle_inv (fst s, snd s) q" by auto
    from request_refines [OF this, of a] disk_request(2) Some show ?thesis by auto
  qed
next
  case (disk_worker s s')
  then show ?case using worker_idle by blast
qed

text \<open>
  C1: The disk refines a synchronous disk. In every reachable state there is an abstract disk
  content such that every request returns (no request blocks for ever), with the status and the
  buffers of the reference \<open>disk_spec\<close>, leads to a state whose abstract content is the reference's,
  and passes of the worker in between never change it; after a read or a flush the manager's own
  disk holds the abstract content. In particular a read sees every write issued before it.
\<close>

theorem disk_refines_spec:
  assumes "disk_reachable s"
  shows "\<exists>q. idle_inv s q \<and>
    (\<forall>r. \<exists>status vs s' q'. task_disk_request (Some r) s = Some (status, vs, s') \<and> idle_inv s' q' \<and>
       disk_spec (task_disk_size (fst s)) r (disk_view s q) = (status, vs, disk_view s' q') \<and>
       (status = LKL_DEV_BLK_STATUS_OK \<and> rq_type r \<noteq> LKL_DEV_BLK_TYPE_WRITE \<longrightarrow>
          dk_mapping (snd s') = disk_view s' q')) \<and>
    (\<forall>s'. task_disk_worker s = Some s' \<longrightarrow> (\<exists>q'. idle_inv s' q' \<and> disk_view s' q' = disk_view s q))"
proof -
  obtain q where q: "idle_inv s q" using disk_reachable_idle [OF assms] by blast
  then have "idle_inv (fst s, snd s) q" by simp
  from request_refines [OF this] worker_idle [OF q] q show ?thesis by (intro exI [of _ q]) (simp, blast)
qed

text \<open>An instance: the configured disk over zeroed storage, and a three-byte write to sector 1.\<close>

definition sample_disk :: luna_persistent_disk where
  "sample_disk = \<lparr>dk_mapping = (\<lambda>_. 0), dk_bytes = LUNA_PERSISTENT_DISK_SIZE, dk_allocated = True,
     dk_io_header = \<lparr>dh_count = 0, dh_completed = 0,
       dh_descriptors = (\<lambda>_. \<lparr>dd_event = 0, dd_offset = 0, dd_length = 0, dd_status = 0\<rparr>)\<rparr>,
     dk_io_data = (\<lambda>_. 0), dk_io_allocated = True, dk_ipc_count = 0, dk_batch_count = 0,
     dk_request_count = 0, dk_copy_count = 0, dk_queue_high_water = 0\<rparr>"

definition sample_task_disk :: task_disk where
  "sample_task_disk = task_disk_sems (the (luna_lkl_task_configure_disk LUNA_DISK_IO_BASE LUNA_DISK_IO_SIZE
     LUNA_PERSISTENT_DISK_SIZE \<lparr>task_manager_control_ep = 1, task_manager_command_ep = 2, task_manager_ipc_count = 0\<rparr>))"

definition sample_write :: lkl_blk_req where
  "sample_write = \<lparr>rq_type = LKL_DEV_BLK_TYPE_WRITE, rq_sector = 1, rq_count = 1,
     rq_buf = (\<lambda>_. \<lparr>iov_base = 0x5000, iov_len = 3, iov_bytes = (\<lambda>_. 7)\<rparr>)\<rparr>"

lemma sample_disk_reachable: "disk_reachable (sample_task_disk, sample_disk)"
  unfolding sample_task_disk_def
  by (rule disk_start [of LUNA_DISK_IO_BASE LUNA_DISK_IO_SIZE LUNA_PERSISTENT_DISK_SIZE
        "\<lparr>task_manager_control_ep = 1, task_manager_command_ep = 2, task_manager_ipc_count = 0\<rparr>"])
    (simp_all add: luna_lkl_task_configure_disk_def luna_consts ipc_ready_def manager_ready_def sample_disk_def)

theorem disk_refines_spec_witness:
  "\<exists>vs s'. task_disk_request (Some sample_write) (sample_task_disk, sample_disk) =
     Some (LKL_DEV_BLK_STATUS_OK, vs, s')"
proof -
  have "task_disk_size sample_task_disk = LUNA_PERSISTENT_DISK_SIZE"
    by (simp add: sample_task_disk_def task_disk_sems_def luna_lkl_task_configure_disk_def luna_consts)
  then have "fst (disk_spec (task_disk_size sample_task_disk) sample_write m) = LKL_DEV_BLK_STATUS_OK" for m
    by (simp add: disk_spec_def sample_write_def request_in_range_def luna_consts)
  with disk_refines_spec [OF sample_disk_reachable] show ?thesis by (metis fst_conv)
qed

end
