(* ===== verification/Timer_Manager.thy ===== *)
theory Timer_Manager
  imports Task_Ipc
begin

text \<open>
  The manager's one-shot timer (\<open>isolation_timer.c\<close>): one programmable interval timer shared by
  the child's timer and the network retry deadline. Every public operation runs under the timer
  lock and is one function; the readings of the time-stamp counter it makes are arguments. The
  PIT driver is third-party code: its two calls and limits are the record \<open>pit_ops\<close> over the
  driver's state.
\<close>

record 'p pit_ops =
  pit_set_timeout :: "u64 \<Rightarrow> 'p \<Rightarrow> c_int \<times> 'p"
  pit_cancel_timeout :: "'p \<Rightarrow> c_int \<times> 'p"
  PIT_MIN_NS :: u64
  PIT_MAX_NS :: u64

record 'p luna_timer_state =
  tm_pit :: 'p
  tm_ready :: bool
  tm_armed :: bool
  tm_child_ntfn :: cptr
  tm_generation :: u64
  tm_deadline_cycles :: u64
  tm_network_armed :: bool
  tm_network_ntfn :: cptr
  tm_network_deadline_cycles :: u64
  tm_tsc_frequency :: u64
  tm_arm_count :: u64
  tm_cancel_count :: u64
  tm_interrupt_count :: u64
  tm_wake_count :: u64
  tm_rearm_count :: u64
  tm_network_arm_count :: u64
  tm_network_cancel_count :: u64
  tm_network_wake_count :: u64
  tm_hw :: "u64 option" \<comment> \<open>ghost: the timeout last accepted by the PIT and not yet fired\<close>

definition NS_PER_S :: u64 where [luna_consts]: "NS_PER_S = 1000000000"

definition ns_to_cycles :: "u64 \<Rightarrow> u64 \<Rightarrow> u64" where
  "ns_to_cycles frequency ns =
     (let seconds = ns div NS_PER_S; remainder = ns mod NS_PER_S
      in seconds * frequency + (remainder * frequency + 999999999) div NS_PER_S)"

definition cycles_to_ns :: "u64 \<Rightarrow> u64 \<Rightarrow> u64" where
  "cycles_to_ns frequency cycles =
     (let seconds = cycles div frequency; remainder = cycles mod frequency
      in seconds * NS_PER_S + (remainder * NS_PER_S) div frequency)"

definition next_deadline :: "'p luna_timer_state \<Rightarrow> u64" where
  "next_deadline s =
     (let deadline = (if tm_armed s then tm_deadline_cycles s else 0)
      in if tm_network_armed s \<and> (deadline = 0 \<or> tm_network_deadline_cycles s < deadline)
         then tm_network_deadline_cycles s else deadline)"

definition clamp_ns :: "'p pit_ops \<Rightarrow> u64 \<Rightarrow> u64" where
  "clamp_ns P ns = (let ns = (if ns < PIT_MIN_NS P then PIT_MIN_NS P else ns)
                    in if ns > PIT_MAX_NS P then PIT_MAX_NS P else ns)"

definition program_next :: "'p pit_ops \<Rightarrow> u64 \<Rightarrow> 'p luna_timer_state \<Rightarrow> c_int \<times> 'p luna_timer_state" where
  "program_next P now s =
     (let deadline = next_deadline s in
      if deadline = 0
      then let (e, p) = pit_cancel_timeout P (tm_pit s)
           in (e, s\<lparr>tm_pit := p, tm_hw := (if e = 0 then None else tm_hw s)\<rparr>)
      else let remaining_cycles = (if deadline > now then deadline - now else 0);
               remaining_ns = clamp_ns P (cycles_to_ns (tm_tsc_frequency s) remaining_cycles);
               (e, p) = pit_set_timeout P remaining_ns (tm_pit s)
           in (e, s\<lparr>tm_pit := p, tm_hw := (if e = 0 then Some remaining_ns else tm_hw s)\<rparr>))"

text \<open>The interrupt handler; \<open>now1\<close> is read only if the child's timer is armed. The third
  component lists the notifications signalled.\<close>

definition expire_child :: "u64 \<Rightarrow> 'p luna_timer_state \<Rightarrow> cptr \<times> 'p luna_timer_state" where
  "expire_child now1 s =
     (if tm_armed s \<and> now1 \<ge> tm_deadline_cycles s then (tm_child_ntfn s, s\<lparr>tm_armed := False\<rparr>) else (0, s))"

definition expire_network :: "u64 \<Rightarrow> 'p luna_timer_state \<Rightarrow> cptr \<times> 'p luna_timer_state" where
  "expire_network now s =
     (if tm_network_armed s \<and> now \<ge> tm_network_deadline_cycles s
      then (tm_network_ntfn s, s\<lparr>tm_network_armed := False\<rparr>) else (0, s))"

definition rearm :: "'p pit_ops \<Rightarrow> u64 \<Rightarrow> 'p luna_timer_state \<Rightarrow> 'p luna_timer_state" where
  "rearm P now s =
     (if tm_armed s \<or> tm_network_armed s
      then let (e, s) = program_next P now s
           in if e = 0 then s\<lparr>tm_rearm_count := tm_rearm_count s + 1\<rparr>
              else s\<lparr>tm_armed := False, tm_network_armed := False\<rparr>
      else s)"

definition handle_timer_irq ::
  "'p pit_ops \<Rightarrow> u64 \<Rightarrow> u64 \<Rightarrow> 'p luna_timer_state \<Rightarrow> cptr list \<times> 'p luna_timer_state" where
  "handle_timer_irq P now1 now s =
     (let s = s\<lparr>tm_interrupt_count := tm_interrupt_count s + 1, tm_hw := None\<rparr>;
          (child_ntfn, s) = expire_child now1 s;
          (network_ntfn, s) = expire_network now s;
          s = rearm P now s;
          s = (if child_ntfn \<noteq> 0 then s\<lparr>tm_wake_count := tm_wake_count s + 1\<rparr> else s);
          s = (if network_ntfn \<noteq> 0 then s\<lparr>tm_network_wake_count := tm_network_wake_count s + 1\<rparr> else s)
      in ((if child_ntfn \<noteq> 0 then [child_ntfn] else []) @ (if network_ntfn \<noteq> 0 then [network_ntfn] else []), s))"

definition luna_timer_manager_deactivate :: "'p pit_ops \<Rightarrow> 'p luna_timer_state \<Rightarrow> 'p luna_timer_state" where
  "luna_timer_manager_deactivate P s =
     (if \<not> tm_ready s then s
      else let s = s\<lparr>tm_armed := False, tm_child_ntfn := 0, tm_generation := 0, tm_deadline_cycles := 0,
                     tm_network_armed := False, tm_network_ntfn := 0, tm_network_deadline_cycles := 0\<rparr>;
               (e, p) = pit_cancel_timeout P (tm_pit s)
           in s\<lparr>tm_pit := p, tm_hw := (if e = 0 then None else tm_hw s)\<rparr>)"

definition timer_arm ::
  "'p pit_ops \<Rightarrow> u64 \<Rightarrow> u64 \<Rightarrow> cptr \<Rightarrow> u64 \<Rightarrow> u64 \<Rightarrow> 'p luna_timer_state \<Rightarrow> c_int \<times> 'p luna_timer_state" where
  "timer_arm P tsc tsc' child_ntfn generation timeout_ns s =
     (let cycles = ns_to_cycles (tm_tsc_frequency s) timeout_ns;
          cycles = (if cycles = 0 then 1 else cycles);
          s = s\<lparr>tm_child_ntfn := child_ntfn, tm_generation := generation,
                tm_deadline_cycles := tsc + cycles, tm_armed := True\<rparr>;
          (e, s) = program_next P tsc' s
      in if e \<noteq> 0 then (e, s\<lparr>tm_armed := False\<rparr>) else (e, s\<lparr>tm_arm_count := tm_arm_count s + 1\<rparr>))"

definition timer_cancel ::
  "'p pit_ops \<Rightarrow> u64 \<Rightarrow> u64 \<Rightarrow> 'p luna_timer_state \<Rightarrow> c_int \<times> 'p luna_timer_state" where
  "timer_cancel P tsc generation s =
     (let (e, s) = program_next P tsc (s\<lparr>tm_generation := generation, tm_armed := False\<rparr>)
      in if e = 0 then (e, s\<lparr>tm_cancel_count := tm_cancel_count s + 1\<rparr>) else (e, s))"

text \<open>The message sent on the command endpoint and the returned code.\<close>

definition luna_timer_manager_service ::
  "'p pit_ops \<Rightarrow> u64 \<Rightarrow> u64 \<Rightarrow> cptr \<Rightarrow> u64 \<Rightarrow> u64 \<Rightarrow> u64 \<Rightarrow> 'p luna_timer_state \<Rightarrow>
   ipc_message \<times> c_int \<times> 'p luna_timer_state" where
  "luna_timer_manager_service P tsc tsc' child_ntfn event generation timeout_ns s =
     (let (e, s) =
        (if tm_ready s \<and> child_ntfn \<noteq> 0 \<and> generation \<noteq> 0 then
           if event = event_word LUNA_ISOLATION_EVENT_TIMER_ARM \<and> timeout_ns \<noteq> 0 then
             if tm_child_ntfn s \<noteq> 0 \<and> tm_child_ntfn s \<noteq> child_ntfn then (-1, s)
             else if generation < tm_generation s then (0, s)
             else timer_arm P tsc tsc' child_ntfn generation timeout_ns s
           else if event = event_word LUNA_ISOLATION_EVENT_TIMER_CANCEL \<and> timeout_ns = 0 then
             if tm_child_ntfn s \<noteq> 0 \<and> tm_child_ntfn s \<noteq> child_ntfn then (-1, s)
             else if generation < tm_generation s then (0, s)
             else timer_cancel P tsc generation s
           else (-1, s)
         else (-1, s))
      in (Message 0 0 [command_word LUNA_COMMAND_TIMER_RESULT, word_of_cint e], e, s))"

definition luna_timer_manager_schedule_network ::
  "'p pit_ops \<Rightarrow> u64 \<Rightarrow> u64 \<Rightarrow> cptr \<Rightarrow> u64 \<Rightarrow> 'p luna_timer_state \<Rightarrow> c_int \<times> 'p luna_timer_state" where
  "luna_timer_manager_schedule_network P tsc tsc' poll_ntfn timeout_ns s =
     (if \<not> tm_ready s \<or> poll_ntfn = 0 \<or> timeout_ns = 0 then (-1, s)
      else if tm_network_armed s then (0, s)
      else let cycles = ns_to_cycles (tm_tsc_frequency s) timeout_ns;
               cycles = (if cycles = 0 then 1 else cycles);
               s = s\<lparr>tm_network_ntfn := poll_ntfn, tm_network_deadline_cycles := tsc + cycles,
                     tm_network_armed := True\<rparr>;
               (e, s) = program_next P tsc' s
           in if e \<noteq> 0 then (e, s\<lparr>tm_network_armed := False\<rparr>)
              else (e, s\<lparr>tm_network_arm_count := tm_network_arm_count s + 1\<rparr>))"

definition luna_timer_manager_cancel_network ::
  "'p pit_ops \<Rightarrow> u64 \<Rightarrow> 'p luna_timer_state \<Rightarrow> c_int \<times> 'p luna_timer_state" where
  "luna_timer_manager_cancel_network P tsc s =
     (if \<not> tm_ready s then (-1, s)
      else if \<not> tm_network_armed s then (0, s)
      else let (e, s) = program_next P tsc (s\<lparr>tm_network_armed := False, tm_network_ntfn := 0\<rparr>)
           in if e = 0 then (e, s\<lparr>tm_network_cancel_count := tm_network_cancel_count s + 1\<rparr>) else (e, s))"

section \<open>Conversions\<close>

lemma unat_mult_add:
  fixes a b :: u64
  assumes "unat a * unat b + unat c < 2 ^ 64"
  shows "unat (a * b + c) = unat a * unat b + unat c"
proof -
  have "unat a * unat b < 2 ^ 64" using assms by linarith
  then show ?thesis using assms by (simp add: unat_word_ariths mod_less)
qed

text \<open>Splitting off whole seconds does not change the quotient.\<close>

lemma split_div: "0 < d \<Longrightarrow> n div d * f + (n mod d * f + k) div d = (n * f + k) div (d :: nat)"
proof -
  assume d: "0 < d"
  have e: "n * f + k = (n mod d * f + k) + d * (n div d * f)"
    by (metis add.commute add.left_commute add_mult_distrib div_mult_mod_eq mult.assoc mult.commute)
  show ?thesis unfolding e using d by (subst div_mult_self2) simp_all
qed

text \<open>The number of nanoseconds in a second, kept symbolic in the proofs.\<close>

definition G :: nat where "G = unat NS_PER_S"

lemma G_pos [simp]: "0 < G" and G_pred: "unat (999999999 :: u64) = G - 1" and G_value: "G = 1000000000"
  by (simp_all add: G_def NS_PER_S_def)

lemma ns_to_cycles_value:
  assumes "unat ns div G * unat f + ((G - 1) * unat f + (G - 1)) < 2 ^ 64"
  shows "unat (ns_to_cycles f ns) = (unat ns * unat f + (G - 1)) div G"
proof -
  have "unat ns mod G < G" by simp
  then have "unat ns mod G \<le> G - 1" by linarith
  then have r: "unat ns mod G * unat f \<le> (G - 1) * unat f" by (rule mult_le_mono1)
  have "unat (ns mod NS_PER_S * f + 999999999) = unat (ns mod NS_PER_S) * unat f + unat (999999999 :: u64)"
    by (rule unat_mult_add) (simp only: unat_mod G_pred G_def [symmetric], use assms r in linarith)
  then have b: "unat ((ns mod NS_PER_S * f + 999999999) div NS_PER_S) = (unat ns mod G * unat f + (G - 1)) div G"
    by (simp only: unat_div unat_mod G_pred G_def [symmetric])
  have le: "(unat ns mod G * unat f + (G - 1)) div G \<le> (G - 1) * unat f + (G - 1)"
    using r by (meson add_le_mono1 div_le_dividend le_trans)
  have "unat (ns_to_cycles f ns) = unat (ns div NS_PER_S) * unat f + unat ((ns mod NS_PER_S * f + 999999999) div NS_PER_S)"
    unfolding ns_to_cycles_def Let_def
    by (rule unat_mult_add) (simp only: unat_div [of ns] b G_def [symmetric], use assms le in linarith)
  then show ?thesis using split_div [OF G_pos, of "unat ns" "unat f" "G - 1"]
    by (simp only: unat_div [of ns] b G_def [symmetric])
qed

lemma cycles_to_ns_value:
  assumes "0 < unat f" "unat c div unat f * G + unat f * G < 2 ^ 64"
  shows "unat (cycles_to_ns f c) = unat c * G div unat f"
proof -
  have r: "unat c mod unat f * G \<le> unat f * G" using assms(1) by (simp add: less_imp_le)
  have "unat (c mod f * NS_PER_S + 0) = unat (c mod f) * unat NS_PER_S + unat (0 :: u64)"
    by (rule unat_mult_add) (simp only: unat_mod unat_0 G_def [symmetric], use assms r in linarith)
  then have b: "unat (c mod f * NS_PER_S div f) = unat c mod unat f * G div unat f"
    by (simp add: unat_div unat_mod G_def [symmetric])
  have le: "unat c mod unat f * G div unat f \<le> unat f * G"
    using r by (meson div_le_dividend le_trans)
  have "unat (cycles_to_ns f c) = unat (c div f) * unat NS_PER_S + unat (c mod f * NS_PER_S div f)"
    unfolding cycles_to_ns_def Let_def
    by (rule unat_mult_add) (simp only: unat_div [of c] b G_def [symmetric], use assms le in linarith)
  then show ?thesis using split_div [OF assms(1), of "unat c" G 0]
    by (simp only: unat_div [of c] b G_def [symmetric]) simp
qed

lemma ceil_floor:
  assumes "0 < f"
  shows "n \<le> ((n * f + (G - 1)) div G) * G div (f :: nat)" and "((n * f + (G - 1)) div G) * G div f \<le> n + G div f"
proof -
  let ?c = "(n * f + (G - 1)) div G"
  have m: "?c * G + (n * f + (G - 1)) mod G = n * f + (G - 1)" by simp
  have "(n * f + (G - 1)) mod G \<le> G - 1" using mod_less_divisor [OF G_pos, of "n * f + (G - 1)"] by linarith
  then have lo: "n * f \<le> ?c * G" using m by linarith
  then show "n \<le> ?c * G div f" using assms by (simp add: less_eq_div_iff_mult_less_eq)
  have "?c * G \<le> (G - 1) + n * f" using m by linarith
  then have "?c * G div f \<le> ((G - 1) + n * f) div f" by (rule div_le_mono)
  also have "\<dots> = (G - 1) div f + n" using assms by (subst div_mult_self1) simp_all
  also have "\<dots> \<le> n + G div f" using div_le_mono [of "G - 1" G f] by simp
  finally show "?c * G div f \<le> n + G div f" .
qed

text \<open>
  C34: For counters of up to 10 GHz and timeouts of up to 15 years the conversion of a timeout to
  cycles is the exact quotient rounded up, and converting back never gives less than the requested
  time nor more than one cycle beyond it: nothing overflows and no deadline is early.
\<close>

theorem timer_conversion:
  assumes "0 < unat f" "unat f \<le> 10000000000" "unat ns \<le> 500000000000000000"
  shows "unat (ns_to_cycles f ns) = (unat ns * unat f + 999999999) div 1000000000 \<and>
    unat ns \<le> unat (cycles_to_ns f (ns_to_cycles f ns)) \<and>
    unat (cycles_to_ns f (ns_to_cycles f ns)) \<le> unat ns + 1000000000 div unat f"
proof -
  have "unat ns div G \<le> 500000000" using div_le_mono [OF assms(3), of G] by (simp add: G_value)
  then have m: "unat ns div G * unat f \<le> 500000000 * 10000000000" using assms(2) by (rule mult_le_mono)
  have "unat ns div G * unat f + ((G - 1) * unat f + (G - 1)) < 2 ^ 64"
    using m assms(2) by (simp add: G_value)
  note v = ns_to_cycles_value [OF this]
  let ?c = "(unat ns * unat f + (G - 1)) div G"
  have "?c div unat f * unat f * G \<le> ?c * G" by (intro mult_le_mono1 div_times_less_eq_dividend)
  then have "?c div unat f * G \<le> ?c * G div unat f"
    using assms(1) by (simp add: less_eq_div_iff_mult_less_eq mult_ac)
  moreover have "?c * G div unat f \<le> unat ns + G div unat f" by (rule ceil_floor(2) [OF assms(1)])
  moreover have "G div unat f \<le> 1000000000" using div_le_dividend [of G "unat f"] by (simp add: G_value)
  ultimately have "?c div unat f * G \<le> 500000000000000000 + 1000000000" using assms(3) by linarith
  moreover have "unat f * G \<le> 10000000000 * 1000000000" using assms(2) by (simp add: G_value)
  ultimately have "unat (ns_to_cycles f ns) div unat f * G + unat f * G < 2 ^ 64" by (simp add: v)
  note w = cycles_to_ns_value [OF assms(1) this]
  show ?thesis using v w ceil_floor [OF assms(1), of "unat ns"] by (simp add: G_value)
qed

theorem timer_conversion_witness:
  "unat (ns_to_cycles 3000000000 1000001) = (1000001 * 3000000000 + 999999999) div 1000000000"
  using timer_conversion [of 3000000000 1000001] by simp

section \<open>Deadlines\<close>

definition deadlines_set :: "'p luna_timer_state \<Rightarrow> bool" where
  "deadlines_set s \<longleftrightarrow> (tm_armed s \<longrightarrow> tm_deadline_cycles s \<noteq> 0) \<and>
     (tm_network_armed s \<longrightarrow> tm_network_deadline_cycles s \<noteq> 0)"

definition earliest :: "'p luna_timer_state \<Rightarrow> u64 \<Rightarrow> bool" where
  "earliest s d \<longleftrightarrow> (tm_armed s \<and> d = tm_deadline_cycles s \<or> tm_network_armed s \<and> d = tm_network_deadline_cycles s) \<and>
     (tm_armed s \<longrightarrow> d \<le> tm_deadline_cycles s) \<and> (tm_network_armed s \<longrightarrow> d \<le> tm_network_deadline_cycles s)"

lemma next_deadline_earliest:
  assumes "deadlines_set s" "tm_armed s \<or> tm_network_armed s"
  shows "next_deadline s \<noteq> 0 \<and> earliest s (next_deadline s)"
  using assms by (auto simp: next_deadline_def deadlines_set_def earliest_def Let_def)

text \<open>No deadline is pending without a programmed interrupt.\<close>

definition timer_inv :: "'p luna_timer_state \<Rightarrow> bool" where
  "timer_inv s \<longleftrightarrow> deadlines_set s \<and> (tm_armed s \<or> tm_network_armed s \<longrightarrow> tm_hw s \<noteq> None)"

lemma program_next_frame:
  assumes "program_next P now s = (e, s')"
  shows "s' = s\<lparr>tm_pit := tm_pit s', tm_hw := tm_hw s'\<rparr>"
  using assms by (cases s) (auto simp: program_next_def Let_def split: if_splits prod.splits)

lemma program_next_hw:
  assumes "program_next P now s = (e, s')" "deadlines_set s" "tm_armed s \<or> tm_network_armed s"
  shows "\<exists>d. earliest s d \<and> tm_hw s' =
    (if e = 0 then Some (clamp_ns P (cycles_to_ns (tm_tsc_frequency s) (if d > now then d - now else 0)))
     else tm_hw s)"
proof (intro exI conjI)
  have d: "next_deadline s \<noteq> 0" "earliest s (next_deadline s)" using next_deadline_earliest [OF assms(2,3)] by auto
  show "earliest s (next_deadline s)" by (rule d)
  show "tm_hw s' = (if e = 0 then Some (clamp_ns P (cycles_to_ns (tm_tsc_frequency s)
      (if next_deadline s > now then next_deadline s - now else 0))) else tm_hw s)"
    using assms(1) d(1) unfolding program_next_def Let_def by (auto split: prod.splits)
qed

text \<open>Programming keeps the invariant when it succeeds or when something was already programmed.\<close>

lemma program_next_inv:
  assumes "program_next P now s = (e, s')" "deadlines_set s" "e = 0 \<or> tm_hw s \<noteq> None"
  shows "timer_inv s'"
proof -
  note f = program_next_frame [OF assms(1)]
  have same: "tm_armed s' = tm_armed s" "tm_network_armed s' = tm_network_armed s" "deadlines_set s'"
    using assms(2) by (subst f, simp add: deadlines_set_def)+
  show ?thesis
  proof (cases "tm_armed s \<or> tm_network_armed s")
    case True
    then show ?thesis using program_next_hw [OF assms(1,2)] assms(3) same by (auto simp: timer_inv_def)
  qed (use same in \<open>auto simp: timer_inv_def\<close>)
qed

lemma program_next_same:
  assumes "program_next P now s = (e, s')"
  shows "tm_armed s' = tm_armed s" "tm_network_armed s' = tm_network_armed s"
    "tm_deadline_cycles s' = tm_deadline_cycles s" "tm_network_deadline_cycles s' = tm_network_deadline_cycles s"
    "tm_generation s' = tm_generation s" "tm_child_ntfn s' = tm_child_ntfn s"
    "tm_tsc_frequency s' = tm_tsc_frequency s" "tm_ready s' = tm_ready s"
  by (subst program_next_frame [OF assms], simp)+

lemma program_next_failed:
  "program_next P now s = (e, s') \<Longrightarrow> e \<noteq> 0 \<Longrightarrow> tm_hw s' = tm_hw s"
  by (auto simp: program_next_def Let_def split: if_splits prod.splits)

lemma rearm_inv:
  assumes "deadlines_set s"
  shows "timer_inv (rearm P now s)"
proof (cases "tm_armed s \<or> tm_network_armed s")
  case True
  obtain e s' where p: "program_next P now s = (e, s')" by force
  have "deadlines_set s'" using assms program_next_same [OF p] by (simp add: deadlines_set_def)
  then show ?thesis using program_next_inv [OF p assms] True p
    by (auto simp: rearm_def timer_inv_def deadlines_set_def)
qed (use assms in \<open>simp add: rearm_def timer_inv_def\<close>)

lemma handle_timer_irq_inv:
  assumes "timer_inv s"
  shows "timer_inv (snd (handle_timer_irq P now1 now s))"
proof -
  define s1 where "s1 = s\<lparr>tm_interrupt_count := tm_interrupt_count s + 1, tm_hw := None\<rparr>"
  obtain c s2 where s2: "expire_child now1 s1 = (c, s2)" by force
  obtain n s3 where s3: "expire_network now s2 = (n, s3)" by force
  have "deadlines_set s1" using assms by (simp add: s1_def timer_inv_def deadlines_set_def)
  then have "deadlines_set s2" using s2 by (auto simp: expire_child_def deadlines_set_def split: if_splits)
  then have "deadlines_set s3" using s3 by (auto simp: expire_network_def deadlines_set_def split: if_splits)
  from rearm_inv [OF this, of P now] show ?thesis
    by (simp add: handle_timer_irq_def Let_def s1_def [symmetric] s2 s3 timer_inv_def deadlines_set_def)
qed

definition clock_ok :: "u64 \<Rightarrow> u64 \<Rightarrow> 'p luna_timer_state \<Rightarrow> bool" where
  "clock_ok tsc timeout_ns s \<longleftrightarrow>
     (let cycles = ns_to_cycles (tm_tsc_frequency s) timeout_ns in tsc + (if cycles = 0 then 1 else cycles) \<noteq> 0)"

lemma timer_arm_inv:
  assumes "timer_inv s" "clock_ok tsc timeout_ns s"
  shows "timer_inv (snd (timer_arm P tsc tsc' child generation timeout_ns s))"
proof -
  let ?cycles = "ns_to_cycles (tm_tsc_frequency s) timeout_ns"
  define s1 where "s1 = s\<lparr>tm_child_ntfn := child, tm_generation := generation,
    tm_deadline_cycles := tsc + (if ?cycles = 0 then 1 else ?cycles), tm_armed := True\<rparr>"
  obtain e s2 where p: "program_next P tsc' s1 = (e, s2)" by force
  have r: "snd (timer_arm P tsc tsc' child generation timeout_ns s) =
      (if e \<noteq> 0 then s2\<lparr>tm_armed := False\<rparr> else s2\<lparr>tm_arm_count := tm_arm_count s2 + 1\<rparr>)"
    using p by (simp add: timer_arm_def Let_def s1_def)
  have d: "deadlines_set s1" using assms by (auto simp: s1_def timer_inv_def deadlines_set_def clock_ok_def Let_def)
  show ?thesis
  proof (cases "e = 0")
    case True
    then show ?thesis using program_next_inv [OF p d] r by (simp add: timer_inv_def deadlines_set_def)
  next
    case False
    then show ?thesis using program_next_same [OF p] program_next_failed [OF p] r d assms(1)
      by (auto simp: timer_inv_def deadlines_set_def s1_def)
  qed
qed

lemma timer_cancel_inv:
  assumes "timer_inv s"
  shows "timer_inv (snd (timer_cancel P tsc generation s))"
proof -
  define s1 where "s1 = s\<lparr>tm_generation := generation, tm_armed := False\<rparr>"
  obtain e s2 where p: "program_next P tsc s1 = (e, s2)" by force
  have r: "snd (timer_cancel P tsc generation s) = (if e = 0 then s2\<lparr>tm_cancel_count := tm_cancel_count s2 + 1\<rparr> else s2)"
    using p by (simp add: timer_cancel_def Let_def s1_def)
  have d: "deadlines_set s1" using assms by (auto simp: s1_def timer_inv_def deadlines_set_def)
  show ?thesis
  proof (cases "e = 0")
    case True
    then show ?thesis using program_next_inv [OF p d] r by (simp add: timer_inv_def deadlines_set_def)
  next
    case False
    then show ?thesis using program_next_same [OF p] program_next_failed [OF p] r d assms(1)
      by (auto simp: timer_inv_def deadlines_set_def s1_def)
  qed
qed

lemma service_inv:
  assumes "timer_inv s" "clock_ok tsc timeout_ns s"
    "luna_timer_manager_service P tsc tsc' child event generation timeout_ns s = (m, e, s')"
  shows "timer_inv s'"
  using assms timer_arm_inv [OF assms(1,2)] timer_cancel_inv [OF assms(1)]
  by (auto simp: luna_timer_manager_service_def Let_def split: if_splits prod.splits) (metis snd_conv)+

lemma schedule_network_inv:
  assumes "timer_inv s" "clock_ok tsc timeout_ns s"
  shows "timer_inv (snd (luna_timer_manager_schedule_network P tsc tsc' ntfn timeout_ns s))"
proof (cases "tm_ready s \<and> ntfn \<noteq> 0 \<and> timeout_ns \<noteq> 0 \<and> \<not> tm_network_armed s")
  case act: True
  let ?cycles = "ns_to_cycles (tm_tsc_frequency s) timeout_ns"
  define s1 where "s1 = s\<lparr>tm_network_ntfn := ntfn,
    tm_network_deadline_cycles := tsc + (if ?cycles = 0 then 1 else ?cycles), tm_network_armed := True\<rparr>"
  obtain e s2 where p: "program_next P tsc' s1 = (e, s2)" by force
  have r: "snd (luna_timer_manager_schedule_network P tsc tsc' ntfn timeout_ns s) =
      (if e \<noteq> 0 then s2\<lparr>tm_network_armed := False\<rparr> else s2\<lparr>tm_network_arm_count := tm_network_arm_count s2 + 1\<rparr>)"
    using p act by (simp add: luna_timer_manager_schedule_network_def Let_def s1_def)
  have d: "deadlines_set s1" using assms by (auto simp: s1_def timer_inv_def deadlines_set_def clock_ok_def Let_def)
  show ?thesis
  proof (cases "e = 0")
    case True
    then show ?thesis using program_next_inv [OF p d] r by (simp add: timer_inv_def deadlines_set_def)
  next
    case False
    then show ?thesis using program_next_same [OF p] program_next_failed [OF p] r d assms(1)
      by (auto simp: timer_inv_def deadlines_set_def s1_def)
  qed
qed (use assms in \<open>auto simp: luna_timer_manager_schedule_network_def\<close>)

lemma cancel_network_inv:
  assumes "timer_inv s"
  shows "timer_inv (snd (luna_timer_manager_cancel_network P tsc s))"
proof (cases "tm_ready s \<and> tm_network_armed s")
  case act: True
  define s1 where "s1 = s\<lparr>tm_network_armed := False, tm_network_ntfn := 0\<rparr>"
  obtain e s2 where p: "program_next P tsc s1 = (e, s2)" by force
  have r: "snd (luna_timer_manager_cancel_network P tsc s) =
      (if e = 0 then s2\<lparr>tm_network_cancel_count := tm_network_cancel_count s2 + 1\<rparr> else s2)"
    using p act by (simp add: luna_timer_manager_cancel_network_def Let_def s1_def)
  have d: "deadlines_set s1" using assms by (auto simp: s1_def timer_inv_def deadlines_set_def)
  show ?thesis
  proof (cases "e = 0")
    case True
    then show ?thesis using program_next_inv [OF p d] r by (simp add: timer_inv_def deadlines_set_def)
  next
    case False
    then show ?thesis using program_next_same [OF p] program_next_failed [OF p] r d assms(1)
      by (auto simp: timer_inv_def deadlines_set_def s1_def)
  qed
qed (use assms in \<open>auto simp: luna_timer_manager_cancel_network_def\<close>)

text \<open>
  Runs of the manager's operations. The time-stamp counter is 64 bits wide and a deadline of zero
  means none, so no armed deadline may wrap to exactly zero.
\<close>

inductive timer_run :: "'p pit_ops \<Rightarrow> 'p luna_timer_state \<Rightarrow> 'p luna_timer_state \<Rightarrow> bool" for P s0 where
  timer_init: "timer_run P s0 s0"
| run_service: "timer_run P s0 s \<Longrightarrow> clock_ok tsc timeout_ns s \<Longrightarrow>
    luna_timer_manager_service P tsc tsc' child event generation timeout_ns s = (m, e, s') \<Longrightarrow> timer_run P s0 s'"
| run_irq: "timer_run P s0 s \<Longrightarrow> timer_run P s0 (snd (handle_timer_irq P now1 now s))"
| run_schedule: "timer_run P s0 s \<Longrightarrow> clock_ok tsc timeout_ns s \<Longrightarrow>
    timer_run P s0 (snd (luna_timer_manager_schedule_network P tsc tsc' ntfn timeout_ns s))"
| run_cancel: "timer_run P s0 s \<Longrightarrow> timer_run P s0 (snd (luna_timer_manager_cancel_network P tsc s))"
| run_deactivate: "timer_run P s0 s \<Longrightarrow> timer_run P s0 (luna_timer_manager_deactivate P s)"

lemma timer_run_inv: "timer_run P s0 s \<Longrightarrow> timer_inv s0 \<Longrightarrow> timer_inv s"
proof (induction rule: timer_run.induct)
  case (run_service s tsc timeout_ns tsc' child event generation m e s')
  then show ?case using service_inv by blast
next
  case (run_deactivate s)
  then show ?case
    by (auto simp: luna_timer_manager_deactivate_def Let_def timer_inv_def deadlines_set_def split: prod.splits)
qed (auto intro: handle_timer_irq_inv schedule_network_inv cancel_network_inv)

lemma service_generation:
  assumes "luna_timer_manager_service P tsc tsc' child event generation timeout_ns s = (m, e, s')"
  shows "tm_generation s \<le> tm_generation s'"
    and "generation < tm_generation s \<or> tm_child_ntfn s \<noteq> 0 \<and> tm_child_ntfn s \<noteq> child \<Longrightarrow> s' = s"
proof -
  have g: "tm_generation (snd (timer_arm P tsc tsc' child generation timeout_ns s)) = generation"
    "tm_generation (snd (timer_cancel P tsc generation s)) = generation"
    by (auto simp: timer_arm_def timer_cancel_def Let_def dest: program_next_same(5) split: prod.splits)
  show "tm_generation s \<le> tm_generation s'"
    using assms g by (fastforce simp: luna_timer_manager_service_def Let_def not_less split: if_splits prod.splits)
  show "generation < tm_generation s \<or> tm_child_ntfn s \<noteq> 0 \<and> tm_child_ntfn s \<noteq> child \<Longrightarrow> s' = s"
    using assms by (auto simp: luna_timer_manager_service_def Let_def split: if_splits prod.splits)
qed

text \<open>What an interrupt does to the child's timer.\<close>

lemma handle_timer_irq_child:
  assumes "handle_timer_irq P now1 now s = (signalled, s')"
  shows "if tm_armed s \<and> tm_deadline_cycles s \<le> now1
    then \<not> tm_armed s' \<and> (tm_child_ntfn s \<noteq> 0 \<longrightarrow> tm_child_ntfn s \<in> set signalled)
    else (tm_armed s' \<longrightarrow> tm_armed s) \<and> set signalled \<subseteq> {tm_network_ntfn s} \<and>
      (tm_armed s \<and> \<not> tm_armed s' \<longrightarrow> (\<exists>t. fst (program_next P now t) \<noteq> 0))"
proof -
  define s1 where "s1 = s\<lparr>tm_interrupt_count := tm_interrupt_count s + 1, tm_hw := None\<rparr>"
  obtain c s2 where s2: "expire_child now1 s1 = (c, s2)" by force
  obtain n s3 where s3: "expire_network now s2 = (n, s3)" by force
  have r: "signalled = (if c \<noteq> 0 then [c] else []) @ (if n \<noteq> 0 then [n] else [])" "tm_armed s' = tm_armed (rearm P now s3)"
    using assms by (auto simp: handle_timer_irq_def Let_def s1_def [symmetric] s2 s3 split: if_splits)
  have n: "n = 0 \<or> n = tm_network_ntfn s" "tm_armed s3 = tm_armed s2"
    using s2 s3 by (auto simp: expire_network_def expire_child_def s1_def split: if_splits)
  have c: "if tm_armed s \<and> tm_deadline_cycles s \<le> now1 then c = tm_child_ntfn s \<and> \<not> tm_armed s2
      else c = 0 \<and> tm_armed s2 = tm_armed s"
    using s2 by (auto simp: expire_child_def s1_def split: if_splits)
  have "(tm_armed (rearm P now s3) \<longrightarrow> tm_armed s3) \<and>
      (tm_armed s3 \<and> \<not> tm_armed (rearm P now s3) \<longrightarrow> fst (program_next P now s3) \<noteq> 0)"
    by (auto simp: rearm_def Let_def dest: program_next_same(1) split: prod.splits if_splits)
  then show ?thesis using r n c by (auto split: if_splits)
qed


text \<open>A PIT that accepts every call, and a manager that is ready.\<close>

definition simple_pit :: "unit pit_ops" where
  "simple_pit = \<lparr>pit_set_timeout = (\<lambda>_ p. (0, p)), pit_cancel_timeout = (\<lambda>p. (0, p)), PIT_MIN_NS = 1000, PIT_MAX_NS = 50000000\<rparr>"

definition idle_timer :: "unit luna_timer_state" where
  "idle_timer = \<lparr>tm_pit = (), tm_ready = True, tm_armed = False, tm_child_ntfn = 0, tm_generation = 0,
     tm_deadline_cycles = 0, tm_network_armed = False, tm_network_ntfn = 0, tm_network_deadline_cycles = 0,
     tm_tsc_frequency = 1000000000, tm_arm_count = 0, tm_cancel_count = 0, tm_interrupt_count = 0, tm_wake_count = 0,
     tm_rearm_count = 0, tm_network_arm_count = 0, tm_network_cancel_count = 0, tm_network_wake_count = 0, tm_hw = None\<rparr>"

definition armed_timer :: "unit luna_timer_state" where
  "armed_timer = snd (snd (luna_timer_manager_service simple_pit 100 101 5
     (event_word LUNA_ISOLATION_EVENT_TIMER_ARM) 1 5000000 idle_timer))"


end
