(* ===== verification/Task_Tls.thy ===== *)
theory Task_Tls
  imports Luna_Protocol
begin

text \<open>
  Thread-local storage of the child (\<open>lkl_task_host.c\<close>): 16 keys, each with one value per thread
  index and a destructor, and the cleanup that runs at thread exit. A destructor is code of the
  key's owner and may use the storage again, so it is a parameter acting on the table and on
  whatever else it changes (the type \<open>'w\<close>); cleanup calls it at most four rounds. The boot-time
  re-entry test is modelled with its own destructor.
\<close>

definition TASK_TLS_KEYS :: nat where [luna_consts]: "TASK_TLS_KEYS = 16"
definition TASK_TLS_DESTRUCTOR_ITERATIONS :: nat where
  [luna_consts]: "TASK_TLS_DESTRUCTOR_ITERATIONS = 4"

record lkl_tls_key =
  tls_used :: bool
  tls_data :: "nat \<Rightarrow> u64"
  tls_destructor :: u64 \<comment> \<open>code address, 0 for none\<close>

type_synonym tls_table = "nat \<Rightarrow> lkl_tls_key"
type_synonym 'w destructor = "u64 \<Rightarrow> u64 \<Rightarrow> nat \<Rightarrow> tls_table \<times> 'w \<Rightarrow> tls_table \<times> 'w"

definition put_data :: "nat \<Rightarrow> nat \<Rightarrow> u64 \<Rightarrow> tls_table \<Rightarrow> tls_table" where
  "put_data i idx v t = t(i := (t i)\<lparr>tls_data := (tls_data (t i))(idx := v)\<rparr>)"

text \<open>One pass over the keys; the flag is \<open>called\<close>.\<close>

fun tls_pass :: "'w destructor \<Rightarrow> nat \<Rightarrow> nat \<Rightarrow> nat \<Rightarrow> bool \<Rightarrow> tls_table \<times> 'w \<Rightarrow> bool \<times> tls_table \<times> 'w" where
  "tls_pass run idx i 0 called (t, w) = (called, t, w)"
| "tls_pass run idx i (Suc n) called (t, w) =
     (let data = tls_data (t i) idx;
          t = put_data i idx 0 t;
          destructor = tls_destructor (t i)
      in if data \<noteq> 0 \<and> tls_used (t i) \<and> destructor \<noteq> 0
         then tls_pass run idx (i + 1) n True (run destructor data idx (t, w))
         else tls_pass run idx (i + 1) n called (t, w))"

fun tls_passes :: "'w destructor \<Rightarrow> nat \<Rightarrow> nat \<Rightarrow> tls_table \<times> 'w \<Rightarrow> tls_table \<times> 'w" where
  "tls_passes run idx 0 x = x"
| "tls_passes run idx (Suc k) x =
     (let (called, x) = tls_pass run idx 0 TASK_TLS_KEYS False x
      in if \<not> called then x else tls_passes run idx k x)"

definition clear_index :: "nat \<Rightarrow> tls_table \<Rightarrow> tls_table" where
  "clear_index idx t = (\<lambda>i. if i < TASK_TLS_KEYS then (t i)\<lparr>tls_data := (tls_data (t i))(idx := 0)\<rparr> else t i)"

definition task_tls_cleanup :: "'w destructor \<Rightarrow> nat \<Rightarrow> tls_table \<times> 'w \<Rightarrow> tls_table \<times> 'w" where
  "task_tls_cleanup run idx x =
     (if idx \<ge> LUNA_RESOURCE_SLOTS + 2 then x
      else let (t, w) = tls_passes run idx TASK_TLS_DESTRUCTOR_ITERATIONS x in (clear_index idx t, w))"

definition task_tls_alloc :: "u64 \<Rightarrow> tls_table \<Rightarrow> nat option \<times> tls_table" where
  "task_tls_alloc destructor t =
     (case first_index (\<lambda>i. \<not> tls_used (t i)) TASK_TLS_KEYS of
        None \<Rightarrow> (None, t)
      | Some i \<Rightarrow> (Some i, t(i := \<lparr>tls_used = True, tls_data = (\<lambda>_. 0), tls_destructor = destructor\<rparr>)))"

definition task_tls_free :: "nat option \<Rightarrow> tls_table \<Rightarrow> tls_table" where
  "task_tls_free key t =
     (case key of
        None \<Rightarrow> t
      | Some i \<Rightarrow> t(i := \<lparr>tls_used = False, tls_data = (\<lambda>_. 0), tls_destructor = 0\<rparr>))"

definition task_tls_set :: "nat \<Rightarrow> nat option \<Rightarrow> u64 \<Rightarrow> tls_table \<Rightarrow> c_int \<times> tls_table" where
  "task_tls_set current_tls_index key data t =
     (case key of
        None \<Rightarrow> (-1, t)
      | Some i \<Rightarrow>
          if \<not> tls_used (t i) \<or> current_tls_index \<ge> LUNA_RESOURCE_SLOTS + 2 then (-1, t)
          else (0, put_data i current_tls_index data t))"

definition task_tls_get :: "nat \<Rightarrow> nat option \<Rightarrow> tls_table \<Rightarrow> u64" where
  "task_tls_get current_tls_index key t =
     (case key of
        None \<Rightarrow> 0
      | Some i \<Rightarrow>
          if \<not> tls_used (t i) \<or> current_tls_index \<ge> LUNA_RESOURCE_SLOTS + 2 then 0
          else tls_data (t i) current_tls_index)"

section \<open>The boot-time re-entry test\<close>

record tls_test =
  task_test_tls_destructor_calls :: nat
  task_test_tls_set_errors :: nat

definition set_error :: "c_int \<Rightarrow> tls_test \<Rightarrow> tls_test" where
  "set_error e w = (if e \<noteq> 0 then w\<lparr>task_test_tls_set_errors := task_test_tls_set_errors w + 1\<rparr> else w)"

definition task_tls_reentrant_destructor :: "nat \<Rightarrow> nat option \<Rightarrow> tls_test destructor" where
  "task_tls_reentrant_destructor rearm_limit key addr data idx x =
     (let (t, w) = x;
          call = task_test_tls_destructor_calls w + 1;
          w = w\<lparr>task_test_tls_destructor_calls := call\<rparr>
      in if call < rearm_limit
         then let (e, t) = task_tls_set idx key (of_nat (call + 1)) t in (t, set_error e w)
         else (t, w))"

definition task_tls_test_worker :: "nat option \<Rightarrow> nat \<Rightarrow> u64 \<Rightarrow> tls_table \<times> tls_test \<Rightarrow> tls_table \<times> tls_test" where
  "task_tls_test_worker key idx arg x =
     (let (t, w) = x; (e, t) = task_tls_set idx key arg t in (t, set_error e w))"

text \<open>
  The test with a worker thread of index \<open>idx\<close> (\<open>None\<close>: the thread could not be created or
  joined); \<open>code\<close> is the address of the destructor.
\<close>

definition task_tls_reentry_test :: "u64 \<Rightarrow> nat \<Rightarrow> nat \<Rightarrow> nat option \<Rightarrow> tls_table \<Rightarrow> c_int \<times> tls_table" where
  "task_tls_reentry_test code rearm_limit expected_calls worker t =
     (let w = \<lparr>task_test_tls_destructor_calls = 0, task_test_tls_set_errors = 0\<rparr>
      in case task_tls_alloc code t of
        (None, t) \<Rightarrow> (-1, t)
      | (Some i, t) \<Rightarrow>
          (case worker of
             None \<Rightarrow> (-1, task_tls_free (Some i) t)
           | Some idx \<Rightarrow>
               let (t, w) = task_tls_cleanup (task_tls_reentrant_destructor rearm_limit (Some i)) idx
                              (task_tls_test_worker (Some i) idx 1 (t, w))
               in if task_test_tls_destructor_calls w \<noteq> expected_calls \<or>
                     task_test_tls_set_errors w \<noteq> 0 \<or> tls_data (t i) idx \<noteq> 0
                  then (-1, task_tls_free (Some i) t)
                  else (if task_test_tls_destructor_calls w = expected_calls then 0 else -1,
                        task_tls_free (Some i) t)))"

section \<open>Properties\<close>

lemma put_data_simps [simp]:
  "tls_used (put_data i idx v t j) = tls_used (t j)"
  "tls_destructor (put_data i idx v t j) = tls_destructor (t j)"
  "tls_data (put_data i idx v t j) k = (if j = i \<and> k = idx then v else tls_data (t j) k)"
  by (simp_all add: put_data_def)

lemma clear_index_simps [simp]:
  "tls_used (clear_index idx t i) = tls_used (t i)"
  "tls_destructor (clear_index idx t i) = tls_destructor (t i)"
  "tls_data (clear_index idx t i) k = (if i < TASK_TLS_KEYS \<and> k = idx then 0 else tls_data (t i) k)"
  by (simp_all add: clear_index_def)

text \<open>The keys and the values of other threads.\<close>

definition same_elsewhere :: "nat \<Rightarrow> tls_table \<Rightarrow> tls_table \<Rightarrow> bool" where
  "same_elsewhere idx t t' \<longleftrightarrow> (\<forall>i. tls_used (t' i) = tls_used (t i) \<and>
     tls_destructor (t' i) = tls_destructor (t i) \<and> (\<forall>k. k \<noteq> idx \<longrightarrow> tls_data (t' i) k = tls_data (t i) k))"

lemma same_elsewhere_refl [simp]: "same_elsewhere idx t t"
  by (simp add: same_elsewhere_def)

lemma same_elsewhere_trans: "same_elsewhere idx t t' \<Longrightarrow> same_elsewhere idx t' t'' \<Longrightarrow> same_elsewhere idx t t''"
  by (simp add: same_elsewhere_def)

lemma same_elsewhere_put [simp]: "same_elsewhere idx t (put_data i idx v t)"
  by (simp add: same_elsewhere_def)

lemma same_elsewhere_clear [simp]: "same_elsewhere idx t (clear_index idx t)"
  by (simp add: same_elsewhere_def)

definition polite :: "'w destructor \<Rightarrow> bool" where
  "polite run \<longleftrightarrow> (\<forall>f d idx t w. same_elsewhere idx t (fst (run f d idx (t, w))))"

lemma tls_pass_frame:
  "polite run \<Longrightarrow> same_elsewhere idx t (fst (snd (tls_pass run idx i n called (t, w))))"
proof (induction run idx i n called "(t, w)" arbitrary: t w rule: tls_pass.induct)
  case (2 run idx i n called t w)
  let ?t = "put_data i idx 0 t"
  obtain t1 w1 where r: "run (tls_destructor (t i)) (tls_data (t i) idx) idx (?t, w) = (t1, w1)" by force
  have "same_elsewhere idx ?t t1" using 2(3) r unfolding polite_def by (metis fst_conv)
  then have "same_elsewhere idx t t1" using same_elsewhere_trans same_elsewhere_put by blast
  then show ?case
    using 2 r same_elsewhere_trans [of idx t t1] same_elsewhere_trans [OF same_elsewhere_put [of idx t i 0]]
    by (auto simp: Let_def)
qed simp

lemma tls_passes_frame:
  "polite run \<Longrightarrow> same_elsewhere idx t (fst (tls_passes run idx k (t, w)))"
proof (induction k arbitrary: t w)
  case (Suc k)
  obtain c t1 w1 where p: "tls_pass run idx 0 TASK_TLS_KEYS False (t, w) = (c, t1, w1)"
    by (metis prod_cases3)
  have "same_elsewhere idx t t1" using tls_pass_frame [OF Suc.prems, of idx t 0 TASK_TLS_KEYS False w] p by simp
  then show ?case using p Suc same_elsewhere_trans by (auto simp: Let_def)
qed simp

lemma tls_cleanup_clears:
  assumes "idx < LUNA_RESOURCE_SLOTS + 2" "task_tls_cleanup run idx (t, w) = (t', w')" "i < TASK_TLS_KEYS"
  shows "tls_data (t' i) idx = 0"
  using assms by (auto simp: task_tls_cleanup_def split: prod.splits)

lemma tls_cleanup_frame:
  assumes "polite run" "task_tls_cleanup run idx (t, w) = (t', w')"
  shows "same_elsewhere idx t t'"
proof -
  have "same_elsewhere idx t (fst (tls_passes run idx TASK_TLS_DESTRUCTOR_ITERATIONS (t, w)))"
    by (rule tls_passes_frame [OF assms(1)])
  then show ?thesis using assms(2) same_elsewhere_trans [OF _ same_elsewhere_clear]
    by (auto simp: task_tls_cleanup_def split: prod.splits if_splits)
qed

lemma tls_pass_append:
  "tls_pass run idx i (m + n) c x = (let (c, x) = tls_pass run idx i m c x in tls_pass run idx (i + m) n c x)"
proof (induction run idx i m c x rule: tls_pass.induct)
  case (2 run idx i m c t w)
  then show ?case by (simp add: Let_def split: prod.splits)
qed simp

lemma put_data_same: "tls_data (t i) idx = v \<Longrightarrow> put_data i idx v t = t"
  by (auto simp: put_data_def fun_upd_idem)

lemma tls_pass_idle:
  "\<forall>j. i \<le> j \<and> j < i + n \<longrightarrow> tls_data (t j) idx = 0 \<Longrightarrow> tls_pass run idx i n c (t, w) = (c, t, w)"
proof (induction n arbitrary: i c)
  case (Suc n)
  have "tls_data (t i) idx = 0" using Suc.prems by auto
  then show ?case using Suc.IH [of "i + 1"] Suc.prems by (simp add: put_data_same)
qed simp

text \<open>A pass in which only key \<open>i\<close> has a value: its destructor runs once.\<close>

lemma tls_pass_single:
  assumes "i < TASK_TLS_KEYS" "\<forall>j < TASK_TLS_KEYS. j \<noteq> i \<longrightarrow> tls_data (t j) idx = 0"
    "tls_data (t i) idx = v" "v \<noteq> 0" "tls_used (t i)" "tls_destructor (t i) \<noteq> 0"
    "run (tls_destructor (t i)) v idx (put_data i idx 0 t, w) = (t', w')"
    "\<forall>j < TASK_TLS_KEYS. j \<noteq> i \<longrightarrow> tls_data (t' j) idx = 0"
  shows "tls_pass run idx 0 TASK_TLS_KEYS False (t, w) = (True, t', w')"
proof -
  let ?n = "TASK_TLS_KEYS - Suc i"
  have n: "TASK_TLS_KEYS = i + Suc ?n" using assms(1) by simp
  have a: "tls_pass run idx 0 i False (t, w) = (False, t, w)"
    using assms(1,2) by (intro tls_pass_idle) auto
  have b: "tls_pass run idx (Suc i) ?n True (t', w') = (True, t', w')"
    using assms(1,8) by (intro tls_pass_idle) auto
  have "tls_pass run idx i (Suc ?n) False (t, w) = (True, t', w')"
    using assms(3-7) b by (simp add: Let_def)
  then show ?thesis using a n tls_pass_append [of run idx 0 i "Suc ?n" False "(t, w)"] by simp
qed

lemma reentry_passes:
  assumes "i < TASK_TLS_KEYS" "\<forall>j < TASK_TLS_KEYS. j \<noteq> i \<longrightarrow> tls_data (t j) idx = 0"
    "tls_used (t i)" "tls_destructor (t i) \<noteq> 0" "idx < LUNA_RESOURCE_SLOTS + 2"
    "tls_data (t i) idx \<noteq> 0" "task_test_tls_destructor_calls w < limit"
    "task_test_tls_destructor_calls w + k \<le> TASK_TLS_DESTRUCTOR_ITERATIONS"
  shows "\<exists>t'. tls_passes (task_tls_reentrant_destructor limit (Some i)) idx k (t, w) =
    (t', w\<lparr>task_test_tls_destructor_calls := task_test_tls_destructor_calls w +
       min k (limit - task_test_tls_destructor_calls w)\<rparr>)"
  using assms
proof (induction k arbitrary: t w)
  case (Suc k)
  let ?c = "task_test_tls_destructor_calls w" and ?run = "task_tls_reentrant_destructor limit (Some i)"
  let ?w = "w\<lparr>task_test_tls_destructor_calls := ?c + 1\<rparr>"
  have unused: "min k (limit - Suc ?c) + ?c + 1 = ?c + min (Suc k) (limit - ?c)" using Suc.prems(7) by simp
  have nz: "(of_nat (?c + 2) :: u64) \<noteq> 0"
    using Suc.prems(8) unat_u64 [of "?c + 2"] by (auto simp: luna_consts)
  show ?case
  proof (cases "?c + 1 < limit")
    case True
    let ?t = "put_data i idx (of_nat (?c + 2)) (put_data i idx 0 t)"
    have "tls_pass ?run idx 0 TASK_TLS_KEYS False (t, w) = (True, ?t, ?w)"
      by (rule tls_pass_single [OF Suc.prems(1,2) refl Suc.prems(6,3,4)])
        (use True Suc.prems in \<open>auto simp: task_tls_reentrant_destructor_def task_tls_set_def set_error_def add.commute\<close>)
    moreover have "\<exists>t'. tls_passes ?run idx k (?t, ?w) =
        (t', ?w\<lparr>task_test_tls_destructor_calls := task_test_tls_destructor_calls ?w +
           min k (limit - task_test_tls_destructor_calls ?w)\<rparr>)"
      by (rule Suc.IH) (use Suc.prems True nz in auto)
    ultimately show ?thesis using unused by (auto simp: add.commute)
  next
    case False
    let ?t = "put_data i idx 0 t"
    have p: "tls_pass ?run idx 0 TASK_TLS_KEYS False (t, w) = (True, ?t, ?w)"
      by (rule tls_pass_single [OF Suc.prems(1,2) refl Suc.prems(6,3,4)])
        (use False Suc.prems in \<open>auto simp: task_tls_reentrant_destructor_def\<close>)
    have "tls_pass ?run idx 0 TASK_TLS_KEYS False (?t, ?w) = (False, ?t, ?w)"
      by (rule tls_pass_idle) (use Suc.prems in auto)
    then have "tls_passes ?run idx k (?t, ?w) = (?t, ?w)" by (cases k) simp_all
    moreover have "min (Suc k) (limit - ?c) = 1" using False Suc.prems(7) by simp
    ultimately show ?thesis using p by simp
  qed
qed simp

text \<open>
  C33: At thread exit every value of the exiting thread is gone, whatever the destructors do;
  if they only touch their own thread's values, no other thread's value and no key changes; and
  destructors that set values again are run for at most four rounds: with a destructor that
  re-arms its key until its \<open>limit\<close>th call, on a thread index that holds no value and with a free
  key, the boot-time test finds exactly \<open>min limit 4\<close> calls and succeeds.
\<close>

theorem tls_cleanup_correct:
  "(\<forall>run idx t w t' w'. idx < LUNA_RESOURCE_SLOTS + 2 \<and> task_tls_cleanup run idx (t, w :: 'w) = (t', w') \<longrightarrow>
      (\<forall>i < TASK_TLS_KEYS. task_tls_get idx (Some i) t' = 0) \<and>
      (polite run \<longrightarrow> same_elsewhere idx t t')) \<and>
   (\<forall>code limit idx t k. code \<noteq> 0 \<and> 0 < limit \<and> idx < LUNA_RESOURCE_SLOTS + 2 \<and>
      k < TASK_TLS_KEYS \<and> \<not> tls_used (t k) \<and> (\<forall>j < TASK_TLS_KEYS. tls_data (t j) idx = 0) \<longrightarrow>
      fst (task_tls_reentry_test code limit (min limit TASK_TLS_DESTRUCTOR_ITERATIONS) (Some idx) t) = 0)"
proof -
  have "fst (task_tls_reentry_test code limit (min limit TASK_TLS_DESTRUCTOR_ITERATIONS) (Some idx) t) = 0"
    if a: "code \<noteq> 0" "0 < limit" "idx < LUNA_RESOURCE_SLOTS + 2" "k < TASK_TLS_KEYS" "\<not> tls_used (t k)"
      "\<forall>j < TASK_TLS_KEYS. tls_data (t j) idx = 0" for code limit idx t k
  proof -
    obtain i where i: "first_index (\<lambda>i. \<not> tls_used (t i)) TASK_TLS_KEYS = Some i"
      using first_index_ex [OF a(4), of "\<lambda>i. \<not> tls_used (t i)"] a(5) by auto
    then have "i < TASK_TLS_KEYS" using first_index_Some by blast
    let ?t = "t(i := \<lparr>tls_used = True, tls_data = (\<lambda>_. 0), tls_destructor = code\<rparr>)"
    let ?w = "\<lparr>task_test_tls_destructor_calls = 0, task_test_tls_set_errors = 0\<rparr>"
    have "\<exists>t'. tls_passes (task_tls_reentrant_destructor limit (Some i)) idx TASK_TLS_DESTRUCTOR_ITERATIONS
        (put_data i idx 1 ?t, ?w) = (t', ?w\<lparr>task_test_tls_destructor_calls := task_test_tls_destructor_calls ?w +
          min TASK_TLS_DESTRUCTOR_ITERATIONS (limit - task_test_tls_destructor_calls ?w)\<rparr>)"
      by (rule reentry_passes) (use a \<open>i < TASK_TLS_KEYS\<close> in auto)
    then show ?thesis using i a \<open>i < TASK_TLS_KEYS\<close>
      by (auto simp: task_tls_reentry_test_def task_tls_alloc_def task_tls_test_worker_def task_tls_set_def
          set_error_def task_tls_cleanup_def Let_def min.commute)
  qed
  moreover have "(\<forall>i < TASK_TLS_KEYS. task_tls_get idx (Some i) t' = 0) \<and> (polite run \<longrightarrow> same_elsewhere idx t t')"
    if "idx < LUNA_RESOURCE_SLOTS + 2" "task_tls_cleanup run idx (t, w) = (t', w')"
    for run :: "'w destructor" and idx t w t' w'
    using tls_cleanup_clears [OF that] tls_cleanup_frame [OF _ that(2)] by (auto simp: task_tls_get_def)
  ultimately show ?thesis by blast
qed

theorem tls_cleanup_correct_witness:
  "fst (task_tls_reentry_test 4096 6 4 (Some 2) (\<lambda>_. \<lparr>tls_used = False, tls_data = (\<lambda>_. 0), tls_destructor = 0\<rparr>)) = 0"
proof -
  let ?t = "\<lambda>_. \<lparr>tls_used = False, tls_data = (\<lambda>_. 0), tls_destructor = 0\<rparr>"
  have "(4096::u64) \<noteq> 0 \<and> 0 < (6::nat) \<and> (2::nat) < LUNA_RESOURCE_SLOTS + 2 \<and> 0 < TASK_TLS_KEYS \<and>
      \<not> tls_used (?t 0) \<and> (\<forall>j < TASK_TLS_KEYS. tls_data (?t j) 2 = 0)"
    by (simp add: luna_consts)
  from tls_cleanup_correct [THEN conjunct2, rule_format, OF this] show ?thesis
    by (simp add: luna_consts)
qed

end
