(* ===== verification/Task_Thread.thy ===== *)
theory Task_Thread
  imports Task_Sync Task_Tls
begin

text \<open>
  The host threads of the child (\<open>lkl_task_host.c\<close>): the table of 47 slots, creation, completion,
  detach, exit and join. Sections under the table lock are one step each; a thread's life between
  them (start, body, TLS cleanup, publication of \<open>exited\<close>, signal, suspension) and the three phases
  of a join are program counters, so every interleaving of creators, joiners and threads is a run
  of \<open>thread_step\<close>. The join notifications are the kernel's, described by \<open>ntfn_ops\<close>.
\<close>

record task_thread_slot =
  ts_fn :: u64
  ts_arg :: u64
  ts_tid :: u64
  ts_tls_index :: nat
  ts_used :: bool
  ts_exited :: bool
  ts_join_claimed :: bool
  ts_detached :: bool

text \<open>Life of the kernel thread of a slot.\<close>

datatype thread_life =
    Suspended
  | Started         \<comment> \<open>the trampoline has not read its slot yet\<close>
  | Running u64 nat \<comment> \<open>in \<open>fn\<close>, with \<open>current_tid\<close> and \<open>current_tls_index\<close>\<close>
  | Completing      \<comment> \<open>in \<open>task_thread_complete\<close>\<close>
  | Exited          \<comment> \<open>\<open>exited\<close> is published, before the signal\<close>
  | Signalled       \<comment> \<open>before its own \<open>seL4_TCB_Suspend\<close>\<close>

datatype join_pc =
    Join_Idle
  | Join_Check nat u64 \<comment> \<open>claimed; before reading \<open>exited\<close>\<close>
  | Join_Wait nat u64
  | Join_Poll nat u64
  | Join_Reap nat u64

datatype create_pc = Create_Idle | Create_Start nat

record ('n, 'w) thread_sys =
  task_threads :: "nat \<Rightarrow> task_thread_slot"
  task_next_tid :: u64
  task_thread_current :: nat
  task_thread_peak :: nat
  th_bit :: "nat \<Rightarrow> 'n"                  \<comment> \<open>join notification of the slot\<close>
  th_life :: "nat \<Rightarrow> thread_life"
  th_tls :: "tls_table \<times> 'w"
  th_join :: "nat \<Rightarrow> join_pc"             \<comment> \<open>by caller\<close>
  th_create :: "nat \<Rightarrow> create_pc"
  th_joined :: "u64 list"                \<comment> \<open>ghost: identifiers whose join returned 0\<close>
  th_done :: "u64 set"                   \<comment> \<open>ghost: identifiers whose thread published \<open>exited\<close>\<close>

definition put_thread :: "nat \<Rightarrow> task_thread_slot \<Rightarrow> ('n, 'w) thread_sys \<Rightarrow> ('n, 'w) thread_sys" where
  "put_thread i x s = s\<lparr>task_threads := (task_threads s)(i := x)\<rparr>"

definition thread_by_tid_unlocked :: "u64 \<Rightarrow> ('n, 'w) thread_sys \<Rightarrow> nat option" where
  "thread_by_tid_unlocked tid s =
     (if tid < 2 then None
      else first_index (\<lambda>i. ts_used (task_threads s i) \<and> ts_tid (task_threads s i) = tid) LUNA_LKL_THREAD_SLOTS)"

definition ntfn_poll :: "'n ntfn_ops \<Rightarrow> 'n \<Rightarrow> 'n" where
  "ntfn_poll K n = (if ntfn_ready K n then ntfn_consume K n else n)"

definition task_thread_drain_join :: "'n ntfn_ops \<Rightarrow> nat \<Rightarrow> ('n, 'w) thread_sys \<Rightarrow> ('n, 'w) thread_sys" where
  "task_thread_drain_join K i s = s\<lparr>th_bit := (th_bit s)(i := ntfn_poll K (th_bit s i))\<rparr>"

definition suspend :: "nat \<Rightarrow> ('n, 'w) thread_sys \<Rightarrow> ('n, 'w) thread_sys" where
  "suspend i s = s\<lparr>th_life := (th_life s)(i := Suspended)\<rparr>"

definition one_less :: "('n, 'w) thread_sys \<Rightarrow> ('n, 'w) thread_sys" where
  "one_less s = s\<lparr>task_thread_current := task_thread_current s - 1\<rparr>"

section \<open>Creation\<close>

definition reap_slot :: "'n ntfn_ops \<Rightarrow> nat \<Rightarrow> ('n, 'w) thread_sys \<Rightarrow> ('n, 'w) thread_sys" where
  "reap_slot K i s =
     (let x = task_threads s i in
      if \<not> ts_used x \<or> \<not> ts_detached x \<or> \<not> ts_exited x then s
      else one_less (put_thread i (x\<lparr>ts_fn := 0, ts_arg := 0, ts_tid := 0, ts_exited := False,
             ts_join_claimed := False, ts_detached := False, ts_used := False\<rparr>)
             (task_thread_drain_join K i (suspend i s))))"

fun reap_detached :: "'n ntfn_ops \<Rightarrow> nat \<Rightarrow> nat \<Rightarrow> ('n, 'w) thread_sys \<Rightarrow> ('n, 'w) thread_sys" where
  "reap_detached K i 0 s = s"
| "reap_detached K i (Suc n) s = reap_detached K (i + 1) n (reap_slot K i s)"

definition select_slot :: "'n ntfn_ops \<Rightarrow> u64 \<Rightarrow> u64 \<Rightarrow> ('n, 'w) thread_sys \<Rightarrow> nat option \<times> ('n, 'w) thread_sys" where
  "select_slot K fn arg s =
     (case first_index (\<lambda>i. \<not> ts_used (task_threads s i)) LUNA_LKL_THREAD_SLOTS of
        None \<Rightarrow> (None, s)
      | Some i \<Rightarrow>
          let s = task_thread_drain_join K i s;
              tid = task_next_tid s;
              current = task_thread_current s + 1
          in (Some i, (put_thread i \<lparr>ts_fn = fn, ts_arg = arg, ts_tid = (if tid < 2 then 2 else tid),
                        ts_tls_index = i + 2, ts_used = True, ts_exited = False, ts_join_claimed = False,
                        ts_detached = False\<rparr> s)
               \<lparr>task_next_tid := tid + 1, task_thread_current := current,
                task_thread_peak := task_resource_peak (task_thread_peak s) current\<rparr>))"

text \<open>The section under the table lock, and the one after a failed \<open>sel4utils_start_thread\<close>.\<close>

definition create_reserve :: "'n ntfn_ops \<Rightarrow> u64 \<Rightarrow> u64 \<Rightarrow> ('n, 'w) thread_sys \<Rightarrow> nat option \<times> ('n, 'w) thread_sys" where
  "create_reserve K fn arg s = select_slot K fn arg (reap_detached K 0 LUNA_LKL_THREAD_SLOTS s)"

definition create_undo :: "nat \<Rightarrow> ('n, 'w) thread_sys \<Rightarrow> ('n, 'w) thread_sys" where
  "create_undo i s =
     one_less (put_thread i ((task_threads s i)\<lparr>ts_tid := 0, ts_fn := 0, ts_arg := 0, ts_used := False\<rparr>) s)"

text \<open>
  \<open>task_thread_create\<close> as one call, for the result it returns: \<open>start_ok\<close> is whether
  \<open>sel4utils_start_thread\<close> succeeds.
\<close>

definition task_thread_create ::
  "'n ntfn_ops \<Rightarrow> bool \<Rightarrow> u64 \<Rightarrow> u64 \<Rightarrow> ('n, 'w) thread_sys \<Rightarrow> u64 \<times> ('n, 'w) thread_sys" where
  "task_thread_create K start_ok fn arg s =
     (case create_reserve K fn arg s of
        (None, s) \<Rightarrow> (0, s)
      | (Some i, s) \<Rightarrow>
          if \<not> start_ok then (0, create_undo i s)
          else (ts_tid (task_threads s i), s\<lparr>th_life := (th_life s)(i := Started)\<rparr>))"

definition task_thread_detach :: "u64 \<Rightarrow> ('n, 'w) thread_sys \<Rightarrow> ('n, 'w) thread_sys" where
  "task_thread_detach current_tid s =
     (case thread_by_tid_unlocked current_tid s of
        None \<Rightarrow> s
      | Some i \<Rightarrow> put_thread i ((task_threads s i)\<lparr>ts_detached := True\<rparr>) s)"

section \<open>Join\<close>

definition join_claim :: "u64 \<Rightarrow> ('n, 'w) thread_sys \<Rightarrow> nat option \<times> ('n, 'w) thread_sys" where
  "join_claim tid s =
     (case thread_by_tid_unlocked tid s of
        None \<Rightarrow> (None, s)
      | Some i \<Rightarrow>
          if ts_join_claimed (task_threads s i) \<or> ts_detached (task_threads s i) then (None, s)
          else (Some i, put_thread i ((task_threads s i)\<lparr>ts_join_claimed := True\<rparr>) s))"

text \<open>The closing section; \<open>False\<close> is the \<open>-1\<close> return.\<close>

definition join_reap :: "nat \<Rightarrow> u64 \<Rightarrow> ('n, 'w) thread_sys \<Rightarrow> bool \<times> ('n, 'w) thread_sys" where
  "join_reap i tid s =
     (let x = task_threads s i in
      if \<not> ts_used x \<or> ts_tid x \<noteq> tid then (False, s)
      else (True, one_less (put_thread i (x\<lparr>ts_fn := 0, ts_arg := 0, ts_tid := 0, ts_exited := False,
              ts_detached := False, ts_used := False\<rparr>) (suspend i s))))"

text \<open>\<open>task_thread_join\<close> with nothing else running: \<open>None\<close> where \<open>seL4_Wait\<close> would block.\<close>

definition task_thread_join :: "'n ntfn_ops \<Rightarrow> u64 \<Rightarrow> ('n, 'w) thread_sys \<Rightarrow> (c_int \<times> ('n, 'w) thread_sys) option" where
  "task_thread_join K tid s =
     (if tid = 1 then Some (0, s)
      else case join_claim tid s of
        (None, s) \<Rightarrow> Some (-1, s)
      | (Some i, s) \<Rightarrow>
          if \<not> ts_exited (task_threads s i) \<and> \<not> ntfn_ready K (th_bit s i) then None
          else let (ok, s) = join_reap i tid (task_thread_drain_join K i s)
               in Some (if ok then 0 else -1, s))"

section \<open>Interleavings\<close>

definition life :: "nat \<Rightarrow> thread_life \<Rightarrow> ('n, 'w) thread_sys \<Rightarrow> ('n, 'w) thread_sys" where
  "life i l s = s\<lparr>th_life := (th_life s)(i := l)\<rparr>"

definition joining :: "nat \<Rightarrow> join_pc \<Rightarrow> ('n, 'w) thread_sys \<Rightarrow> ('n, 'w) thread_sys" where
  "joining j pc s = s\<lparr>th_join := (th_join s)(j := pc)\<rparr>"

definition creating :: "nat \<Rightarrow> create_pc \<Rightarrow> ('n, 'w) thread_sys \<Rightarrow> ('n, 'w) thread_sys" where
  "creating c pc s = s\<lparr>th_create := (th_create s)(c := pc)\<rparr>"

text \<open>
  Steps of thread slots \<open>i\<close>, join callers \<open>j\<close> and creators \<open>c\<close>. \<open>run\<close> interprets the TLS destructors;
  a body may use its own thread-local values.
\<close>

inductive thread_step :: "'n ntfn_ops \<Rightarrow> 'w destructor \<Rightarrow> ('n, 'w) thread_sys \<Rightarrow> ('n, 'w) thread_sys \<Rightarrow> bool"
  for K run where
  create_fail: "th_create s c = Create_Idle \<Longrightarrow> create_reserve K fn arg s = (None, s') \<Longrightarrow> thread_step K run s s'"
| create_slot: "th_create s c = Create_Idle \<Longrightarrow> create_reserve K fn arg s = (Some i, s') \<Longrightarrow>
    thread_step K run s (creating c (Create_Start i) s')"
| create_start: "th_create s c = Create_Start i \<Longrightarrow> thread_step K run s (creating c Create_Idle (life i Started s))"
| create_abort: "th_create s c = Create_Start i \<Longrightarrow> thread_step K run s (creating c Create_Idle (create_undo i s))"
| trampoline: "i < LUNA_LKL_THREAD_SLOTS \<Longrightarrow> th_life s i = Started \<Longrightarrow>
    thread_step K run s (life i (Running (ts_tid (task_threads s i)) (ts_tls_index (task_threads s i))) s)"
| body_tls: "i < LUNA_LKL_THREAD_SLOTS \<Longrightarrow> th_life s i = Running tid idx \<Longrightarrow>
    thread_step K run s (s\<lparr>th_tls := (snd (task_tls_set idx (Some k) v (fst (th_tls s))), snd (th_tls s))\<rparr>)"
| body_detach: "i < LUNA_LKL_THREAD_SLOTS \<Longrightarrow> th_life s i = Running tid idx \<Longrightarrow>
    thread_step K run s (task_thread_detach tid s)"
| body_return: "i < LUNA_LKL_THREAD_SLOTS \<Longrightarrow> th_life s i = Running tid idx \<Longrightarrow> thread_step K run s (life i Completing s)"
| body_exit: "i < LUNA_LKL_THREAD_SLOTS \<Longrightarrow> th_life s i = Running tid idx \<Longrightarrow> thread_by_tid_unlocked tid s = Some k \<Longrightarrow>
    thread_step K run s (life k Completing s)"
| complete: "i < LUNA_LKL_THREAD_SLOTS \<Longrightarrow> th_life s i = Completing \<Longrightarrow>
    thread_step K run s (life i Exited (put_thread i ((task_threads s i)\<lparr>ts_exited := True\<rparr>)
      (s\<lparr>th_tls := task_tls_cleanup run (ts_tls_index (task_threads s i)) (th_tls s),
         th_done := insert (ts_tid (task_threads s i)) (th_done s)\<rparr>)))"
| signal: "i < LUNA_LKL_THREAD_SLOTS \<Longrightarrow> th_life s i = Exited \<Longrightarrow>
    thread_step K run s (life i Signalled (s\<lparr>th_bit := (th_bit s)(i := ntfn_signal K (th_bit s i))\<rparr>))"
| suspend_self: "i < LUNA_LKL_THREAD_SLOTS \<Longrightarrow> th_life s i = Signalled \<Longrightarrow> thread_step K run s (suspend i s)"
| join_refused: "th_join s j = Join_Idle \<Longrightarrow> join_claim tid s = (None, s') \<Longrightarrow> thread_step K run s s'"
| join_claimed: "th_join s j = Join_Idle \<Longrightarrow> join_claim tid s = (Some i, s') \<Longrightarrow>
    thread_step K run s (joining j (Join_Check i tid) s')"
| join_check: "th_join s j = Join_Check i tid \<Longrightarrow>
    thread_step K run s (joining j (if ts_exited (task_threads s i) then Join_Poll i tid else Join_Wait i tid) s)"
| join_wait: "th_join s j = Join_Wait i tid \<Longrightarrow> ntfn_ready K (th_bit s i) \<Longrightarrow>
    thread_step K run s (joining j (Join_Reap i tid) (s\<lparr>th_bit := (th_bit s)(i := ntfn_consume K (th_bit s i))\<rparr>))"
| join_poll: "th_join s j = Join_Poll i tid \<Longrightarrow>
    thread_step K run s (joining j (Join_Reap i tid) (s\<lparr>th_bit := (th_bit s)(i := ntfn_poll K (th_bit s i))\<rparr>))"
| join_lost: "th_join s j = Join_Reap i tid \<Longrightarrow> join_reap i tid s = (False, s') \<Longrightarrow>
    thread_step K run s (joining j Join_Idle s')"
| join_done: "th_join s j = Join_Reap i tid \<Longrightarrow> join_reap i tid s = (True, s') \<Longrightarrow>
    thread_step K run s (joining j Join_Idle (s'\<lparr>th_joined := tid # th_joined s'\<rparr>))"


section \<open>Invariant\<close>

abbreviation slot_of :: "('n, 'w) thread_sys \<Rightarrow> nat \<Rightarrow> task_thread_slot" where
  "slot_of s i \<equiv> task_threads s i"

definition tids_ok :: "('n, 'w) thread_sys \<Rightarrow> bool" where
  "tids_ok s \<longleftrightarrow> 2 \<le> task_next_tid s \<and>
     (\<forall>i < LUNA_LKL_THREAD_SLOTS. ts_used (slot_of s i) \<longrightarrow> 2 \<le> ts_tid (slot_of s i) \<and>
        ts_tid (slot_of s i) < task_next_tid s \<and> ts_tls_index (slot_of s i) = i + 2) \<and>
     (\<forall>i < LUNA_LKL_THREAD_SLOTS. \<forall>j < LUNA_LKL_THREAD_SLOTS. ts_used (slot_of s i) \<longrightarrow> ts_used (slot_of s j) \<longrightarrow>
        ts_tid (slot_of s i) = ts_tid (slot_of s j) \<longrightarrow> i = j)"

definition count_ok :: "('n, 'w) thread_sys \<Rightarrow> bool" where
  "count_ok s \<longleftrightarrow> task_thread_current s = count_below (\<lambda>i. ts_used (slot_of s i)) LUNA_LKL_THREAD_SLOTS"

fun life_ok :: "nat \<Rightarrow> thread_life \<Rightarrow> task_thread_slot \<Rightarrow> bool" where
  "life_ok i Suspended x \<longleftrightarrow> True"
| "life_ok i (Running tid idx) x \<longleftrightarrow> ts_used x \<and> \<not> ts_exited x \<and> tid = ts_tid x \<and> idx = i + 2"
| "life_ok i Started x \<longleftrightarrow> ts_used x \<and> \<not> ts_exited x"
| "life_ok i Completing x \<longleftrightarrow> ts_used x \<and> \<not> ts_exited x"
| "life_ok i Exited x \<longleftrightarrow> ts_used x \<and> ts_exited x"
| "life_ok i Signalled x \<longleftrightarrow> ts_used x \<and> ts_exited x"

definition lives_ok :: "('n, 'w) thread_sys \<Rightarrow> bool" where
  "lives_ok s \<longleftrightarrow> (\<forall>i < LUNA_LKL_THREAD_SLOTS. life_ok i (th_life s i) (slot_of s i))"

definition exits_ok :: "'n ntfn_ops \<Rightarrow> ('n, 'w) thread_sys \<Rightarrow> bool" where
  "exits_ok K s \<longleftrightarrow> (\<forall>i < LUNA_LKL_THREAD_SLOTS. ts_used (slot_of s i) \<longrightarrow>
     (ntfn_ready K (th_bit s i) \<longrightarrow> ts_exited (slot_of s i)) \<and>
     (ts_exited (slot_of s i) \<longrightarrow> ts_tid (slot_of s i) \<in> th_done s))"

definition creators_ok :: "('n, 'w) thread_sys \<Rightarrow> bool" where
  "creators_ok s \<longleftrightarrow>
     (\<forall>c i. th_create s c = Create_Start i \<longrightarrow> i < LUNA_LKL_THREAD_SLOTS \<and> ts_used (slot_of s i) \<and>
        \<not> ts_exited (slot_of s i) \<and> th_life s i = Suspended) \<and>
     (\<forall>c d i. th_create s c = Create_Start i \<longrightarrow> th_create s d = Create_Start i \<longrightarrow> c = d)"

fun join_target :: "join_pc \<Rightarrow> (nat \<times> u64) option" where
  "join_target Join_Idle = None"
| "join_target (Join_Check i tid) = Some (i, tid)"
| "join_target (Join_Wait i tid) = Some (i, tid)"
| "join_target (Join_Poll i tid) = Some (i, tid)"
| "join_target (Join_Reap i tid) = Some (i, tid)"

fun join_late :: "join_pc \<Rightarrow> bool" where
  "join_late (Join_Poll i tid) = True"
| "join_late (Join_Reap i tid) = True"
| "join_late _ = False"

definition joiners_ok :: "('n, 'w) thread_sys \<Rightarrow> bool" where
  "joiners_ok s \<longleftrightarrow>
     (\<forall>j i tid. join_target (th_join s j) = Some (i, tid) \<longrightarrow>
        i < LUNA_LKL_THREAD_SLOTS \<and> tid < task_next_tid s \<and> tid \<notin> set (th_joined s) \<and>
        (join_late (th_join s j) \<and> ts_used (slot_of s i) \<and> ts_tid (slot_of s i) = tid \<longrightarrow> ts_exited (slot_of s i))) \<and>
     (\<forall>j k i i' tid. join_target (th_join s j) = Some (i, tid) \<longrightarrow> join_target (th_join s k) = Some (i', tid) \<longrightarrow> j = k)"

definition joined_ok :: "('n, 'w) thread_sys \<Rightarrow> bool" where
  "joined_ok s \<longleftrightarrow> distinct (th_joined s) \<and> set (th_joined s) \<subseteq> th_done s \<and>
     (\<forall>tid \<in> th_done s. tid < task_next_tid s) \<and>
     (\<forall>i < LUNA_LKL_THREAD_SLOTS. ts_used (slot_of s i) \<longrightarrow> ts_tid (slot_of s i) \<notin> set (th_joined s) \<and>
        (\<not> ts_join_claimed (slot_of s i) \<longrightarrow> (\<forall>j k. join_target (th_join s j) \<noteq> Some (k, ts_tid (slot_of s i)))))"

definition tls_ok :: "('n, 'w) thread_sys \<Rightarrow> bool" where
  "tls_ok s \<longleftrightarrow> (\<forall>i < LUNA_LKL_THREAD_SLOTS. th_life s i \<in> {Suspended, Started, Exited, Signalled} \<longrightarrow>
     (\<forall>k < TASK_TLS_KEYS. tls_data (fst (th_tls s) k) (i + 2) = 0))"

lemmas thread_ok_defs = tids_ok_def lives_ok_def exits_ok_def creators_ok_def joiners_ok_def joined_ok_def tls_ok_def
lemmas thread_ops = put_thread_def task_thread_drain_join_def suspend_def one_less_def life_def joining_def
  creating_def create_undo_def

lemma by_tid_Some:
  "thread_by_tid_unlocked tid s = Some i \<Longrightarrow>
     2 \<le> tid \<and> i < LUNA_LKL_THREAD_SLOTS \<and> ts_used (slot_of s i) \<and> ts_tid (slot_of s i) = tid"
  by (auto simp: thread_by_tid_unlocked_def not_less split: if_splits dest!: first_index_Some)

lemma by_tid_own:
  assumes "tids_ok s" "i < LUNA_LKL_THREAD_SLOTS" "ts_used (slot_of s i)"
  shows "thread_by_tid_unlocked (ts_tid (slot_of s i)) s = Some i"
proof -
  let ?P = "\<lambda>k. ts_used (slot_of s k) \<and> ts_tid (slot_of s k) = ts_tid (slot_of s i)"
  have g: "2 \<le> ts_tid (slot_of s i)" using assms by (simp add: tids_ok_def)
  obtain k where "first_index ?P LUNA_LKL_THREAD_SLOTS = Some k"
    using first_index_ex [OF assms(2), of ?P] assms(3) by auto
  moreover from first_index_Some [OF this] have "k = i" using assms unfolding tids_ok_def by metis
  ultimately show ?thesis using g by (simp add: thread_by_tid_unlocked_def not_less [symmetric])
qed

lemma next_greater: "(n :: u64) \<noteq> - 1 \<Longrightarrow> n < n + 1"
  by uint_arith (simp add: unsigned_minus_1_eq_mask mask_eq_exp_minus_1)

definition thread_inv :: "'n ntfn_ops \<Rightarrow> ('n, 'w) thread_sys \<Rightarrow> bool" where
  "thread_inv K s \<longleftrightarrow> tids_ok s \<and> count_ok s \<and> lives_ok s \<and> exits_ok K s \<and> creators_ok s \<and> joiners_ok s \<and>
     joined_ok s \<and> tls_ok s"

lemma count_free:
  assumes "count_ok s" "i < LUNA_LKL_THREAD_SLOTS" "ts_used (slot_of s i)"
    "task_threads s' = (task_threads s)(i := x)" "\<not> ts_used x" "task_thread_current s' = task_thread_current s - 1"
  shows "count_ok s'"
proof -
  let ?P = "\<lambda>i. ts_used (slot_of s i)"
  have "count_below (?P(i := False)) LUNA_LKL_THREAD_SLOTS = count_below (\<lambda>j. ts_used (slot_of s' j)) LUNA_LKL_THREAD_SLOTS"
    by (rule count_below_cong) (simp add: assms)
  then show ?thesis using count_below_clear [of i LUNA_LKL_THREAD_SLOTS ?P] assms
    unfolding count_ok_def by (metis diff_Suc_1)
qed

lemma count_take:
  assumes "count_ok s" "i < LUNA_LKL_THREAD_SLOTS" "\<not> ts_used (slot_of s i)"
    "task_threads s' = (task_threads s)(i := x)" "ts_used x" "task_thread_current s' = task_thread_current s + 1"
  shows "count_ok s'"
proof -
  let ?P = "\<lambda>i. ts_used (slot_of s i)"
  have "count_below (?P(i := True)) LUNA_LKL_THREAD_SLOTS = count_below (\<lambda>j. ts_used (slot_of s' j)) LUNA_LKL_THREAD_SLOTS"
    by (rule count_below_cong) (simp add: assms)
  then show ?thesis using count_below_set [of i LUNA_LKL_THREAD_SLOTS ?P] assms
    unfolding count_ok_def by simp
qed

lemma count_same:
  "count_ok s \<Longrightarrow> task_thread_current s' = task_thread_current s \<Longrightarrow>
   \<forall>i. ts_used (slot_of s' i) = ts_used (slot_of s i) \<Longrightarrow> count_ok s'"
  by (simp add: count_ok_def)

lemma life_ok_cong:
  "ts_used x = ts_used y \<Longrightarrow> ts_exited x = ts_exited y \<Longrightarrow> ts_tid x = ts_tid y \<Longrightarrow> life_ok i l x = life_ok i l y"
  by (cases l) simp_all

lemma unused_suspended:
  "lives_ok s \<Longrightarrow> i < LUNA_LKL_THREAD_SLOTS \<Longrightarrow> \<not> ts_used (slot_of s i) \<Longrightarrow> th_life s i = Suspended"
  unfolding lives_ok_def by (drule spec [of _ i]) (cases "th_life s i"; simp)

lemma exited_at_rest:
  "lives_ok s \<Longrightarrow> i < LUNA_LKL_THREAD_SLOTS \<Longrightarrow> ts_exited (slot_of s i) \<Longrightarrow>
   th_life s i = Suspended \<or> th_life s i = Exited \<or> th_life s i = Signalled"
  unfolding lives_ok_def by (drule spec [of _ i]) (cases "th_life s i"; simp)

lemma life_used:
  "lives_ok s \<Longrightarrow> i < LUNA_LKL_THREAD_SLOTS \<Longrightarrow> th_life s i \<noteq> Suspended \<Longrightarrow> ts_used (slot_of s i)"
  using unused_suspended by blast

lemma life_active:
  "lives_ok s \<Longrightarrow> i < LUNA_LKL_THREAD_SLOTS \<Longrightarrow> th_life s i \<notin> {Suspended, Exited, Signalled} \<Longrightarrow> \<not> ts_exited (slot_of s i)"
  using exited_at_rest by blast

section \<open>Reaping and reserving\<close>

lemma reap_slot_inv:
  assumes "thread_inv K s" "i < LUNA_LKL_THREAD_SLOTS"
  shows "thread_inv K (reap_slot K i s)"
proof (cases "ts_used (slot_of s i) \<and> ts_detached (slot_of s i) \<and> ts_exited (slot_of s i)")
  case True
  let ?s = "reap_slot K i s"
  have parts: "tids_ok s" "count_ok s" "lives_ok s" "exits_ok K s" "creators_ok s" "joiners_ok s" "joined_ok s" "tls_ok s"
    using assms by (auto simp: thread_inv_def)
  have s: "?s = s\<lparr>task_threads := (task_threads s)(i := (slot_of s i)\<lparr>ts_fn := 0, ts_arg := 0, ts_tid := 0, ts_exited := False,
             ts_join_claimed := False, ts_detached := False, ts_used := False\<rparr>),
           th_bit := (th_bit s)(i := ntfn_poll K (th_bit s i)), th_life := (th_life s)(i := Suspended),
           task_thread_current := task_thread_current s - 1\<rparr>"
    using True by (simp add: reap_slot_def Let_def thread_ops)
  have "count_ok ?s" by (rule count_free [OF parts(2) assms(2)]) (use True in \<open>auto simp: s\<close>)
  moreover have "tids_ok ?s" using parts(1) by (auto simp: s tids_ok_def)
  moreover have "lives_ok ?s" using parts(3) by (auto simp: s lives_ok_def)
  moreover have "exits_ok K ?s" using parts(4) by (auto simp: s exits_ok_def)
  moreover have "creators_ok ?s" using parts(5) True by (auto simp: s creators_ok_def)
  moreover have "joiners_ok ?s" using parts(6) by (auto simp: s joiners_ok_def)
  moreover have "joined_ok ?s" using parts(7) by (auto simp: s joined_ok_def)
  moreover have "tls_ok ?s"
  proof -
    have "th_life s i \<in> {Suspended, Exited, Signalled}"
      using exited_at_rest [OF parts(3) assms(2)] True by auto
    then show ?thesis using parts(8) assms(2) by (auto simp: s tls_ok_def)
  qed
  ultimately show ?thesis by (simp add: thread_inv_def)
qed (use assms in \<open>auto simp: reap_slot_def Let_def\<close>)

lemma reap_detached_inv:
  "thread_inv K s \<Longrightarrow> i + n \<le> LUNA_LKL_THREAD_SLOTS \<Longrightarrow> thread_inv K (reap_detached K i n s)"
  by (induction n arbitrary: i s) (simp_all add: reap_slot_inv)

lemma reap_slot_same:
  "task_next_tid (reap_slot K i s) = task_next_tid s" "th_create (reap_slot K i s) = th_create s"
  "th_join (reap_slot K i s) = th_join s" "th_joined (reap_slot K i s) = th_joined s"
  "th_done (reap_slot K i s) = th_done s"
  by (simp_all add: reap_slot_def Let_def thread_ops)

lemma reap_detached_same:
  "task_next_tid (reap_detached K i n s) = task_next_tid s \<and> th_create (reap_detached K i n s) = th_create s \<and>
   th_join (reap_detached K i n s) = th_join s \<and> th_joined (reap_detached K i n s) = th_joined s \<and>
   th_done (reap_detached K i n s) = th_done s"
  by (induction n arbitrary: i s) (simp_all add: reap_slot_same)

lemma select_slot_inv:
  assumes "thread_inv K s" "select_slot K fn arg s = (Some i, s')" "task_next_tid s \<noteq> - 1"
    "\<forall>n. \<not> ntfn_ready K (ntfn_consume K n)" "th_create s c = Create_Idle"
  shows "thread_inv K (creating c (Create_Start i) s')"
proof -
  let ?s = "creating c (Create_Start i) s'"
  have parts: "tids_ok s" "count_ok s" "lives_ok s" "exits_ok K s" "creators_ok s" "joiners_ok s" "joined_ok s" "tls_ok s"
    using assms by (auto simp: thread_inv_def)
  have i: "i < LUNA_LKL_THREAD_SLOTS" "\<not> ts_used (slot_of s i)"
    using assms(2) by (auto simp: select_slot_def Let_def split: option.splits dest!: first_index_Some)
  have tid: "\<not> task_next_tid s < 2" using parts(1) by (simp add: tids_ok_def not_less)
  have sus: "th_life s i = Suspended" by (rule unused_suspended [OF parts(3) i])
  have lt: "task_next_tid s < task_next_tid s + 1" by (rule next_greater [OF assms(3)])
  obtain x where x: "ts_tid x = task_next_tid s" "ts_tls_index x = i + 2" "ts_used x" "\<not> ts_exited x"
      "\<not> ts_join_claimed x"
    and s: "task_threads ?s = (task_threads s)(i := x)" "task_next_tid ?s = task_next_tid s + 1"
      "task_thread_current ?s = task_thread_current s + 1" "th_life ?s = th_life s"
      "th_bit ?s = (th_bit s)(i := ntfn_poll K (th_bit s i))" "th_tls ?s = th_tls s" "th_join ?s = th_join s"
      "th_create ?s = (th_create s)(c := Create_Start i)" "th_joined ?s = th_joined s" "th_done ?s = th_done s"
  proof -
    show thesis
      by (rule that [of "task_threads s' i"])
        (use assms(2) tid in \<open>auto simp: select_slot_def Let_def thread_ops split: option.splits\<close>)
  qed
  have "count_ok ?s" by (rule count_take [OF parts(2) i]) (use s x in auto)
  moreover have "tids_ok ?s" using parts(1) lt x by (auto simp: s tids_ok_def)
  moreover have "lives_ok ?s" using parts(3) sus by (auto simp: s lives_ok_def)
  moreover have "exits_ok K ?s" using parts(4) assms(4) x by (auto simp: s exits_ok_def ntfn_poll_def)
  moreover have "creators_ok ?s" using parts(5) i sus x by (auto simp: s creators_ok_def)
  moreover have "joiners_ok ?s" using parts(6) lt x by (fastforce simp: s joiners_ok_def)
  moreover have "joined_ok ?s" using parts(6,7) lt x by (fastforce simp: s joined_ok_def joiners_ok_def)
  moreover have "tls_ok ?s" using parts(8) by (auto simp: s tls_ok_def)
  ultimately show ?thesis by (simp add: thread_inv_def)
qed

section \<open>Every step\<close>

text \<open>A step that leaves the table of slots, the identifiers and the ghosts alone.\<close>

lemma thread_inv_parts:
  assumes "thread_inv K s"
  shows "tids_ok s" "count_ok s" "lives_ok s" "exits_ok K s" "creators_ok s" "joiners_ok s" "joined_ok s" "tls_ok s"
  using assms by (auto simp: thread_inv_def)

lemma thread_invI:
  "\<lbrakk>tids_ok s; count_ok s; lives_ok s; exits_ok K s; creators_ok s; joiners_ok s; joined_ok s; tls_ok s\<rbrakk> \<Longrightarrow>
   thread_inv K s"
  by (simp add: thread_inv_def)

lemma create_start_inv:
  assumes "thread_inv K s" "th_create s c = Create_Start i"
  shows "thread_inv K (creating c Create_Idle (life i Started s))"
proof -
  note parts = thread_inv_parts [OF assms(1)]
  have i: "i < LUNA_LKL_THREAD_SLOTS" "ts_used (slot_of s i)" "\<not> ts_exited (slot_of s i)" "th_life s i = Suspended"
    and only: "\<And>d. th_create s d = Create_Start i \<Longrightarrow> d = c"
    using parts(5) assms(2) by (auto simp: creators_ok_def)
  show ?thesis
  proof (rule thread_invI)
    show "creators_ok (creating c Create_Idle (life i Started s))"
      using parts(5) only by (auto simp: creators_ok_def thread_ops)
    show "tls_ok (creating c Create_Idle (life i Started s))"
      using parts(8) i by (auto simp: tls_ok_def thread_ops)
  qed (use parts i in \<open>auto simp: tids_ok_def count_ok_def lives_ok_def exits_ok_def joiners_ok_def joined_ok_def thread_ops\<close>)
qed

lemma create_abort_inv:
  assumes "thread_inv K s" "th_create s c = Create_Start i"
  shows "thread_inv K (creating c Create_Idle (create_undo i s))"
proof -
  note parts = thread_inv_parts [OF assms(1)]
  let ?s = "creating c Create_Idle (create_undo i s)"
  have i: "i < LUNA_LKL_THREAD_SLOTS" "ts_used (slot_of s i)" "\<not> ts_exited (slot_of s i)" "th_life s i = Suspended"
    and only: "\<And>d. th_create s d = Create_Start i \<Longrightarrow> d = c"
    using parts(5) assms(2) by (auto simp: creators_ok_def)
  show ?thesis
  proof (rule thread_invI)
    show "count_ok ?s" by (rule count_free [OF parts(2) i(1,2)]) (auto simp: thread_ops)
    show "creators_ok ?s" using parts(5) only by (auto simp: creators_ok_def thread_ops)
    show "lives_ok ?s" using parts(3) i by (auto simp: lives_ok_def thread_ops)
  qed (use parts i in \<open>auto simp: tids_ok_def exits_ok_def joiners_ok_def joined_ok_def tls_ok_def thread_ops\<close>)
qed

lemma detach_inv:
  assumes "thread_inv K s"
  shows "thread_inv K (task_thread_detach tid s)"
proof (cases "thread_by_tid_unlocked tid s")
  case (Some i)
  note parts = thread_inv_parts [OF assms]
  let ?s = "task_thread_detach tid s"
  have s: "?s = s\<lparr>task_threads := (task_threads s)(i := (slot_of s i)\<lparr>ts_detached := True\<rparr>)\<rparr>"
    using Some by (simp add: task_thread_detach_def thread_ops)
  show ?thesis
  proof (rule thread_invI)
    show "count_ok ?s" by (rule count_same [OF parts(2)]) (simp_all add: s)
    show "tids_ok ?s" using parts(1) by (auto simp: s tids_ok_def)
    show "lives_ok ?s" using parts(3) life_ok_cong [of "slot_of ?s i" "slot_of s i"] by (auto simp: s lives_ok_def)
    show "exits_ok K ?s" using parts(4) by (auto simp: s exits_ok_def)
    show "creators_ok ?s" using parts(5) by (auto simp: s creators_ok_def)
    show "joiners_ok ?s" using parts(6) by (auto simp: s joiners_ok_def)
    show "joined_ok ?s" using parts(7) by (auto simp: s joined_ok_def)
    show "tls_ok ?s" using parts(8) by (auto simp: s tls_ok_def)
  qed
qed (use assms in \<open>simp add: task_thread_detach_def\<close>)

lemma life_inv:
  assumes "thread_inv K s" "i < LUNA_LKL_THREAD_SLOTS"
    "th_life s i = Started \<and> l = Running (ts_tid (slot_of s i)) (ts_tls_index (slot_of s i)) \<or>
     (\<exists>tid idx. th_life s i = Running tid idx) \<and> l = Completing \<or> th_life s i = Signalled \<and> l = Suspended"
  shows "thread_inv K (life i l s)"
proof -
  note parts = thread_inv_parts [OF assms(1)]
  have u: "ts_used (slot_of s i)" using life_used [OF parts(3) assms(2)] assms(3) by auto
  have e: "l \<noteq> Suspended \<Longrightarrow> \<not> ts_exited (slot_of s i)" using life_active [OF parts(3) assms(2)] assms(3) by auto
  have ix: "ts_tls_index (slot_of s i) = i + 2" using parts(1) assms(2) u by (auto simp: tids_ok_def)
  have not_reserved: "th_create s c \<noteq> Create_Start i" for c using parts(5) assms(3) by (auto simp: creators_ok_def)
  show ?thesis
  proof (rule thread_invI)
    show "lives_ok (life i l s)"
      using parts(3) assms(3) u e ix by (auto simp: lives_ok_def thread_ops)
    show "creators_ok (life i l s)" using parts(5) not_reserved by (auto simp: creators_ok_def thread_ops)
    show "tls_ok (life i l s)" using parts(8) assms(3) assms(2) by (auto simp: tls_ok_def thread_ops)
  qed (use parts in \<open>auto simp: tids_ok_def count_ok_def exits_ok_def joiners_ok_def joined_ok_def thread_ops\<close>)
qed

lemma signal_inv:
  assumes "thread_inv K s" "i < LUNA_LKL_THREAD_SLOTS" "th_life s i = Exited"
  shows "thread_inv K (life i Signalled (s\<lparr>th_bit := (th_bit s)(i := ntfn_signal K (th_bit s i))\<rparr>))"
proof -
  note parts = thread_inv_parts [OF assms(1)]
  have u: "ts_used (slot_of s i)" "ts_exited (slot_of s i)"
    using parts(3) assms by (auto simp: lives_ok_def)
  have not_reserved: "th_create s c \<noteq> Create_Start i" for c using parts(5) assms(3) by (auto simp: creators_ok_def)
  let ?s = "life i Signalled (s\<lparr>th_bit := (th_bit s)(i := ntfn_signal K (th_bit s i))\<rparr>)"
  show ?thesis
  proof (rule thread_invI)
    show "lives_ok ?s" using parts(3) u by (auto simp: lives_ok_def thread_ops)
    show "creators_ok ?s" using parts(5) not_reserved by (auto simp: creators_ok_def thread_ops)
    show "tls_ok ?s" using parts(8) assms by (auto simp: tls_ok_def thread_ops)
    show "exits_ok K ?s" using parts(4) u by (auto simp: exits_ok_def thread_ops)
  qed (use parts in \<open>auto simp: tids_ok_def count_ok_def joiners_ok_def joined_ok_def thread_ops\<close>)
qed

lemma body_tls_inv:
  assumes "thread_inv K s" "i < LUNA_LKL_THREAD_SLOTS" "th_life s i = Running tid idx"
  shows "thread_inv K (s\<lparr>th_tls := (snd (task_tls_set idx (Some k) v (fst (th_tls s))), snd (th_tls s))\<rparr>)"
proof -
  note parts = thread_inv_parts [OF assms(1)]
  have idx: "idx = i + 2" using parts(3) assms(2,3) by (auto simp: lives_ok_def)
  show ?thesis
  proof (rule thread_invI)
    show "tls_ok (s\<lparr>th_tls := (snd (task_tls_set idx (Some k) v (fst (th_tls s))), snd (th_tls s))\<rparr>)"
      using parts(8) assms(3) idx by (auto simp: tls_ok_def task_tls_set_def)
  qed (use parts in \<open>auto simp: tids_ok_def lives_ok_def count_ok_def exits_ok_def creators_ok_def joiners_ok_def joined_ok_def\<close>)
qed

lemma complete_inv:
  assumes "thread_inv K s" "i < LUNA_LKL_THREAD_SLOTS" "th_life s i = Completing" "polite run"
  shows "thread_inv K (life i Exited (put_thread i ((slot_of s i)\<lparr>ts_exited := True\<rparr>)
      (s\<lparr>th_tls := task_tls_cleanup run (ts_tls_index (slot_of s i)) (th_tls s),
         th_done := insert (ts_tid (slot_of s i)) (th_done s)\<rparr>)))" (is "thread_inv K ?s")
proof -
  note parts = thread_inv_parts [OF assms(1)]
  have u: "ts_used (slot_of s i)" "\<not> ts_exited (slot_of s i)" using parts(3) assms(2,3) by (auto simp: lives_ok_def)
  have ix: "ts_tls_index (slot_of s i) = i + 2" "ts_tid (slot_of s i) < task_next_tid s"
    using parts(1) assms(2) u by (auto simp: tids_ok_def)
  have not_reserved: "th_create s c \<noteq> Create_Start i" for c using parts(5) assms(3) by (auto simp: creators_ok_def)
  obtain t w t' w' where t: "th_tls s = (t, w)" "task_tls_cleanup run (i + 2) (t, w) = (t', w')" by force
  have clear: "\<forall>k < TASK_TLS_KEYS. tls_data (t' k) (i + 2) = 0"
    using tls_cleanup_clears [OF _ t(2)] assms(2) by (auto simp: luna_consts)
  have same: "same_elsewhere (i + 2) t t'" by (rule tls_cleanup_frame [OF assms(4) t(2)])
  show ?thesis
  proof (rule thread_invI)
    show "count_ok ?s" by (rule count_same [OF parts(2)]) (simp_all add: thread_ops)
    show "lives_ok ?s" using parts(3) u by (auto simp: lives_ok_def thread_ops)
    show "exits_ok K ?s" using parts(4) u by (auto simp: exits_ok_def thread_ops)
    show "creators_ok ?s" using parts(5) not_reserved by (auto simp: creators_ok_def thread_ops)
    have "task_tls_cleanup run (ts_tls_index (slot_of s i)) (th_tls s) = (t', w')" using t ix by simp
    moreover have "\<forall>i < LUNA_LKL_THREAD_SLOTS. th_life s i \<in> {Suspended, Started, Exited, Signalled} \<longrightarrow>
        (\<forall>k < TASK_TLS_KEYS. tls_data (t k) (i + 2) = 0)"
      using parts(8) t(1) by (simp add: tls_ok_def)
    ultimately show "tls_ok ?s" using clear same by (auto simp: tls_ok_def thread_ops same_elsewhere_def)
    show "joined_ok ?s" using parts(7) ix(2) by (auto simp: joined_ok_def thread_ops)
    show "tids_ok ?s" using parts(1) by (auto simp: tids_ok_def thread_ops)
    show "joiners_ok ?s" using parts(6) by (auto simp: joiners_ok_def thread_ops)
  qed
qed

lemma join_claim_inv:
  assumes "thread_inv K s" "join_claim tid s = (Some i, s')" "th_join s j = Join_Idle"
  shows "thread_inv K (joining j (Join_Check i tid) s')"
proof -
  note parts = thread_inv_parts [OF assms(1)]
  have by_tid: "thread_by_tid_unlocked tid s = Some i" and un: "\<not> ts_join_claimed (slot_of s i)"
    and s: "s' = s\<lparr>task_threads := (task_threads s)(i := (slot_of s i)\<lparr>ts_join_claimed := True\<rparr>)\<rparr>"
    using assms(2) by (auto simp: join_claim_def thread_ops split: option.splits if_splits)
  have i: "i < LUNA_LKL_THREAD_SLOTS" "ts_used (slot_of s i)" "ts_tid (slot_of s i) = tid"
    using by_tid_Some [OF by_tid] by auto
  have nj: "join_target (th_join s k) \<noteq> Some (l, tid)" for k l using parts(7) i un by (auto simp: joined_ok_def)
  have nt: "tid \<notin> set (th_joined s)" "tid < task_next_tid s" using parts(1,7) i by (auto simp: joined_ok_def tids_ok_def)
  let ?s = "joining j (Join_Check i tid) s'"
  show ?thesis
  proof (rule thread_invI)
    show "count_ok ?s" by (rule count_same [OF parts(2)]) (simp_all add: thread_ops s)
    show "tids_ok ?s" using parts(1) by (auto simp: s thread_ops tids_ok_def)
    show "lives_ok ?s" using parts(3) life_ok_cong [of "slot_of ?s i" "slot_of s i"] by (auto simp: s thread_ops lives_ok_def)
    show "exits_ok K ?s" using parts(4) by (auto simp: s thread_ops exits_ok_def)
    show "creators_ok ?s" using parts(5) by (auto simp: s thread_ops creators_ok_def)
    show "joiners_ok ?s" using parts(6) nj nt i by (auto simp: s thread_ops joiners_ok_def)
    show "joined_ok ?s" using parts(1,7) i assms(3) by (auto simp: s thread_ops joined_ok_def tids_ok_def)
    show "tls_ok ?s" using parts(8) by (auto simp: s thread_ops tls_ok_def)
  qed
qed

text \<open>The steps of a joiner between its two locked sections.\<close>

lemma join_move_inv:
  assumes "thread_inv K s" "join_target (th_join s j) = Some (i, tid)" "join_target pc = Some (i, tid)"
    "join_late pc \<Longrightarrow> join_late (th_join s j) \<or> ts_exited (slot_of s i) \<or> ntfn_ready K (th_bit s i)"
    "b = th_bit s i \<or> \<not> ntfn_ready K b"
  shows "thread_inv K (joining j pc (s\<lparr>th_bit := (th_bit s)(i := b)\<rparr>))" (is "thread_inv K ?s")
proof -
  note parts = thread_inv_parts [OF assms(1)]
  have late: "ts_exited (slot_of s i)" if "join_late pc" "ts_used (slot_of s i)" "ts_tid (slot_of s i) = tid"
    using parts(4,6) assms(2,4) that by (auto simp: joiners_ok_def exits_ok_def)
  show ?thesis
  proof (rule thread_invI)
    show "exits_ok K ?s" using parts(4) assms(5) by (auto simp: thread_ops exits_ok_def)
    show "joiners_ok ?s" using parts(6) assms(2,3) late by (auto simp: thread_ops joiners_ok_def)
    show "joined_ok ?s" using parts(7) assms(2,3) by (auto simp: thread_ops joined_ok_def)
  qed (use parts in \<open>auto simp: tids_ok_def lives_ok_def count_ok_def creators_ok_def tls_ok_def thread_ops\<close>)
qed

lemma join_idle_inv:
  assumes "thread_inv K s"
  shows "thread_inv K (joining j Join_Idle s)"
proof -
  note parts = thread_inv_parts [OF assms(1)]
  show ?thesis
    by (rule thread_invI)
      (use parts in \<open>auto simp: tids_ok_def lives_ok_def count_ok_def creators_ok_def tls_ok_def exits_ok_def
        joiners_ok_def joined_ok_def thread_ops\<close>)
qed

lemma join_done_inv:
  assumes "thread_inv K s" "th_join s j = Join_Reap i tid" "join_reap i tid s = (True, s')"
  shows "thread_inv K (joining j Join_Idle (s'\<lparr>th_joined := tid # th_joined s'\<rparr>))" (is "thread_inv K ?s")
proof -
  note parts = thread_inv_parts [OF assms(1)]
  have x: "ts_used (slot_of s i)" "ts_tid (slot_of s i) = tid"
    and s: "s' = s\<lparr>task_threads := (task_threads s)(i := (slot_of s i)\<lparr>ts_fn := 0, ts_arg := 0, ts_tid := 0,
              ts_exited := False, ts_detached := False, ts_used := False\<rparr>),
             th_life := (th_life s)(i := Suspended), task_thread_current := task_thread_current s - 1\<rparr>"
    using assms(3) by (auto simp: join_reap_def Let_def thread_ops split: if_splits)
  have tgt: "join_target (th_join s j) = Some (i, tid)" "join_late (th_join s j)" using assms(2) by auto
  have i: "i < LUNA_LKL_THREAD_SLOTS" "ts_exited (slot_of s i)" "tid \<notin> set (th_joined s)"
    using parts(6) tgt x by (auto simp: joiners_ok_def)
  have others: "join_target (th_join s k) \<noteq> Some (l, tid)" if "k \<noteq> j" for k l
    using parts(6) tgt(1) that by (auto simp: joiners_ok_def)
  have not_reserved: "th_create s c \<noteq> Create_Start i" for c using parts(5) i(2) by (auto simp: creators_ok_def)
  have uniq: "k < LUNA_LKL_THREAD_SLOTS \<Longrightarrow> ts_used (slot_of s k) \<Longrightarrow> ts_tid (slot_of s k) = tid \<Longrightarrow> k = i" for k
    using parts(1) i x by (metis tids_ok_def)
  have rest: "th_life s i = Suspended \<or> th_life s i = Exited \<or> th_life s i = Signalled"
    by (rule exited_at_rest [OF parts(3) i(1,2)])
  have done_tid: "tid \<in> th_done s" using parts(4) i x by (auto simp: exits_ok_def)
  show ?thesis
  proof (rule thread_invI)
    show "count_ok ?s" by (rule count_free [OF parts(2) i(1) x(1)]) (auto simp: s thread_ops)
    show "tids_ok ?s" using parts(1) by (auto simp: s thread_ops tids_ok_def)
    show "lives_ok ?s" using parts(3) by (auto simp: s thread_ops lives_ok_def)
    show "exits_ok K ?s" using parts(4) by (auto simp: s thread_ops exits_ok_def)
    show "creators_ok ?s" using parts(5) not_reserved by (auto simp: s thread_ops creators_ok_def)
    show "joiners_ok ?s" using parts(6) others by (auto simp: s thread_ops joiners_ok_def)
    show "joined_ok ?s" using parts(7) i uniq done_tid by (auto simp: s thread_ops joined_ok_def)
    show "tls_ok ?s" using parts(8) rest i(1) by (auto simp: s thread_ops tls_ok_def)
  qed
qed

lemma thread_step_inv:
  assumes "thread_step K run s s'" "thread_inv K s" "task_next_tid s \<noteq> - 1"
    "\<forall>n. \<not> ntfn_ready K (ntfn_consume K n)" "polite run"
  shows "thread_inv K s'"
  using assms(1)
proof (cases rule: thread_step.cases)
  case (create_fail c fn arg)
  then show ?thesis using reap_detached_inv [OF assms(2), of 0 LUNA_LKL_THREAD_SLOTS]
    by (auto simp: create_reserve_def select_slot_def Let_def split: option.splits)
next
  case (create_slot c fn arg i s1)
  then show ?thesis
    using select_slot_inv [OF reap_detached_inv [OF assms(2), of 0 LUNA_LKL_THREAD_SLOTS]] assms(3,4)
    by (simp add: create_reserve_def reap_detached_same)
next
  case (create_start c i)
  then show ?thesis using create_start_inv [OF assms(2)] by simp
next
  case (create_abort c i)
  then show ?thesis using create_abort_inv [OF assms(2)] by simp
next
  case (body_tls i tid idx k v)
  then show ?thesis using body_tls_inv [OF assms(2)] by simp
next
  case body_detach
  then show ?thesis using detach_inv [OF assms(2)] by simp
next
  case (body_exit i tid idx k)
  note parts = thread_inv_parts [OF assms(2)]
  have "ts_used (slot_of s i)" "tid = ts_tid (slot_of s i)" using body_exit parts(3) by (auto simp: lives_ok_def)
  then have "k = i" using by_tid_own [OF parts(1) body_exit(2)] body_exit by simp
  then show ?thesis using life_inv [OF assms(2) body_exit(2)] body_exit by blast
next
  case (complete i)
  then show ?thesis using complete_inv [OF assms(2) _ _ assms(5)] by simp
next
  case (signal i)
  then show ?thesis using signal_inv [OF assms(2)] by simp
next
  case (suspend_self i)
  then show ?thesis using life_inv [OF assms(2), of i Suspended] by (simp add: life_def suspend_def)
next
  case (join_refused j tid)
  then have "s' = s" by (auto simp: join_claim_def split: option.splits if_splits)
  then show ?thesis using assms(2) by simp
next
  case (join_claimed j tid i s1)
  then show ?thesis using join_claim_inv [OF assms(2)] by simp
next
  case (join_check j i tid)
  then show ?thesis
    using join_move_inv [OF assms(2), of j i tid "Join_Poll i tid" "th_bit s i"]
      join_move_inv [OF assms(2), of j i tid "Join_Wait i tid" "th_bit s i"] by (auto split: if_splits)
next
  case (join_wait j i tid)
  then show ?thesis
    using join_move_inv [OF assms(2), of j i tid "Join_Reap i tid" "ntfn_consume K (th_bit s i)"] assms(4) by simp
next
  case (join_poll j i tid)
  then show ?thesis
    using join_move_inv [OF assms(2), of j i tid "Join_Reap i tid" "ntfn_poll K (th_bit s i)"] assms(4)
    by (simp add: ntfn_poll_def)
next
  case (join_lost j i tid s1)
  then have "s1 = s" by (simp add: join_reap_def Let_def split: if_splits)
  then show ?thesis using join_idle_inv [OF assms(2)] join_lost by simp
next
  case (join_done j i tid s1)
  then show ?thesis using join_done_inv [OF assms(2)] by simp
qed (use life_inv [OF assms(2)] in blast)+

definition zero_thread_slot :: task_thread_slot where
  "zero_thread_slot = \<lparr>ts_fn = 0, ts_arg = 0, ts_tid = 0, ts_tls_index = 0, ts_used = False, ts_exited = False,
     ts_join_claimed = False, ts_detached = False\<rparr>"

text \<open>
  The state after \<open>luna_lkl_task_configure_resources\<close>, with empty thread-local storage. Runs of
  fewer than \<open>2 ^ 64 - 3\<close> creations: the identifier counter is 64 bits wide.
\<close>

definition threads_start :: "(nat \<Rightarrow> 'n) \<Rightarrow> tls_table \<Rightarrow> 'w \<Rightarrow> ('n, 'w) thread_sys" where
  "threads_start bits tls w = \<lparr>task_threads = (\<lambda>i. zero_thread_slot\<lparr>ts_tls_index := i + 2\<rparr>), task_next_tid = 2,
     task_thread_current = 0, task_thread_peak = 0, th_bit = bits, th_life = (\<lambda>_. Suspended), th_tls = (tls, w),
     th_join = (\<lambda>_. Join_Idle), th_create = (\<lambda>_. Create_Idle), th_joined = [], th_done = {}\<rparr>"

inductive thread_reachable :: "'n ntfn_ops \<Rightarrow> 'w destructor \<Rightarrow> ('n, 'w) thread_sys \<Rightarrow> bool" for K run where
  threads_init: "\<forall>k i. tls_data (tls k) i = 0 \<Longrightarrow> thread_reachable K run (threads_start bits tls w)"
| threads_next: "thread_reachable K run s \<Longrightarrow> task_next_tid s \<noteq> - 1 \<Longrightarrow> thread_step K run s s' \<Longrightarrow>
    thread_reachable K run s'"

lemma thread_reachable_inv:
  assumes "thread_reachable K run s" "\<forall>n. \<not> ntfn_ready K (ntfn_consume K n)" "polite run"
  shows "thread_inv K s"
  using assms
proof (induction rule: thread_reachable.induct)
  case (threads_init tls bits w)
  then show ?case
    by (intro thread_invI) (simp_all add: threads_start_def zero_thread_slot_def tids_ok_def count_ok_def lives_ok_def
      exits_ok_def creators_ok_def joiners_ok_def joined_ok_def tls_ok_def)
next
  case (threads_next s s')
  then show ?case using thread_step_inv by blast
qed

lemma create_reserve_fresh:
  assumes "thread_inv K s" "create_reserve K fn arg s = (Some i, s')"
  shows "i < LUNA_LKL_THREAD_SLOTS \<and> th_life s' i = Suspended \<and> ts_tid (slot_of s' i) = task_next_tid s \<and>
    task_next_tid s \<notin> th_done s \<and> (\<forall>k < LUNA_LKL_THREAD_SLOTS. ts_used (slot_of s k) \<longrightarrow> ts_tid (slot_of s k) \<noteq> task_next_tid s) \<and>
    (\<forall>k < TASK_TLS_KEYS. tls_data (fst (th_tls s') k) (i + 2) = 0)"
proof -
  let ?r = "reap_detached K 0 LUNA_LKL_THREAD_SLOTS s"
  have inv: "thread_inv K ?r" using reap_detached_inv [OF assms(1), of 0] by simp
  note parts = thread_inv_parts [OF inv] and parts0 = thread_inv_parts [OF assms(1)]
  have sel: "select_slot K fn arg ?r = (Some i, s')" using assms(2) by (simp add: create_reserve_def)
  have i: "i < LUNA_LKL_THREAD_SLOTS" "\<not> ts_used (slot_of ?r i)"
    using sel by (auto simp: select_slot_def Let_def split: option.splits dest!: first_index_Some)
  have tid: "\<not> task_next_tid s < 2" using parts0(1) by (simp add: tids_ok_def not_less)
  have sus: "th_life ?r i = Suspended" by (rule unused_suspended [OF parts(3) i])
  have s': "th_life s' = th_life ?r" "ts_tid (slot_of s' i) = task_next_tid s" "th_tls s' = th_tls ?r"
    using sel tid reap_detached_same [of K 0 LUNA_LKL_THREAD_SLOTS s]
    by (auto simp: select_slot_def Let_def thread_ops split: option.splits)
  have "task_next_tid s \<notin> th_done s" using parts0(7) by (auto simp: joined_ok_def)
  then show ?thesis using i sus s' parts(8) parts0(1) by (auto simp: tls_ok_def tids_ok_def)
qed

lemma join_reap_done:
  assumes "thread_inv K s" "th_join s j = Join_Reap i tid" "join_reap i tid s = (True, s')"
  shows "tid \<in> th_done s \<and> tid \<notin> set (th_joined s)"
proof -
  note parts = thread_inv_parts [OF assms(1)]
  have x: "ts_used (slot_of s i)" "ts_tid (slot_of s i) = tid"
    using assms(3) by (auto simp: join_reap_def Let_def split: if_splits)
  have "join_target (th_join s j) = Some (i, tid)" "join_late (th_join s j)" using assms(2) by auto
  then have "i < LUNA_LKL_THREAD_SLOTS" "ts_exited (slot_of s i)" "tid \<notin> set (th_joined s)"
    using parts(6) x by (auto simp: joiners_ok_def)
  then show ?thesis using parts(4) x by (auto simp: exits_ok_def)
qed


text \<open>The first created thread, running.\<close>

definition first_running :: "(bool, unit) thread_sys" where
  "first_running = (let s = threads_start (\<lambda>_. True) (\<lambda>_. \<lparr>tls_used = False, tls_data = (\<lambda>_. 0), tls_destructor = 0\<rparr>) ();
     s = creating 0 (Create_Start 0) (snd (create_reserve bit_ntfn 4096 7 s));
     s = creating 0 Create_Idle (life 0 Started s)
     in life 0 (Running (ts_tid (slot_of s 0)) (ts_tls_index (slot_of s 0))) s)"

lemma reap_nothing: "\<forall>i. \<not> ts_used (slot_of s i) \<Longrightarrow> reap_detached K i n s = s"
  by (induction n arbitrary: i) (simp_all add: reap_slot_def)

lemma first_running_reachable: "thread_reachable bit_ntfn (\<lambda>_ _ _ x. x) first_running"
proof -
  let ?t = "\<lambda>_. \<lparr>tls_used = False, tls_data = (\<lambda>_. 0), tls_destructor = 0\<rparr>" and ?run = "\<lambda>_ _ _ x. x"
  let ?R = "thread_reachable bit_ntfn ?run"
  let ?s0 = "threads_start (\<lambda>_. True) ?t ()"
  have unused: "\<forall>i. \<not> ts_used (slot_of ?s0 i)" by (simp add: threads_start_def zero_thread_slot_def)
  obtain s1 where s1: "create_reserve bit_ntfn 4096 7 ?s0 = (Some 0, s1)" "task_next_tid s1 = 3"
    using unused by (simp add: create_reserve_def reap_nothing select_slot_def Let_def luna_consts)
      (simp add: threads_start_def thread_ops)
  have r0: "?R ?s0" by (rule threads_init) simp
  have r1: "?R (creating 0 (Create_Start 0) s1)"
    by (rule threads_next [OF r0 _ create_slot [OF _ s1(1)]]) (simp_all add: threads_start_def)
  have r2: "?R (creating 0 Create_Idle (life 0 Started (creating 0 (Create_Start 0) s1)))"
    by (rule threads_next [OF r1 _ create_start]) (simp_all add: thread_ops s1)
  have r3: "?R (life 0 (Running (ts_tid (slot_of s 0)) (ts_tls_index (slot_of s 0))) s)"
    if "s = creating 0 Create_Idle (life 0 Started (creating 0 (Create_Start 0) s1))" for s
    by (rule threads_next [OF r2 [folded that] _ trampoline]) (simp_all add: that thread_ops s1 luna_consts)
  show ?thesis unfolding first_running_def Let_def s1(1) snd_conv by (rule r3) (rule refl)
qed


end
