(* ===== verification/Task_Timer.thy ===== *)
theory Task_Timer
  imports Timer_Manager Task_Thread
begin

text \<open>
  The child's one-shot timer (\<open>lkl_task_host.c\<close>): the clock, \<open>task_timer_alloc\<close>,
  \<open>task_timer_set_oneshot\<close>, \<open>task_timer_free\<close> and the service thread that waits for the manager's
  signal and runs the callback. The service thread does not take the timer lock, so each atomic
  access of either side is one step: \<open>timer_exec\<close> executes the step named by a label and returns
  \<open>None\<close> when the step is not enabled. The LKL kernel calls the timer operations one at a time; that
  caller is the client. The manager's answer to a request and its interrupt are parameters over
  its state and the current time.
\<close>

definition task_time :: "u64 \<Rightarrow> u64 \<Rightarrow> u64 \<Rightarrow> u64" where
  "task_time frequency epoch tsc = (if frequency = 0 then 0 else cycles_to_ns frequency (tsc - epoch))"

definition TASK_TIMER_DEFER_MIN_NS :: u64 where [luna_consts]: "TASK_TIMER_DEFER_MIN_NS = 5000000"

datatype service_pc =
    Svc_Stopped
  | Svc_Wait              \<comment> \<open>\<open>seL4_Wait\<close>\<close>
  | Svc_Load              \<comment> \<open>load of \<open>armed_generation\<close>\<close>
  | Svc_Deadline u64      \<comment> \<open>load of \<open>deadline_ns\<close>\<close>
  | Svc_Time u64 u64      \<comment> \<open>\<open>task_time()\<close> and the comparison\<close>
  | Svc_Request u64 u64   \<comment> \<open>\<open>TIMER_ARM\<close> for the remaining time\<close>
  | Svc_Clear u64         \<comment> \<open>exchange after a failed request\<close>
  | Svc_Take u64          \<comment> \<open>exchange when due\<close>
  | Svc_Epoch u64
  | Svc_Running u64
  | Svc_Check u64         \<comment> \<open>\<open>generation == ...\<close>\<close>
  | Svc_Allocated u64
  | Svc_Fn u64            \<comment> \<open>load of \<open>task_timer_fn\<close>\<close>
  | Svc_Call u64 u64      \<comment> \<open>inside the callback\<close>
  | Svc_Done

datatype client_pc =
    Cli_Idle
  | Alloc_Fn u64
  | Alloc_Gen
  | Alloc_Armed
  | Alloc_Flag
  | Alloc_Start
  | Set_Gen u64
  | Set_Epoch u64 u64
  | Set_Old u64 u64 u64
  | Set_Deadline u64 u64 u64 u64
  | Set_Armed u64 u64 u64 u64 u64 u64
  | Set_Defer u64 u64 u64 u64 u64 u64
  | Set_Request u64 u64
  | Set_Undo u64
  | Free_Gen
  | Free_Armed u64
  | Free_Fn u64
  | Free_Request u64
  | Free_Spin

record ('n, 'm) timer_sys =
  task_timer_fn :: u64
  task_timer_started :: bool
  task_timer_slot_used :: bool
  task_timer_allocated :: bool
  task_timer_callback_running :: bool
  task_timer_generation :: u64
  task_timer_armed_generation :: u64
  task_timer_clear_epoch :: u64
  task_timer_deadline_ns :: u64
  task_timer_arm_count :: u64
  task_timer_cancel_count :: u64
  task_timer_wake_count :: u64
  task_timer_early_wake_count :: u64
  task_timer_coalesced_arm_count :: u64
  tt_bit :: 'n
  tt_ipc :: task_ipc
  tt_manager :: 'm
  tt_now :: u64
  tt_service :: service_pc
  tt_client :: client_pc
  tt_due :: "u64 \<Rightarrow> u64"                  \<comment> \<open>ghost: deadline set for a generation\<close>
  tt_calls :: "(u64 \<times> u64 \<times> u64) list"    \<comment> \<open>ghost: callback, generation and time of each call\<close>

record ('n, 'm) timer_env =
  env_ntfn :: "'n ntfn_ops"
  env_request :: "u64 \<Rightarrow> 'm transport"       \<comment> \<open>the manager's answer at a time\<close>
  env_irq :: "u64 \<Rightarrow> 'm \<Rightarrow> bool \<times> 'm"      \<comment> \<open>whether its interrupt signals the child\<close>
  env_frequency :: u64

abbreviation svc :: "service_pc \<Rightarrow> ('n, 'm) timer_sys \<Rightarrow> ('n, 'm) timer_sys" where
  "svc pc s \<equiv> s\<lparr>tt_service := pc\<rparr>"

abbreviation cli :: "client_pc \<Rightarrow> ('n, 'm) timer_sys \<Rightarrow> ('n, 'm) timer_sys" where
  "cli pc s \<equiv> s\<lparr>tt_client := pc\<rparr>"

definition timer_request ::
  "('n, 'm) timer_env \<Rightarrow> luna_isolation_event \<Rightarrow> u64 \<Rightarrow> u64 \<Rightarrow> ('n, 'm) timer_sys \<Rightarrow> c_int \<times> ('n, 'm) timer_sys" where
  "timer_request E event generation ns s =
     (let (e, c, m) = luna_lkl_task_manager_request (env_request E (tt_now s)) event generation ns (tt_ipc s) (tt_manager s)
      in (e, s\<lparr>tt_ipc := c, tt_manager := m\<rparr>))"

definition clear_armed :: "u64 \<Rightarrow> ('n, 'm) timer_sys \<Rightarrow> ('n, 'm) timer_sys" where
  "clear_armed generation s =
     (if task_timer_armed_generation s = generation then s\<lparr>task_timer_armed_generation := 0\<rparr> else s)"

section \<open>The service thread\<close>

fun service_exec :: "('n, 'm) timer_env \<Rightarrow> service_pc \<Rightarrow> ('n, 'm) timer_sys \<Rightarrow> ('n, 'm) timer_sys option" where
  "service_exec E Svc_Stopped s = None"
| "service_exec E Svc_Wait s =
     (if ntfn_ready (env_ntfn E) (tt_bit s)
      then Some (svc Svc_Load (s\<lparr>tt_bit := ntfn_consume (env_ntfn E) (tt_bit s),
                                task_timer_wake_count := task_timer_wake_count s + 1\<rparr>))
      else None)"
| "service_exec E Svc_Load s =
     (let g = task_timer_armed_generation s in Some (svc (if g = 0 then Svc_Wait else Svc_Deadline g) s))"
| "service_exec E (Svc_Deadline g) s = Some (svc (Svc_Time g (task_timer_deadline_ns s)) s)"
| "service_exec E (Svc_Time g d) s =
     Some (svc (if tt_now s < d then Svc_Request g (d - tt_now s) else Svc_Take g) s)"
| "service_exec E (Svc_Request g remaining) s =
     (let (e, s) = timer_request E LUNA_ISOLATION_EVENT_TIMER_ARM g (if remaining = 0 then 1 else remaining) s
      in Some (if e \<noteq> 0 then svc (Svc_Clear g) s
               else svc Svc_Wait (s\<lparr>task_timer_early_wake_count := task_timer_early_wake_count s + 1\<rparr>)))"
| "service_exec E (Svc_Clear g) s = Some (svc Svc_Wait (clear_armed g s))"
| "service_exec E (Svc_Take g) s =
     Some (if task_timer_armed_generation s = g then svc (Svc_Epoch g) (s\<lparr>task_timer_armed_generation := 0\<rparr>)
           else svc Svc_Load s)"
| "service_exec E (Svc_Epoch g) s =
     Some (svc (Svc_Running g) (s\<lparr>task_timer_clear_epoch := task_timer_clear_epoch s + 1\<rparr>))"
| "service_exec E (Svc_Running g) s = Some (svc (Svc_Check g) (s\<lparr>task_timer_callback_running := True\<rparr>))"
| "service_exec E (Svc_Check g) s = Some (svc (if task_timer_generation s = g then Svc_Allocated g else Svc_Done) s)"
| "service_exec E (Svc_Allocated g) s = Some (svc (if task_timer_allocated s then Svc_Fn g else Svc_Done) s)"
| "service_exec E (Svc_Fn g) s =
     (let f = task_timer_fn s
      in Some (if f \<noteq> 0 then svc (Svc_Call f g) (s\<lparr>tt_calls := (f, g, tt_now s) # tt_calls s\<rparr>) else svc Svc_Done s))"
| "service_exec E (Svc_Call f g) s = Some (svc Svc_Done s)"
| "service_exec E Svc_Done s = Some (svc Svc_Wait (s\<lparr>task_timer_callback_running := False\<rparr>))"

section \<open>The timer operations\<close>

text \<open>Calls: \<open>task_timer_alloc(fn)\<close>, \<open>task_timer_set_oneshot(timer, ns)\<close> and \<open>task_timer_free(timer)\<close>;
  the flag says whether \<open>timer\<close> is the handle.\<close>

datatype timer_call = Call_Alloc u64 | Call_Set bool u64 | Call_Free bool

fun call_exec :: "('n, 'm) timer_env \<Rightarrow> timer_call \<Rightarrow> ('n, 'm) timer_sys \<Rightarrow> ('n, 'm) timer_sys" where
  "call_exec E (Call_Alloc fn) s =
     (if fn = 0 \<or> env_frequency E = 0 \<or> task_timer_allocated s then s else cli (Alloc_Fn fn) s)"
| "call_exec E (Call_Set valid ns) s =
     (if \<not> valid \<or> \<not> task_timer_started s \<or> \<not> task_timer_allocated s then s else cli (Set_Gen ns) s)"
| "call_exec E (Call_Free valid) s =
     (if \<not> valid \<or> \<not> task_timer_allocated s then s else cli Free_Gen (s\<lparr>task_timer_allocated := False\<rparr>))"

definition timer_ns :: "u64 \<Rightarrow> u64" where
  "timer_ns ns = (if ns \<noteq> 0 then ns else 1)"

text \<open>\<open>start_ok\<close> is whether \<open>sel4utils_start_thread\<close> succeeds.\<close>

fun client_exec :: "('n, 'm) timer_env \<Rightarrow> bool \<Rightarrow> client_pc \<Rightarrow> ('n, 'm) timer_sys \<Rightarrow> ('n, 'm) timer_sys option" where
  "client_exec E ok Cli_Idle s = None"
| "client_exec E ok (Alloc_Fn fn) s = Some (cli Alloc_Gen (s\<lparr>task_timer_fn := fn\<rparr>))"
| "client_exec E ok Alloc_Gen s = Some (cli Alloc_Armed (s\<lparr>task_timer_generation := task_timer_generation s + 1\<rparr>))"
| "client_exec E ok Alloc_Armed s = Some (cli Alloc_Flag (s\<lparr>task_timer_armed_generation := 0\<rparr>))"
| "client_exec E ok Alloc_Flag s = Some (cli Alloc_Start (s\<lparr>task_timer_allocated := True\<rparr>))"
| "client_exec E ok Alloc_Start s =
     Some (cli Cli_Idle
       (if task_timer_started s then s
        else if task_timer_slot_used s then s\<lparr>task_timer_allocated := False, task_timer_fn := 0\<rparr>
        else if ok then s\<lparr>task_timer_slot_used := True, task_timer_started := True, tt_service := Svc_Wait\<rparr>
        else s\<lparr>task_timer_allocated := False, task_timer_fn := 0\<rparr>))"
| "client_exec E ok (Set_Gen ns) s =
     (let g = task_timer_generation s + 1 in Some (cli (Set_Epoch ns g) (s\<lparr>task_timer_generation := g\<rparr>)))"
| "client_exec E ok (Set_Epoch ns g) s = Some (cli (Set_Old ns g (task_timer_clear_epoch s)) s)"
| "client_exec E ok (Set_Old ns g epoch) s = Some (cli (Set_Deadline ns g epoch (task_timer_armed_generation s)) s)"
| "client_exec E ok (Set_Deadline ns g epoch old) s =
     (let old_deadline = task_timer_deadline_ns s; deadline = tt_now s + timer_ns ns
      in Some (cli (Set_Armed ns g epoch old old_deadline deadline)
           (s\<lparr>task_timer_deadline_ns := deadline, tt_due := (tt_due s)(g := deadline)\<rparr>)))"
| "client_exec E ok (Set_Armed ns g epoch old old_deadline deadline) s =
     Some (cli (Set_Defer ns g epoch old old_deadline deadline) (s\<lparr>task_timer_armed_generation := g\<rparr>))"
| "client_exec E ok (Set_Defer ns g epoch old old_deadline deadline) s =
     Some (if ns \<ge> TASK_TIMER_DEFER_MIN_NS \<and> old \<noteq> 0 \<and> old_deadline \<le> deadline \<and> task_timer_clear_epoch s = epoch
           then cli Cli_Idle (s\<lparr>task_timer_coalesced_arm_count := task_timer_coalesced_arm_count s + 1,
                               task_timer_arm_count := task_timer_arm_count s + 1\<rparr>)
           else cli (Set_Request ns g) s)"
| "client_exec E ok (Set_Request ns g) s =
     (let (e, s) = timer_request E LUNA_ISOLATION_EVENT_TIMER_ARM g (timer_ns ns) s
      in Some (if e \<noteq> 0 then cli (Set_Undo g) s
               else cli Cli_Idle (s\<lparr>task_timer_arm_count := task_timer_arm_count s + 1\<rparr>)))"
| "client_exec E ok (Set_Undo g) s = Some (cli Cli_Idle (clear_armed g s))"
| "client_exec E ok Free_Gen s =
     (let g = task_timer_generation s + 1 in Some (cli (Free_Armed g) (s\<lparr>task_timer_generation := g\<rparr>)))"
| "client_exec E ok (Free_Armed g) s = Some (cli (Free_Fn g) (s\<lparr>task_timer_armed_generation := 0\<rparr>))"
| "client_exec E ok (Free_Fn g) s = Some (cli (Free_Request g) (s\<lparr>task_timer_fn := 0\<rparr>))"
| "client_exec E ok (Free_Request g) s =
     (let (e, s) = timer_request E LUNA_ISOLATION_EVENT_TIMER_CANCEL g 0 s
      in Some (cli Free_Spin (if e = 0 then s\<lparr>task_timer_cancel_count := task_timer_cancel_count s + 1\<rparr> else s)))"
| "client_exec E ok Free_Spin s = Some (if task_timer_callback_running s then s else cli Cli_Idle s)"

datatype timer_label = Service | Client bool | Call timer_call | Tick u64 | Irq

fun timer_exec :: "('n, 'm) timer_env \<Rightarrow> timer_label \<Rightarrow> ('n, 'm) timer_sys \<Rightarrow> ('n, 'm) timer_sys option" where
  "timer_exec E Service s = service_exec E (tt_service s) s"
| "timer_exec E (Client ok) s = client_exec E ok (tt_client s) s"
| "timer_exec E (Call c) s = (if tt_client s = Cli_Idle then Some (call_exec E c s) else None)"
| "timer_exec E (Tick now) s = (if tt_now s \<le> now then Some (s\<lparr>tt_now := now\<rparr>) else None)"
| "timer_exec E Irq s =
     (let (signalled, m) = env_irq E (tt_now s) (tt_manager s)
      in Some (s\<lparr>tt_manager := m, tt_bit := (if signalled then ntfn_signal (env_ntfn E) (tt_bit s) else tt_bit s)\<rparr>))"

fun timer_trace :: "('n, 'm) timer_env \<Rightarrow> timer_label list \<Rightarrow> ('n, 'm) timer_sys \<Rightarrow> ('n, 'm) timer_sys option" where
  "timer_trace E [] s = Some s"
| "timer_trace E (l # ls) s = (case timer_exec E l s of None \<Rightarrow> None | Some s' \<Rightarrow> timer_trace E ls s')"


section \<open>Invariant\<close>

fun held :: "service_pc \<Rightarrow> u64 option" where
  "held (Svc_Deadline g) = Some g"
| "held (Svc_Time g d) = Some g"
| "held (Svc_Request g r) = Some g"
| "held (Svc_Clear g) = Some g"
| "held (Svc_Take g) = Some g"
| "held (Svc_Epoch g) = Some g"
| "held (Svc_Running g) = Some g"
| "held (Svc_Check g) = Some g"
| "held (Svc_Allocated g) = Some g"
| "held (Svc_Fn g) = Some g"
| "held (Svc_Call f g) = Some g"
| "held _ = None"

text \<open>Generations the service thread has found due, and those it has also found current.\<close>

fun found_due :: "service_pc \<Rightarrow> bool" where
  "found_due (Svc_Take g) = True"
| "found_due (Svc_Epoch g) = True"
| "found_due (Svc_Running g) = True"
| "found_due (Svc_Check g) = True"
| "found_due _ = False"

fun passed :: "service_pc \<Rightarrow> bool" where
  "passed (Svc_Allocated g) = True"
| "passed (Svc_Fn g) = True"
| "passed (Svc_Call f g) = True"
| "passed _ = False"

fun in_callback_section :: "service_pc \<Rightarrow> bool" where
  "in_callback_section (Svc_Check g) = True"
| "in_callback_section Svc_Done = True"
| "in_callback_section pc = passed pc"

text \<open>Client states between the increment of the generation and its publication.\<close>

fun fresh_gen :: "client_pc \<Rightarrow> u64 option" where
  "fresh_gen (Set_Epoch ns g) = Some g"
| "fresh_gen (Set_Old ns g e) = Some g"
| "fresh_gen (Set_Deadline ns g e old) = Some g"
| "fresh_gen (Set_Armed ns g e old od d) = Some g"
| "fresh_gen _ = None"

fun freeing :: "client_pc \<Rightarrow> bool" where
  "freeing Free_Gen = True"
| "freeing (Free_Armed g) = True"
| "freeing (Free_Fn g) = True"
| "freeing (Free_Request g) = True"
| "freeing Free_Spin = True"
| "freeing _ = False"

fun allocating :: "client_pc \<Rightarrow> bool" where
  "allocating (Alloc_Fn f) = True"
| "allocating Alloc_Gen = True"
| "allocating Alloc_Armed = True"
| "allocating Alloc_Flag = True"
| "allocating _ = False"

fun setting :: "client_pc \<Rightarrow> bool" where
  "setting (Set_Gen ns) = True"
| "setting (Set_Defer ns g e old od d) = True"
| "setting (Set_Request ns g) = True"
| "setting (Set_Undo g) = True"
| "setting pc = (fresh_gen pc \<noteq> None)"

text \<open>Everything the service thread could act on is older than the current generation.\<close>

definition all_stale :: "('n, 'm) timer_sys \<Rightarrow> bool" where
  "all_stale s \<longleftrightarrow> (\<forall>g. held (tt_service s) = Some g \<longrightarrow> g < task_timer_generation s) \<and>
     (task_timer_armed_generation s = 0 \<or> task_timer_armed_generation s < task_timer_generation s)"

definition gens_ok :: "('n, 'm) timer_sys \<Rightarrow> bool" where
  "gens_ok s \<longleftrightarrow> (\<forall>g. held (tt_service s) = Some g \<longrightarrow> g \<le> task_timer_generation s) \<and>
     task_timer_armed_generation s \<le> task_timer_generation s \<and>
     (\<forall>(f, g, t) \<in> set (tt_calls s). g \<le> task_timer_generation s) \<and>
     (\<forall>g. fresh_gen (tt_client s) = Some g \<longrightarrow> g = task_timer_generation s \<and> g \<noteq> 0 \<and>
        all_stale s \<and> (\<forall>(f, g', t) \<in> set (tt_calls s). g' < g))"

definition stale_ok :: "('n, 'm) timer_sys \<Rightarrow> bool" where
  "stale_ok s \<longleftrightarrow> (task_timer_callback_running s \<longleftrightarrow> in_callback_section (tt_service s)) \<and>
     (allocating (tt_client s) \<longrightarrow> \<not> task_timer_allocated s) \<and> (setting (tt_client s) \<longrightarrow> task_timer_allocated s) \<and>
     (\<not> task_timer_allocated s \<and> tt_client s \<noteq> Free_Gen \<or> tt_client s = Alloc_Start \<longrightarrow> all_stale s) \<and>
     (\<not> task_timer_allocated s \<and> \<not> freeing (tt_client s) \<or> tt_client s = Alloc_Start \<longrightarrow> \<not> passed (tt_service s))"

definition due_ok :: "('n, 'm) timer_sys \<Rightarrow> bool" where
  "due_ok s \<longleftrightarrow>
     (let gen = task_timer_generation s in
      (held (tt_service s) = Some gen \<or> task_timer_armed_generation s = gen \<and> gen \<noteq> 0 \<or>
         (\<exists>ns g e old od d. tt_client s = Set_Armed ns g e old od d) \<longrightarrow> task_timer_deadline_ns s = tt_due s gen) \<and>
      (\<forall>d. tt_service s = Svc_Time gen d \<longrightarrow> d = tt_due s gen) \<and>
      (held (tt_service s) = Some gen \<and> found_due (tt_service s) \<longrightarrow> tt_due s gen \<le> tt_now s) \<and>
      (\<forall>g. passed (tt_service s) \<and> held (tt_service s) = Some g \<longrightarrow> tt_due s g \<le> tt_now s) \<and>
      (\<forall>(f, g, t) \<in> set (tt_calls s). f \<noteq> 0 \<and> tt_due s g \<le> t))"

definition timer_ok :: "('n, 'm) timer_sys \<Rightarrow> bool" where
  "timer_ok s \<longleftrightarrow> gens_ok s \<and> stale_ok s \<and> due_ok s"

lemma timer_request_frame:
  assumes "timer_request E event g ns s = (e, s')"
  shows "\<exists>c m. s' = s\<lparr>tt_ipc := c, tt_manager := m\<rparr>"
  using assms by (auto simp: timer_request_def Let_def split: prod.splits)

lemmas timer_ok_defs = timer_ok_def gens_ok_def stale_ok_def due_ok_def all_stale_def

lemma service_request_cases:
  assumes "service_exec E (tt_service s) s = Some s'" "tt_service s = Svc_Request g r"
  shows "(\<exists>c m. s' = s\<lparr>tt_ipc := c, tt_manager := m, tt_service := Svc_Clear g\<rparr>) \<or>
    (\<exists>c m k. s' = s\<lparr>tt_ipc := c, tt_manager := m, task_timer_early_wake_count := k, tt_service := Svc_Wait\<rparr>)"
proof -
  obtain e s1 where r: "timer_request E LUNA_ISOLATION_EVENT_TIMER_ARM g (if r = 0 then 1 else r) s = (e, s1)" by force
  obtain c m where s1: "s1 = s\<lparr>tt_ipc := c, tt_manager := m\<rparr>" using timer_request_frame [OF r] by blast
  have "s' = (if e \<noteq> 0 then svc (Svc_Clear g) s1
      else svc Svc_Wait (s1\<lparr>task_timer_early_wake_count := task_timer_early_wake_count s1 + 1\<rparr>))"
    using assms r by simp
  then show ?thesis unfolding s1 by (cases "e = 0") (simp, blast, simp, blast)
qed

lemma gens_manager [simp]: "gens_ok (s\<lparr>tt_ipc := c, tt_manager := m\<rparr>) = gens_ok s"
  by (simp add: gens_ok_def all_stale_def)

lemma stale_manager [simp]: "stale_ok (s\<lparr>tt_ipc := c, tt_manager := m\<rparr>) = stale_ok s"
  by (simp add: stale_ok_def all_stale_def)

lemma due_manager [simp]: "due_ok (s\<lparr>tt_ipc := c, tt_manager := m\<rparr>) = due_ok s"
  by (simp add: due_ok_def Let_def)

lemma service_gens:
  assumes "gens_ok s" "service_exec E (tt_service s) s = Some s'"
  shows "gens_ok s'"
proof (cases "tt_service s")
  case (Svc_Request g r)
  from service_request_cases [OF assms(2) this] show ?thesis
    using assms(1) Svc_Request by (auto simp: gens_ok_def all_stale_def)
qed (use assms in \<open>auto simp: gens_ok_def all_stale_def Let_def clear_armed_def split: if_splits\<close>)

lemma all_stale_mono:
  assumes "all_stale s" "task_timer_armed_generation s' = task_timer_armed_generation s \<or> task_timer_armed_generation s' = 0"
    "task_timer_generation s' = task_timer_generation s"
    "held (tt_service s') = None \<or> held (tt_service s') = held (tt_service s) \<or>
     held (tt_service s') = Some (task_timer_armed_generation s) \<and> task_timer_armed_generation s \<noteq> 0"
  shows "all_stale s'"
  using assms by (auto simp: all_stale_def)

lemma service_all_stale:
  assumes "all_stale s" "service_exec E (tt_service s) s = Some s'"
  shows "all_stale s'"
proof (cases "tt_service s")
  case (Svc_Request g r)
  from service_request_cases [OF assms(2) this] show ?thesis
    using Svc_Request by (elim disjE exE) (auto intro: all_stale_mono [OF assms(1)])
qed (use assms(2) in \<open>auto intro!: all_stale_mono [OF assms(1)] simp: Let_def clear_armed_def split: if_splits\<close>)

lemma service_client:
  assumes "service_exec E (tt_service s) s = Some s'"
  shows "tt_client s' = tt_client s \<and> task_timer_allocated s' = task_timer_allocated s"
proof (cases "tt_service s")
  case (Svc_Request g r)
  from service_request_cases [OF assms this] show ?thesis by auto
qed (use assms in \<open>auto simp: Let_def clear_armed_def split: if_splits\<close>)

lemma service_passed:
  assumes "service_exec E (tt_service s) s = Some s'" "passed (tt_service s')"
  shows "passed (tt_service s) \<or> (\<exists>g. tt_service s = Svc_Check g \<and> task_timer_generation s = g)"
proof (cases "tt_service s")
  case (Svc_Request g r)
  from service_request_cases [OF assms(1) this] show ?thesis using assms(2) by auto
qed (use assms in \<open>auto simp: Let_def clear_armed_def split: if_splits\<close>)

lemma service_running:
  assumes "service_exec E (tt_service s) s = Some s'"
    "task_timer_callback_running s \<longleftrightarrow> in_callback_section (tt_service s)"
  shows "task_timer_callback_running s' \<longleftrightarrow> in_callback_section (tt_service s')"
proof (cases "tt_service s")
  case (Svc_Request g r)
  from service_request_cases [OF assms(1) this] show ?thesis using assms(2) Svc_Request by auto
qed (use assms in \<open>auto simp: Let_def clear_armed_def split: if_splits\<close>)

lemma service_stale:
  assumes "stale_ok s" "service_exec E (tt_service s) s = Some s'"
  shows "stale_ok s'"
proof -
  have "\<not> passed (tt_service s')" if "all_stale s" "\<not> passed (tt_service s)"
    using service_passed [OF assms(2)] that by (auto simp: all_stale_def)
  moreover have "\<not> freeing (tt_client s) \<Longrightarrow> tt_client s \<noteq> Free_Gen" by auto
  ultimately show ?thesis
    using assms(1) service_client [OF assms(2)] service_all_stale [OF _ assms(2)] service_running [OF assms(2)]
    unfolding stale_ok_def by metis
qed

lemma service_due:
  assumes "due_ok s" "service_exec E (tt_service s) s = Some s'"
  shows "due_ok s'"
proof (cases "tt_service s")
  case (Svc_Request g r)
  from service_request_cases [OF assms(2) this] show ?thesis
    using assms(1) Svc_Request by (elim disjE exE) (simp_all add: due_ok_def Let_def)
next
  case (Svc_Clear g)
  then have "s' = svc Svc_Wait s \<or> s' = svc Svc_Wait (s\<lparr>task_timer_armed_generation := 0\<rparr>)"
    using assms(2) by (simp add: clear_armed_def Let_def split: if_splits)
  then show ?thesis using assms(1) Svc_Clear by (elim disjE conjE) (simp_all add: due_ok_def Let_def)
next
  case (Svc_Take g)
  then have "s' = svc Svc_Load s \<or> s' = svc (Svc_Epoch g) (s\<lparr>task_timer_armed_generation := 0\<rparr>)"
    using assms(2) by (simp add: clear_armed_def Let_def split: if_splits)
  then show ?thesis using assms(1) Svc_Take by (elim disjE conjE) (simp_all add: due_ok_def Let_def)
next
  case (Svc_Check g)
  then have "s' = svc Svc_Done s \<or> s' = svc (Svc_Allocated g) s \<and> task_timer_generation s = g"
    using assms(2) by (simp add: clear_armed_def Let_def split: if_splits)
  then show ?thesis using assms(1) Svc_Check by (elim disjE conjE) (simp_all add: due_ok_def Let_def)
next
  case Svc_Load
  then have "s' = svc Svc_Wait s \<or> s' = svc (Svc_Deadline (task_timer_armed_generation s)) s \<and> task_timer_armed_generation s \<noteq> 0"
    using assms(2) by (simp add: clear_armed_def Let_def split: if_splits)
  then show ?thesis using assms(1) Svc_Load by (elim disjE conjE) (simp_all add: due_ok_def Let_def)
next
  case (Svc_Time g d)
  then have "(\<exists>r. s' = svc (Svc_Request g r) s) \<or> s' = svc (Svc_Take g) s \<and> d \<le> tt_now s"
    using assms(2) by (auto simp: not_less split: if_splits)
  then show ?thesis using assms(1) Svc_Time by (elim disjE conjE exE) (auto simp: due_ok_def Let_def)
next
  case (Svc_Allocated g)
  then have "s' = svc Svc_Done s \<or> s' = svc (Svc_Fn g) s"
    using assms(2) by (simp add: clear_armed_def Let_def split: if_splits)
  then show ?thesis using assms(1) Svc_Allocated by (elim disjE conjE) (simp_all add: due_ok_def Let_def)
next
  case (Svc_Fn g)
  then have "s' = svc Svc_Done s \<or> (\<exists>f. f \<noteq> 0 \<and> s' = svc (Svc_Call f g) (s\<lparr>tt_calls := (f, g, tt_now s) # tt_calls s\<rparr>))"
    using assms(2) by (auto simp: Let_def split: if_splits)
  then show ?thesis using assms(1) Svc_Fn by (elim disjE conjE exE) (simp_all add: due_ok_def Let_def)
next
  case Svc_Wait
  then have "s' = svc Svc_Load (s\<lparr>tt_bit := ntfn_consume (env_ntfn E) (tt_bit s), task_timer_wake_count := task_timer_wake_count s + 1\<rparr>)"
    using assms(2) by (simp split: if_splits)
  then show ?thesis using assms(1) Svc_Wait by (simp add: due_ok_def Let_def)
next
  case (Svc_Deadline g)
  then have "s' = svc (Svc_Time g (task_timer_deadline_ns s)) s"
    using assms(2) by (simp split: if_splits)
  then show ?thesis using assms(1) Svc_Deadline by (simp add: due_ok_def Let_def)
next
  case (Svc_Epoch g)
  then have "s' = svc (Svc_Running g) (s\<lparr>task_timer_clear_epoch := task_timer_clear_epoch s + 1\<rparr>)"
    using assms(2) by (simp split: if_splits)
  then show ?thesis using assms(1) Svc_Epoch by (simp add: due_ok_def Let_def)
next
  case (Svc_Running g)
  then have "s' = svc (Svc_Check g) (s\<lparr>task_timer_callback_running := True\<rparr>)"
    using assms(2) by (simp split: if_splits)
  then show ?thesis using assms(1) Svc_Running by (simp add: due_ok_def Let_def)
next
  case (Svc_Call f g)
  then have "s' = svc Svc_Done s"
    using assms(2) by (simp split: if_splits)
  then show ?thesis using assms(1) Svc_Call by (simp add: due_ok_def Let_def)
next
  case Svc_Done
  then have "s' = svc Svc_Wait (s\<lparr>task_timer_callback_running := False\<rparr>)"
    using assms(2) by (simp split: if_splits)
  then show ?thesis using assms(1) Svc_Done by (simp add: due_ok_def Let_def)
qed (use assms(2) in simp)

section \<open>Client steps\<close>

lemma client_request_cases:
  assumes "client_exec E ok (tt_client s) s = Some s'"
    "tt_client s = Set_Request ns g \<or> tt_client s = Free_Request g"
  shows "\<exists>c m k pc. pc \<in> {Set_Undo g, Cli_Idle} \<and> tt_client s = Set_Request ns g \<and>
      s' = s\<lparr>tt_ipc := c, tt_manager := m, task_timer_arm_count := k, tt_client := pc\<rparr> \<or>
    tt_client s = Free_Request g \<and>
      s' = s\<lparr>tt_ipc := c, tt_manager := m, task_timer_cancel_count := k, tt_client := Free_Spin\<rparr>"
  using assms(2)
proof
  assume pc: "tt_client s = Set_Request ns g"
  obtain e s1 where r: "timer_request E LUNA_ISOLATION_EVENT_TIMER_ARM g (timer_ns ns) s = (e, s1)" by force
  obtain c m where s1: "s1 = s\<lparr>tt_ipc := c, tt_manager := m\<rparr>" using timer_request_frame [OF r] by blast
  have s': "s' = (if e \<noteq> 0 then cli (Set_Undo g) s1
      else cli Cli_Idle (s1\<lparr>task_timer_arm_count := task_timer_arm_count s1 + 1\<rparr>))"
    using assms(1) pc r by simp
  show ?thesis
  proof (cases "e = 0")
    case True
    then have "s' = s\<lparr>tt_ipc := c, tt_manager := m, task_timer_arm_count := task_timer_arm_count s + 1, tt_client := Cli_Idle\<rparr>"
      using s' s1 by simp
    then show ?thesis using pc by blast
  next
    case False
    then have "s' = s\<lparr>tt_ipc := c, tt_manager := m, task_timer_arm_count := task_timer_arm_count s, tt_client := Set_Undo g\<rparr>"
      using s' s1 by simp
    then show ?thesis using pc by blast
  qed
next
  assume pc: "tt_client s = Free_Request g"
  obtain e s1 where r: "timer_request E LUNA_ISOLATION_EVENT_TIMER_CANCEL g 0 s = (e, s1)" by force
  obtain c m where s1: "s1 = s\<lparr>tt_ipc := c, tt_manager := m\<rparr>" using timer_request_frame [OF r] by blast
  have "s' = s\<lparr>tt_ipc := c, tt_manager := m,
      task_timer_cancel_count := (if e = 0 then task_timer_cancel_count s + 1 else task_timer_cancel_count s), tt_client := Free_Spin\<rparr>"
    using assms(1) pc r s1 by (simp split: if_splits)
  then show ?thesis using pc by blast
qed

lemma client_undo_cases:
  "client_exec E ok (Set_Undo g) s = Some s' \<Longrightarrow> s' = cli Cli_Idle s \<or> s' = cli Cli_Idle (s\<lparr>task_timer_armed_generation := 0\<rparr>)"
  by (simp add: clear_armed_def split: if_splits)

lemma stale_after_increment:
  assumes "gens_ok s" "task_timer_generation s \<noteq> - 1"
  shows "\<forall>g. held (tt_service s) = Some g \<longrightarrow> g < task_timer_generation s + 1"
    and "task_timer_armed_generation s < task_timer_generation s + 1"
    and "\<forall>(f, g, t) \<in> set (tt_calls s). g < task_timer_generation s + 1"
    and "\<forall>(f, g, t) \<in> set (tt_calls s). g \<le> task_timer_generation s + 1"
    and "task_timer_generation s + 1 \<noteq> 0"
  using assms(1) next_greater [OF assms(2)] by (fastforce simp: gens_ok_def)+

lemma client_gens:
  assumes "gens_ok s" "client_exec E ok (tt_client s) s = Some s'" "task_timer_generation s \<noteq> - 1"
  shows "gens_ok s'"
proof -
  note inc = stale_after_increment [OF assms(1,3)]
  note le = next_greater [OF assms(3)]
  show ?thesis
  proof (cases "tt_client s")
    case (Set_Request ns g)
    from client_request_cases [OF assms(2) disjI1 [OF this]] show ?thesis
      using assms(1) Set_Request by (auto simp: gens_ok_def all_stale_def)
  next
    case (Free_Request g)
    from client_request_cases [OF assms(2) disjI2 [OF this], of 0] show ?thesis
      using assms(1) Free_Request by (auto simp: gens_ok_def all_stale_def)
  next
    case (Set_Undo g)
    then have "s' = cli Cli_Idle s \<or> s' = cli Cli_Idle (s\<lparr>task_timer_armed_generation := 0\<rparr>)"
      using client_undo_cases [of E ok g s s'] assms(2) by simp
    then show ?thesis using assms(1) by (elim disjE) (simp_all add: gens_ok_def)
  next
    case (Set_Gen ns)
    then show ?thesis using assms inc le by (auto simp: gens_ok_def all_stale_def Let_def dest: less_imp_le)
  next
    case Free_Gen
    then show ?thesis using assms inc le by (auto simp: gens_ok_def all_stale_def Let_def dest: less_imp_le)
  next
    case Alloc_Gen
    then show ?thesis using assms inc le by (auto simp: gens_ok_def all_stale_def Let_def dest: less_imp_le)
  qed (use assms(1,2) in \<open>auto simp: gens_ok_def all_stale_def Let_def split: if_splits\<close>)
qed

lemma section_passed: "\<not> in_callback_section pc \<Longrightarrow> \<not> passed pc"
  by (cases pc) simp_all

lemma client_stale:
  assumes "stale_ok s" "client_exec E ok (tt_client s) s = Some s'" "task_timer_generation s \<noteq> - 1" "gens_ok s"
    "task_timer_started s \<or> tt_service s = Svc_Stopped"
  shows "stale_ok s'"
proof (cases "tt_client s")
  case (Set_Request ns g)
  from client_request_cases [OF assms(2) disjI1 [OF this]] show ?thesis
    using assms(1) Set_Request by (elim exE disjE conjE insertE emptyE) (simp_all add: stale_ok_def all_stale_def section_passed)
next
  case (Free_Request g)
  from client_request_cases [OF assms(2) disjI2 [OF this], of 0] show ?thesis
    using assms(1) Free_Request by (elim exE disjE conjE insertE emptyE) (simp_all add: stale_ok_def all_stale_def section_passed)
next
  case (Alloc_Fn f)
  then have "s' = cli Alloc_Gen (s\<lparr>task_timer_fn := f\<rparr>)"
    using assms(2) by (simp add: clear_armed_def Let_def split: if_splits)
  then show ?thesis using assms(1) Alloc_Fn by ((elim disjE conjE)?, simp_all add: stale_ok_def all_stale_def section_passed)
next
  case Alloc_Gen
  then have "s' = cli Alloc_Armed (s\<lparr>task_timer_generation := task_timer_generation s + 1\<rparr>)"
    using assms(2) by (simp add: clear_armed_def Let_def split: if_splits)
  then show ?thesis using assms(1) Alloc_Gen stale_after_increment [OF assms(4,3)] by ((elim disjE conjE)?, simp_all add: stale_ok_def all_stale_def section_passed)
next
  case Alloc_Armed
  then have "s' = cli Alloc_Flag (s\<lparr>task_timer_armed_generation := 0\<rparr>)"
    using assms(2) by (simp add: clear_armed_def Let_def split: if_splits)
  then show ?thesis using assms(1) Alloc_Armed by ((elim disjE conjE)?, simp_all add: stale_ok_def all_stale_def section_passed)
next
  case Alloc_Flag
  then have "s' = cli Alloc_Start (s\<lparr>task_timer_allocated := True\<rparr>)"
    using assms(2) by (simp add: clear_armed_def Let_def split: if_splits)
  then show ?thesis using assms(1) Alloc_Flag by ((elim disjE conjE)?, simp_all add: stale_ok_def all_stale_def section_passed)
next
  case Alloc_Start
  then have "s' = cli Cli_Idle s \<or> s' = cli Cli_Idle (s\<lparr>task_timer_allocated := False, task_timer_fn := 0\<rparr>) \<or> s' = cli Cli_Idle (s\<lparr>task_timer_slot_used := True, task_timer_started := True, tt_service := Svc_Wait\<rparr>) \<and> tt_service s = Svc_Stopped"
    using assms(2,5) by (simp add: clear_armed_def Let_def split: if_splits)
  then show ?thesis using assms(1) Alloc_Start by ((elim disjE conjE)?, simp_all add: stale_ok_def all_stale_def section_passed)
next
  case (Set_Gen ns)
  then have "s' = cli (Set_Epoch ns (task_timer_generation s + 1)) (s\<lparr>task_timer_generation := task_timer_generation s + 1\<rparr>)"
    using assms(2) by (simp add: clear_armed_def Let_def split: if_splits)
  then show ?thesis using assms(1) Set_Gen stale_after_increment [OF assms(4,3)] by ((elim disjE conjE)?, simp_all add: stale_ok_def all_stale_def section_passed)
next
  case (Set_Epoch ns g)
  then have "s' = cli (Set_Old ns g (task_timer_clear_epoch s)) s"
    using assms(2) by (simp add: clear_armed_def Let_def split: if_splits)
  then show ?thesis using assms(1) Set_Epoch by ((elim disjE conjE)?, simp_all add: stale_ok_def all_stale_def section_passed)
next
  case (Set_Old ns g e)
  then have "s' = cli (Set_Deadline ns g e (task_timer_armed_generation s)) s"
    using assms(2) by (simp add: clear_armed_def Let_def split: if_splits)
  then show ?thesis using assms(1) Set_Old by ((elim disjE conjE)?, simp_all add: stale_ok_def all_stale_def section_passed)
next
  case (Set_Deadline ns g e old)
  then have "s' = cli (Set_Armed ns g e old (task_timer_deadline_ns s) (tt_now s + timer_ns ns)) (s\<lparr>task_timer_deadline_ns := tt_now s + timer_ns ns, tt_due := (tt_due s)(g := tt_now s + timer_ns ns)\<rparr>)"
    using assms(2) by (simp add: clear_armed_def Let_def split: if_splits)
  then show ?thesis using assms(1) Set_Deadline assms(4) by ((elim disjE conjE)?, simp_all add: stale_ok_def all_stale_def section_passed)
next
  case (Set_Armed ns g e old od dl)
  then have "s' = cli (Set_Defer ns g e old od dl) (s\<lparr>task_timer_armed_generation := g\<rparr>)"
    using assms(2) by (simp add: clear_armed_def Let_def split: if_splits)
  then show ?thesis using assms(1) Set_Armed assms(4) by ((elim disjE conjE)?, simp_all add: stale_ok_def all_stale_def section_passed)
next
  case (Set_Defer ns g e old od dl)
  then have "s' = cli (Set_Request ns g) s \<or> s' = cli Cli_Idle (s\<lparr>task_timer_coalesced_arm_count := task_timer_coalesced_arm_count s + 1, task_timer_arm_count := task_timer_arm_count s + 1\<rparr>)"
    using assms(2) by (simp add: clear_armed_def Let_def split: if_splits)
  then show ?thesis using assms(1) Set_Defer by ((elim disjE conjE)?, simp_all add: stale_ok_def all_stale_def section_passed)
next
  case (Set_Undo g)
  then have "s' = cli Cli_Idle s \<or> s' = cli Cli_Idle (s\<lparr>task_timer_armed_generation := 0\<rparr>)"
    using assms(2) by (simp add: clear_armed_def Let_def split: if_splits)
  then show ?thesis using assms(1) Set_Undo by ((elim disjE conjE)?, simp_all add: stale_ok_def all_stale_def section_passed)
next
  case Free_Gen
  then have "s' = cli (Free_Armed (task_timer_generation s + 1)) (s\<lparr>task_timer_generation := task_timer_generation s + 1\<rparr>)"
    using assms(2) by (simp add: clear_armed_def Let_def split: if_splits)
  then show ?thesis using assms(1) Free_Gen stale_after_increment [OF assms(4,3)] by ((elim disjE conjE)?, simp_all add: stale_ok_def all_stale_def section_passed)
next
  case (Free_Armed g)
  then have "s' = cli (Free_Fn g) (s\<lparr>task_timer_armed_generation := 0\<rparr>)"
    using assms(2) by (simp add: clear_armed_def Let_def split: if_splits)
  then show ?thesis using assms(1) Free_Armed by ((elim disjE conjE)?, simp_all add: stale_ok_def all_stale_def section_passed)
next
  case (Free_Fn g)
  then have "s' = cli (Free_Request g) (s\<lparr>task_timer_fn := 0\<rparr>)"
    using assms(2) by (simp add: clear_armed_def Let_def split: if_splits)
  then show ?thesis using assms(1) Free_Fn by ((elim disjE conjE)?, simp_all add: stale_ok_def all_stale_def section_passed)
next
  case Free_Spin
  then have "s' = s \<and> task_timer_callback_running s \<or> s' = cli Cli_Idle s \<and> \<not> task_timer_callback_running s"
    using assms(2) by (simp add: clear_armed_def Let_def split: if_splits)
  then show ?thesis
  proof (elim disjE conjE)
    assume "s' = s"
    then show ?thesis using assms(1) by (rule ssubst)
  next
    assume "s' = cli Cli_Idle s" "\<not> task_timer_callback_running s"
    then show ?thesis using assms(1) Free_Spin by (simp add: stale_ok_def all_stale_def section_passed)
  qed
qed (use assms in \<open>simp_all\<close>)

lemma due_increment:
  assumes "due_ok s" "gens_ok s" "task_timer_generation s \<noteq> - 1" "\<forall>ns g e old od d. pc \<noteq> Set_Armed ns g e old od d"
  shows "due_ok (cli pc (s\<lparr>task_timer_generation := task_timer_generation s + 1\<rparr>))"
proof -
  note inc = stale_after_increment [OF assms(2,3)]
  have "held (tt_service s) \<noteq> Some (task_timer_generation s + 1)" using inc(1) by auto
  moreover from this have "tt_service s \<noteq> Svc_Time (task_timer_generation s + 1) d" for d by auto
  moreover have "task_timer_armed_generation s \<noteq> task_timer_generation s + 1" using inc(2) by auto
  ultimately show ?thesis using assms(1,4) by (simp add: due_ok_def Let_def)
qed

lemma due_new_deadline:
  assumes "due_ok s" "gens_ok s" "tt_client s = Set_Deadline ns g e old"
  shows "due_ok (cli (Set_Armed ns g e old od d) (s\<lparr>task_timer_deadline_ns := d, tt_due := (tt_due s)(g := d)\<rparr>))"
proof -
  have f: "g = task_timer_generation s" "\<forall>g'. held (tt_service s) = Some g' \<longrightarrow> g' < g"
    "\<forall>(f, g', t) \<in> set (tt_calls s). g' < g"
    using assms(2,3) by (auto simp: gens_ok_def all_stale_def)
  have "held (tt_service s) \<noteq> Some g" using f(2) by auto
  moreover from this have "tt_service s \<noteq> Svc_Time g d" for d by auto
  ultimately show ?thesis using assms(1) f by (fastforce simp: due_ok_def Let_def)
qed

lemma client_due:
  assumes "due_ok s" "client_exec E ok (tt_client s) s = Some s'" "task_timer_generation s \<noteq> - 1" "gens_ok s"
    "task_timer_started s \<or> tt_service s = Svc_Stopped"
  shows "due_ok s'"
proof (cases "tt_client s")
  case (Set_Request ns g)
  from client_request_cases [OF assms(2) disjI1 [OF this]] show ?thesis
    using assms(1) Set_Request by (elim exE disjE conjE insertE emptyE) (simp_all add: due_ok_def Let_def)
next
  case (Free_Request g)
  from client_request_cases [OF assms(2) disjI2 [OF this], of 0] show ?thesis
    using assms(1) Free_Request by (elim exE disjE conjE insertE emptyE) (simp_all add: due_ok_def Let_def)
next
  case (Alloc_Fn f)
  then have "s' = cli Alloc_Gen (s\<lparr>task_timer_fn := f\<rparr>)"
    using assms(2) by (simp add: clear_armed_def Let_def split: if_splits)
  then show ?thesis using assms(1) Alloc_Fn by ((elim disjE conjE)?, simp_all add: due_ok_def Let_def)
next
  case Alloc_Gen
  then have "s' = cli Alloc_Armed (s\<lparr>task_timer_generation := task_timer_generation s + 1\<rparr>)"
    using assms(2) by (simp add: clear_armed_def Let_def split: if_splits)
  then show ?thesis by (simp add: due_increment [OF assms(1,4,3)])
next
  case Alloc_Armed
  then have "s' = cli Alloc_Flag (s\<lparr>task_timer_armed_generation := 0\<rparr>)"
    using assms(2) by (simp add: clear_armed_def Let_def split: if_splits)
  then show ?thesis using assms(1) Alloc_Armed by ((elim disjE conjE)?, simp_all add: due_ok_def Let_def)
next
  case Alloc_Flag
  then have "s' = cli Alloc_Start (s\<lparr>task_timer_allocated := True\<rparr>)"
    using assms(2) by (simp add: clear_armed_def Let_def split: if_splits)
  then show ?thesis using assms(1) Alloc_Flag by ((elim disjE conjE)?, simp_all add: due_ok_def Let_def)
next
  case Alloc_Start
  then have "s' = cli Cli_Idle s \<or> s' = cli Cli_Idle (s\<lparr>task_timer_allocated := False, task_timer_fn := 0\<rparr>) \<or> s' = cli Cli_Idle (s\<lparr>task_timer_slot_used := True, task_timer_started := True, tt_service := Svc_Wait\<rparr>) \<and> tt_service s = Svc_Stopped"
    using assms(2,5) by (simp add: clear_armed_def Let_def split: if_splits)
  then show ?thesis using assms(1) Alloc_Start by ((elim disjE conjE)?, simp_all add: due_ok_def Let_def)
next
  case (Set_Gen ns)
  then have "s' = cli (Set_Epoch ns (task_timer_generation s + 1)) (s\<lparr>task_timer_generation := task_timer_generation s + 1\<rparr>)"
    using assms(2) by (simp add: clear_armed_def Let_def split: if_splits)
  then show ?thesis by (simp add: due_increment [OF assms(1,4,3)])
next
  case (Set_Epoch ns g)
  then have "s' = cli (Set_Old ns g (task_timer_clear_epoch s)) s"
    using assms(2) by (simp add: clear_armed_def Let_def split: if_splits)
  then show ?thesis using assms(1) Set_Epoch by ((elim disjE conjE)?, simp_all add: due_ok_def Let_def)
next
  case (Set_Old ns g e)
  then have "s' = cli (Set_Deadline ns g e (task_timer_armed_generation s)) s"
    using assms(2) by (simp add: clear_armed_def Let_def split: if_splits)
  then show ?thesis using assms(1) Set_Old by ((elim disjE conjE)?, simp_all add: due_ok_def Let_def)
next
  case (Set_Deadline ns g e old)
  then have "s' = cli (Set_Armed ns g e old (task_timer_deadline_ns s) (tt_now s + timer_ns ns)) (s\<lparr>task_timer_deadline_ns := tt_now s + timer_ns ns, tt_due := (tt_due s)(g := tt_now s + timer_ns ns)\<rparr>)"
    using assms(2) by (simp add: clear_armed_def Let_def split: if_splits)
  then show ?thesis using due_new_deadline [OF assms(1,4)] Set_Deadline by simp
next
  case (Set_Armed ns g e old od dl)
  then have "s' = cli (Set_Defer ns g e old od dl) (s\<lparr>task_timer_armed_generation := g\<rparr>)"
    using assms(2) by (simp add: clear_armed_def Let_def split: if_splits)
  then show ?thesis using assms(1) Set_Armed assms(4) by (simp add: due_ok_def Let_def gens_ok_def)
next
  case (Set_Defer ns g e old od dl)
  then have "s' = cli (Set_Request ns g) s \<or> s' = cli Cli_Idle (s\<lparr>task_timer_coalesced_arm_count := task_timer_coalesced_arm_count s + 1, task_timer_arm_count := task_timer_arm_count s + 1\<rparr>)"
    using assms(2) by (simp add: clear_armed_def Let_def split: if_splits)
  then show ?thesis using assms(1) Set_Defer by ((elim disjE conjE)?, simp_all add: due_ok_def Let_def)
next
  case (Set_Undo g)
  then have "s' = cli Cli_Idle s \<or> s' = cli Cli_Idle (s\<lparr>task_timer_armed_generation := 0\<rparr>)"
    using assms(2) by (simp add: clear_armed_def Let_def split: if_splits)
  then show ?thesis using assms(1) Set_Undo by ((elim disjE conjE)?, simp_all add: due_ok_def Let_def)
next
  case Free_Gen
  then have "s' = cli (Free_Armed (task_timer_generation s + 1)) (s\<lparr>task_timer_generation := task_timer_generation s + 1\<rparr>)"
    using assms(2) by (simp add: clear_armed_def Let_def split: if_splits)
  then show ?thesis by (simp add: due_increment [OF assms(1,4,3)])
next
  case (Free_Armed g)
  then have "s' = cli (Free_Fn g) (s\<lparr>task_timer_armed_generation := 0\<rparr>)"
    using assms(2) by (simp add: clear_armed_def Let_def split: if_splits)
  then show ?thesis using assms(1) Free_Armed by ((elim disjE conjE)?, simp_all add: due_ok_def Let_def)
next
  case (Free_Fn g)
  then have "s' = cli (Free_Request g) (s\<lparr>task_timer_fn := 0\<rparr>)"
    using assms(2) by (simp add: clear_armed_def Let_def split: if_splits)
  then show ?thesis using assms(1) Free_Fn by ((elim disjE conjE)?, simp_all add: due_ok_def Let_def)
next
  case Free_Spin
  then have "s' = s \<and> task_timer_callback_running s \<or> s' = cli Cli_Idle s \<and> \<not> task_timer_callback_running s"
    using assms(2) by (simp add: clear_armed_def Let_def split: if_splits)
  then show ?thesis
  proof (elim disjE conjE)
    assume "s' = s"
    then show ?thesis using assms(1) by (rule ssubst)
  next
    assume "s' = cli Cli_Idle s" "\<not> task_timer_callback_running s"
    then show ?thesis using assms(1) Free_Spin by (simp add: due_ok_def Let_def)
  qed
qed (use assms in \<open>simp_all\<close>)

section \<open>Runs\<close>

definition started_ok :: "('n, 'm) timer_sys \<Rightarrow> bool" where
  "started_ok s \<longleftrightarrow> task_timer_started s \<or> tt_service s = Svc_Stopped"

lemma service_started:
  assumes "service_exec E (tt_service s) s = Some s'" "started_ok s"
  shows "started_ok s'"
proof (cases "tt_service s")
  case (Svc_Request g r)
  from service_request_cases [OF assms(1) this] show ?thesis using assms(2) Svc_Request by (auto simp: started_ok_def)
qed (use assms in \<open>auto simp: started_ok_def Let_def clear_armed_def split: if_splits\<close>)

lemma client_started:
  assumes "client_exec E ok (tt_client s) s = Some s'" "started_ok s"
  shows "started_ok s'"
proof (cases "tt_client s")
  case (Set_Request ns g)
  from client_request_cases [OF assms(1) disjI1 [OF this]] show ?thesis using assms(2) by (auto simp: started_ok_def)
next
  case (Free_Request g)
  from client_request_cases [OF assms(1) disjI2 [OF this], of 0] show ?thesis using assms(2) by (auto simp: started_ok_def)
qed (use assms in \<open>auto simp: started_ok_def Let_def clear_armed_def split: if_splits\<close>)

definition timer_inv_all :: "('n, 'm) timer_sys \<Rightarrow> bool" where
  "timer_inv_all s \<longleftrightarrow> gens_ok s \<and> stale_ok s \<and> due_ok s \<and> started_ok s"

lemma call_exec_inv:
  assumes "timer_inv_all s" "tt_client s = Cli_Idle"
  shows "timer_inv_all (call_exec E c s)"
proof (cases c)
  case (Call_Alloc fn)
  then show ?thesis using assms
    by (simp add: timer_inv_all_def gens_ok_def stale_ok_def due_ok_def started_ok_def all_stale_def Let_def)
next
  case (Call_Set valid ns)
  then show ?thesis using assms
    by (simp add: timer_inv_all_def gens_ok_def stale_ok_def due_ok_def started_ok_def all_stale_def Let_def)
next
  case (Call_Free valid)
  then show ?thesis using assms
    by (simp add: timer_inv_all_def gens_ok_def stale_ok_def due_ok_def started_ok_def all_stale_def Let_def)
qed

lemma all_stale_env [simp]:
  "all_stale (s\<lparr>tt_now := now\<rparr>) = all_stale s" "all_stale (s\<lparr>tt_manager := m, tt_bit := b\<rparr>) = all_stale s"
  by (simp_all add: all_stale_def)

lemma tick_inv:
  assumes "timer_inv_all s" "tt_now s \<le> now"
  shows "timer_inv_all (s\<lparr>tt_now := now\<rparr>)"
proof -
  have "due_ok s" using assms(1) by (simp add: timer_inv_all_def)
  then have "due_ok (s\<lparr>tt_now := now\<rparr>)"
    using assms(2) unfolding due_ok_def Let_def by (simp, meson order_trans)
  then show ?thesis using assms(1)
    by (simp add: timer_inv_all_def gens_ok_def stale_ok_def started_ok_def)
qed

lemma irq_inv: "timer_inv_all s \<Longrightarrow> timer_inv_all (s\<lparr>tt_manager := m, tt_bit := b\<rparr>)"
  by (simp add: timer_inv_all_def gens_ok_def stale_ok_def due_ok_def started_ok_def Let_def)

lemma timer_exec_inv:
  assumes "timer_inv_all s" "timer_exec E l s = Some s'" "task_timer_generation s \<noteq> - 1"
  shows "timer_inv_all s'"
proof (cases l)
  case Service
  then show ?thesis using assms service_gens service_stale service_due service_started
    by (auto simp: timer_inv_all_def)
next
  case (Client ok)
  then have "client_exec E ok (tt_client s) s = Some s'" using assms(2) by simp
  then show ?thesis
    using client_gens client_stale client_due client_started assms(1,3) unfolding timer_inv_all_def started_ok_def by metis
next
  case (Call c)
  then show ?thesis using assms(1,2) call_exec_inv by (auto split: if_splits)
next
  case (Tick now)
  then show ?thesis using assms(1,2) tick_inv by (auto split: if_splits)
next
  case Irq
  obtain b m where "env_irq E (tt_now s) (tt_manager s) = (b, m)" by force
  then have "s' = s\<lparr>tt_manager := m, tt_bit := (if b then ntfn_signal (env_ntfn E) (tt_bit s) else tt_bit s)\<rparr>"
    using assms(2) Irq by simp
  then show ?thesis using irq_inv [OF assms(1)] by (simp only:)
qed

definition timer_start :: "task_ipc \<Rightarrow> 'n \<Rightarrow> 'm \<Rightarrow> u64 \<Rightarrow> ('n, 'm) timer_sys" where
  "timer_start ipc b m now = \<lparr>task_timer_fn = 0, task_timer_started = False, task_timer_slot_used = False,
     task_timer_allocated = False, task_timer_callback_running = False, task_timer_generation = 0,
     task_timer_armed_generation = 0, task_timer_clear_epoch = 0, task_timer_deadline_ns = 0, task_timer_arm_count = 0,
     task_timer_cancel_count = 0, task_timer_wake_count = 0, task_timer_early_wake_count = 0,
     task_timer_coalesced_arm_count = 0, tt_bit = b, tt_ipc = ipc, tt_manager = m, tt_now = now,
     tt_service = Svc_Stopped, tt_client = Cli_Idle, tt_due = (\<lambda>_. 0), tt_calls = []\<rparr>"

text \<open>Reachable states; the 64-bit generation does not wrap.\<close>

inductive timer_reachable :: "('n, 'm) timer_env \<Rightarrow> ('n, 'm) timer_sys \<Rightarrow> bool" for E where
  timer_first: "timer_reachable E (timer_start ipc b m now)"
| timer_next: "timer_reachable E s \<Longrightarrow> task_timer_generation s \<noteq> - 1 \<Longrightarrow> timer_exec E l s = Some s' \<Longrightarrow> timer_reachable E s'"

lemma timer_reachable_inv: "timer_reachable E s \<Longrightarrow> timer_inv_all s"
proof (induction rule: timer_reachable.induct)
  case (timer_first ipc b m now)
  then show ?case
    by (simp add: timer_inv_all_def gens_ok_def stale_ok_def due_ok_def started_ok_def all_stale_def timer_start_def)
next
  case (timer_next s l s')
  then show ?case using timer_exec_inv by blast
qed

text \<open>
  C18: In every interleaving of the timer service thread with the client's alloc, set and free
  calls, with any manager and any interrupt timing: a callback is only ever made with a
  non-null function, for a generation whose deadline had passed when it was called; and once
  \<open>task_timer_free\<close> has returned (or before the first allocation) no callback is running and none
  can be in preparation, since the generation check refuses everything older.
\<close>

theorem timer_callback_safe:
  assumes "timer_reachable E s"
  shows "(\<forall>(f, g, t) \<in> set (tt_calls s). f \<noteq> 0 \<and> tt_due s g \<le> t) \<and>
    (tt_client s = Cli_Idle \<and> \<not> task_timer_allocated s \<longrightarrow>
      (\<forall>f g. tt_service s \<noteq> Svc_Call f g) \<and> \<not> passed (tt_service s) \<and>
      (\<forall>g. held (tt_service s) = Some g \<longrightarrow> g < task_timer_generation s))"
proof -
  have inv: "gens_ok s" "stale_ok s" "due_ok s" using timer_reachable_inv [OF assms] by (auto simp: timer_inv_all_def)
  have "\<forall>(f, g, t) \<in> set (tt_calls s). f \<noteq> 0 \<and> tt_due s g \<le> t" using inv(3) by (simp add: due_ok_def Let_def)
  moreover have "\<not> passed (tt_service s) \<and> all_stale s" if "tt_client s = Cli_Idle" "\<not> task_timer_allocated s"
    using inv(2) that by (simp add: stale_ok_def)
  ultimately show ?thesis by (auto simp: all_stale_def)
qed

end
