(* ===== verification/Timer_Race.thy ===== *)
theory Timer_Race
  imports Task_Timer
begin

text \<open>
  The child's timer of \<open>Task_Timer\<close> running against the manager of \<open>Timer_Manager\<close>, and the
  interleaving of \<open>task_timer_service\<close> with a deferred \<open>task_timer_set_oneshot\<close> that loses a timer.
\<close>

section \<open>A lost timer\<close>

text \<open>
  The child together with the real manager, a one-bit notification and a PIT that always accepts;
  the manager's counter runs at 1 GHz.
\<close>

definition real_request :: "u64 \<Rightarrow> unit luna_timer_state transport" where
  "real_request now mrs m =
     (let (msg, e, m) = luna_timer_manager_service simple_pit now now 5 (mrs ! 0) (mrs ! 1) (mrs ! 2) m in (msg, m))"

definition real_irq :: "u64 \<Rightarrow> unit luna_timer_state \<Rightarrow> bool \<times> unit luna_timer_state" where
  "real_irq now m = (let (signalled, m) = handle_timer_irq simple_pit now now m in (5 \<in> set signalled, m))"

definition real_env :: "(bool, unit luna_timer_state) timer_env" where
  "real_env = \<lparr>env_ntfn = bit_ntfn, env_request = real_request, env_irq = real_irq, env_frequency = 1000000000\<rparr>"

definition real_start :: "(bool, unit luna_timer_state) timer_sys" where
  "real_start = timer_start \<lparr>task_manager_control_ep = 1, task_manager_command_ep = 2, task_manager_ipc_count = 0\<rparr>
     False idle_timer 0"

text \<open>
  A timer is set for 1 ms and fires; between the service thread's exchange of the armed
  generation and its increment of the clear epoch, the client sets the timer for 8 ms.
\<close>

definition race :: "timer_label list" where
  "race = Call (Call_Alloc 1) # replicate 5 (Client True) @ Call (Call_Set True 1000000) # replicate 7 (Client True) @
     [Tick 1000000, Irq] @ replicate 4 Service @ Call (Call_Set True 8000000) # replicate 3 (Client True) @
     Service # replicate 3 (Client True) @ replicate 4 Service"

definition lost_timer :: "(bool, unit luna_timer_state) timer_sys" where
  "lost_timer = the (timer_trace real_env race real_start)"

lemma race_runs: "timer_trace real_env race real_start \<noteq> None"
  by code_simp

lemma lost_timer_state:
  "tt_client lost_timer = Cli_Idle \<and> tt_service lost_timer = Svc_Wait \<and> \<not> tt_bit lost_timer \<and>
   \<not> tm_armed (tt_manager lost_timer) \<and> \<not> tm_network_armed (tt_manager lost_timer) \<and>
   task_timer_allocated lost_timer \<and> task_timer_armed_generation lost_timer = 3 \<and> task_timer_generation lost_timer = 3 \<and>
   task_timer_deadline_ns lost_timer = 9000000 \<and> task_timer_arm_count lost_timer = 2 \<and> tt_calls lost_timer = []"
  by code_simp

lemma exec_generation:
  assumes "timer_exec E l s = Some s'"
  shows "task_timer_generation s' = task_timer_generation s \<or> task_timer_generation s' = task_timer_generation s + 1"
proof (cases l)
  case Service
  show ?thesis
  proof (cases "tt_service s")
    case (Svc_Request g r)
    from service_request_cases [OF _ this, of E s'] show ?thesis using assms Service by auto
  qed (use assms Service in \<open>auto simp: Let_def clear_armed_def split: if_splits\<close>)
next
  case (Client ok)
  then have c: "client_exec E ok (tt_client s) s = Some s'" using assms by simp
  show ?thesis
  proof (cases "tt_client s")
    case (Set_Request ns g)
    from client_request_cases [OF c disjI1 [OF this]] show ?thesis by auto
  next
    case (Free_Request g)
    from client_request_cases [OF c disjI2 [OF this], of 0] show ?thesis by auto
  qed (use c in \<open>auto simp: Let_def clear_armed_def split: if_splits\<close>)
next
  case (Call c)
  then show ?thesis using assms by (cases c) (auto split: if_splits)
qed (use assms in \<open>auto simp: Let_def split: if_splits prod.splits\<close>)

lemma trace_reachable:
  assumes "timer_reachable E s" "timer_trace E ls s = Some s'" "unat (task_timer_generation s) + length ls < 2 ^ 64 - 1"
  shows "timer_reachable E s'"
  using assms
proof (induction ls arbitrary: s)
  case (Cons l ls)
  obtain s1 where s1: "timer_exec E l s = Some s1" "timer_trace E ls s1 = Some s'"
    using Cons.prems(2) by (auto split: option.splits)
  have b: "unat (task_timer_generation s) < 2 ^ 64 - 1" using Cons.prems(3) by simp
  then have ne: "task_timer_generation s \<noteq> - 1" by (auto simp: unsigned_minus_1_eq_mask mask_eq_exp_minus_1)
  have "unat (task_timer_generation s1) \<le> unat (task_timer_generation s) + 1"
    using exec_generation [OF s1(1)] b by (auto simp: unat_word_ariths)
  then show ?case
    using Cons.IH [OF timer_next [OF Cons.prems(1) ne s1(1)] s1(2)] Cons.prems(3) by simp
qed simp

lemma lost_timer_reachable: "timer_reachable real_env lost_timer"
proof -
  have t: "timer_trace real_env race real_start = Some lost_timer" using race_runs by (auto simp: lost_timer_def)
  have r: "timer_reachable real_env real_start" unfolding real_start_def by (rule timer_first)
  have "unat (task_timer_generation real_start) + length race < 2 ^ 64 - 1"
    by (simp add: real_start_def timer_start_def race_def)
  then show ?thesis by (rule trace_reachable [OF r t])
qed

text \<open>Nothing is armed at the manager, nothing is signalled and both threads are at rest.\<close>

definition stuck :: "(bool, unit luna_timer_state) timer_sys \<Rightarrow> bool" where
  "stuck s \<longleftrightarrow> tt_client s = Cli_Idle \<and> tt_service s = Svc_Wait \<and> \<not> tt_bit s \<and>
     \<not> tm_armed (tt_manager s) \<and> \<not> tm_network_armed (tt_manager s)"

fun is_call :: "timer_label \<Rightarrow> bool" where
  "is_call (Call c) = True"
| "is_call _ = False"

lemma stuck_exec:
  assumes "stuck s" "timer_exec real_env l s = Some s'" "\<not> is_call l"
  shows "stuck s' \<and> tt_calls s' = tt_calls s"
  using assms
  by (cases l) (auto simp: stuck_def real_env_def real_irq_def handle_timer_irq_def expire_child_def expire_network_def
      rearm_def Let_def split: if_splits)

lemma stuck_trace:
  "timer_trace real_env ls s = Some s' \<Longrightarrow> stuck s \<Longrightarrow> \<forall>l \<in> set ls. \<not> is_call l \<Longrightarrow>
   stuck s' \<and> tt_calls s' = tt_calls s"
proof (induction ls arbitrary: s)
  case (Cons l ls)
  then obtain s1 where s1: "timer_exec real_env l s = Some s1" "timer_trace real_env ls s1 = Some s'"
    by (auto split: option.splits)
  then show ?case using Cons stuck_exec [OF Cons.prems(2) s1(1)] by auto
qed simp

text \<open>
  C35: The deferral of a re-arm can lose the timer. There is a reachable state of the child with
  the real manager in which \<open>task_timer_set_oneshot\<close> has returned success for a deadline of 9 ms,
  the timer is allocated and armed for that generation, yet the manager has nothing armed, the
  service thread sleeps and is not signalled: however much time passes and however many
  interrupts and steps occur, no callback is ever made until the timer is called again. It is
  reached when the client reads the clear epoch between the service thread's exchange of
  \<open>armed_generation\<close> and its increment of \<open>clear_epoch\<close>.
\<close>

theorem timer_can_be_lost:
  "timer_reachable real_env lost_timer \<and> task_timer_allocated lost_timer \<and>
   task_timer_armed_generation lost_timer = task_timer_generation lost_timer \<and> task_timer_deadline_ns lost_timer = 9000000 \<and>
   (\<forall>ls s'. timer_trace real_env ls lost_timer = Some s' \<and> (\<forall>l \<in> set ls. \<not> is_call l) \<longrightarrow>
      tt_calls s' = [] \<and> tt_service s' = Svc_Wait)"
proof -
  have st: "stuck lost_timer" "tt_calls lost_timer = []" using lost_timer_state by (auto simp: stuck_def)
  have "tt_calls s' = [] \<and> tt_service s' = Svc_Wait"
    if "timer_trace real_env ls lost_timer = Some s'" "\<forall>l \<in> set ls. \<not> is_call l" for ls s'
    using stuck_trace [OF that(1) st(1) that(2)] st(2) by (simp add: stuck_def)
  then show ?thesis using lost_timer_reachable lost_timer_state by auto
qed

theorem timer_can_be_lost_witness:
  "\<exists>s'. timer_trace real_env [Tick 50000000, Irq] lost_timer = Some s' \<and> tt_calls s' = []"
proof -
  have "timer_trace real_env [Tick 50000000, Irq] lost_timer \<noteq> None" by code_simp
  then obtain s' where s': "timer_trace real_env [Tick 50000000, Irq] lost_timer = Some s'" by auto
  moreover have "\<forall>l \<in> set [Tick 50000000, Irq]. \<not> is_call l" by simp
  ultimately have "tt_calls s' = []" using timer_can_be_lost by blast
  with s' show ?thesis by blast
qed

text \<open>A timer set for 1 ms that fires undisturbed.\<close>

definition fires :: "timer_label list" where
  "fires = Call (Call_Alloc 1) # replicate 5 (Client True) @ Call (Call_Set True 1000000) # replicate 7 (Client True) @
     [Tick 1000000, Irq] @ replicate 12 Service"

definition fired_timer :: "(bool, unit luna_timer_state) timer_sys" where
  "fired_timer = the (timer_trace real_env fires real_start)"

lemma fires_runs: "timer_trace real_env fires real_start \<noteq> None"
  by code_simp

lemma fired_timer_reachable: "timer_reachable real_env fired_timer"
proof -
  have t: "timer_trace real_env fires real_start = Some fired_timer" using fires_runs by (auto simp: fired_timer_def)
  have r: "timer_reachable real_env real_start" unfolding real_start_def by (rule timer_first)
  have "unat (task_timer_generation real_start) + length fires < 2 ^ 64 - 1"
    by (simp add: real_start_def timer_start_def fires_def)
  then show ?thesis by (rule trace_reachable [OF r t])
qed

theorem timer_callback_safe_witness:
  "tt_calls fired_timer = [(1, 2, 1000000)] \<and> tt_due fired_timer 2 \<le> 1000000"
proof -
  have c: "tt_calls fired_timer = [(1, 2, 1000000)]" by code_simp
  with timer_callback_safe [OF fired_timer_reachable] show ?thesis by simp
qed

end
