(* ===== verification/Net_Link.thy ===== *)
theory Net_Link
  imports Task_Net "HOL-Library.Sublist"
begin

text \<open>
  The child's network backend and the manager's network service together, over the shared
  window: callers of \<open>task_net_tx\<close>, the transmit worker, the coalescing timer, the reader of the
  device and the manager's threads interleave. Shown: packets travel in order, once and
  unchanged in both directions, the error paths for a corrupted queue or window are never
  taken, and no wake-up is lost.
\<close>

section \<open>The system\<close>

datatype timer_pc = T_Wait | T_Sleep u64 | T_Exit

datatype reader_pc = R_Idle | R_Wait | R_Fetch

record 'd net_link =
  ln_child :: task_net_backend
  ln_worker :: worker_pc
  ln_timer :: timer_pc
  ln_callers :: "(iovec \<times> nat) list"
  ln_reader :: reader_pc
  ln_ipc :: task_ipc
  ln_manager :: "'d luna_network_state"

text \<open>Requests of the child are answered by the manager's dispatcher.\<close>

definition net_transport :: "interference \<Rightarrow> 'd luna_network_state transport" where
  "net_transport C mrs s =
     (case luna_network_service C (mrs ! 0) (mrs ! 1) s of None \<Rightarrow> (Message 0 0 [], s) | Some (m, e, s') \<Rightarrow> (m, s'))"

text \<open>While the manager copies a batch, the only word the child's threads still write is \<open>rx_waiting\<close>.\<close>

definition child_passive :: "interference \<Rightarrow> bool" where
  "child_passive C \<longleftrightarrow> (\<forall>H. \<exists>v. C H = H\<lparr>rx_waiting := v\<rparr>)"

definition child_events :: "luna_isolation_event set" where
  "child_events = {LUNA_ISOLATION_EVENT_NET_WAKE, LUNA_ISOLATION_EVENT_NET_CONTROL, LUNA_ISOLATION_EVENT_NET_STATS,
     LUNA_ISOLATION_EVENT_NET_TX_STATS, LUNA_ISOLATION_EVENT_NET_TX_STRESS, LUNA_ISOLATION_EVENT_NET_DEBUG}"

definition reader_after :: "poll_result \<Rightarrow> reader_pc" where
  "reader_after r = (if r = Poll_Sleep then R_Wait else if r = Poll_Fetch then R_Fetch else R_Idle)"

inductive link_step :: "'d net_env \<Rightarrow> 'd net_link \<Rightarrow> 'd net_link \<Rightarrow> bool" for E where
  link_call: "task_net_tx_check iov (ln_child L) = Some n \<Longrightarrow> b = task_net_tx_enter (ln_child L) \<Longrightarrow> 0 < tn_tx_free_sem b \<Longrightarrow>
    link_step E L (L\<lparr>ln_child := b\<lparr>tn_tx_free_sem := tn_tx_free_sem b - 1\<rparr>, ln_callers := (iov, n) # ln_callers L\<rparr>)"
| link_insert: "ln_callers L = cs @ (iov, n) # cs' \<Longrightarrow>
    link_step E L (L\<lparr>ln_child := snd (task_net_tx_insert iov n (ln_child L)), ln_callers := cs @ cs'\<rparr>)"
| link_worker: "worker_step (ln_worker L) (ln_child L) (net_header (ln_manager L)) (net_window (ln_manager L)) = Some (pc, b, H, w) \<Longrightarrow>
    link_step E L (L\<lparr>ln_worker := pc, ln_child := b, ln_manager := (ln_manager L)\<lparr>net_header := H, net_window := w\<rparr>\<rparr>)"
| link_timer: "ln_timer L = T_Wait \<Longrightarrow> b = ln_child L \<Longrightarrow> 0 < tn_coalesce_sem b \<Longrightarrow>
    link_step E L (L\<lparr>ln_child := b\<lparr>tn_coalesce_sem := tn_coalesce_sem b - 1\<rparr>,
      ln_timer := (case coalesce_take b of None \<Rightarrow> T_Exit | Some (g, d) \<Rightarrow> T_Sleep g)\<rparr>)"
| link_expire: "ln_timer L = T_Sleep g \<Longrightarrow>
    link_step E L (L\<lparr>ln_child := coalesce_expire g (ln_child L), ln_timer := T_Wait\<rparr>)"
| link_timer_fail: "ln_timer L = T_Sleep g \<Longrightarrow>
    link_step E L (L\<lparr>ln_child := coalesce_fail (ln_child L), ln_timer := T_Exit\<rparr>)"
| link_finish: "net_finish_drain (ln_child L) = Some (r, b) \<Longrightarrow> link_step E L (L\<lparr>ln_child := b\<rparr>)"
| link_poll: "ln_reader L = R_Idle \<Longrightarrow> task_net_poll_local (net_header (ln_manager L)) (ln_child L) = (r, b) \<Longrightarrow>
    link_step E L (L\<lparr>ln_child := b, ln_reader := reader_after r,
      ln_manager := (ln_manager L)\<lparr>net_header := poll_announce r (net_header (ln_manager L))\<rparr>\<rparr>)"
| link_woken: "ln_reader L = R_Wait \<Longrightarrow>
    link_step E L (L\<lparr>ln_reader := (if task_net_poll_woken (net_header (ln_manager L)) (ln_child L) = Some True
                                  then R_Fetch else R_Idle)\<rparr>)"
| link_fetch: "ln_reader L = R_Fetch \<Longrightarrow>
    task_net_poll_fetch (net_transport id) (ln_ipc L) (ln_manager L) (ln_child L) = (r, c, s, b) \<Longrightarrow>
    link_step E L (L\<lparr>ln_child := b, ln_reader := R_Idle, ln_ipc := c, ln_manager := s\<rparr>)"
| link_rx: "ln_reader L = R_Idle \<Longrightarrow>
    link_step E L (L\<lparr>ln_child := snd (task_net_rx iov (net_window (ln_manager L)) (ln_child L))\<rparr>)"
| link_hup: "task_net_poll_hup (net_transport id) (ln_ipc L) (ln_manager L) (ln_child L) = (c, s, b) \<Longrightarrow>
    link_step E L (L\<lparr>ln_child := b, ln_ipc := c, ln_manager := s\<rparr>)"
| link_request: "ev \<in> child_events \<Longrightarrow> luna_network_service C (event_word ev) n (ln_manager L) = Some (m, e, s) \<Longrightarrow>
    link_step E L (L\<lparr>ln_manager := s\<rparr>)"
| link_manager: "child_passive C \<Longrightarrow> network_poll_iteration E C n badge (ln_manager L) = Some s \<Longrightarrow>
    link_step E L (L\<lparr>ln_manager := s\<rparr>)"
| link_irq: "link_step E L (L\<lparr>ln_manager := network_irq_step ok (ln_manager L)\<rparr>)"

inductive link_reachable :: "'d net_env \<Rightarrow> 'd net_link \<Rightarrow> bool" for E where
  link_start: "luna_lkl_task_configure_net base sz mac0 mac1 rx tx sub b0 = (0, b1) \<Longrightarrow>
    luna_lkl_task_net_add ok device (-1) b1 = ((0, l), net_id, b) \<Longrightarrow>
    link_reachable E \<lparr>ln_child = b, ln_worker = W_Sleep, ln_timer = T_Wait, ln_callers = [], ln_reader = R_Idle, ln_ipc = c,
      ln_manager = map_child_reset True s\<rparr>"
| link_more: "link_reachable E L \<Longrightarrow> link_step E L L' \<Longrightarrow> link_reachable E L'"

section \<open>The child's queue\<close>

definition child_queue :: "task_net_backend \<Rightarrow> u8 list list" where
  "child_queue b = map packet_bytes (ring_list CQN (tn_tx_queue b) (tn_tx_head b) (tn_tx_tail b))"

definition queue_ok :: "task_net_backend \<Rightarrow> bool" where
  "queue_ok b \<longleftrightarrow> tn_tx_head b < CQN \<and> tn_tx_tail b < CQN \<and>
     (\<forall>p < CQN. ring_in CQN (tn_tx_head b) (tn_tx_tail b) p \<longrightarrow>
        0 < pk_length (tn_tx_queue b p) \<and> pk_length (tn_tx_queue b p) \<le> LUNA_NET_PACKET_SIZE)"

lemma child_queue_length [simp]: "length (child_queue b) = task_net_tx_queued b"
  by (simp add: child_queue_def task_net_tx_queued_def)

lemma queued_less [simp]: "task_net_tx_queued b < CQN"
  by (simp add: task_net_tx_queued_def)

text \<open>The fields of the queue, and the history.\<close>

definition queue_view where
  "queue_view b = (tn_tx_queue b, tn_tx_head b, tn_tx_tail b)"

lemma queue_view_cong:
  "queue_view b' = queue_view b \<Longrightarrow> child_queue b' = child_queue b \<and> queue_ok b' = queue_ok b \<and>
     task_net_tx_queued b' = task_net_tx_queued b"
  by (simp add: queue_view_def child_queue_def queue_ok_def task_net_tx_queued_def)

lemma iov_total_bytes: "iov_total n iov = Some m \<Longrightarrow> n \<le> LUNA_NET_PACKET_SIZE \<Longrightarrow>
    m = n + length (concat (map the iov)) \<and> m \<le> LUNA_NET_PACKET_SIZE"
proof (induction n iov rule: iov_total.induct)
  case (2 n v vs)
  obtain x where v: "v = Some x" "\<not> length x > LUNA_NET_PACKET_SIZE - n" "iov_total (n + length x) vs = Some m"
    using "2.prems"(1) by (cases v) (auto split: if_splits)
  then have "n + length x \<le> LUNA_NET_PACKET_SIZE" using "2.prems"(2) by linarith
  then show ?case using "2.IH" [OF v(1,2,3)] v(1) by simp
qed simp

lemma iov_copy_bytes:
  "iov_total n iov = Some m \<Longrightarrow> slice (iov_copy d k iov) 0 (k + length (concat (map the iov))) = slice d 0 k @ concat (map the iov)"
proof (induction iov arbitrary: d k n)
  case (Cons v vs)
  obtain x where x: "v = Some x" and t: "iov_total (n + length x) vs = Some m"
    using Cons.prems by (cases v) (auto split: if_splits)
  let ?d = "memcpy_at d k (\<lambda>i. x ! i) 0 (length x)"
  have "slice ?d 0 (k + length x) = slice d 0 k @ slice (\<lambda>i. x ! i) 0 (length x)"
    using slice_append [of ?d 0 k "length x"] by (simp add: slice_memcpy_same slice_memcpy_other)
  moreover have "slice (\<lambda>i. x ! i) 0 (length x) = x" by (simp add: slice_def map_nth)
  ultimately show ?case using Cons.IH [OF t, of ?d "k + length x"] x by (simp add: add.assoc)
qed simp

lemma insert_ok:
  assumes "queue_ok b" "task_net_tx_queued b < CQN - 1" "iov_total 0 iov = Some n" "n \<noteq> 0" "\<not> tn_tx_error b" "\<not> tn_tx_stop b"
  shows "fst (task_net_tx_insert iov n b) = int n" "queue_ok (snd (task_net_tx_insert iov n b))"
    "child_queue (snd (task_net_tx_insert iov n b)) = child_queue b @ [concat (map the iov)]"
    "tn_taken (snd (task_net_tx_insert iov n b)) = tn_taken b @ [concat (map the iov)]"
    "task_net_tx_queued (snd (task_net_tx_insert iov n b)) = Suc (task_net_tx_queued b)"
proof -
  let ?h = "tn_tx_head b" and ?t = "tn_tx_tail b"
  let ?p = "\<lparr>pk_length = n, pk_data = iov_copy (pk_data (tn_tx_queue b ?h)) 0 iov\<rparr>"
  have l: "?h < CQN" "?t < CQN" using assms(1) by (auto simp: queue_ok_def)
  have ne: "ring_next CQN ?h \<noteq> ?t" using cq.full_iff [OF l] assms(2) by (auto simp: task_net_tx_queued_def)
  have n: "n = length (concat (map the iov))" "n \<le> LUNA_NET_PACKET_SIZE" using iov_total_bytes [OF assms(3)] by auto
  have bytes: "packet_bytes ?p = concat (map the iov)"
    using iov_copy_bytes [OF assms(3), of "pk_data (tn_tx_queue b ?h)" 0] n by (simp add: packet_bytes_def)
  define b' where "b' = snd (task_net_tx_insert iov n b)"
  have r: "fst (task_net_tx_insert iov n b) = int n" and f: "tn_tx_queue b' = (tn_tx_queue b)(?h := ?p)" "tn_tx_head b' = ring_next CQN ?h"
    "tn_tx_tail b' = ?t" "tn_taken b' = tn_taken b @ [packet_bytes ?p]"
    using assms(5,6) ne unfolding b'_def by (simp_all add: task_net_tx_insert_def Let_def)
  show "fst (task_net_tx_insert iov n b) = int n" by (rule r)
  show "queue_ok b'" using assms(1,4) l ne n unfolding queue_ok_def f by (auto simp: cq.in_push)
  show "child_queue b' = child_queue b @ [concat (map the iov)]"
    unfolding child_queue_def f using cq.list_push [OF l ne, where q = "tn_tx_queue b" and x = ?p] bytes by simp
  show "tn_taken b' = tn_taken b @ [concat (map the iov)]" using f bytes by simp
  show "task_net_tx_queued b' = Suc (task_net_tx_queued b)"
    unfolding task_net_tx_queued_def f using cq.used_next_head [OF l ne] by simp
qed

lemma insert_refused:
  "tn_tx_error b \<or> tn_tx_stop b \<Longrightarrow> task_net_tx_insert iov n b = (-1, b\<lparr>tn_tx_free_sem := tn_tx_free_sem b + 1\<rparr>)"
  by (simp add: task_net_tx_insert_def)

section \<open>Filling the window\<close>

definition tx_slot_holds :: "luna_net_batch_header \<Rightarrow> bytes \<Rightarrow> nat \<Rightarrow> u8 list \<Rightarrow> bool" where
  "tx_slot_holds H w k p \<longleftrightarrow> tx_lengths H k = of_nat (length p) \<and>
     slice w (LUNA_NET_TX_OFFSET + k * LUNA_NET_PACKET_SIZE) (length p) = p \<and> p \<noteq> [] \<and> length p \<le> LUNA_NET_PACKET_SIZE"

lemma tx_slot_holds_slot:
  assumes "tx_slot_holds H w k p"
  shows "tx_slot H w k = p" "tx_lengths H k \<noteq> 0" "unat (tx_lengths H k) \<le> LUNA_NET_PACKET_SIZE"
proof -
  have len: "length p \<le> 2048" "0 < length p" using assms by (simp_all add: tx_slot_holds_def luna_consts)
  then have u: "unat (of_nat (length p) :: u64) = length p" by (intro unat_u64) simp
  show "tx_slot H w k = p" using assms u by (simp add: tx_slot_def tx_slot_holds_def)
  show "tx_lengths H k \<noteq> 0" using assms u len by (metis tx_slot_holds_def unat_0 less_numeral_extra(3))
  show "unat (tx_lengths H k) \<le> LUNA_NET_PACKET_SIZE" using assms u by (simp add: tx_slot_holds_def)
qed

lemma collect_ok:
  assumes "h < CQN" "t < CQN"
    and "\<forall>p < CQN. ring_in CQN h t p \<longrightarrow> 0 < pk_length (q p) \<and> pk_length (q p) \<le> LUNA_NET_PACKET_SIZE"
    and L: "L = map packet_bytes (ring_list CQN q h t)" and m: "m = min k (ring_used CQN h t)"
    and held: "\<forall>j < n. tx_slot_holds H w j (D j)"
  shows "\<exists>H' w'. collect_loop k q h t n H w = (n + m, H', w') \<and> H'\<lparr>tx_lengths := tx_lengths H\<rparr> = H \<and>
    (\<forall>j < n. tx_slot_holds H' w' j (D j)) \<and> (\<forall>j < m. tx_slot_holds H' w' (n + j) (L ! j)) \<and>
    (\<forall>i \<ge> LUNA_NET_TX_OFFSET + (n + k) * LUNA_NET_PACKET_SIZE. w' i = w i)"
  using assms
proof (induction k arbitrary: t n H w L m D)
  case 0
  then show ?case by simp
next
  case (Suc k)
  show ?case
  proof (cases "t = h")
    case True
    then show ?thesis using Suc.prems by simp
  next
    case False
    then have ht: "h \<noteq> t" by simp
    let ?p = "q t" let ?len = "pk_length ?p" let ?t = "ring_next CQN t"
    let ?H = "H\<lparr>tx_lengths := (tx_lengths H)(n := of_nat ?len)\<rparr>"
    let ?w = "memcpy_at w (LUNA_NET_TX_OFFSET + n * LUNA_NET_PACKET_SIZE) (pk_data ?p) 0 ?len"
    let ?L = "map packet_bytes (ring_list CQN q h ?t)" and ?m = "min k (ring_used CQN h ?t)"
    let ?D = "D(n := packet_bytes ?p)"
    have len: "0 < ?len" "?len \<le> LUNA_NET_PACKET_SIZE"
      using Suc.prems(3) cq.in_tail [OF Suc.prems(1,2) ht] Suc.prems(2) by auto
    have step: "collect_loop (Suc k) q h t n H w = collect_loop k q h ?t (Suc n) ?H ?w" using False by simp
    have Lc: "L = packet_bytes ?p # ?L" using cq.list_pop [OF Suc.prems(1,2) ht, where q = q] Suc.prems(4) by simp
    have mc: "m = Suc ?m" using cq.used_next_tail [OF Suc.prems(1,2) ht] Suc.prems(5) by simp
    have plen: "length (packet_bytes ?p) = ?len" by (simp add: packet_bytes_def)
    have lens: "\<forall>p < CQN. ring_in CQN h ?t p \<longrightarrow> 0 < pk_length (q p) \<and> pk_length (q p) \<le> LUNA_NET_PACKET_SIZE"
      using Suc.prems(3) cq.in_pop [OF Suc.prems(1,2) _ ht] by auto
    have slots: "\<forall>j < Suc n. tx_slot_holds ?H ?w j (?D j)"
    proof (intro allI impI)
      fix j assume "j < Suc n"
      then consider "j = n" | "j < n" by linarith
      then show "tx_slot_holds ?H ?w j (?D j)"
      proof cases
        case 1
        have "packet_bytes ?p \<noteq> []" using plen len by auto
        then show ?thesis using 1 len by (simp add: tx_slot_holds_def plen slice_memcpy_same) (simp add: packet_bytes_def)
      next
        case 2
        have le: "length (D j) \<le> LUNA_NET_PACKET_SIZE" using Suc.prems(6) 2 by (simp add: tx_slot_holds_def)
        have "Suc j * LUNA_NET_PACKET_SIZE \<le> n * LUNA_NET_PACKET_SIZE" using 2 by (intro mult_le_mono1) simp
        then have "j * LUNA_NET_PACKET_SIZE + length (D j) \<le> n * LUNA_NET_PACKET_SIZE" using le by simp
        then show ?thesis using Suc.prems(6) 2 by (simp add: tx_slot_holds_def slice_memcpy_other)
      qed
    qed
    from Suc.IH [OF Suc.prems(1) cq.next_less lens refl refl slots]
    obtain H' w' where r: "collect_loop k q h ?t (Suc n) ?H ?w = (Suc n + ?m, H', w')" "H'\<lparr>tx_lengths := tx_lengths ?H\<rparr> = ?H"
      "\<forall>j < Suc n. tx_slot_holds H' w' j (?D j)" "\<forall>j < ?m. tx_slot_holds H' w' (Suc n + j) (?L ! j)"
      "\<forall>i \<ge> LUNA_NET_TX_OFFSET + (Suc n + k) * LUNA_NET_PACKET_SIZE. w' i = ?w i" by blast
    have "H'\<lparr>tx_lengths := tx_lengths H\<rparr> = (H'\<lparr>tx_lengths := tx_lengths ?H\<rparr>)\<lparr>tx_lengths := tx_lengths H\<rparr>" by simp
    also have "\<dots> = H" unfolding r(2) by simp
    finally have H': "H'\<lparr>tx_lengths := tx_lengths H\<rparr> = H" .
    have "\<forall>j < n. tx_slot_holds H' w' j (D j)"
    proof (intro allI impI)
      fix j assume "j < n"
      then show "tx_slot_holds H' w' j (D j)" using r(3) [rule_format, of j] by simp
    qed
    moreover have "\<forall>j < m. tx_slot_holds H' w' (n + j) (L ! j)"
    proof (intro allI impI)
      fix j assume "j < m"
      then show "tx_slot_holds H' w' (n + j) (L ! j)"
        using r(3) [rule_format, of n] r(4) [rule_format, of "j - 1"] unfolding Lc mc by (cases j) auto
    qed
    moreover have "w' i = w i" if "i \<ge> LUNA_NET_TX_OFFSET + (n + Suc k) * LUNA_NET_PACKET_SIZE" for i
    proof -
      have "LUNA_NET_TX_OFFSET + n * LUNA_NET_PACKET_SIZE + ?len \<le> i" using that len by (simp add: algebra_simps)
      then have "?w i = w i" by (intro memcpy_at_outside) simp
      then show ?thesis using r(5) that by simp
    qed
    ultimately show ?thesis using r(1) H' step mc by simp
  qed
qed

section \<open>What the manager does with an offer\<close>

text \<open>The parts of the window that only the child's worker, or a fetch, changes.\<close>

definition link_fixed where
  "link_fixed s = (tx_request_sequence (net_header s), tx_count (net_header s), tx_lengths (net_header s),
     rx_lengths (net_header s), net_window s, net_delivered s)"

definition offered :: "nat \<Rightarrow> u8 list list \<Rightarrow> 'd luna_network_state \<Rightarrow> bool" where
  "offered n batch s \<longleftrightarrow> 0 < n \<and> n \<le> LUNA_NET_BATCH_SLOTS \<and> n \<le> length batch \<and> tx_count (net_header s) = of_nat n \<and>
     (\<forall>k < n. tx_slot_holds (net_header s) (net_window s) k (batch ! k))"

lemma offered_cong: "link_fixed s' = link_fixed s \<Longrightarrow> offered n batch s' = offered n batch s"
  by (simp add: link_fixed_def offered_def tx_slot_holds_def)

text \<open>From the state \<open>s0\<close> on: nothing answered yet, or the offer answered for its first \<open>a\<close> packets.\<close>

definition unanswered where
  "unanswered s0 s \<longleftrightarrow> tx_response_sequence (net_header s) = tx_response_sequence (net_header s0) \<and>
     tx_accepted (net_header s) = tx_accepted (net_header s0) \<and> net_accepted s = net_accepted s0"

definition answered_with where
  "answered_with a batch s0 s \<longleftrightarrow> tx_response_sequence (net_header s) = tx_request_sequence (net_header s0) \<and>
     tx_accepted (net_header s) = of_nat a \<and> net_accepted s = net_accepted s0 @ take a batch"

definition offer_kept :: "nat \<Rightarrow> u8 list list \<Rightarrow> 'd luna_network_state \<Rightarrow> 'd luna_network_state \<Rightarrow> bool" where
  "offer_kept n batch s0 s \<longleftrightarrow> net_inv s \<and> net_child_active s \<and> link_fixed s = link_fixed s0 \<and>
     (unanswered s0 s \<or> tx_response_pending s0 \<and> (\<exists>a \<le> n. answered_with a batch s0 s))"

lemma offer_kept_cong:
  assumes "net_inv s' = net_inv s" "net_child_active s' = net_child_active s" "link_fixed s' = link_fixed s"
    "tx_response_sequence (net_header s') = tx_response_sequence (net_header s)"
    "tx_accepted (net_header s') = tx_accepted (net_header s)" "net_accepted s' = net_accepted s"
  shows "offer_kept n batch s0 s' = offer_kept n batch s0 s"
  using assms by (simp add: offer_kept_def unanswered_def answered_with_def)

lemma net_frame_kept: "net_frame s' s \<Longrightarrow> offer_kept n batch s0 s' = offer_kept n batch s0 s"
  using net_inv_frame [of s' s] by (intro offer_kept_cong) (simp_all add: net_frame_def link_fixed_def tx_view_def rx_view_def)

lemma receive_complete_kept:
  "tx_response_sequence (net_header (receive_complete bs s)) = tx_response_sequence (net_header s)"
  "tx_accepted (net_header (receive_complete bs s)) = tx_accepted (net_header s)"
  "link_fixed (receive_complete bs s) = link_fixed s"
  by (simp_all add: receive_complete_def rx_enqueue_def Let_def count_def signal_def signal_rx_def record_rx_backpressure_def link_fixed_def)

lemma allocate_rx_buffer_kept:
  "net_header (snd (allocate_rx_buffer E n s)) = net_header s" "net_window (snd (allocate_rx_buffer E n s)) = net_window s"
proof -
  let ?i = "first_index (\<lambda>i. \<not> dma_in_use (net_rx_dma s i)) LUNA_NET_RX_DMA_COUNT"
  obtain virt phys d where dma: "dma_alloc_pin E LUNA_NET_PACKET_SIZE (net_dev s) = ((virt, phys), d)" by (metis prod.collapse)
  show "net_header (snd (allocate_rx_buffer E n s)) = net_header s" "net_window (snd (allocate_rx_buffer E n s)) = net_window s"
    by (cases ?i; auto simp: allocate_rx_buffer_def Let_def dma)+
qed

lemma run_event_kept: "offer_kept n batch s0 s \<Longrightarrow> \<exists>s'. run_event E ev s = Some s' \<and> offer_kept n batch s0 s'"
proof -
  assume k: "offer_kept n batch s0 s"
  then have inv: "net_inv s" by (simp add: offer_kept_def)
  obtain s' where s': "run_event E ev s = Some s'" "net_inv s'" using run_event_inv [OF inv] by blast
  show ?thesis
  proof (cases ev)
    case (Tx_Done i)
    obtain s1 where "transmit_complete i s = Some s1" "tx_kept s s1"
      using transmit_complete_ok [of s i] inv by (auto simp: net_inv_def)
    then have "tx_kept s s'" using s'(1) Tx_Done by simp
    then show ?thesis using s' k inv offer_kept_cong [of s' s]
      by (intro exI [of _ s']) (simp add: tx_kept_def link_fixed_def rx_view_def)
  next
    case (Rx_Done bs)
    then have eq: "s' = receive_complete bs s" using s'(1) by simp
    have "net_accepted s' = net_accepted s" using receive_complete_view [of bs s] unfolding eq by (simp add: tx_view_def)
    then show ?thesis using s' k inv offer_kept_cong [of s' s] receive_complete_kept [of bs s] unfolding eq by auto
  next
    case (Rx_Refill m)
    then have eq: "s' = snd (allocate_rx_buffer E m s)" using s'(1) by simp
    have "net_frame s' s"
      unfolding eq net_frame_def using allocate_rx_buffer_view [of E m s] allocate_rx_buffer_active [of E m s] allocate_rx_buffer_kept [of E m s]
      by simp
    then show ?thesis using s' k net_frame_kept by blast
  qed
qed

lemma process_tx_queue_kept:
  assumes "driver_ok E" "offer_kept n batch s0 s"
  shows "\<exists>s'. process_tx_queue E s = Some s' \<and> offer_kept n batch s0 s'"
proof -
  have inv: "net_inv s" using assms(2) by (simp add: offer_kept_def)
  obtain s' where s': "process_tx_queue E s = Some s'" "net_inv s'" using process_tx_queue_inv [OF assms(1) inv] by blast
  obtain s1 where "process_tx_queue E s = Some s1" "tx_progress s s1"
    using process_tx_queue_ok [OF assms(1), of s] inv by (auto simp: net_inv_def)
  then have "tx_progress s s'" using s'(1) by simp
  then have "offer_kept n batch s0 s' = offer_kept n batch s0 s" using s'(2) inv
    by (intro offer_kept_cong) (auto simp: tx_progress_def link_fixed_def rx_view_def)
  then show ?thesis using s' assms(2) by blast
qed

lemma service_tx_batch_window:
  assumes "service_tx_batch C r s = Some (x, s')"
  shows "net_window s' = net_window s \<and> net_child_active s' = net_child_active s \<and>
    (net_header s' = net_header s \<or> net_header s' = C (net_header s))"
proof -
  have act: "net_child_active (tx_publish u a h q t) = net_child_active t" "net_child_active (tx_refuse t) = net_child_active t"
    "net_header (tx_refuse t) = net_header t" "net_window (tx_refuse t) = net_window t" for u a h q and t :: "'a luna_network_state"
    by (simp_all add: tx_publish_def tx_refuse_def Let_def count_def signal_def)
  show ?thesis using assms
    by (auto simp: service_tx_batch_eq Let_def act count_def put_header_def split: if_splits)
qed

lemma passive_fields:
  assumes "child_passive C"
  shows "tx_request_sequence (C H) = tx_request_sequence H" "tx_response_sequence (C H) = tx_response_sequence H"
    "tx_accepted (C H) = tx_accepted H" "tx_count (C H) = tx_count H" "tx_lengths (C H) = tx_lengths H" "rx_lengths (C H) = rx_lengths H"
proof -
  obtain v where "C H = H\<lparr>rx_waiting := v\<rparr>" using assms by (auto simp: child_passive_def)
  then show "tx_request_sequence (C H) = tx_request_sequence H" "tx_response_sequence (C H) = tx_response_sequence H"
    "tx_accepted (C H) = tx_accepted H" "tx_count (C H) = tx_count H" "tx_lengths (C H) = tx_lengths H" "rx_lengths (C H) = rx_lengths H"
    by simp_all
qed

lemma passive_calm: "child_passive C \<Longrightarrow> calm C"
  by (simp add: calm_def passive_fields)

lemma take_slots:
  assumes "offered n batch s" "a \<le> n"
  shows "map (tx_slot (net_header s) (net_window s)) [0..<a] = take a batch"
proof (rule nth_equalityI)
  show "length (map (tx_slot (net_header s) (net_window s)) [0..<a]) = length (take a batch)"
    using assms by (simp add: offered_def)
  fix k assume "k < length (map (tx_slot (net_header s) (net_window s)) [0..<a])"
  then have "k < a" "k < n" using assms(2) by simp_all
  then show "map (tx_slot (net_header s) (net_window s)) [0..<a] ! k = take a batch ! k"
    using tx_slot_holds_slot(1) assms(1) by (simp add: offered_def)
qed

text \<open>The manager accepts a correct offer for as many packets as it has room, and never refuses it as malformed.\<close>

lemma offered_batch:
  assumes "net_inv s" "net_child_active s" "child_passive C" "offered n batch s"
  shows "\<exists>a s'. service_tx_batch C (tx_count (net_header s)) s = Some ((0, of_nat a), s') \<and> a \<le> n \<and> net_inv s' \<and>
    net_accepted s' = net_accepted s @ take a batch \<and> net_child_active s' \<and> link_fixed s' = link_fixed s \<and>
    tx_response_sequence (net_header s') = tx_response_sequence (net_header s) \<and>
    tx_accepted (net_header s') = tx_accepted (net_header s)"
proof -
  let ?H = "net_header s" let ?a = "min n (tx_room s)"
  have n: "0 < n" "n \<le> 16" "tx_count ?H = of_nat n" using assms(4) by (auto simp: offered_def luna_consts)
  then have u: "unat (tx_count ?H) = n" using unat_u64 [of n] by simp
  have valid: "tx_lengths_valid ?H ?a"
    using assms(4) tx_slot_holds_slot(2,3) by (auto simp: tx_lengths_valid_iff offered_def)
  obtain e r s' where b: "service_tx_batch C (tx_count ?H) s = Some ((e, r), s')" "tx_inv s'" "tx_logged s'" "rx_view s' = rx_view s"
    "if tx_count ?H = 0 \<or> unat (tx_count ?H) > LUNA_NET_BATCH_SLOTS \<or> tx_count ?H \<noteq> tx_count ?H \<or> \<not> net_child_active s \<or>
        \<not> tx_lengths_valid ?H ?a
     then e = -1 \<and> r = 0 \<and> tx_view s' = tx_view s
     else e = 0 \<and> r = of_nat ?a \<and> net_accepted s' = net_accepted s @ map (tx_slot ?H (net_window s)) [0..<?a]"
    using service_tx_batch_ok [OF _ _ passive_calm [OF assms(3)], of s ?a "tx_count ?H"] assms(1) u by (auto simp: net_inv_def)
  have "tx_count ?H \<noteq> 0" using u n by auto
  moreover have "\<not> unat (tx_count ?H) > LUNA_NET_BATCH_SLOTS" using assms(4) unfolding u by (simp add: offered_def)
  ultimately have r: "e = 0" "r = of_nat ?a" "net_accepted s' = net_accepted s @ take ?a batch"
    using b(5) valid assms(2) take_slots [OF assms(4), of ?a] by (simp_all split: if_splits)
  have "net_inv s'" using b(2-4) rx_view_cong [OF b(4)] assms(1) by (simp add: net_inv_def)
  moreover have "net_delivered s' = net_delivered s" using b(4) by (simp add: rx_view_def)
  moreover note w = service_tx_batch_window [OF b(1)]
  ultimately show ?thesis
    using b(1) r assms(2) passive_fields [OF assms(3), of ?H] by (intro exI [of _ ?a] exI [of _ s']) (auto simp: link_fixed_def)
qed

lemma notify_kept:
  assumes "child_passive C" "tx_response_pending s0 \<longrightarrow> offered n batch s0" "offer_kept n batch s0 s"
  shows "\<exists>s'. service_tx_notification E C s = Some s' \<and> offer_kept n batch s0 s'"
proof (cases "tx_response_pending s")
  case False
  then show ?thesis using assms(3) by (simp add: service_tx_notification_def)
next
  case True
  let ?q = "tx_request_sequence (net_header s)"
  have k: "net_inv s" "net_child_active s" "link_fixed s = link_fixed s0" using assms(3) by (simp_all add: offer_kept_def)
  have q: "?q = tx_request_sequence (net_header s0)" using k(3) by (simp add: link_fixed_def)
  then have un: "unanswered s0 s" using True assms(3) by (auto simp: offer_kept_def answered_with_def tx_response_pending_def)
  then have p0: "tx_response_pending s0" using True q by (simp add: unanswered_def tx_response_pending_def)
  then have "offered n batch s" using assms(2) offered_cong [OF k(3)] by simp
  from offered_batch [OF k(1,2) assms(1) this] obtain a s' where
    r: "service_tx_batch C (tx_count (net_header s)) s = Some ((0, of_nat a), s')" "a \<le> n" "net_inv s'"
    "net_accepted s' = net_accepted s @ take a batch" "net_child_active s'" "link_fixed s' = link_fixed s"
    "tx_response_sequence (net_header s') = tx_response_sequence (net_header s)"
    "tx_accepted (net_header s') = tx_accepted (net_header s)" by blast
  show ?thesis
  proof (cases "(of_nat a :: u64) = 0")
    case zero: True
    have "a \<le> 16" using r(2) assms(2) p0 by (auto simp: offered_def luna_consts)
    then have "a = 0" using zero unat_u64 [of a] by simp
    then have "offer_kept n batch s0 s'" using r assms(3) k by (simp add: offer_kept_def unanswered_def answered_with_def)
    then show ?thesis using True k(2) r(1) zero by (simp add: service_tx_notification_def Let_def)
  next
    case False
    let ?s = "signal (net_tx_ntfn s') (respond_tx E (of_nat a) ?q s')"
    have "net_inv ?s" using r(3) by simp
    moreover have "answered_with a batch s0 ?s" "link_fixed ?s = link_fixed s0" "net_child_active ?s"
      using r k un q by (simp_all add: answered_with_def unanswered_def respond_tx_def signal_def link_fixed_def Let_def)
    ultimately have "offer_kept n batch s0 ?s" using r(2) p0 by (auto simp: offer_kept_def)
    then show ?thesis using True k(2) r(1) False by (simp add: service_tx_notification_def Let_def)
  qed
qed

lemma retry_kept:
  assumes "offer_kept n batch s0 s" "tx_response_pending s"
  shows "offer_kept n batch s0 (service_tx_timeout_retry E s)"
proof -
  let ?s = "service_tx_timeout_retry E s"
  have q: "tx_request_sequence (net_header s) = tx_request_sequence (net_header s0)"
    using assms(1) by (simp add: offer_kept_def link_fixed_def)
  then have un: "unanswered s0 s" using assms by (auto simp: offer_kept_def answered_with_def tx_response_pending_def)
  then have "tx_response_pending s0" using assms(2) q by (simp add: unanswered_def tx_response_pending_def)
  moreover have "answered_with 0 batch s0 ?s" "link_fixed ?s = link_fixed s" "net_child_active ?s = net_child_active s"
    using assms(2) un q by (simp_all add: service_tx_timeout_retry_def answered_with_def unanswered_def respond_tx_def signal_def
        count_def link_fixed_def Let_def)
  ultimately show ?thesis using assms(1) by (auto simp: offer_kept_def)
qed

interpretation net_offer: net_preserved E C
  "\<lambda>s. driver_ok E \<and> child_passive C \<and> (tx_response_pending s0 \<longrightarrow> offered n batch s0) \<and> offer_kept n batch s0 s"
proof
  fix s s' :: "'a luna_network_state" and ev
  let ?A = "driver_ok E \<and> child_passive C \<and> (tx_response_pending s0 \<longrightarrow> offered n batch s0)"
  show "net_frame s' s \<Longrightarrow> (driver_ok E \<and> child_passive C \<and> (tx_response_pending s0 \<longrightarrow> offered n batch s0) \<and> offer_kept n batch s0 s') =
      (driver_ok E \<and> child_passive C \<and> (tx_response_pending s0 \<longrightarrow> offered n batch s0) \<and> offer_kept n batch s0 s)"
    using net_frame_kept [of s' s n batch s0] by blast
  assume a: "driver_ok E \<and> child_passive C \<and> (tx_response_pending s0 \<longrightarrow> offered n batch s0) \<and> offer_kept n batch s0 s"
  show "\<exists>s'. run_event E ev s = Some s' \<and> driver_ok E \<and> child_passive C \<and> (tx_response_pending s0 \<longrightarrow> offered n batch s0) \<and> offer_kept n batch s0 s'"
    using a run_event_kept [of n batch s0 s E ev] by blast
  show "\<exists>s'. process_tx_queue E s = Some s' \<and> driver_ok E \<and> child_passive C \<and> (tx_response_pending s0 \<longrightarrow> offered n batch s0) \<and> offer_kept n batch s0 s'"
    using a process_tx_queue_kept [of E n batch s0 s] by blast
  show "\<exists>s'. service_tx_notification E C s = Some s' \<and> driver_ok E \<and> child_passive C \<and> (tx_response_pending s0 \<longrightarrow> offered n batch s0) \<and> offer_kept n batch s0 s'"
    using a notify_kept [of C s0 n batch s E] by blast
  show "tx_response_pending s \<Longrightarrow> driver_ok E \<and> child_passive C \<and> (tx_response_pending s0 \<longrightarrow> offered n batch s0) \<and>
      offer_kept n batch s0 (service_tx_timeout_retry E s)"
    using a retry_kept [of n batch s0 s E] by blast
qed

lemma manager_kept:
  assumes "driver_ok E" "child_passive C" "net_inv s" "net_child_active s" "tx_response_pending s \<longrightarrow> offered n batch s"
    and "network_poll_iteration E C m badge s = Some s'"
  shows "offer_kept n batch s s'"
proof -
  have "offer_kept n batch s s" using assms(3,4) by (simp add: offer_kept_def unanswered_def)
  then show ?thesis using net_offer.iteration [of E C s n batch s m badge s'] assms by blast
qed

text \<open>Requests other than a fetch do not touch any of it.\<close>

lemma child_request_kept:
  assumes "net_inv s" "net_child_active s" "ev \<in> child_events" "luna_network_service C (event_word ev) n s = Some (m, e, s')"
  shows "offer_kept 0 [] s s' \<and> unanswered s s'"
proof -
  have log: "net_inv (t\<lparr>net_log := l\<rparr>) = net_inv t" for t :: "'a luna_network_state" and l
    by (rule net_inv_frame) simp_all
  have fr: "net_inv s' = net_inv s \<and> net_child_active s' = net_child_active s \<and> link_fixed s' = link_fixed s \<and> unanswered s s'"
    if "s' = s \<or> s' = snd (service_control n s) \<or> (\<exists>e. service_tx_stress n s = Some (e, s')) \<or> s' = signal (net_rx_ntfn s) s"
    using that
  proof (elim disjE exE)
    fix e assume "service_tx_stress n s = Some (e, s')"
    then show ?thesis using service_tx_stress_inv [of n s e s']
      by (auto simp: service_tx_stress_def Let_def unanswered_def link_fixed_def signal_def split: if_splits)
  qed (auto simp: service_control_def Let_def unanswered_def link_fixed_def signal_def signal_rx_def log)
  have "s' = s \<or> s' = snd (service_control n s) \<or> (\<exists>e. service_tx_stress n s = Some (e, s')) \<or> s' = signal (net_rx_ntfn s) s"
    using assms(3,4)
    by (auto simp: child_events_def luna_network_service_def net_dispatch_def Let_def split: if_splits prod.splits)
  then show ?thesis using fr assms(1,2) by (simp add: offer_kept_def)
qed

section \<open>The transmit path\<close>

text \<open>How many packets at the front of the child's queue the manager has already taken.\<close>

definition acked :: "worker_pc \<Rightarrow> luna_net_batch_header \<Rightarrow> nat" where
  "acked pc H = (case pc of W_Wait n q \<Rightarrow> if tx_response_sequence H = q then unat (tx_accepted H) else 0
     | W_Release a \<Rightarrow> a | _ \<Rightarrow> 0)"

definition worker_offer :: "worker_pc \<Rightarrow> task_net_backend \<Rightarrow> 'd luna_network_state \<Rightarrow> bool" where
  "worker_offer pc b s = (case pc of W_Submit n \<Rightarrow> offered n (child_queue b) s
     | W_Wait n q \<Rightarrow> q = tn_tx_submit_sequence b \<and> q \<noteq> 0 \<and> offered n (child_queue b) s \<and>
         (tx_response_sequence (net_header s) = q \<longrightarrow> unat (tx_accepted (net_header s)) \<le> n)
     | W_Release a \<Rightarrow> 0 < a \<and> a \<le> task_net_tx_queued b
     | _ \<Rightarrow> True)"

definition worker_waits :: "worker_pc \<Rightarrow> bool" where
  "worker_waits pc = (case pc of W_Wait n q \<Rightarrow> True | _ \<Rightarrow> False)"

definition tx_link :: "worker_pc \<Rightarrow> task_net_backend \<Rightarrow> 'd luna_network_state \<Rightarrow> bool" where
  "tx_link pc b s \<longleftrightarrow> net_inv s \<and> net_child_active s \<and> tx_request_sequence (net_header s) = tn_tx_submit_sequence b \<and>
     (\<not> worker_waits pc \<longrightarrow> tx_response_sequence (net_header s) = tn_tx_submit_sequence b) \<and> worker_offer pc b s \<and>
     tn_taken b = net_accepted s @ drop (acked pc (net_header s)) (child_queue b)"

lemmas tx_link_defs = tx_link_def worker_offer_def worker_waits_def acked_def

lemma acked_queued: "worker_offer pc b s \<Longrightarrow> acked pc (net_header s) \<le> task_net_tx_queued b"
  by (auto simp: worker_offer_def acked_def offered_def split: worker_pc.splits)

lemma offered_append: "offered n batch s \<Longrightarrow> offered n (batch @ xs) s"
  by (auto simp: offered_def nth_append)

lemma tx_link_same:
  assumes "queue_view b' = queue_view b" "tn_taken b' = tn_taken b" "tn_tx_submit_sequence b' = tn_tx_submit_sequence b"
  shows "tx_link pc b' s = tx_link pc b s"
  using assms queue_view_cong [OF assms(1)] by (cases pc) (simp_all add: tx_link_def worker_offer_def)

lemma tx_link_grow:
  assumes "tx_link pc b s" "child_queue b' = child_queue b @ [x]" "tn_taken b' = tn_taken b @ [x]"
    "tn_tx_submit_sequence b' = tn_tx_submit_sequence b"
  shows "tx_link pc b' s"
proof -
  have "task_net_tx_queued b' = Suc (task_net_tx_queued b)" using assms(2) child_queue_length by (metis length_append_singleton)
  then have "worker_offer pc b' s" using assms(1,2,4) offered_append [of _ "child_queue b" s "[x]"]
    by (auto simp: tx_link_def worker_offer_def split: worker_pc.splits)
  then show ?thesis using assms acked_queued [of pc b s] by (auto simp: tx_link_def)
qed

lemma unanswered_link:
  assumes "tx_link pc b s" "net_inv s'" "net_child_active s'" "unanswered s s'"
    "tx_request_sequence (net_header s') = tx_request_sequence (net_header s)"
    "\<And>n batch. offered n batch s \<Longrightarrow> offered n batch s'"
  shows "tx_link pc b s'"
proof -
  have same: "tx_response_sequence (net_header s') = tx_response_sequence (net_header s)"
    "tx_accepted (net_header s') = tx_accepted (net_header s)" "net_accepted s' = net_accepted s"
    using assms(4) by (simp_all add: unanswered_def)
  then have "acked pc (net_header s') = acked pc (net_header s)" by (cases pc) (simp_all add: acked_def)
  moreover have "worker_offer pc b s'" using assms(1) assms(6) same by (cases pc) (simp_all add: tx_link_def worker_offer_def)
  ultimately show ?thesis using assms(1-3,5) same by (simp add: tx_link_def)
qed

lemma manager_link:
  assumes "driver_ok E" "child_passive C" "tx_link pc b s" "network_poll_iteration E C m badge s = Some s'"
  shows "tx_link pc b s' \<and> link_fixed s' = link_fixed s \<and> net_inv s'"
proof -
  let ?n = "case pc of W_Wait n q \<Rightarrow> n | _ \<Rightarrow> 0"
  have l: "net_inv s" "net_child_active s" "tx_request_sequence (net_header s) = tn_tx_submit_sequence b"
    "\<not> worker_waits pc \<longrightarrow> tx_response_sequence (net_header s) = tn_tx_submit_sequence b" "worker_offer pc b s"
    "tn_taken b = net_accepted s @ drop (acked pc (net_header s)) (child_queue b)"
    using assms(3) by (simp_all add: tx_link_def)
  have "tx_response_pending s \<longrightarrow> offered ?n (child_queue b) s"
    using l by (auto simp: tx_response_pending_def worker_waits_def worker_offer_def split: worker_pc.splits)
  from manager_kept [OF assms(1,2) l(1,2) this assms(4)]
  have k: "net_inv s'" "net_child_active s'" "link_fixed s' = link_fixed s"
    and alt: "unanswered s s' \<or> tx_response_pending s \<and> (\<exists>a \<le> ?n. answered_with a (child_queue b) s s')"
    by (auto simp: offer_kept_def)
  have r: "tx_request_sequence (net_header s') = tx_request_sequence (net_header s)" using k(3) by (simp add: link_fixed_def)
  from alt show ?thesis
  proof
    assume "unanswered s s'"
    then show ?thesis using unanswered_link [OF assms(3) k(1,2) _ r] offered_cong [OF k(3)] k by blast
  next
    assume "tx_response_pending s \<and> (\<exists>a \<le> ?n. answered_with a (child_queue b) s s')"
    then obtain a where p: "tx_response_pending s" and a: "a \<le> ?n" "answered_with a (child_queue b) s s'" by blast
    obtain n q where pc: "pc = W_Wait n q" using p l(3,4) by (cases pc) (auto simp: tx_response_pending_def worker_waits_def)
    have o: "q = tn_tx_submit_sequence b" "q \<noteq> 0" "offered n (child_queue b) s" using l(5) pc by (auto simp: worker_offer_def)
    have ack0: "acked pc (net_header s) = 0" using p l(3) o(1) pc by (auto simp: acked_def tx_response_pending_def)
    have "a \<le> 16" using a(1) o(3) pc by (simp add: offered_def luna_consts)
    then have u: "unat (tx_accepted (net_header s')) = a" using a(2) unat_u64 [of a] by (simp add: answered_with_def)
    then have "acked pc (net_header s') = a" using a(2) l(3) o(1) pc by (simp add: acked_def answered_with_def)
    moreover have "net_accepted s' = net_accepted s @ take a (child_queue b)" using a(2) by (simp add: answered_with_def)
    moreover have "worker_offer pc b s'" using o offered_cong [OF k(3)] u a(1) pc by (simp add: worker_offer_def)
    ultimately show ?thesis using k l(3,6) r ack0 pc by (simp add: tx_link_def worker_waits_def)
  qed
qed

lemma offered_window:
  assumes "offered n batch s" "tx_count (net_header s') = tx_count (net_header s)" "tx_lengths (net_header s') = tx_lengths (net_header s)"
    "\<And>i. i < LUNA_NET_RX_OFFSET \<Longrightarrow> net_window s' i = net_window s i"
  shows "offered n batch s'"
proof -
  have "tx_slot_holds (net_header s') (net_window s') k (batch ! k)" if "k < n" for k
  proof -
    have h: "tx_slot_holds (net_header s) (net_window s) k (batch ! k)" and n: "n \<le> LUNA_NET_BATCH_SLOTS"
      using assms(1) that by (auto simp: offered_def)
    have "Suc k * LUNA_NET_PACKET_SIZE \<le> LUNA_NET_BATCH_SLOTS * LUNA_NET_PACKET_SIZE" using n that by (intro mult_le_mono1) simp
    then have "LUNA_NET_TX_OFFSET + k * LUNA_NET_PACKET_SIZE + length (batch ! k) \<le> LUNA_NET_RX_OFFSET"
      using h by (simp add: tx_slot_holds_def LUNA_NET_RX_OFFSET_def)
    then have "slice (net_window s') (LUNA_NET_TX_OFFSET + k * LUNA_NET_PACKET_SIZE) (length (batch ! k)) =
        slice (net_window s) (LUNA_NET_TX_OFFSET + k * LUNA_NET_PACKET_SIZE) (length (batch ! k))"
      by (intro slice_cong assms(4)) simp
    then show ?thesis using h assms(3) by (simp add: tx_slot_holds_def)
  qed
  then show ?thesis using assms by (simp add: offered_def)
qed

section \<open>Permits and wake-ups\<close>

definition owed :: "worker_pc \<Rightarrow> nat" where
  "owed pc = (case pc of W_Free k a d \<Rightarrow> k | _ \<Rightarrow> 0)"

text \<open>
  The 63 units of \<open>tx_free_sem\<close> are the free places of the queue: each is in the semaphore, held
  by a caller on its way to the insertion, used by a packet, or about to be given back.
\<close>

definition permits_ok :: "worker_pc \<Rightarrow> task_net_backend \<Rightarrow> (iovec \<times> nat) list \<Rightarrow> bool" where
  "permits_ok pc b cs \<longleftrightarrow> queue_ok b \<and> (\<forall>c \<in> set cs. iov_total 0 (fst c) = Some (snd c) \<and> snd c \<noteq> 0) \<and>
     tn_tx_free_sem b + length cs + task_net_tx_queued b + owed pc = CQN - 1"

definition armed :: "u64 \<Rightarrow> task_net_backend \<Rightarrow> timer_pc \<Rightarrow> bool" where
  "armed g b t \<longleftrightarrow> tn_coalesce_generation b = g \<and>
     (tn_coalesce_expired_generation b = g \<or> 0 < tn_coalesce_sem b \<or> t = T_Sleep g \<or> t = T_Exit)"

definition wake_ok :: "worker_pc \<Rightarrow> task_net_backend \<Rightarrow> timer_pc \<Rightarrow> bool" where
  "wake_ok pc b t \<longleftrightarrow> (t = T_Exit \<longrightarrow> tn_coalesce_stop b \<or> tn_tx_error b) \<and>
     (case pc of
        W_Sleep \<Rightarrow> task_net_tx_queued b \<noteq> 0 \<longrightarrow> 0 < tn_tx_work_sem b
      | W_Coalesce g \<Rightarrow> armed g b t
      | W_Coalesce_Sleep g \<Rightarrow> armed g b t \<and>
          (task_net_tx_queued b \<ge> LUNA_NET_BATCH_SLOTS \<or> tn_coalesce_expired_generation b = g \<longrightarrow> 0 < tn_tx_work_sem b)
      | W_Free k a d \<Rightarrow> d \<and> task_net_tx_queued b \<noteq> 0 \<longrightarrow> 0 < tn_tx_work_sem b
      | W_Exit \<Rightarrow> tn_tx_stop b
      | _ \<Rightarrow> True)"

text \<open>What the worker leaves alone: the receive side.\<close>

definition rx_part where
  "rx_part b = (tn_rx_count b, tn_rx_index b, tn_pending_rx b, tn_handed b)"

lemma signal_once_pos [simp]: "0 < sem_signal_once n"
  by (simp add: sem_signal_once_def)

lemma queued_frame [simp]:
  "task_net_tx_queued (b\<lparr>tn_tx_work_sem := x\<rparr>) = task_net_tx_queued b"
  "task_net_tx_queued (b\<lparr>tn_tx_free_sem := x\<rparr>) = task_net_tx_queued b"
  "task_net_tx_queued (b\<lparr>tn_tx_drain_sem := x\<rparr>) = task_net_tx_queued b"
  "task_net_tx_queued (b\<lparr>tn_coalesce_sem := x\<rparr>) = task_net_tx_queued b"
  "task_net_tx_queued (b\<lparr>tn_tx_stop := y\<rparr>) = task_net_tx_queued b"
  "task_net_tx_queued (b\<lparr>tn_coalesce_stop := y\<rparr>) = task_net_tx_queued b"
  "task_net_tx_queued (b\<lparr>tn_tx_error := y\<rparr>) = task_net_tx_queued b"
  "task_net_tx_queued (b\<lparr>tn_coalesce_generation := z\<rparr>) = task_net_tx_queued b"
  "task_net_tx_queued (b\<lparr>tn_coalesce_expired_generation := z\<rparr>) = task_net_tx_queued b"
  "task_net_tx_queued (b\<lparr>tn_coalesce_delay_ns := z\<rparr>) = task_net_tx_queued b"
  "task_net_tx_queued (b\<lparr>tn_adaptive_delay_ns := z\<rparr>) = task_net_tx_queued b"
  "task_net_tx_queued (b\<lparr>tn_tx_submit_sequence := z\<rparr>) = task_net_tx_queued b"
  by (simp_all add: task_net_tx_queued_def)

lemma queued_stats [simp]:
  "task_net_tx_queued (b\<lparr>tn_tx_ipc := z\<rparr>) = task_net_tx_queued b"
  "task_net_tx_queued (b\<lparr>tn_tx_batches := z\<rparr>) = task_net_tx_queued b"
  "task_net_tx_queued (b\<lparr>tn_tx_packets := z\<rparr>) = task_net_tx_queued b"
  "task_net_tx_queued (b\<lparr>tn_tx_backpressure := z\<rparr>) = task_net_tx_queued b"
  "task_net_tx_queued (b\<lparr>tn_tx_enqueued := z\<rparr>) = task_net_tx_queued b"
  "task_net_tx_queued (b\<lparr>tn_tx_batch_max := z\<rparr>) = task_net_tx_queued b"
  "task_net_tx_queued (b\<lparr>tn_tx_coalesce_timers := z\<rparr>) = task_net_tx_queued b"
  "task_net_tx_queued (b\<lparr>tn_tx_full_batch_bypass := z\<rparr>) = task_net_tx_queued b"
  "task_net_tx_queued (b\<lparr>tn_tx_spurious_wakes := z\<rparr>) = task_net_tx_queued b"
  "task_net_tx_queued (b\<lparr>tn_taken := v\<rparr>) = task_net_tx_queued b"
  by (simp_all add: task_net_tx_queued_def)

text \<open>Steps that leave the queue, the history and the sequence number alone.\<close>

definition tx_same where
  "tx_same b' b \<longleftrightarrow> queue_view b' = queue_view b \<and> tn_taken b' = tn_taken b \<and>
     tn_tx_submit_sequence b' = tn_tx_submit_sequence b \<and> rx_part b' = rx_part b"

lemma tx_sameD:
  assumes "tx_same b' b"
  shows "tx_link pc b' s = tx_link pc b s" "queue_ok b' = queue_ok b" "task_net_tx_queued b' = task_net_tx_queued b"
    "rx_part b' = rx_part b"
  using assms tx_link_same [of b' b pc s] queue_view_cong [of b' b] by (simp_all add: tx_same_def)

text \<open>Program points between two batches: nothing is offered, nothing is owed.\<close>

definition worker_idle :: "worker_pc \<Rightarrow> bool" where
  "worker_idle pc = (case pc of W_Submit n \<Rightarrow> False | W_Wait n q \<Rightarrow> False | W_Release a \<Rightarrow> False | W_Free k a d \<Rightarrow> k = 0 | _ \<Rightarrow> True)"

lemma worker_idleD:
  assumes "worker_idle pc"
  shows "\<not> worker_waits pc" "acked pc H = 0" "worker_offer pc b s" "owed pc = 0"
  using assms by (cases pc; simp add: worker_idle_def worker_waits_def acked_def worker_offer_def owed_def)+

lemma idle_step:
  assumes "tx_link pc b s" "permits_ok pc b cs" "worker_idle pc" "worker_idle pc'" "tx_same b' b" "tn_tx_free_sem b' = tn_tx_free_sem b"
  shows "tx_link pc' b' s \<and> permits_ok pc' b' cs \<and> rx_part b' = rx_part b"
proof -
  note i = worker_idleD [OF assms(3)] and i' = worker_idleD [OF assms(4)]
  have "tx_link pc' b s" using assms(1) i i'(1,2) i'(3) [of b s] by (simp add: tx_link_def)
  then show ?thesis using tx_sameD(1) [OF assms(5), of pc' s] tx_sameD(2-4) [OF assms(5)] assms(2,6) i(4) i'(4)
    by (simp add: permits_ok_def)
qed

lemma wake_step:
  assumes "tx_link W_Sleep b s" "permits_ok W_Sleep b cs" "wake_ok W_Sleep b t" "0 < tn_tx_work_sem b" "worker_wake b = (pc', b')"
  shows "tx_link pc' b' s \<and> permits_ok pc' b' cs \<and> wake_ok pc' b' t \<and> rx_part b' = rx_part b"
proof -
  have "tx_same b' b \<and> tn_tx_free_sem b' = tn_tx_free_sem b" "worker_idle pc'"
    using assms(5) by (auto simp: worker_wake_def Let_def tx_same_def queue_view_def rx_part_def worker_idle_def split: if_splits)
  moreover have "worker_idle W_Sleep" by (simp add: worker_idle_def)
  moreover have "wake_ok pc' b' t"
    using assms(3,5) by (auto simp: worker_wake_def Let_def wake_ok_def armed_def split: if_splits)
  ultimately show ?thesis using idle_step [OF assms(1,2)] by blast
qed

lemma coalesce_step:
  assumes "tx_link (W_Coalesce g) b s" "permits_ok (W_Coalesce g) b cs" "wake_ok (W_Coalesce g) b t" "worker_coalesce g b = (pc', b')"
  shows "tx_link pc' b' s \<and> permits_ok pc' b' cs \<and> wake_ok pc' b' t \<and> rx_part b' = rx_part b"
proof -
  have "tx_same b' b \<and> tn_tx_free_sem b' = tn_tx_free_sem b" "worker_idle pc'"
    using assms(4) by (auto simp: worker_coalesce_def tx_same_def queue_view_def rx_part_def worker_idle_def split: if_splits)
  moreover have "worker_idle (W_Coalesce g)" by (simp add: worker_idle_def)
  moreover have "wake_ok pc' b' t"
    using assms(3,4) by (auto simp: worker_coalesce_def wake_ok_def armed_def split: if_splits)
  ultimately show ?thesis using idle_step [OF assms(1,2)] by blast
qed

lemma coalesce_wake_step:
  assumes "tx_link (W_Coalesce_Sleep g) b s" "permits_ok (W_Coalesce_Sleep g) b cs" "wake_ok (W_Coalesce_Sleep g) b t"
    "worker_coalesce_wake g b = (pc', b')"
  shows "tx_link pc' b' s \<and> permits_ok pc' b' cs \<and> wake_ok pc' b' t \<and> rx_part b' = rx_part b"
proof -
  have "tx_same b' b \<and> tn_tx_free_sem b' = tn_tx_free_sem b" "worker_idle pc'"
    using assms(4) by (auto simp: worker_coalesce_wake_def Let_def tx_same_def queue_view_def rx_part_def worker_idle_def)
  moreover have "worker_idle (W_Coalesce_Sleep g)" by (simp add: worker_idle_def)
  moreover have "wake_ok pc' b' t"
    using assms(3,4) by (auto simp: worker_coalesce_wake_def Let_def wake_ok_def armed_def)
  ultimately show ?thesis using idle_step [OF assms(1,2)] by blast
qed

lemma collect_step:
  assumes "tx_link W_Collect b s" "permits_ok W_Collect b cs" "wake_ok W_Collect b t"
    "worker_collect b (net_header s) (net_window s) = (pc', H, w)"
  shows "tx_link pc' b (s\<lparr>net_header := H, net_window := w\<rparr>) \<and> permits_ok pc' b cs \<and> wake_ok pc' b t \<and>
    rx_lengths H = rx_lengths (net_header s) \<and> (\<forall>i \<ge> LUNA_NET_RX_OFFSET. w i = net_window s i)"
proof -
  let ?n = "min LUNA_NET_BATCH_SLOTS (task_net_tx_queued b)" let ?s = "s\<lparr>net_header := H, net_window := w\<rparr>"
  have q: "tn_tx_head b < CQN" "tn_tx_tail b < CQN" "\<forall>p < CQN. ring_in CQN (tn_tx_head b) (tn_tx_tail b) p \<longrightarrow>
        0 < pk_length (tn_tx_queue b p) \<and> pk_length (tn_tx_queue b p) \<le> LUNA_NET_PACKET_SIZE"
    using assms(2) by (auto simp: permits_ok_def queue_ok_def)
  obtain H' where r: "collect_loop LUNA_NET_BATCH_SLOTS (tn_tx_queue b) (tn_tx_head b) (tn_tx_tail b) 0 (net_header s) (net_window s) = (?n, H', w)"
    "H'\<lparr>tx_lengths := tx_lengths (net_header s)\<rparr> = net_header s" "\<forall>j < ?n. tx_slot_holds H' w j (child_queue b ! j)"
    "\<forall>i \<ge> LUNA_NET_TX_OFFSET + LUNA_NET_BATCH_SLOTS * LUNA_NET_PACKET_SIZE. w i = net_window s i"
    and pc': "pc' = (if ?n = 0 then W_Sleep else W_Submit ?n)" "H = H'\<lparr>tx_count := of_nat ?n\<rparr>"
    using collect_ok [OF q refl refl, of 0 "net_header s" "net_window s" "\<lambda>_. []" LUNA_NET_BATCH_SLOTS] assms(4)
    unfolding worker_collect_def child_queue_def task_net_tx_queued_def by fastforce
  have H': "tx_request_sequence H' = tx_request_sequence (net_header s)" "tx_response_sequence H' = tx_response_sequence (net_header s)"
    "rx_lengths H' = rx_lengths (net_header s)"
    using r(2) by (metis luna_net_batch_header.select_convs luna_net_batch_header.surjective luna_net_batch_header.update_convs(9))+
  have "offered ?n (child_queue b) ?s" if "?n \<noteq> 0"
    using that r(3) pc'(2) by (auto simp: offered_def tx_slot_holds_def)
  then have offer: "worker_offer pc' b ?s" using pc'(1) by (simp add: worker_offer_def)
  have pc: "\<not> worker_waits pc'" "acked pc' X = 0" "owed pc' = 0" for X
    using pc'(1) by (simp_all add: worker_waits_def acked_def owed_def)
  have "net_inv ?s" using assms(1) by (simp add: tx_link_def)
  then have "tx_link pc' b ?s" using assms(1) pc offer H' pc'(2) by (simp add: tx_link_def worker_waits_def acked_def)
  moreover have "wake_ok pc' b t" using assms(3) pc'(1) by (auto simp: wake_ok_def luna_consts split: if_splits)
  ultimately show ?thesis using assms(2) pc(3) H'(3) pc'(2) r(4) by (simp add: permits_ok_def owed_def LUNA_NET_RX_OFFSET_def)
qed

lemma next_sequence_fresh: "next_sequence q \<noteq> q" "next_sequence q \<noteq> 0"
  by (auto simp: next_sequence_def)

lemma submit_step:
  assumes "tx_link (W_Submit n) b s" "permits_ok (W_Submit n) b cs" "wake_ok (W_Submit n) b t"
    "worker_submit n b (net_header s) = (pc', b', H)"
  shows "tx_link pc' b' (s\<lparr>net_header := H\<rparr>) \<and> permits_ok pc' b' cs \<and> wake_ok pc' b' t \<and> rx_part b' = rx_part b \<and>
    rx_lengths H = rx_lengths (net_header s)"
proof -
  let ?q = "next_sequence (tn_tx_submit_sequence b)"
  have r: "pc' = W_Wait n ?q" "b' = b\<lparr>tn_tx_submit_sequence := ?q\<rparr>" "H = (net_header s)\<lparr>tx_request_sequence := ?q\<rparr>"
    using assms(4) by (simp_all add: worker_submit_def Let_def)
  have v: "queue_view b' = queue_view b" unfolding r(2) by (simp add: queue_view_def)
  have "offered n (child_queue b) s" using assms(1) by (simp add: tx_link_def worker_offer_def)
  then have o: "offered n (child_queue b') (s\<lparr>net_header := H\<rparr>)"
    using queue_view_cong [OF v] r(3) by (auto simp: offered_def tx_slot_holds_def)
  have "net_inv (s\<lparr>net_header := H\<rparr>)" using assms(1) by (simp add: tx_link_def)
  then have "tx_link pc' b' (s\<lparr>net_header := H\<rparr>)"
    using assms(1) o r queue_view_cong [OF v] next_sequence_fresh [of "tn_tx_submit_sequence b"]
    by (auto simp: tx_link_defs)
  moreover have "permits_ok pc' b' cs" using assms(2) queue_view_cong [OF v] r(1,2) by (simp add: permits_ok_def owed_def)
  ultimately show ?thesis using assms(3) r by (simp add: wake_ok_def rx_part_def)
qed

text \<open>The manager never claims more than was offered, so the worker's error exit is not taken.\<close>

lemma response_step:
  assumes "tx_link (W_Wait n q) b s" "permits_ok (W_Wait n q) b cs" "wake_ok (W_Wait n q) b t"
    "tx_response_sequence (net_header s) = q" "worker_response n b (net_header s) = (pc', b')"
  shows "tx_link pc' b' s \<and> permits_ok pc' b' cs \<and> wake_ok pc' b' t \<and> rx_part b' = rx_part b \<and> tn_tx_error b' = tn_tx_error b"
proof -
  let ?a = "tx_accepted (net_header s)"
  have l: "q = tn_tx_submit_sequence b" "offered n (child_queue b) s" "unat ?a \<le> n"
    "tn_taken b = net_accepted s @ drop (unat ?a) (child_queue b)"
    using assms(1,4) by (auto simp: tx_link_defs)
  have n: "n \<le> 16" "n \<le> task_net_tx_queued b" using l(2) by (simp_all add: offered_def luna_consts)
  have "unat (of_nat n :: u64) = n" using n(1) by (intro unat_u64) simp
  then have ok: "\<not> ?a > of_nat n" using l(3) by (simp add: word_less_nat_alt)
  show ?thesis
  proof (cases "?a = 0")
    case True
    then have r: "pc' = W_Submit n" "b' = b\<lparr>tn_tx_ipc := tn_tx_ipc b + 1, tn_tx_backpressure := tn_tx_backpressure b + 1\<rparr>"
      using assms(5) ok by (simp_all add: worker_response_def Let_def)
    have same: "tx_same b' b" "tn_tx_free_sem b' = tn_tx_free_sem b" unfolding r(2) by (simp_all add: tx_same_def queue_view_def rx_part_def)
    have "tx_link pc' b s" using assms(1,4) l r(1) True by (simp add: tx_link_defs)
    then have "tx_link pc' b' s" using tx_sameD(1) [OF same(1), of pc' s] by simp
    then show ?thesis using tx_sameD(2-4) [OF same(1)] same(2) assms(2,3) r by (simp add: permits_ok_def owed_def wake_ok_def)
  next
    case False
    then have r: "pc' = W_Release (unat ?a)" "b' = b\<lparr>tn_tx_ipc := tn_tx_ipc b + 1\<rparr>"
      using assms(5) ok by (simp_all add: worker_response_def Let_def)
    have same: "tx_same b' b" "tn_tx_free_sem b' = tn_tx_free_sem b" unfolding r(2) by (simp_all add: tx_same_def queue_view_def rx_part_def)
    have "0 < unat ?a" using False by (simp add: unat_gt_0)
    then have "tx_link pc' b s" using assms(1,4) l n(2) r(1) by (simp add: tx_link_defs)
    then have "tx_link pc' b' s" using tx_sameD(1) [OF same(1), of pc' s] by simp
    then show ?thesis using tx_sameD(2-4) [OF same(1)] same(2) assms(2,3) r by (simp add: permits_ok_def owed_def wake_ok_def)
  qed
qed

lemma release_ok:
  assumes "queue_ok b" "a \<le> task_net_tx_queued b"
  shows "queue_ok (release_loop a b) \<and> child_queue (release_loop a b) = drop a (child_queue b) \<and>
    task_net_tx_queued (release_loop a b) = task_net_tx_queued b - a \<and>
    (\<exists>q t. release_loop a b = b\<lparr>tn_tx_queue := q, tn_tx_tail := t\<rparr>)"
  using assms
proof (induction a arbitrary: b)
  case 0
  have "b = b\<lparr>tn_tx_queue := tn_tx_queue b, tn_tx_tail := tn_tx_tail b\<rparr>" by simp
  then show ?case using 0 by (metis (no_types) drop0 minus_nat.diff_0 release_loop.simps(1))
next
  case (Suc a)
  let ?h = "tn_tx_head b" and ?t = "tn_tx_tail b"
  let ?q = "(tn_tx_queue b)(?t := (tn_tx_queue b ?t)\<lparr>pk_length := 0\<rparr>)"
  let ?b = "b\<lparr>tn_tx_queue := ?q, tn_tx_tail := ring_next CQN ?t\<rparr>"
  have l: "?h < CQN" "?t < CQN" using Suc.prems(1) by (auto simp: queue_ok_def)
  have ht: "?h \<noteq> ?t" using Suc.prems(2) cq.used_0 [OF l] by (auto simp: task_net_tx_queued_def)
  have ok: "queue_ok ?b" using Suc.prems(1) l cq.in_pop [OF l _ ht] by (auto simp: queue_ok_def)
  have n: "Suc (task_net_tx_queued ?b) = task_net_tx_queued b"
    using cq.used_next_tail [OF l ht] by (simp add: task_net_tx_queued_def)
  have "child_queue b = packet_bytes (tn_tx_queue b ?t) # child_queue ?b"
    using cq.list_pop [OF l ht, where q = "tn_tx_queue b"] cq.list_clear_tail [OF l ht, of "tn_tx_queue b"] by (simp add: child_queue_def)
  moreover have "a \<le> task_net_tx_queued ?b" using n Suc.prems(2) by simp
  moreover obtain q t where "release_loop a ?b = ?b\<lparr>tn_tx_queue := q, tn_tx_tail := t\<rparr>" "queue_ok (release_loop a ?b)"
    "child_queue (release_loop a ?b) = drop a (child_queue ?b)" "task_net_tx_queued (release_loop a ?b) = task_net_tx_queued ?b - a"
    using Suc.IH [OF ok] \<open>a \<le> task_net_tx_queued ?b\<close> by blast
  ultimately show ?case using n by (auto intro!: exI [of _ q] exI [of _ t])
qed

lemma release_step:
  assumes "tx_link (W_Release a) b s" "permits_ok (W_Release a) b cs" "wake_ok (W_Release a) b t" "worker_release a b = (pc', b')"
  shows "tx_link pc' b' s \<and> permits_ok pc' b' cs \<and> wake_ok pc' b' t \<and> rx_part b' = rx_part b"
proof -
  let ?b = "release_loop a b"
  have a: "a \<le> task_net_tx_queued b" "queue_ok b" using assms(1,2) by (auto simp: tx_link_defs permits_ok_def)
  obtain q' t' where b: "?b = b\<lparr>tn_tx_queue := q', tn_tx_tail := t'\<rparr>" and ok: "queue_ok ?b" "child_queue ?b = drop a (child_queue b)"
    "task_net_tx_queued ?b = task_net_tx_queued b - a" using release_ok [OF a(2,1)] by blast
  obtain d where r: "pc' = W_Free a a (tn_tx_tail ?b = tn_tx_head ?b)" "b' = ?b\<lparr>tn_adaptive_delay_ns := d\<rparr>"
    using assms(4) by (auto simp: worker_release_def Let_def)
  have same: "tx_same b' ?b" "tn_tx_free_sem b' = tn_tx_free_sem b" unfolding r(2) b by (simp_all add: tx_same_def queue_view_def rx_part_def)
  have "tx_link pc' ?b s" using assms(1) ok b r(1) by (simp add: tx_link_defs)
  then have "tx_link pc' b' s" using tx_sameD(1) [OF same(1), of pc' s] by simp
  moreover have "tn_tx_free_sem b + length cs + task_net_tx_queued b = CQN - 1" using assms(2) by (simp add: permits_ok_def owed_def)
  then have "tn_tx_free_sem b' + length cs + task_net_tx_queued b' + a = CQN - 1"
    unfolding tx_sameD(3) [OF same(1)] ok(3) same(2) using a(1) by linarith
  then have "permits_ok pc' b' cs" using assms(2) tx_sameD(2) [OF same(1)] ok(1) r(1) by (simp add: permits_ok_def owed_def)
  moreover have "tn_tx_tail ?b = tn_tx_head ?b \<longrightarrow> task_net_tx_queued ?b = 0"
    using ok(1) by (auto simp: task_net_tx_queued_def queue_ok_def)
  then have "wake_ok pc' b' t" using assms(3) tx_sameD(3) [OF same(1)] r b by (auto simp: wake_ok_def)
  moreover have "rx_part b' = rx_part b" using tx_sameD(4) [OF same(1)] by (simp add: b rx_part_def)
  ultimately show ?thesis by blast
qed

lemma free_step:
  assumes "tx_link (W_Free k a d) b s" "permits_ok (W_Free k a d) b cs" "wake_ok (W_Free k a d) b t" "worker_free k a d b = (pc', b')"
  shows "tx_link pc' b' s \<and> permits_ok pc' b' cs \<and> wake_ok pc' b' t \<and> rx_part b' = rx_part b"
proof -
  have same: "tx_same b' b" using assms(4) by (cases k; cases d) (auto simp: tx_same_def queue_view_def rx_part_def)
  have pc: "pc' = (case k of 0 \<Rightarrow> W_Sleep | Suc k \<Rightarrow> W_Free k a d)" "tn_tx_free_sem b' + owed pc' = tn_tx_free_sem b + k"
    using assms(4) by (cases k; cases d; auto simp: owed_def)+
  have "tx_link pc' b s" using assms(1) pc(1) by (auto simp: tx_link_defs split: nat.splits)
  then have "tx_link pc' b' s" using tx_sameD(1) [OF same, of pc' s] by simp
  moreover have "permits_ok pc' b' cs" using assms(2) tx_sameD(2,3) [OF same] pc(2) by (auto simp: permits_ok_def owed_def [of "W_Free k a d"])
  moreover have "wake_ok pc' b' t"
    using assms(3,4) tx_sameD(3) [OF same] by (cases k; cases d) (auto simp: wake_ok_def)
  ultimately show ?thesis using tx_sameD(4) [OF same] by blast
qed

lemma worker_step_ok:
  assumes "tx_link pc b s" "permits_ok pc b cs" "wake_ok pc b t"
    and "worker_step pc b (net_header s) (net_window s) = Some (pc', b', H, w)"
  shows "tx_link pc' b' (s\<lparr>net_header := H, net_window := w\<rparr>) \<and> permits_ok pc' b' cs \<and> wake_ok pc' b' t \<and> rx_part b' = rx_part b \<and>
    rx_lengths H = rx_lengths (net_header s) \<and> (\<forall>i \<ge> LUNA_NET_RX_OFFSET. w i = net_window s i)"
proof -
  have id: "s\<lparr>net_header := net_header s, net_window := net_window s\<rparr> = s" "s\<lparr>net_header := X, net_window := net_window s\<rparr> = s\<lparr>net_header := X\<rparr>" for X
    by simp_all
  show ?thesis
  proof (cases pc)
    case W_Sleep
    then show ?thesis using wake_step [of b s cs t pc' b'] assms id by (auto simp: worker_step_def split: if_splits prod.splits)
  next
    case (W_Coalesce g)
    then show ?thesis using coalesce_step [of g b s cs t pc' b'] assms id by (auto simp: worker_step_def split: if_splits prod.splits)
  next
    case (W_Coalesce_Sleep g)
    then show ?thesis using coalesce_wake_step [of g b s cs t pc' b'] assms id by (auto simp: worker_step_def split: if_splits prod.splits)
  next
    case W_Collect
    then have r: "worker_collect b (net_header s) (net_window s) = (pc', H, w)" "b' = b"
      using assms(4) by (auto simp: worker_step_def split: prod.splits)
    show ?thesis using collect_step [OF _ _ _ r(1), of cs t] assms(1-3) W_Collect r(2) by simp
  next
    case (W_Submit n)
    then have r: "worker_submit n b (net_header s) = (pc', b', H)" "w = net_window s"
      using assms(4) by (auto simp: worker_step_def split: prod.splits)
    show ?thesis using submit_step [OF _ _ _ r(1), of cs t] assms(1-3) W_Submit r(2) id(2) [of H] by simp
  next
    case (W_Wait n q)
    then show ?thesis using response_step [of n q b s cs t pc' b'] assms id by (auto simp: worker_step_def split: if_splits prod.splits)
  next
    case (W_Release a)
    then show ?thesis using release_step [of a b s cs t pc' b'] assms id by (auto simp: worker_step_def split: prod.splits)
  next
    case (W_Free k a d)
    then show ?thesis using free_step [of k a d b s cs t pc' b'] assms id by (auto simp: worker_step_def split: prod.splits)
  next
    case W_Exit
    then show ?thesis using assms(4) by (simp add: worker_step_def)
  qed
qed

section \<open>The receive path\<close>

text \<open>
  The packets fetched so far are those already handed to LKL, possibly cut to the size of its
  buffers, followed by those still lying in the slots of the window.
\<close>

definition rx_holding :: "u8 list list \<Rightarrow> u8 list list \<Rightarrow> task_net_backend \<Rightarrow> 'd luna_network_state \<Rightarrow> bool" where
  "rx_holding fin held b s \<longleftrightarrow> net_delivered s = fin @ held \<and> list_all2 prefix (tn_handed b) fin \<and>
     tn_rx_index b + length held = tn_rx_count b \<and> tn_rx_count b \<le> LUNA_NET_BATCH_SLOTS \<and>
     (\<forall>j < length held. rx_slot_holds s (tn_rx_index b + j) (held ! j) \<and> held ! j \<noteq> [] \<and> length (held ! j) \<le> LUNA_NET_PACKET_SIZE) \<and>
     (tn_pending_rx b \<noteq> 0 \<longrightarrow> held \<noteq> [] \<and> tn_pending_rx b = length (held ! 0))"

definition rx_link :: "reader_pc \<Rightarrow> task_net_backend \<Rightarrow> 'd luna_network_state \<Rightarrow> bool" where
  "rx_link rd b s \<longleftrightarrow> (\<exists>fin held. rx_holding fin held b s) \<and> (rd \<noteq> R_Idle \<longrightarrow> tn_rx_count b = 0)"

text \<open>What the reader leaves alone: the transmit side.\<close>

definition tx_part where
  "tx_part b = (queue_view b, tn_taken b, tn_tx_submit_sequence b, tn_tx_free_sem b, tn_tx_work_sem b, tn_tx_stop b, tn_tx_error b,
     tn_coalesce_sem b, tn_coalesce_stop b, tn_coalesce_generation b, tn_coalesce_expired_generation b)"

lemma tx_part_cong:
  assumes "tx_part b' = tx_part b"
  shows "tx_link pc b' s = tx_link pc b s" "permits_ok pc b' cs = permits_ok pc b cs" "wake_ok pc b' t = wake_ok pc b t"
proof -
  have v: "queue_view b' = queue_view b" using assms by (simp add: tx_part_def)
  show "tx_link pc b' s = tx_link pc b s" using assms by (intro tx_link_same) (simp_all add: tx_part_def)
  show "permits_ok pc b' cs = permits_ok pc b cs" using assms queue_view_cong [OF v] by (simp add: tx_part_def permits_ok_def)
  show "wake_ok pc b' t = wake_ok pc b t" using assms queue_view_cong [OF v] by (cases pc) (simp_all add: tx_part_def wake_ok_def armed_def)
qed

lemma rx_slot_cong:
  assumes "rx_lengths (net_header s') = rx_lengths (net_header s)" "\<And>i. i \<ge> LUNA_NET_RX_OFFSET \<Longrightarrow> net_window s' i = net_window s i"
  shows "rx_slot_holds s' k p = rx_slot_holds s k p"
proof -
  have "slice (net_window s') (LUNA_NET_RX_OFFSET + k * LUNA_NET_PACKET_SIZE) (length p) =
      slice (net_window s) (LUNA_NET_RX_OFFSET + k * LUNA_NET_PACKET_SIZE) (length p)"
    by (intro slice_cong assms(2)) simp
  then show ?thesis using assms(1) by (simp add: rx_slot_holds_def)
qed

lemma rx_link_cong:
  assumes "rx_link rd b s" "rx_part b' = rx_part b" "rx_lengths (net_header s') = rx_lengths (net_header s)"
    "\<And>i. i \<ge> LUNA_NET_RX_OFFSET \<Longrightarrow> net_window s' i = net_window s i" "net_delivered s' = net_delivered s"
  shows "rx_link rd b' s'"
  using assms rx_slot_cong [OF assms(3,4)] by (simp add: rx_link_def rx_holding_def rx_part_def)

lemma rx_queued_bounds: "rx_inv s \<Longrightarrow> p \<in> set (rx_queued s) \<Longrightarrow> p \<noteq> [] \<and> length p \<le> LUNA_NET_PACKET_SIZE"
proof -
  assume inv: "rx_inv s" and p: "p \<in> set (rx_queued s)"
  let ?h = "net_rx_head s" and ?t = "net_rx_tail s"
  obtain k where k: "k < ring_used RXN ?h ?t" "p = packet_bytes (net_rx_queue s ((?t + k) mod RXN))"
    using p by (auto simp: rx_queued_def ring_list_def)
  have "k < RXN" using k(1) rxq.used_less [of ?h ?t] by linarith
  then have "ring_in RXN ?h ?t ((?t + k) mod RXN)" using inv k(1) rxq.used_at [of ?t k] by (simp add: ring_in_def rx_inv_def)
  moreover have "(?t + k) mod RXN < RXN" by (rule rxq.at_less)
  ultimately have "0 < pk_length (net_rx_queue s ((?t + k) mod RXN)) \<and> pk_length (net_rx_queue s ((?t + k) mod RXN)) \<le> LUNA_NET_PACKET_SIZE"
    using inv unfolding rx_inv_def by blast
  moreover have "length p = pk_length (net_rx_queue s ((?t + k) mod RXN))" unfolding k(2) by (simp add: packet_bytes_def)
  ultimately show ?thesis by auto
qed

lemma poll_local_ok:
  assumes "rx_link R_Idle b s" "task_net_poll_local (net_header s) b = (r, b')"
  shows "rx_link (reader_after r) b' s \<and> r \<noteq> Poll_Error \<and> tx_part b' = tx_part b"
proof -
  obtain fin held where h: "rx_holding fin held b s" using assms(1) by (auto simp: rx_link_def)
  consider (hup) "tn_hup b" | (some) "\<not> tn_hup b" "tn_rx_index b < tn_rx_count b" | (none) "\<not> tn_hup b" "\<not> tn_rx_index b < tn_rx_count b" by blast
  then show ?thesis
  proof cases
    case hup
    then show ?thesis using assms by (auto simp: task_net_poll_local_def reader_after_def tx_part_def queue_view_def)
  next
    case some
    have ne: "0 < length held" using h some(2) by (auto simp: rx_holding_def)
    have slot: "rx_slot_holds s (tn_rx_index b) (held ! 0)" "held ! 0 \<noteq> []" "length (held ! 0) \<le> LUNA_NET_PACKET_SIZE"
      using h ne by (auto simp: rx_holding_def)
    then have "length (held ! 0) \<le> 2048" by (simp add: luna_consts)
    then have len: "unat (rx_lengths (net_header s) (tn_rx_index b)) = length (held ! 0)"
      using slot(1) unat_u64 [of "length (held ! 0)"] by (simp add: rx_slot_holds_def)
    have r: "r = Poll_Rx" "b' = b\<lparr>tn_pending_rx := length (held ! 0)\<rparr>"
      using assms(2) some slot(2,3) len by (auto simp: task_net_poll_local_def Let_def)
    have "rx_holding fin held b' s" using h ne unfolding r(2) rx_holding_def by auto
    then show ?thesis using r by (auto simp: rx_link_def reader_after_def tx_part_def queue_view_def)
  next
    case none
    then have r: "r \<in> {Poll_Sleep, Poll_Fetch}" "b' = b\<lparr>tn_rx_count := 0, tn_rx_index := 0\<rparr>"
      using assms(2) by (auto simp: task_net_poll_local_def split: if_splits)
    have "held = []" using h none(2) by (cases held) (auto simp: rx_holding_def)
    then have "rx_holding fin [] b' s" using h unfolding r(2) rx_holding_def by auto
    then show ?thesis using r by (auto simp: rx_link_def tx_part_def queue_view_def)
  qed
qed

lemma rx_scatter_prefix: "rx_scatter iov w k n = Some ps \<Longrightarrow> prefix (concat ps) (slice w k n)"
proof (induction iov arbitrary: k n ps)
  case (Cons v iov)
  show ?case
  proof (cases "n = 0")
    case True
    then show ?thesis using Cons.prems by simp
  next
    case False
    then obtain len qs where q: "v = Some len" "rx_scatter iov w (k + min len n) (n - min len n) = Some qs"
      "ps = slice w k (min len n) # qs" using Cons.prems by (cases v) (auto simp: Let_def min_def split: if_splits)
    have "slice w k n = slice w k (min len n) @ slice w (k + min len n) (n - min len n)"
      using slice_append [of w k "min len n" "n - min len n"] by simp
    then show ?thesis using Cons.IH [OF q(2)] q(3) by simp
  qed
qed simp

text \<open>With room for it, the whole packet arrives.\<close>

lemma rx_scatter_full:
  assumes "rx_scatter iov w k n = Some ps" "n \<le> sum_list (map the iov)"
  shows "concat ps = slice w k n"
  using assms
proof (induction iov arbitrary: k n ps)
  case (Cons v iov)
  show ?case
  proof (cases "n = 0")
    case True
    then show ?thesis using Cons.prems by simp
  next
    case False
    then obtain len qs where q: "v = Some len" "rx_scatter iov w (k + min len n) (n - min len n) = Some qs"
      "ps = slice w k (min len n) # qs" using Cons.prems by (cases v) (auto simp: Let_def min_def split: if_splits)
    have "n - min len n \<le> sum_list (map the iov)" using Cons.prems(2) q(1) by simp
    from Cons.IH [OF q(2) this] show ?thesis
      using slice_append [of w k "min len n" "n - min len n"] q(3) by simp
  qed
qed simp

lemma task_net_rx_ok:
  assumes "rx_holding fin held b s" "task_net_rx iov (net_window s) b = (r, b')"
  shows "(r = None \<and> b' = b) \<or> (\<exists>ps. r = Some ps \<and> held \<noteq> [] \<and> prefix (concat ps) (held ! 0) \<and> tn_handed b' = tn_handed b @ [concat ps] \<and>
    rx_holding (fin @ [held ! 0]) (tl held) b' s \<and> (tn_pending_rx b \<le> sum_list (map the iov) \<longrightarrow> concat ps = held ! 0))"
proof (cases "r")
  case None
  then show ?thesis using assms(2) by (auto simp: task_net_rx_def split: if_splits option.splits)
next
  case (Some ps)
  let ?k = "LUNA_NET_RX_OFFSET + tn_rx_index b * LUNA_NET_PACKET_SIZE"
  have p: "tn_pending_rx b \<noteq> 0" and sc: "rx_scatter iov (net_window s) ?k (tn_pending_rx b) = Some ps"
    and b': "b' = b\<lparr>tn_pending_rx := 0, tn_rx_index := tn_rx_index b + 1, tn_rx_packets := tn_rx_packets b + 1,
       tn_handed := tn_handed b @ [concat ps]\<rparr>"
    using assms(2) Some by (auto simp: task_net_rx_def split: if_splits option.splits)
  have ne: "held \<noteq> []" and len: "tn_pending_rx b = length (held ! 0)" using assms(1) p by (auto simp: rx_holding_def)
  have slot0: "rx_slot_holds s (tn_rx_index b + 0) (held ! 0)" using assms(1) ne unfolding rx_holding_def by blast
  then have whole: "slice (net_window s) ?k (tn_pending_rx b) = held ! 0" using len by (simp add: rx_slot_holds_def)
  have pre: "prefix (concat ps) (held ! 0)" using rx_scatter_prefix [OF sc] whole by simp
  obtain x xs where held: "held = x # xs" using ne by (cases held) auto
  have slots: "\<forall>j < length xs. rx_slot_holds s (tn_rx_index b + 1 + j) (xs ! j) \<and> xs ! j \<noteq> [] \<and> length (xs ! j) \<le> LUNA_NET_PACKET_SIZE"
  proof (intro allI impI)
    fix j assume "j < length xs"
    then have "Suc j < length held" using held by simp
    then have "rx_slot_holds s (tn_rx_index b + Suc j) (held ! Suc j) \<and> held ! Suc j \<noteq> [] \<and> length (held ! Suc j) \<le> LUNA_NET_PACKET_SIZE"
      using assms(1) unfolding rx_holding_def by blast
    then show "rx_slot_holds s (tn_rx_index b + 1 + j) (xs ! j) \<and> xs ! j \<noteq> [] \<and> length (xs ! j) \<le> LUNA_NET_PACKET_SIZE"
      using held by simp
  qed
  have "rx_holding (fin @ [held ! 0]) (tl held) b' s"
    using assms(1) slots pre unfolding rx_holding_def b' held by (simp add: list_all2_appendI)
  then show ?thesis using Some ne pre rx_scatter_full [OF sc] whole b' by auto
qed

text \<open>A fetch writes above \<open>LUNA_NET_RX_OFFSET\<close> and into the receive fields of the header only.\<close>

definition tx_header where
  "tx_header H = (tx_count H, tx_request_sequence H, tx_response_sequence H, tx_accepted H, tx_lengths H)"

lemma rx_fetch_window:
  "rx_fetch k h t n s = (r, s') \<Longrightarrow> tx_header (net_header s') = tx_header (net_header s) \<and> net_child_active s' = net_child_active s \<and>
    (\<forall>i < LUNA_NET_RX_OFFSET. net_window s' i = net_window s i)"
proof (induction k h t n s rule: rx_fetch.induct)
  case (2 k head tail n s)
  let ?p = "net_rx_queue s tail"
  show ?case
  proof (cases "tail = head \<or> pk_length ?p = 0 \<or> pk_length ?p > LUNA_NET_PACKET_SIZE")
    case True
    then show ?thesis using "2.prems" by (auto simp: Let_def split: if_splits)
  next
    case False
    let ?s = "s\<lparr>net_window := memcpy_at (net_window s) (LUNA_NET_RX_OFFSET + n * LUNA_NET_PACKET_SIZE) (pk_data ?p) 0 (pk_length ?p),
       net_header := (net_header s)\<lparr>rx_lengths := (rx_lengths (net_header s))(n := of_nat (pk_length ?p))\<rparr>,
       net_rx_queue := (net_rx_queue s)(tail := ?p\<lparr>pk_length := 0\<rparr>),
       net_delivered := net_delivered s @ [packet_bytes ?p]\<rparr>"
    have run: "rx_fetch k head (ring_next RXN tail) (Suc n) ?s = (r, s')" using "2.prems" False by (simp add: Let_def)
    have "tx_header (net_header s') = tx_header (net_header ?s) \<and> net_child_active s' = net_child_active ?s \<and>
        (\<forall>i < LUNA_NET_RX_OFFSET. net_window s' i = net_window ?s i)"
      by (rule "2.IH" [OF _ refl refl _ run]) (use False in auto)
    moreover have "net_window ?s i = net_window s i" if "i < LUNA_NET_RX_OFFSET" for i
      using that by (simp add: memcpy_at_outside)
    ultimately show ?thesis by (simp add: tx_header_def)
  qed
qed simp

lemma service_rx_batch_window:
  "tx_header (net_header (snd (service_rx_batch r s))) = tx_header (net_header s)"
  "net_child_active (snd (service_rx_batch r s)) = net_child_active s"
  "i < LUNA_NET_RX_OFFSET \<Longrightarrow> net_window (snd (service_rx_batch r s)) i = net_window s i"
proof -
  let ?s = "count (nc_rx_endpoint_requests_update plus_one) s"
  have c: "net_header ?s = net_header s" "net_window ?s = net_window s" "net_child_active ?s = net_child_active s" by (simp_all add: count_def)
  obtain ok t n s1 where f: "rx_fetch (unat r) (net_rx_head ?s) (net_rx_tail ?s) 0 ?s = ((ok, t, n), s1)" by (metis prod.collapse)
  note w = rx_fetch_window [OF f, unfolded c]
  have "tx_header (net_header (snd (service_rx_batch r s))) = tx_header (net_header s) \<and>
      net_child_active (snd (service_rx_batch r s)) = net_child_active s \<and>
      (\<forall>i < LUNA_NET_RX_OFFSET. net_window (snd (service_rx_batch r s)) i = net_window s i)"
    using w c f unfolding service_rx_batch_def Let_def by (auto simp: tx_header_def count_def split: prod.splits)
  then show "tx_header (net_header (snd (service_rx_batch r s))) = tx_header (net_header s)"
    "net_child_active (snd (service_rx_batch r s)) = net_child_active s"
    "i < LUNA_NET_RX_OFFSET \<Longrightarrow> net_window (snd (service_rx_batch r s)) i = net_window s i" by blast+
qed

lemma fetch_link:
  assumes "tx_link pc b s"
  shows "tx_link pc b (snd (service_rx_batch r s))"
proof (rule unanswered_link [OF assms])
  let ?s = "snd (service_rx_batch r s)"
  have inv: "net_inv s" "net_child_active s" using assms by (simp_all add: tx_link_def)
  show "net_inv ?s" using inv service_rx_batch_inv by blast
  show "net_child_active ?s" using inv service_rx_batch_window(2) by blast
  have h: "tx_header (net_header ?s) = tx_header (net_header s)" by (rule service_rx_batch_window(1))
  have "tx_view ?s = tx_view s" using service_rx_batch_ok [OF _ _ refl, of s r] inv by (simp add: net_inv_def)
  then show "unanswered s ?s" using h by (simp add: unanswered_def tx_header_def tx_view_def)
  show "tx_request_sequence (net_header ?s) = tx_request_sequence (net_header s)" using h by (simp add: tx_header_def)
  show "offered n batch ?s" if "offered n batch s" for n batch
    using offered_window [OF that, of ?s] h service_rx_batch_window(3) by (auto simp: tx_header_def)
qed

text \<open>What a fetch returns to the child and what it leaves in the window.\<close>

lemma poll_fetch_result:
  assumes "task_net_poll_fetch (net_transport id) c s b = (r, c', s', b')" "net_inv s"
  shows "s' = s \<and> tn_rx_count b' = tn_rx_count b \<and> tn_rx_index b' = tn_rx_index b \<or>
    (\<exists>n. n = min LUNA_NET_BATCH_SLOTS (length (rx_queued s)) \<and> s' = snd (service_rx_batch (of_nat LUNA_NET_BATCH_SLOTS) s) \<and> r = None \<and>
      (n = 0 \<and> tn_rx_count b' = tn_rx_count b \<and> tn_rx_index b' = tn_rx_index b \<or>
       n \<noteq> 0 \<and> tn_rx_count b' = n \<and> tn_rx_index b' = 0))"
proof (cases "ipc_ready c \<and> net_ready s")
  case False
  let ?ev = "event_word LUNA_ISOLATION_EVENT_NET_RX_BATCH"
  have "luna_lkl_task_manager_request_value (net_transport id) LUNA_ISOLATION_EVENT_NET_RX_BATCH (of_nat LUNA_NET_BATCH_SLOTS) 0 c s =
      ((-1, None), c, s) \<or>
      luna_lkl_task_manager_request_value (net_transport id) LUNA_ISOLATION_EVENT_NET_RX_BATCH (of_nat LUNA_NET_BATCH_SLOTS) 0 c s =
      ((-1, Some 0), ipc_counted c, s)"
  proof (cases "ipc_ready c")
    case True
    then have "luna_network_service id ?ev (of_nat LUNA_NET_BATCH_SLOTS) s =
        Some (Message 0 0 [command_word LUNA_COMMAND_NET_RESULT, word_of_cint (-1), 0], -1, s)"
      using False by (simp add: luna_network_service_def LUNA_NET_TX_RETRY_def)
    then show ?thesis
      by (intro disjI2 manager_request_value_reply [OF True]) (simp_all add: net_transport_def expected_reply_def)
  qed (auto simp: luna_lkl_task_manager_request_value_def ipc_ready_def)
  then show ?thesis using assms(1) by (auto simp: task_net_poll_fetch_def Let_def)
next
  case True
  define n where "n = min LUNA_NET_BATCH_SLOTS (length (rx_queued s))"
  let ?r = "of_nat LUNA_NET_BATCH_SLOTS :: u64"
  have sixteen: "?r = 16" "LUNA_NET_BATCH_SLOTS = 16" by (simp_all add: luna_consts)
  have u: "unat ?r = LUNA_NET_BATCH_SLOTS" "?r \<noteq> 0" unfolding sixteen(1) by (simp_all add: luna_consts)
  define s1 where "s1 = snd (service_rx_batch ?r s)"
  have batch: "service_rx_batch ?r s = ((0, of_nat n), s1)"
    using service_rx_batch_ok [OF _ _ refl, of s ?r] assms(2) u unfolding s1_def n_def by (simp add: net_inv_def prod_eq_iff)
  have "luna_network_service id (event_word LUNA_ISOLATION_EVENT_NET_RX_BATCH) ?r s =
      Some (Message 0 0 [command_word LUNA_COMMAND_NET_RESULT, word_of_cint 0, of_nat n], 0, s1)"
    using True batch by (simp add: luna_network_service_def net_dispatch_def Let_def LUNA_NET_TX_RETRY_def)
  then have req: "luna_lkl_task_manager_request_value (net_transport id) LUNA_ISOLATION_EVENT_NET_RX_BATCH ?r 0 c s =
      ((0, Some (of_nat n)), ipc_counted c, s1)"
    using True by (intro manager_request_value_reply) (simp_all add: net_transport_def expected_reply_def)
  have n: "unat (of_nat n :: u64) = n" by (rule unat_u64) (simp add: sixteen n_def)
  have le: "\<not> (of_nat n :: u64) > ?r" using n u(1) n_def by (simp add: word_less_nat_alt)
  have z: "(of_nat n :: u64) = 0 \<longleftrightarrow> n = 0" using n unat_eq_0 [of "of_nat n :: u64"] by simp
  have "s' = s1 \<and> r = None \<and> (n = 0 \<and> tn_rx_count b' = tn_rx_count b \<and> tn_rx_index b' = tn_rx_index b \<or>
      n \<noteq> 0 \<and> tn_rx_count b' = n \<and> tn_rx_index b' = 0)"
    using assms(1) req le z n by (cases "n = 0") (auto simp: task_net_poll_fetch_def)
  then show ?thesis using n_def s1_def by blast
qed

lemma fetch_rx_link:
  assumes "rx_link R_Fetch b s" "net_inv s" "task_net_poll_fetch (net_transport id) c s b = (r, c', s', b')"
  shows "rx_link R_Idle b' s'"
proof -
  obtain fin held where h: "rx_holding fin held b s" and z: "tn_rx_count b = 0" using assms(1) by (auto simp: rx_link_def)
  have keep: "tn_handed b' = tn_handed b" "tn_pending_rx b' = tn_pending_rx b"
    using assms(3) by (auto simp: task_net_poll_fetch_def Let_def split: prod.splits if_splits option.splits)
  have held: "held = []" "tn_rx_index b = 0" "tn_pending_rx b = 0" "net_delivered s = fin" "list_all2 prefix (tn_handed b) fin"
    using h z by (auto simp: rx_holding_def)
  let ?n = "min LUNA_NET_BATCH_SLOTS (length (rx_queued s))" let ?r = "of_nat LUNA_NET_BATCH_SLOTS :: u64"
  from poll_fetch_result [OF assms(3,2)] show ?thesis
  proof (elim disjE exE conjE)
    assume "s' = s" "tn_rx_count b' = tn_rx_count b" "tn_rx_index b' = tn_rx_index b"
    then have "rx_holding fin held b' s'" using h keep by (simp add: rx_holding_def)
    then show ?thesis by (auto simp: rx_link_def)
  next
    fix n assume a: "n = ?n" "s' = snd (service_rx_batch ?r s)" "r = None" "n = 0" "tn_rx_count b' = tn_rx_count b" "tn_rx_index b' = tn_rx_index b"
    have "unat ?r = LUNA_NET_BATCH_SLOTS" "?r \<noteq> 0" by (simp_all add: luna_consts)
    then have "net_delivered s' = net_delivered s @ take ?n (rx_queued s)"
      using service_rx_batch_ok [OF _ _ refl, of s ?r] assms(2) a(2) by (simp add: net_inv_def)
    then have "rx_holding fin [] b' s'" using h held keep a z by (simp add: rx_holding_def)
    then show ?thesis by (auto simp: rx_link_def)
  next
    fix n assume a: "n = ?n" "s' = snd (service_rx_batch ?r s)" "r = None" "n \<noteq> 0" "tn_rx_count b' = n" "tn_rx_index b' = 0"
    have "unat ?r = LUNA_NET_BATCH_SLOTS" "?r \<noteq> 0" by (simp_all add: luna_consts)
    then have d: "net_delivered s' = net_delivered s @ take n (rx_queued s)" "\<forall>k < n. rx_slot_holds s' k (rx_queued s ! k)"
      using service_rx_batch_ok [OF _ _ refl, of s ?r] assms(2) a(1,2) by (simp_all add: net_inv_def)
    have len: "length (take n (rx_queued s)) = n" using a(1) by simp
    have "take n (rx_queued s) ! k \<noteq> [] \<and> length (take n (rx_queued s) ! k) \<le> LUNA_NET_PACKET_SIZE" if "k < n" for k
      using rx_queued_bounds [of s "rx_queued s ! k"] that len assms(2) a(1) by (simp add: net_inv_def)
    then have "rx_holding fin (take n (rx_queued s)) b' s'"
      using held d keep a(1,5,6) len unfolding rx_holding_def by simp
    then show ?thesis by (auto simp: rx_link_def)
  qed
qed

section \<open>The invariant of the system\<close>

definition link_inv :: "'d net_link \<Rightarrow> bool" where
  "link_inv L \<longleftrightarrow> tx_link (ln_worker L) (ln_child L) (ln_manager L) \<and> permits_ok (ln_worker L) (ln_child L) (ln_callers L) \<and>
     wake_ok (ln_worker L) (ln_child L) (ln_timer L) \<and> rx_link (ln_reader L) (ln_child L) (ln_manager L)"

lemma link_invI:
  assumes "tx_link pc b s" "permits_ok pc b cs" "wake_ok pc b t" "rx_link rd b s"
    "ln_worker L = pc" "ln_child L = b" "ln_manager L = s" "ln_callers L = cs" "ln_timer L = t" "ln_reader L = rd"
  shows "link_inv L"
  using assms by (simp add: link_inv_def)

lemma call_inv:
  assumes "link_inv L" "task_net_tx_check iov (ln_child L) = Some n" "b = task_net_tx_enter (ln_child L)" "0 < tn_tx_free_sem b"
  shows "link_inv (L\<lparr>ln_child := b\<lparr>tn_tx_free_sem := tn_tx_free_sem b - 1\<rparr>, ln_callers := (iov, n) # ln_callers L\<rparr>)"
proof -
  let ?b = "b\<lparr>tn_tx_free_sem := tn_tx_free_sem b - 1\<rparr>"
  have same: "tx_same ?b (ln_child L)" and f: "tn_tx_free_sem b = tn_tx_free_sem (ln_child L)"
    and w: "wake_ok pc ?b t = wake_ok pc (ln_child L) t" for pc t
    using assms(3) by (auto simp: task_net_tx_enter_def tx_same_def queue_view_def rx_part_def wake_ok_def armed_def split: worker_pc.splits)
  have n: "iov_total 0 iov = Some n" "n \<noteq> 0" using assms(2) by (auto simp: task_net_tx_check_def split: if_splits option.splits)
  show ?thesis
  proof (rule link_invI)
    show "tx_link (ln_worker L) ?b (ln_manager L)" using tx_sameD(1) [OF same, of "ln_worker L" "ln_manager L"] assms(1) by (simp add: link_inv_def)
    show "permits_ok (ln_worker L) ?b ((iov, n) # ln_callers L)"
      using assms(1,4) tx_sameD(2,3) [OF same] n f by (simp add: link_inv_def permits_ok_def)
    show "wake_ok (ln_worker L) ?b (ln_timer L)" using w assms(1) by (simp add: link_inv_def)
    show "rx_link (ln_reader L) ?b (ln_manager L)"
      by (rule rx_link_cong [where b = "ln_child L" and s = "ln_manager L"]) (use assms(1) tx_sameD(4) [OF same] in \<open>simp_all add: link_inv_def\<close>)
  qed simp_all
qed

lemma insert_inv:
  assumes "link_inv L" "ln_callers L = cs @ (iov, n) # cs'"
  shows "link_inv (L\<lparr>ln_child := snd (task_net_tx_insert iov n (ln_child L)), ln_callers := cs @ cs'\<rparr>) \<and>
    (\<not> tn_tx_error (ln_child L) \<and> \<not> tn_tx_stop (ln_child L) \<longrightarrow> fst (task_net_tx_insert iov n (ln_child L)) = int n \<and>
       tn_taken (snd (task_net_tx_insert iov n (ln_child L))) = tn_taken (ln_child L) @ [concat (map the iov)])"
proof (cases "tn_tx_error (ln_child L) \<or> tn_tx_stop (ln_child L)")
  case True
  let ?b = "(ln_child L)\<lparr>tn_tx_free_sem := tn_tx_free_sem (ln_child L) + 1\<rparr>"
  have same: "tx_same ?b (ln_child L)" and w: "wake_ok pc ?b t = wake_ok pc (ln_child L) t" for pc t
    by (auto simp: tx_same_def queue_view_def rx_part_def wake_ok_def armed_def split: worker_pc.splits)
  have "link_inv (L\<lparr>ln_child := ?b, ln_callers := cs @ cs'\<rparr>)"
  proof (rule link_invI)
    show "tx_link (ln_worker L) ?b (ln_manager L)" using tx_sameD(1) [OF same, of "ln_worker L" "ln_manager L"] assms(1) by (simp add: link_inv_def)
    show "permits_ok (ln_worker L) ?b (cs @ cs')"
      using assms tx_sameD(2,3) [OF same] by (simp add: link_inv_def permits_ok_def)
    show "wake_ok (ln_worker L) ?b (ln_timer L)" using w assms(1) by (simp add: link_inv_def)
    show "rx_link (ln_reader L) ?b (ln_manager L)"
      by (rule rx_link_cong [where b = "ln_child L" and s = "ln_manager L"]) (use assms(1) tx_sameD(4) [OF same] in \<open>simp_all add: link_inv_def\<close>)
  qed simp_all
  then show ?thesis using True insert_refused [OF True, of iov n] by auto
next
  case False
  let ?b = "ln_child L" let ?b' = "snd (task_net_tx_insert iov n ?b)"
  have p: "queue_ok ?b" "iov_total 0 iov = Some n" "n \<noteq> 0" and
    c: "tn_tx_free_sem ?b + Suc (length cs + length cs') + task_net_tx_queued ?b + owed (ln_worker L) = CQN - 1"
    using assms by (auto simp: link_inv_def permits_ok_def)
  have room: "task_net_tx_queued ?b < CQN - 1" using c by linarith
  note i = insert_ok [OF p(1) room p(2,3)] 
  have ne: "ring_next CQN (tn_tx_head ?b) \<noteq> tn_tx_tail ?b"
    using room p(1) cq.full_iff [of "tn_tx_head ?b" "tn_tx_tail ?b"] by (auto simp: queue_ok_def task_net_tx_queued_def)
  have f: "tn_tx_free_sem ?b' = tn_tx_free_sem ?b" "tn_tx_submit_sequence ?b' = tn_tx_submit_sequence ?b" "0 < tn_tx_work_sem ?b'"
    "rx_part ?b' = rx_part ?b" "tn_coalesce_stop ?b' = tn_coalesce_stop ?b" "tn_tx_error ?b' = tn_tx_error ?b" "tn_tx_stop ?b' = tn_tx_stop ?b"
    "armed g ?b' t = armed g ?b t" for g t
    using False ne by (simp_all add: task_net_tx_insert_def Let_def rx_part_def armed_def)
  have "link_inv (L\<lparr>ln_child := ?b', ln_callers := cs @ cs'\<rparr>)"
  proof (rule link_invI)
    show "tx_link (ln_worker L) ?b' (ln_manager L)"
      by (rule tx_link_grow [where b = ?b]) (use assms(1) i(3,4) f(2) False in \<open>auto simp: link_inv_def\<close>)
    have "tn_tx_free_sem ?b' + length (cs @ cs') + task_net_tx_queued ?b' + owed (ln_worker L) = CQN - 1"
      using c i(5) False f(1) by simp
    then show "permits_ok (ln_worker L) ?b' (cs @ cs')"
      using assms i(2) False by (auto simp: link_inv_def permits_ok_def)
    show "wake_ok (ln_worker L) ?b' (ln_timer L)"
      using assms(1) f(3,5-8) by (auto simp: link_inv_def wake_ok_def split: worker_pc.splits)
    show "rx_link (ln_reader L) ?b' (ln_manager L)"
      by (rule rx_link_cong [where b = ?b and s = "ln_manager L"]) (use assms(1) f(4) in \<open>simp_all add: link_inv_def\<close>)
  qed simp_all
  then show ?thesis using i(1,4) False by blast
qed

lemma child_inv:
  assumes "link_inv L" "tx_same b (ln_child L)" "tn_tx_free_sem b = tn_tx_free_sem (ln_child L)" "wake_ok (ln_worker L) b t"
  shows "link_inv (L\<lparr>ln_child := b, ln_timer := t\<rparr>)"
proof (rule link_invI)
  show "tx_link (ln_worker L) b (ln_manager L)" using tx_sameD(1) [OF assms(2), of "ln_worker L" "ln_manager L"] assms(1) by (simp add: link_inv_def)
  show "permits_ok (ln_worker L) b (ln_callers L)" using assms(1,3) tx_sameD(2,3) [OF assms(2)] by (simp add: link_inv_def permits_ok_def)
  show "wake_ok (ln_worker L) b t" by (rule assms(4))
  show "rx_link (ln_reader L) b (ln_manager L)"
    by (rule rx_link_cong [where b = "ln_child L" and s = "ln_manager L"]) (use assms(1) tx_sameD(4) [OF assms(2)] in \<open>simp_all add: link_inv_def\<close>)
qed simp_all

lemma timer_inv:
  assumes "link_inv L" "ln_timer L = T_Wait" "b = ln_child L" "0 < tn_coalesce_sem b"
  shows "link_inv (L\<lparr>ln_child := b\<lparr>tn_coalesce_sem := tn_coalesce_sem b - 1\<rparr>,
      ln_timer := (case coalesce_take b of None \<Rightarrow> T_Exit | Some (g, d) \<Rightarrow> T_Sleep g)\<rparr>)"
proof (rule child_inv [OF assms(1)])
  show "wake_ok (ln_worker L) (b\<lparr>tn_coalesce_sem := tn_coalesce_sem b - 1\<rparr>)
      (case coalesce_take b of None \<Rightarrow> T_Exit | Some (g, d) \<Rightarrow> T_Sleep g)"
    using assms by (auto simp: link_inv_def wake_ok_def armed_def coalesce_take_def split: worker_pc.splits)
qed (simp_all add: assms(3) tx_same_def queue_view_def rx_part_def)

lemma expire_inv:
  assumes "link_inv L" "ln_timer L = T_Sleep g"
  shows "link_inv (L\<lparr>ln_child := coalesce_expire g (ln_child L), ln_timer := T_Wait\<rparr>)"
proof (rule child_inv [OF assms(1)])
  show "wake_ok (ln_worker L) (coalesce_expire g (ln_child L)) T_Wait"
    using assms by (auto simp: link_inv_def wake_ok_def armed_def coalesce_expire_def split: worker_pc.splits)
qed (simp_all add: coalesce_expire_def tx_same_def queue_view_def rx_part_def)

lemma timer_fail_inv:
  assumes "link_inv L" "ln_timer L = T_Sleep g"
  shows "link_inv (L\<lparr>ln_child := coalesce_fail (ln_child L), ln_timer := T_Exit\<rparr>)"
proof (rule child_inv [OF assms(1)])
  show "wake_ok (ln_worker L) (coalesce_fail (ln_child L)) T_Exit"
    using assms by (auto simp: link_inv_def wake_ok_def armed_def coalesce_fail_def split: worker_pc.splits)
qed (simp_all add: coalesce_fail_def tx_same_def queue_view_def rx_part_def)

lemma wake_ok_mono:
  assumes "wake_ok pc b t" "queue_view b' = queue_view b" "tn_coalesce_generation b' = tn_coalesce_generation b"
    "tn_coalesce_expired_generation b' = tn_coalesce_expired_generation b" "tn_tx_error b' = tn_tx_error b"
    "0 < tn_coalesce_sem b \<Longrightarrow> 0 < tn_coalesce_sem b'" "0 < tn_tx_work_sem b \<Longrightarrow> 0 < tn_tx_work_sem b'"
    "tn_coalesce_stop b \<Longrightarrow> tn_coalesce_stop b'" "tn_tx_stop b \<Longrightarrow> tn_tx_stop b'"
  shows "wake_ok pc b' t"
  using assms queue_view_cong [OF assms(2)] by (cases pc) (auto simp: wake_ok_def armed_def)

lemma finish_inv:
  assumes "link_inv L" "net_finish_drain (ln_child L) = Some (r, b)"
  shows "link_inv (L\<lparr>ln_child := b\<rparr>)"
proof -
  have "tx_same b (ln_child L) \<and> tn_tx_free_sem b = tn_tx_free_sem (ln_child L)"
    using assms(2) by (auto simp: net_finish_drain_def Let_def tx_same_def queue_view_def rx_part_def split: if_splits)
  moreover have "wake_ok (ln_worker L) b (ln_timer L)"
  proof (rule wake_ok_mono)
    show "wake_ok (ln_worker L) (ln_child L) (ln_timer L)" using assms(1) by (simp add: link_inv_def)
  qed (use assms(2) in \<open>auto simp: net_finish_drain_def Let_def queue_view_def split: if_splits\<close>)
  ultimately have "link_inv (L\<lparr>ln_child := b, ln_timer := ln_timer L\<rparr>)" using child_inv [OF assms(1)] by blast
  then show ?thesis by simp
qed

text \<open>Steps of the manager and of the reader, as far as the transmit side is concerned.\<close>

lemma manager_inv:
  assumes "link_inv L" "tx_link (ln_worker L) (ln_child L) s" "link_fixed s = link_fixed (ln_manager L)"
  shows "link_inv (L\<lparr>ln_manager := s\<rparr>)"
proof (rule link_invI)
  show "tx_link (ln_worker L) (ln_child L) s" by (rule assms(2))
  show "permits_ok (ln_worker L) (ln_child L) (ln_callers L)" "wake_ok (ln_worker L) (ln_child L) (ln_timer L)"
    using assms(1) by (simp_all add: link_inv_def)
  show "rx_link (ln_reader L) (ln_child L) s"
    by (rule rx_link_cong [where b = "ln_child L" and s = "ln_manager L"]) (use assms(1,3) in \<open>simp_all add: link_inv_def link_fixed_def\<close>)
qed simp_all

lemma quiet_manager_inv:
  assumes "link_inv L" "net_inv s" "net_child_active s" "unanswered (ln_manager L) s" "link_fixed s = link_fixed (ln_manager L)"
  shows "link_inv (L\<lparr>ln_manager := s\<rparr>)"
proof (rule manager_inv [OF assms(1) _ assms(5)])
  have "tx_request_sequence (net_header s) = tx_request_sequence (net_header (ln_manager L))" using assms(5) by (simp add: link_fixed_def)
  then show "tx_link (ln_worker L) (ln_child L) s"
    using unanswered_link [of "ln_worker L" "ln_child L" "ln_manager L" s] assms offered_cong [OF assms(5)] by (auto simp: link_inv_def)
qed

lemma reader_inv:
  assumes "link_inv L" "tx_part b = tx_part (ln_child L)" "tx_link (ln_worker L) (ln_child L) s" "rx_link rd b s"
  shows "link_inv (L\<lparr>ln_child := b, ln_reader := rd, ln_manager := s\<rparr>)"
proof (rule link_invI)
  show "tx_link (ln_worker L) b s" using tx_part_cong(1) [OF assms(2)] assms(3) by blast
  show "permits_ok (ln_worker L) b (ln_callers L)" "wake_ok (ln_worker L) b (ln_timer L)"
    using tx_part_cong(2,3) [OF assms(2)] assms(1) by (simp_all add: link_inv_def)
  show "rx_link rd b s" by (rule assms(4))
qed simp_all

lemma poll_inv:
  assumes "link_inv L" "ln_reader L = R_Idle" "task_net_poll_local (net_header (ln_manager L)) (ln_child L) = (r, b)"
  shows "link_inv (L\<lparr>ln_child := b, ln_reader := reader_after r,
      ln_manager := (ln_manager L)\<lparr>net_header := poll_announce r (net_header (ln_manager L))\<rparr>\<rparr>)"
proof -
  let ?s = "(ln_manager L)\<lparr>net_header := poll_announce r (net_header (ln_manager L))\<rparr>"
  have p: "rx_link (reader_after r) b (ln_manager L)" "tx_part b = tx_part (ln_child L)"
    using poll_local_ok [OF _ assms(3)] assms(1,2) by (simp_all add: link_inv_def)
  have h: "link_fixed ?s = link_fixed (ln_manager L)" "unanswered (ln_manager L) ?s"
    by (simp_all add: link_fixed_def unanswered_def poll_announce_def)
  have t: "tx_link (ln_worker L) (ln_child L) (ln_manager L)" using assms(1) by (simp add: link_inv_def)
  have i: "net_inv ?s" "net_child_active ?s" "tx_request_sequence (net_header ?s) = tx_request_sequence (net_header (ln_manager L))"
    using t h(1) by (simp_all add: tx_link_def link_fixed_def)
  show ?thesis
  proof (rule reader_inv [OF assms(1) p(2)])
    show "tx_link (ln_worker L) (ln_child L) ?s"
      using unanswered_link [OF t i(1,2) h(2) i(3)] offered_cong [OF h(1)] by blast
    show "rx_link (reader_after r) b ?s"
      by (rule rx_link_cong [OF p(1)]) (use h(1) in \<open>simp_all add: link_fixed_def\<close>)
  qed
qed

lemma poll_fetch_tx: "task_net_poll_fetch transport c s b = (r, c', s', b') \<Longrightarrow> tx_part b' = tx_part b"
  by (auto simp: task_net_poll_fetch_def Let_def tx_part_def queue_view_def split: prod.splits option.splits if_splits)

lemma fetch_inv:
  assumes "link_inv L" "ln_reader L = R_Fetch"
    "task_net_poll_fetch (net_transport id) (ln_ipc L) (ln_manager L) (ln_child L) = (r, c, s, b)"
  shows "link_inv (L\<lparr>ln_child := b, ln_reader := R_Idle, ln_ipc := c, ln_manager := s\<rparr>)"
proof -
  have t: "tx_link (ln_worker L) (ln_child L) (ln_manager L)" and rx: "rx_link R_Fetch (ln_child L) (ln_manager L)"
    using assms(1,2) by (simp_all add: link_inv_def)
  have inv: "net_inv (ln_manager L)" using t by (simp add: tx_link_def)
  have "s = ln_manager L \<or> s = snd (service_rx_batch (of_nat LUNA_NET_BATCH_SLOTS) (ln_manager L))"
    using poll_fetch_result [OF assms(3) inv] by blast
  then have "tx_link (ln_worker L) (ln_child L) s" using t fetch_link by auto
  from reader_inv [OF assms(1) poll_fetch_tx [OF assms(3)] this fetch_rx_link [OF rx inv assms(3)]]
  show ?thesis by (simp add: link_inv_def)
qed

lemma rx_inv_step:
  assumes "link_inv L" "ln_reader L = R_Idle"
  shows "link_inv (L\<lparr>ln_child := snd (task_net_rx iov (net_window (ln_manager L)) (ln_child L))\<rparr>)"
proof -
  obtain r b where run: "task_net_rx iov (net_window (ln_manager L)) (ln_child L) = (r, b)" by fastforce
  have t: "tx_part b = tx_part (ln_child L)"
    using run by (auto simp: task_net_rx_def tx_part_def queue_view_def split: option.splits if_splits)
  obtain fin held where "rx_holding fin held (ln_child L) (ln_manager L)" using assms(1) by (auto simp: link_inv_def rx_link_def)
  from task_net_rx_ok [OF this run] assms(1) have "rx_link R_Idle b (ln_manager L)"
    by (auto simp: link_inv_def rx_link_def)
  moreover have "tx_link (ln_worker L) (ln_child L) (ln_manager L)" using assms(1) by (simp add: link_inv_def)
  ultimately have "link_inv (L\<lparr>ln_child := b, ln_reader := R_Idle, ln_manager := ln_manager L\<rparr>)"
    by (intro reader_inv [OF assms(1) t])
  then show ?thesis using assms(2) run by (simp add: link_inv_def)
qed

lemma hup_inv:
  assumes "link_inv L" "task_net_poll_hup (net_transport id) (ln_ipc L) (ln_manager L) (ln_child L) = (c, s, b)"
  shows "link_inv (L\<lparr>ln_child := b, ln_ipc := c, ln_manager := s\<rparr>)"
proof -
  let ?m = "ln_manager L"
  have b: "b = (ln_child L)\<lparr>tn_hup := True\<rparr>" using assms(2) by (auto simp: task_net_poll_hup_def split: prod.splits)
  have wake: "s = ?m \<or> (\<exists>m e. luna_network_service id (event_word LUNA_ISOLATION_EVENT_NET_WAKE) 0 ?m = Some (m, e, s))"
    using assms(2)
    by (auto simp: task_net_poll_hup_def luna_lkl_task_manager_request_def luna_lkl_task_manager_request_value_def net_transport_def Let_def
        split: prod.splits if_splits option.splits)
  have t: "tx_link (ln_worker L) (ln_child L) ?m" "rx_link (ln_reader L) (ln_child L) ?m" using assms(1) by (simp_all add: link_inv_def)
  have "LUNA_ISOLATION_EVENT_NET_WAKE \<in> child_events" by (simp add: child_events_def)
  then have k: "link_inv (L\<lparr>ln_manager := s\<rparr>)"
    using wake child_request_kept [of ?m LUNA_ISOLATION_EVENT_NET_WAKE id 0] t(1) quiet_manager_inv [OF assms(1), of s] assms(1)
    by (auto simp: tx_link_def offer_kept_def)
  have "tx_part b = tx_part (ln_child L)" "rx_part b = rx_part (ln_child L)" unfolding b by (simp_all add: tx_part_def queue_view_def rx_part_def)
  then have "link_inv (L\<lparr>ln_manager := s, ln_child := b, ln_reader := ln_reader L\<rparr>)"
    using reader_inv [OF k, of b s "ln_reader L"] k rx_link_cong [of "ln_reader L" "ln_child L" s b s] by (simp add: link_inv_def)
  then show ?thesis by (simp add: link_inv_def)
qed

lemma irq_link: "net_inv (network_irq_step ok s) = net_inv s" "net_child_active (network_irq_step ok s) = net_child_active s"
  "unanswered s (network_irq_step ok s)" "link_fixed (network_irq_step ok s) = link_fixed s"
proof -
  have "tx_view (network_irq_step ok s) = tx_view s" "rx_view (network_irq_step ok s) = rx_view s" by (simp_all add: network_irq_step_def Let_def)
  then show "net_inv (network_irq_step ok s) = net_inv s" by (rule net_inv_frame)
qed (simp_all add: network_irq_step_def Let_def unanswered_def link_fixed_def signal_def count_def)

lemma link_step_inv:
  assumes "driver_ok E" "link_step E L L'" "link_inv L"
  shows "link_inv L'"
  using assms(2,3)
proof (cases rule: link_step.cases)
  case (link_worker pc b H w)
  let ?s = "(ln_manager L)\<lparr>net_header := H, net_window := w\<rparr>"
  have i: "tx_link (ln_worker L) (ln_child L) (ln_manager L)" "permits_ok (ln_worker L) (ln_child L) (ln_callers L)"
    "wake_ok (ln_worker L) (ln_child L) (ln_timer L)" "rx_link (ln_reader L) (ln_child L) (ln_manager L)"
    using assms(3) by (simp_all add: link_inv_def)
  note r = worker_step_ok [OF i(1-3) link_worker(2)]
  have "rx_link (ln_reader L) b ?s" by (rule rx_link_cong [OF i(4)]) (use r in simp_all)
  then show ?thesis using r unfolding link_worker(1) by (intro link_invI [where s = ?s]) auto
next
  case (link_woken)
  have "(if task_net_poll_woken (net_header (ln_manager L)) (ln_child L) = Some True then R_Fetch else R_Idle) \<noteq> R_Idle \<longrightarrow> tn_rx_count (ln_child L) = 0"
    using assms(3) link_woken(2) by (simp add: link_inv_def rx_link_def)
  then show ?thesis using assms(3) unfolding link_woken(1) by (simp add: link_inv_def rx_link_def)
next
  case (link_manager C n badge s)
  have "tx_link (ln_worker L) (ln_child L) (ln_manager L)" using assms(3) by (simp add: link_inv_def)
  from manager_link [OF assms(1) link_manager(2) this link_manager(3)] show ?thesis
    unfolding link_manager(1) by (intro manager_inv [OF assms(3)]) blast+
next
  case (link_request ev C n m e s)
  have t: "net_inv (ln_manager L)" "net_child_active (ln_manager L)" using assms(3) by (simp_all add: link_inv_def tx_link_def)
  from child_request_kept [OF t link_request(2,3)] show ?thesis
    unfolding link_request(1) by (intro quiet_manager_inv [OF assms(3)]) (auto simp: offer_kept_def)
next
  case (link_irq ok)
  have t: "net_inv (ln_manager L)" "net_child_active (ln_manager L)" using assms(3) by (simp_all add: link_inv_def tx_link_def)
  show ?thesis unfolding link_irq(1) by (intro quiet_manager_inv [OF assms(3)]) (use t irq_link [where ok = ok and s = "ln_manager L"] in auto)
next
  case (link_call iov n b)
  show ?thesis unfolding link_call(1) using call_inv [OF assms(3) link_call(2-4)] by blast
next
  case (link_insert cs iov n cs')
  show ?thesis unfolding link_insert(1) using insert_inv [OF assms(3) link_insert(2)] by blast
next
  case (link_timer b)
  show ?thesis unfolding link_timer(1) using timer_inv [OF assms(3) link_timer(2-4)] by blast
next
  case (link_expire g)
  show ?thesis unfolding link_expire(1) using expire_inv [OF assms(3) link_expire(2)] by blast
next
  case (link_timer_fail g)
  show ?thesis unfolding link_timer_fail(1) using timer_fail_inv [OF assms(3) link_timer_fail(2)] by blast
next
  case (link_finish r b)
  show ?thesis unfolding link_finish(1) using finish_inv [OF assms(3) link_finish(2)] by blast
next
  case (link_poll r b)
  show ?thesis unfolding link_poll(1) using poll_inv [OF assms(3) link_poll(2,3)] by blast
next
  case (link_fetch r c s b)
  show ?thesis unfolding link_fetch(1) using fetch_inv [OF assms(3) link_fetch(2,3)] by blast
next
  case (link_rx iov)
  show ?thesis unfolding link_rx(1) using rx_inv_step [OF assms(3) link_rx(2)] by blast
next
  case (link_hup c s b)
  show ?thesis unfolding link_hup(1) using hup_inv [OF assms(3) link_hup(2)] by blast
qed

lemma start_inv:
  assumes "luna_lkl_task_configure_net base sz mac0 mac1 rx tx sub b0 = (0, b1)" "luna_lkl_task_net_add ok device (-1) b1 = ((0, l), net_id, b)"
  shows "link_inv \<lparr>ln_child = b, ln_worker = W_Sleep, ln_timer = T_Wait, ln_callers = [], ln_reader = R_Idle, ln_ipc = c,
      ln_manager = map_child_reset True s\<rparr>"
proof -
  let ?s = "map_child_reset True s"
  have "b1 = zero_backend\<lparr>tn_configured := True\<rparr>" using assms(1) by (auto simp: luna_lkl_task_configure_net_def split: if_splits)
  then have b: "b = zero_backend\<lparr>tn_configured := True, tn_tx_work_sem := 0, tn_tx_free_sem := CQN - 1, tn_tx_drain_sem := 0, tn_coalesce_sem := 0,
      tn_hup := False\<rparr>"
    using assms(2) by (auto simp: luna_lkl_task_net_add_def Let_def zero_backend_def split: if_splits)
  have z: "0 < CQN" by (simp add: luna_consts)
  have q: "queue_ok b" "task_net_tx_queued b = 0" "child_queue b = []"
    using z unfolding b by (simp_all add: queue_ok_def task_net_tx_queued_def child_queue_def zero_backend_def)
  have m: "net_accepted ?s = []" "net_delivered ?s = []" "net_child_active ?s" "tx_request_sequence (net_header ?s) = 0"
    "tx_response_sequence (net_header ?s) = 0"
    by (simp_all add: map_child_reset_def Let_def signal_def reset_header_def)
  show ?thesis
  proof (rule link_invI)
    show "tx_link W_Sleep b ?s" using q m map_child_reset_inv [of True s] by (simp add: tx_link_defs) (simp add: b zero_backend_def)
    show "permits_ok W_Sleep b []" using q by (simp add: permits_ok_def owed_def) (simp add: b)
    show "wake_ok W_Sleep b T_Wait" using q by (simp add: wake_ok_def)
    have "rx_holding [] [] b ?s" using m(2) by (simp add: rx_holding_def b zero_backend_def)
    then show "rx_link R_Idle b ?s" by (auto simp: rx_link_def)
  qed simp_all
qed

lemma link_reachable_inv: "link_reachable E L \<Longrightarrow> driver_ok E \<Longrightarrow> link_inv L"
proof (induction rule: link_reachable.induct)
  case (link_start base sz mac0 mac1 rx tx sub b0 b1 ok device l net_id b c s)
  then show ?case by (intro start_inv)
next
  case (link_more L L')
  then show ?case using link_step_inv by blast
qed

section \<open>Properties\<close>

lemma worker_blocked:
  "worker_step pc b H w = None \<longleftrightarrow>
     (case pc of W_Sleep \<Rightarrow> tn_tx_work_sem b = 0 | W_Coalesce_Sleep g \<Rightarrow> tn_tx_work_sem b = 0
      | W_Wait n q \<Rightarrow> tx_response_sequence H \<noteq> q | W_Exit \<Rightarrow> True | _ \<Rightarrow> False)"
  by (cases pc) (simp_all add: worker_step_def split: prod.splits)


text \<open>
  C24: The error paths for an overrun queue and for an impossible answer are never taken. A caller
  that has passed the free semaphore finds room: unless the backend is stopped or in error its
  packet is inserted, byte for byte, and its length returned; the free semaphore, the callers, the
  queued packets and the units still to be given back always add up to 63; and the manager never
  answers a request with more packets than were offered.
\<close>

theorem link_tx_accepts:
  assumes "driver_ok E" "link_reachable E L"
  shows "(\<forall>(iov, n) \<in> set (ln_callers L). \<not> tn_tx_error (ln_child L) \<and> \<not> tn_tx_stop (ln_child L) \<longrightarrow>
      fst (task_net_tx_insert iov n (ln_child L)) = int n \<and>
      tn_taken (snd (task_net_tx_insert iov n (ln_child L))) = tn_taken (ln_child L) @ [concat (map the iov)]) \<and>
    tn_tx_free_sem (ln_child L) + length (ln_callers L) + task_net_tx_queued (ln_child L) + owed (ln_worker L) =
      LUNA_NET_CHILD_TX_QUEUE_COUNT - 1 \<and>
    (\<forall>n q. ln_worker L = W_Wait n q \<and> tx_response_sequence (net_header (ln_manager L)) = q \<longrightarrow>
      unat (tx_accepted (net_header (ln_manager L))) \<le> n)"
proof -
  have inv: "link_inv L" by (rule link_reachable_inv [OF assms(2,1)])
  have ins: "fst (task_net_tx_insert iov n (ln_child L)) = int n \<and>
      tn_taken (snd (task_net_tx_insert iov n (ln_child L))) = tn_taken (ln_child L) @ [concat (map the iov)]"
    if c: "(iov, n) \<in> set (ln_callers L)" "\<not> tn_tx_error (ln_child L)" "\<not> tn_tx_stop (ln_child L)" for iov n
  proof -
    obtain cs cs' where "ln_callers L = cs @ (iov, n) # cs'" using split_list [OF c(1)] by blast
    from insert_inv [OF inv this] show ?thesis using c(2,3) by blast
  qed
  moreover have "tn_tx_free_sem (ln_child L) + length (ln_callers L) + task_net_tx_queued (ln_child L) + owed (ln_worker L) = CQN - 1"
    using inv by (simp add: link_inv_def permits_ok_def)
  moreover have "unat (tx_accepted (net_header (ln_manager L))) \<le> n"
    if "ln_worker L = W_Wait n q" "tx_response_sequence (net_header (ln_manager L)) = q" for n q
    using inv that by (simp add: link_inv_def tx_link_def worker_offer_def)
  ultimately show ?thesis by (intro conjI) (auto split: prod.splits)
qed


text \<open>
  C15: The receive path from the manager to LKL. The packets fetched from the manager are, in
  order, those handed to LKL and those still held in the slots of the window; the poll function
  never finds an invalid length; and a packet it announces is handed over whole when the buffers
  offered to \<open>task_net_rx\<close> are large enough, cut to their size otherwise.
\<close>

theorem link_rx_in_order:
  assumes "driver_ok E" "link_reachable E L"
  shows "\<exists>fin held. net_delivered (ln_manager L) = fin @ held \<and> list_all2 prefix (tn_handed (ln_child L)) fin \<and>
    fst (task_net_poll_local (net_header (ln_manager L)) (ln_child L)) \<noteq> Poll_Error \<and>
    (\<forall>iov ps b. tn_pending_rx (ln_child L) \<noteq> 0 \<and> task_net_rx iov (net_window (ln_manager L)) (ln_child L) = (Some ps, b) \<longrightarrow>
      held \<noteq> [] \<and> prefix (concat ps) (hd held) \<and> tn_handed b = tn_handed (ln_child L) @ [concat ps] \<and>
      (tn_pending_rx (ln_child L) \<le> sum_list (map the iov) \<longrightarrow> concat ps = hd held))"
proof -
  have rx: "rx_link (ln_reader L) (ln_child L) (ln_manager L)" using link_reachable_inv [OF assms(2,1)] by (simp add: link_inv_def)
  then obtain fin held where h: "rx_holding fin held (ln_child L) (ln_manager L)" by (auto simp: rx_link_def)
  then have "rx_link R_Idle (ln_child L) (ln_manager L)" by (auto simp: rx_link_def)
  then have "fst (task_net_poll_local (net_header (ln_manager L)) (ln_child L)) \<noteq> Poll_Error"
    using poll_local_ok [of "ln_child L" "ln_manager L"] by (metis fst_conv surj_pair)
  moreover have "held \<noteq> [] \<and> prefix (concat ps) (hd held) \<and> tn_handed b = tn_handed (ln_child L) @ [concat ps] \<and>
      (tn_pending_rx (ln_child L) \<le> sum_list (map the iov) \<longrightarrow> concat ps = hd held)"
    if "task_net_rx iov (net_window (ln_manager L)) (ln_child L) = (Some ps, b)" for iov ps b
    using task_net_rx_ok [OF h that] by (auto simp: hd_conv_nth)
  moreover have "net_delivered (ln_manager L) = fin @ held" "list_all2 prefix (tn_handed (ln_child L)) fin"
    using h by (simp_all add: rx_holding_def)
  ultimately show ?thesis by (intro exI [of _ fin] exI [of _ held] conjI allI impI) (blast dest: conjunct2)+
qed

end
