(* ===== verification/Net_Link_Run.thy ===== *)
theory Net_Link_Run
  imports Net_Link
begin

text \<open>
  Set-up and tear-down of the child's network backend: the resources of a failed set-up, two
  flaws of the tear-down, and a concrete run of the child and the manager together.
\<close>

section \<open>A run\<close>

text \<open>One step of each thread, or none when it has to wait.\<close>

definition worker_run :: "'d net_link \<Rightarrow> 'd net_link" where
  "worker_run L = (case worker_step (ln_worker L) (ln_child L) (net_header (ln_manager L)) (net_window (ln_manager L)) of
     None \<Rightarrow> L
   | Some (pc, b, H, w) \<Rightarrow> L\<lparr>ln_worker := pc, ln_child := b, ln_manager := (ln_manager L)\<lparr>net_header := H, net_window := w\<rparr>\<rparr>)"

definition send_run :: "iovec \<Rightarrow> 'd net_link \<Rightarrow> 'd net_link" where
  "send_run iov L = (case task_net_tx_check iov (ln_child L) of None \<Rightarrow> L
   | Some n \<Rightarrow>
       let b = task_net_tx_enter (ln_child L)
       in if tn_tx_free_sem b = 0 then L
          else L\<lparr>ln_child := snd (task_net_tx_insert iov n (b\<lparr>tn_tx_free_sem := tn_tx_free_sem b - 1\<rparr>))\<rparr>)"

definition timer_run :: "'d net_link \<Rightarrow> 'd net_link" where
  "timer_run L = (case ln_timer L of
     T_Wait \<Rightarrow> let b = ln_child L
       in if tn_coalesce_sem b = 0 then L
          else L\<lparr>ln_child := b\<lparr>tn_coalesce_sem := tn_coalesce_sem b - 1\<rparr>,
                 ln_timer := (case coalesce_take b of None \<Rightarrow> T_Exit | Some (g, d) \<Rightarrow> T_Sleep g)\<rparr>
   | T_Sleep g \<Rightarrow> L\<lparr>ln_child := coalesce_expire g (ln_child L), ln_timer := T_Wait\<rparr>
   | T_Exit \<Rightarrow> L)"

definition manager_run :: "'d net_env \<Rightarrow> 'd net_link \<Rightarrow> 'd net_link" where
  "manager_run E L = (case network_poll_iteration E id 1 2 (ln_manager L) of None \<Rightarrow> L | Some s \<Rightarrow> L\<lparr>ln_manager := s\<rparr>)"

lemma worker_run_reachable: "link_reachable E L \<Longrightarrow> link_reachable E (worker_run L)"
  unfolding worker_run_def by (auto intro: link_more link_worker split: option.splits)

lemma send_run_reachable:
  assumes "link_reachable E L"
  shows "link_reachable E (send_run iov L)"
proof (cases "task_net_tx_check iov (ln_child L)")
  case (Some n)
  let ?b = "task_net_tx_enter (ln_child L)"
  let ?L = "L\<lparr>ln_child := ?b\<lparr>tn_tx_free_sem := tn_tx_free_sem ?b - 1\<rparr>, ln_callers := (iov, n) # ln_callers L\<rparr>"
  show ?thesis
  proof (cases "tn_tx_free_sem ?b = 0")
    case False
    have "link_reachable E ?L" by (rule link_more [OF assms link_call]) (use Some False in auto)
    moreover have "link_step E ?L (?L\<lparr>ln_child := snd (task_net_tx_insert iov n (ln_child ?L)), ln_callers := [] @ ln_callers L\<rparr>)"
      by (rule link_insert) simp
    ultimately have "link_reachable E (?L\<lparr>ln_child := snd (task_net_tx_insert iov n (ln_child ?L)), ln_callers := [] @ ln_callers L\<rparr>)"
      by (rule link_more)
    then show ?thesis using Some False by (simp add: send_run_def Let_def)
  qed (use assms Some in \<open>simp add: send_run_def Let_def\<close>)
qed (use assms in \<open>simp add: send_run_def\<close>)

lemma timer_run_reachable: "link_reachable E L \<Longrightarrow> link_reachable E (timer_run L)"
proof (cases "ln_timer L")
  case T_Wait
  assume "link_reachable E L"
  then show ?thesis using link_more [OF _ link_timer [OF T_Wait refl]] T_Wait by (auto simp: timer_run_def Let_def)
next
  case (T_Sleep g)
  assume "link_reachable E L"
  then show ?thesis using link_more [OF _ link_expire [OF T_Sleep]] T_Sleep by (simp add: timer_run_def)
qed (simp add: timer_run_def)

lemma manager_run_reachable: "link_reachable E L \<Longrightarrow> link_reachable E (manager_run E L)"
proof -
  have "child_passive id" unfolding child_passive_def
  proof
    fix H :: luna_net_batch_header
    have "id H = H\<lparr>rx_waiting := rx_waiting H\<rparr>" by simp
    then show "\<exists>v. id H = H\<lparr>rx_waiting := v\<rparr>" by blast
  qed
  then show "link_reachable E L \<Longrightarrow> link_reachable E (manager_run E L)"
    unfolding manager_run_def by (auto intro: link_more link_manager split: option.splits)
qed

text \<open>The start, a packet on its way to the driver, and the same after the worker has released it.\<close>

definition sample_child :: task_net_backend where
  "sample_child = zero_backend\<lparr>tn_configured := True, tn_tx_free_sem := 63\<rparr>"

definition sample_link :: "unit net_link" where
  "sample_link = \<lparr>ln_child = sample_child, ln_worker = W_Sleep, ln_timer = T_Wait, ln_callers = [], ln_reader = R_Idle,
     ln_ipc = \<lparr>task_manager_control_ep = 1, task_manager_command_ep = 2, task_manager_ipc_count = 0\<rparr>,
     ln_manager = map_child_reset True sample_boot\<rparr>"

definition sample_queued :: "unit net_link" where
  "sample_queued = worker_run (worker_run (send_run [Some [1, 2], Some [3]] sample_link))"

definition sample_offered :: "unit net_link" where
  "sample_offered = worker_run (worker_run (worker_run (worker_run (timer_run (timer_run sample_queued)))))"

definition sample_released :: "unit net_link" where
  "sample_released = worker_run (worker_run (worker_run (worker_run (manager_run sample_env sample_offered))))"

definition sample_second :: "unit net_link" where
  "sample_second = send_run [Some [4]] sample_released"

lemma sample_link_reachable: "link_reachable E sample_link"
proof -
  let ?b = "snd (luna_lkl_task_configure_net (of_nat LUNA_NET_IO_BASE) (of_nat LUNA_NET_IO_SIZE) LUNA_NET_MAC_WORD0 LUNA_NET_MAC_WORD1 1 2 3 zero_backend)"
  have "luna_lkl_task_configure_net (of_nat LUNA_NET_IO_BASE) (of_nat LUNA_NET_IO_SIZE) LUNA_NET_MAC_WORD0 LUNA_NET_MAC_WORD1 1 2 3 zero_backend = (0, ?b)"
    by (simp add: luna_lkl_task_configure_net_def)
  moreover have "luna_lkl_task_net_add (\<lambda>_. True) 0 (-1) ?b =
      ((0, snd (fst (luna_lkl_task_net_add (\<lambda>_. True) 0 (-1) ?b))), fst (snd (luna_lkl_task_net_add (\<lambda>_. True) 0 (-1) ?b)), sample_child)"
    by (simp add: sample_child_def luna_lkl_task_net_add_def luna_lkl_task_configure_net_def Let_def)
      (simp add: zero_backend_def luna_consts)
  ultimately show ?thesis unfolding sample_link_def by (rule link_start)
qed

lemma sample_run_reachable: "link_reachable E sample_queued" "link_reachable E sample_offered"
  "link_reachable sample_env sample_released" "link_reachable sample_env sample_second"
  unfolding sample_queued_def sample_offered_def sample_released_def sample_second_def
  by (intro worker_run_reachable send_run_reachable timer_run_reachable manager_run_reachable sample_link_reachable)+

definition link_summary where
  "link_summary L = (tn_taken (ln_child L), net_sent (ln_manager L), tn_tx_error (ln_child L), tn_tx_stop (ln_child L), tn_tx_head (ln_child L),
     tn_tx_tail (ln_child L), tn_tx_drain_sem (ln_child L), ln_worker L, tn_tx_work_sem (ln_child L))"

lemma sample_second_summary: "link_summary sample_second = ([[1, 2, 3], [4]], [[1, 2, 3]], False, False, 2, 1, 1, W_Sleep, 1)"
  by code_simp

lemma sample_second_eval:
  "tn_taken (ln_child sample_second) = [[1, 2, 3], [4]]" "net_sent (ln_manager sample_second) = [[1, 2, 3]]"
  "\<not> tn_tx_error (ln_child sample_second)" "\<not> tn_tx_stop (ln_child sample_second)" "tn_tx_head (ln_child sample_second) = 2"
  "tn_tx_tail (ln_child sample_second) = 1" "tn_tx_drain_sem (ln_child sample_second) = 1" "ln_worker sample_second = W_Sleep"
  "tn_tx_work_sem (ln_child sample_second) = 1"
  using sample_second_summary by (simp_all add: link_summary_def)


theorem link_tx_accepts_witness:
  "tn_tx_free_sem (ln_child sample_offered) + length (ln_callers sample_offered) + task_net_tx_queued (ln_child sample_offered) +
     owed (ln_worker sample_offered) = 63 \<and> task_net_tx_queued (ln_child sample_offered) = 1 \<and> ln_worker sample_offered = W_Wait 1 1"
proof -
  have "task_net_tx_queued (ln_child sample_offered) = 1 \<and> ln_worker sample_offered = W_Wait 1 1" by code_simp
  then show ?thesis using link_tx_accepts [OF sample_driver(1) sample_run_reachable(2)] by (simp add: luna_consts)
qed


theorem link_rx_in_order_witness:
  "fst (task_net_poll_local (net_header (ln_manager sample_queued)) (ln_child sample_queued)) \<noteq> Poll_Error"
  using link_rx_in_order [OF sample_driver(1) sample_run_reachable(1)] by blast

section \<open>Tear-down\<close>

text \<open>
  C37: \<open>luna_lkl_task_net_finish\<close> may fail on a healthy device. The worker raises the drain
  semaphore every time it empties the queue and nothing ever takes those units, so a later
  \<open>sem_down\<close> in \<open>luna_lkl_task_net_finish\<close> returns at once: here one packet has been sent, a second
  one is queued, the worker is about to handle it, no error has happened, and the call
  returns -1 instead of waiting for the queue to drain.
\<close>

theorem net_finish_fails_early:
  "\<exists>L b. link_reachable sample_env L \<and> \<not> tn_tx_error (ln_child L) \<and> \<not> tn_tx_stop (ln_child L) \<and>
     task_net_tx_queued (ln_child L) = 1 \<and> ln_worker L = W_Sleep \<and> 0 < tn_tx_work_sem (ln_child L) \<and>
     net_finish_drain (ln_child L) = Some (-1, b)"
proof -
  note e = sample_second_eval
  have "task_net_tx_queued (ln_child sample_second) = 1" using e by (simp add: task_net_tx_queued_def ring_used_def luna_consts)
  moreover have "\<exists>b. net_finish_drain (ln_child sample_second) = Some (-1, b)" using e by (simp add: net_finish_drain_def Let_def)
  ultimately show ?thesis using sample_run_reachable(4) e by (metis zero_less_one)
qed

text \<open>A worker that waits for a coalescing timer that has gone.\<close>

definition stranded :: "'d net_link \<Rightarrow> bool" where
  "stranded L \<longleftrightarrow> tn_tx_error (ln_child L) \<and> \<not> tn_tx_stop (ln_child L) \<and> ln_timer L = T_Exit \<and>
     (\<exists>g. ln_worker L \<in> {W_Coalesce g, W_Coalesce_Sleep g} \<and> tn_coalesce_expired_generation (ln_child L) \<noteq> g) \<and>
     0 < task_net_tx_queued (ln_child L) \<and> task_net_tx_queued (ln_child L) < LUNA_NET_BATCH_SLOTS \<and>
     tn_tx_head (ln_child L) \<noteq> tn_tx_tail (ln_child L)"

definition strand_view where
  "strand_view b = (queue_view b, tn_tx_error b, tn_tx_stop b, tn_coalesce_expired_generation b)"

lemma stranded_cong:
  assumes "stranded L" "strand_view (ln_child L') = strand_view (ln_child L)" "ln_timer L' = ln_timer L"
    "ln_worker L' = ln_worker L"
  shows "stranded L' \<and> child_queue (ln_child L') = child_queue (ln_child L)"
  using assms queue_view_cong [of "ln_child L'" "ln_child L"] by (simp add: stranded_def strand_view_def queue_view_def)

lemma stranded_worker:
  assumes "stranded L" "worker_step (ln_worker L) (ln_child L) H w = Some (pc, b, H', w')"
  shows "strand_view b = strand_view (ln_child L) \<and> (\<exists>g. pc \<in> {W_Coalesce g, W_Coalesce_Sleep g} \<and> tn_coalesce_expired_generation b \<noteq> g)"
proof -
  obtain g where g: "ln_worker L \<in> {W_Coalesce g, W_Coalesce_Sleep g}" "tn_coalesce_expired_generation (ln_child L) \<noteq> g"
    using assms(1) by (auto simp: stranded_def)
  show ?thesis using assms g
    by (auto simp: stranded_def worker_step_def worker_coalesce_def worker_coalesce_wake_def Let_def strand_view_def queue_view_def split: if_splits)
qed

lemma stranded_step:
  assumes "link_step E L L'" "stranded L"
  shows "stranded L' \<and> child_queue (ln_child L') = child_queue (ln_child L)"
  using assms
proof (cases rule: link_step.cases)
  case (link_worker pc b H w)
  note r = stranded_worker [OF assms(2) link_worker(2)]
  have "queue_view b = queue_view (ln_child L)" using r by (simp add: strand_view_def)
  then show ?thesis using r assms(2) queue_view_cong [of b "ln_child L"] unfolding link_worker(1)
    by (auto simp: stranded_def strand_view_def queue_view_def)
next
  case (link_timer b)
  then show ?thesis using assms(2) by (simp add: stranded_def)
next
  case (link_expire g)
  then show ?thesis using assms(2) by (simp add: stranded_def)
next
  case (link_timer_fail g)
  then show ?thesis using assms(2) by (simp add: stranded_def)
next
  case (link_finish r b)
  have "strand_view b = strand_view (ln_child L)"
    using link_finish(2) assms(2) by (auto simp: stranded_def net_finish_drain_def Let_def strand_view_def queue_view_def split: if_splits)
  then show ?thesis using link_finish(1) by (intro stranded_cong [OF assms(2)]) simp_all
next
  case (link_insert cs iov n cs')
  have "task_net_tx_insert iov n (ln_child L) = (-1, (ln_child L)\<lparr>tn_tx_free_sem := tn_tx_free_sem (ln_child L) + 1\<rparr>)"
    using assms(2) by (intro insert_refused) (simp add: stranded_def)
  then show ?thesis unfolding link_insert(1) by (intro stranded_cong [OF assms(2)]) (simp_all add: strand_view_def queue_view_def)
next
  case (link_fetch r c s b)
  have "strand_view b = strand_view (ln_child L)"
    using poll_fetch_tx [OF link_fetch(3)] link_fetch(3)
    by (auto simp: tx_part_def strand_view_def)
  then show ?thesis using link_fetch(1) by (intro stranded_cong [OF assms(2)]) simp_all
next
  case (link_hup c s b)
  have "strand_view b = strand_view (ln_child L)"
    using link_hup(2) by (auto simp: task_net_poll_hup_def strand_view_def queue_view_def split: prod.splits)
  then show ?thesis using link_hup(1) by (intro stranded_cong [OF assms(2)]) simp_all
next
  case (link_call iov n b)
  have "strand_view (b\<lparr>tn_tx_free_sem := tn_tx_free_sem b - 1\<rparr>) = strand_view (ln_child L)"
    unfolding link_call(3) by (simp add: strand_view_def queue_view_def task_net_tx_enter_def)
  then show ?thesis using link_call(1) by (intro stranded_cong [OF assms(2)]) simp_all
next
  case (link_poll r b)
  have "strand_view b = strand_view (ln_child L)"
    using link_poll(3) by (auto simp: strand_view_def queue_view_def task_net_poll_local_def Let_def split: if_splits)
  then show ?thesis using link_poll(1) by (intro stranded_cong [OF assms(2)]) simp_all
next
  case (link_rx iov)
  have "strand_view (snd (task_net_rx iov w b)) = strand_view b" for w b
    by (simp add: task_net_rx_def strand_view_def queue_view_def split: option.splits)
  then show ?thesis using link_rx(1) by (intro stranded_cong [OF assms(2)]) simp_all
qed (intro stranded_cong [OF assms(2)]; simp)+



section \<open>Set-up\<close>

text \<open>Everything acquired is released exactly once, and nothing else is.\<close>

definition balanced :: "net_action list \<Rightarrow> bool" where
  "balanced l \<longleftrightarrow> (\<forall>x. count_list l (Acquire x) = count_list l (Release x) \<and> count_list l (Acquire x) \<le> 1)"

lemma count_acquire [simp]:
  "count_list (map Acquire xs) (Acquire x) = count_list xs x" "count_list (map Acquire xs) (Release x) = 0"
  "count_list (map Release xs) (Release x) = count_list xs x" "count_list (map Release xs) (Acquire x) = 0"
  by (induction xs) simp_all

lemma count_filter: "count_list (filter P xs) x = (if P x then count_list xs x else 0)"
  by (induction xs) auto

abbreviation net_objects :: "net_object list" where
  "net_objects \<equiv> [O_Mutex, O_Work, O_Free, O_Drain, O_Coalesce]"

lemma fail_balanced:
  assumes "mid \<in> {[], [Acquire O_Coalesce_Thread, Release O_Coalesce_Thread],
    [Acquire O_Coalesce_Thread, Acquire O_Tx_Thread, Release O_Tx_Thread, Release O_Coalesce_Thread]}"
  shows "balanced (map Acquire (filter ok net_objects) @ mid @ net_add_fail ok)"
  unfolding balanced_def net_add_fail_def
proof
  fix x
  show "count_list (map Acquire (filter ok net_objects) @ mid @ map Release (filter ok [O_Coalesce, O_Drain, O_Free, O_Work, O_Mutex])) (Acquire x) =
      count_list (map Acquire (filter ok net_objects) @ mid @ map Release (filter ok [O_Coalesce, O_Drain, O_Free, O_Work, O_Mutex])) (Release x) \<and>
      count_list (map Acquire (filter ok net_objects) @ mid @ map Release (filter ok [O_Coalesce, O_Drain, O_Free, O_Work, O_Mutex])) (Acquire x) \<le> 1"
    using assms unfolding count_list_append count_acquire count_filter by (cases x) auto
qed

text \<open>
  \<open>luna_lkl_task_net_add\<close> gives back what it takes. It succeeds only when every object could be
  created and LKL accepts the device; then it holds the mutex, the four semaphores and the two
  threads. Otherwise it returns -1, and each object it created has been released exactly once,
  the others not at all.
\<close>

theorem net_add_balanced:
  "\<exists>r l i b'. luna_lkl_task_net_add ok device net_id b = ((r, l), i, b') \<and> (r = 0 \<or> r = -1) \<and>
    (r = 0) = (tn_configured b \<and> net_id < 0 \<and> (\<forall>x. ok x) \<and> device \<ge> 0) \<and>
    (if r = 0 then l = map Acquire [O_Mutex, O_Work, O_Free, O_Drain, O_Coalesce, O_Coalesce_Thread, O_Tx_Thread] else balanced l)"
proof -
  have all: "(\<forall>x. ok x) \<longleftrightarrow> list_all ok net_objects \<and> ok O_Coalesce_Thread \<and> ok O_Tx_Thread"
    by (simp add: list_all_def) (metis net_object.exhaust)
  consider (refused) "\<not> tn_configured b \<or> net_id \<ge> 0"
    | (objects) "tn_configured b" "net_id < 0" "\<not> list_all ok net_objects \<or> \<not> ok O_Coalesce_Thread"
    | (thread) "tn_configured b" "net_id < 0" "list_all ok net_objects" "ok O_Coalesce_Thread" "\<not> ok O_Tx_Thread"
    | (device) "tn_configured b" "net_id < 0" "\<forall>x. ok x" "device < 0" | (good) "tn_configured b" "net_id < 0" "\<forall>x. ok x" "device \<ge> 0"
    using all not_less [of net_id 0] not_less [of device 0] by blast
  then show ?thesis
  proof cases
    case refused
    then show ?thesis by (auto simp: luna_lkl_task_net_add_def balanced_def)
  next
    case objects
    have "\<not> (\<forall>x. ok x)" using objects(3) all by blast
    then show ?thesis using fail_balanced [of "[]" ok] objects
      by (simp add: luna_lkl_task_net_add_def Let_def del: filter.simps list.map list.pred_inject)
  next
    case thread
    have "\<not> (\<forall>x. ok x)" using thread(5) by blast
    then show ?thesis using fail_balanced [of "[Acquire O_Coalesce_Thread, Release O_Coalesce_Thread]" ok] thread
      by (simp add: luna_lkl_task_net_add_def Let_def del: filter.simps list.map list.pred_inject)
  next
    case device
    then show ?thesis
      using fail_balanced [of "[Acquire O_Coalesce_Thread, Acquire O_Tx_Thread, Release O_Tx_Thread, Release O_Coalesce_Thread]" ok] all
      by (simp add: luna_lkl_task_net_add_def Let_def del: filter.simps list.map list.pred_inject)
  next
    case good
    then show ?thesis by (simp add: luna_lkl_task_net_add_def)
  qed
qed

end
