(* ===== verification/Net_Wire.thy ===== *)
theory Net_Wire
  imports Luna_Prelude
begin

text \<open>
  The byte-level part of the child's network code (\<open>lkl_task_net.c\<close>): byte order, the Internet
  checksum, the trigger message of a receive burst and the loop that collects the burst with
  retransmission, and the sorting of samples. The machine is little-endian, so storing a word in
  memory writes its low byte first.
\<close>

unbundle bit_operations_syntax

section \<open>Byte order\<close>

definition le16 :: "u16 \<Rightarrow> u8 list" where
  "le16 v = [ucast v, ucast (drop_bit 8 v)]"

definition le32 :: "u32 \<Rightarrow> u8 list" where
  "le32 v = [ucast v, ucast (drop_bit 8 v), ucast (drop_bit 16 v), ucast (drop_bit 24 v)]"

definition task_ipv4 :: "u32 \<Rightarrow> u32 \<Rightarrow> u32 \<Rightarrow> u32 \<Rightarrow> u32" where
  "task_ipv4 a b c d = ucast (ucast a :: u8) OR push_bit 8 (ucast (ucast b :: u8)) OR
     push_bit 16 (ucast (ucast c :: u8)) OR push_bit 24 (ucast (ucast d :: u8))"

definition task_htons :: "u16 \<Rightarrow> u16" where
  "task_htons v = push_bit 8 v OR drop_bit 8 v"

definition task_ntohs :: "u16 \<Rightarrow> u16" where
  "task_ntohs v = task_htons v"

definition task_htonl :: "u32 \<Rightarrow> u32" where
  "task_htonl v = push_bit 24 (v AND 0x000000ff) OR push_bit 8 (v AND 0x0000ff00) OR
     drop_bit 8 (v AND 0x00ff0000) OR drop_bit 24 (v AND 0xff000000)"

definition task_ntohl :: "u32 \<Rightarrow> u32" where
  "task_ntohl v = task_htonl v"

definition task_net_next_rx_generation :: "u32 \<Rightarrow> u32" where
  "task_net_next_rx_generation g = (let g = g + 1 in if g = 0 then g + 1 else g)"

text \<open>Writing a list of bytes into an array, and the reading of the four bytes of a word.\<close>

definition put_bytes :: "bytes \<Rightarrow> nat \<Rightarrow> u8 list \<Rightarrow> bytes" where
  "put_bytes d i bs = memcpy_at d i (\<lambda>k. bs ! k) 0 (length bs)"

definition get32 :: "u8 list \<Rightarrow> u32" where
  "get32 bs = ucast (bs ! 0) OR push_bit 8 (ucast (bs ! 1)) OR push_bit 16 (ucast (bs ! 2)) OR push_bit 24 (ucast (bs ! 3))"

definition get16 :: "u8 list \<Rightarrow> u16" where
  "get16 bs = ucast (bs ! 0) OR push_bit 8 (ucast (bs ! 1))"

definition task_net_set_missing :: "bytes \<Rightarrow> u64 \<Rightarrow> bytes" where
  "task_net_set_missing trigger missing =
     put_bytes (put_bytes trigger 16 (le32 (task_htonl (ucast (drop_bit 32 missing)))))
       20 (le32 (task_htonl (ucast missing)))"

section \<open>The Internet checksum\<close>

fun checksum_sum :: "u8 list \<Rightarrow> u32 \<Rightarrow> u32" where
  "checksum_sum [] acc = acc"
| "checksum_sum [a] acc = acc + push_bit 8 (ucast a)"
| "checksum_sum (a # b # bs) acc = checksum_sum bs (acc + (push_bit 8 (ucast a) OR ucast b))"

lemma unat_lt2p: "unat (x :: 'a::len word) < 2 ^ LENGTH('a)"
  by (rule unsigned_less)

lemma fold_less: "0 < n div 65536 \<Longrightarrow> n mod 65536 + n div 65536 < (n :: nat)"
  using div_mult_mod_eq [of n 65536] by linarith

lemma unat_fold_step: "unat ((acc AND 0xffff) + drop_bit 16 acc :: u32) = unat acc mod 2 ^ 16 + unat acc div 2 ^ 16"
proof -
  have "acc AND 0xffff = take_bit 16 acc" by (simp add: take_bit_eq_mask mask_eq_exp_minus_1)
  then have m: "unat (acc AND 0xffff :: u32) = unat acc mod 2 ^ 16"
    by (metis unsigned_take_bit_eq take_bit_eq_mod)
  have d: "unat (drop_bit 16 acc :: u32) = unat acc div 2 ^ 16" by (metis unat_drop_bit_eq drop_bit_eq_div)
  have "unat acc div 2 ^ 16 < 2 ^ 16" using unat_lt2p [of acc] by (simp add: less_mult_imp_div_less)
  then show ?thesis using m d by (simp add: unat_word_ariths)
qed

function fold_carry :: "u32 \<Rightarrow> u32" where
  "fold_carry acc = (if drop_bit 16 acc \<noteq> 0 then fold_carry ((acc AND 0xffff) + drop_bit 16 acc) else acc)"
  by pat_completeness auto

termination
proof (relation "measure unat")
  fix acc :: u32
  assume "drop_bit 16 acc \<noteq> 0"
  then have "unat (drop_bit 16 acc) \<noteq> 0" by (simp add: unat_eq_0)
  then have pos: "0 < unat acc div 2 ^ 16" by (metis unat_drop_bit_eq drop_bit_eq_div gr0I)
  have "unat acc mod 2 ^ 16 + unat acc div 2 ^ 16 < unat acc"
    using fold_less [of "unat acc"] pos by simp
  then show "((acc AND 0xffff) + drop_bit 16 acc, acc) \<in> measure unat" by (simp only: in_measure unat_fold_step)
qed simp

declare fold_carry.simps [simp del]

definition task_checksum :: "u8 list \<Rightarrow> u16" where
  "task_checksum bs = task_htons (NOT (ucast (fold_carry (checksum_sum bs 0))))"

section \<open>Facts about byte order\<close>

lemma byte_masks:
  "(0xff :: u32) = mask 8" "(0xff00 :: u32) = push_bit 8 (mask 8)" "(0xff0000 :: u32) = push_bit 16 (mask 8)"
  "(0xff000000 :: u32) = push_bit 24 (mask 8)"
  by (simp_all add: mask_eq_exp_minus_1 push_bit_eq_mult)

lemma htonl_alt:
  "task_htonl v = push_bit 24 (v AND mask 8) OR push_bit 8 (v AND push_bit 8 (mask 8)) OR
     drop_bit 8 (v AND push_bit 16 (mask 8)) OR drop_bit 24 (v AND push_bit 24 (mask 8))"
  unfolding task_htonl_def byte_masks ..

lemma le16_htons: "le16 (task_htons v) = rev (le16 v)"
  unfolding le16_def task_htons_def by (auto intro!: bit_word_eqI simp: bit_simps)

lemma le32_htonl: "le32 (task_htonl v) = rev (le32 v)"
  unfolding le32_def htonl_alt by (auto intro!: bit_word_eqI simp: bit_simps)

lemma get32_le32 [simp]: "get32 (le32 v) = v"
proof (rule bit_word_eqI)
  fix n assume "n < LENGTH(32)"
  then consider "n < 8" | "8 \<le> n" "n < 16" | "16 \<le> n" "n < 24" | "24 \<le> n" "n < 32" by fastforce
  then show "bit (get32 (le32 v)) n = bit v n"
    by cases (simp_all add: get32_def le32_def bit_simps, arith+)
qed

lemma get16_le16 [simp]: "get16 (le16 v) = v"
proof (rule bit_word_eqI)
  fix n assume "n < LENGTH(16)"
  then consider "n < 8" | "8 \<le> n" "n < 16" by fastforce
  then show "bit (get16 (le16 v)) n = bit v n"
    by cases (simp_all add: get16_def le16_def bit_simps, arith+)
qed

lemma htons_involutive: "task_htons (task_htons v) = v"
  by (metis get16_le16 le16_htons rev_rev_ident)

lemma htonl_involutive: "task_htonl (task_htonl v) = v"
  by (metis get32_le32 le32_htonl rev_rev_ident)

text \<open>
  The trigger message is in network byte order. Storing \<open>task_htonl v\<close> writes the bytes of
  \<open>v\<close> most significant first (likewise for 16 bits), the conversions undo themselves, the mask of
  missing packets that a peer reads from bytes 16 to 23 is the one that was set, with the other
  bytes untouched, and a fresh generation is never 0 and never the previous one.
\<close>

theorem wire_roundtrip:
  "le32 (task_htonl v) = rev (le32 v) \<and> le16 (task_htons w) = rev (le16 w) \<and>
   task_ntohl (task_htonl v) = v \<and> task_ntohs (task_htons w) = w \<and>
   push_bit 32 (ucast (task_ntohl (get32 (slice (task_net_set_missing trigger missing) 16 4)))) OR
     ucast (task_ntohl (get32 (slice (task_net_set_missing trigger missing) 20 4))) = missing \<and>
   slice (task_net_set_missing trigger missing) 0 16 = slice trigger 0 16 \<and>
   task_net_next_rx_generation g \<noteq> 0 \<and> task_net_next_rx_generation g \<noteq> g"
proof -
  have l: "length (le32 x) = 4" for x by (simp add: le32_def)
  have sl: "slice (put_bytes d i bs) i (length bs) = bs" for d i bs
    unfolding put_bytes_def by (simp add: slice_memcpy_same) (simp add: slice_def map_nth)
  have hi: "slice (task_net_set_missing trigger missing) 16 4 = le32 (task_htonl (ucast (drop_bit 32 missing)))"
    using sl [of trigger 16 "le32 (task_htonl (ucast (drop_bit 32 missing)))"]
    unfolding task_net_set_missing_def put_bytes_def l by (simp add: slice_memcpy_other)
  have lo: "slice (task_net_set_missing trigger missing) 20 4 = le32 (task_htonl (ucast missing))"
    using sl [of _ 20 "le32 (task_htonl (ucast missing))"] unfolding task_net_set_missing_def l .
  have "push_bit 32 (ucast (ucast (drop_bit 32 missing) :: u32)) OR ucast (ucast missing :: u32) = missing"
    by (rule bit_word_eqI) (auto simp: bit_simps)
  moreover have "slice (task_net_set_missing trigger missing) 0 16 = slice trigger 0 16"
    unfolding task_net_set_missing_def put_bytes_def l by (simp add: slice_memcpy_other)
  moreover have "task_net_next_rx_generation g \<noteq> 0 \<and> task_net_next_rx_generation g \<noteq> g"
  proof (cases "g + 1 = 0")
    case True
    then have "g = -1" by (simp add: eq_neg_iff_add_eq_0)
    then show ?thesis by (simp add: task_net_next_rx_generation_def)
  next
    case False
    then show ?thesis by (simp add: task_net_next_rx_generation_def)
  qed
  moreover have "task_ntohl (get32 (slice (task_net_set_missing trigger missing) 16 4)) = ucast (drop_bit 32 missing)"
    "task_ntohl (get32 (slice (task_net_set_missing trigger missing) 20 4)) = ucast missing"
    by (simp_all only: hi lo get32_le32 task_ntohl_def htonl_involutive)
  ultimately show ?thesis
    by (simp only: task_ntohl_def task_ntohs_def le32_htonl le16_htons htonl_involutive htons_involutive, simp)
qed

section \<open>Facts about the checksum\<close>

text \<open>The sum of the 16-bit big-endian words, as a number.\<close>

fun word_sum :: "u8 list \<Rightarrow> nat" where
  "word_sum [] = 0"
| "word_sum [a] = 256 * unat a"
| "word_sum (a # b # bs) = 256 * unat a + unat b + word_sum bs"

lemma unat_pair: "unat (push_bit 8 (ucast a) OR ucast b :: u32) = 256 * unat (a :: u8) + unat (b :: u8)"
proof -
  have "push_bit 8 (ucast a) OR ucast b = push_bit 8 (ucast a) + (ucast b :: u32)"
    by (rule disjunctive_add_eq_or [symmetric], rule bit_word_eqI) (auto simp: bit_simps dest: bit_imp_le_length)
  moreover have "push_bit 8 (ucast a :: u32) = 256 * ucast a" by (simp add: push_bit_eq_mult)
  moreover have "unat (256 * ucast a + ucast b :: u32) = 256 * unat a + unat b"
    using unat_lt2p [of a] unat_lt2p [of b] by (simp add: unat_word_ariths unsigned_ucast_eq take_bit_nat_eq_self)
  ultimately show ?thesis by simp
qed

lemma word_sum_le: "word_sum bs \<le> 65535 * ((length bs + 1) div 2)"
proof (induction bs rule: word_sum.induct)
  case (2 a)
  then show ?case using unat_lt2p [of a] by simp
next
  case (3 a b bs)
  then show ?case using unat_lt2p [of a] unat_lt2p [of b] by simp
qed simp

lemma checksum_sum_word:
  "unat acc + word_sum bs < 2 ^ 32 \<Longrightarrow> unat (checksum_sum bs acc) = unat acc + word_sum bs"
proof (induction bs acc rule: checksum_sum.induct)
  case (2 a acc)
  have "unat (push_bit 8 (ucast a) :: u32) = 256 * unat a" using unat_pair [of a 0] by simp
  then show ?case using 2 by (simp add: unat_word_ariths)
next
  case (3 a b bs acc)
  let ?w = "push_bit 8 (ucast a) OR ucast b :: u32"
  have "unat (acc + ?w) = unat acc + (256 * unat a + unat b)" using 3(2) unat_pair [of a b] by (simp add: unat_word_ariths)
  then show ?case using 3 by simp
qed simp

lemma fold_mod: "(a + 65536 * q) mod 65535 = (a + q) mod (65535 :: nat)"
proof -
  have "a + 65536 * q = (a + q) + 65535 * q" by simp
  then show ?thesis by (simp only: mod_mult_self2)
qed

text \<open>Folding keeps the sum modulo \<open>2 ^ 16 - 1\<close>, in the range of a 16-bit word.\<close>

lemma fold_carry_value:
  "unat (fold_carry acc) < 65536 \<and> unat (fold_carry acc) mod 65535 = unat acc mod 65535 \<and>
   (unat (fold_carry acc) = 0 \<longleftrightarrow> unat acc = 0)"
proof (induction acc rule: fold_carry.induct)
  case (1 acc)
  show ?case
  proof (cases "drop_bit 16 acc \<noteq> 0")
    case True
    have eq: "unat ((acc AND 0xffff) + drop_bit 16 acc) = unat acc mod 65536 + unat acc div 65536"
      using unat_fold_step [of acc] by simp
    have "unat acc mod 65535 = (unat acc mod 65536 + 65536 * (unat acc div 65536)) mod 65535" by simp
    also have "\<dots> = (unat acc mod 65536 + unat acc div 65536) mod 65535"
      by (rule fold_mod)
    finally have m: "unat acc mod 65535 = (unat acc mod 65536 + unat acc div 65536) mod 65535" .
    have z: "unat acc mod 65536 + unat acc div 65536 = 0 \<longleftrightarrow> unat acc = 0"
      using div_mult_mod_eq [of "unat acc" 65536] by auto
    have "fold_carry acc = fold_carry ((acc AND 0xffff) + drop_bit 16 acc)" using True by (subst fold_carry.simps) simp
    then show ?thesis using 1 [OF True] unfolding eq using m z by simp
  next
    case False
    then have "fold_carry acc = acc" by (subst fold_carry.simps) simp
    moreover have "unat acc < 65536"
    proof -
      have "unat (drop_bit 16 acc) = 0" using False by simp
      then have "drop_bit 16 (unat acc) = 0" by (simp only: unat_drop_bit_eq)
      then have "unat acc div 2 ^ 16 = 0" by (simp only: drop_bit_eq_div)
      then show ?thesis by (simp add: div_eq_0_iff)
    qed
    ultimately show ?thesis by simp
  qed
qed

lemma unat_complement: "unat (NOT x :: u16) = 65535 - unat x"
proof -
  have "NOT x = - x - 1" by (simp add: not_eq_complement)
  also have "- x - 1 = of_nat (65535 - unat x)"
    using unat_lt2p [of x] by (simp add: of_nat_diff)
  finally have "unat (NOT x) = unat (of_nat (65535 - unat x) :: u16)" by (rule arg_cong)
  then show ?thesis by (simp only: unat_of_nat) (simp add: take_bit_nat_eq_self)
qed

lemma word_sum_append: "even (length xs) \<Longrightarrow> word_sum (xs @ ys) = word_sum xs + word_sum ys"
  by (induction xs rule: word_sum.induct) auto

lemma htons_bytes:
  assumes "le16 (task_htons v) = [a, b]"
  shows "256 * unat a + unat b = unat v"
proof -
  have ab: "a = ucast (drop_bit 8 v)" "b = ucast v" using assms unfolding le16_htons by (simp_all add: le16_def)
  have "unat a = unat v div 2 ^ 8 mod 2 ^ 8"
  proof -
    have "unat (drop_bit 8 v) = unat v div 2 ^ 8" by (metis unat_drop_bit_eq drop_bit_eq_div)
    then show ?thesis unfolding ab by (simp only: unsigned_ucast_eq take_bit_eq_mod) simp
  qed
  moreover have "unat v div 2 ^ 8 < 2 ^ 8" using unat_lt2p [of v] by (simp add: less_mult_imp_div_less)
  moreover have "unat b = unat v mod 2 ^ 8" unfolding ab by (simp only: unsigned_ucast_eq take_bit_eq_mod) simp
  ultimately show ?thesis by simp
qed

text \<open>
  The checksum verifies. For a message of up to 128 KiB whose checksum field (an even offset)
  was zero when it was computed, the checksum over the message with the result stored in that
  field is 0, which is how a receiver checks it; and the folding loop ends.
\<close>

theorem checksum_verifies:
  assumes "even (length xs)" "length xs + length ys \<le> 131068"
  shows "task_checksum (xs @ le16 (task_checksum (xs @ [0, 0] @ ys)) @ ys) = 0"
proof -
  let ?S = "word_sum xs + word_sum ys"
  have "?S \<le> 65535 * ((length xs + 1) div 2 + (length ys + 1) div 2)"
    using word_sum_le [of xs] word_sum_le [of ys] by simp
  moreover have "(length xs + 1) div 2 + (length ys + 1) div 2 \<le> 65535" using assms by presburger
  ultimately have bound: "65535 + ?S < 2 ^ 32" by simp
  let ?f = "fold_carry (checksum_sum (xs @ [0, 0] @ ys) 0)"
  have "word_sum (xs @ [0, 0] @ ys) = ?S" using word_sum_append [OF assms(1)] by simp
  then have s1: "unat (checksum_sum (xs @ [0, 0] @ ys) 0) = ?S"
    using checksum_sum_word [of 0 "xs @ [0, 0] @ ys"] bound by simp
  let ?c = "NOT (ucast ?f) :: u16"
  have f: "unat ?f < 65536" "unat ?f mod 65535 = ?S mod 65535" using fold_carry_value [of "checksum_sum (xs @ [0, 0] @ ys) 0"] s1 by auto
  have "unat (ucast ?f :: u16) = unat ?f" using f(1) by (simp add: unsigned_ucast_eq take_bit_nat_eq_self)
  then have c: "unat ?c = 65535 - unat ?f" using unat_complement by simp
  obtain a b where ab: "le16 (task_htons ?c) = [a, b]" by (simp add: le16_def)
  let ?m = "xs @ [a, b] @ ys"
  have "word_sum ?m = ?S + unat ?c" using word_sum_append [OF assms(1)] htons_bytes [OF ab] by simp
  then have s2: "unat (checksum_sum ?m 0) = ?S + unat ?c" using checksum_sum_word [of 0 ?m] bound c by simp
  let ?g = "fold_carry (checksum_sum ?m 0)"
  have g: "unat ?g < 65536" "unat ?g mod 65535 = (?S + unat ?c) mod 65535" "unat ?g \<noteq> 0 \<or> ?S + unat ?c = 0"
    using fold_carry_value [of "checksum_sum ?m 0"] s2 by auto
  have "(?S + unat ?c) mod 65535 = (unat ?f + unat ?c) mod 65535" using f(2) by (metis mod_add_left_eq)
  also have "\<dots> = 0" using c f(1) by simp
  finally have "unat ?g mod 65535 = 0" using g(2) by simp
  moreover have "?S + unat ?c \<noteq> 0"
  proof
    assume z: "?S + unat ?c = 0"
    then have "unat ?f = 65535" using c f(1) by simp
    then show False using z s1 fold_carry_value [of "checksum_sum (xs @ [0, 0] @ ys) 0"] by simp
  qed
  ultimately have "unat ?g \<noteq> 0" "unat ?g mod 65535 = 0" using g(3) by auto
  then have "unat ?g = 65535" using g(1) by (cases "unat ?g < 65535") (auto simp: mod_less)
  then have "?g = 0xffff" by (intro unsigned_word_eqI [where ?'a = nat]) simp
  then show ?thesis using ab by (simp add: task_checksum_def task_htons_def)
qed

end
