(* ===== verification/Net_Burst.thy ===== *)
theory Net_Burst
  imports Net_Wire "HOL-Library.Multiset"
begin

text \<open>
  The collection of a receive burst with retransmission (\<open>task_net_receive_burst\<close>) and the
  insertion sort behind the percentiles (\<open>task_net_rx_throughput_benchmark\<close> and
  \<open>task_sample_percentiles\<close>). What the sockets deliver is a parameter: for every attempt the result of
  the send and the finite sequence of receptions before the poll times out.
\<close>

unbundle bit_operations_syntax

definition TASK_NET_THROUGHPUT_PACKETS :: nat where [luna_consts]: "TASK_NET_THROUGHPUT_PACKETS = 24"
definition TASK_NET_BURST_TRIGGER_SIZE :: nat where [luna_consts]: "TASK_NET_BURST_TRIGGER_SIZE = 24"
definition TASK_NET_RX_RETRY_LIMIT :: nat where [luna_consts]: "TASK_NET_RX_RETRY_LIMIT = 3"
definition LUNA_NET_STRESS_PAYLOAD :: nat where [luna_consts]: "LUNA_NET_STRESS_PAYLOAD = 1200"
definition LUNA_BLOCK_BENCH_SAMPLES :: nat where [luna_consts]: "LUNA_BLOCK_BENCH_SAMPLES = 7"

section \<open>Collecting a burst\<close>

record task_net_rx_recovery_stats =
  rs_retries :: u64
  rs_recovered_bursts :: u64
  rs_duplicates :: u64
  rs_stale :: u64

text \<open>\<open>br_got\<close> and \<open>br_triggers\<close> record history: the sequence numbers counted and the triggers sent.\<close>

record burst =
  br_seen :: u64
  br_received :: nat
  br_stats :: task_net_rx_recovery_stats
  br_got :: "nat list"
  br_triggers :: "bytes list"

datatype burst_event = Poll_Failed | Recv_Result int "u8 list"

definition burst_packet :: "u32 \<Rightarrow> nat \<Rightarrow> u8 list \<Rightarrow> burst \<Rightarrow> c_int option \<times> burst" where
  "burst_packet generation retry packet s =
     (let sequence = unat (task_ntohs (get16 packet));
          n = unat (task_ntohs (get16 (drop 2 packet)));
          packet_generation = task_ntohl (get32 (drop 4 packet))
      in if packet_generation \<noteq> generation
         then (None, s\<lparr>br_stats := (br_stats s)\<lparr>rs_stale := rs_stale (br_stats s) + 1\<rparr>\<rparr>)
         else if n \<noteq> TASK_NET_THROUGHPUT_PACKETS \<or> sequence \<ge> TASK_NET_THROUGHPUT_PACKETS then (Some (-1), s)
         else if \<exists>i \<in> set [8..<LUNA_NET_STRESS_PAYLOAD]. packet ! i \<noteq> of_nat sequence then (Some (-1), s)
         else
           let b = push_bit sequence (1 :: u64)
           in if br_seen s AND b \<noteq> 0
              then (None, s\<lparr>br_stats := (br_stats s)\<lparr>rs_duplicates := rs_duplicates (br_stats s) + 1\<rparr>\<rparr>)
              else
                let s = s\<lparr>br_seen := br_seen s OR b, br_received := br_received s + 1, br_got := br_got s @ [sequence]\<rparr>
                in if br_received s = TASK_NET_THROUGHPUT_PACKETS
                   then (Some 0, if retry \<noteq> 0
                           then s\<lparr>br_stats := (br_stats s)\<lparr>rs_recovered_bursts := rs_recovered_bursts (br_stats s) + 1\<rparr>\<rparr>
                           else s)
                   else (None, s))"

fun burst_receive :: "u32 \<Rightarrow> nat \<Rightarrow> burst_event list \<Rightarrow> burst \<Rightarrow> c_int option \<times> burst" where
  "burst_receive generation retry [] s = (None, s)"
| "burst_receive generation retry (Poll_Failed # es) s = (Some (-1), s)"
| "burst_receive generation retry (Recv_Result n packet # es) s =
     (if n \<noteq> int LUNA_NET_STRESS_PAYLOAD then (Some (-1), s)
      else case burst_packet generation retry packet s of
             (None, s) \<Rightarrow> burst_receive generation retry es s
           | (Some r, s) \<Rightarrow> (Some r, s))"

definition burst_expected :: u64 where
  "burst_expected = push_bit TASK_NET_THROUGHPUT_PACKETS 1 - 1"

fun burst_retries :: "u32 \<Rightarrow> (nat \<Rightarrow> int \<times> burst_event list) \<Rightarrow> nat \<Rightarrow> nat \<Rightarrow> bytes \<Rightarrow> burst \<Rightarrow> c_int \<times> burst" where
  "burst_retries generation script retry 0 trigger s = (-1, s)"
| "burst_retries generation script retry (Suc n) trigger s =
     (let missing = burst_expected AND NOT (br_seen s);
          trigger = task_net_set_missing trigger missing;
          s = s\<lparr>br_triggers := br_triggers s @ [trigger]\<rparr>;
          (sent, es) = script retry
      in if sent \<noteq> int TASK_NET_BURST_TRIGGER_SIZE then (-1, s)
         else
           let s = (if retry \<noteq> 0 then s\<lparr>br_stats := (br_stats s)\<lparr>rs_retries := rs_retries (br_stats s) + 1\<rparr>\<rparr> else s)
           in case burst_receive generation retry es s of
                (Some r, s) \<Rightarrow> (r, s)
              | (None, s) \<Rightarrow> burst_retries generation script (Suc retry) n trigger s)"

definition task_net_receive_burst ::
  "u32 \<Rightarrow> (nat \<Rightarrow> int \<times> burst_event list) \<Rightarrow> bytes \<Rightarrow> task_net_rx_recovery_stats \<Rightarrow> c_int \<times> burst" where
  "task_net_receive_burst rx_generation script trigger stats =
     (let generation = task_net_next_rx_generation rx_generation;
          trigger = put_bytes trigger 12 (le32 (task_htonl generation))
      in burst_retries generation script 0 (TASK_NET_RX_RETRY_LIMIT + 1) trigger
           \<lparr>br_seen = 0, br_received = 0, br_stats = stats, br_got = [], br_triggers = []\<rparr>)"

section \<open>Sorting samples\<close>

fun shift_in :: "u64 list \<Rightarrow> nat \<Rightarrow> u64 \<Rightarrow> u64 list" where
  "shift_in xs 0 v = xs[0 := v]"
| "shift_in xs (Suc j) v = (if xs ! j > v then shift_in (xs[Suc j := xs ! j]) j v else xs[Suc j := v])"

definition sort_samples :: "u64 list \<Rightarrow> u64 list" where
  "sort_samples xs = fold (\<lambda>i xs. shift_in xs i (xs ! i)) [1..<length xs] xs"

text \<open>The median and the largest of at most \<open>LUNA_BLOCK_BENCH_SAMPLES\<close> samples; the count is not 0.\<close>

definition task_sample_percentiles :: "u64 list \<Rightarrow> nat \<Rightarrow> u64 \<times> u64 \<times> u64" where
  "task_sample_percentiles samples n =
     (let n = (if n > LUNA_BLOCK_BENCH_SAMPLES then LUNA_BLOCK_BENCH_SAMPLES else n);
          ordered = sort_samples (take n samples)
      in (ordered ! ((n - 1) div 2), ordered ! (n - 1), ordered ! (n - 1)))"

section \<open>Facts\<close>

definition burst_ok :: "burst \<Rightarrow> bool" where
  "burst_ok s \<longleftrightarrow> distinct (br_got s) \<and> set (br_got s) \<subseteq> {..<TASK_NET_THROUGHPUT_PACKETS} \<and>
     br_received s = length (br_got s) \<and> (\<forall>i < 64. bit (br_seen s) i \<longleftrightarrow> i \<in> set (br_got s))"

lemma and_bit_zero: "i < 64 \<Longrightarrow> (w AND push_bit i (1 :: u64)) \<noteq> 0 \<longleftrightarrow> bit w i"
proof -
  assume "i < 64"
  then have "bit (push_bit i (1 :: u64)) i" by (simp add: bit_simps)
  then have "push_bit i (1 :: u64) \<noteq> 0" by (metis bit_0_eq bot_apply bot_bool_def)
  moreover have "w AND push_bit i (1 :: u64) = (if bit w i then push_bit i 1 else 0)"
    by (rule bit_word_eqI) (auto simp: bit_simps)
  ultimately show ?thesis by simp
qed

lemma burst_packet_ok:
  assumes "burst_ok s" "burst_packet generation retry packet s = (r, s')"
  shows "burst_ok s' \<and> (r = Some 0 \<longrightarrow> br_received s' = TASK_NET_THROUGHPUT_PACKETS)"
proof -
  define sq where "sq = unat (task_ntohs (get16 packet))"
  let ?b = "push_bit sq (1 :: u64)"
  let ?new = "s\<lparr>br_seen := br_seen s OR ?b, br_received := br_received s + 1, br_got := br_got s @ [sq]\<rparr>"
  have same: "burst_ok (s\<lparr>br_stats := t\<rparr>) = burst_ok s" for s t by (simp add: burst_ok_def)
  have new: "burst_ok ?new" if "sq < TASK_NET_THROUGHPUT_PACKETS" "br_seen s AND ?b = 0"
  proof -
    have "sq < 64" using that(1) by (simp add: luna_consts)
    then have "sq \<notin> set (br_got s)" using that(2) assms(1) and_bit_zero [of sq "br_seen s"] by (auto simp: burst_ok_def)
    then show ?thesis using assms(1) that(1) by (auto simp: burst_ok_def bit_simps)
  qed
  show ?thesis
    using assms new same
    unfolding burst_packet_def Let_def sq_def [symmetric]
    by (auto split: if_splits simp: same)
qed

lemma burst_receive_ok:
  "burst_ok s \<Longrightarrow> burst_receive generation retry es s = (r, s') \<Longrightarrow>
   burst_ok s' \<and> (r = Some 0 \<longrightarrow> br_received s' = TASK_NET_THROUGHPUT_PACKETS)"
proof (induction generation retry es s rule: burst_receive.induct)
  case (3 generation retry n packet es s)
  obtain r1 s1 where p: "burst_packet generation retry packet s = (r1, s1)" by (cases "burst_packet generation retry packet s")
  from burst_packet_ok [OF 3(2) this] 3 p show ?case by (cases r1) (auto split: if_splits)
qed auto

lemma burst_retries_ok:
  "burst_ok s \<Longrightarrow> burst_retries generation script retry n trigger s = (r, s') \<Longrightarrow>
   burst_ok s' \<and> (r = 0 \<longrightarrow> br_received s' = TASK_NET_THROUGHPUT_PACKETS)"
proof (induction n arbitrary: retry trigger s)
  case (Suc n)
  define missing where "missing = burst_expected AND NOT (br_seen s)"
  define s1 where "s1 = s\<lparr>br_triggers := br_triggers s @ [task_net_set_missing trigger missing]\<rparr>"
  define s2 where "s2 = (if retry \<noteq> 0 then s1\<lparr>br_stats := (br_stats s1)\<lparr>rs_retries := rs_retries (br_stats s1) + 1\<rparr>\<rparr> else s1)"
  obtain sent es where sc: "script retry = (sent, es)" by (cases "script retry")
  obtain r3 s3 where rc: "burst_receive generation retry es s2 = (r3, s3)" by (cases "burst_receive generation retry es s2")
  have ok: "burst_ok s1" "burst_ok s2" using Suc.prems(1) by (auto simp: burst_ok_def s1_def s2_def)
  note r3 = burst_receive_ok [OF ok(2) rc]
  have eq: "burst_retries generation script retry (Suc n) trigger s =
    (if sent \<noteq> int TASK_NET_BURST_TRIGGER_SIZE then (-1, s1)
     else case r3 of Some r \<Rightarrow> (r, s3) | None \<Rightarrow> burst_retries generation script (Suc retry) n (task_net_set_missing trigger missing) s3)"
    unfolding burst_retries.simps Let_def sc missing_def [symmetric] s1_def [symmetric] s2_def [symmetric] by (simp add: rc)
  show ?case using Suc.prems(2) Suc.IH r3 ok(1) unfolding eq by (auto split: if_splits option.splits)
qed auto

lemma burst_expected_bit:
  assumes "i < 64"
  shows "bit burst_expected i \<longleftrightarrow> i < TASK_NET_THROUGHPUT_PACKETS"
proof -
  have "burst_expected = mask TASK_NET_THROUGHPUT_PACKETS" by (simp add: burst_expected_def mask_eq_exp_minus_1 push_bit_eq_mult)
  moreover have "bit (mask TASK_NET_THROUGHPUT_PACKETS :: u64) i \<longleftrightarrow> i < TASK_NET_THROUGHPUT_PACKETS"
    using assms by (simp add: bit_mask_iff)
  ultimately show ?thesis by simp
qed

text \<open>
  A burst counts as received only when every packet arrived. The collection loop always
  returns; when it returns 0, each of the 24 sequence numbers of the current generation was
  received with its payload intact and counted exactly once, across at most four attempts, whatever stale,
  duplicated or reordered packets the network delivered in between; and at any return the packets it would ask for again are exactly those not yet seen.
\<close>

theorem burst_complete:
  assumes "task_net_receive_burst g script trigger stats = (r, s)"
  shows "distinct (br_got s) \<and> set (br_got s) \<subseteq> {..<24} \<and> (r = 0 \<longrightarrow> set (br_got s) = {..<24} \<and> br_seen s = burst_expected) \<and>
    (\<forall>i < 64. bit (burst_expected AND NOT (br_seen s)) i \<longleftrightarrow> i < 24 \<and> i \<notin> set (br_got s))"
proof -
  have "burst_ok \<lparr>br_seen = 0, br_received = 0, br_stats = stats, br_got = [], br_triggers = []\<rparr>"
    by (simp add: burst_ok_def)
  then have ok: "burst_ok s" "r = 0 \<longrightarrow> br_received s = 24"
    using assms burst_retries_ok unfolding task_net_receive_burst_def Let_def by (auto simp: luna_consts)
  have d: "distinct (br_got s)" "set (br_got s) \<subseteq> {..<24}" "br_received s = length (br_got s)"
    and bits: "\<forall>i < 64. bit (br_seen s) i \<longleftrightarrow> i \<in> set (br_got s)"
    using ok(1) by (auto simp: burst_ok_def luna_consts)
  have all: "set (br_got s) = {..<24} \<and> br_seen s = burst_expected" if "r = 0"
  proof -
    have "card (set (br_got s)) = 24" using that ok(2) d distinct_card [of "br_got s"] by simp
    then have set: "set (br_got s) = {..<24}" using d(2) by (intro card_subset_eq) auto
    moreover have "br_seen s = burst_expected"
      by (rule bit_word_eqI) (use bits set burst_expected_bit in \<open>simp add: luna_consts\<close>)
    ultimately show ?thesis by simp
  qed
  have "\<forall>i < 64. bit (burst_expected AND NOT (br_seen s)) i \<longleftrightarrow> i < 24 \<and> i \<notin> set (br_got s)"
    using bits burst_expected_bit by (simp add: bit_simps luna_consts)
  then show ?thesis using d all by blast
qed

text \<open>A burst whose packets arrive in order at the first attempt.\<close>

definition sample_packet :: "u32 \<Rightarrow> nat \<Rightarrow> u8 list" where
  "sample_packet generation k =
     le16 (task_htons (of_nat k)) @ le16 (task_htons 24) @ le32 (task_htonl generation) @ replicate 1192 (of_nat k)"

definition sample_script :: "nat \<Rightarrow> int \<times> burst_event list" where
  "sample_script retry = (24, map (\<lambda>k. Recv_Result 1200 (sample_packet 1 k)) [0..<24])"

definition sample_stats :: task_net_rx_recovery_stats where
  "sample_stats = \<lparr>rs_retries = 0, rs_recovered_bursts = 0, rs_duplicates = 0, rs_stale = 0\<rparr>"

lemma get_append: "get16 (le16 v @ xs) = v" "get32 (le32 w @ xs) = w" "drop 2 (le16 v @ xs) = xs" "length (le16 v) = 2" "length (le32 w) = 4"
  using get16_le16 [of v] get32_le32 [of w] by (simp_all add: get16_def get32_def le16_def le32_def)

lemma sample_packet_parse:
  assumes "k < 24"
  shows "unat (task_ntohs (get16 (sample_packet g k))) = k" "task_ntohs (get16 (drop 2 (sample_packet g k))) = 24"
    "task_ntohl (get32 (drop 4 (sample_packet g k))) = g" "\<forall>i \<in> set [8..<LUNA_NET_STRESS_PAYLOAD]. sample_packet g k ! i = of_nat k"
proof -
  have "unat (of_nat k :: u16) = k" using assms by (simp add: unat_of_nat take_bit_nat_eq_self)
  then show "unat (task_ntohs (get16 (sample_packet g k))) = k"
    by (simp add: sample_packet_def get_append task_ntohs_def htons_involutive)
  show "task_ntohs (get16 (drop 2 (sample_packet g k))) = 24"
    by (simp add: sample_packet_def get_append task_ntohs_def htons_involutive)
  have "drop 4 (sample_packet g k) = drop 2 (drop 2 (sample_packet g k))" by simp
  also have "\<dots> = le32 (task_htonl g) @ replicate 1192 (of_nat k)" unfolding sample_packet_def get_append ..
  finally show "task_ntohl (get32 (drop 4 (sample_packet g k))) = g" by (simp add: get_append task_ntohl_def htonl_involutive)
  show "\<forall>i \<in> set [8..<LUNA_NET_STRESS_PAYLOAD]. sample_packet g k ! i = of_nat k"
  proof
    fix i assume "i \<in> set [8..<LUNA_NET_STRESS_PAYLOAD]"
    then have "8 \<le> i" "i < 1200" unfolding set_upt LUNA_NET_STRESS_PAYLOAD_def by auto
    then obtain m where "i = 8 + m" "m < 1192" using le_Suc_ex by force
    then show "sample_packet g k ! i = of_nat k" by (simp add: sample_packet_def nth_append get_append)
  qed
qed

lemma burst_packet_sample:
  assumes "k < 24" "\<not> bit (br_seen s) k"
  shows "burst_packet g 0 (sample_packet g k) s =
    (let s = s\<lparr>br_seen := br_seen s OR push_bit k 1, br_received := br_received s + 1, br_got := br_got s @ [k]\<rparr>
     in (if br_received s = 24 then Some 0 else None, s))"
proof -
  note parse = sample_packet_parse [OF assms(1), of g]
  have "\<not> (\<exists>i \<in> set [8..<LUNA_NET_STRESS_PAYLOAD]. sample_packet g k ! i \<noteq> of_nat k)" using parse(4) by blast
  moreover have "br_seen s AND push_bit k 1 = 0" using and_bit_zero [of k "br_seen s"] assms by auto
  ultimately show ?thesis
    using assms(1) unfolding burst_packet_def Let_def parse(1-3) TASK_NET_THROUGHPUT_PACKETS_def by auto
qed

lemma stress_payload: "int LUNA_NET_STRESS_PAYLOAD = 1200"
  by (simp add: luna_consts)

lemma sample_receive:
  "burst_ok s \<Longrightarrow> br_got s = [0..<j] \<Longrightarrow> j < 24 \<Longrightarrow>
   fst (burst_receive g 0 (map (\<lambda>k. Recv_Result 1200 (sample_packet g k)) [j..<24]) s) = Some 0"
proof (induction "23 - j" arbitrary: j s)
  case 0
  have j: "j = 23" using 0 by simp
  have "br_received s = 23" "\<not> bit (br_seen s) 23" using 0(2,3) j by (auto simp: burst_ok_def)
  then have "fst (burst_packet g 0 (sample_packet g 23) s) = Some 0"
    using burst_packet_sample [of 23 s g] by (simp add: Let_def)
  then show ?case unfolding j by (cases "burst_packet g 0 (sample_packet g 23) s") (simp add: stress_payload upt_conv_Cons)
next
  case (Suc n)
  have j: "j < 23" using Suc.hyps(2) by simp
  let ?b = "push_bit j (1 :: u64)"
  let ?s = "s\<lparr>br_seen := br_seen s OR ?b, br_received := br_received s + 1, br_got := br_got s @ [j]\<rparr>"
  have "br_received s = j" "\<not> bit (br_seen s) j" using Suc.prems j by (auto simp: burst_ok_def)
  then have p: "burst_packet g 0 (sample_packet g j) s = (None, ?s)"
    using burst_packet_sample [of j s g] j by (simp add: Let_def)
  have "burst_ok ?s" using burst_packet_ok [OF Suc.prems(1) p] by simp
  moreover have "br_got ?s = [0..<Suc j]" using Suc.prems(2) by simp
  ultimately have "fst (burst_receive g 0 (map (\<lambda>k. Recv_Result 1200 (sample_packet g k)) [Suc j..<24]) ?s) = Some 0"
    using Suc.hyps(1) [of "Suc j" ?s] Suc.hyps(2) j by simp
  then show ?case using p j by (simp add: upt_conv_Cons stress_payload)
qed

lemma sample_burst: "fst (task_net_receive_burst 0 sample_script (\<lambda>_. 0) sample_stats) = 0"
proof -
  have g: "task_net_next_rx_generation 0 = 1" by (simp add: task_net_next_rx_generation_def)
  have first: "fst (burst_receive 1 0 (snd (sample_script 0)) s) = Some 0" if "br_got s = []" "burst_ok s" for s
    using sample_receive [of s 0 1] that by (simp add: sample_script_def del: upt_Suc)
  have run: "fst (burst_retries 1 sample_script 0 (Suc n) trigger s) = 0" if "br_got s = []" "burst_ok s" for n trigger s
  proof -
    let ?s = "s\<lparr>br_triggers := br_triggers s @ [task_net_set_missing trigger (burst_expected AND NOT (br_seen s))]\<rparr>"
    have "fst (burst_receive 1 0 (snd (sample_script 0)) ?s) = Some 0" using first [of ?s] that by (simp add: burst_ok_def)
    moreover have "sample_script 0 = (int TASK_NET_BURST_TRIGGER_SIZE, snd (sample_script 0))"
      by (simp add: sample_script_def luna_consts del: upt_Suc)
    ultimately show ?thesis
      by (cases "burst_receive 1 0 (snd (sample_script 0)) ?s"; cases "sample_script 0") (simp add: Let_def)
  qed
  show ?thesis unfolding task_net_receive_burst_def g Let_def Suc_eq_plus1 [symmetric] by (rule run) (simp_all add: burst_ok_def)
qed

theorem burst_complete_witness:
  "set (br_got (snd (task_net_receive_burst 0 sample_script (\<lambda>_. 0) sample_stats))) = {..<24}"
  using burst_complete [OF surjective_pairing, of 0 sample_script "\<lambda>_. 0" sample_stats] sample_burst by blast

section \<open>Sorting\<close>

lemma insort_snoc:
  fixes v :: u64
  assumes "sorted (ys @ [y])"
  shows "insort v (ys @ [y]) = (if y > v then insort v ys @ [y] else ys @ [y, v])"
proof -
  have "insort v (ys @ [y]) = sort (v # ys @ [y])" using assms by (simp add: sorted_sort_id del: sort_append)
  also have "\<dots> = (if y > v then insort v ys @ [y] else ys @ [y, v])"
    by (rule properties_for_sort) (use assms in \<open>auto simp: sorted_append sorted_insort set_insort_key\<close>)
  finally show ?thesis .
qed

lemma shift_in_insort:
  "j < length xs \<Longrightarrow> sorted (take j xs) \<Longrightarrow> shift_in xs j v = insort v (take j xs) @ drop (Suc j) xs"
proof (induction j arbitrary: xs)
  case 0
  then show ?case by (cases xs) simp_all
next
  case (Suc j)
  have snoc: "take (Suc j) xs = take j xs @ [xs ! j]" using Suc.prems(1) by (simp add: take_Suc_conv_app_nth)
  then have sorted: "sorted (take j xs @ [xs ! j])" using Suc.prems(2) by simp
  show ?case
  proof (cases "xs ! j > v")
    case True
    let ?xs = "xs[Suc j := xs ! j]"
    have "shift_in ?xs j v = insort v (take j ?xs) @ drop (Suc j) ?xs"
      using Suc.IH [of ?xs] Suc.prems(1) sorted by (simp add: sorted_append)
    moreover have "drop (Suc j) ?xs = xs ! j # drop (Suc (Suc j)) xs"
      using Suc.prems(1) by (simp add: drop_update_swap flip: Cons_nth_drop_Suc)
    ultimately show ?thesis using True insort_snoc [OF sorted, of v] snoc by simp
  next
    case False
    then show ?thesis
      using insort_snoc [OF sorted, of v] snoc Suc.prems(1) by (simp add: upd_conv_take_nth_drop)
  qed
qed

lemma sort_samples_prefix:
  assumes "1 \<le> n" "n \<le> length xs"
  shows "fold (\<lambda>i xs. shift_in xs i (xs ! i)) [1..<n] xs = sort (take n xs) @ drop n xs"
  using assms
proof (induction n rule: nat_induct_at_least)
  case base
  then show ?case by (cases xs) simp_all
next
  case (Suc n)
  let ?ys = "sort (take n xs) @ drop n xs"
  have ih: "fold (\<lambda>i xs. shift_in xs i (xs ! i)) [1..<n] xs = ?ys" using Suc by simp
  have nth: "?ys ! n = xs ! n" using Suc.prems by (simp add: nth_append)
  have "shift_in ?ys n (xs ! n) = insort (xs ! n) (sort (take n xs)) @ drop (Suc n) xs"
    using shift_in_insort [of n ?ys "xs ! n"] Suc.prems by (simp add: min_absorb2)
  moreover have "insort (xs ! n) (sort (take n xs)) = sort (take (Suc n) xs)"
    by (rule properties_for_sort [symmetric])
      (use Suc.prems in \<open>simp_all add: take_Suc_conv_app_nth sorted_insort\<close>)
  ultimately show ?case using ih nth Suc.hyps by simp
qed

text \<open>
  The samples are sorted. The insertion sort of the benchmarks returns the samples in order,
  and the percentiles are the median and the maximum of the samples considered.
\<close>

theorem percentiles_correct:
  assumes "0 < n" "n \<le> LUNA_BLOCK_BENCH_SAMPLES" "n \<le> length samples"
  shows "sort_samples samples = sort samples \<and>
    task_sample_percentiles samples n =
      (sort (take n samples) ! ((n - 1) div 2), Max (set (take n samples)), Max (set (take n samples)))"
proof -
  have all: "sort_samples xs = sort xs" if "xs \<noteq> []" for xs
    using sort_samples_prefix [of "length xs" xs] that by (cases xs) (simp_all add: sort_samples_def)
  let ?xs = "take n samples"
  have ne: "?xs \<noteq> []" "length ?xs = n" using assms by auto
  have len: "length (sort ?xs) = n" using ne by simp
  have "Max (set (sort ?xs)) = sort ?xs ! (n - 1)"
  proof (rule Max_eqI)
    fix y assume "y \<in> set (sort ?xs)"
    then obtain i where "i < n" "y = sort ?xs ! i" using len by (metis in_set_conv_nth)
    then show "y \<le> sort ?xs ! (n - 1)" using len by (auto intro!: sorted_nth_mono)
  next
    show "sort ?xs ! (n - 1) \<in> set (sort ?xs)" using len assms(1) by (intro nth_mem) simp
  qed simp
  then have "sort ?xs ! (n - 1) = Max (set ?xs)" by simp
  then show ?thesis using all ne assms by (auto simp: task_sample_percentiles_def Let_def)
qed

theorem percentiles_correct_witness:
  "task_sample_percentiles [5, 3, 9, 1] 3 = (5, 9, 9)"
proof -
  have "(0::nat) < 3 \<and> 3 \<le> LUNA_BLOCK_BENCH_SAMPLES \<and> 3 \<le> length [5, 3, 9, 1 :: u64]" by (simp add: luna_consts)
  then have "task_sample_percentiles [5, 3, 9, 1] 3 = (sort [5, 3, 9] ! 1, Max (set [5, 3, 9]), Max (set [5, 3, 9]))"
    using percentiles_correct [of 3 "[5, 3, 9, 1]"] by simp
  moreover have "sort [5, 3, 9 :: u64] = [3, 5, 9]" by simp
  ultimately show ?thesis by simp
qed

theorem checksum_verifies_witness:
  "task_checksum ([8, 0] @ le16 (task_checksum ([8, 0] @ [0, 0] @ [76, 85, 0, 37])) @ [76, 85, 0, 37]) = 0"
  by (rule checksum_verifies) simp_all

end
